(* ===== verification/Prelude.thy ===== *)
theory Prelude
  imports Main "HOL-Library.Word"
begin

text \<open>
  What every component shares: the machine types, the byte-addressed memory that C pointers
  point into, little- and big-endian reads, and the result type of the C functions that
  return \<open>false\<close> or 0 on failure. Pointers and \<open>size_t\<close> are 64 bits wide, the data
  model of the arm64 and x86_64 builds of the app; both are little endian.
\<close>

unbundle bit_operations_syntax

section \<open>Machine types\<close>

type_synonym u8 = "8 word"
type_synonym u16 = "16 word"
type_synonym u32 = "32 word"
type_synonym u64 = "64 word"

type_synonym bytes = "8 word list"

named_theorems word_facts \<open>facts that move a word goal to bits or to naturals\<close>

section \<open>Results of fallible C functions\<close>

text \<open>
  A C function that returns \<open>bool\<close> and works on a stream object ends in one of three ways:
  it returns true with an output value and the new stream, it returns false with the stream
  as it was left, or it has no result at all: the recursion is deeper than the fuel of the
  model, or the code runs into undefined behaviour.
\<close>

datatype ('v, 's) outcome = Ok 'v 's | Fail 's | NoResult

fun bindo :: "('v, 's) outcome \<Rightarrow> ('v \<Rightarrow> 's \<Rightarrow> ('w, 's) outcome) \<Rightarrow> ('w, 's) outcome" where
  "bindo (Ok v s) f = f v s"
| "bindo (Fail s) f = Fail s"
| "bindo NoResult f = NoResult"

fun_cases bindo_OkE: "bindo r f = Ok v s"

lemma bindo_assoc [simp]: "bindo (bindo r f) g = bindo r (\<lambda>v s. bindo (f v s) g)"
  by (cases r) auto

lemma bindo_Ok_right [simp]: "bindo r Ok = r"
  by (cases r) auto

lemma bindo_eq_Ok [simp]: "bindo r f = Ok w t \<longleftrightarrow> (\<exists>v s. r = Ok v s \<and> f v s = Ok w t)"
  by (cases r) auto

lemma bindo_eq_Fail:
  "bindo r f = Fail t \<longleftrightarrow> r = Fail t \<or> (\<exists>v s. r = Ok v s \<and> f v s = Fail t)"
  by (cases r) auto

section \<open>Byte-addressed memory\<close>

text \<open>
  Memory is a total map from addresses to bytes; pointer arithmetic is arithmetic on 64-bit
  words. Reading an address the program does not own is undefined in C; the model reads
  some byte there, so every theorem that depends on what is owned says so.
\<close>

type_synonym mem = "64 word \<Rightarrow> 8 word"

fun mem_read :: "mem \<Rightarrow> u64 \<Rightarrow> nat \<Rightarrow> bytes" where
  "mem_read m a 0 = []"
| "mem_read m a (Suc n) = m a # mem_read m (a + 1) n"

fun mem_write :: "mem \<Rightarrow> u64 \<Rightarrow> bytes \<Rightarrow> mem" where
  "mem_write m a [] = m"
| "mem_write m a (b # bs) = mem_write (m(a := b)) (a + 1) bs"

lemma length_mem_read [simp]: "length (mem_read m a n) = n"
  by (induction n arbitrary: a) auto

lemma mem_read_nth: "i < n \<Longrightarrow> mem_read m a n ! i = m (a + of_nat i)"
proof (induction n arbitrary: a i)
  case (Suc n)
  then show ?case by (cases i) (auto simp: add.assoc)
qed simp

lemma mem_read_add: "mem_read m a (i + j) = mem_read m a i @ mem_read m (a + of_nat i) j"
  by (induction i arbitrary: a) (auto simp: algebra_simps)

lemma take_mem_read: "i \<le> n \<Longrightarrow> take i (mem_read m a n) = mem_read m a i"
  using mem_read_add[of m a i "n - i"] by simp

lemma drop_mem_read: "drop i (mem_read m a n) = mem_read m (a + of_nat i) (n - i)"
proof (cases "i \<le> n")
  case True
  then show ?thesis using mem_read_add[of m a i "n - i"] by simp
qed auto

lemma mem_read_cong: "(\<And>i. i < n \<Longrightarrow> m (a + of_nat i) = m' (a + of_nat i)) \<Longrightarrow>
    mem_read m a n = mem_read m' a n"
  by (rule nth_equalityI) (auto simp: mem_read_nth)

text \<open>Offsets that do not wrap around are distinct addresses.\<close>

lemma word_offset_neq:
  assumes "i < 2 ^ 64" and "j < 2 ^ 64" and "i \<noteq> j"
  shows "(a::u64) + of_nat i \<noteq> a + of_nat j"
proof -
  have "(of_nat i :: u64) \<noteq> of_nat j"
    using assms by (simp add: word_of_nat_eq_iff take_bit_nat_eq_self)
  then show ?thesis by simp
qed

lemma mem_write_other:
  "(\<And>i. i < length bs \<Longrightarrow> a + of_nat i \<noteq> b) \<Longrightarrow> mem_write m a bs b = m b"
proof (induction bs arbitrary: m a)
  case (Cons x bs)
  from Cons.prems[of 0] have "a \<noteq> b" by simp
  moreover have "a + 1 + of_nat i \<noteq> b" if "i < length bs" for i
    using Cons.prems[of "Suc i"] that by (simp add: add.assoc)
  ultimately show ?case using Cons.IH[of "a + 1"] by simp
qed simp

lemma mem_write_append: "mem_write m a (bs @ cs) = mem_write (mem_write m a bs) (a + of_nat (length bs)) cs"
  by (induction bs arbitrary: m a) (auto simp: algebra_simps)

lemma mem_write_in:
  "i < length bs \<Longrightarrow> length bs \<le> 2 ^ 64 \<Longrightarrow> mem_write m a bs (a + of_nat i) = bs ! i"
proof (induction bs arbitrary: m a i)
  case (Cons x bs)
  show ?case
  proof (cases i)
    case 0
    have "mem_write (m(a := x)) (a + 1) bs a = (m(a := x)) a"
    proof (rule mem_write_other)
      fix j assume "j < length bs"
      then have "Suc j < 2 ^ 64" and "Suc j \<noteq> 0" using Cons.prems by auto
      then have "a + of_nat (Suc j) \<noteq> a + of_nat 0" by (intro word_offset_neq) auto
      then show "a + 1 + of_nat j \<noteq> a" by (simp add: add.assoc)
    qed
    then show ?thesis using 0 by simp
  next
    case (Suc k)
    have "mem_write (m(a := x)) (a + 1) bs (a + 1 + of_nat k) = bs ! k"
      using Cons.prems Suc by (intro Cons.IH) auto
    then show ?thesis by (simp only: Suc of_nat_Suc mem_write.simps nth_Cons_Suc ac_simps)
  qed
qed simp

lemma mem_read_write_same:
  "length bs \<le> 2 ^ 64 \<Longrightarrow> mem_read (mem_write m a bs) a (length bs) = bs"
  by (rule nth_equalityI) (auto simp: mem_read_nth mem_write_in)

section \<open>Integers as bytes\<close>

text \<open>
  \<open>le_word\<close> assembles a word from bytes in memory order on a little-endian machine;
  \<open>word_byte\<close> is the byte of a word at a bit offset, the C idiom \<open>(x >> k) & 0xff\<close>
  followed by a cast to a byte.
\<close>

fun le_word :: "bytes \<Rightarrow> 'a::len word" where
  "le_word [] = 0"
| "le_word (b # bs) = ucast b OR push_bit 8 (le_word bs)"

definition word_byte :: "'a::len word \<Rightarrow> nat \<Rightarrow> u8" where
  "word_byte w k = ucast (drop_bit k w)"

fun le_bytes :: "nat \<Rightarrow> 'a::len word \<Rightarrow> bytes" where
  "le_bytes 0 w = []"
| "le_bytes (Suc n) w = ucast w # le_bytes n (drop_bit 8 w)"

lemma length_le_bytes [simp]: "length (le_bytes n w) = n"
  by (induction n arbitrary: w) auto

lemma le_word_le_bytes: "le_word (le_bytes n w) = take_bit (8 * n) (w :: 'a::len word)"
proof (induction n arbitrary: w)
  case (Suc n)
  show ?case
    by (rule bit_word_eqI) (auto simp: Suc.IH bit_simps not_less dest: bit_imp_le_length)
qed simp

lemma le_bytes_nth: "i < n \<Longrightarrow> le_bytes n w ! i = ucast (drop_bit (8 * i) w)"
proof (induction n arbitrary: w i)
  case (Suc n)
  then show ?case
    by (cases i) (auto simp: drop_bit_drop_bit algebra_simps simp del: drop_bit_Suc)
qed simp

lemma le_bytes_cong:
  assumes "\<And>i. i < 8 * n \<Longrightarrow> bit (v :: 'a::len word) i \<longleftrightarrow> bit (w :: 'b::len word) i"
  shows "le_bytes n v = le_bytes n w"
proof (rule nth_equalityI)
  fix i assume "i < length (le_bytes n v)"
  then have i: "i < n" by simp
  have "(ucast (drop_bit (8 * i) v) :: u8) = ucast (drop_bit (8 * i) w)"
  proof (rule bit_word_eqI)
    fix j assume "j < LENGTH(8)"
    then have "8 * i + j < 8 * n" using i by simp
    then show "bit (ucast (drop_bit (8 * i) v) :: u8) j = bit (ucast (drop_bit (8 * i) w) :: u8) j"
      using assms by (simp add: bit_simps)
  qed
  then show "le_bytes n v ! i = le_bytes n w ! i" using i by (simp add: le_bytes_nth)
qed simp

lemma bit_le_word: "bit (le_word bs :: 'a::len word) i \<longleftrightarrow>
    i < LENGTH('a) \<and> i < 8 * length bs \<and> bit (bs ! (i div 8)) (i mod 8)"
proof (induction bs arbitrary: i)
  case (Cons b bs)
  show ?case
  proof (cases "i < 8")
    case True
    then show ?thesis by (simp add: bit_simps)
  next
    case False
    then obtain j where i: "i = j + 8" by (metis le_add_diff_inverse2 not_le)
    have "\<not> bit b i" using False by (auto dest: bit_imp_le_length)
    moreover have "(j + 8) div 8 = Suc (j div 8)" by simp
    ultimately show ?thesis by (auto simp: i bit_or_iff bit_push_bit_iff bit_ucast_iff Cons.IH)
  qed
qed simp

lemma le_bytes_le_word:
  assumes "8 * length bs \<le> LENGTH('a)"
  shows "le_bytes (length bs) (le_word bs :: 'a::len word) = bs"
proof (rule nth_equalityI)
  fix i assume "i < length (le_bytes (length bs) (le_word bs :: 'a word))"
  then have i: "i < length bs" by simp
  have "(ucast (drop_bit (8 * i) (le_word bs :: 'a word)) :: u8) = bs ! i"
  proof (rule bit_word_eqI)
    fix j assume j: "j < LENGTH(8)"
    then have "8 * i + j < 8 * length bs" "(8 * i + j) div 8 = i" "(8 * i + j) mod 8 = j" using i by auto
    moreover from this(1) have "8 * i + j < LENGTH('a)" using assms by simp
    ultimately show "bit (ucast (drop_bit (8 * i) (le_word bs :: 'a word)) :: u8) j = bit (bs ! i) j"
      using j by (simp add: bit_simps bit_le_word del: drop_bit_Suc)
  qed
  then show "le_bytes (length bs) (le_word bs :: 'a word) ! i = bs ! i"
    using i by (simp add: le_bytes_nth)
qed simp

definition rd8 :: "mem \<Rightarrow> u64 \<Rightarrow> u8" where
  "rd8 m a = m a"

definition rd16 :: "mem \<Rightarrow> u64 \<Rightarrow> u16" where
  "rd16 m a = le_word (mem_read m a 2)"

definition rd32 :: "mem \<Rightarrow> u64 \<Rightarrow> u32" where
  "rd32 m a = le_word (mem_read m a 4)"

definition rd64 :: "mem \<Rightarrow> u64 \<Rightarrow> u64" where
  "rd64 m a = le_word (mem_read m a 8)"

lemma le_bytes_reads:
  "le_bytes 1 (rd8 m a) = mem_read m a 1"
  "le_bytes 2 (rd16 m a) = mem_read m a 2"
  "le_bytes 4 (rd32 m a) = mem_read m a 4"
  "le_bytes 8 (rd64 m a) = mem_read m a 8"
  using le_bytes_le_word[of "mem_read m a 2", where 'a = 16] le_bytes_le_word[of "mem_read m a 4", where 'a = 32]
    le_bytes_le_word[of "mem_read m a 8", where 'a = 64]
  by (simp_all add: rd8_def rd16_def rd32_def rd64_def)

lemma le_bytes_scast:
  "8 * n \<le> LENGTH('a) \<Longrightarrow> LENGTH('a) \<le> 64 \<Longrightarrow> le_bytes n (scast (w :: 'a::len word) :: u64) = le_bytes n w"
proof (rule le_bytes_cong)
  fix i assume n: "8 * n \<le> LENGTH('a)" "LENGTH('a) \<le> 64" and i: "i < 8 * n"
  then have "i < LENGTH('a)" "i < 64" by auto
  then have "\<not> i < LENGTH('a) - 1 \<Longrightarrow> i = LENGTH('a) - 1" by linarith
  then show "bit (scast w :: u64) i \<longleftrightarrow> bit w i"
    using \<open>i < 64\<close> by (cases "i < LENGTH('a) - 1") (auto simp: bit_simps min_def)
qed

lemma le_bytes_ucast:
  "8 * n \<le> LENGTH('a) \<Longrightarrow> LENGTH('a) \<le> 64 \<Longrightarrow> le_bytes n (ucast (w :: 'a::len word) :: u64) = le_bytes n w"
  by (rule le_bytes_cong) (auto simp: bit_simps)

text \<open>The low seven bits and the continuation bit of a byte.\<close>

lemma and_7F: "(w :: 'a::len word) AND 0x7F = take_bit 7 w"
  by (simp add: take_bit_eq_mask mask_eq_exp_minus_1)

lemma and_80_zero_iff: "(b :: u8) AND 0x80 = 0 \<longleftrightarrow> \<not> bit b 7"
proof -
  have e: "(0x80 :: u8) = push_bit 7 1" by simp
  show ?thesis unfolding e by (simp only: bit_iff_and_push_bit_not_eq_0 not_not)
qed

lemma unat_le_bound: "unat (x :: 'a::len word) < 2 ^ LENGTH('a)"
  by (rule unsigned_less)

lemma unat_drop_bit: "unat (drop_bit k (v :: 'a::len word)) = unat v div 2 ^ k"
  by (subst unat_drop_bit_eq) (rule drop_bit_eq_div)

lemma drop_bit_less:
  assumes "(v :: 'a::len word) \<noteq> 0" and "0 < k"
  shows "unat (drop_bit k v) < unat v"
proof -
  have "0 < unat v" using assms(1) by (simp add: unat_gt_0)
  moreover have "(1::nat) < 2 ^ k" using assms(2) by (intro one_less_power) auto
  ultimately show ?thesis unfolding unat_drop_bit by (intro div_less_dividend)
qed

lemma or_80_and_7F: "((b :: u8) OR 0x80) AND 0x7F = b AND 0x7F"
proof -
  have "(b OR 0x80) AND 0x7F = (b AND 0x7F) OR (0x80 AND 0x7F)"
    by (rule bit.conj_disj_distrib2)
  then show ?thesis by simp
qed

lemma or_80_and_80: "((b :: u8) OR 0x80) AND 0x80 = 0x80"
  by (rule bit_word_eqI) (auto simp: bit_simps)

text \<open>A group of seven bits put into a byte with the continuation bit, and read back.\<close>

lemma group_and_7F: "(ucast ((v :: u64) AND 0x7F) OR 0x80 :: u8) AND 0x7F = ucast (take_bit 7 v)"
  unfolding or_80_and_7F and_7F by (rule bit_word_eqI) (auto simp: bit_simps)

lemma take_bit_small: "drop_bit k v = 0 \<Longrightarrow> take_bit k (v :: 'a::len word) = v"
  using bits_ident[of k v] by simp

lemma le_7F_iff: "(v :: u64) \<le> 0x7F \<longleftrightarrow> drop_bit 7 v = 0"
proof -
  have "drop_bit 7 v = 0 \<longleftrightarrow> unat v div 2 ^ 7 = 0"
    by (simp add: unat_drop_bit flip: unat_eq_zero del: power_numeral)
  then show ?thesis by (auto simp: word_le_nat_alt div_eq_0_iff)
qed

text \<open>One step of assembling a word from groups of seven bits.\<close>

lemma take_bit_group:
  "take_bit k v OR push_bit k (take_bit 7 (drop_bit k v)) = take_bit (k + 7) (v :: 'a::len word)"
  by (rule bit_word_eqI) (auto simp: bit_simps)

end
