(* ===== verification/Nanopb_Stream.thy ===== *)
theory Nanopb_Stream
  imports Prelude
begin

text \<open>
  The stream objects of nanopb (\<open>pb_ostream_t\<close> in pb_encode.h, \<open>pb_istream_t\<close> in
  pb_decode.h) with \<open>pb_write\<close>, \<open>pb_read\<close>, \<open>pb_readbyte\<close>, the buffer callbacks
  \<open>buf_write\<close> and \<open>buf_read\<close> and the two constructors from a buffer. The build defines
  PB_ENABLE_MALLOC and PB_FIELD_32BIT and neither PB_BUFFER_ONLY nor PB_NO_ERRMSG.

  Two locales state what a callback promises to the code that calls it: \<open>byte_sink\<close> for
  the output side and \<open>byte_source\<close> for the input side. Both are interpreted on the
  buffer callbacks of the code.
\<close>

section \<open>Output streams\<close>

text \<open>
  The callback gets the stream's \<open>state\<close> pointer and the bytes and returns whether it
  succeeded and the new state; the documentation forbids it to touch the other fields. A
  \<open>state\<close> of None is the NULL pointer of a sizing stream, a callback of None the NULL
  callback that marks one.
\<close>

record 's pb_ostream =
  ocallback :: "('s option \<Rightarrow> bytes \<Rightarrow> bool \<times> 's option) option"
  ostate :: "'s option"
  max_size :: u64
  bytes_written :: u64
  oerrmsg :: "string option"

text \<open>PB_SET_ERROR keeps the first message; PB_RETURN_ERROR returns false after it.\<close>

definition oset_error :: "'s pb_ostream \<Rightarrow> string \<Rightarrow> 's pb_ostream" where
  "oset_error s msg = s\<lparr>oerrmsg := (case oerrmsg s of Some e \<Rightarrow> Some e | None \<Rightarrow> Some msg)\<rparr>"

definition PB_OSTREAM_SIZING :: "'s pb_ostream" where
  "PB_OSTREAM_SIZING =
     \<lparr>ocallback = None, ostate = None, max_size = 0, bytes_written = 0, oerrmsg = None\<rparr>"

text \<open>
  \<open>buf_write\<close> keeps the output cursor in the stream's state: the memory it writes and the
  address of the next byte. A NULL cursor is never handed to it by \<open>pb_ostream_from_buffer\<close>.
\<close>

type_synonym obuf = "mem \<times> u64"

fun buf_write :: "obuf option \<Rightarrow> bytes \<Rightarrow> bool \<times> obuf option" where
  "buf_write (Some (m, dest)) buf =
     (True, Some (mem_write m dest buf, dest + of_nat (length buf)))"
| "buf_write None buf = (False, None)"

definition pb_ostream_from_buffer :: "mem \<Rightarrow> u64 \<Rightarrow> u64 \<Rightarrow> obuf pb_ostream" where
  "pb_ostream_from_buffer m buf bufsize =
     \<lparr>ocallback = Some buf_write, ostate = Some (m, buf), max_size = bufsize,
      bytes_written = 0, oerrmsg = None\<rparr>"

text \<open>
  \<open>buf\<close> lists the bytes at the pointer \<open>buf\<close>, at least \<open>count\<close> of them unless the
  stream only counts (then the code passes NULL and the list is not looked at).
\<close>

definition pb_write :: "'s pb_ostream \<Rightarrow> bytes \<Rightarrow> u64 \<Rightarrow> (unit, 's pb_ostream) outcome" where
  "pb_write s buf count =
     (case (if 0 < count then ocallback s else None) of
        Some cb \<Rightarrow>
          if bytes_written s + count < bytes_written s \<or> max_size s < bytes_written s + count
          then Fail (oset_error s ''stream full'')
          else (case cb (ostate s) (take (unat count) buf) of
                  (True, st) \<Rightarrow> Ok () (s\<lparr>ostate := st, bytes_written := bytes_written s + count\<rparr>)
                | (False, st) \<Rightarrow> Fail (oset_error (s\<lparr>ostate := st\<rparr>) ''io error''))
      | None \<Rightarrow> Ok () (s\<lparr>bytes_written := bytes_written s + count\<rparr>))"

text \<open>
  The contract of an output callback. \<open>out\<close> is what has been put out so far, \<open>room\<close> how
  much more the callback takes for certain.
\<close>

locale byte_sink =
  fixes cb :: "'s option \<Rightarrow> bytes \<Rightarrow> bool \<times> 's option"
    and out :: "'s option \<Rightarrow> bytes"
    and room :: "'s option \<Rightarrow> nat"
  assumes cb_ok: "bs \<noteq> [] \<Longrightarrow> length bs \<le> room st \<Longrightarrow> fst (cb st bs)"
    and cb_out: "bs \<noteq> [] \<Longrightarrow> length bs \<le> room st \<Longrightarrow> out (snd (cb st bs)) = out st @ bs"
    and cb_room: "bs \<noteq> [] \<Longrightarrow> length bs \<le> room st \<Longrightarrow> room (snd (cb st bs)) = room st - length bs"
begin

text \<open>A write that fits in the stream and in the sink appends exactly its bytes.\<close>

lemma sink_write:
  assumes cb: "ocallback s = Some cb"
    and len: "length buf = unat count"
    and fits: "unat (bytes_written s) + unat count \<le> unat (max_size s)"
    and space: "unat count \<le> room (ostate s)"
  shows "\<exists>st. pb_write s buf count = Ok () (s\<lparr>ostate := st, bytes_written := bytes_written s + count\<rparr>)
           \<and> out st = out (ostate s) @ buf \<and> room st = room (ostate s) - unat count"
proof -
  have lt: "unat (bytes_written s) + unat count < 2 ^ 64"
    using fits unat_le_bound[of "max_size s"] by simp
  have sum: "unat (bytes_written s + count) = unat (bytes_written s) + unat count"
    using lt by (subst unat_add_lem[symmetric]) simp
  have sp: "length buf \<le> room (ostate s)" using len space by simp
  show ?thesis
  proof (cases "0 < count")
    case True
    have ne: "buf \<noteq> []" using True len by (auto simp: word_less_nat_alt)
    obtain r st where r: "cb (ostate s) buf = (r, st)" by fastforce
    with cb_ok[OF ne sp] cb_out[OF ne sp] cb_room[OF ne sp] True show ?thesis
      using len fits by (auto simp: pb_write_def cb sum word_less_nat_alt)
  next
    case False
    then have "count = 0" by (simp add: word_less_nat_alt unat_eq_zero)
    then show ?thesis using len by (intro exI[of _ "ostate s"]) (auto simp: pb_write_def)
  qed
qed

text \<open>A write beyond the declared size of the stream is refused, whatever the sink says.\<close>

lemma sink_full:
  assumes cb: "ocallback s = Some cb"
    and pos: "0 < count"
    and over: "unat (max_size s) < unat (bytes_written s) + unat count"
  shows "pb_write s buf count = Fail (oset_error s ''stream full'')"
proof -
  have "bytes_written s + count < bytes_written s \<or> max_size s < bytes_written s + count"
  proof (cases "unat (bytes_written s) + unat count < 2 ^ 64")
    case True
    then have "unat (bytes_written s + count) = unat (bytes_written s) + unat count"
      by (subst unat_add_lem[symmetric]) simp
    with over show ?thesis by (simp add: word_less_nat_alt)
  next
    case False
    then have "unat (bytes_written s + count) < unat (bytes_written s)"
      using unat_le_bound[of count] unat_le_bound[of "bytes_written s"]
      by (simp add: unat_word_ariths mod_if) arith
    then show ?thesis by (simp add: word_less_nat_alt)
  qed
  then show ?thesis using pos by (auto simp: pb_write_def cb)
qed

end

text \<open>
  The buffer callback keeps the contract for a buffer of \<open>n\<close> bytes at \<open>base\<close>. The
  output it is credited with is what stands between \<open>base\<close> and the cursor, behind a marker
  that is there as long as the memory outside the buffer is what it was at the start,
  \<open>m0\<close>: a callback that keeps the contract leaves that memory alone.
\<close>

definition mem_frame :: "u64 \<Rightarrow> u64 \<Rightarrow> mem \<Rightarrow> mem \<Rightarrow> bool" where
  "mem_frame base n m0 m \<longleftrightarrow> (\<forall>a. unat n \<le> unat (a - base) \<longrightarrow> m a = m0 a)"

definition obuf_out :: "mem \<Rightarrow> u64 \<Rightarrow> u64 \<Rightarrow> obuf option \<Rightarrow> bytes" where
  "obuf_out m0 base n st = (case st of None \<Rightarrow> []
     | Some (m, p) \<Rightarrow> if mem_frame base n m0 m then 0 # mem_read m base (unat (p - base)) else [])"

definition obuf_room :: "mem \<Rightarrow> u64 \<Rightarrow> u64 \<Rightarrow> obuf option \<Rightarrow> nat" where
  "obuf_room m0 base n st = (case st of None \<Rightarrow> 0
     | Some (m, p) \<Rightarrow> if mem_frame base n m0 m then unat n - unat (p - base) else 0)"

lemma buf_write_out:
  assumes "unat (p - base) + length bs < 2 ^ 64"
  shows "mem_read (mem_write m p bs) base (unat (p + of_nat (length bs) - base))
         = mem_read m base (unat (p - base)) @ bs"
proof -
  define k where "k = unat (p - base)"
  have p: "p = base + of_nat k" by (simp add: k_def)
  have k: "k + length bs < 2 ^ 64" using assms by (simp add: k_def)
  have d: "unat (p + of_nat (length bs) - base) = k + length bs"
  proof -
    have "p + of_nat (length bs) - base = of_nat (k + length bs)" by (simp add: p)
    then show ?thesis using k by (simp only: unat_of_nat) simp
  qed
  have low: "mem_read (mem_write m p bs) base k = mem_read m base k"
  proof (rule mem_read_cong, rule mem_write_other)
    fix i j assume "i < k" and "j < length bs"
    then show "p + of_nat j \<noteq> base + of_nat i"
      using word_offset_neq[of "k + j" i base] k by (simp add: p add.assoc)
  qed
  have high: "mem_read (mem_write m p bs) (base + of_nat k) (length bs) = bs"
    using k by (simp add: p mem_read_write_same)
  show ?thesis unfolding d mem_read_add low high by (simp add: k_def)
qed

text \<open>A write inside the buffer changes nothing outside, and one outside is not undone.\<close>

lemma mem_frame_write:
  assumes fit: "unat (p - base) + length bs \<le> unat n"
  shows "mem_frame base n m0 (mem_write m p bs) \<longleftrightarrow> mem_frame base n m0 m"
proof -
  have "mem_write m p bs a = m a" if a: "unat n \<le> unat (a - base)" for a
  proof (rule mem_write_other)
    fix i assume i: "i < length bs"
    have "a = base + of_nat (unat (a - base))" by simp
    moreover have "p + of_nat i = base + of_nat (unat (p - base) + i)" by simp
    moreover have "base + of_nat (unat (p - base) + i) \<noteq> base + of_nat (unat (a - base))"
      using a i fit unat_le_bound[of n] unat_le_bound[of "a - base"]
      by (intro word_offset_neq) auto
    ultimately show "p + of_nat i \<noteq> a" by metis
  qed
  then show ?thesis by (auto simp: mem_frame_def)
qed

lemma obuf_room_le: "obuf_room m0 base n st \<le> unat n"
  by (auto simp: obuf_room_def split: option.split)

interpretation buf_sink: byte_sink buf_write "obuf_out m0 base n" "obuf_room m0 base n" for m0 base n
proof unfold_locales
  fix bs :: bytes and st
  assume ne: "bs \<noteq> []" and len: "length bs \<le> obuf_room m0 base n st"
  then obtain m p where st: "st = Some (m, p)" and fr: "mem_frame base n m0 m"
    and fit: "unat (p - base) + length bs \<le> unat n"
    by (cases st; cases bs) (auto simp: obuf_room_def split: if_splits)
  have lt: "unat (p - base) + length bs < 2 ^ 64"
    using fit unat_le_bound[of n] by simp
  have d: "unat (p + of_nat (length bs) - base) = unat (p - base) + length bs"
    using arg_cong[OF buf_write_out[OF lt], of length] by simp
  show "fst (buf_write st bs)" by (simp add: st)
  show "obuf_out m0 base n (snd (buf_write st bs)) = obuf_out m0 base n st @ bs"
    using buf_write_out[OF lt] fr mem_frame_write[OF fit] by (simp add: st obuf_out_def)
  show "obuf_room m0 base n (snd (buf_write st bs)) = obuf_room m0 base n st - length bs"
    using fr mem_frame_write[OF fit] by (simp add: st obuf_room_def d)
qed

section \<open>What an encoder puts on a stream\<close>

text \<open>
  \<open>emits f bs\<close> is the abstract specification of an encoder step \<open>f\<close>: on a sizing stream it
  adds the length of \<open>bs\<close> to the byte count, on a stream whose sink has room it puts out
  exactly \<open>bs\<close>, and on a stream whose declared size is too small it fails, having put out
  only a beginning of \<open>bs\<close> that fits.
\<close>

definition fresh_sizing :: "'s pb_ostream \<Rightarrow> bool" where
  "fresh_sizing s \<longleftrightarrow> ocallback s = None \<and> oerrmsg s = None"

definition backed :: "('s option \<Rightarrow> bytes \<Rightarrow> bool \<times> 's option) \<Rightarrow> ('s option \<Rightarrow> bytes) \<Rightarrow>
    ('s option \<Rightarrow> nat) \<Rightarrow> 's pb_ostream \<Rightarrow> bool" where
  "backed cb out room s \<longleftrightarrow> byte_sink cb out room \<and> ocallback s = Some cb \<and> oerrmsg s = None
     \<and> unat (bytes_written s) \<le> unat (max_size s)
     \<and> unat (max_size s) - unat (bytes_written s) \<le> room (ostate s)"

definition emits :: "('s pb_ostream \<Rightarrow> (unit, 's pb_ostream) outcome) \<Rightarrow> bytes \<Rightarrow> bool" where
  "emits f bs \<longleftrightarrow>
     (\<forall>s. fresh_sizing s \<longrightarrow>
        f s = Ok () (s\<lparr>bytes_written := bytes_written s + of_nat (length bs)\<rparr>)) \<and>
     (\<forall>cb out room s. backed cb out room s \<longrightarrow>
        unat (bytes_written s) + length bs \<le> unat (max_size s) \<longrightarrow>
        (\<exists>st. f s = Ok () (s\<lparr>ostate := st, bytes_written := bytes_written s + of_nat (length bs)\<rparr>)
            \<and> out st = out (ostate s) @ bs \<and> room st = room (ostate s) - length bs)) \<and>
     (\<forall>cb out room s. backed cb out room s \<longrightarrow> length bs < 2 ^ 64 - unat (bytes_written s) \<longrightarrow>
        unat (max_size s) < unat (bytes_written s) + length bs \<longrightarrow>
        (\<exists>t k. f s = Fail t \<and> k \<le> unat (max_size s) - unat (bytes_written s)
            \<and> out (ostate t) = out (ostate s) @ take k bs))"

lemma emits_sizing: "emits f bs \<Longrightarrow> fresh_sizing s \<Longrightarrow>
    f s = Ok () (s\<lparr>bytes_written := bytes_written s + of_nat (length bs)\<rparr>)"
  by (auto simp: emits_def)

lemma emits_backed:
  assumes "emits f bs" and "backed cb out room s"
    and "unat (bytes_written s) + length bs \<le> unat (max_size s)"
  obtains st where
    "f s = Ok () (s\<lparr>ostate := st, bytes_written := bytes_written s + of_nat (length bs)\<rparr>)"
    "out st = out (ostate s) @ bs" "room st = room (ostate s) - length bs"
  using assms unfolding emits_def by blast

lemma emits_full:
  assumes "emits f bs" and "backed cb out room s"
    and "length bs < 2 ^ 64 - unat (bytes_written s)"
    and "unat (max_size s) < unat (bytes_written s) + length bs"
  obtains t k where "f s = Fail t" "k \<le> unat (max_size s) - unat (bytes_written s)"
    "out (ostate t) = out (ostate s) @ take k bs"
  using assms unfolding emits_def by blast

lemma fresh_sizing_step [simp]:
  "fresh_sizing s \<Longrightarrow> fresh_sizing (s\<lparr>bytes_written := n\<rparr>)"
  by (simp add: fresh_sizing_def)

lemma unat_bump:
  "unat (w :: u64) + n \<le> unat (m :: u64) \<Longrightarrow> unat (w + of_nat n) = unat w + n"
  using unat_le_bound[of m] by (simp add: unat_word_ariths unat_of_nat)

lemma backed_step:
  assumes "backed cb out room s" and "unat (bytes_written s) + n \<le> unat (max_size s)"
    and "room st = room (ostate s) - n"
  shows "backed cb out room (s\<lparr>ostate := st, bytes_written := bytes_written s + of_nat n\<rparr>)"
  using assms unat_bump[OF assms(2)] by (auto simp: backed_def)

lemma emits_skip: "emits (\<lambda>s. Ok () s) []"
proof -
  have "\<exists>st. s = s\<lparr>ostate := st\<rparr> \<and> out st = out (ostate s) \<and> room st = room (ostate s)"
    for s :: "'s pb_ostream" and out :: "'s option \<Rightarrow> bytes" and room :: "'s option \<Rightarrow> nat"
    by (rule exI[of _ "ostate s"]) simp
  then show ?thesis by (auto simp: emits_def backed_def)
qed

lemma emits_write:
  assumes len: "length buf = unat n"
  shows "emits (\<lambda>s. pb_write s buf n) buf"
proof -
  have n: "of_nat (length buf) = n" using len by simp
  have size: "pb_write s buf n = Ok () (s\<lparr>bytes_written := bytes_written s + n\<rparr>)"
    if "fresh_sizing s" for s :: "'s pb_ostream"
    using that by (simp add: pb_write_def fresh_sizing_def)
  have real: "\<exists>st. pb_write s buf n = Ok () (s\<lparr>ostate := st, bytes_written := bytes_written s + n\<rparr>)
      \<and> out st = out (ostate s) @ buf \<and> room st = room (ostate s) - length buf"
    if "backed cb out room s" and "unat (bytes_written s) + length buf \<le> unat (max_size s)"
    for cb out room and s :: "'s pb_ostream"
    using that len byte_sink.sink_write[of cb out room s buf n] by (auto simp: backed_def)
  have full: "\<exists>t k. pb_write s buf n = Fail t \<and> k \<le> unat (max_size s) - unat (bytes_written s)
      \<and> out (ostate t) = out (ostate s) @ take k buf"
    if b: "backed cb out room s" and o: "unat (max_size s) < unat (bytes_written s) + length buf"
    for cb out room and s :: "'s pb_ostream"
  proof -
    have "0 < n" using b o len by (auto simp: backed_def word_less_nat_alt)
    then have "pb_write s buf n = Fail (oset_error s ''stream full'')"
      using b o len by (intro byte_sink.sink_full[of cb out room]) (auto simp: backed_def)
    then show ?thesis by (intro exI[of _ 0] exI) (auto simp: oset_error_def)
  qed
  show ?thesis unfolding emits_def n using size real full by blast
qed

lemma emits_bind:
  assumes f: "emits f a" and g: "emits g b"
  shows "emits (\<lambda>s. bindo (f s) (\<lambda>_. g)) (a @ b)"
proof -
  have size: "bindo (f s) (\<lambda>_. g) = Ok () (s\<lparr>bytes_written := bytes_written s + of_nat (length (a @ b))\<rparr>)"
    if "fresh_sizing s" for s
    using emits_sizing[OF f that] emits_sizing[OF g fresh_sizing_step[OF that]]
    by (simp add: add.assoc)
  have real: "\<exists>st. bindo (f s) (\<lambda>_. g) =
        Ok () (s\<lparr>ostate := st, bytes_written := bytes_written s + of_nat (length (a @ b))\<rparr>)
      \<and> out st = out (ostate s) @ (a @ b) \<and> room st = room (ostate s) - length (a @ b)"
    if b: "backed cb out room s" and le: "unat (bytes_written s) + length (a @ b) \<le> unat (max_size s)"
    for cb out room s
  proof -
    have la: "unat (bytes_written s) + length a \<le> unat (max_size s)" using le by simp
    obtain st where st: "f s = Ok () (s\<lparr>ostate := st, bytes_written := bytes_written s + of_nat (length a)\<rparr>)"
      "out st = out (ostate s) @ a" "room st = room (ostate s) - length a"
      by (rule emits_backed[OF f b la])
    have b': "backed cb out room (s\<lparr>ostate := st, bytes_written := bytes_written s + of_nat (length a)\<rparr>)"
      by (rule backed_step[OF b la st(3)])
    show ?thesis
      by (rule emits_backed[OF g b']) (use le unat_bump[OF la] st in \<open>auto simp: add.assoc\<close>)
  qed
  have full: "\<exists>t k. bindo (f s) (\<lambda>_. g) = Fail t \<and> k \<le> unat (max_size s) - unat (bytes_written s)
      \<and> out (ostate t) = out (ostate s) @ take k (a @ b)"
    if b: "backed cb out room s" and lt: "length (a @ b) < 2 ^ 64 - unat (bytes_written s)"
      and over: "unat (max_size s) < unat (bytes_written s) + length (a @ b)" for cb out room s
  proof (cases "unat (bytes_written s) + length a \<le> unat (max_size s)")
    case la: True
    obtain st where st: "f s = Ok () (s\<lparr>ostate := st, bytes_written := bytes_written s + of_nat (length a)\<rparr>)"
      "out st = out (ostate s) @ a" "room st = room (ostate s) - length a"
      by (rule emits_backed[OF f b la])
    let ?s = "s\<lparr>ostate := st, bytes_written := bytes_written s + of_nat (length a)\<rparr>"
    have b': "backed cb out room ?s" by (rule backed_step[OF b la st(3)])
    obtain t k where t: "g ?s = Fail t" "k \<le> unat (max_size ?s) - unat (bytes_written ?s)"
      "out (ostate t) = out (ostate ?s) @ take k b"
      by (rule emits_full[OF g b']) (use lt over unat_bump[OF la] in auto)
    show ?thesis using t st unat_bump[OF la] la
      by (intro exI[of _ t] exI[of _ "length a + k"]) auto
  next
    case False
    obtain t k where t: "f s = Fail t" "k \<le> unat (max_size s) - unat (bytes_written s)"
      "out (ostate t) = out (ostate s) @ take k a"
      by (rule emits_full[OF f b]) (use lt False in auto)
    then have "k \<le> length a" using False by simp
    with t show ?thesis by (intro exI[of _ t] exI[of _ k]) auto
  qed
  show ?thesis unfolding emits_def using size real full by blast
qed

text \<open>A step whose sizing run succeeds emits some fixed bytes: the shape of every encoder.\<close>

definition determined :: "('s pb_ostream \<Rightarrow> (unit, 's pb_ostream) outcome) \<Rightarrow> bool" where
  "determined f \<longleftrightarrow> (\<forall>s t. fresh_sizing s \<longrightarrow> f s = Ok () t \<longrightarrow> (\<exists>bs. emits f bs))"

lemma determinedD: "determined f \<Longrightarrow> fresh_sizing s \<Longrightarrow> f s = Ok () t \<Longrightarrow> \<exists>bs. emits f bs"
  by (auto simp: determined_def)

lemma emits_determined: "emits f bs \<Longrightarrow> determined f"
  by (auto simp: determined_def)

lemma determined_fail: "(\<And>s t. fresh_sizing s \<Longrightarrow> f s \<noteq> Ok () t) \<Longrightarrow> determined f"
  by (auto simp: determined_def)

lemma determined_bind:
  assumes f: "determined f" and g: "determined g"
  shows "determined (\<lambda>s. bindo (f s) (\<lambda>_. g))"
  unfolding determined_def
proof (intro allI impI)
  fix s t assume s: "fresh_sizing s" and ok: "bindo (f s) (\<lambda>_. g) = Ok () t"
  then obtain s1 where fs: "f s = Ok () s1" and gs: "g s1 = Ok () t" by auto
  obtain a where a: "emits f a" using determinedD[OF f s fs] by blast
  have "fresh_sizing s1" using emits_sizing[OF a s] fs s by auto
  then obtain b where "emits g b" using determinedD[OF g _ gs] by blast
  with a show "\<exists>bs. emits (\<lambda>s. bindo (f s) (\<lambda>_. g)) bs" using emits_bind by blast
qed

section \<open>Input streams\<close>

text \<open>
  \<open>callback\<close> and \<open>state\<close> of \<open>pb_istream_t\<close> are one value here: the code compares the
  callback with \<open>buf_read\<close>, so that one is a constructor of its own, with the memory and
  the read cursor that are its state. A custom callback returns whether it succeeded, the
  bytes it stored and its new state.
\<close>

datatype 's isource =
    BufRead mem u64
  | CustomRead "'s \<Rightarrow> u64 \<Rightarrow> bool \<times> bytes \<times> 's" 's

record 's pb_istream =
  isource :: "'s isource"
  bytes_left :: u64
  ierrmsg :: "string option"

definition iset_error :: "'s pb_istream \<Rightarrow> string \<Rightarrow> 's pb_istream" where
  "iset_error s msg = s\<lparr>ierrmsg := (case ierrmsg s of Some e \<Rightarrow> Some e | None \<Rightarrow> Some msg)\<rparr>"

text \<open>One call of the callback with a buffer; for a buffer stream this is \<open>buf_read\<close>.\<close>

fun call_source :: "'s isource \<Rightarrow> u64 \<Rightarrow> bool \<times> bytes \<times> 's isource" where
  "call_source (BufRead m p) count = (True, mem_read m p (unat count), BufRead m (p + count))"
| "call_source (CustomRead f st) count =
     (case f st count of (ok, bs, st') \<Rightarrow> (ok, bs, CustomRead f st'))"

fun is_buf_read :: "'s isource \<Rightarrow> bool" where
  "is_buf_read (BufRead m p) = True"
| "is_buf_read (CustomRead f st) = False"

definition pb_istream_from_buffer :: "mem \<Rightarrow> u64 \<Rightarrow> u64 \<Rightarrow> 's pb_istream" where
  "pb_istream_from_buffer m buf bufsize =
     \<lparr>isource = BufRead m buf, bytes_left = bufsize, ierrmsg = None\<rparr>"

text \<open>
  \<open>pb_read\<close> with a buffer. Beside the outcome it returns the bytes that the callback stored,
  which are in the caller's buffer on failure too.
\<close>

definition pb_read :: "'s pb_istream \<Rightarrow> u64 \<Rightarrow> bool \<times> bytes \<times> 's pb_istream" where
  "pb_read s count =
     (if count = 0 then (True, [], s)
      else if bytes_left s < count then (False, [], iset_error s ''end-of-stream'')
      else (case call_source (isource s) count of
              (True, bs, src) \<Rightarrow> (True, bs, s\<lparr>isource := src, bytes_left := bytes_left s - count\<rparr>)
            | (False, bs, src) \<Rightarrow> (False, bs, iset_error (s\<lparr>isource := src\<rparr>) ''io error'')))"

text \<open>
  \<open>pb_read\<close> with a NULL buffer skips. A stream with a callback of its own cannot skip, so the
  code reads into a scratch buffer of 16 bytes, a recursive call of \<open>pb_read\<close> per round.
\<close>

function pb_skip_tmp :: "'s pb_istream \<Rightarrow> u64 \<Rightarrow> (unit, 's pb_istream) outcome" where
  "pb_skip_tmp s count =
     (if 16 < count
      then (case pb_read s 16 of
              (True, bs, s') \<Rightarrow> pb_skip_tmp s' (count - 16)
            | (False, bs, s') \<Rightarrow> Fail s')
      else (case pb_read s count of
              (True, bs, s') \<Rightarrow> Ok () s'
            | (False, bs, s') \<Rightarrow> Fail s'))"
  by pat_completeness auto
termination
proof (relation "measure (\<lambda>(s, count). unat count)")
  fix count :: u64
  assume "16 < count"
  then have "unat (count - 16) < unat count"
    by (simp add: word_less_nat_alt unat_sub word_le_nat_alt)
  then show "\<And>s x xa y xb s'. ((s', count - 16), (s :: 's pb_istream, count)) \<in> measure (\<lambda>(s, count). unat count)"
    by simp
qed auto

declare pb_skip_tmp.simps [simp del]

definition pb_read_null :: "'s pb_istream \<Rightarrow> u64 \<Rightarrow> (unit, 's pb_istream) outcome" where
  "pb_read_null s count =
     (if count = 0 then Ok () s
      else if \<not> is_buf_read (isource s) then pb_skip_tmp s count
      else (case pb_read s count of
              (True, bs, s') \<Rightarrow> Ok () s'
            | (False, bs, s') \<Rightarrow> Fail s'))"

definition pb_readbyte :: "'s pb_istream \<Rightarrow> (u8, 's pb_istream) outcome" where
  "pb_readbyte s =
     (if bytes_left s = 0 then Fail (iset_error s ''end-of-stream'')
      else (case call_source (isource s) 1 of
              (True, bs, src) \<Rightarrow>
                (case bs of
                   b # _ \<Rightarrow> Ok b (s\<lparr>isource := src, bytes_left := bytes_left s - 1\<rparr>)
                 | [] \<Rightarrow> NoResult)
            | (False, bs, src) \<Rightarrow> Fail (iset_error (s\<lparr>isource := src\<rparr>) ''io error'')))"

section \<open>What a decoder takes off a stream\<close>

text \<open>
  \<open>ready content s bs\<close>: the next bytes of the stream are \<open>bs\<close> and its limit does not cut
  them off. \<open>consumed content s n t\<close>: \<open>t\<close> is \<open>s\<close> after \<open>n\<close> bytes, with no error recorded.
\<close>

definition ready :: "('s isource \<Rightarrow> bytes) \<Rightarrow> 's pb_istream \<Rightarrow> bytes \<Rightarrow> bool" where
  "ready content s bs \<longleftrightarrow>
     (\<exists>rest. content (isource s) = bs @ rest) \<and> length bs \<le> unat (bytes_left s)"

definition consumed :: "('s isource \<Rightarrow> bytes) \<Rightarrow> 's pb_istream \<Rightarrow> nat \<Rightarrow> 's pb_istream \<Rightarrow> bool" where
  "consumed content s n t \<longleftrightarrow>
     content (isource t) = drop n (content (isource s)) \<and>
     unat (bytes_left t) + n = unat (bytes_left s) \<and> ierrmsg t = ierrmsg s"

lemma consumed_0 [simp]: "consumed content s 0 s"
  by (simp add: consumed_def)

lemma consumed_trans:
  "consumed content s a t \<Longrightarrow> consumed content t b u \<Longrightarrow> consumed content s (a + b) u"
  by (auto simp: consumed_def add.commute)

lemma consumed_left: "consumed content s n t \<Longrightarrow> unat (bytes_left t) = unat (bytes_left s) - n"
  by (auto simp: consumed_def)

lemma ready_prefix: "ready content s (a @ b) \<Longrightarrow> ready content s a"
  by (auto simp: ready_def)

lemma ready_step:
  assumes "ready content s (a @ b)" and "consumed content s (length a) t"
  shows "ready content t b"
  using assms by (auto simp: ready_def consumed_def)

lemma ready_Cons_step: "ready content s (x # b) \<Longrightarrow> consumed content s 1 t \<Longrightarrow> ready content t b"
  using ready_step[of content s "[x]" b t] by simp

text \<open>The contract of an input callback: \<open>content\<close> is what it can still deliver.\<close>

locale byte_source =
  fixes content :: "'s isource \<Rightarrow> bytes"
  assumes call_ok: "n \<noteq> 0 \<Longrightarrow> unat n \<le> length (content c) \<Longrightarrow> fst (call_source c n)"
    and call_bytes: "n \<noteq> 0 \<Longrightarrow> unat n \<le> length (content c) \<Longrightarrow>
      fst (snd (call_source c n)) = take (unat n) (content c)"
    and call_content: "n \<noteq> 0 \<Longrightarrow> unat n \<le> length (content c) \<Longrightarrow>
      content (snd (snd (call_source c n))) = drop (unat n) (content c)"
begin

lemma call_ready:
  assumes "content c = bs @ rest" and "length bs = unat n" and "n \<noteq> 0"
  shows "\<exists>c'. call_source c n = (True, bs, c') \<and> content c' = drop (unat n) (content c)"
proof -
  have le: "unat n \<le> length (content c)" using assms by auto
  obtain r x c' where "call_source c n = (r, x, c')" by (cases "call_source c n") auto
  with call_ok[OF assms(3) le] call_bytes[OF assms(3) le] call_content[OF assms(3) le] assms(1)
  show ?thesis by (simp flip: assms(2))
qed

lemma read_ready:
  assumes r: "ready content s bs" and len: "length bs = unat n"
  shows "\<exists>t. pb_read s n = (True, bs, t) \<and> consumed content s (length bs) t"
proof (cases "n = 0")
  case True
  then show ?thesis using len by (simp add: pb_read_def)
next
  case False
  obtain c' where c: "call_source (isource s) n = (True, bs, c')"
    and d: "content c' = drop (unat n) (content (isource s))"
    using call_ready[of "isource s" bs _ n] r len False by (auto simp: ready_def)
  have le: "n \<le> bytes_left s" using r len by (simp add: ready_def word_le_nat_alt)
  show ?thesis
    using False c d le len by (simp add: pb_read_def consumed_def unat_sub word_le_nat_alt leD)
qed

lemma readbyte_ready:
  assumes r: "ready content s (b # bs)"
  shows "\<exists>t. pb_readbyte s = Ok b t \<and> consumed content s 1 t"
proof -
  obtain rest where "content (isource s) = [b] @ rest" using r by (auto simp: ready_def)
  then obtain c' where c: "call_source (isource s) 1 = (True, [b], c')"
    and d: "content c' = drop 1 (content (isource s))"
    using call_ready[of "isource s" "[b]" rest 1] by auto
  have pos: "1 \<le> unat (bytes_left s)" using r by (simp add: ready_def)
  then have "unat (bytes_left s - 1) + 1 = unat (bytes_left s)" and "bytes_left s \<noteq> 0"
    by (auto simp: unat_sub word_le_nat_alt)
  then show ?thesis using c d by (simp add: pb_readbyte_def consumed_def)
qed

lemma skip_tmp_ready:
  "ready content s bs \<Longrightarrow> length bs = unat n \<Longrightarrow>
     \<exists>t. pb_skip_tmp s n = Ok () t \<and> consumed content s (length bs) t"
proof (induction s n arbitrary: bs rule: pb_skip_tmp.induct)
  case (1 s n)
  show ?case
  proof (cases "16 < n")
    case True
    have n16: "unat (n - 16) = unat n - 16" and ge: "16 < unat n"
      using True by (auto simp: unat_sub word_le_nat_alt word_less_nat_alt)
    have split: "bs = take 16 bs @ drop 16 bs" by simp
    have lt: "length (take 16 bs) = unat (16::u64)" using ge "1.prems" by simp
    have rt: "ready content s (take 16 bs)"
      using "1.prems"(1) ready_prefix[of content s "take 16 bs" "drop 16 bs"] by simp
    obtain t where t: "pb_read s 16 = (True, take 16 bs, t)" "consumed content s 16 t"
      using read_ready[OF rt lt] lt by auto
    have "ready content t (drop 16 bs)"
      using "1.prems"(1) ready_step[of content s "take 16 bs" "drop 16 bs" t] t(2) lt by simp
    moreover have "length (drop 16 bs) = unat (n - 16)" using "1.prems" n16 by simp
    ultimately obtain u where u: "pb_skip_tmp t (n - 16) = Ok () u"
        "consumed content t (length (drop 16 bs)) u"
      using "1.IH"[OF True t(1)[symmetric] refl refl, of "drop 16 bs"] by blast
    have "consumed content s (16 + length (drop 16 bs)) u"
      by (rule consumed_trans[OF t(2) u(2)])
    then show ?thesis using True t(1) u(1) lt by (simp add: pb_skip_tmp.simps[of s n])
  next
    case False
    then show ?thesis using read_ready[OF "1.prems"] by (auto simp: pb_skip_tmp.simps[of s n])
  qed
qed

lemma read_null_ready:
  assumes "ready content s bs" and "length bs = unat n"
  shows "\<exists>t. pb_read_null s n = Ok () t \<and> consumed content s (length bs) t"
proof (cases "n = 0")
  case True
  then show ?thesis using assms by (simp add: pb_read_null_def)
next
  case False
  then show ?thesis
    using skip_tmp_ready[OF assms] read_ready[OF assms] by (auto simp: pb_read_null_def)
qed

end

text \<open>A buffer source delivers the bytes up to the end \<open>lim\<close> of its buffer.\<close>

definition ibuf_content :: "u64 \<Rightarrow> 's isource \<Rightarrow> bytes" where
  "ibuf_content lim c = (case c of BufRead m p \<Rightarrow> mem_read m p (unat (lim - p)) | CustomRead f st \<Rightarrow> [])"

interpretation buf_source: byte_source "ibuf_content lim" for lim
proof (unfold_locales, goal_cases)
  case (1 n c)
  then show ?case by (cases c) (auto simp: ibuf_content_def unat_eq_zero)
next
  case (2 n c)
  then show ?case by (cases c) (auto simp: ibuf_content_def take_mem_read unat_eq_zero)
next
  case (3 n c)
  then obtain m p where c: "c = BufRead m p"
    by (cases c) (auto simp: ibuf_content_def unat_eq_zero)
  have le: "unat n \<le> unat (lim - p)" using 3 by (simp add: c ibuf_content_def)
  have "lim - (p + n) = lim - p - n" by simp
  then have "unat (lim - (p + n)) = unat (lim - p) - unat n"
    using le by (simp only: unat_sub word_le_nat_alt)
  then show ?case by (simp add: c ibuf_content_def drop_mem_read)
qed

lemma ready_from_buffer:
  "ready (ibuf_content (buf + n)) (pb_istream_from_buffer m buf n) (mem_read m buf (unat n))"
  by (simp add: ready_def pb_istream_from_buffer_def ibuf_content_def)

section \<open>From one buffer to another\<close>

text \<open>
  An encoder step run on a buffer of \<open>n\<close> bytes either fits and leaves its bytes there, or it
  fails; a decoder that takes those bytes off any source gets the same value back from them.
\<close>

lemma backed_from_buffer:
  "backed buf_write (obuf_out m buf n) (obuf_room m buf n) (pb_ostream_from_buffer m buf n)"
  by (simp add: backed_def pb_ostream_from_buffer_def obuf_room_def buf_sink.byte_sink_axioms
      mem_frame_def)

lemma obuf_out_cursor:
  assumes "obuf_out m buf n st = 0 # bs"
  obtains m' where "st = Some (m', buf + of_nat (length bs))" "mem_read m' buf (length bs) = bs"
    "mem_frame buf n m m'"
proof -
  obtain m' p where mp: "st = Some (m', p)" and rd: "mem_read m' buf (unat (p - buf)) = bs"
    and fr: "mem_frame buf n m m'"
    using assms by (cases st) (auto simp: obuf_out_def split: if_splits)
  have "unat (p - buf) = length bs" using arg_cong[OF rd, of length] by simp
  moreover have "p = buf + of_nat (unat (p - buf))" by simp
  ultimately have "p = buf + of_nat (length bs)" and "mem_read m' buf (length bs) = bs"
    using rd by simp_all
  then show thesis using that mp fr by blast
qed

lemma emits_buffer:
  assumes f: "emits f bs" and len: "length bs < 2 ^ 64"
  obtains (fits) m' s where "length bs \<le> unat n" "f (pb_ostream_from_buffer m buf n) = Ok () s"
      "ostate s = Some (m', buf + of_nat (length bs))" "mem_read m' buf (length bs) = bs"
      "bytes_written s = of_nat (length bs)" "mem_frame buf n m m'"
    | (full) m' s k where "unat n < length bs" "f (pb_ostream_from_buffer m buf n) = Fail s"
      "k \<le> unat n" "ostate s = Some (m', buf + of_nat k)" "mem_read m' buf k = take k bs"
      "mem_frame buf n m m'"
proof (cases "length bs \<le> unat n")
  case True
  let ?s = "pb_ostream_from_buffer m buf n"
  have le: "unat (bytes_written ?s) + length bs \<le> unat (max_size ?s)"
    using True by (simp add: pb_ostream_from_buffer_def)
  obtain st where st: "f ?s = Ok () (?s\<lparr>ostate := st, bytes_written := bytes_written ?s + of_nat (length bs)\<rparr>)"
    "obuf_out m buf n st = obuf_out m buf n (ostate ?s) @ bs"
    by (rule emits_backed[OF f backed_from_buffer le])
  have out: "obuf_out m buf n st = 0 # bs"
    using st(2) by (simp add: pb_ostream_from_buffer_def obuf_out_def mem_frame_def)
  obtain m' where mp: "st = Some (m', buf + of_nat (length bs))" "mem_read m' buf (length bs) = bs"
    "mem_frame buf n m m'"
    by (rule obuf_out_cursor[OF out])
  then show thesis
    using fits[OF True st(1)] by (simp add: pb_ostream_from_buffer_def)
next
  case False
  let ?s = "pb_ostream_from_buffer m buf n"
  obtain t k where t: "f ?s = Fail t" "k \<le> unat (max_size ?s) - unat (bytes_written ?s)"
    "obuf_out m buf n (ostate t) = obuf_out m buf n (ostate ?s) @ take k bs"
    by (rule emits_full[OF f backed_from_buffer])
      (use False len in \<open>auto simp: pb_ostream_from_buffer_def\<close>)
  have k: "k \<le> unat n" using t(2) by (simp add: pb_ostream_from_buffer_def)
  have out: "obuf_out m buf n (ostate t) = 0 # take k bs"
    using t(3) by (simp add: pb_ostream_from_buffer_def obuf_out_def mem_frame_def)
  have l: "length (take k bs) = k" using k False by simp
  obtain m' where "ostate t = Some (m', buf + of_nat k)" "mem_read m' buf k = take k bs"
    "mem_frame buf n m m'"
    using obuf_out_cursor[OF out] unfolding l by blast
  then show thesis using full[OF _ t(1) k] False by simp
qed

lemma consumed_all: "consumed content s n t \<Longrightarrow> unat (bytes_left s) = n \<Longrightarrow> bytes_left t = 0"
  by (simp add: consumed_def unat_eq_zero)

lemma buffer_roundtrip:
  assumes f: "emits f bs" and len: "length bs < 2 ^ 64" and ne: "bs \<noteq> []"
    and d: "\<And>lim s. ready (ibuf_content lim) s bs \<Longrightarrow>
       \<exists>t. d s = Ok v t \<and> consumed (ibuf_content lim) s (length bs) t"
  shows "case f (pb_ostream_from_buffer m buf n) of
      Ok _ s \<Rightarrow> (case ostate s of
          Some (m', p) \<Rightarrow> (case d (pb_istream_from_buffer m' buf (bytes_written s)) of
              Ok w t \<Rightarrow> w = v \<and> bytes_left t = 0 | _ \<Rightarrow> False)
        | None \<Rightarrow> False)
    | Fail s \<Rightarrow> unat n < length bs
    | NoResult \<Rightarrow> False"
  using f len
proof (cases rule: emits_buffer[where n = n and m = m and buf = buf])
  case (fits m' s)
  have u: "unat (of_nat (length bs) :: u64) = length bs" using len by (simp add: unat_of_nat)
  then have "ready (ibuf_content (buf + of_nat (length bs)))
      (pb_istream_from_buffer m' buf (of_nat (length bs))) bs"
    using ready_from_buffer[of buf "of_nat (length bs)" m'] fits(4) by simp
  then obtain t where "d (pb_istream_from_buffer m' buf (of_nat (length bs))) = Ok v t"
    and "consumed (ibuf_content (buf + of_nat (length bs)))
      (pb_istream_from_buffer m' buf (of_nat (length bs))) (length bs) t"
    using d by blast
  then show ?thesis using fits consumed_all[of _ _ "length bs" t] u
    by (fastforce simp: pb_istream_from_buffer_def)
next
  case (full m' s k)
  then show ?thesis by simp
qed

end
