(* ===== verification/Nanopb_Scalar.thy ===== *)
theory Nanopb_Scalar
  imports Nanopb_Stream
begin

text \<open>
  The scalar codecs of nanopb: varints, zig-zag varints, fixed 32- and 64-bit values, field
  tags and length-prefixed strings, on the encoder side (pb_encode.c) and on the decoder side
  (pb_decode.c), with the substreams and the skipping of unknown fields.

  \<open>varint_enc\<close> is the specification of the wire format: seven bits per byte, least
  significant group first, the top bit set on every byte but the last.
\<close>

section \<open>Encoding\<close>

function varint_enc :: "u64 \<Rightarrow> bytes" where
  "varint_enc v = (if v \<le> 0x7F then [ucast v] else (ucast (v AND 0x7F) OR 0x80) # varint_enc (drop_bit 7 v))"
  by pat_completeness auto
termination
proof (relation "measure unat")
  fix v :: u64 assume "\<not> v \<le> 0x7F"
  then have "v \<noteq> 0" by auto
  then show "(drop_bit 7 v, v) \<in> measure unat" using drop_bit_less[of v 7] by simp
qed simp

function varint_loop :: "u64 \<Rightarrow> bytes" where
  "varint_loop v = (if v = 0 then [] else (ucast (v AND 0x7F) OR 0x80) # varint_loop (drop_bit 7 v))"
  by pat_completeness auto
termination by (relation "measure unat") (auto intro: drop_bit_less)

declare varint_enc.simps [simp del]
declare varint_loop.simps [simp del]

definition pb_encode_varint :: "'s pb_ostream \<Rightarrow> u64 \<Rightarrow> (unit, 's pb_ostream) outcome" where
  "pb_encode_varint s v =
     (if v \<le> 0x7F then pb_write s [ucast v] 1
      else (let buffer = varint_loop v; i = length buffer
            in pb_write s (buffer[i - 1 := buffer ! (i - 1) AND 0x7F]) (of_nat i)))"

definition zigzag :: "u64 \<Rightarrow> u64" where
  "zigzag v = (if sint v < 0 then NOT (push_bit 1 v) else push_bit 1 v)"

definition pb_encode_svarint :: "'s pb_ostream \<Rightarrow> u64 \<Rightarrow> (unit, 's pb_ostream) outcome" where
  "pb_encode_svarint s v = pb_encode_varint s (zigzag v)"

definition pb_encode_fixed32 :: "'s pb_ostream \<Rightarrow> u32 \<Rightarrow> (unit, 's pb_ostream) outcome" where
  "pb_encode_fixed32 s val = pb_write s
     [word_byte val 0, word_byte val 8, word_byte val 16, word_byte val 24] 4"

definition pb_encode_fixed64 :: "'s pb_ostream \<Rightarrow> u64 \<Rightarrow> (unit, 's pb_ostream) outcome" where
  "pb_encode_fixed64 s val = pb_write s
     [word_byte val 0, word_byte val 8, word_byte val 16, word_byte val 24,
      word_byte val 32, word_byte val 40, word_byte val 48, word_byte val 56] 8"

definition pb_encode_tag :: "'s pb_ostream \<Rightarrow> u32 \<Rightarrow> u32 \<Rightarrow> (unit, 's pb_ostream) outcome" where
  "pb_encode_tag s wiretype field_number =
     pb_encode_varint s (push_bit 3 (ucast field_number) OR ucast wiretype)"

definition pb_encode_string :: "'s pb_ostream \<Rightarrow> bytes \<Rightarrow> u64 \<Rightarrow> (unit, 's pb_ostream) outcome" where
  "pb_encode_string s buffer sz =
     bindo (pb_encode_varint s sz) (\<lambda>_ s. pb_write s buffer sz)"

subsection \<open>What the encoders emit\<close>

lemma varint_loop_enc:
  "v \<noteq> 0 \<Longrightarrow> varint_loop v \<noteq> [] \<and>
     (varint_loop v)[length (varint_loop v) - 1 := varint_loop v ! (length (varint_loop v) - 1) AND 0x7F]
       = varint_enc v"
proof (induction v rule: varint_loop.induct)
  case (1 v)
  show ?case
  proof (cases "v \<le> 0x7F")
    case True
    then have d: "drop_bit 7 v = 0" by (simp add: le_7F_iff)
    then have "varint_loop v = [ucast (v AND 0x7F) OR 0x80]"
      using 1(2) d by (simp add: varint_loop.simps[of v] varint_loop.simps[of 0])
    then show ?thesis using True
      by (simp add: varint_enc.simps[of v] group_and_7F take_bit_small[OF d])
  next
    case False
    then have n: "drop_bit 7 v \<noteq> 0" by (simp add: le_7F_iff)
    then show ?thesis using "1.IH"[OF 1(2) n] 1(2) False
      by (cases "varint_loop (drop_bit 7 v)")
        (auto simp: varint_loop.simps[of v] varint_enc.simps[of v])
  qed
qed

text \<open>The C buffer has ten bytes: the loop never fills more of it.\<close>

lemma length_varint_bound: "unat v < 2 ^ (7 * n) \<Longrightarrow> 0 < n \<Longrightarrow> length (varint_enc v) \<le> n"
proof (induction n arbitrary: v)
  case (Suc n)
  show ?case
  proof (cases "v \<le> 0x7F")
    case True
    then show ?thesis by (simp add: varint_enc.simps[of v])
  next
    case False
    have "unat (drop_bit 7 v) < 2 ^ (7 * n)"
      using Suc.prems(1) by (simp add: unat_drop_bit power_add less_mult_imp_div_less mult.commute)
    moreover have "0 < n" using False Suc.prems(1) by (cases n) (auto simp: word_le_nat_alt)
    ultimately have "length (varint_enc (drop_bit 7 v)) \<le> n" by (rule Suc.IH)
    then show ?thesis using False by (simp add: varint_enc.simps[of v])
  qed
qed simp

lemma length_varint_le_10: "length (varint_enc v) \<le> 10"
  using unat_le_bound[of v] by (intro length_varint_bound) auto

lemma length_varint_pos: "0 < length (varint_enc v)"
  by (subst varint_enc.simps) simp

lemma length_varint_loop: "v \<noteq> 0 \<Longrightarrow> length (varint_loop v) = length (varint_enc v)"
  using arg_cong[OF conjunct2[OF varint_loop_enc], of v length] by simp

lemma emits_varint: "emits (\<lambda>s. pb_encode_varint s v) (varint_enc v)"
proof (cases "v \<le> 0x7F")
  case True
  then show ?thesis using emits_write[of "[ucast v]" 1]
    by (simp add: pb_encode_varint_def varint_enc.simps[of v])
next
  case False
  then have nz: "v \<noteq> 0" by auto
  have len: "length (varint_enc v) = unat (of_nat (length (varint_enc v)) :: u64)"
    using length_varint_le_10[of v] by (simp add: unat_of_nat)
  show ?thesis using emits_write[OF len] varint_loop_enc[OF nz] False
    by (simp add: pb_encode_varint_def Let_def length_varint_loop[OF nz])
qed

lemma emits_svarint: "emits (\<lambda>s. pb_encode_svarint s v) (varint_enc (zigzag v))"
  unfolding pb_encode_svarint_def by (rule emits_varint)

lemma fixed32_bytes:
  "[word_byte val 0, word_byte val 8, word_byte val 16, word_byte val 24] = le_bytes 4 (val :: u32)"
  by (simp add: word_byte_def numeral_eq_Suc drop_bit_drop_bit del: drop_bit_Suc)

lemma fixed64_bytes:
  "[word_byte val 0, word_byte val 8, word_byte val 16, word_byte val 24,
    word_byte val 32, word_byte val 40, word_byte val 48, word_byte val 56] = le_bytes 8 (val :: u64)"
  by (simp add: word_byte_def numeral_eq_Suc drop_bit_drop_bit del: drop_bit_Suc)

lemma emits_fixed32: "emits (\<lambda>s. pb_encode_fixed32 s val) (le_bytes 4 val)"
  unfolding pb_encode_fixed32_def fixed32_bytes by (rule emits_write) simp

lemma emits_fixed64: "emits (\<lambda>s. pb_encode_fixed64 s val) (le_bytes 8 val)"
  unfolding pb_encode_fixed64_def fixed64_bytes by (rule emits_write) simp

definition tag_enc :: "u32 \<Rightarrow> u32 \<Rightarrow> bytes" where
  "tag_enc wiretype field_number = varint_enc (push_bit 3 (ucast field_number) OR ucast wiretype)"

lemma emits_tag: "emits (\<lambda>s. pb_encode_tag s w n) (tag_enc w n)"
  unfolding pb_encode_tag_def tag_enc_def by (rule emits_varint)

lemma emits_string:
  assumes "length buf = unat n"
  shows "emits (\<lambda>s. pb_encode_string s buf n) (varint_enc n @ buf)"
  unfolding pb_encode_string_def using emits_bind[OF emits_varint[of n] emits_write[OF assms]] by simp

section \<open>Decoding\<close>

text \<open>
  \<open>bitpos\<close> is a \<open>uint_fast8_t\<close>, eight bits wide on the app's platforms, so the sum in the
  32-bit decoder's loop wraps around; that loop has no bound of its own and ends with the
  stream. Both loops decrease the number of bytes left.
\<close>

lemma readbyte_less: "pb_readbyte s = Ok b t \<Longrightarrow> unat (bytes_left t) < unat (bytes_left s)"
  by (auto simp: pb_readbyte_def unat_sub word_le_nat_alt Suc_le_eq unat_gt_0
      split: if_splits prod.splits bool.splits list.splits)

lemma bindo_cong [fundef_cong]:
  "r = r' \<Longrightarrow> (\<And>v s. r' = Ok v s \<Longrightarrow> f v s = g v s) \<Longrightarrow> bindo r f = bindo r' g"
  by (cases r') auto

function varint32_loop :: "'s pb_istream \<Rightarrow> u32 \<Rightarrow> u8 \<Rightarrow> (u32, 's pb_istream) outcome" where
  "varint32_loop s result bitpos =
     bindo (pb_readbyte s) (\<lambda>byte s.
       if 32 \<le> bitpos \<and> byte AND 0x7F \<noteq> 0 \<and>
          (drop_bit 31 result = 0 \<or> byte \<noteq> (if bitpos < 63 then 0xFF else 0x01))
       then Fail (iset_error s ''varint overflow'')
       else
         let result' = (if 32 \<le> bitpos then result
                        else result OR push_bit (unat bitpos) (ucast (byte AND 0x7F)));
             bitpos' = bitpos + 7
         in if byte AND 0x80 \<noteq> 0 then varint32_loop s result' bitpos'
            else if bitpos' = 35 \<and> byte AND 0x70 \<noteq> 0
            then Fail (iset_error s ''varint overflow'')
            else Ok result' s)"
  by pat_completeness auto
termination
  by (relation "measure (\<lambda>(s, result, bitpos). unat (bytes_left s))") (auto dest: readbyte_less)

declare varint32_loop.simps [simp del]

text \<open>The second component is the flag at \<open>*eof\<close>, which is only ever set.\<close>

definition pb_decode_varint32_eof :: "'s pb_istream \<Rightarrow> bool \<Rightarrow> (u32, 's pb_istream) outcome \<times> bool" where
  "pb_decode_varint32_eof s eof =
     (case pb_readbyte s of
        Fail s' \<Rightarrow> (Fail s', eof \<or> bytes_left s' = 0)
      | NoResult \<Rightarrow> (NoResult, eof)
      | Ok byte s' \<Rightarrow>
          (if byte AND 0x80 = 0 then Ok (ucast byte) s'
           else varint32_loop s' (ucast (byte AND 0x7F)) 7, eof))"

definition pb_decode_varint32 :: "'s pb_istream \<Rightarrow> (u32, 's pb_istream) outcome" where
  "pb_decode_varint32 s = fst (pb_decode_varint32_eof s False)"

function varint64_loop :: "'s pb_istream \<Rightarrow> u64 \<Rightarrow> u8 \<Rightarrow> (u64, 's pb_istream) outcome" where
  "varint64_loop s result bitpos =
     (if 64 \<le> bitpos then Fail (iset_error s ''varint overflow'')
      else bindo (pb_readbyte s) (\<lambda>byte s.
        let result' = result OR push_bit (unat bitpos) (ucast (byte AND 0x7F));
            bitpos' = bitpos + 7
        in if byte AND 0x80 \<noteq> 0 then varint64_loop s result' bitpos' else Ok result' s))"
  by pat_completeness auto
termination
  by (relation "measure (\<lambda>(s, result, bitpos). unat (bytes_left s))") (auto dest: readbyte_less)

declare varint64_loop.simps [simp del]

definition pb_decode_varint :: "'s pb_istream \<Rightarrow> (u64, 's pb_istream) outcome" where
  "pb_decode_varint s = varint64_loop s 0 0"

text \<open>A single-byte \<open>pb_read\<close> into a local variable, as an outcome.\<close>

definition pb_read_1 :: "'s pb_istream \<Rightarrow> (u8, 's pb_istream) outcome" where
  "pb_read_1 s = (case pb_read s 1 of
       (True, b # _, t) \<Rightarrow> Ok b t | (True, [], t) \<Rightarrow> NoResult | (False, _, t) \<Rightarrow> Fail t)"

lemma read_1_readbyte: "pb_read_1 s = pb_readbyte s"
  by (auto simp: pb_read_1_def pb_read_def pb_readbyte_def word_less_nat_alt unat_eq_zero
      split: prod.splits bool.splits list.splits)

function pb_skip_varint :: "'s pb_istream \<Rightarrow> (unit, 's pb_istream) outcome" where
  "pb_skip_varint s =
     bindo (pb_read_1 s) (\<lambda>byte s. if byte AND 0x80 \<noteq> 0 then pb_skip_varint s else Ok () s)"
  by pat_completeness auto
termination
  by (relation "measure (\<lambda>s. unat (bytes_left s))") (auto simp: read_1_readbyte dest: readbyte_less)

declare pb_skip_varint.simps [simp del]

definition pb_skip_string :: "'s pb_istream \<Rightarrow> (unit, 's pb_istream) outcome" where
  "pb_skip_string s = bindo (pb_decode_varint32 s) (\<lambda>len s. pb_read_null s (ucast len))"

text \<open>
  \<open>pb_decode_tag\<close> returns the pair of wire type and tag; beside it stands \<open>*eof\<close>, which
  tells a failure at the end of the message from an error.
\<close>

definition pb_decode_tag :: "'s pb_istream \<Rightarrow> (u32 \<times> u32, 's pb_istream) outcome \<times> bool" where
  "pb_decode_tag s =
     (case pb_decode_varint32_eof s False of
        (Ok temp s', eof) \<Rightarrow>
          if temp = 0 then (Fail s', True) else (Ok (temp AND 7, drop_bit 3 temp) s', eof)
      | (Fail s', eof) \<Rightarrow> (Fail s', eof)
      | (NoResult, eof) \<Rightarrow> (NoResult, eof))"

abbreviation PB_WT_VARINT :: u32 where "PB_WT_VARINT \<equiv> 0"
abbreviation PB_WT_64BIT :: u32 where "PB_WT_64BIT \<equiv> 1"
abbreviation PB_WT_STRING :: u32 where "PB_WT_STRING \<equiv> 2"
abbreviation PB_WT_32BIT :: u32 where "PB_WT_32BIT \<equiv> 5"

definition pb_skip_field :: "'s pb_istream \<Rightarrow> u32 \<Rightarrow> (unit, 's pb_istream) outcome" where
  "pb_skip_field s wire_type =
     (if wire_type = PB_WT_VARINT then pb_skip_varint s
      else if wire_type = PB_WT_64BIT then pb_read_null s 8
      else if wire_type = PB_WT_STRING then pb_skip_string s
      else if wire_type = PB_WT_32BIT then pb_read_null s 4
      else Fail (iset_error s ''invalid wire_type''))"

text \<open>\<open>pb_read\<close> into a local array; a callback that succeeds must have filled it.\<close>

definition pb_read_buf :: "'s pb_istream \<Rightarrow> u64 \<Rightarrow> (bytes, 's pb_istream) outcome" where
  "pb_read_buf s n = (case pb_read s n of
       (True, bs, t) \<Rightarrow> if length bs = unat n then Ok bs t else NoResult
     | (False, _, t) \<Rightarrow> Fail t)"

text \<open>
  \<open>read_raw_value\<close> returns the raw bytes of a scalar for a callback; \<open>max\<close> is the size of the
  caller's array, which a varint that is too long must not overrun.
\<close>

function raw_varint :: "'s pb_istream \<Rightarrow> u64 \<Rightarrow> u64 \<Rightarrow> (bytes, 's pb_istream) outcome" where
  "raw_varint s sz max_sz =
     (let sz' = sz + 1 in
      if max_sz < sz' then Fail s
      else bindo (pb_read_1 s) (\<lambda>b s.
        if b AND 0x80 \<noteq> 0 then bindo (raw_varint s sz' max_sz) (\<lambda>bs s. Ok (b # bs) s) else Ok [b] s))"
  by pat_completeness auto
termination
  by (relation "measure (\<lambda>(s, sz, m). unat (bytes_left s))")
    (auto simp: read_1_readbyte dest: readbyte_less)

declare raw_varint.simps [simp del]

definition read_raw_value :: "'s pb_istream \<Rightarrow> u32 \<Rightarrow> u64 \<Rightarrow> (bytes, 's pb_istream) outcome" where
  "read_raw_value s wire_type max_sz =
     (if wire_type = PB_WT_VARINT then raw_varint s 0 max_sz
      else if wire_type = PB_WT_64BIT then pb_read_buf s 8
      else if wire_type = PB_WT_32BIT then pb_read_buf s 4
      else Fail (iset_error s ''invalid wire_type''))"

text \<open>
  A substream is a copy of the stream that ends after the string; the parent's count is
  reduced at once and its cursor catches up when the substream is closed.
\<close>

definition pb_make_string_substream ::
    "'s pb_istream \<Rightarrow> ('s pb_istream, 's pb_istream) outcome" where
  "pb_make_string_substream s =
     bindo (pb_decode_varint32 s) (\<lambda>sz s.
       if bytes_left s < ucast sz then Fail (iset_error s ''parent stream too short'')
       else Ok (s\<lparr>bytes_left := ucast sz\<rparr>) (s\<lparr>bytes_left := bytes_left s - ucast sz\<rparr>))"

definition pb_close_string_substream ::
    "'s pb_istream \<Rightarrow> 's pb_istream \<Rightarrow> (unit, 's pb_istream) outcome" where
  "pb_close_string_substream s sub =
     (case (if bytes_left sub \<noteq> 0 then pb_read_null sub (bytes_left sub) else Ok () sub) of
        Ok _ sub' \<Rightarrow> Ok () (s\<lparr>isource := isource sub', ierrmsg := ierrmsg sub'\<rparr>)
      | Fail sub' \<Rightarrow> Fail s
      | NoResult \<Rightarrow> NoResult)"

definition unzigzag :: "u64 \<Rightarrow> u64" where
  "unzigzag v = (if v AND 1 \<noteq> 0 then NOT (drop_bit 1 v) else drop_bit 1 v)"

definition pb_decode_svarint :: "'s pb_istream \<Rightarrow> (u64, 's pb_istream) outcome" where
  "pb_decode_svarint s = bindo (pb_decode_varint s) (\<lambda>v s. Ok (unzigzag v) s)"

definition pb_decode_fixed32 :: "'s pb_istream \<Rightarrow> (u32, 's pb_istream) outcome" where
  "pb_decode_fixed32 s = bindo (pb_read_buf s 4) (\<lambda>b s. Ok
     (ucast (b ! 0) OR push_bit 8 (ucast (b ! 1)) OR push_bit 16 (ucast (b ! 2)) OR
      push_bit 24 (ucast (b ! 3))) s)"

definition pb_decode_fixed64 :: "'s pb_istream \<Rightarrow> (u64, 's pb_istream) outcome" where
  "pb_decode_fixed64 s = bindo (pb_read_buf s 8) (\<lambda>b s. Ok
     (ucast (b ! 0) OR push_bit 8 (ucast (b ! 1)) OR push_bit 16 (ucast (b ! 2)) OR
      push_bit 24 (ucast (b ! 3)) OR push_bit 32 (ucast (b ! 4)) OR push_bit 40 (ucast (b ! 5)) OR
      push_bit 48 (ucast (b ! 6)) OR push_bit 56 (ucast (b ! 7))) s)"

section \<open>Decoding what was encoded\<close>

lemma sint_neg_iff: "sint (v :: u64) < 0 \<longleftrightarrow> bit v 63"
  using bit_last_iff[of v] by simp

lemma and_1_iff: "(v :: u64) AND 1 \<noteq> 0 \<longleftrightarrow> bit v 0"
  by (simp add: and_one_eq bit_0 odd_iff_mod_2_eq_one)

lemma unzigzag_zigzag: "unzigzag (zigzag v) = v"
proof (cases "bit v 63")
  case True
  then have "bit v n" if "n < 64" "\<not> n < 63" for n
  proof -
    have "n = 63" using that by simp
    then show ?thesis using True by simp
  qed
  then show ?thesis using True
    by (intro bit_word_eqI) (auto simp: unzigzag_def zigzag_def sint_neg_iff and_1_iff bit_simps
      simp del: push_bit_Suc drop_bit_Suc)
next
  case False
  then have "\<not> bit v n" if "n < 64" "\<not> n < 63" for n
  proof -
    have "n = 63" using that by simp
    then show ?thesis using False by simp
  qed
  then show ?thesis using False
    by (intro bit_word_eqI) (auto simp: unzigzag_def zigzag_def sint_neg_iff and_1_iff bit_simps
      simp del: push_bit_Suc drop_bit_Suc)
qed

lemma ucast_group: "(ucast (ucast (take_bit 7 (w :: u64)) :: u8) :: 'a::len word) = ucast (take_bit 7 w)"
  by (rule bit_word_eqI) (auto simp: bit_simps)

lemma varint_enc_cases:
  obtains (last) b where "drop_bit 7 v = 0" "varint_enc v = [b]"
      "b AND 0x7F = ucast (take_bit 7 v)" "b AND 0x80 = 0" "b = ucast (take_bit 7 v)"
  | (more) b where "drop_bit 7 v \<noteq> 0" "varint_enc v = b # varint_enc (drop_bit 7 v)"
      "b AND 0x7F = ucast (take_bit 7 v)" "b AND 0x80 \<noteq> 0"
proof (cases "drop_bit 7 v = 0")
  case True
  have v: "take_bit 7 v = v" by (rule take_bit_small[OF True])
  have "(ucast v :: u8) AND 0x7F = ucast (take_bit 7 v)"
    unfolding and_7F by (rule bit_word_eqI) (auto simp: bit_simps)
  moreover have "(ucast v :: u8) AND 0x80 = 0"
  proof -
    have "\<not> bit (take_bit 7 v) 7" by (simp add: bit_simps)
    then show ?thesis unfolding v and_80_zero_iff by (simp add: bit_simps)
  qed
  moreover have "varint_enc v = [ucast v]" using True
    by (simp add: varint_enc.simps[of v] le_7F_iff)
  ultimately show thesis using True v by (intro last[of "ucast v"]) simp_all
next
  case False
  then show thesis
    using more[of "ucast (v AND 0x7F) OR 0x80"] group_and_7F[of v] or_80_and_80[of "ucast (v AND 0x7F)"]
    by (simp add: varint_enc.simps[of v] le_7F_iff)
qed

context byte_source
begin

lemma varint64_loop_enc:
  assumes "ready content s (varint_enc (drop_bit k v))" and "k < 64"
  shows "\<exists>t. varint64_loop s (take_bit k v) (of_nat k) = Ok v t \<and>
    consumed content s (length (varint_enc (drop_bit k v))) t"
  using assms
proof (induction "length (varint_enc (drop_bit k v))" arbitrary: k s rule: less_induct)
  case less
  have k: "unat (of_nat k :: u8) = k" "\<not> 64 \<le> (of_nat k :: u8)" "(of_nat k + 7 :: u8) = of_nat (k + 7)"
    using less.prems(2) by (auto simp: unat_of_nat word_le_nat_alt)
  note step = varint64_loop.simps[of s "take_bit k v" "of_nat k"]
  show ?case
  proof (cases rule: varint_enc_cases[of "drop_bit k v"])
    case (last b)
    obtain t where t: "pb_readbyte s = Ok b t" "consumed content s 1 t"
      using readbyte_ready less.prems(1) last(2) by metis
    have "take_bit (k + 7) v = v" using last(1) by (intro take_bit_small) (simp add: add.commute)
    then have "take_bit k v OR push_bit k (ucast (b AND 0x7F)) = v"
      using take_bit_group[of k v] unfolding last(3) ucast_group by simp
    then have "varint64_loop s (take_bit k v) (of_nat k) = Ok v t"
      unfolding step by (simp only: k(1,2) t(1) bindo.simps Let_def last(4) if_False simp_thms)
    then show ?thesis using t(2) last(2) by auto
  next
    case (more b)
    have d: "drop_bit 7 (drop_bit k v) = drop_bit (k + 7) v" by (simp add: add.commute)
    obtain t where t: "pb_readbyte s = Ok b t" "consumed content s 1 t"
      using readbyte_ready less.prems(1) more(2) by metis
    have r: "ready content t (varint_enc (drop_bit (k + 7) v))"
      using ready_Cons_step less.prems(1) more(2) t(2) d by metis
    have "k + 7 < 64"
    proof (rule ccontr)
      assume "\<not> k + 7 < 64"
      then have "drop_bit (k + 7) v = 0" by (intro bit_word_eqI) (auto simp: bit_simps dest: bit_imp_le_length)
      then show False using more(1) d by simp
    qed
    then obtain u where u: "varint64_loop t (take_bit (k + 7) v) (of_nat (k + 7)) = Ok v u"
      "consumed content t (length (varint_enc (drop_bit (k + 7) v))) u"
      using less.hyps[OF _ r] more(2) d by auto
    have "consumed content s (length (varint_enc (drop_bit k v))) u"
      using consumed_trans[OF t(2) u(2)] more(2) d by simp
    moreover have "varint64_loop s (take_bit k v) (of_nat k) = Ok v u"
    proof -
      have "take_bit k v OR push_bit k (ucast (b AND 0x7F)) = take_bit (k + 7) v"
        using take_bit_group[of k v] unfolding more(3) ucast_group by simp
      then show ?thesis unfolding step
        by (simp only: k t(1) bindo.simps Let_def more(4) u(1) if_False if_True simp_thms)
    qed
    ultimately show ?thesis by blast
  qed
qed

lemma decode_varint_enc:
  assumes "ready content s (varint_enc v @ rest)"
  shows "\<exists>t. pb_decode_varint s = Ok v t \<and> consumed content s (length (varint_enc v)) t"
  using varint64_loop_enc[of s 0 v] ready_prefix[OF assms] by (simp add: pb_decode_varint_def)

end

subsection \<open>The 32-bit decoder\<close>

text \<open>
  The values that \<open>pb_decode_varint32\<close> is meant to take: those of 32 bits, and the negative
  32-bit values as other encoders sign-extend them to 64 bits.
\<close>

definition fits_varint32 :: "u64 \<Rightarrow> bool" where
  "fits_varint32 v \<longleftrightarrow> drop_bit 32 v = 0 \<or> drop_bit 31 v = 0x1FFFFFFFF"

lemma varint32_loop_low:
  assumes "k < 32" and "pb_readbyte s = Ok b t" and "b AND 0x7F = ucast (take_bit 7 (drop_bit k v))"
  shows "varint32_loop s (take_bit k (ucast v)) (of_nat k) =
    (if b AND 0x80 \<noteq> 0 then varint32_loop t (take_bit (k + 7) (ucast v)) (of_nat (k + 7))
     else if k = 28 \<and> b AND 0x70 \<noteq> 0 then Fail (iset_error t ''varint overflow'')
     else Ok (take_bit (k + 7) (ucast v)) t)"
proof -
  have k: "unat (of_nat k :: u8) = k" "\<not> 32 \<le> (of_nat k :: u8)" "(of_nat k + 7 :: u8) = of_nat (k + 7)"
    using assms(1) by (auto simp: unat_of_nat word_le_nat_alt)
  have k35: "(of_nat (k + 7) :: u8) = 35 \<longleftrightarrow> k = 28"
    using assms(1) by (simp add: word_unat_eq_iff unat_of_nat del: of_nat_add)
  have "take_bit k (ucast v :: u32) OR push_bit k (ucast (b AND 0x7F)) = take_bit (k + 7) (ucast v)"
    unfolding assms(3) ucast_group by (rule bit_word_eqI) (auto simp: bit_simps)
  then show ?thesis
    by (subst varint32_loop.simps)
      (simp only: k assms(2) bindo.simps Let_def if_False if_True simp_thms k35)
qed

lemma varint32_loop_high:
  assumes "32 \<le> k" and "k < 64" and "pb_readbyte s = Ok b t"
  shows "varint32_loop s r (of_nat k) =
    (if b AND 0x7F \<noteq> 0 \<and> (drop_bit 31 r = 0 \<or> b \<noteq> (if k < 63 then 0xFF else 0x01))
     then Fail (iset_error t ''varint overflow'')
     else if b AND 0x80 \<noteq> 0 then varint32_loop t r (of_nat (k + 7))
     else Ok r t)"
proof -
  have k: "32 \<le> (of_nat k :: u8)" "(of_nat k + 7 :: u8) = of_nat (k + 7)"
    "(of_nat k :: u8) < 63 \<longleftrightarrow> k < 63"
    using assms(1,2) by (auto simp: unat_of_nat word_le_nat_alt word_less_nat_alt)
  have k35: "(of_nat (k + 7) :: u8) \<noteq> 35"
    using assms(1,2) by (simp add: word_unat_eq_iff unat_of_nat del: of_nat_add)
  show ?thesis
    by (subst varint32_loop.simps)
      (simp only: k assms(3) bindo.simps Let_def if_False if_True simp_thms k35)
qed

lemma drop_bit_zero_bits: "drop_bit k (v :: u64) = 0 \<Longrightarrow> k \<le> i \<Longrightarrow> \<not> bit v i"
proof -
  assume "drop_bit k v = 0" and "k \<le> i"
  then have "\<not> bit (drop_bit k v) (i - k)" by simp
  then show ?thesis using \<open>k \<le> i\<close> by (simp add: bit_simps)
qed

lemma drop_bit_zeroI:
  assumes "\<And>i. k \<le> i \<Longrightarrow> i < 64 \<Longrightarrow> \<not> bit v i"
  shows "drop_bit k (v :: u64) = 0"
proof (rule bit_word_eqI)
  fix n
  show "bit (drop_bit k v) n \<longleftrightarrow> bit 0 n"
    using assms[of "k + n"] bit_imp_le_length[of v "k + n"] by (auto simp: bit_simps)
qed

lemma fits_varint32_bits:
  assumes "fits_varint32 v" and "32 \<le> k" and "k < 64"
  shows "bit v k \<longleftrightarrow> drop_bit 32 v \<noteq> 0"
proof (cases "drop_bit 32 v = 0")
  case True
  then show ?thesis using drop_bit_zero_bits[OF True assms(2)] by simp
next
  case False
  then have "drop_bit 31 v = mask 33" using assms(1) by (simp add: fits_varint32_def mask_numeral)
  then have "bit (drop_bit 31 v) (k - 31)" using assms(2,3) by (simp add: bit_simps) arith
  then show ?thesis using False assms(2) by (simp add: bit_simps)
qed

lemma fits_varint32_bit31: "fits_varint32 v \<Longrightarrow> drop_bit 32 v \<noteq> 0 \<Longrightarrow> bit v 31"
proof -
  assume "fits_varint32 v" and "drop_bit 32 v \<noteq> 0"
  then have "drop_bit 31 v = mask 33" by (simp add: fits_varint32_def mask_numeral)
  then have "bit (drop_bit 31 v) 0" by (simp add: bit_simps)
  then show ?thesis by (simp add: bit_simps)
qed

lemma group_and_7F_bit: "b AND 0x7F = ucast (take_bit 7 (w :: u64)) \<Longrightarrow> i < 7 \<Longrightarrow> bit (b :: u8) i \<longleftrightarrow> bit w i"
proof -
  assume b: "b AND 0x7F = ucast (take_bit 7 w)" and i: "i < 7"
  have "bit (b AND 0x7F) i \<longleftrightarrow> bit (ucast (take_bit 7 w) :: u8) i" using b by simp
  then show ?thesis using i unfolding and_7F by (simp add: bit_simps)
qed

lemma byte_eq_FF:
  assumes "b AND 0x80 \<noteq> 0" and "\<And>i. i < 7 \<Longrightarrow> bit (b :: u8) i"
  shows "b = 0xFF"
proof -
  have "bit b i" if "i < 8" for i
    using assms and_80_zero_iff[of b] that by (cases "i = 7") auto
  then have "b = mask 8" by (intro bit_word_eqI) (auto simp: bit_simps)
  then show ?thesis by (simp add: mask_numeral)
qed

lemma byte_and_70: "b AND 0x7F = ucast (take_bit 7 (w :: u64)) \<Longrightarrow>
    (b :: u8) AND 0x70 = 0 \<longleftrightarrow> (\<forall>i\<in>{4, 5, 6}. \<not> bit w i)"
proof -
  assume b: "b AND 0x7F = ucast (take_bit 7 w)"
  have e: "(0x70 :: u8) = push_bit 4 (mask 3)" by (simp add: mask_numeral)
  have m: "bit (0x70 :: u8) n \<longleftrightarrow> n \<in> {4, 5, 6}" for n
    unfolding e by (auto simp: bit_simps)
  have "b AND 0x70 = 0 \<longleftrightarrow> (\<forall>n\<in>{4, 5, 6}. \<not> bit b n)"
  proof
    assume z: "b AND 0x70 = 0"
    have "\<not> bit (b AND 0x70) n" for n unfolding z by simp
    then show "\<forall>n\<in>{4, 5, 6}. \<not> bit b n" unfolding bit_and_iff m by blast
  next
    assume "\<forall>n\<in>{4, 5, 6}. \<not> bit b n"
    then have "\<not> bit (b AND 0x70) n" for n unfolding bit_and_iff m by blast
    then show "b AND 0x70 = 0" by (intro bit_word_eqI) simp
  qed
  also have "\<dots> \<longleftrightarrow> (\<forall>i\<in>{4, 5, 6}. \<not> bit w i)" using group_and_7F_bit[OF b] by auto
  finally show ?thesis .
qed

lemma drop_bit_64: "64 \<le> k \<Longrightarrow> drop_bit k (v :: u64) = 0"
  by (rule drop_bit_zeroI) simp

lemma drop_bit_more: "drop_bit 7 (drop_bit k (v :: u64)) = drop_bit (k + 7) v"
  by (simp add: add.commute)

lemma fits_varint32_last:
  assumes fits: "fits_varint32 v" and d: "drop_bit 35 v = 0"
    and b: "(b :: u8) AND 0x7F = ucast (take_bit 7 (drop_bit 28 v))"
  shows "b AND 0x70 = 0"
proof -
  have "\<not> bit v 35" using d by (rule drop_bit_zero_bits) simp
  then have "drop_bit 32 v = 0" using fits_varint32_bits[OF fits, of 35] by simp
  then have "\<not> bit v i" if "32 \<le> i" for i using that by (rule drop_bit_zero_bits)
  then show ?thesis using byte_and_70[OF b] by (simp add: bit_simps)
qed

lemma fits_varint32_high:
  assumes fits: "fits_varint32 v" and d: "drop_bit k v \<noteq> 0" and k: "32 \<le> k" "k < 64" "7 dvd k"
    and b: "(b :: u8) AND 0x7F = ucast (take_bit 7 (drop_bit k v))"
    and m: "if drop_bit (k + 7) v = 0 then b AND 0x80 = 0 else b AND 0x80 \<noteq> 0"
  shows "\<not> (drop_bit 31 (ucast v :: u32) = 0 \<or> b \<noteq> (if k < 63 then 0xFF else 0x01))"
proof -
  have ones: "bit v i" if "32 \<le> i" "i < 64" for i
  proof -
    have "drop_bit 32 v \<noteq> 0" using d k(1) drop_bit_zero_bits[of 32 v] drop_bit_zeroI[of k v] by fastforce
    then show ?thesis using fits_varint32_bits[OF fits] that by simp
  qed
  have "bit v 31"
    using fits_varint32_bit31[OF fits] ones[of 32] drop_bit_zero_bits[of 32 v 32] by auto
  then have "bit (drop_bit 31 (ucast v :: u32)) 0" by (simp add: bit_simps)
  then have r: "drop_bit 31 (ucast v :: u32) \<noteq> 0" by auto
  show ?thesis
  proof (cases "k < 63")
    case True
    have "k \<le> 56" using True k(3) by presburger
    then have k7: "k + 7 < 64" by simp
    have "drop_bit (k + 7) v \<noteq> 0" using ones[of 63] drop_bit_zero_bits[of "k + 7" v 63] k k7 by auto
    then have "b = 0xFF" using m k ones k7 group_and_7F_bit[OF b]
      by (intro byte_eq_FF) (auto simp: bit_simps)
    then show ?thesis using r True by simp
  next
    case False
    then have k63: "k = 63" using k(2) by simp
    have "b AND 0x80 = 0" using m drop_bit_64[of 70 v] k63 by simp
    then have n7: "\<not> bit b 7" by (simp add: and_80_zero_iff)
    have "bit b i \<longleftrightarrow> i = 0" if "i < 8" for i
    proof (cases "i = 7")
      case True
      then show ?thesis using n7 by simp
    next
      case False
      then show ?thesis using that group_and_7F_bit[OF b, of i] ones[of 63] k63
        by (cases i) (auto simp: bit_simps dest: bit_imp_le_length)
    qed
    then have "b = 1" by (intro bit_word_eqI) (auto simp: bit_simps)
    then show ?thesis using r k63 by simp
  qed
qed

lemma fits_ucast32 [simp]: "fits_varint32 (ucast (n :: u32))"
  unfolding fits_varint32_def
  by (intro disjI1 drop_bit_zeroI) (auto simp: bit_simps dest: bit_imp_le_length)

lemma ucast_ucast_32 [simp]: "(ucast (ucast (n :: u32) :: u64) :: u32) = n"
  by (rule bit_word_eqI) (auto simp: bit_simps)

lemma unat_ucast_64 [simp]: "unat (ucast (n :: u32) :: u64) = unat n"
proof -
  have "unat n < 2 ^ 64" using unat_le_bound[of n] by simp
  then show ?thesis by (simp add: unsigned_ucast_eq take_bit_nat_eq_self)
qed

lemma le_word_nth4:
  "length b = 4 \<Longrightarrow> ucast (b ! 0) OR push_bit 8 (ucast (b ! 1)) OR push_bit 16 (ucast (b ! 2)) OR
     push_bit 24 (ucast (b ! 3)) = le_word b"
  by (auto simp: length_Suc_conv numeral_eq_Suc push_bit_or push_bit_push_bit or.assoc simp del: push_bit_Suc)

lemma le_word_nth8:
  "length b = 8 \<Longrightarrow> ucast (b ! 0) OR push_bit 8 (ucast (b ! 1)) OR push_bit 16 (ucast (b ! 2)) OR
     push_bit 24 (ucast (b ! 3)) OR push_bit 32 (ucast (b ! 4)) OR push_bit 40 (ucast (b ! 5)) OR
     push_bit 48 (ucast (b ! 6)) OR push_bit 56 (ucast (b ! 7)) = le_word b"
  by (auto simp: length_Suc_conv numeral_eq_Suc push_bit_or push_bit_push_bit or.assoc simp del: push_bit_Suc)

lemma le_word_le_bytes4: "le_word (le_bytes 4 v) = (v :: u32)"
  unfolding le_word_le_bytes by (rule take_bit_word_eq_self) simp

lemma le_word_le_bytes8: "le_word (le_bytes 8 v) = (v :: u64)"
  unfolding le_word_le_bytes by (rule take_bit_word_eq_self) simp

lemma fixed32_join:
  "ucast (le_bytes 4 v ! 0) OR push_bit 8 (ucast (le_bytes 4 v ! 1)) OR
   push_bit 16 (ucast (le_bytes 4 v ! 2)) OR push_bit 24 (ucast (le_bytes 4 v ! 3)) = (v :: u32)"
  by (simp only: le_word_nth4[OF length_le_bytes] le_word_le_bytes4)

lemma fixed64_join:
  "ucast (le_bytes 8 v ! 0) OR push_bit 8 (ucast (le_bytes 8 v ! 1)) OR
   push_bit 16 (ucast (le_bytes 8 v ! 2)) OR push_bit 24 (ucast (le_bytes 8 v ! 3)) OR
   push_bit 32 (ucast (le_bytes 8 v ! 4)) OR push_bit 40 (ucast (le_bytes 8 v ! 5)) OR
   push_bit 48 (ucast (le_bytes 8 v ! 6)) OR push_bit 56 (ucast (le_bytes 8 v ! 7)) = (v :: u64)"
  by (simp only: le_word_nth8[OF length_le_bytes] le_word_le_bytes8)

lemma less_exp_bits: "(w :: 'a::len word) < 2 ^ k \<Longrightarrow> k \<le> i \<Longrightarrow> \<not> bit w i"
proof (cases "k < LENGTH('a)")
  case True
  assume w: "w < 2 ^ k" and "k \<le> i"
  have "w AND mask k = w" using less_mask_eq[OF w] .
  then have "bit w i \<longleftrightarrow> bit (w AND mask k) i" by simp
  then show ?thesis using \<open>k \<le> i\<close> by (simp add: bit_simps)
next
  case False
  assume "k \<le> i"
  then show ?thesis using False by (auto dest: bit_imp_le_length)
qed

lemma tag_ucast:
  assumes "n < 2 ^ 29"
  shows "(push_bit 3 (ucast (n :: u32)) OR ucast (w :: u32) :: u64) = ucast (push_bit 3 n OR w)"
proof (rule bit_word_eqI)
  fix i
  have "bit n (i - 3) \<Longrightarrow> i < 32" using less_exp_bits[OF assms, of "i - 3"] by fastforce
  then show "bit (push_bit 3 (ucast n) OR ucast w :: u64) i \<longleftrightarrow> bit (ucast (push_bit 3 n OR w) :: u64) i"
    by (auto simp: bit_simps dest: bit_imp_le_length)
qed

lemma tag_split:
  assumes "w < 8" and "n < 2 ^ 29"
  shows "(push_bit 3 (n :: u32) OR w) AND 7 = w" and "drop_bit 3 (push_bit 3 n OR w) = n"
    and "push_bit 3 n OR w = 0 \<longleftrightarrow> n = 0 \<and> w = 0"
proof -
  have w: "\<not> bit w i" if "3 \<le> i" for i using less_exp_bits[of w 3 i] assms(1) that by simp
  have n: "bit n i \<Longrightarrow> i < 29" for i using less_exp_bits[OF assms(2), of i] by fastforce
  have seven: "(7 :: u32) = mask 3" by (simp add: mask_numeral)
  show a: "(push_bit 3 n OR w) AND 7 = w"
  proof (rule bit_word_eqI)
    fix i
    show "bit ((push_bit 3 n OR w) AND 7) i \<longleftrightarrow> bit w i"
      unfolding seven using w[of i] by (cases "i < 3") (auto simp: bit_simps)
  qed
  show b: "drop_bit 3 (push_bit 3 n OR w) = n"
    by (rule bit_word_eqI) (auto simp: bit_simps w dest: n)
  show "push_bit 3 n OR w = 0 \<longleftrightarrow> n = 0 \<and> w = 0" using a b by auto
qed

context byte_source
begin

lemma varint32_loop_enc:
  assumes "fits_varint32 v" and "ready content s (varint_enc (drop_bit k v))" and "k < 64" and "7 dvd k"
    and "32 \<le> k \<Longrightarrow> drop_bit k v \<noteq> 0"
  shows "\<exists>t. varint32_loop s (take_bit k (ucast v)) (of_nat k) = Ok (ucast v) t \<and>
    consumed content s (length (varint_enc (drop_bit k v))) t"
  using assms(2-)
proof (induction "length (varint_enc (drop_bit k v))" arbitrary: k s rule: less_induct)
  case less
  have full: "take_bit k (ucast v :: u32) = ucast v" if "32 \<le> k" for k
    using that by (intro take_bit_word_eq_self) simp
  show ?case
  proof (cases rule: varint_enc_cases[of "drop_bit k v"])
    case (last b)
    obtain t where t: "pb_readbyte s = Ok b t" "consumed content s 1 t"
      using readbyte_ready less.prems(1) last(2) by metis
    have d: "drop_bit (k + 7) v = 0" using last(1) drop_bit_more by metis
    have "varint32_loop s (take_bit k (ucast v)) (of_nat k) = Ok (ucast v) t"
    proof (cases "32 \<le> k")
      case True
      then show ?thesis
        using varint32_loop_high[OF True less.prems(2) t(1)] last(4) full[OF True] d
          fits_varint32_high[OF assms(1) less.prems(4)[OF True] True less.prems(2,3) last(3)] by simp
    next
      case False
      have "take_bit (k + 7) (ucast v :: u32) = ucast v"
      proof (rule bit_word_eqI)
        fix n
        show "bit (take_bit (k + 7) (ucast v :: u32)) n \<longleftrightarrow> bit (ucast v :: u32) n"
          using drop_bit_zero_bits[OF d, of n] by (cases "n < k + 7") (auto simp: bit_simps)
      qed
      moreover have "\<not> (k = 28 \<and> b AND 0x70 \<noteq> 0)"
        using fits_varint32_last[OF assms(1), of b] d last(3) by auto
      ultimately show ?thesis using varint32_loop_low[of k s b t v] t(1) last(3,4) False by simp
    qed
    then show ?thesis using t(2) last(2) by auto
  next
    case (more b)
    obtain t where t: "pb_readbyte s = Ok b t" "consumed content s 1 t"
      using readbyte_ready less.prems(1) more(2) by metis
    have d: "drop_bit (k + 7) v \<noteq> 0" using more(1) drop_bit_more by metis
    have k7: "k + 7 < 64" using d drop_bit_64 not_less by blast
    have r: "ready content t (varint_enc (drop_bit (k + 7) v))"
      using ready_Cons_step less.prems(1) more(2) t(2) drop_bit_more by metis
    have l: "length (varint_enc (drop_bit k v)) = 1 + length (varint_enc (drop_bit (k + 7) v))"
      using more(2) drop_bit_more by simp
    obtain u where u: "varint32_loop t (take_bit (k + 7) (ucast v)) (of_nat (k + 7)) = Ok (ucast v) u"
      "consumed content t (length (varint_enc (drop_bit (k + 7) v))) u"
      using less.hyps[OF _ r k7] l less.prems(3) d by auto
    have "varint32_loop s (take_bit k (ucast v)) (of_nat k) = Ok (ucast v) u"
    proof (cases "32 \<le> k")
      case True
      have "32 \<le> k + 7" using True by simp
      then show ?thesis
        using varint32_loop_high[OF True less.prems(2) t(1)] more(4) full[OF True] full[of "k + 7"] d u(1)
          fits_varint32_high[OF assms(1) less.prems(4)[OF True] True less.prems(2,3) more(3)]
        by (simp del: of_nat_add)
    next
      case False
      then show ?thesis using varint32_loop_low[of k s b t v] t(1) more(3,4) u(1)
        by (simp del: of_nat_add)
    qed
    moreover have "consumed content s (length (varint_enc (drop_bit k v))) u"
      using consumed_trans[OF t(2) u(2)] l by simp
    ultimately show ?thesis by blast
  qed
qed

lemma decode_varint32_eof_enc:
  assumes "fits_varint32 v" and "ready content s (varint_enc v @ rest)"
  shows "\<exists>t. pb_decode_varint32_eof s e = (Ok (ucast v) t, e) \<and> consumed content s (length (varint_enc v)) t"
proof -
  have r: "ready content s (varint_enc v)" using assms(2) by (rule ready_prefix)
  show ?thesis
  proof (cases rule: varint_enc_cases[of v])
    case (last b)
    have "take_bit 7 v = v" by (rule take_bit_small[OF last(1)])
    then have b: "b = ucast v" using last(5) by simp
    have "(ucast b :: u32) = ucast v"
      using last(5) ucast_group[of v] \<open>take_bit 7 v = v\<close> by simp
    then show ?thesis using readbyte_ready[of s b "[]"] r last(2,4)
      by (auto simp: pb_decode_varint32_eof_def)
  next
    case (more b)
    obtain t where t: "pb_readbyte s = Ok b t" "consumed content s 1 t"
      using readbyte_ready r more(2) by metis
    have rt: "ready content t (varint_enc (drop_bit 7 v))"
      using ready_Cons_step r more(2) t(2) by metis
    obtain u where u: "varint32_loop t (take_bit 7 (ucast v)) (of_nat 7) = Ok (ucast v) u"
      "consumed content t (length (varint_enc (drop_bit 7 v))) u"
      using varint32_loop_enc[OF assms(1) rt] by auto
    have "(ucast (b AND 0x7F) :: u32) = take_bit 7 (ucast v)"
      unfolding more(3) ucast_group by (rule bit_word_eqI) (auto simp: bit_simps)
    then have "pb_decode_varint32_eof s e = (Ok (ucast v) u, e)"
      using t(1) u(1) more(4) by (simp add: pb_decode_varint32_eof_def)
    then show ?thesis using consumed_trans[OF t(2) u(2)] more(2) by auto
  qed
qed

lemma decode_varint32_enc:
  assumes "fits_varint32 v" and "ready content s (varint_enc v @ rest)"
  shows "\<exists>t. pb_decode_varint32 s = Ok (ucast v) t \<and> consumed content s (length (varint_enc v)) t"
  using decode_varint32_eof_enc[OF assms, of False] by (auto simp: pb_decode_varint32_def)

lemma skip_varint_enc:
  "ready content s (varint_enc v @ rest) \<Longrightarrow>
     \<exists>t. pb_skip_varint s = Ok () t \<and> consumed content s (length (varint_enc v)) t"
proof (induction v arbitrary: s rule: varint_enc.induct)
  case (1 v)
  have r: "ready content s (varint_enc v)" using "1.prems" by (rule ready_prefix)
  show ?case
  proof (cases rule: varint_enc_cases[of v])
    case (last b)
    obtain t where "pb_readbyte s = Ok b t" "consumed content s 1 t"
      using readbyte_ready r last(2) by metis
    then show ?thesis using last(2,4) by (simp add: pb_skip_varint.simps[of s] read_1_readbyte)
  next
    case (more b)
    obtain t where t: "pb_readbyte s = Ok b t" "consumed content s 1 t"
      using readbyte_ready r more(2) by metis
    have "ready content t (varint_enc (drop_bit 7 v) @ rest)"
      using "1.prems" ready_Cons_step t(2) more(2) by (metis append_Cons)
    then obtain u where u: "pb_skip_varint t = Ok () u"
      "consumed content t (length (varint_enc (drop_bit 7 v))) u"
      using "1.IH" more(1) by (auto simp: le_7F_iff)
    then show ?thesis using t(1) more(2,4) consumed_trans[OF t(2) u(2)]
      by (simp add: pb_skip_varint.simps[of s] read_1_readbyte)
  qed
qed

lemma read_buf_ready:
  assumes "ready content s (bs @ rest)" and "length bs = unat n"
  shows "\<exists>t. pb_read_buf s n = Ok bs t \<and> consumed content s (length bs) t"
  using read_ready[OF ready_prefix[OF assms(1)] assms(2)] assms(2) by (auto simp: pb_read_buf_def)

lemma decode_svarint_enc:
  assumes "ready content s (varint_enc (zigzag v) @ rest)"
  shows "\<exists>t. pb_decode_svarint s = Ok v t \<and> consumed content s (length (varint_enc (zigzag v))) t"
  using decode_varint_enc[OF assms] by (auto simp: pb_decode_svarint_def unzigzag_zigzag)

lemma decode_fixed32_enc:
  assumes "ready content s (le_bytes 4 v @ rest)"
  shows "\<exists>t. pb_decode_fixed32 s = Ok v t \<and> consumed content s 4 t"
  using read_buf_ready[OF assms, of 4] fixed32_join[of v]
  by (auto simp: pb_decode_fixed32_def)

lemma decode_fixed64_enc:
  assumes "ready content s (le_bytes 8 v @ rest)"
  shows "\<exists>t. pb_decode_fixed64 s = Ok v t \<and> consumed content s 8 t"
  using read_buf_ready[OF assms, of 8] fixed64_join[of v]
  by (auto simp: pb_decode_fixed64_def)

lemma skip_string_enc:
  assumes "ready content s (varint_enc (ucast (n :: u32)) @ bs @ rest)" and "length bs = unat n"
  shows "\<exists>t. pb_skip_string s = Ok () t \<and> consumed content s (length (varint_enc (ucast n) @ bs)) t"
proof -
  obtain t where t: "pb_decode_varint32 s = Ok n t"
    "consumed content s (length (varint_enc (ucast n))) t"
    using decode_varint32_enc[OF fits_ucast32 assms(1)] by (auto simp: ucast_ucast_32)
  have "ready content t bs" using ready_prefix[OF ready_step[OF assms(1) t(2)]] .
  moreover have "length bs = unat (ucast n :: u64)" using assms(2) by (simp add: unat_ucast_64)
  ultimately obtain u where "pb_read_null t (ucast n) = Ok () u" "consumed content t (length bs) u"
    using read_null_ready by metis
  then show ?thesis using t(1) consumed_trans[OF t(2)] by (auto simp: pb_skip_string_def)
qed

lemma decode_tag_enc:
  assumes "ready content s (tag_enc w n @ rest)" and "w < 8" and "n < 2 ^ 29" and "n \<noteq> 0"
  shows "\<exists>t. pb_decode_tag s = (Ok (w, n) t, False) \<and> consumed content s (length (tag_enc w n)) t"
proof -
  define x :: u32 where "x = push_bit 3 n OR w"
  have x: "(push_bit 3 (ucast n) OR ucast w :: u64) = ucast x"
    using tag_ucast[OF assms(3)] by (simp add: x_def)
  obtain t where t: "pb_decode_varint32_eof s False = (Ok x t, False)"
    "consumed content s (length (tag_enc w n)) t"
    using decode_varint32_eof_enc[OF fits_ucast32[of x], of s rest False] assms(1)
    by (auto simp: tag_enc_def x ucast_ucast_32)
  then show ?thesis using tag_split[OF assms(2,3)] assms(4)
    by (auto simp: pb_decode_tag_def x_def)
qed

end

section \<open>Round trips through a buffer\<close>

lemma varint_enc_size: "length (varint_enc v) < 2 ^ 64" "varint_enc v \<noteq> []"
  using length_varint_le_10[of v] length_varint_pos[of v] by auto

text \<open>
  A varint written with pb_encode_varint into a buffer of n bytes either fits, and then
  pb_decode_varint on exactly the bytes written gives the value back and leaves nothing, or
  n is smaller than its encoding and pb_encode_varint fails.
\<close>

theorem varint_roundtrip:
  "case pb_encode_varint (pb_ostream_from_buffer m buf n) v of
      Ok _ s \<Rightarrow> (case ostate s of
          Some (m', p) \<Rightarrow> (case pb_decode_varint (pb_istream_from_buffer m' buf (bytes_written s)) of
              Ok r t \<Rightarrow> r = v \<and> bytes_left t = 0 | _ \<Rightarrow> False)
        | None \<Rightarrow> False)
    | Fail s \<Rightarrow> unat n < length (varint_enc v)
    | NoResult \<Rightarrow> False"
proof (rule buffer_roundtrip[OF emits_varint varint_enc_size])
  fix lim s assume "ready (ibuf_content lim) s (varint_enc v)"
  then show "\<exists>t. pb_decode_varint s = Ok v t \<and> consumed (ibuf_content lim) s (length (varint_enc v)) t"
    using buf_source.decode_varint_enc[of lim s v "[]"] by simp
qed

text \<open>
  The zig-zag varints of sint32 and sint64 fields: pb_decode_svarint gives back what
  pb_encode_svarint wrote, for every 64-bit value, negative ones included.
\<close>

theorem svarint_roundtrip:
  "case pb_encode_svarint (pb_ostream_from_buffer m buf n) v of
      Ok _ s \<Rightarrow> (case ostate s of
          Some (m', p) \<Rightarrow> (case pb_decode_svarint (pb_istream_from_buffer m' buf (bytes_written s)) of
              Ok r t \<Rightarrow> r = v \<and> bytes_left t = 0 | _ \<Rightarrow> False)
        | None \<Rightarrow> False)
    | Fail s \<Rightarrow> unat n < length (varint_enc (zigzag v))
    | NoResult \<Rightarrow> False"
proof (rule buffer_roundtrip[OF emits_svarint varint_enc_size])
  fix lim s assume "ready (ibuf_content lim) s (varint_enc (zigzag v))"
  then show "\<exists>t. pb_decode_svarint s = Ok v t \<and>
      consumed (ibuf_content lim) s (length (varint_enc (zigzag v))) t"
    using buf_source.decode_svarint_enc[of lim s v "[]"] by simp
qed

text \<open>
  Pb_decode_varint32 reads every value that pb_encode_varint wrote and that is either a
  32-bit value or the 64-bit sign extension of a negative one: it returns the low 32 bits.
\<close>

theorem varint32_roundtrip:
  assumes "fits_varint32 v"
  shows "case pb_encode_varint (pb_ostream_from_buffer m buf n) v of
      Ok _ s \<Rightarrow> (case ostate s of
          Some (m', p) \<Rightarrow> (case pb_decode_varint32 (pb_istream_from_buffer m' buf (bytes_written s)) of
              Ok r t \<Rightarrow> r = ucast v \<and> bytes_left t = 0 | _ \<Rightarrow> False)
        | None \<Rightarrow> False)
    | Fail s \<Rightarrow> unat n < length (varint_enc v)
    | NoResult \<Rightarrow> False"
proof (rule buffer_roundtrip[OF emits_varint varint_enc_size])
  fix lim s assume "ready (ibuf_content lim) s (varint_enc v)"
  then show "\<exists>t. pb_decode_varint32 s = Ok (ucast v) t \<and>
      consumed (ibuf_content lim) s (length (varint_enc v)) t"
    using buf_source.decode_varint32_enc[OF assms, of lim s "[]"] by simp
qed

theorem varint32_roundtrip_witness:
  "fits_varint32 0xFFFFFFFFFFFFFFFF \<and>
   (case pb_encode_varint (pb_ostream_from_buffer (\<lambda>_. 0) 0x1000 10) 0xFFFFFFFFFFFFFFFF of
      Ok _ s \<Rightarrow> (case ostate s of
          Some (m', p) \<Rightarrow> (case pb_decode_varint32 (pb_istream_from_buffer m' 0x1000 (bytes_written s)) of
              Ok r t \<Rightarrow> r = ucast (0xFFFFFFFFFFFFFFFF :: u64) \<and> bytes_left t = 0 | _ \<Rightarrow> False)
        | None \<Rightarrow> False)
    | Fail s \<Rightarrow> unat (10 :: u64) < length (varint_enc 0xFFFFFFFFFFFFFFFF)
    | NoResult \<Rightarrow> False)"
proof -
  have h: "fits_varint32 0xFFFFFFFFFFFFFFFF" by (simp add: fits_varint32_def)
  show ?thesis using h varint32_roundtrip[OF h, where m = "\<lambda>_. 0" and buf = "0x1000" and n = 10] by blast
qed

text \<open>
  A field tag written with pb_encode_tag is read back by pb_decode_tag as the same wire
  type and field number, with *eof clear, for every field number of 1 to 2^29 - 1.
\<close>

theorem tag_roundtrip:
  assumes "w < 8" and "k \<noteq> 0" and "k < 2 ^ 29"
  shows "case pb_encode_tag (pb_ostream_from_buffer m buf n) w k of
      Ok _ s \<Rightarrow> (case ostate s of
          Some (m', p) \<Rightarrow> (case fst (pb_decode_tag (pb_istream_from_buffer m' buf (bytes_written s))) of
              Ok r t \<Rightarrow> r = (w, k) \<and> bytes_left t = 0 | _ \<Rightarrow> False)
        | None \<Rightarrow> False)
    | Fail s \<Rightarrow> unat n < length (tag_enc w k)
    | NoResult \<Rightarrow> False"
proof (rule buffer_roundtrip[OF emits_tag])
  show "length (tag_enc w k) < 2 ^ 64" "tag_enc w k \<noteq> []"
    unfolding tag_enc_def by (rule varint_enc_size)+
  fix lim s assume "ready (ibuf_content lim) s (tag_enc w k)"
  then show "\<exists>t. fst (pb_decode_tag s) = Ok (w, k) t \<and>
      consumed (ibuf_content lim) s (length (tag_enc w k)) t"
    using buf_source.decode_tag_enc[of lim s w k "[]"] assms by auto
qed

theorem tag_roundtrip_witness:
  "case pb_encode_tag (pb_ostream_from_buffer (\<lambda>_. 0) 0x1000 8) 2 100000 of
      Ok _ s \<Rightarrow> (case ostate s of
          Some (m', p) \<Rightarrow> (case fst (pb_decode_tag (pb_istream_from_buffer m' 0x1000 (bytes_written s))) of
              Ok r t \<Rightarrow> r = (2, 100000) \<and> bytes_left t = 0 | _ \<Rightarrow> False)
        | None \<Rightarrow> False)
    | Fail s \<Rightarrow> unat (8 :: u64) < length (tag_enc 2 100000)
    | NoResult \<Rightarrow> False"
  by (rule tag_roundtrip) simp_all

section \<open>What the 32-bit decoder refuses\<close>

context byte_source
begin

lemma varint32_loop_reject:
  assumes v: "\<not> bit v 31" "drop_bit 32 v \<noteq> 0"
    and "ready content s (varint_enc (drop_bit k v))" and "k < 64" and "7 dvd k" and "drop_bit k v \<noteq> 0"
  shows "\<exists>t. varint32_loop s (take_bit k (ucast v)) (of_nat k) = Fail (iset_error t ''varint overflow'')
    \<and> ierrmsg t = ierrmsg s"
  using assms(3-)
proof (induction "length (varint_enc (drop_bit k v))" arbitrary: k s rule: less_induct)
  case less
  have full: "take_bit k (ucast v :: u32) = ucast v" if "32 \<le> k" for k
    using that by (intro take_bit_word_eq_self) simp
  have r31: "drop_bit 31 (ucast v :: u32) = 0"
  proof (rule bit_word_eqI)
    fix i show "bit (drop_bit 31 (ucast v :: u32)) i \<longleftrightarrow> bit 0 i"
      using v(1) by (cases i) (auto simp: bit_simps dest: bit_imp_le_length)
  qed
  show ?case
  proof (cases rule: varint_enc_cases[of "drop_bit k v"])
    case (last b)
    obtain t where t: "pb_readbyte s = Ok b t" "consumed content s 1 t"
      using readbyte_ready less.prems(1) last(2) by metis
    have d: "drop_bit (k + 7) v = 0" using last(1) drop_bit_more by metis
    have err: "ierrmsg t = ierrmsg s" using t(2) by (simp add: consumed_def)
    show ?thesis
    proof (cases "32 \<le> k")
      case True
      have "b AND 0x7F \<noteq> 0"
      proof
        assume "b AND 0x7F = 0"
        then have "\<not> bit (drop_bit k v) i" if "i < 7" for i
          using group_and_7F_bit[OF last(3) that] that unfolding and_7F
          by (metis bit_0_eq bit_take_bit_iff bot_apply bot_bool_def)
        then have "drop_bit k v = 0" using last(1)
          by (intro drop_bit_zeroI) (metis add_diff_inverse_nat bit_drop_bit_eq drop_bit_zero_bits not_le comp_apply)
        then show False using less.prems(4) by simp
      qed
      then show ?thesis using varint32_loop_high[OF True less.prems(2) t(1)] r31 full[OF True] err by auto
    next
      case False
      obtain i where i: "32 \<le> i" "i < 64" "bit v i" using v(2) drop_bit_zeroI[of 32 v] by blast
      have ik: "i < k + 7" using drop_bit_zero_bits[OF d, of i] i(3) by fastforce
      then have k28: "k = 28" using i(1) False less.prems(3) by presburger
      have "i - 28 \<in> {4, 5, 6}" "bit (drop_bit k v) (i - 28)"
        using i ik k28 by (auto simp: bit_simps)
      then have "b AND 0x70 \<noteq> 0" using byte_and_70[OF last(3)] by blast
      with k28 show ?thesis using varint32_loop_low[of k s b t v] t(1) last(3,4) err by auto
    qed
  next
    case (more b)
    obtain t where t: "pb_readbyte s = Ok b t" "consumed content s 1 t"
      using readbyte_ready less.prems(1) more(2) by metis
    have d: "drop_bit (k + 7) v \<noteq> 0" using more(1) drop_bit_more by metis
    have k7: "k + 7 < 64" using d drop_bit_64 not_less by blast
    have r: "ready content t (varint_enc (drop_bit (k + 7) v))"
      using ready_Cons_step less.prems(1) more(2) t(2) drop_bit_more by metis
    have l: "length (varint_enc (drop_bit k v)) = 1 + length (varint_enc (drop_bit (k + 7) v))"
      using more(2) drop_bit_more by simp
    have err: "ierrmsg t = ierrmsg s" using t(2) by (simp add: consumed_def)
    obtain u where u: "varint32_loop t (take_bit (k + 7) (ucast v)) (of_nat (k + 7)) =
        Fail (iset_error u ''varint overflow'')" "ierrmsg u = ierrmsg s"
      using less.hyps[OF _ r k7 _ d] l less.prems(3) err by auto
    show ?thesis
    proof (cases "32 \<le> k")
      case True
      then show ?thesis
        using varint32_loop_high[OF True less.prems(2) t(1)] more(4) full[OF True] full[of "k + 7"] u err
        by (auto simp del: of_nat_add)
    next
      case False
      then show ?thesis using varint32_loop_low[of k s b t v] t(1) more(3,4) u
        by (auto simp del: of_nat_add)
    qed
  qed
qed

end

text \<open>The bytes at \<open>buf\<close> are a varint: the form in which the next properties take their input.\<close>

lemma decode_varint32_reject:
  assumes v: "\<not> bit v 31" "drop_bit 32 v \<noteq> 0"
    and r: "ready (ibuf_content lim) s (varint_enc v)" and e: "ierrmsg s = None"
  shows "\<exists>t. pb_decode_varint32 s = Fail t \<and> ierrmsg t = Some ''varint overflow''"
proof (cases rule: varint_enc_cases[of v])
  case (last b)
  have "drop_bit 32 v = 0" by (rule drop_bit_zeroI) (use last(1) drop_bit_zero_bits[of 7 v] in auto)
  then show ?thesis using v(2) by simp
next
  case (more b)
  obtain t where t: "pb_readbyte s = Ok b t" "consumed (ibuf_content lim) s 1 t"
    using buf_source.readbyte_ready r more(2) by metis
  have rt: "ready (ibuf_content lim) t (varint_enc (drop_bit 7 v))"
    using ready_Cons_step r more(2) t(2) by metis
  obtain u where u: "varint32_loop t (take_bit 7 (ucast v)) (of_nat 7) =
      Fail (iset_error u ''varint overflow'')" "ierrmsg u = ierrmsg t"
    using buf_source.varint32_loop_reject[OF v rt] more(1) by auto
  have "(ucast (b AND 0x7F) :: u32) = take_bit 7 (ucast v)"
    unfolding more(3) ucast_group by (rule bit_word_eqI) (auto simp: bit_simps)
  then show ?thesis using t u more(4) e
    by (auto simp: pb_decode_varint32_def pb_decode_varint32_eof_def iset_error_def consumed_def)
qed

text \<open>
  Pb_decode_varint32 refuses with "varint overflow" the encoding of every value of 2^32
  or more whose bit 31 is clear, so no field number or length is cut down to 32 bits there.
\<close>

theorem varint32_overflow:
  assumes "\<not> bit v 31" and "2 ^ 32 \<le> v" and "mem_read m buf (unat n) = varint_enc v @ rest"
  shows "\<exists>t. pb_decode_varint32 (pb_istream_from_buffer m buf n) = Fail t \<and>
    ierrmsg t = Some ''varint overflow''"
proof (rule decode_varint32_reject[OF assms(1)])
  show "drop_bit 32 v \<noteq> 0"
  proof
    assume "drop_bit 32 v = 0"
    then have "unat v div 2 ^ 32 = 0" using unat_drop_bit[of 32 v] by simp
    then show False using assms(2) by (simp add: word_le_nat_alt div_eq_0_iff)
  qed
  show "ready (ibuf_content (buf + n)) (pb_istream_from_buffer m buf n) (varint_enc v)"
    using ready_from_buffer[of buf n m] ready_prefix unfolding assms(3) by blast
qed (simp add: pb_istream_from_buffer_def)

theorem varint32_overflow_witness:
  "\<exists>t. pb_decode_varint32 (pb_istream_from_buffer (\<lambda>a. if a = 4 then 0x10 else 0x80) 0 5) = Fail t \<and>
    ierrmsg t = Some ''varint overflow''"
proof (rule varint32_overflow)
  show "\<not> bit (2 ^ 32 :: u64) 31" by (simp add: bit_exp_iff)
  show "mem_read (\<lambda>a. if a = 4 then 0x10 else 0x80) 0 (unat (5 :: u64)) = varint_enc (2 ^ 32) @ []"
    by code_simp
qed simp

text \<open>Continuation bytes without payload move the 8-bit bit position on, past 255 to 0.\<close>

context byte_source
begin

lemma varint32_loop_wraps:
  assumes "ready content s (replicate k 0x80 @ [b])" and "b AND 0x80 = 0" and "unat (p + of_nat (7 * k)) < 28"
  shows "\<exists>t. varint32_loop s r p = Ok (r OR push_bit (unat (p + of_nat (7 * k))) (ucast b)) t \<and> consumed content s (k + 1) t"
  using assms(1,3)
proof (induction k arbitrary: s p)
  case 0
  obtain t where t: "pb_readbyte s = Ok b t" "consumed content s 1 t" using readbyte_ready 0(1) by fastforce
  have "unat p < 28" using 0(2) by simp
  then have p: "\<not> 32 \<le> p" "p \<noteq> 28" by (auto simp: word_le_nat_alt)
  have "p + 7 \<noteq> 35"
  proof
    assume "p + 7 = 35"
    then have "p = 35 - 7" by (simp only: eq_diff_eq)
    then show False using p(2) by simp
  qed
  moreover have "b AND 0x7F = b"
  proof (rule bit_word_eqI)
    fix n assume "n < LENGTH(8)"
    then have "n \<in> {0, 1, 2, 3, 4, 5, 6, 7}" by auto
    moreover have "\<not> bit b 7" using assms(2) and_exp_eq_0_iff_not_bit[of b 7] by simp
    ultimately show "bit (b AND 0x7F) n \<longleftrightarrow> bit b n" by (auto simp: bit_simps)
  qed
  ultimately show ?case using t p(1) assms(2) by (subst varint32_loop.simps) (simp add: Let_def)
next
  case (Suc k)
  obtain t where t: "pb_readbyte s = Ok 0x80 t" "consumed content s 1 t" using readbyte_ready Suc.prems(1) by fastforce
  have r: "ready content t (replicate k 0x80 @ [b])" using ready_Cons_step Suc.prems(1) t(2) by fastforce
  have p: "p + 7 + of_nat (7 * k) = p + of_nat (7 * Suc k)" by (simp add: algebra_simps)
  obtain u where u: "varint32_loop t r (p + 7) = Ok (r OR push_bit (unat (p + of_nat (7 * Suc k))) (ucast b)) u"
    "consumed content t (k + 1) u" using Suc.IH[OF r, of "p + 7"] Suc.prems(2) unfolding p by blast
  have "varint32_loop s r p = varint32_loop t r (p + 7)" using t(1) by (subst varint32_loop.simps) (simp add: Let_def)
  then show ?case using u consumed_trans[OF t(2) u(2)] by simp
qed

lemma varint64_loop_bound:
  assumes "ready content s bs" and "\<forall>b\<in>set bs. b AND 0x80 \<noteq> 0" and "n \<le> 70" and "64 \<le> n + 7 * length bs"
  shows "\<exists>t. varint64_loop s r (of_nat n) = Fail (iset_error t ''varint overflow'') \<and> ierrmsg t = ierrmsg s"
  using assms
proof (induction bs arbitrary: s n r)
  case Nil
  then have "64 \<le> (of_nat n :: u8)" by (simp add: word_le_nat_alt unat_of_nat)
  then show ?case by (subst varint64_loop.simps) auto
next
  case (Cons b bs)
  show ?case
  proof (cases "64 \<le> n")
    case True
    then have "64 \<le> (of_nat n :: u8)" using Cons.prems(3) by (simp add: word_le_nat_alt unat_of_nat)
    then show ?thesis by (subst varint64_loop.simps) auto
  next
    case False
    obtain t where t: "pb_readbyte s = Ok b t" "consumed content s 1 t" using readbyte_ready Cons.prems(1) by blast
    have "ready content t bs" using ready_Cons_step Cons.prems(1) t(2) by blast
    moreover have "n + 7 \<le> 70" "64 \<le> n + 7 + 7 * length bs" using False Cons.prems(4) by simp_all
    ultimately obtain u where "varint64_loop t (r OR push_bit n (ucast (b AND 0x7F))) (of_nat (n + 7)) = Fail (iset_error u ''varint overflow'')"
      "ierrmsg u = ierrmsg t" using Cons.IH[of t "n + 7"] Cons.prems(2) by auto
    moreover have "\<not> 64 \<le> (of_nat n :: u8)" "unat (of_nat n :: u8) = n" using False by (simp_all add: word_le_nat_alt unat_of_nat)
    ultimately show ?thesis using t Cons.prems(2)
      by (subst varint64_loop.simps) (auto simp: Let_def consumed_def add.commute)
  qed
qed

end

text \<open>
  C40: The loop of pb_decode_varint32 has no bound and its 8-bit bit position wraps around after 256
  bits. After a first byte and any number \<open>k\<close> of continuation bytes 0x80, the last byte counts
  from the bit position 7 * (k + 1) modulo 256: for \<open>k\<close> of 36 or 72, for one, an overlong varint
  is accepted, with bits of the last byte in its value that have no place in 32 bits. The 64-bit
  decoder pb_decode_varint refuses whatever has ten continuation bytes.
\<close>

theorem varint32_overlong_accepted:
  assumes "mem_read m buf (unat n) = a # replicate k 0x80 @ [b] @ rest" and "a AND 0x80 \<noteq> 0" and "b AND 0x80 = 0"
    and "7 * (k + 1) mod 256 < 28"
  shows "(\<exists>t. pb_decode_varint32 (pb_istream_from_buffer m buf n :: 's pb_istream) =
        Ok (ucast (a AND 0x7F) OR push_bit (7 * (k + 1) mod 256) (ucast b)) t \<and> unat (bytes_left t) = unat n - (k + 2)) \<and>
    (9 \<le> k \<longrightarrow> (\<exists>t. pb_decode_varint (pb_istream_from_buffer m buf n :: 's pb_istream) = Fail t \<and> ierrmsg t = Some ''varint overflow''))"
proof -
  let ?s = "pb_istream_from_buffer m buf n :: 's pb_istream" and ?C = "ibuf_content (buf + n)"
  have ready: "ready ?C ?s (a # replicate k 0x80 @ [b] @ rest)" using ready_from_buffer[of buf n m] unfolding assms(1) .
  then obtain t where t: "pb_readbyte ?s = Ok a t" "consumed ?C ?s 1 t" using buf_source.readbyte_ready by blast
  have "ready ?C t ((replicate k 0x80 @ [b]) @ rest)" using ready_Cons_step[OF ready t(2)] by simp
  then have rt: "ready ?C t (replicate k 0x80 @ [b])" by (rule ready_prefix)
  have "(7 :: u8) + of_nat (7 * k) = of_nat (7 * (k + 1))" by (simp add: algebra_simps)
  then have u: "unat ((7 :: u8) + of_nat (7 * k)) = 7 * (k + 1) mod 256" by (simp only: unat_of_nat) (simp add: take_bit_eq_mod)
  obtain v where v: "varint32_loop t (ucast (a AND 0x7F)) 7 = Ok (ucast (a AND 0x7F) OR push_bit (7 * (k + 1) mod 256) (ucast b)) v"
    "consumed ?C t (k + 1) v" using buf_source.varint32_loop_wraps[OF rt assms(3), of 7] assms(4) unfolding u by blast
  have "pb_decode_varint32 ?s = Ok (ucast (a AND 0x7F) OR push_bit (7 * (k + 1) mod 256) (ucast b)) v"
    using t(1) v(1) assms(2) by (simp add: pb_decode_varint32_def pb_decode_varint32_eof_def)
  moreover have "unat (bytes_left v) = unat n - (k + 2)"
    using consumed_left[OF consumed_trans[OF t(2) v(2)]] by (simp add: pb_istream_from_buffer_def)
  moreover have "\<exists>t. pb_decode_varint ?s = Fail t \<and> ierrmsg t = Some ''varint overflow''" if k: "9 \<le> k"
  proof -
    have r: "ready ?C ?s (a # replicate k 0x80)" using ready ready_prefix[of ?C ?s "a # replicate k 0x80" "[b] @ rest"] by simp
    have c: "\<forall>x\<in>set (a # replicate k 0x80). x AND 0x80 \<noteq> 0" using assms(2) by auto
    have "64 \<le> 0 + 7 * length (a # replicate k 0x80)" using k by simp
    from buf_source.varint64_loop_bound[OF r c _ this, of 0]
    obtain t where "varint64_loop ?s 0 0 = Fail (iset_error t ''varint overflow'')" "ierrmsg t = ierrmsg ?s" by auto
    then show ?thesis by (simp add: pb_decode_varint_def iset_error_def pb_istream_from_buffer_def)
  qed
  ultimately show ?thesis by blast
qed

text \<open>A varint of 38 bytes that denotes 2^259 is decoded to 8.\<close>

theorem varint32_overlong_accepted_witness:
  "\<exists>t. pb_decode_varint32 (pb_istream_from_buffer (\<lambda>a. if a = 37 then 1 else 0x80) 0 38) = Ok 8 t \<and> bytes_left t = 0"
proof -
  have "mem_read (\<lambda>a. if a = 37 then 1 else 0x80) 0 (unat (38 :: u64)) = 0x80 # replicate 36 0x80 @ [1] @ []" by code_simp
  from varint32_overlong_accepted[OF this] show ?thesis by (auto simp: unat_eq_zero)
qed

section \<open>Skipping a field\<close>

text \<open>What follows the tag of a field on the wire, by wire type.\<close>

inductive wire_payload :: "u32 \<Rightarrow> bytes \<Rightarrow> bool" where
  payload_varint: "wire_payload PB_WT_VARINT (varint_enc v)"
| payload_64bit: "length bs = 8 \<Longrightarrow> wire_payload PB_WT_64BIT bs"
| payload_string: "length bs = unat (k :: u32) \<Longrightarrow> wire_payload PB_WT_STRING (varint_enc (ucast k) @ bs)"
| payload_32bit: "length bs = 4 \<Longrightarrow> wire_payload PB_WT_32BIT bs"

context byte_source
begin

lemma skip_field_payload:
  assumes "wire_payload w bs" and "ready content s (bs @ rest)"
  shows "\<exists>t. pb_skip_field s w = Ok () t \<and> consumed content s (length bs) t"
  using assms
proof (induction rule: wire_payload.induct)
  case (payload_varint v)
  then show ?case using skip_varint_enc by (simp add: pb_skip_field_def)
next
  case (payload_64bit bs)
  then show ?case using read_null_ready[OF ready_prefix, of s bs rest 8] by (simp add: pb_skip_field_def)
next
  case (payload_string bs k)
  then show ?case using skip_string_enc[of s k bs rest] by (simp add: pb_skip_field_def)
next
  case (payload_32bit bs)
  then show ?case using read_null_ready[OF ready_prefix, of s bs rest 4] by (simp add: pb_skip_field_def)
qed

end

text \<open>
  Pb_skip_field, the forward compatibility of the format, steps over exactly the payload
  of an unknown field: the bytes that come after it are the next ones on the stream.
\<close>

theorem skip_field_exact:
  assumes "wire_payload w bs" and "mem_read m buf (unat n) = bs @ rest"
  shows "\<exists>t :: 's pb_istream. pb_skip_field (pb_istream_from_buffer m buf n) w = Ok () t \<and>
    ibuf_content (buf + n) (isource t) = rest \<and> unat (bytes_left t) = length rest"
proof -
  let ?s = "pb_istream_from_buffer m buf n :: 's pb_istream"
  have r: "ready (ibuf_content (buf + n)) ?s (bs @ rest)"
    using ready_from_buffer[of buf n m] unfolding assms(2) .
  obtain t where t: "pb_skip_field ?s w = Ok () t" "consumed (ibuf_content (buf + n)) ?s (length bs) t"
    using buf_source.skip_field_payload[OF assms(1) r] by blast
  have "ibuf_content (buf + n) (isource ?s) = bs @ rest"
    using assms(2) by (simp add: pb_istream_from_buffer_def ibuf_content_def)
  moreover have "unat n = length bs + length rest" using arg_cong[OF assms(2), of length] by simp
  ultimately show ?thesis using t consumed_left[OF t(2)]
    by (intro exI[of _ t]) (simp add: consumed_def pb_istream_from_buffer_def)
qed

theorem skip_field_exact_witness:
  "\<exists>t. pb_skip_field (pb_istream_from_buffer (\<lambda>a. if a = 0 then 2 else 7) 0 5) PB_WT_STRING = Ok () t \<and>
    ibuf_content (0 + 5) (isource t) = [7, 7] \<and> unat (bytes_left t) = length [7 :: u8, 7]"
proof (rule skip_field_exact)
  show "wire_payload PB_WT_STRING (varint_enc (ucast (2 :: u32)) @ [7, 7])"
    by (rule payload_string) simp
  show "mem_read (\<lambda>a. if a = 0 then 2 else 7) 0 (unat (5 :: u64)) =
      (varint_enc (ucast (2 :: u32)) @ [7, 7]) @ [7, 7]"
    by code_simp
qed

end
