(* ===== verification/Nanopb_Iter.thy ===== *)
theory Nanopb_Iter
  imports Nanopb_Scalar
begin

text \<open>
  The field descriptors of nanopb (\<open>pb_field_t\<close> in pb.h) and the iterator over them
  (pb_common.c). A descriptor table is the list of its entries up to the terminator
  \<open>PB_LAST_FIELD\<close>, which is what is read past the end of the list. The iterator walks the
  table and keeps, beside its position, the addresses of the current field's data and of its
  count or presence flag in the message struct.
\<close>

section \<open>Field descriptors\<close>

record pb_field =
  ftag :: u32
  ftype :: u8
  data_offset :: u32
  size_offset :: u32 \<comment> \<open>\<open>pb_ssize_t\<close>, read as a signed number\<close>
  data_size :: u32
  array_size :: u32
  fptr :: u64

type_synonym pb_fields = "pb_field list"

definition PB_LAST_FIELD :: pb_field where
  "PB_LAST_FIELD = \<lparr>ftag = 0, ftype = 0, data_offset = 0, size_offset = 0, data_size = 0,
     array_size = 0, fptr = 0\<rparr>"

definition field_at :: "pb_fields \<Rightarrow> nat \<Rightarrow> pb_field" where
  "field_at fs i = (if i < length fs then fs ! i else PB_LAST_FIELD)"

definition PB_LTYPE :: "u8 \<Rightarrow> u8" where "PB_LTYPE x = x AND 0x0F"
definition PB_HTYPE :: "u8 \<Rightarrow> u8" where "PB_HTYPE x = x AND 0x30"
definition PB_ATYPE :: "u8 \<Rightarrow> u8" where "PB_ATYPE x = x AND 0xC0"

abbreviation PB_LTYPE_BOOL :: u8 where "PB_LTYPE_BOOL \<equiv> 0x00"
abbreviation PB_LTYPE_VARINT :: u8 where "PB_LTYPE_VARINT \<equiv> 0x01"
abbreviation PB_LTYPE_UVARINT :: u8 where "PB_LTYPE_UVARINT \<equiv> 0x02"
abbreviation PB_LTYPE_SVARINT :: u8 where "PB_LTYPE_SVARINT \<equiv> 0x03"
abbreviation PB_LTYPE_FIXED32 :: u8 where "PB_LTYPE_FIXED32 \<equiv> 0x04"
abbreviation PB_LTYPE_FIXED64 :: u8 where "PB_LTYPE_FIXED64 \<equiv> 0x05"
abbreviation PB_LTYPE_LAST_PACKABLE :: u8 where "PB_LTYPE_LAST_PACKABLE \<equiv> 0x05"
abbreviation PB_LTYPE_BYTES :: u8 where "PB_LTYPE_BYTES \<equiv> 0x06"
abbreviation PB_LTYPE_STRING :: u8 where "PB_LTYPE_STRING \<equiv> 0x07"
abbreviation PB_LTYPE_SUBMESSAGE :: u8 where "PB_LTYPE_SUBMESSAGE \<equiv> 0x08"
abbreviation PB_LTYPE_EXTENSION :: u8 where "PB_LTYPE_EXTENSION \<equiv> 0x09"
abbreviation PB_LTYPE_FIXED_LENGTH_BYTES :: u8 where "PB_LTYPE_FIXED_LENGTH_BYTES \<equiv> 0x0A"

abbreviation PB_HTYPE_REQUIRED :: u8 where "PB_HTYPE_REQUIRED \<equiv> 0x00"
abbreviation PB_HTYPE_OPTIONAL :: u8 where "PB_HTYPE_OPTIONAL \<equiv> 0x10"
abbreviation PB_HTYPE_REPEATED :: u8 where "PB_HTYPE_REPEATED \<equiv> 0x20"
abbreviation PB_HTYPE_ONEOF :: u8 where "PB_HTYPE_ONEOF \<equiv> 0x30"

abbreviation PB_ATYPE_STATIC :: u8 where "PB_ATYPE_STATIC \<equiv> 0x00"
abbreviation PB_ATYPE_POINTER :: u8 where "PB_ATYPE_POINTER \<equiv> 0x80"
abbreviation PB_ATYPE_CALLBACK :: u8 where "PB_ATYPE_CALLBACK \<equiv> 0x40"

abbreviation PB_SIZE_MAX :: u32 where "PB_SIZE_MAX \<equiv> 0xFFFFFFFF"

section \<open>The iterator\<close>

record pb_field_iter =
  istart :: pb_fields
  ipos :: nat
  required_field_index :: u32
  dest_struct :: u64
  pData :: u64
  pSize :: u64

abbreviation ifield :: "pb_field_iter \<Rightarrow> pb_field" where
  "ifield it \<equiv> field_at (istart it) (ipos it)"

definition pb_field_iter_begin :: "pb_fields \<Rightarrow> u64 \<Rightarrow> bool \<times> pb_field_iter" where
  "pb_field_iter_begin fs dest =
     (let f = field_at fs 0;
          d = (if dest = 0 then 0 else dest + ucast (data_offset f));
          z = (if dest = 0 then 0 else d + scast (size_offset f))
      in (ftag f \<noteq> 0,
          \<lparr>istart = fs, ipos = 0, required_field_index = 0, dest_struct = dest,
           pData = d, pSize = z\<rparr>))"

definition pb_field_iter_next :: "pb_field_iter \<Rightarrow> bool \<times> pb_field_iter" where
  "pb_field_iter_next it =
     (let prev = ifield it in
      if ftag prev = 0 then (False, it)
      else
        let pos = Suc (ipos it); cur = field_at (istart it) pos in
        if ftag cur = 0 then (False, snd (pb_field_iter_begin (istart it) (dest_struct it)))
        else if PB_HTYPE (ftype prev) = PB_HTYPE_ONEOF \<and> PB_HTYPE (ftype cur) = PB_HTYPE_ONEOF
                \<and> data_offset cur = PB_SIZE_MAX
        then (True, it\<lparr>ipos := pos\<rparr>)
        else
          let prev_size =
                (if PB_ATYPE (ftype prev) = PB_ATYPE_STATIC \<and> PB_HTYPE (ftype prev) = PB_HTYPE_REPEATED
                 then ucast (data_size prev) * ucast (array_size prev)
                 else if PB_ATYPE (ftype prev) = PB_ATYPE_POINTER then 8
                 else ucast (data_size prev));
              idx = (if PB_HTYPE (ftype prev) = PB_HTYPE_REQUIRED
                     then required_field_index it + 1 else required_field_index it);
              d = pData it + prev_size + ucast (data_offset cur)
          in (True, it\<lparr>ipos := pos, required_field_index := idx, pData := d,
                       pSize := d + scast (size_offset cur)\<rparr>))"

text \<open>
  \<open>pb_field_iter_find\<close> goes round the table until it is back where it started. The rounds are
  counted down: None is a search that does not come back, which the table of a generated
  message never makes happen (\<open>iter_find_spec\<close>).
\<close>

fun iter_find_loop :: "nat \<Rightarrow> nat \<Rightarrow> u32 \<Rightarrow> pb_field_iter \<Rightarrow> (bool \<times> pb_field_iter) option" where
  "iter_find_loop 0 start tag it = None"
| "iter_find_loop (Suc n) start tag it =
     (if ftag (ifield it) = tag \<and> PB_LTYPE (ftype (ifield it)) \<noteq> PB_LTYPE_EXTENSION
      then Some (True, it)
      else let it' = snd (pb_field_iter_next it) in
           if ipos it' = start then Some (False, it') else iter_find_loop n start tag it')"

definition pb_field_iter_find :: "pb_field_iter \<Rightarrow> u32 \<Rightarrow> (bool \<times> pb_field_iter) option" where
  "pb_field_iter_find it tag = iter_find_loop (Suc (length (istart it))) (ipos it) tag it"

section \<open>Where the iterator stands\<close>

text \<open>
  In a table whose entries all have a tag, the iterator's state is a function of its
  position: \<open>iter_at fs dest i\<close> is the state after \<open>i\<close> steps. Stepping past the last entry
  leads back to the state of the first.
\<close>

definition wf_fields :: "pb_fields \<Rightarrow> bool" where
  "wf_fields fs \<longleftrightarrow> (\<forall>f\<in>set fs. ftag f \<noteq> 0)"

fun iter_at :: "pb_fields \<Rightarrow> u64 \<Rightarrow> nat \<Rightarrow> pb_field_iter" where
  "iter_at fs dest 0 = snd (pb_field_iter_begin fs dest)"
| "iter_at fs dest (Suc i) = snd (pb_field_iter_next (iter_at fs dest i))"

lemma iter_begin_fields [simp]:
  "istart (snd (pb_field_iter_begin fs d)) = fs"
  "ipos (snd (pb_field_iter_begin fs d)) = 0"
  "dest_struct (snd (pb_field_iter_begin fs d)) = d"
  "required_field_index (snd (pb_field_iter_begin fs d)) = 0"
  by (simp_all add: pb_field_iter_begin_def Let_def)

lemma iter_begin_nonempty: "fst (pb_field_iter_begin fs d) \<longleftrightarrow> ftag (field_at fs 0) \<noteq> 0"
  by (simp add: pb_field_iter_begin_def Let_def)

lemma iter_next_frame [simp]:
  "istart (snd (pb_field_iter_next it)) = istart it"
  "dest_struct (snd (pb_field_iter_next it)) = dest_struct it"
  by (auto simp: pb_field_iter_next_def Let_def)

lemma wf_field_tag: "wf_fields fs \<Longrightarrow> ftag (field_at fs i) = 0 \<longleftrightarrow> length fs \<le> i"
  by (auto simp: wf_fields_def field_at_def PB_LAST_FIELD_def)

lemma iter_next_inside:
  "wf_fields (istart it) \<Longrightarrow> Suc (ipos it) < length (istart it) \<Longrightarrow>
     fst (pb_field_iter_next it) \<and> ipos (snd (pb_field_iter_next it)) = Suc (ipos it)"
  by (auto simp: pb_field_iter_next_def Let_def wf_field_tag)

lemma iter_next_wraps:
  "wf_fields (istart it) \<Longrightarrow> Suc (ipos it) = length (istart it) \<Longrightarrow>
     pb_field_iter_next it = (False, snd (pb_field_iter_begin (istart it) (dest_struct it)))"
  by (auto simp: pb_field_iter_next_def Let_def wf_field_tag)

lemma iter_at_frame [simp]: "istart (iter_at fs d i) = fs" "dest_struct (iter_at fs d i) = d"
  by (induction i) auto

lemma iter_at_pos: "wf_fields fs \<Longrightarrow> i < length fs \<Longrightarrow> ipos (iter_at fs d i) = i"
proof (induction i)
  case (Suc i)
  then show ?case using iter_next_inside[of "iter_at fs d i"] by simp
qed simp

text \<open>One step round the table: to the next position, or back to the first.\<close>

lemma iter_next_at:
  assumes "wf_fields fs" and "i < length fs"
  shows "pb_field_iter_next (iter_at fs d i) =
    (if Suc i < length fs then (True, iter_at fs d (Suc i)) else (False, iter_at fs d 0))"
proof (cases "Suc i < length fs")
  case True
  have "fst (pb_field_iter_next (iter_at fs d i))"
    using iter_next_inside[of "iter_at fs d i"] True assms iter_at_pos[of fs i d] by simp
  then show ?thesis using True by (simp add: prod_eq_iff)
next
  case False
  then have "Suc i = length fs" using assms(2) by simp
  then show ?thesis using False assms iter_next_wraps[of "iter_at fs d i"] iter_at_pos[of fs i d]
    by simp
qed

lemma iter_next_at_snd:
  assumes "wf_fields fs" and "i < length fs"
  shows "snd (pb_field_iter_next (iter_at fs d i)) = iter_at fs d (Suc i mod length fs)"
proof (cases "Suc i < length fs")
  case True
  then show ?thesis by (simp add: iter_next_at[OF assms] del: iter_at.simps)
next
  case False
  then have "Suc i = length fs" using assms(2) by simp
  then show ?thesis using False by (simp add: iter_next_at[OF assms] del: iter_at.simps)
qed

section \<open>Loops over fields and over array items\<close>

text \<open>
  The loop \<open>do \<dots> while (pb_field_iter_next(&iter))\<close> visits the same iterators whatever its
  body does, as long as the body does not leave it; \<open>visits\<close> lists them.
\<close>

function visits :: "pb_field_iter \<Rightarrow> pb_field_iter list" where
  "visits it = it # (if fst (pb_field_iter_next it) then visits (snd (pb_field_iter_next it)) else [])"
  by pat_completeness auto

lemma iter_next_progress:
  "fst (pb_field_iter_next it) \<Longrightarrow>
     ipos (snd (pb_field_iter_next it)) = Suc (ipos it) \<and> Suc (ipos it) < length (istart it)"
  by (auto simp: pb_field_iter_next_def Let_def field_at_def PB_LAST_FIELD_def split: if_splits)

termination visits
  by (relation "measure (\<lambda>it. length (istart it) - ipos it)") (auto dest: iter_next_progress)

declare visits.simps [simp del]

definition field_walk :: "pb_fields \<Rightarrow> u64 \<Rightarrow> pb_field_iter list" where
  "field_walk fs dest =
     (case pb_field_iter_begin fs dest of (ok, it) \<Rightarrow> if ok then visits it else [])"

fun for_each :: "('i \<Rightarrow> 's \<Rightarrow> (unit, 's) outcome) \<Rightarrow> 'i list \<Rightarrow> 's \<Rightarrow> (unit, 's) outcome" where
  "for_each f [] s = Ok () s"
| "for_each f (it # its) s = bindo (f it s) (\<lambda>_ s. for_each f its s)"

text \<open>A loop over array items, the pointer advancing by the item size.\<close>

fun for_items :: "('s \<Rightarrow> u64 \<Rightarrow> (unit, 's) outcome) \<Rightarrow> u64 \<Rightarrow> nat \<Rightarrow> u64 \<Rightarrow> 's \<Rightarrow> (unit, 's) outcome" where
  "for_items func stride 0 p s = Ok () s"
| "for_items func stride (Suc n) p s =
     bindo (func s p) (\<lambda>_ s. for_items func stride n (p + stride) s)"

text \<open>Every iterator of a walk stands on an entry of the table.\<close>

lemma visits_inside:
  "it' \<in> set (visits it) \<Longrightarrow> ipos it < length (istart it) \<Longrightarrow>
     istart it' = istart it \<and> ipos it' < length (istart it)"
proof (induction it rule: visits.induct)
  case (1 it)
  show ?case
  proof (cases "it' = it")
    case False
    then have n: "fst (pb_field_iter_next it)" and it': "it' \<in> set (visits (snd (pb_field_iter_next it)))"
      using "1.prems"(1) by (auto simp: visits.simps[of it] split: if_splits)
    show ?thesis using "1.IH"[OF n it'] iter_next_progress[OF n] by simp
  qed (use 1 in simp)
qed

lemma field_walk_member:
  assumes "it \<in> set (field_walk fs a)"
  shows "ifield it \<in> set fs"
proof -
  have b: "fst (pb_field_iter_begin fs a)" and v: "it \<in> set (visits (snd (pb_field_iter_begin fs a)))"
    using assms by (auto simp: field_walk_def case_prod_beta split: if_splits)
  have "0 < length fs" using b by (auto simp: iter_begin_nonempty field_at_def PB_LAST_FIELD_def split: if_splits)
  then have "istart it = fs \<and> ipos it < length fs" using visits_inside[OF v] by simp
  then show ?thesis by (auto simp: field_at_def)
qed

section \<open>What the search finds\<close>

definition matches :: "u32 \<Rightarrow> pb_field \<Rightarrow> bool" where
  "matches tag f \<longleftrightarrow> ftag f = tag \<and> PB_LTYPE (ftype f) \<noteq> PB_LTYPE_EXTENSION"

lemma iter_find_loop_step:
  assumes wf: "wf_fields fs" and i: "i < length fs"
  shows "iter_find_loop (Suc n) start tag (iter_at fs d i) =
    (if matches tag (fs ! i) then Some (True, iter_at fs d i)
     else if Suc i mod length fs = start then Some (False, iter_at fs d start)
     else iter_find_loop n start tag (iter_at fs d (Suc i mod length fs)))"
proof -
  have "Suc i mod length fs < length fs" using i by (intro mod_less_divisor) auto
  then have p: "ipos (iter_at fs d (Suc i mod length fs)) = Suc i mod length fs"
    by (rule iter_at_pos[OF wf])
  have f: "ifield (iter_at fs d i) = fs ! i" using i by (simp add: iter_at_pos[OF wf i] field_at_def)
  show ?thesis
    by (simp only: iter_find_loop.simps f iter_next_at_snd[OF wf i] Let_def p matches_def)
      (simp del: iter_at.simps)
qed

text \<open>Going round a table of \<open>n\<close> entries: no position comes twice, and none is left out.\<close>

lemma round_neq:
  assumes "start < (n::nat)" and "Suc k < n"
  shows "(start + Suc k) mod n \<noteq> start"
proof (cases "start + Suc k < n")
  case False
  then have "(start + Suc k) mod n = start + Suc k - n"
    using assms by (simp add: le_mod_geq)
  then show ?thesis using False assms by simp
qed simp

lemma round_covers:
  assumes "start < length fs" and "f \<in> set fs"
  shows "\<exists>j<length fs. f = fs ! ((start + j) mod length fs)"
proof -
  obtain i where i: "i < length fs" "f = fs ! i" using assms(2) by (auto simp: in_set_conv_nth)
  have "(start + (length fs + i - start) mod length fs) mod length fs = i"
    using assms(1) i(1) by (simp add: mod_add_right_eq)
  moreover have "(length fs + i - start) mod length fs < length fs"
    using assms(1) by (intro mod_less_divisor) auto
  ultimately show ?thesis using i(2) by metis
qed

text \<open>
  Searching from position \<open>i\<close> looks at \<open>i, i + 1, \<dots>\<close> round the table; \<open>k\<close> positions have
  been looked at in vain.
\<close>

lemma iter_find_loop_at:
  assumes wf: "wf_fields fs" and start: "start < length fs"
    and k: "k < length fs" and none: "\<And>j. j < k \<Longrightarrow> \<not> matches tag (fs ! ((start + j) mod length fs))"
    and n: "length fs \<le> n + k"
  shows "\<exists>r j. iter_find_loop n start tag (iter_at fs d ((start + k) mod length fs)) =
      Some (r, iter_at fs d ((start + j) mod length fs)) \<and>
    (if r then k \<le> j \<and> j < length fs \<and> matches tag (fs ! ((start + j) mod length fs)) \<and>
        (\<forall>i<j. \<not> matches tag (fs ! ((start + i) mod length fs)))
     else j = 0 \<and> (\<forall>f\<in>set fs. \<not> matches tag f))"
  using k none n
proof (induction n arbitrary: k)
  case 0
  then show ?case by simp
next
  case (Suc n)
  let ?i = "(start + k) mod length fs"
  have i: "?i < length fs" using start by (intro mod_less_divisor) auto
  show ?case
  proof (cases "matches tag (fs ! ?i)")
    case True
    then show ?thesis unfolding iter_find_loop_step[OF wf i] using Suc.prems(1,2)
      by (intro exI[of _ True] exI[of _ k]) simp
  next
    case False
    have i': "Suc ?i mod length fs = (start + Suc k) mod length fs" by (simp add: mod_Suc_eq)
    have step: "iter_find_loop (Suc n) start tag (iter_at fs d ?i) =
      (if (start + Suc k) mod length fs = start then Some (False, iter_at fs d start)
       else iter_find_loop n start tag (iter_at fs d ((start + Suc k) mod length fs)))"
      unfolding iter_find_loop_step[OF wf i] i' using False by simp
    have none': "\<not> matches tag (fs ! ((start + j) mod length fs))" if "j < Suc k" for j
      using that Suc.prems(2) False by (auto simp: less_Suc_eq)
    show ?thesis
    proof (cases "Suc k < length fs")
      case True
      then have "(start + Suc k) mod length fs \<noteq> start"
        by (rule round_neq[OF start])
      then show ?thesis using Suc.IH[OF True none'] Suc.prems(3) unfolding step by fastforce
    next
      case False
      then have k: "Suc k = length fs" using Suc.prems(1) by simp
      have "\<not> matches tag f" if "f \<in> set fs" for f
        using round_covers[OF start that] none' k by metis
      then show ?thesis unfolding step using k start
        by (intro exI[of _ False] exI[of _ 0]) simp
    qed
  qed
qed

text \<open>
  C35: Searching the iterator of a well-formed table for a tag always comes back. It
  finds the first entry with that tag, counted round the table from where the iterator
  stands, that is not an extension field, with the data pointers of that entry; if the table
  has no such entry it reports so and leaves the iterator as it was.
\<close>

theorem iter_find_spec:
  assumes "wf_fields fs" and "start < length fs"
  shows "\<exists>r j. pb_field_iter_find (iter_at fs d start) tag =
      Some (r, iter_at fs d ((start + j) mod length fs)) \<and>
    (if r then j < length fs \<and> matches tag (fs ! ((start + j) mod length fs)) \<and>
        (\<forall>i<j. \<not> matches tag (fs ! ((start + i) mod length fs)))
     else j = 0 \<and> (\<forall>f\<in>set fs. \<not> matches tag f))"
proof -
  have n: "length fs \<le> Suc (length fs) + 0" and k: "0 < length fs" using assms(2) by auto
  have "pb_field_iter_find (iter_at fs d start) tag =
      iter_find_loop (Suc (length fs)) start tag (iter_at fs d ((start + 0) mod length fs))"
    using assms(2) by (simp only: pb_field_iter_find_def iter_at_frame iter_at_pos[OF assms]
        add_0_right mod_less)
  then show ?thesis
    using iter_find_loop_at[OF assms k _ n, of tag d] by fastforce
qed

definition sample_fields :: pb_fields where
  "sample_fields =
     [\<lparr>ftag = 1, ftype = 0x01, data_offset = 0, size_offset = 0, data_size = 4, array_size = 0,
       fptr = 0\<rparr>,
      \<lparr>ftag = 3, ftype = 0x22, data_offset = 8, size_offset = 0xFFFFFFFC, data_size = 8,
       array_size = 4, fptr = 0\<rparr>]"

lemma iter_find_spec_witness:
  "\<exists>j. pb_field_iter_find (iter_at sample_fields 0x1000 1) 1 =
     Some (True, iter_at sample_fields 0x1000 ((1 + j) mod 2)) \<and> j < 2"
proof -
  have wf: "wf_fields sample_fields" by (simp add: wf_fields_def sample_fields_def)
  have "matches 1 (sample_fields ! 0)"
    by (simp add: matches_def sample_fields_def PB_LTYPE_def)
  then have m: "\<exists>f\<in>set sample_fields. matches 1 f" by (auto simp: sample_fields_def)
  have l: "length sample_fields = 2" by (simp add: sample_fields_def)
  show ?thesis
    using iter_find_spec[OF wf, of 1 "0x1000" 1] m unfolding l by (auto split: if_splits)
qed

end
