(* ===== verification/Nanopb_Encode.thy ===== *)
theory Nanopb_Encode
  imports Nanopb_Iter
begin

text \<open>
  The message encoder of nanopb (pb_encode.c): the encoders of the field types, arrays, basic,
  callback and extension fields, \<open>pb_encode\<close> itself and the entry points built on it.

  What C pointers lead to is in an environment: the memory the message lies in (the encoder
  does not change it), the descriptor tables, which are static data, and the encoding
  functions of the user, which are parameters. The output goes to the stream's sink, apart
  from that memory. The recursion through submessages is tied with fuel: \<open>pb_encode (Suc n)\<close>
  encodes submessages with \<open>pb_encode n\<close>, and \<open>NoResult\<close> stands for a nesting deeper than the
  fuel and for the places where the code has undefined behaviour.
\<close>

section \<open>The environment\<close>

record 's enc_env =
  emem :: mem
  edescs :: "u64 \<Rightarrow> pb_fields"
  encode_cb :: "u64 \<Rightarrow> pb_field \<Rightarrow> u64 \<Rightarrow> 's pb_ostream \<Rightarrow> (unit, 's pb_ostream) outcome"
  ext_encode_cb :: "u64 \<Rightarrow> u64 \<Rightarrow> 's pb_ostream \<Rightarrow> (unit, 's pb_ostream) outcome"

type_synonym 's encoder = "pb_field \<Rightarrow> 's pb_ostream \<Rightarrow> u64 \<Rightarrow> (unit, 's pb_ostream) outcome"

type_synonym 's msg_encoder = "pb_fields \<Rightarrow> u64 \<Rightarrow> 's pb_ostream \<Rightarrow> (unit, 's pb_ostream) outcome"

definition safe_read_bool :: "mem \<Rightarrow> u64 \<Rightarrow> bool" where
  "safe_read_bool m a \<longleftrightarrow> m a \<noteq> 0"

section \<open>Encoders of the field types\<close>

definition pb_encode_tag_for_field :: "'s pb_ostream \<Rightarrow> pb_field \<Rightarrow> (unit, 's pb_ostream) outcome" where
  "pb_encode_tag_for_field s f =
     (let lt = PB_LTYPE (ftype f) in
      if lt = PB_LTYPE_BOOL \<or> lt = PB_LTYPE_VARINT \<or> lt = PB_LTYPE_UVARINT \<or> lt = PB_LTYPE_SVARINT
      then pb_encode_tag s 0 (ftag f)
      else if lt = PB_LTYPE_FIXED32 then pb_encode_tag s 5 (ftag f)
      else if lt = PB_LTYPE_FIXED64 then pb_encode_tag s 1 (ftag f)
      else if lt = PB_LTYPE_BYTES \<or> lt = PB_LTYPE_STRING \<or> lt = PB_LTYPE_SUBMESSAGE
           \<or> lt = PB_LTYPE_FIXED_LENGTH_BYTES
      then pb_encode_tag s 2 (ftag f)
      else Fail (oset_error s ''invalid field type''))"

definition pb_enc_bool :: "mem \<Rightarrow> 's encoder" where
  "pb_enc_bool m f s src = pb_encode_varint s (if safe_read_bool m src then 1 else 0)"

definition pb_enc_varint :: "mem \<Rightarrow> 's encoder" where
  "pb_enc_varint m f s src =
     (if data_size f = 1 then pb_encode_varint s (scast (rd8 m src))
      else if data_size f = 2 then pb_encode_varint s (scast (rd16 m src))
      else if data_size f = 4 then pb_encode_varint s (scast (rd32 m src))
      else if data_size f = 8 then pb_encode_varint s (rd64 m src)
      else Fail (oset_error s ''invalid data_size''))"

definition pb_enc_uvarint :: "mem \<Rightarrow> 's encoder" where
  "pb_enc_uvarint m f s src =
     (if data_size f = 1 then pb_encode_varint s (ucast (rd8 m src))
      else if data_size f = 2 then pb_encode_varint s (ucast (rd16 m src))
      else if data_size f = 4 then pb_encode_varint s (ucast (rd32 m src))
      else if data_size f = 8 then pb_encode_varint s (rd64 m src)
      else Fail (oset_error s ''invalid data_size''))"

definition pb_enc_svarint :: "mem \<Rightarrow> 's encoder" where
  "pb_enc_svarint m f s src =
     (if data_size f = 1 then pb_encode_svarint s (scast (rd8 m src))
      else if data_size f = 2 then pb_encode_svarint s (scast (rd16 m src))
      else if data_size f = 4 then pb_encode_svarint s (scast (rd32 m src))
      else if data_size f = 8 then pb_encode_svarint s (rd64 m src)
      else Fail (oset_error s ''invalid data_size''))"

definition pb_enc_fixed32 :: "mem \<Rightarrow> 's encoder" where
  "pb_enc_fixed32 m f s src = pb_encode_fixed32 s (rd32 m src)"

definition pb_enc_fixed64 :: "mem \<Rightarrow> 's encoder" where
  "pb_enc_fixed64 m f s src = pb_encode_fixed64 s (rd64 m src)"

text \<open>\<open>pb_bytes_array_t\<close> is a \<open>pb_size_t\<close> and, at offset 4, the bytes.\<close>

definition pb_enc_bytes :: "mem \<Rightarrow> 's encoder" where
  "pb_enc_bytes m f s src =
     (if src = 0 then pb_encode_string s [] 0
      else if PB_ATYPE (ftype f) = PB_ATYPE_STATIC \<and> ucast (data_size f) - 4 < (ucast (rd32 m src) :: u64)
      then Fail (oset_error s ''bytes size exceeded'')
      else pb_encode_string s (mem_read m (src + 4) (unat (rd32 m src))) (ucast (rd32 m src)))"

function strnlen :: "mem \<Rightarrow> u64 \<Rightarrow> u64 \<Rightarrow> u64 \<Rightarrow> u64" where
  "strnlen m p n limit = (if n < limit \<and> m p \<noteq> 0 then strnlen m (p + 1) (n + 1) limit else n)"
  by pat_completeness auto
termination
proof (relation "measure (\<lambda>(m, p, n, limit). unat limit - unat n)")
  fix m :: mem and p n limit :: u64
  assume "n < limit \<and> m p \<noteq> 0"
  then have "unat n < unat limit" by (simp add: word_less_nat_alt)
  moreover then have "unat (n + 1) = unat n + 1" using unat_bump[of n 1 limit] by simp
  ultimately show "((m, p + 1, n + 1, limit), (m, p, n, limit)) \<in> measure (\<lambda>(m, p, n, limit). unat limit - unat n)"
    by simp
qed simp

declare strnlen.simps [simp del]

definition pb_enc_string :: "mem \<Rightarrow> 's encoder" where
  "pb_enc_string m f s src =
     (let limit = (if PB_ATYPE (ftype f) = PB_ATYPE_POINTER then - 1 else ucast (data_size f));
          n = (if src = 0 then 0 else strnlen m src 0 limit)
      in pb_encode_string s (mem_read m src (unat n)) n)"

definition pb_enc_fixed_length_bytes :: "mem \<Rightarrow> 's encoder" where
  "pb_enc_fixed_length_bytes m f s src =
     pb_encode_string s (mem_read m src (unat (data_size f))) (ucast (data_size f))"

text \<open>
  A submessage is encoded twice: once to find its size, and then into a substream of exactly
  that size.
\<close>

definition pb_encode_submessage ::
  "'s msg_encoder \<Rightarrow> pb_fields \<Rightarrow> u64 \<Rightarrow> 's pb_ostream \<Rightarrow> (unit, 's pb_ostream) outcome" where
  "pb_encode_submessage enc fs src s =
     (case enc fs src PB_OSTREAM_SIZING of
        NoResult \<Rightarrow> NoResult
      | Fail sub \<Rightarrow> Fail (s\<lparr>oerrmsg := oerrmsg sub\<rparr>)
      | Ok _ sub \<Rightarrow>
          (let sz = bytes_written sub in
           bindo (pb_encode_varint s sz) (\<lambda>_ s.
             case ocallback s of
               None \<Rightarrow> pb_write s [] sz
             | Some cb \<Rightarrow>
                 if max_size s < bytes_written s + sz then Fail (oset_error s ''stream full'')
                 else
                   (let finish = (\<lambda>status sub.
                      (let s' = s\<lparr>bytes_written := bytes_written s + bytes_written sub,
                                  ostate := ostate sub, oerrmsg := oerrmsg sub\<rparr> in
                       if bytes_written sub \<noteq> sz then Fail (oset_error s' ''submsg size changed'')
                       else if status then Ok () s' else Fail s'))
                    in case enc fs src \<lparr>ocallback = Some cb, ostate = ostate s, max_size = sz,
                                        bytes_written = 0, oerrmsg = None\<rparr> of
                         Ok _ sub \<Rightarrow> finish True sub
                       | Fail sub \<Rightarrow> finish False sub
                       | NoResult \<Rightarrow> NoResult))))"

definition pb_enc_submessage :: "'s enc_env \<Rightarrow> 's msg_encoder \<Rightarrow> 's encoder" where
  "pb_enc_submessage env enc f s src =
     (if fptr f = 0 then Fail (oset_error s ''invalid field descriptor'')
      else pb_encode_submessage enc (edescs env (fptr f)) src s)"

text \<open>
  The table PB_ENCODERS. Its entry for extensions is NULL and there is none past
  \<open>PB_LTYPE_FIXED_LENGTH_BYTES\<close>: calling those is undefined.
\<close>

definition PB_ENCODERS :: "'s enc_env \<Rightarrow> 's msg_encoder \<Rightarrow> u8 \<Rightarrow> 's encoder" where
  "PB_ENCODERS env enc lt =
     (if lt = PB_LTYPE_BOOL then pb_enc_bool (emem env)
      else if lt = PB_LTYPE_VARINT then pb_enc_varint (emem env)
      else if lt = PB_LTYPE_UVARINT then pb_enc_uvarint (emem env)
      else if lt = PB_LTYPE_SVARINT then pb_enc_svarint (emem env)
      else if lt = PB_LTYPE_FIXED32 then pb_enc_fixed32 (emem env)
      else if lt = PB_LTYPE_FIXED64 then pb_enc_fixed64 (emem env)
      else if lt = PB_LTYPE_BYTES then pb_enc_bytes (emem env)
      else if lt = PB_LTYPE_STRING then pb_enc_string (emem env)
      else if lt = PB_LTYPE_SUBMESSAGE then pb_enc_submessage env enc
      else if lt = PB_LTYPE_FIXED_LENGTH_BYTES then pb_enc_fixed_length_bytes (emem env)
      else (\<lambda>f s src. NoResult))"

section \<open>Arrays\<close>

text \<open>The packed payload: its size in bytes, then its items, which a sizing stream skips.\<close>

definition enc_packed :: "'s encoder \<Rightarrow> pb_field \<Rightarrow> u64 \<Rightarrow> u64 \<Rightarrow> u64 \<Rightarrow> 's pb_ostream \<Rightarrow>
    (unit, 's pb_ostream) outcome" where
  "enc_packed func f p count sz s =
     bindo (pb_encode_varint s sz) (\<lambda>_ s.
       if ocallback s = None then pb_write s [] sz
       else for_items (func f) (ucast (data_size f)) (unat count) p s)"

definition encode_array :: "mem \<Rightarrow> 's encoder \<Rightarrow> pb_field \<Rightarrow> u64 \<Rightarrow> u64 \<Rightarrow> 's pb_ostream \<Rightarrow>
    (unit, 's pb_ostream) outcome" where
  "encode_array m func f p count s =
     (if count = 0 then Ok () s
      else if PB_ATYPE (ftype f) \<noteq> PB_ATYPE_POINTER \<and> ucast (array_size f) < count
      then Fail (oset_error s ''array max size exceeded'')
      else if PB_LTYPE (ftype f) \<le> PB_LTYPE_LAST_PACKABLE
      then bindo (pb_encode_tag s 2 (ftag f)) (\<lambda>_ s.
             if PB_LTYPE (ftype f) = PB_LTYPE_FIXED32 then enc_packed func f p count (4 * count) s
             else if PB_LTYPE (ftype f) = PB_LTYPE_FIXED64 then enc_packed func f p count (8 * count) s
             else (case for_items (func f) (ucast (data_size f)) (unat count) p PB_OSTREAM_SIZING of
                     Ok _ sub \<Rightarrow> enc_packed func f p count (bytes_written sub) s
                   | Fail _ \<Rightarrow> Fail s
                   | NoResult \<Rightarrow> NoResult))
      else for_items (\<lambda>s p. bindo (pb_encode_tag_for_field s f) (\<lambda>_ s.
             func f s (if PB_ATYPE (ftype f) = PB_ATYPE_POINTER \<and>
                          (PB_LTYPE (ftype f) = PB_LTYPE_STRING \<or> PB_LTYPE (ftype f) = PB_LTYPE_BYTES)
                       then rd64 m p else p)))
           (ucast (data_size f)) (unat count) p s)"

section \<open>Basic, callback and extension fields\<close>

fun all_opt :: "('a \<Rightarrow> bool option) \<Rightarrow> 'a list \<Rightarrow> bool option" where
  "all_opt f [] = Some True"
| "all_opt f (x # xs) = (case f x of Some True \<Rightarrow> all_opt f xs | r \<Rightarrow> r)"

fun pb_check_proto3_default_value :: "nat \<Rightarrow> 's enc_env \<Rightarrow> pb_field \<Rightarrow> u64 \<Rightarrow> bool option" where
  "pb_check_proto3_default_value 0 env f a = None"
| "pb_check_proto3_default_value (Suc n) env f a =
     (let m = emem env; ty = ftype f; pSize = a + scast (size_offset f) in
      if PB_HTYPE ty = PB_HTYPE_REQUIRED then Some False
      else if PB_HTYPE ty = PB_HTYPE_REPEATED \<and> size_offset f \<noteq> 0 then Some (rd32 m pSize = 0)
      else if PB_HTYPE ty = PB_HTYPE_REPEATED \<and> PB_ATYPE ty = PB_ATYPE_STATIC then Some False
      else if PB_HTYPE ty = PB_HTYPE_ONEOF then Some (rd32 m pSize = 0)
      else if PB_HTYPE ty = PB_HTYPE_OPTIONAL \<and> size_offset f \<noteq> 0
      then Some (\<not> safe_read_bool m pSize)
      else if PB_ATYPE ty = PB_ATYPE_STATIC \<and> PB_LTYPE ty = PB_LTYPE_BYTES then Some (rd32 m a = 0)
      else if PB_ATYPE ty = PB_ATYPE_STATIC \<and> PB_LTYPE ty = PB_LTYPE_STRING then Some (m a = 0)
      else if PB_ATYPE ty = PB_ATYPE_STATIC \<and> PB_LTYPE ty = PB_LTYPE_FIXED_LENGTH_BYTES
      then Some (data_size f = 0)
      else if PB_ATYPE ty = PB_ATYPE_STATIC \<and> PB_LTYPE ty = PB_LTYPE_SUBMESSAGE
      then all_opt (\<lambda>it. pb_check_proto3_default_value n env (ifield it) (pData it))
             (field_walk (edescs env (fptr f)) a)
      else if PB_ATYPE ty = PB_ATYPE_POINTER \<and> PB_LTYPE_LAST_PACKABLE < PB_LTYPE ty
      then Some (rd64 m a = 0)
      else Some (\<forall>b\<in>set (mem_read m a (unat (data_size f))). b = 0))"

text \<open>
  In \<open>encode_basic_field\<close> the pointer \<open>pSize\<close> is the address of a count or flag in the message
  or of the local variable \<open>implicit_has\<close>. The third combination, a oneof without an offset to
  its tag, would read four bytes from that one-byte variable.
\<close>

definition encode_basic_field :: "nat \<Rightarrow> 's enc_env \<Rightarrow> 's msg_encoder \<Rightarrow> pb_field \<Rightarrow> 's pb_ostream \<Rightarrow>
    u64 \<Rightarrow> (unit, 's pb_ostream) outcome" where
  "encode_basic_field n env enc f s p0 =
     (let m = emem env;
          func = PB_ENCODERS env enc (PB_LTYPE (ftype f));
          pSize = p0 + scast (size_offset f);
          proto3 = (if size_offset f = 0 \<and> PB_HTYPE (ftype f) = PB_HTYPE_OPTIONAL
                    then map_option Not (pb_check_proto3_default_value n env f p0) else Some True)
      in case proto3 of None \<Rightarrow> NoResult | Some has0 \<Rightarrow>
        (let p = (if PB_ATYPE (ftype f) = PB_ATYPE_POINTER then rd64 m p0 else p0);
             implicit_has = (if PB_ATYPE (ftype f) = PB_ATYPE_POINTER then p \<noteq> 0 else has0);
             write = (\<lambda>s. bindo (pb_encode_tag_for_field s f) (\<lambda>_ s. func f s p))
         in if PB_HTYPE (ftype f) = PB_HTYPE_REQUIRED
            then (if p = 0 then Fail (oset_error s ''missing required field'') else write s)
            else if PB_HTYPE (ftype f) = PB_HTYPE_OPTIONAL
            then (if (if size_offset f \<noteq> 0 then safe_read_bool m pSize else implicit_has)
                  then write s else Ok () s)
            else if PB_HTYPE (ftype f) = PB_HTYPE_REPEATED
            then encode_array m func f p
                   (ucast (if size_offset f \<noteq> 0 then rd32 m pSize else array_size f)) s
            else if PB_HTYPE (ftype f) = PB_HTYPE_ONEOF
            then (if size_offset f = 0 then NoResult
                  else if rd32 m pSize = ftag f then write s else Ok () s)
            else Fail (oset_error s ''invalid field type'')))"

text \<open>A \<open>pb_callback_t\<close> is the function pointer and, at offset 8, the argument.\<close>

definition encode_callback_field :: "'s enc_env \<Rightarrow> pb_field \<Rightarrow> 's pb_ostream \<Rightarrow> u64 \<Rightarrow>
    (unit, 's pb_ostream) outcome" where
  "encode_callback_field env f s p =
     (let funcp = rd64 (emem env) p in
      if funcp \<noteq> 0
      then (case encode_cb env funcp f (p + 8) s of
              Fail s' \<Rightarrow> Fail (oset_error s' ''callback error'')
            | r \<Rightarrow> r)
      else Ok () s)"

definition encode_field :: "nat \<Rightarrow> 's enc_env \<Rightarrow> 's msg_encoder \<Rightarrow> pb_field \<Rightarrow> 's pb_ostream \<Rightarrow>
    u64 \<Rightarrow> (unit, 's pb_ostream) outcome" where
  "encode_field n env enc f s p =
     (let aty = PB_ATYPE (ftype f) in
      if aty = PB_ATYPE_STATIC \<or> aty = PB_ATYPE_POINTER then encode_basic_field n env enc f s p
      else if aty = PB_ATYPE_CALLBACK then encode_callback_field env f s p
      else Fail (oset_error s ''invalid field type''))"

text \<open>
  A \<open>pb_extension_t\<close> holds the pointers \<open>type\<close>, \<open>dest\<close> and \<open>next\<close> at offsets 0, 8 and 16, its
  type the pointers \<open>decode\<close>, \<open>encode\<close> and \<open>arg\<close> at 0, 8 and 16.
\<close>

definition default_extension_encoder :: "nat \<Rightarrow> 's enc_env \<Rightarrow> 's msg_encoder \<Rightarrow> u64 \<Rightarrow> 's pb_ostream \<Rightarrow>
    (unit, 's pb_ostream) outcome" where
  "default_extension_encoder n env enc ext s =
     (let m = emem env; f = field_at (edescs env (rd64 m (rd64 m ext + 16))) 0 in
      if PB_ATYPE (ftype f) = PB_ATYPE_POINTER then encode_field n env enc f s (ext + 8)
      else encode_field n env enc f s (rd64 m (ext + 8)))"

fun encode_extensions :: "nat \<Rightarrow> nat \<Rightarrow> 's enc_env \<Rightarrow> 's msg_encoder \<Rightarrow> u64 \<Rightarrow> 's pb_ostream \<Rightarrow>
    (unit, 's pb_ostream) outcome" where
  "encode_extensions 0 n env enc ext s = (if ext = 0 then Ok () s else NoResult)"
| "encode_extensions (Suc k) n env enc ext s =
     (if ext = 0 then Ok () s
      else bindo
        (let encp = rd64 (emem env) (rd64 (emem env) ext + 8) in
         if encp \<noteq> 0 then ext_encode_cb env encp ext s else default_extension_encoder n env enc ext s)
        (\<lambda>_ s. encode_extensions k n env enc (rd64 (emem env) (ext + 16)) s))"

definition encode_extension_field :: "nat \<Rightarrow> 's enc_env \<Rightarrow> 's msg_encoder \<Rightarrow> 's pb_ostream \<Rightarrow> u64 \<Rightarrow>
    (unit, 's pb_ostream) outcome" where
  "encode_extension_field n env enc s p = encode_extensions n n env enc (rd64 (emem env) p) s"

section \<open>Messages\<close>

fun pb_encode :: "nat \<Rightarrow> 's enc_env \<Rightarrow> pb_fields \<Rightarrow> u64 \<Rightarrow> 's pb_ostream \<Rightarrow> (unit, 's pb_ostream) outcome" where
  "pb_encode 0 env fs src s = NoResult"
| "pb_encode (Suc n) env fs src s =
     (let enc = (\<lambda>fs src s. pb_encode n env fs src s) in
      for_each (\<lambda>it s.
          if PB_LTYPE (ftype (ifield it)) = PB_LTYPE_EXTENSION
          then encode_extension_field (Suc n) env enc s (pData it)
          else encode_field (Suc n) env enc (ifield it) s (pData it))
        (field_walk fs src) s)"

definition pb_encode_delimited :: "nat \<Rightarrow> 's enc_env \<Rightarrow> pb_fields \<Rightarrow> u64 \<Rightarrow> 's pb_ostream \<Rightarrow>
    (unit, 's pb_ostream) outcome" where
  "pb_encode_delimited n env fs src s = pb_encode_submessage (pb_encode n env) fs src s"

definition pb_encode_nullterminated :: "nat \<Rightarrow> 's enc_env \<Rightarrow> pb_fields \<Rightarrow> u64 \<Rightarrow> 's pb_ostream \<Rightarrow>
    (unit, 's pb_ostream) outcome" where
  "pb_encode_nullterminated n env fs src s = bindo (pb_encode n env fs src s) (\<lambda>_ s. pb_write s [0] 1)"

definition pb_get_encoded_size :: "nat \<Rightarrow> 's enc_env \<Rightarrow> pb_fields \<Rightarrow> u64 \<Rightarrow> (u64, 's pb_ostream) outcome" where
  "pb_get_encoded_size n env fs src =
     bindo (pb_encode n env fs src PB_OSTREAM_SIZING) (\<lambda>_ s. Ok (bytes_written s) s)"

section \<open>What the encoders emit\<close>

lemma unat_ucast_32_64: "unat (ucast (n :: u32) :: u64) = unat n"
  using unat_le_bound[of n] by (simp add: unsigned_ucast_eq take_bit_nat_eq_self)

lemma mem_read_size: "length (mem_read m a (unat (n :: u32))) = unat (ucast n :: u64)"
  by (simp add: unat_ucast_32_64)

lemma determined_const [intro]: "determined (\<lambda>s. Fail (g s))" "determined (\<lambda>s. NoResult)"
  by (auto simp: determined_def)

lemma determined_skip [intro]: "determined (\<lambda>s. Ok () s)"
  by (rule emits_determined[OF emits_skip])

lemma determined_if [intro]:
  "(c \<Longrightarrow> determined f) \<Longrightarrow> (\<not> c \<Longrightarrow> determined g) \<Longrightarrow> determined (\<lambda>s. if c then f s else g s)"
  by (cases c) auto

lemma determined_option [intro]:
  "determined f \<Longrightarrow> (\<And>v. determined (g v)) \<Longrightarrow>
     determined (\<lambda>s. case x of None \<Rightarrow> f s | Some v \<Rightarrow> g v s)"
  by (cases x) auto

lemma determined_write: "length buf = unat n \<Longrightarrow> determined (\<lambda>s. pb_write s buf n)"
  by (rule emits_determined[OF emits_write])

lemma determined_varint [intro]: "determined (\<lambda>s. pb_encode_varint s v)"
  by (rule emits_determined[OF emits_varint])

lemma determined_svarint [intro]: "determined (\<lambda>s. pb_encode_svarint s v)"
  by (rule emits_determined[OF emits_svarint])

lemma determined_tag [intro]: "determined (\<lambda>s. pb_encode_tag s w n)"
  by (rule emits_determined[OF emits_tag])

lemma determined_string: "length buf = unat n \<Longrightarrow> determined (\<lambda>s. pb_encode_string s buf n)"
  by (rule emits_determined[OF emits_string])

lemma determined_tag_for_field [intro]: "determined (\<lambda>s. pb_encode_tag_for_field s f)"
  unfolding pb_encode_tag_for_field_def Let_def by (intro determined_if determined_tag determined_const)

lemma determined_enc_bool: "determined (\<lambda>s. pb_enc_bool m f s p)"
  unfolding pb_enc_bool_def by (rule determined_varint)

lemma determined_enc_varint: "determined (\<lambda>s. pb_enc_varint m f s p)"
  unfolding pb_enc_varint_def by (intro determined_if determined_varint determined_const)

lemma determined_enc_uvarint: "determined (\<lambda>s. pb_enc_uvarint m f s p)"
  unfolding pb_enc_uvarint_def by (intro determined_if determined_varint determined_const)

lemma determined_enc_svarint: "determined (\<lambda>s. pb_enc_svarint m f s p)"
  unfolding pb_enc_svarint_def by (intro determined_if determined_svarint determined_const)

lemma emits_enc_fixed32: "emits (\<lambda>s. pb_enc_fixed32 m f s p) (le_bytes 4 (rd32 m p))"
  unfolding pb_enc_fixed32_def by (rule emits_fixed32)

lemma emits_enc_fixed64: "emits (\<lambda>s. pb_enc_fixed64 m f s p) (le_bytes 8 (rd64 m p))"
  unfolding pb_enc_fixed64_def by (rule emits_fixed64)

lemma determined_enc_bytes: "determined (\<lambda>s. pb_enc_bytes m f s p)"
  unfolding pb_enc_bytes_def
  by (intro determined_if determined_string determined_const mem_read_size) simp

lemma determined_enc_string: "determined (\<lambda>s. pb_enc_string m f s p)"
  unfolding pb_enc_string_def Let_def by (rule determined_string) simp

lemma determined_enc_fixed_length_bytes: "determined (\<lambda>s. pb_enc_fixed_length_bytes m f s p)"
  unfolding pb_enc_fixed_length_bytes_def by (rule determined_string[OF mem_read_size])

text \<open>
  A length-prefixed part that is counted first and then written: on a sizing stream its size
  is added without running it again, on a real one it runs. Packed arrays and submessages
  have this shape.
\<close>

lemma sizing_callback: "fresh_sizing s \<Longrightarrow> ocallback s = None"
  by (simp add: fresh_sizing_def)

lemma backed_callback: "backed cb out room s \<Longrightarrow> ocallback s = Some cb"
  by (simp add: backed_def)

lemma emitsI:
  fixes f :: "'s pb_ostream \<Rightarrow> (unit, 's pb_ostream) outcome"
  assumes "\<And>s. fresh_sizing s \<Longrightarrow> f s = Ok () (s\<lparr>bytes_written := bytes_written s + of_nat (length bs)\<rparr>)"
    and "\<And>cb out room s. backed cb out room s \<Longrightarrow> unat (bytes_written s) + length bs \<le> unat (max_size s) \<Longrightarrow>
      \<exists>st. f s = Ok () (s\<lparr>ostate := st, bytes_written := bytes_written s + of_nat (length bs)\<rparr>)
        \<and> out st = out (ostate s) @ bs \<and> room st = room (ostate s) - length bs"
    and "\<And>cb out room s. backed cb out room s \<Longrightarrow> length bs < 2 ^ 64 - unat (bytes_written s) \<Longrightarrow>
      unat (max_size s) < unat (bytes_written s) + length bs \<Longrightarrow>
      \<exists>t k. f s = Fail t \<and> k \<le> unat (max_size s) - unat (bytes_written s)
        \<and> out (ostate t) = out (ostate s) @ take k bs"
  shows "emits f bs"
  unfolding emits_def using assms by blast

lemma emits_by_callback:
  assumes a: "\<And>s. fresh_sizing s \<Longrightarrow>
      f s = Ok () (s\<lparr>bytes_written := bytes_written s + of_nat (length bs)\<rparr>)"
    and b: "emits g bs"
  shows "emits (\<lambda>s. if ocallback s = None then f s else g s) bs"
proof (rule emitsI)
  fix cb out room and s :: "'a pb_ostream"
  assume s: "backed cb out room s" and le: "unat (bytes_written s) + length bs \<le> unat (max_size s)"
  show "\<exists>st. (if ocallback s = None then f s else g s) =
        Ok () (s\<lparr>ostate := st, bytes_written := bytes_written s + of_nat (length bs)\<rparr>)
      \<and> out st = out (ostate s) @ bs \<and> room st = room (ostate s) - length bs"
    by (rule emits_backed[OF b s le]) (auto simp: backed_callback[OF s])
next
  fix cb out room and s :: "'a pb_ostream"
  assume s: "backed cb out room s" and lt: "length bs < 2 ^ 64 - unat (bytes_written s)"
    and o: "unat (max_size s) < unat (bytes_written s) + length bs"
  show "\<exists>t k. (if ocallback s = None then f s else g s) = Fail t
      \<and> k \<le> unat (max_size s) - unat (bytes_written s) \<and> out (ostate t) = out (ostate s) @ take k bs"
    by (rule emits_full[OF b s lt o]) (auto simp: backed_callback[OF s])
qed (use a in \<open>simp add: sizing_callback\<close>)

lemma sizing_write: "fresh_sizing s \<Longrightarrow>
    pb_write s buf n = Ok () (s\<lparr>bytes_written := bytes_written s + n\<rparr>)"
  by (simp add: pb_write_def sizing_callback)

lemma emits_items:
  assumes "for_items func stride n p s = Ok () t" and "fresh_sizing s"
    and func: "\<And>p. determined (\<lambda>s. func s p)"
  shows "\<exists>bs. emits (for_items func stride n p) bs
    \<and> t = s\<lparr>bytes_written := bytes_written s + of_nat (length bs)\<rparr>"
  using assms(1,2)
proof (induction n arbitrary: p s)
  case 0
  then show ?case using emits_skip by (intro exI[of _ "[]"]) simp
next
  case (Suc n)
  from Suc.prems(1) obtain s' where f: "func s p = Ok () s'"
    and r: "for_items func stride n (p + stride) s' = Ok () t" by auto
  obtain a where a: "emits (\<lambda>s. func s p) a" using determinedD[OF func Suc.prems(2) f] by blast
  have s': "s' = s\<lparr>bytes_written := bytes_written s + of_nat (length a)\<rparr>"
    using emits_sizing[OF a Suc.prems(2)] f by simp
  obtain b where "emits (for_items func stride n (p + stride)) b"
    and "t = s'\<lparr>bytes_written := bytes_written s' + of_nat (length b)\<rparr>"
    using Suc.IH[OF r] s' Suc.prems(2) by auto
  then show ?case using emits_bind[OF a, of "for_items func stride n (p + stride)" b] s'
    by (intro exI[of _ "a @ b"]) (simp add: add.assoc)
qed

lemma determined_items:
  "(\<And>p. determined (\<lambda>s. func s p)) \<Longrightarrow> determined (\<lambda>s. for_items func stride n p s)"
  unfolding determined_def[of "for_items func stride n p"] using emits_items[of func stride n p]
  by (intro allI impI) metis

lemma emits_enc_packed:
  assumes "emits (for_items (func f) (ucast (data_size f)) (unat count) p) bs"
    and "sz = of_nat (length bs)"
  shows "emits (\<lambda>s. enc_packed func f p count sz s) (varint_enc sz @ bs)"
  unfolding enc_packed_def
  by (intro emits_bind[OF emits_varint] emits_by_callback assms(1))
    (simp add: sizing_write assms(2))

text \<open>Items of a fixed size have the size the code computes for them.\<close>

lemma emits_fixed_items:
  assumes "\<And>p. \<exists>bs. emits (\<lambda>s. func s p) bs \<and> length bs = k"
  shows "\<exists>bs. emits (for_items func stride n p) bs \<and> length bs = k * n"
proof (induction n arbitrary: p)
  case 0
  then show ?case using emits_skip by fastforce
next
  case (Suc n)
  obtain a b where "emits (\<lambda>s. func s p) a" "length a = k"
    "emits (for_items func stride n (p + stride)) b" "length b = k * n"
    using assms Suc by blast
  then show ?case using emits_bind[of "\<lambda>s. func s p" a] by (intro exI[of _ "a @ b"]) auto
qed

lemma fresh_PB_OSTREAM_SIZING [simp]: "fresh_sizing PB_OSTREAM_SIZING"
  by (simp add: fresh_sizing_def PB_OSTREAM_SIZING_def)

text \<open>
  The second run of a submessage writes what the first one counted: its size never changes, and
  a substream that fits in the stream never runs out of room.
\<close>

lemma emits_submessage:
  fixes enc :: "'s msg_encoder"
  assumes e: "emits (enc fs src) bs"
  shows "emits (pb_encode_submessage enc fs src) (varint_enc (of_nat (length bs)) @ bs)"
proof -
  have sz: "enc fs src PB_OSTREAM_SIZING = Ok () (PB_OSTREAM_SIZING\<lparr>bytes_written := of_nat (length bs)\<rparr>)"
    using emits_sizing[OF e fresh_PB_OSTREAM_SIZING] by (simp add: PB_OSTREAM_SIZING_def)
  let ?w = "of_nat (length bs) :: u64"
  have bw: "bytes_written (PB_OSTREAM_SIZING\<lparr>bytes_written := ?w\<rparr> :: 's pb_ostream) = ?w" by simp
  let ?sub = "\<lambda>cb s. \<lparr>ocallback = Some cb, ostate = ostate s, max_size = ?w, bytes_written = 0,
    oerrmsg = None\<rparr> :: 's pb_ostream"
  let ?fin = "\<lambda>s :: 's pb_ostream. \<lambda>status. \<lambda>sub :: 's pb_ostream. (let s' = s\<lparr>bytes_written := bytes_written s + bytes_written sub,
       ostate := ostate sub, oerrmsg := oerrmsg sub\<rparr> in
     if bytes_written sub \<noteq> ?w then Fail (oset_error s' ''submsg size changed'')
     else if status then Ok () s' else Fail s')"
  let ?g = "\<lambda>s :: 's pb_ostream. case ocallback s of
       None \<Rightarrow> pb_write s [] ?w
     | Some cb \<Rightarrow>
         if max_size s < bytes_written s + ?w then Fail (oset_error s ''stream full'')
         else (case enc fs src (?sub cb s) of
                 Ok _ sub \<Rightarrow> ?fin s True sub
               | Fail sub \<Rightarrow> ?fin s False sub
               | NoResult \<Rightarrow> NoResult)"
  have shape: "pb_encode_submessage enc fs src = (\<lambda>s. bindo (pb_encode_varint s ?w) (\<lambda>_. ?g))"
    unfolding fun_eq_iff pb_encode_submessage_def sz Let_def outcome.case bw pb_ostream.simps
      if_True if_False by (rule allI) (rule refl)
  have g: "emits ?g bs"
  proof (rule emitsI)
    fix s :: "'s pb_ostream" assume "fresh_sizing s"
    then show "?g s = Ok () (s\<lparr>bytes_written := bytes_written s + ?w\<rparr>)"
      by (simp add: sizing_callback sizing_write)
  next
    fix cb out room and s :: "'s pb_ostream"
    assume b: "backed cb out room s" and le: "unat (bytes_written s) + length bs \<le> unat (max_size s)"
    have lt: "length bs < 2 ^ 64" using le unat_le_bound[of "max_size s"] by simp
    then have u: "unat ?w = length bs" by (simp add: unat_of_nat)
    have sub: "backed cb out room (?sub cb s)" using b le by (auto simp: backed_def u)
    have ok: "\<not> max_size s < bytes_written s + ?w"
      using le unat_bump[OF le] by (simp add: word_less_nat_alt)
    obtain st where st: "enc fs src (?sub cb s) = Ok () ((?sub cb s)\<lparr>ostate := st,
          bytes_written := bytes_written (?sub cb s) + of_nat (length bs)\<rparr>)"
      "out st = out (ostate (?sub cb s)) @ bs" "room st = room (ostate (?sub cb s)) - length bs"
      by (rule emits_backed[OF e sub]) (auto simp: u)
    have "oerrmsg s = None" using b by (simp add: backed_def)
    then have "?g s = Ok () (s\<lparr>ostate := st, bytes_written := bytes_written s + ?w\<rparr>)"
      using st(1) ok by (simp add: backed_callback[OF b] Let_def)
    then show "\<exists>st. ?g s = Ok () (s\<lparr>ostate := st, bytes_written := bytes_written s + ?w\<rparr>)
        \<and> out st = out (ostate s) @ bs \<and> room st = room (ostate s) - length bs"
      using st(2,3) by (intro exI[of _ st]) simp
  next
    fix cb out room and s :: "'s pb_ostream"
    assume b: "backed cb out room s" and lt: "length bs < 2 ^ 64 - unat (bytes_written s)"
      and o: "unat (max_size s) < unat (bytes_written s) + length bs"
    have "unat (bytes_written s + ?w) = unat (bytes_written s) + length bs"
      using lt by (simp add: unat_word_ariths unat_of_nat)
    then have "max_size s < bytes_written s + ?w" using o by (simp add: word_less_nat_alt)
    then have "?g s = Fail (oset_error s ''stream full'')" by (simp add: backed_callback[OF b])
    then show "\<exists>t k. ?g s = Fail t \<and> k \<le> unat (max_size s) - unat (bytes_written s)
        \<and> out (ostate t) = out (ostate s) @ take k bs"
      by (intro exI[of _ "oset_error s ''stream full''"] exI[of _ 0]) (simp add: oset_error_def)
  qed
  show ?thesis unfolding shape by (rule emits_bind[OF emits_varint g])
qed

lemma determined_submessage:
  assumes d: "determined (enc fs src)"
  shows "determined (pb_encode_submessage enc fs src)"
proof (cases "enc fs src PB_OSTREAM_SIZING")
  case (Ok u t)
  then obtain bs where "emits (enc fs src) bs" using determinedD[OF d fresh_PB_OSTREAM_SIZING] by auto
  then show ?thesis by (rule emits_determined[OF emits_submessage])
next
  case (Fail t)
  then show ?thesis by (simp add: determined_def pb_encode_submessage_def)
next
  case NoResult
  then show ?thesis by (simp add: determined_def pb_encode_submessage_def)
qed

section \<open>Every encoder step is determined by its sizing run\<close>

definition callbacks_determined :: "'s enc_env \<Rightarrow> bool" where
  "callbacks_determined env \<longleftrightarrow>
     (\<forall>fp f a. determined (encode_cb env fp f a)) \<and> (\<forall>fp e. determined (ext_encode_cb env fp e))"

lemmas determined_encoders =
  determined_enc_bool determined_enc_varint determined_enc_uvarint determined_enc_svarint
  emits_determined[OF emits_enc_fixed32] emits_determined[OF emits_enc_fixed64]
  determined_enc_bytes determined_enc_string determined_enc_fixed_length_bytes

lemma determined_enc_submessage:
  assumes "\<And>fs a. determined (enc fs a)"
  shows "determined (\<lambda>s. pb_enc_submessage env enc f s p)"
  unfolding pb_enc_submessage_def by (intro determined_if determined_const determined_submessage assms)

lemma determined_PB_ENCODERS:
  assumes "\<And>fs a. determined (enc fs a)"
  shows "determined (\<lambda>s. PB_ENCODERS env enc lt f s p)"
proof -
  have c: "determined (\<lambda>s. (if c then A else B) f s p)"
    if "determined (\<lambda>s. A f s p)" and "determined (\<lambda>s. B f s p)" for c A B
    using that by (cases c) auto
  show ?thesis unfolding PB_ENCODERS_def
    by (intro c determined_encoders determined_enc_submessage[OF assms] determined_const)
qed

text \<open>The packed arrays, whose payload size the code computes in three ways.\<close>

lemma determined_packed:
  assumes "\<exists>bs. emits (for_items (func f) (ucast (data_size f)) (unat count) p) bs \<and> sz = of_nat (length bs)"
  shows "determined (\<lambda>s. enc_packed func f p count sz s)"
  using assms emits_determined[OF emits_enc_packed] by blast

lemma determined_packed_items:
  assumes func: "\<And>p. determined (\<lambda>s. func f s p)"
  shows "determined (\<lambda>s. case for_items (func f) (ucast (data_size f)) (unat count) p PB_OSTREAM_SIZING of
      Ok _ sub \<Rightarrow> enc_packed func f p count (bytes_written sub) s | Fail _ \<Rightarrow> Fail s | NoResult \<Rightarrow> NoResult)"
proof (cases "for_items (func f) (ucast (data_size f)) (unat count) p PB_OSTREAM_SIZING")
  case (Ok u t)
  have ok: "for_items (func f) (ucast (data_size f)) (unat count) p PB_OSTREAM_SIZING = Ok () t"
    using Ok by simp
  have "\<exists>bs. emits (for_items (func f) (ucast (data_size f)) (unat count) p) bs
      \<and> bytes_written t = of_nat (length bs)"
    using emits_items[of "func f", OF ok fresh_PB_OSTREAM_SIZING func]
    by (elim exE conjE) (simp add: PB_OSTREAM_SIZING_def, blast)
  then have "determined (\<lambda>s. enc_packed func f p count (bytes_written t) s)"
    by (rule determined_packed)
  then show ?thesis unfolding Ok by simp
next
  case (Fail t)
  show ?thesis unfolding Fail outcome.case by (rule determined_const)
next
  case NoResult
  show ?thesis unfolding NoResult outcome.case by (rule determined_const)
qed

lemma fixed_packed_size:
  assumes "\<And>p. \<exists>bs. emits (\<lambda>s. func s p) bs \<and> length bs = k"
  shows "\<exists>bs. emits (for_items func stride (unat count) p) bs \<and> (of_nat k * count :: u64) = of_nat (length bs)"
  using emits_fixed_items[where func = func and k = k and n = "unat count", OF assms, of stride p] by auto

lemma determined_array:
  assumes func: "\<And>p. determined (\<lambda>s. func f s p)"
    and f32: "PB_LTYPE (ftype f) = PB_LTYPE_FIXED32 \<Longrightarrow> func = pb_enc_fixed32 m"
    and f64: "PB_LTYPE (ftype f) = PB_LTYPE_FIXED64 \<Longrightarrow> func = pb_enc_fixed64 m"
  shows "determined (encode_array m func f p count)"
proof -
  have 4: "determined (\<lambda>s. enc_packed func f p count (4 * count) s)"
    if "PB_LTYPE (ftype f) = PB_LTYPE_FIXED32"
    using fixed_packed_size[of "func f" 4] emits_enc_fixed32[of m f] f32[OF that]
    by (intro determined_packed) (fastforce simp del: le_bytes.simps)
  have 8: "determined (\<lambda>s. enc_packed func f p count (8 * count) s)"
    if "PB_LTYPE (ftype f) = PB_LTYPE_FIXED64"
    using fixed_packed_size[of "func f" 8] emits_enc_fixed64[of m f] f64[OF that]
    by (intro determined_packed) (fastforce simp del: le_bytes.simps)
  show ?thesis
    unfolding encode_array_def
    by (intro determined_if determined_const determined_skip determined_bind determined_tag
        determined_items determined_tag_for_field func 4 8 determined_packed_items)
qed

lemma determined_encoder_array:
  assumes "\<And>fs a. determined (enc fs a)"
  shows "determined (encode_array (emem env) (PB_ENCODERS env enc (PB_LTYPE (ftype f))) f p count)"
proof (rule determined_array)
  show "determined (\<lambda>s. PB_ENCODERS env enc (PB_LTYPE (ftype f)) f s p)" for p
    by (rule determined_PB_ENCODERS[OF assms])
qed (simp_all add: PB_ENCODERS_def)

lemma determined_basic_field:
  assumes enc: "\<And>fs a. determined (enc fs a)"
  shows "determined (\<lambda>s. encode_basic_field n env enc f s p)"
proof -
  have w: "determined (\<lambda>s. bindo (pb_encode_tag_for_field s f)
      (\<lambda>_ s. PB_ENCODERS env enc (PB_LTYPE (ftype f)) f s q))" for q
    by (intro determined_bind determined_tag_for_field determined_PB_ENCODERS enc)
  have a: "determined (\<lambda>s. encode_array (emem env) (PB_ENCODERS env enc (PB_LTYPE (ftype f))) f q c s)"
    for q c by (rule determined_encoder_array[OF enc])
  show ?thesis
    unfolding encode_basic_field_def Let_def
    by (intro determined_option determined_if w a determined_const determined_skip)
qed

lemma determined_error:
  assumes "determined g"
  shows "determined (\<lambda>s. case g s of Fail s' \<Rightarrow> Fail (oset_error s' msg) | r \<Rightarrow> r)"
  unfolding determined_def
proof (intro allI impI)
  fix s t assume s: "fresh_sizing s" and ok: "(case g s of Fail s' \<Rightarrow> Fail (oset_error s' msg) | r \<Rightarrow> r) = Ok () t"
  then have "g s = Ok () t" by (cases "g s") auto
  then obtain bs where e: "emits g bs" using determinedD[OF assms s] by blast
  have "emits (\<lambda>s. case g s of Fail s' \<Rightarrow> Fail (oset_error s' msg) | r \<Rightarrow> r) bs"
  proof (rule emitsI)
    fix cb out room and s :: "'a pb_ostream"
    assume b: "backed cb out room s" and lt: "length bs < 2 ^ 64 - unat (bytes_written s)"
      and o: "unat (max_size s) < unat (bytes_written s) + length bs"
    show "\<exists>t k. (case g s of Fail s' \<Rightarrow> Fail (oset_error s' msg) | r \<Rightarrow> r) = Fail t
        \<and> k \<le> unat (max_size s) - unat (bytes_written s) \<and> out (ostate t) = out (ostate s) @ take k bs"
      by (rule emits_full[OF e b lt o]) (auto simp: oset_error_def)
  next
    fix cb out room and s :: "'a pb_ostream"
    assume b: "backed cb out room s" and le: "unat (bytes_written s) + length bs \<le> unat (max_size s)"
    show "\<exists>st. (case g s of Fail s' \<Rightarrow> Fail (oset_error s' msg) | r \<Rightarrow> r) =
          Ok () (s\<lparr>ostate := st, bytes_written := bytes_written s + of_nat (length bs)\<rparr>)
        \<and> out st = out (ostate s) @ bs \<and> room st = room (ostate s) - length bs"
      by (rule emits_backed[OF e b le]) auto
  qed (use emits_sizing[OF e] in simp)
  then show "\<exists>bs. emits (\<lambda>s. case g s of Fail s' \<Rightarrow> Fail (oset_error s' msg) | r \<Rightarrow> r) bs" by blast
qed

lemma determined_callback_field:
  "callbacks_determined env \<Longrightarrow> determined (\<lambda>s. encode_callback_field env f s p)"
  unfolding encode_callback_field_def Let_def callbacks_determined_def
  by (intro determined_if determined_skip determined_error) auto

lemma determined_field:
  assumes "callbacks_determined env" and "\<And>fs a. determined (enc fs a)"
  shows "determined (\<lambda>s. encode_field n env enc f s p)"
  unfolding encode_field_def Let_def
  by (intro determined_if determined_const determined_basic_field determined_callback_field assms)

lemma determined_extensions:
  assumes cb: "callbacks_determined env" and enc: "\<And>fs a. determined (enc fs a)"
  shows "determined (encode_extensions k n env enc ext)"
proof (induction k arbitrary: ext)
  case 0
  show ?case unfolding encode_extensions.simps by (intro determined_if determined_skip determined_const)
next
  case (Suc k)
  have d: "determined (\<lambda>s. default_extension_encoder n env enc ext s)"
    unfolding default_extension_encoder_def Let_def by (intro determined_if determined_field cb enc)
  have e: "determined (\<lambda>s. ext_encode_cb env fp ext s)" for fp
    using cb by (simp add: callbacks_determined_def)
  show ?case unfolding encode_extensions.simps Let_def
    by (intro determined_if determined_skip determined_bind d e Suc.IH)
qed

lemma determined_fields:
  "(\<And>it. determined (f it)) \<Longrightarrow> determined (for_each f its)"
proof (induction its)
  case Nil
  show ?case unfolding for_each.simps by (rule determined_skip)
next
  case (Cons it its)
  show ?case unfolding for_each.simps by (intro determined_bind Cons)
qed

lemma determined_pb_encode:
  assumes cb: "callbacks_determined env"
  shows "determined (pb_encode n env fs src)"
proof (induction n arbitrary: fs src)
  case 0
  show ?case unfolding pb_encode.simps by (rule determined_const)
next
  case (Suc n)
  have e: "determined (encode_extensions (Suc n) (Suc n) env (pb_encode n env) x)" for x
    by (rule determined_extensions[OF cb Suc.IH])
  show ?case unfolding pb_encode.simps Let_def encode_extension_field_def
    by (intro determined_fields determined_if e determined_field[OF cb] Suc.IH)
qed

section \<open>Enough fuel\<close>

text \<open>
  \<open>nested n env fs\<close>: the submessages of \<open>fs\<close> nest less than \<open>n\<close> deep, there are no extension
  fields, and every oneof field knows where its tag is. With \<open>n\<close> as fuel, \<open>pb_encode\<close> then
  always has a result.
\<close>

fun nested :: "nat \<Rightarrow> (u64 \<Rightarrow> pb_fields) \<Rightarrow> pb_fields \<Rightarrow> bool" where
  "nested 0 ds fs = False"
| "nested (Suc n) ds fs =
     (\<forall>f\<in>set fs. PB_LTYPE (ftype f) \<noteq> PB_LTYPE_EXTENSION
        \<and> (PB_HTYPE (ftype f) = PB_HTYPE_ONEOF \<longrightarrow> size_offset f \<noteq> 0)
        \<and> (PB_LTYPE (ftype f) = PB_LTYPE_SUBMESSAGE \<longrightarrow> nested n ds (ds (fptr f))))"

definition returns :: "('s pb_ostream \<Rightarrow> ('v, 's pb_ostream) outcome) \<Rightarrow> bool" where
  "returns f \<longleftrightarrow> (\<forall>s. f s \<noteq> NoResult)"

lemma bindo_NoResult: "bindo r f = NoResult \<longleftrightarrow> r = NoResult \<or> (\<exists>v s. r = Ok v s \<and> f v s = NoResult)"
  by (cases r) auto

lemma total_intros [intro]:
  "returns (\<lambda>s. Ok v s)" "returns (\<lambda>s. Fail (g s))"
  by (auto simp: returns_def)

lemma total_if [intro]:
  "(c \<Longrightarrow> returns f) \<Longrightarrow> (\<not> c \<Longrightarrow> returns g) \<Longrightarrow> returns (\<lambda>s. if c then f s else g s)"
  by (cases c) auto

lemma total_if_stream [intro]:
  "returns f \<Longrightarrow> returns g \<Longrightarrow> returns (\<lambda>s. if c s then f s else g s)"
  by (auto simp: returns_def)

lemma total_bind [intro]: "returns f \<Longrightarrow> returns g \<Longrightarrow> returns (\<lambda>s. bindo (f s) (\<lambda>_. g))"
  unfolding returns_def by (simp add: bindo_NoResult)

lemma total_write [intro]: "returns (\<lambda>s. pb_write s buf n)"
  by (auto simp: returns_def pb_write_def split: option.split prod.split bool.split)

lemma total_varint [intro]: "returns (\<lambda>s. pb_encode_varint s v)"
  unfolding pb_encode_varint_def Let_def by (intro total_if total_write)

lemma total_tag [intro]: "returns (\<lambda>s. pb_encode_tag s w n)"
  unfolding pb_encode_tag_def by (rule total_varint)

lemma total_string [intro]: "returns (\<lambda>s. pb_encode_string s buf n)"
  unfolding pb_encode_string_def by (intro total_bind total_varint total_write)

lemma total_tag_for_field [intro]: "returns (\<lambda>s. pb_encode_tag_for_field s f)"
  unfolding pb_encode_tag_for_field_def Let_def by (intro total_if total_tag total_intros)

lemma total_option [intro]:
  "returns f \<Longrightarrow> (\<And>v. returns (g v)) \<Longrightarrow> returns (\<lambda>s. case x s of None \<Rightarrow> f s | Some v \<Rightarrow> g v s)"
  by (auto simp: returns_def split: option.split)

lemma total_submessage:
  assumes "\<And>s. enc fs src s \<noteq> NoResult"
  shows "returns (pb_encode_submessage enc fs src)"
proof (cases "enc fs src PB_OSTREAM_SIZING")
  case (Ok u t)
  have 1: "returns (\<lambda>s. case enc fs src (h s) of Ok _ sub \<Rightarrow> (if c1 s sub then Fail (g1 s sub) else Ok () (g2 s sub))
      | Fail sub \<Rightarrow> (if c1 s sub then Fail (g1 s sub) else Fail (g2 s sub)) | NoResult \<Rightarrow> NoResult)"
    for c1 g1 g2 h using assms by (auto simp: returns_def split: outcome.split)
  show ?thesis
    unfolding pb_encode_submessage_def Ok outcome.case Let_def if_True if_False
    by (intro total_bind total_varint total_option total_write total_if_stream total_intros)
      (use assms in \<open>auto simp: returns_def split: outcome.split\<close>)
next
  case (Fail t)
  show ?thesis unfolding pb_encode_submessage_def Fail outcome.case by (rule total_intros)
next
  case NoResult
  then show ?thesis using assms by simp
qed

lemma total_items:
  "(\<And>p. returns (\<lambda>s. func s p)) \<Longrightarrow> returns (for_items func stride n p)"
proof (induction n arbitrary: p)
  case 0
  show ?case unfolding for_items.simps by (rule total_intros)
next
  case (Suc n)
  show ?case unfolding for_items.simps by (intro total_bind Suc)
qed

lemma total_enc_submessage:
  assumes "\<And>a s. enc (edescs env (fptr f)) a s \<noteq> NoResult"
  shows "returns (\<lambda>s. pb_enc_submessage env enc f s p)"
  unfolding pb_enc_submessage_def by (intro total_if total_intros total_submessage assms)

lemma total_encoders:
  "returns (\<lambda>s. pb_enc_bool m f s p)" "returns (\<lambda>s. pb_enc_varint m f s p)"
  "returns (\<lambda>s. pb_enc_uvarint m f s p)" "returns (\<lambda>s. pb_enc_svarint m f s p)"
  "returns (\<lambda>s. pb_enc_fixed32 m f s p)" "returns (\<lambda>s. pb_enc_fixed64 m f s p)"
  "returns (\<lambda>s. pb_enc_bytes m f s p)" "returns (\<lambda>s. pb_enc_string m f s p)"
  "returns (\<lambda>s. pb_enc_fixed_length_bytes m f s p)"
  unfolding pb_enc_bool_def pb_enc_varint_def pb_enc_uvarint_def pb_enc_svarint_def
    pb_enc_fixed32_def pb_enc_fixed64_def pb_enc_bytes_def pb_enc_string_def
    pb_enc_fixed_length_bytes_def pb_encode_svarint_def pb_encode_fixed32_def pb_encode_fixed64_def Let_def
  by (intro total_if total_varint total_write total_string total_intros)+

definition has_encoder :: "u8 \<Rightarrow> bool" where
  "has_encoder lt \<longleftrightarrow> lt \<le> 8 \<or> lt = 0x0A"

lemma has_encoder_cases:
  "has_encoder lt \<longleftrightarrow> lt = 0 \<or> lt = 1 \<or> lt = 2 \<or> lt = 3 \<or> lt = 4 \<or> lt = 5 \<or> lt = 6 \<or> lt = 7 \<or> lt = 8
     \<or> lt = 0x0A"
proof -
  have "(lt \<le> 8) = (unat lt < Suc (Suc (Suc (Suc (Suc (Suc (Suc (Suc (Suc 0)))))))))"
    by (simp add: word_le_nat_alt less_Suc_eq_le flip: numeral_eq_Suc) arith
  also have "\<dots> \<longleftrightarrow> lt = 0 \<or> lt = 1 \<or> lt = 2 \<or> lt = 3 \<or> lt = 4 \<or> lt = 5 \<or> lt = 6 \<or> lt = 7 \<or> lt = 8"
    unfolding less_Suc_eq by (auto simp: word_unat_eq_iff)
  finally show ?thesis by (auto simp: has_encoder_def)
qed

lemma total_PB_ENCODERS:
  assumes "lt = PB_LTYPE_SUBMESSAGE \<Longrightarrow> returns (\<lambda>s. pb_enc_submessage env enc f s p)"
    and "has_encoder lt"
  shows "returns (\<lambda>s. PB_ENCODERS env enc lt f s p)"
  using assms(2) unfolding has_encoder_cases
  by (elim disjE) (simp_all add: PB_ENCODERS_def total_encoders assms(1))

text \<open>The entries of PB_ENCODERS that are not there are never called: writing the tag fails first.\<close>

lemma tag_for_field_fails:
  "\<not> has_encoder (PB_LTYPE (ftype f)) \<Longrightarrow>
     pb_encode_tag_for_field s f = Fail (oset_error s ''invalid field type'')"
  by (auto simp: has_encoder_cases pb_encode_tag_for_field_def)

lemma total_tagged:
  assumes "PB_LTYPE (ftype f) = PB_LTYPE_SUBMESSAGE \<Longrightarrow> returns (\<lambda>s. pb_enc_submessage env enc f s p)"
  shows "returns (\<lambda>s. bindo (pb_encode_tag_for_field s f)
      (\<lambda>_ s. PB_ENCODERS env enc (PB_LTYPE (ftype f)) f s p))"
proof (cases "has_encoder (PB_LTYPE (ftype f))")
  case True
  then show ?thesis by (intro total_bind total_tag_for_field total_PB_ENCODERS assms)
next
  case False
  then show ?thesis by (simp add: tag_for_field_fails returns_def)
qed

lemma packable_has_encoder: "lt \<le> PB_LTYPE_LAST_PACKABLE \<Longrightarrow> has_encoder lt"
  by (auto simp: has_encoder_def intro: order_trans)

lemma total_array:
  assumes sub: "\<And>p. PB_LTYPE (ftype f) = PB_LTYPE_SUBMESSAGE \<Longrightarrow> returns (\<lambda>s. pb_enc_submessage env enc f s p)"
  shows "returns (encode_array m (PB_ENCODERS env enc (PB_LTYPE (ftype f))) f p count)"
proof -
  let ?func = "PB_ENCODERS env enc (PB_LTYPE (ftype f))"
  have it: "returns (for_items (?func f) st k q)" if "PB_LTYPE (ftype f) \<le> PB_LTYPE_LAST_PACKABLE" for st k q
    by (intro total_items total_PB_ENCODERS sub packable_has_encoder that)
  have pk: "returns (\<lambda>s. enc_packed ?func f p count sz s)" if "PB_LTYPE (ftype f) \<le> PB_LTYPE_LAST_PACKABLE" for sz
    unfolding enc_packed_def by (intro total_bind total_varint total_if_stream total_write it that)
  have sz: "returns (\<lambda>s. case for_items (?func f) (ucast (data_size f)) (unat count) p PB_OSTREAM_SIZING of
      Ok _ sub \<Rightarrow> enc_packed ?func f p count (bytes_written sub) s | Fail _ \<Rightarrow> Fail s | NoResult \<Rightarrow> NoResult)"
    if l: "PB_LTYPE (ftype f) \<le> PB_LTYPE_LAST_PACKABLE"
    using it[OF l, of "ucast (data_size f)" "unat count" p] pk[OF l]
    by (auto simp: returns_def split: outcome.split)
  show ?thesis unfolding encode_array_def
    by (intro total_if total_intros total_bind total_tag total_items total_tagged sub pk sz)
qed

lemma all_opt_some: "(\<And>x. x \<in> set xs \<Longrightarrow> f x \<noteq> None) \<Longrightarrow> all_opt f xs \<noteq> None"
  by (induction xs) (auto split: option.split bool.split)

lemma proto3_check_some:
  "nested n (edescs env) fs \<Longrightarrow> f \<in> set fs \<Longrightarrow> pb_check_proto3_default_value n env f a \<noteq> None"
proof (induction n arbitrary: fs f a)
  case (Suc n)
  have "all_opt (\<lambda>it. pb_check_proto3_default_value n env (ifield it) (pData it))
      (field_walk (edescs env (fptr f)) a) \<noteq> None"
    if "PB_LTYPE (ftype f) = PB_LTYPE_SUBMESSAGE"
  proof -
    have "nested n (edescs env) (edescs env (fptr f))" using Suc.prems that by simp
    then show ?thesis by (intro all_opt_some Suc.IH field_walk_member)
  qed
  then show ?case by (auto simp: Let_def)
qed simp

lemma total_basic_field:
  assumes sub: "\<And>p. PB_LTYPE (ftype f) = PB_LTYPE_SUBMESSAGE \<Longrightarrow> returns (\<lambda>s. pb_enc_submessage env enc f s p)"
    and check: "\<And>a. pb_check_proto3_default_value n env f a \<noteq> None"
    and oneof: "PB_HTYPE (ftype f) = PB_HTYPE_ONEOF \<Longrightarrow> size_offset f \<noteq> 0"
  shows "returns (\<lambda>s. encode_basic_field n env enc f s p)"
proof -
  obtain b where b: "pb_check_proto3_default_value n env f p = Some b" using check by blast
  obtain h where h: "(if size_offset f = 0 \<and> PB_HTYPE (ftype f) = PB_HTYPE_OPTIONAL
      then map_option Not (pb_check_proto3_default_value n env f p) else Some True) = Some h"
    using b by (cases "size_offset f = 0 \<and> PB_HTYPE (ftype f) = PB_HTYPE_OPTIONAL") auto
  have a: "returns (\<lambda>s. encode_array (emem env) (PB_ENCODERS env enc (PB_LTYPE (ftype f))) f q c s)" for q c
    by (rule total_array[OF sub])
  show ?thesis
    unfolding encode_basic_field_def Let_def h option.case
    by (intro total_if total_intros total_tagged sub a) (use oneof in blast)+
qed

definition callbacks_return :: "'s enc_env \<Rightarrow> bool" where
  "callbacks_return env \<longleftrightarrow> (\<forall>fp f a. returns (encode_cb env fp f a))"

lemma total_callback_field:
  assumes "callbacks_return env"
  shows "returns (\<lambda>s. encode_callback_field env f s p)"
proof -
  have "returns (\<lambda>s. case g s of Fail s' \<Rightarrow> Fail (oset_error s' msg) | r \<Rightarrow> r)" if "returns g" for g msg
    using that by (auto simp: returns_def split: outcome.split)
  then show ?thesis using assms unfolding encode_callback_field_def Let_def callbacks_return_def
    by (intro total_if total_intros) blast+
qed

lemma total_fields: "(\<And>it. it \<in> set its \<Longrightarrow> returns (f it)) \<Longrightarrow> returns (for_each f its)"
proof (induction its)
  case Nil
  show ?case unfolding for_each.simps by (rule total_intros)
next
  case (Cons it its)
  show ?case unfolding for_each.simps by (intro total_bind Cons) auto
qed

section \<open>Properties of the encoder\<close>

text \<open>
  A message type with a required varint, a repeated packed fixed32 field and an optional
  submessage, and a message of that type in memory, for the witnesses.
\<close>

definition sample_desc :: pb_fields where
  "sample_desc =
     [\<lparr>ftag = 1, ftype = 0x02, data_offset = 0, size_offset = 0, data_size = 4, array_size = 0, fptr = 0\<rparr>,
      \<lparr>ftag = 2, ftype = 0x24, data_offset = 4, size_offset = 0xFFFFFFFC, data_size = 4,
       array_size = 2, fptr = 0\<rparr>,
      \<lparr>ftag = 3, ftype = 0x18, data_offset = 4, size_offset = 0xFFFFFFFC, data_size = 8,
       array_size = 0, fptr = 0x500\<rparr>]"

definition sample_sub :: pb_fields where
  "sample_sub =
     [\<lparr>ftag = 1, ftype = 0x00, data_offset = 0, size_offset = 0, data_size = 1, array_size = 0, fptr = 0\<rparr>]"

definition sample_env :: "'s enc_env" where
  "sample_env = \<lparr>emem = (\<lambda>a. if a = 0x1000 then 0x96 else if a = 0x1004 then 2 else
       if a = 0x1010 then 1 else if a = 0x1014 then 1 else 0),
     edescs = (\<lambda>p. if p = 0x500 then sample_sub else []),
     encode_cb = (\<lambda>_ _ _ s. Fail s), ext_encode_cb = (\<lambda>_ _ s. Fail s)\<rparr>"

text \<open>
  C27: pb_encode always has a result on a message type without extension fields whose
  submessages nest less than n deep, for n units of fuel, on every stream and every memory
  content, when the user's callbacks return.
\<close>

theorem pb_encode_returns:
  assumes "callbacks_return env" and "nested n (edescs env) fs"
  shows "pb_encode n env fs src s \<noteq> NoResult"
  using assms(2)
proof (induction n arbitrary: fs src s)
  case (Suc n)
  have f: "returns (\<lambda>s. encode_field (Suc n) env (pb_encode n env) f s p)"
    if f: "f \<in> set fs" for f p
  proof -
    have sub: "returns (\<lambda>s. pb_enc_submessage env (pb_encode n env) f s p)"
      if "PB_LTYPE (ftype f) = PB_LTYPE_SUBMESSAGE" for p
      using Suc f that by (intro total_enc_submessage) simp
    have one: "PB_HTYPE (ftype f) = PB_HTYPE_ONEOF \<Longrightarrow> size_offset f \<noteq> 0" using Suc.prems f by simp
    show ?thesis unfolding encode_field_def Let_def
      by (intro total_if total_intros total_basic_field sub one proto3_check_some[OF Suc.prems f]
          total_callback_field[OF assms(1)])
  qed
  have "returns (for_each (\<lambda>it s.
      if PB_LTYPE (ftype (ifield it)) = PB_LTYPE_EXTENSION
      then encode_extension_field (Suc n) env (pb_encode n env) s (pData it)
      else encode_field (Suc n) env (pb_encode n env) (ifield it) s (pData it)) (field_walk fs src))"
    using Suc.prems field_walk_member f by (intro total_fields total_if) (force, blast)
  then show ?case by (simp only: returns_def pb_encode.simps Let_def) simp
qed simp

lemma pb_encode_returns_witness:
  "pb_encode 2 sample_env sample_desc 0x1000 (PB_OSTREAM_SIZING :: obuf pb_ostream) \<noteq> NoResult"
proof (rule pb_encode_returns)
  show "callbacks_return sample_env" by (simp add: callbacks_return_def sample_env_def returns_def)
  show "nested 2 (edescs sample_env) sample_desc"
    by code_simp
qed

text \<open>
  C1: Encoding is exact. When pb_get_encoded_size gives a size for a message, there are bytes of
  that number (modulo 2^64) that pb_encode puts out whatever the buffer: a buffer that is large
  enough gets exactly them and pb_encode returns true with bytes_written equal to the size; in
  a smaller one pb_encode returns false, with a beginning of them in the buffer. No byte outside
  the buffer changes in either case.
\<close>

theorem pb_encode_exact:
  assumes "callbacks_determined env" and "pb_get_encoded_size n env fs src = Ok sz t"
  shows "\<exists>bs. sz = of_nat (length bs) \<and> (length bs < 2 ^ 64 \<longrightarrow> (\<forall>m buf cap.
    case pb_encode n env fs src (pb_ostream_from_buffer m buf cap) of
      Ok _ s \<Rightarrow> length bs \<le> unat cap \<and> bytes_written s = sz \<and>
        (\<exists>m'. ostate s = Some (m', buf + sz) \<and> mem_read m' buf (length bs) = bs \<and> mem_frame buf cap m m')
    | Fail s \<Rightarrow> unat cap < length bs \<and>
        (\<exists>m' k. ostate s = Some (m', buf + of_nat k) \<and> k \<le> unat cap
          \<and> mem_read m' buf k = take k bs \<and> mem_frame buf cap m m')
    | NoResult \<Rightarrow> False))"
proof -
  obtain t' where run: "pb_encode n env fs src PB_OSTREAM_SIZING = Ok () t'" and sz: "sz = bytes_written t'"
    using assms(2) by (auto simp: pb_get_encoded_size_def)
  obtain bs where e: "emits (pb_encode n env fs src) bs"
    using determinedD[OF determined_pb_encode[OF assms(1)] fresh_PB_OSTREAM_SIZING run] by blast
  have sz': "sz = of_nat (length bs)"
    using emits_sizing[OF e fresh_PB_OSTREAM_SIZING] run sz by (auto simp: PB_OSTREAM_SIZING_def)
  have "case pb_encode n env fs src (pb_ostream_from_buffer m buf cap) of
      Ok _ s \<Rightarrow> length bs \<le> unat cap \<and> bytes_written s = sz \<and>
        (\<exists>m'. ostate s = Some (m', buf + sz) \<and> mem_read m' buf (length bs) = bs \<and> mem_frame buf cap m m')
    | Fail s \<Rightarrow> unat cap < length bs \<and>
        (\<exists>m' k. ostate s = Some (m', buf + of_nat k) \<and> k \<le> unat cap
          \<and> mem_read m' buf k = take k bs \<and> mem_frame buf cap m m')
    | NoResult \<Rightarrow> False" if "length bs < 2 ^ 64" for m buf cap
    using e that by (cases rule: emits_buffer[where m = m and buf = buf and n = cap]) (auto simp: sz')
  then show ?thesis using sz' by blast
qed

lemma sample_encoded_size:
  "case pb_get_encoded_size 2 (sample_env :: obuf enc_env) sample_desc 0x1000 of
     Ok sz t \<Rightarrow> sz = 17 | _ \<Rightarrow> False"
  by code_simp

lemma sample_callbacks: "callbacks_determined (sample_env :: 's enc_env)"
  by (simp add: callbacks_determined_def sample_env_def determined_def)

lemma pb_encode_exact_witness:
  "\<exists>(bs :: bytes) t. pb_get_encoded_size 2 (sample_env :: obuf enc_env) sample_desc 0x1000 = Ok 17 t \<and>
     (17 :: u64) = of_nat (length bs) \<and> (length bs < 2 ^ 64 \<longrightarrow>
     (case pb_encode 2 sample_env sample_desc 0x1000 (pb_ostream_from_buffer (\<lambda>_. 0) 0x2000 32) of
        Ok _ s \<Rightarrow> bytes_written s = 17
      | Fail s \<Rightarrow> 32 < length bs
      | NoResult \<Rightarrow> False))"
proof -
  obtain t where t: "pb_get_encoded_size 2 (sample_env :: obuf enc_env) sample_desc 0x1000 = Ok 17 t"
    using sample_encoded_size by (auto split: outcome.splits)
  from pb_encode_exact[OF sample_callbacks t] obtain bs where l: "(17 :: u64) = of_nat (length bs)"
    and r: "length bs < 2 ^ 64 \<Longrightarrow> (\<forall>m buf cap.
      case pb_encode 2 sample_env sample_desc 0x1000 (pb_ostream_from_buffer m buf cap) of
        Ok _ s \<Rightarrow> length bs \<le> unat cap \<and> bytes_written s = 17 \<and>
          (\<exists>m'. ostate s = Some (m', buf + 17) \<and> mem_read m' buf (length bs) = bs \<and> mem_frame buf cap m m')
      | Fail s \<Rightarrow> unat cap < length bs \<and>
          (\<exists>m' k. ostate s = Some (m', buf + of_nat k) \<and> k \<le> unat cap
            \<and> mem_read m' buf k = take k bs \<and> mem_frame buf cap m m')
      | NoResult \<Rightarrow> False)"
    by (elim exE conjE) blast
  from r[rule_format, where m = "\<lambda>_. 0" and buf = "0x2000" and cap = 32] t l show ?thesis
    by (intro exI[of _ bs] exI[of _ t]) (auto split: outcome.splits)
qed

end
