(* ===== verification/Nanopb_Decode.thy ===== *)
theory Nanopb_Decode
  imports Nanopb_Encode
begin

text \<open>
  The message decoder of nanopb (pb_decode.c): the decoders of the field types, the static,
  pointer and callback fields, extensions, default values, the release of allocated fields
  and \<open>pb_decode\<close> itself.

  The decoder writes into the message while it reads, so its state is the memory, the
  allocator and the stream together, and a failing call has a state too. What is not under
  the library's control is in an environment: the descriptor tables, \<open>realloc\<close> and \<open>free\<close>, the
  user's decoding functions, and the addresses of the local variable \<open>fixed_count_size\<close> of
  each activation of \<open>pb_decode_noinit\<close>, which the iterator's \<open>pSize\<close> may point to.
  Recursion through submessages and extension lists is tied with fuel as in the encoder.
\<close>

section \<open>State and environment\<close>

record ('s, 'h) dstate =
  dmem :: mem
  dheap :: 'h
  dstream :: "'s pb_istream"

record ('s, 'h) dec_env =
  ddescs :: "u64 \<Rightarrow> pb_fields"
  pb_realloc :: "'h \<Rightarrow> mem \<Rightarrow> u64 \<Rightarrow> u64 \<Rightarrow> u64 \<times> 'h \<times> mem"
  pb_free :: "'h \<Rightarrow> mem \<Rightarrow> u64 \<Rightarrow> 'h \<times> mem"
  decode_cb :: "u64 \<Rightarrow> pb_field \<Rightarrow> u64 \<Rightarrow> ('s, 'h) dstate \<Rightarrow> (unit, ('s, 'h) dstate) outcome"
  ext_decode_cb :: "u64 \<Rightarrow> u64 \<Rightarrow> u32 \<Rightarrow> u32 \<Rightarrow> ('s, 'h) dstate \<Rightarrow> (unit, ('s, 'h) dstate) outcome"
  fixed_count_addr :: "nat \<Rightarrow> u64"

type_synonym ('s, 'h) dresult = "(unit, ('s, 'h) dstate) outcome"
type_synonym ('s, 'h) decoder = "pb_field \<Rightarrow> u64 \<Rightarrow> ('s, 'h) dstate \<Rightarrow> ('s, 'h) dresult"
type_synonym ('s, 'h) msg_decoder = "pb_fields \<Rightarrow> u64 \<Rightarrow> ('s, 'h) dstate \<Rightarrow> ('s, 'h) dresult"

definition wr32 :: "u64 \<Rightarrow> u32 \<Rightarrow> mem \<Rightarrow> mem" where
  "wr32 a v m = mem_write m a (le_bytes 4 v)"

definition wr64 :: "u64 \<Rightarrow> u64 \<Rightarrow> mem \<Rightarrow> mem" where
  "wr64 a v m = mem_write m a (le_bytes 8 v)"

definition poke :: "u64 \<Rightarrow> bytes \<Rightarrow> ('s, 'h) dstate \<Rightarrow> ('s, 'h) dstate" where
  "poke a bs d = d\<lparr>dmem := mem_write (dmem d) a bs\<rparr>"

definition poke32 :: "u64 \<Rightarrow> u32 \<Rightarrow> ('s, 'h) dstate \<Rightarrow> ('s, 'h) dstate" where
  "poke32 a v d = d\<lparr>dmem := wr32 a v (dmem d)\<rparr>"

definition poke64 :: "u64 \<Rightarrow> u64 \<Rightarrow> ('s, 'h) dstate \<Rightarrow> ('s, 'h) dstate" where
  "poke64 a v d = d\<lparr>dmem := wr64 a v (dmem d)\<rparr>"

text \<open>PB_RETURN_ERROR, and a stream operation on the stream of the state.\<close>

definition derror :: "('s, 'h) dstate \<Rightarrow> string \<Rightarrow> ('v, ('s, 'h) dstate) outcome" where
  "derror d msg = Fail (d\<lparr>dstream := iset_error (dstream d) msg\<rparr>)"

definition on_stream :: "('s pb_istream \<Rightarrow> ('v, 's pb_istream) outcome) \<Rightarrow> ('s, 'h) dstate \<Rightarrow>
    ('v, ('s, 'h) dstate) outcome" where
  "on_stream f d = (case f (dstream d) of
       Ok v s \<Rightarrow> Ok v (d\<lparr>dstream := s\<rparr>)
     | Fail s \<Rightarrow> Fail (d\<lparr>dstream := s\<rparr>)
     | NoResult \<Rightarrow> NoResult)"

text \<open>\<open>pb_read\<close> into memory: what the callback stored is there even when it failed.\<close>

definition read_to :: "u64 \<Rightarrow> u64 \<Rightarrow> ('s, 'h) dstate \<Rightarrow> ('s, 'h) dresult" where
  "read_to a n d = (case pb_read (dstream d) n of
       (True, bs, s) \<Rightarrow> Ok () (poke a bs (d\<lparr>dstream := s\<rparr>))
     | (False, bs, s) \<Rightarrow> Fail (poke a bs (d\<lparr>dstream := s\<rparr>)))"

section \<open>Decoders of the field types\<close>

definition pb_dec_bool :: "('s, 'h) decoder" where
  "pb_dec_bool f dest d = bindo (on_stream pb_decode_varint32 d)
     (\<lambda>v d. Ok () (poke dest [if v \<noteq> 0 then 1 else 0] d))"

text \<open>
  The three integer decoders store the value cut down to the size of the field and then
  compare what they stored, extended again, with what they read.
\<close>

definition pb_dec_varint :: "('s, 'h) decoder" where
  "pb_dec_varint f dest d = bindo (on_stream pb_decode_varint d) (\<lambda>value d.
     let svalue = (if data_size f = 8 then value else scast (ucast value :: u32));
         store = (\<lambda>bs clamped. let d = poke dest bs d in
           if clamped \<noteq> svalue then derror d ''integer too large'' else Ok () d)
     in if data_size f = 8 then store (le_bytes 8 svalue) svalue
        else if data_size f = 4 then store (le_bytes 4 svalue) (scast (ucast svalue :: u32))
        else if data_size f = 2 then store (le_bytes 2 svalue) (scast (ucast svalue :: u16))
        else if data_size f = 1 then store (le_bytes 1 svalue) (scast (ucast svalue :: u8))
        else derror d ''invalid data_size'')"

definition pb_dec_uvarint :: "('s, 'h) decoder" where
  "pb_dec_uvarint f dest d = bindo (on_stream pb_decode_varint d) (\<lambda>value d.
     let store = (\<lambda>bs clamped. let d = poke dest bs d in
           if clamped \<noteq> value then derror d ''integer too large'' else Ok () d)
     in if data_size f = 8 then store (le_bytes 8 value) value
        else if data_size f = 4 then store (le_bytes 4 value) (ucast (ucast value :: u32))
        else if data_size f = 2 then store (le_bytes 2 value) (ucast (ucast value :: u16))
        else if data_size f = 1 then store (le_bytes 1 value) (ucast (ucast value :: u8))
        else derror d ''invalid data_size'')"

definition pb_dec_svarint :: "('s, 'h) decoder" where
  "pb_dec_svarint f dest d = bindo (on_stream pb_decode_svarint d) (\<lambda>value d.
     let store = (\<lambda>bs clamped. let d = poke dest bs d in
           if clamped \<noteq> value then derror d ''integer too large'' else Ok () d)
     in if data_size f = 8 then store (le_bytes 8 value) value
        else if data_size f = 4 then store (le_bytes 4 value) (scast (ucast value :: u32))
        else if data_size f = 2 then store (le_bytes 2 value) (scast (ucast value :: u16))
        else if data_size f = 1 then store (le_bytes 1 value) (scast (ucast value :: u8))
        else derror d ''invalid data_size'')"

definition pb_dec_fixed32 :: "('s, 'h) decoder" where
  "pb_dec_fixed32 f dest d =
     bindo (on_stream pb_decode_fixed32 d) (\<lambda>v d. Ok () (poke32 dest v d))"

definition pb_dec_fixed64 :: "('s, 'h) decoder" where
  "pb_dec_fixed64 f dest d =
     bindo (on_stream pb_decode_fixed64 d) (\<lambda>v d. Ok () (poke64 dest v d))"

text \<open>
  \<open>realloc\<close> of the pointer stored at \<open>p\<close>. The product is checked against overflow before it is
  formed; on failure the old pointer stays where it is.
\<close>

definition allocate_field :: "('s, 'h) dec_env \<Rightarrow> u64 \<Rightarrow> u64 \<Rightarrow> u64 \<Rightarrow> ('s, 'h) dstate \<Rightarrow>
    ('s, 'h) dresult" where
  "allocate_field env p dsize asize d =
     (let ptr = rd64 (dmem d) p; limit = push_bit 32 1 in
      if dsize = 0 \<or> asize = 0 then derror d ''invalid size''
      else if (limit \<le> dsize \<or> limit \<le> asize) \<and> (- 1) div asize < dsize
      then derror d ''size too large''
      else (case pb_realloc env (dheap d) (dmem d) ptr (asize * dsize) of (ptr', h, m) \<Rightarrow>
              let d = d\<lparr>dheap := h, dmem := m\<rparr> in
              if ptr' = 0 then derror d ''realloc failed'' else Ok () (poke64 p ptr' d)))"

definition pb_dec_bytes :: "('s, 'h) dec_env \<Rightarrow> ('s, 'h) decoder" where
  "pb_dec_bytes env f dest d = bindo (on_stream pb_decode_varint32 d) (\<lambda>sz d.
     let alloc_size = ucast sz + 4 :: u64;
         fill = (\<lambda>bdest d. read_to (bdest + 4) (ucast sz) (poke32 bdest sz d))
     in if PB_SIZE_MAX < sz then derror d ''bytes overflow''
        else if alloc_size < ucast sz then derror d ''size too large''
        else if PB_ATYPE (ftype f) = PB_ATYPE_POINTER
        then (if bytes_left (dstream d) < ucast sz then derror d ''end-of-stream''
              else bindo (allocate_field env dest alloc_size 1 d)
                     (\<lambda>_ d. fill (rd64 (dmem d) dest) d))
        else if ucast (data_size f) < alloc_size then derror d ''bytes overflow''
        else fill dest d)"

text \<open>The terminator is stored whether or not the read succeeded.\<close>

definition pb_dec_string :: "('s, 'h) dec_env \<Rightarrow> ('s, 'h) decoder" where
  "pb_dec_string env f dest d = bindo (on_stream pb_decode_varint32 d) (\<lambda>sz d.
     let alloc_size = ucast (sz + 1) :: u64;
         fill = (\<lambda>dest d. case read_to dest (ucast sz) d of
             Ok _ d \<Rightarrow> Ok () (poke (dest + ucast sz) [0] d)
           | Fail d \<Rightarrow> Fail (poke (dest + ucast sz) [0] d)
           | NoResult \<Rightarrow> NoResult)
     in if alloc_size < ucast sz then derror d ''size too large''
        else if PB_ATYPE (ftype f) = PB_ATYPE_POINTER
        then (if bytes_left (dstream d) < ucast sz then derror d ''end-of-stream''
              else bindo (allocate_field env dest alloc_size 1 d)
                     (\<lambda>_ d. fill (rd64 (dmem d) dest) d))
        else if ucast (data_size f) < alloc_size then derror d ''string overflow''
        else fill dest d)"

definition pb_dec_fixed_length_bytes :: "('s, 'h) decoder" where
  "pb_dec_fixed_length_bytes f dest d = bindo (on_stream pb_decode_varint32 d) (\<lambda>sz d.
     if PB_SIZE_MAX < sz then derror d ''bytes overflow''
     else if sz = 0 then Ok () (poke dest (replicate (unat (data_size f)) 0) d)
     else if sz \<noteq> data_size f then derror d ''incorrect fixed length bytes size''
     else read_to dest (ucast (data_size f)) d)"

text \<open>
  Work on a substream: the stream of the state is the substream meanwhile, and closing it puts
  the parent back, with the substream's cursor and error message.
\<close>

definition close_substream :: "bool \<Rightarrow> 's pb_istream \<Rightarrow> ('s, 'h) dstate \<Rightarrow> ('s, 'h) dresult" where
  "close_substream status parent d = (case pb_close_string_substream parent (dstream d) of
       Ok _ s \<Rightarrow> (if status then Ok () (d\<lparr>dstream := s\<rparr>) else Fail (d\<lparr>dstream := s\<rparr>))
     | Fail s \<Rightarrow> Fail (d\<lparr>dstream := s\<rparr>)
     | NoResult \<Rightarrow> NoResult)"

definition on_substream :: "(('s, 'h) dstate \<Rightarrow> ('s, 'h) dresult) \<Rightarrow> ('s, 'h) dstate \<Rightarrow>
    's pb_istream \<Rightarrow> ('s, 'h) dresult" where
  "on_substream body d sub = (case body (d\<lparr>dstream := sub\<rparr>) of
       Ok _ d' \<Rightarrow> close_substream True (dstream d) d'
     | Fail d' \<Rightarrow> close_substream False (dstream d) d'
     | NoResult \<Rightarrow> NoResult)"

text \<open>\<open>dec\<close> is \<open>pb_decode\<close>, \<open>noinit\<close> is \<open>pb_decode_noinit\<close>, both for the nested message.\<close>

definition pb_dec_submessage :: "('s, 'h) dec_env \<Rightarrow> ('s, 'h) msg_decoder \<Rightarrow> ('s, 'h) msg_decoder \<Rightarrow>
    ('s, 'h) decoder" where
  "pb_dec_submessage env dec noinit f dest d =
     bindo (on_stream pb_make_string_substream d) (\<lambda>sub d.
       if fptr f = 0 then derror d ''invalid field descriptor''
       else on_substream
         (\<lambda>d. if PB_HTYPE (ftype f) = PB_HTYPE_REPEATED then dec (ddescs env (fptr f)) dest d
              else noinit (ddescs env (fptr f)) dest d) d sub)"

definition PB_DECODERS :: "('s, 'h) dec_env \<Rightarrow> ('s, 'h) msg_decoder \<Rightarrow> ('s, 'h) msg_decoder \<Rightarrow> u8 \<Rightarrow>
    ('s, 'h) decoder" where
  "PB_DECODERS env dec noinit lt =
     (if lt = PB_LTYPE_BOOL then pb_dec_bool
      else if lt = PB_LTYPE_VARINT then pb_dec_varint
      else if lt = PB_LTYPE_UVARINT then pb_dec_uvarint
      else if lt = PB_LTYPE_SVARINT then pb_dec_svarint
      else if lt = PB_LTYPE_FIXED32 then pb_dec_fixed32
      else if lt = PB_LTYPE_FIXED64 then pb_dec_fixed64
      else if lt = PB_LTYPE_BYTES then pb_dec_bytes env
      else if lt = PB_LTYPE_STRING then pb_dec_string env
      else if lt = PB_LTYPE_SUBMESSAGE then pb_dec_submessage env dec noinit
      else if lt = PB_LTYPE_FIXED_LENGTH_BYTES then pb_dec_fixed_length_bytes
      else (\<lambda>f dest d. NoResult))"

definition pb_decode_bool :: "u64 \<Rightarrow> ('s, 'h) dstate \<Rightarrow> ('s, 'h) dresult" where
  "pb_decode_bool dest d = pb_dec_bool PB_LAST_FIELD dest d"

section \<open>Extensions, defaults and release\<close>

definition iter_from_extension :: "('s, 'h) dec_env \<Rightarrow> mem \<Rightarrow> u64 \<Rightarrow> pb_field_iter" where
  "iter_from_extension env m ext =
     (let fs = ddescs env (rd64 m (rd64 m ext + 16)); dest = rd64 m (ext + 8);
          it = snd (pb_field_iter_begin fs dest)
      in it\<lparr>pData := (if PB_ATYPE (ftype (field_at fs 0)) = PB_ATYPE_POINTER then ext + 8 else dest),
            pSize := ext + 24\<rparr>)"

text \<open>The loops over an extension list; the next pointer is read after the body has run.\<close>

fun for_extensions :: "nat \<Rightarrow> (u64 \<Rightarrow> ('s, 'h) dstate \<Rightarrow> ('s, 'h) dresult) \<Rightarrow> u64 \<Rightarrow> ('s, 'h) dstate \<Rightarrow>
    ('s, 'h) dresult" where
  "for_extensions 0 body ext d = (if ext = 0 then Ok () d else NoResult)"
| "for_extensions (Suc k) body ext d =
     (if ext = 0 then Ok () d
      else bindo (body ext d) (\<lambda>_ d. for_extensions k body (rd64 (dmem d) (ext + 16)) d))"

text \<open>\<open>msg\<close> is \<open>pb_message_set_to_defaults\<close> for the nested message.\<close>

fun pb_field_set_to_default :: "nat \<Rightarrow> ('s, 'h) dec_env \<Rightarrow> pb_field_iter \<Rightarrow> ('s, 'h) dstate \<Rightarrow>
    ('s, 'h) dresult" where
  "pb_field_set_to_default 0 env it d = NoResult"
| "pb_field_set_to_default (Suc n) env it d =
     (let f = ifield it; ty = ftype f;
          msg = (\<lambda>fs a d. for_each (\<lambda>it d. pb_field_set_to_default n env it d) (field_walk fs a) d)
      in if PB_LTYPE ty = PB_LTYPE_EXTENSION
         then for_extensions n (\<lambda>ext d. let d = poke (ext + 24) [0] d in
                pb_field_set_to_default n env (iter_from_extension env (dmem d) ext) d)
                (rd64 (dmem d) (pData it)) d
         else if PB_ATYPE ty = PB_ATYPE_STATIC
         then (let optional = (PB_HTYPE ty = PB_HTYPE_OPTIONAL \<and> pSize it \<noteq> pData it);
                   counted = (PB_HTYPE ty = PB_HTYPE_REPEATED \<or> PB_HTYPE ty = PB_HTYPE_ONEOF);
                   d = (if optional then poke (pSize it) [0] d
                        else if counted then poke32 (pSize it) 0 d else d)
               in if \<not> optional \<and> counted then Ok () d
                  else if PB_LTYPE ty = PB_LTYPE_SUBMESSAGE then msg (ddescs env (fptr f)) (pData it) d
                  else if fptr f \<noteq> 0
                  then Ok () (poke (pData it) (mem_read (dmem d) (fptr f) (unat (data_size f))) d)
                  else Ok () (poke (pData it) (replicate (unat (data_size f)) 0) d))
         else if PB_ATYPE ty = PB_ATYPE_POINTER
         then (let d = poke64 (pData it) 0 d in
               Ok () (if PB_HTYPE ty = PB_HTYPE_REPEATED \<or> PB_HTYPE ty = PB_HTYPE_ONEOF
                      then poke32 (pSize it) 0 d else d))
         else Ok () d)"

definition pb_message_set_to_defaults :: "nat \<Rightarrow> ('s, 'h) dec_env \<Rightarrow> pb_fields \<Rightarrow> u64 \<Rightarrow>
    ('s, 'h) dstate \<Rightarrow> ('s, 'h) dresult" where
  "pb_message_set_to_defaults n env fs dest d =
     for_each (pb_field_set_to_default n env) (field_walk fs dest) d"

definition free_at :: "('s, 'h) dec_env \<Rightarrow> u64 \<Rightarrow> ('s, 'h) dstate \<Rightarrow> ('s, 'h) dstate" where
  "free_at env p d = (case pb_free env (dheap d) (dmem d) (rd64 (dmem d) p) of
     (h, m) \<Rightarrow> poke64 p 0 (d\<lparr>dheap := h, dmem := m\<rparr>))"

text \<open>
  The release of one field. \<open>count\<close> is the number of submessages in the field, cut to the size
  of a static array.
\<close>

fun pb_release_single_field :: "nat \<Rightarrow> ('s, 'h) dec_env \<Rightarrow> pb_field_iter \<Rightarrow> ('s, 'h) dstate \<Rightarrow>
    ('s, 'h) dresult" where
  "pb_release_single_field 0 env it d = NoResult"
| "pb_release_single_field (Suc n) env it d =
     (let f = ifield it; ty = ftype f;
          msg = (\<lambda>fs a d. if a = 0 then Ok () d
             else for_each (\<lambda>it d. pb_release_single_field n env it d) (field_walk fs a) d)
      in if PB_HTYPE ty = PB_HTYPE_ONEOF \<and> rd32 (dmem d) (pSize it) \<noteq> ftag f then Ok () d
         else bindo
           (if PB_LTYPE ty = PB_LTYPE_EXTENSION
            then for_extensions n
                   (\<lambda>ext d. pb_release_single_field n env (iter_from_extension env (dmem d) ext) d)
                   (rd64 (dmem d) (pData it)) d
            else if PB_LTYPE ty = PB_LTYPE_SUBMESSAGE \<and> PB_ATYPE ty \<noteq> PB_ATYPE_CALLBACK
            then (let item = (if PB_ATYPE ty = PB_ATYPE_POINTER then rd64 (dmem d) (pData it) else pData it);
                      count0 = (if PB_HTYPE ty = PB_HTYPE_REPEATED
                        then (if PB_ATYPE ty = PB_ATYPE_STATIC \<and> pSize it = pData it
                              then array_size f else rd32 (dmem d) (pSize it))
                        else 1);
                      count = (if PB_HTYPE ty = PB_HTYPE_REPEATED \<and> PB_ATYPE ty = PB_ATYPE_STATIC
                          \<and> array_size f < count0 then array_size f else count0)
                  in if item = 0 then Ok () d
                     else for_items (\<lambda>d p. msg (ddescs env (fptr f)) p d) (ucast (data_size f))
                            (unat count) item d)
            else Ok () d)
           (\<lambda>_ d.
             if PB_ATYPE ty = PB_ATYPE_POINTER
             then bindo
               (if PB_HTYPE ty = PB_HTYPE_REPEATED \<and>
                   (PB_LTYPE ty = PB_LTYPE_STRING \<or> PB_LTYPE ty = PB_LTYPE_BYTES)
                then for_items (\<lambda>d p. Ok () (free_at env p d)) 8
                       (unat (rd32 (dmem d) (pSize it))) (rd64 (dmem d) (pData it)) d
                else Ok () d)
               (\<lambda>_ d. let d = (if PB_HTYPE ty = PB_HTYPE_REPEATED then poke32 (pSize it) 0 d else d)
                      in Ok () (free_at env (pData it) d))
             else Ok () d))"

definition pb_release :: "nat \<Rightarrow> ('s, 'h) dec_env \<Rightarrow> pb_fields \<Rightarrow> u64 \<Rightarrow> ('s, 'h) dstate \<Rightarrow>
    ('s, 'h) dresult" where
  "pb_release n env fs dest d =
     (if dest = 0 then Ok () d
      else for_each (pb_release_single_field n env) (field_walk fs dest) d)"

text \<open>
  Before a oneof is decoded anew, the member it holds is released. The iterator is moved to the
  old member and back, so the result is the iterator.
\<close>

definition pb_release_union_field :: "nat \<Rightarrow> ('s, 'h) dec_env \<Rightarrow> pb_field_iter \<Rightarrow> ('s, 'h) dstate \<Rightarrow>
    (pb_field_iter, ('s, 'h) dstate) outcome" where
  "pb_release_union_field n env it d =
     (let old_tag = rd32 (dmem d) (pSize it); new_tag = ftag (ifield it) in
      if old_tag = 0 then Ok it d
      else if old_tag = new_tag then Ok it d
      else (case pb_field_iter_find it old_tag of
          None \<Rightarrow> NoResult
        | Some (False, _) \<Rightarrow> derror d ''invalid union tag''
        | Some (True, it1) \<Rightarrow>
            bindo (pb_release_single_field n env it1 d) (\<lambda>_ d.
              case pb_field_iter_find it1 new_tag of
                None \<Rightarrow> NoResult
              | Some (False, _) \<Rightarrow> derror d ''iterator error''
              | Some (True, it2) \<Rightarrow>
                  Ok it2 (if PB_ATYPE (ftype (ifield it2)) = PB_ATYPE_POINTER
                          then poke64 (pData it2) 0 d else d))))"

section \<open>Decoding one field\<close>

text \<open>The address of item number \<open>i\<close>; the product is one of \<open>pb_size_t\<close>, 32 bits wide.\<close>

definition item_addr :: "pb_field \<Rightarrow> u64 \<Rightarrow> u32 \<Rightarrow> u64" where
  "item_addr f base i = base + ucast (data_size f * i)"

text \<open>
  The loop over the items of a packed static array: while there are bytes in the substream and
  room in the array. An item that takes no byte off the stream, which no packable type is,
  would make the loop's progress depend on the count only; that is \<open>NoResult\<close> here.
\<close>

function packed_static :: "(('s, 'h) dstate \<Rightarrow> u64 \<Rightarrow> ('s, 'h) dresult) \<Rightarrow> pb_field_iter \<Rightarrow> ('s, 'h) dstate \<Rightarrow>
    ('s, 'h) dresult" where
  "packed_static func it d =
     (let f = ifield it; i = rd32 (dmem d) (pSize it) in
      if 0 < bytes_left (dstream d) \<and> i < array_size f
      then bindo (func d (item_addr f (pData it) i)) (\<lambda>_ d'.
             if bytes_left (dstream d') < bytes_left (dstream d)
             then packed_static func it (poke32 (pSize it) (rd32 (dmem d') (pSize it) + 1) d')
             else NoResult)
      else Ok () d)"
  by pat_completeness auto
termination
  by (relation "measure (\<lambda>(func, it, d). unat (bytes_left (dstream d)))")
    (auto simp: poke32_def word_less_nat_alt)

declare packed_static.simps [simp del]

definition decode_static_field :: "nat \<Rightarrow> ('s, 'h) dec_env \<Rightarrow> ('s, 'h) msg_decoder \<Rightarrow>
    ('s, 'h) msg_decoder \<Rightarrow> u32 \<Rightarrow> pb_field_iter \<Rightarrow> ('s, 'h) dstate \<Rightarrow> ('s, 'h) dresult" where
  "decode_static_field n env dec noinit wire_type it d =
     (let f = ifield it; ty = ftype f; func = PB_DECODERS env dec noinit (PB_LTYPE ty) f in
      if PB_HTYPE ty = PB_HTYPE_REQUIRED then func (pData it) d
      else if PB_HTYPE ty = PB_HTYPE_OPTIONAL
      then func (pData it) (if pSize it \<noteq> pData it then poke (pSize it) [1] d else d)
      else if PB_HTYPE ty = PB_HTYPE_REPEATED
      then (if wire_type = PB_WT_STRING \<and> PB_LTYPE ty \<le> PB_LTYPE_LAST_PACKABLE
            then bindo (on_stream pb_make_string_substream d) (\<lambda>sub d.
              let finish = (\<lambda>status d'.
                if bytes_left (dstream d') \<noteq> 0
                then derror (d'\<lparr>dstream := dstream d\<rparr>) ''array overflow''
                else close_substream status (dstream d) d')
              in (case packed_static (\<lambda>d a. func a d) it (d\<lparr>dstream := sub\<rparr>) of
                    Ok _ d' \<Rightarrow> finish True d' | Fail d' \<Rightarrow> finish False d' | NoResult \<Rightarrow> NoResult))
            else (let i = rd32 (dmem d) (pSize it); d = poke32 (pSize it) (i + 1) d in
                  if array_size f \<le> i then derror d ''array overflow''
                  else func (item_addr f (pData it) i) d))
      else if PB_HTYPE ty = PB_HTYPE_ONEOF
      then bindo
        (if PB_LTYPE ty = PB_LTYPE_SUBMESSAGE \<and> rd32 (dmem d) (pSize it) \<noteq> ftag f
         then pb_message_set_to_defaults n env (ddescs env (fptr f)) (pData it)
                (poke (pData it) (replicate (unat (data_size f)) 0) d)
         else Ok () d)
        (\<lambda>_ d. func (pData it) (poke32 (pSize it) (ftag f) d))
      else derror d ''invalid field type'')"

definition initialize_pointer_field :: "nat \<Rightarrow> ('s, 'h) dec_env \<Rightarrow> u64 \<Rightarrow> pb_field \<Rightarrow> ('s, 'h) dstate \<Rightarrow>
    ('s, 'h) dresult" where
  "initialize_pointer_field n env item f d =
     (let lt = PB_LTYPE (ftype f) in
      if lt = PB_LTYPE_STRING \<or> lt = PB_LTYPE_BYTES then Ok () (poke64 item 0 d)
      else if lt = PB_LTYPE_SUBMESSAGE
      then pb_message_set_to_defaults n env (ddescs env (fptr f)) item
             (poke item (replicate (unat (data_size f)) 0) d)
      else Ok () d)"

text \<open>
  The loop over a packed pointer array, with the number of items there is storage for. It
  returns False when the count cannot grow any more. A data size of 0 is a division by zero.
\<close>

function packed_pointer :: "(('s, 'h) dstate \<Rightarrow> u64 \<Rightarrow> ('s, 'h) dresult) \<Rightarrow> nat \<Rightarrow> ('s, 'h) dec_env \<Rightarrow>
    pb_field_iter \<Rightarrow> u64 \<Rightarrow> ('s, 'h) dstate \<Rightarrow> (bool, ('s, 'h) dstate) outcome" where
  "packed_pointer func n env it allocated d =
     (let f = ifield it; i = rd32 (dmem d) (pSize it) in
      if bytes_left (dstream d) = 0 then Ok True d
      else if i = PB_SIZE_MAX then Ok False d
      else if data_size f = 0 then NoResult
      else
        let grow = (allocated < ucast i + 1);
            remain = (bytes_left (dstream d) - 1) div ucast (data_size f) + 1;
            allocated' = (if \<not> grow then allocated
              else if remain < 0xFFFFFFFF - allocated then allocated + remain else allocated + 1)
        in bindo (if grow then allocate_field env (pData it) (ucast (data_size f)) allocated' d else Ok () d)
             (\<lambda>_ d1. let item = item_addr f (rd64 (dmem d1) (pData it)) (rd32 (dmem d1) (pSize it)) in
               if item = 0 then Fail d1
               else bindo (initialize_pointer_field n env item f d1) (\<lambda>_ d2.
                 bindo (func d2 item) (\<lambda>_ d3.
                   if bytes_left (dstream d3) < bytes_left (dstream d)
                   then packed_pointer func n env it allocated'
                          (poke32 (pSize it) (rd32 (dmem d3) (pSize it) + 1) d3)
                   else NoResult))))"
  by pat_completeness auto
termination
  by (relation "measure (\<lambda>(func, n, env, it, a, d). unat (bytes_left (dstream d)))")
    (auto simp: poke32_def word_less_nat_alt)

declare packed_pointer.simps [simp del]

definition decode_pointer_field :: "nat \<Rightarrow> ('s, 'h) dec_env \<Rightarrow> ('s, 'h) msg_decoder \<Rightarrow>
    ('s, 'h) msg_decoder \<Rightarrow> u32 \<Rightarrow> pb_field_iter \<Rightarrow> ('s, 'h) dstate \<Rightarrow> ('s, 'h) dresult" where
  "decode_pointer_field n env dec noinit wire_type it d =
     (let f = ifield it; ty = ftype f; func = PB_DECODERS env dec noinit (PB_LTYPE ty) f in
      if PB_HTYPE ty \<noteq> PB_HTYPE_REPEATED
      then bindo
        (if PB_LTYPE ty = PB_LTYPE_SUBMESSAGE \<and> rd64 (dmem d) (pData it) \<noteq> 0
         then pb_release_single_field n env it d else Ok () d)
        (\<lambda>_ d.
          let d = (if PB_HTYPE ty = PB_HTYPE_ONEOF then poke32 (pSize it) (ftag f) d else d) in
          if PB_LTYPE ty = PB_LTYPE_STRING \<or> PB_LTYPE ty = PB_LTYPE_BYTES then func (pData it) d
          else bindo (allocate_field env (pData it) (ucast (data_size f)) 1 d) (\<lambda>_ d.
            bindo (initialize_pointer_field n env (rd64 (dmem d) (pData it)) f d) (\<lambda>_ d.
              func (rd64 (dmem d) (pData it)) d)))
      else if wire_type = PB_WT_STRING \<and> PB_LTYPE ty \<le> PB_LTYPE_LAST_PACKABLE
      then (let allocated = ucast (rd32 (dmem d) (pSize it)) in
        bindo (on_stream pb_make_string_substream d) (\<lambda>sub d.
          case packed_pointer (\<lambda>d a. func a d) n env it allocated (d\<lparr>dstream := sub\<rparr>) of
            Ok True d' \<Rightarrow> close_substream True (dstream d) d'
          | Ok False d' \<Rightarrow>
              close_substream False ((dstream d)\<lparr>ierrmsg := Some ''too many array entries''\<rparr>) d'
          | Fail d' \<Rightarrow> close_substream False (dstream d) d'
          | NoResult \<Rightarrow> NoResult))
      else (let i = rd32 (dmem d) (pSize it) in
        if i = PB_SIZE_MAX then derror d ''too many array entries''
        else bindo (allocate_field env (pData it) (ucast (data_size f)) (ucast (i + 1)) d) (\<lambda>_ d.
          let j = rd32 (dmem d) (pSize it); item = item_addr f (rd64 (dmem d) (pData it)) j;
              d = poke32 (pSize it) (j + 1) d
          in bindo (initialize_pointer_field n env item f d) (\<lambda>_ d. func item d))))"

text \<open>The callback is called until it has used up its substream; one that takes nothing is
  called again, for ever unless its own state changes, which is \<open>NoResult\<close>.\<close>

function callback_loop :: "(('s, 'h) dstate \<Rightarrow> ('s, 'h) dresult) \<Rightarrow> ('s, 'h) dstate \<Rightarrow> ('s, 'h) dresult" where
  "callback_loop cb d = bindo (cb d) (\<lambda>_ d'.
     if bytes_left (dstream d') = 0 then Ok () d'
     else if bytes_left (dstream d') < bytes_left (dstream d) then callback_loop cb d'
     else NoResult)"
  by pat_completeness auto
termination
  by (relation "measure (\<lambda>(cb, d). unat (bytes_left (dstream d)))") (auto simp: word_less_nat_alt)

declare callback_loop.simps [simp del]

definition decode_callback_field :: "('s, 'h) dec_env \<Rightarrow> u32 \<Rightarrow> pb_field_iter \<Rightarrow> ('s, 'h) dstate \<Rightarrow>
    ('s, 'h) dresult" where
  "decode_callback_field env wire_type it d =
     (let f = ifield it; funcp = (\<lambda>d. rd64 (dmem d) (pData it));
          cb = (\<lambda>d. decode_cb env (funcp d) f (pData it + 8) d) in
      if pData it = 0 \<or> funcp d = 0 then on_stream (\<lambda>s. pb_skip_field s wire_type) d
      else if wire_type = PB_WT_STRING
      then bindo (on_stream pb_make_string_substream d) (\<lambda>sub d.
        case callback_loop cb (d\<lparr>dstream := sub\<rparr>) of
          Ok _ d' \<Rightarrow> close_substream True (dstream d) d'
        | Fail d' \<Rightarrow> derror (d'\<lparr>dstream := dstream d\<rparr>) ''callback failed''
        | NoResult \<Rightarrow> NoResult)
      else bindo (on_stream (\<lambda>s. read_raw_value s wire_type 10) d) (\<lambda>bs d.
        let sub = pb_istream_from_buffer (mem_write (\<lambda>_. 0) 0 bs) 0 (of_nat (length bs)) in
        case cb (d\<lparr>dstream := sub\<rparr>) of
          Ok _ d' \<Rightarrow> Ok () (d'\<lparr>dstream := dstream d\<rparr>)
        | Fail d' \<Rightarrow> Fail (d'\<lparr>dstream := dstream d\<rparr>)
        | NoResult \<Rightarrow> NoResult))"

text \<open>The iterator comes back because a oneof field moves it.\<close>

definition decode_field :: "nat \<Rightarrow> ('s, 'h) dec_env \<Rightarrow> ('s, 'h) msg_decoder \<Rightarrow>
    ('s, 'h) msg_decoder \<Rightarrow> u32 \<Rightarrow> pb_field_iter \<Rightarrow> ('s, 'h) dstate \<Rightarrow>
    (pb_field_iter, ('s, 'h) dstate) outcome" where
  "decode_field n env dec noinit wire_type it d =
     bindo (if PB_HTYPE (ftype (ifield it)) = PB_HTYPE_ONEOF then pb_release_union_field n env it d
            else Ok it d)
       (\<lambda>it d.
         let aty = PB_ATYPE (ftype (ifield it)) in
         bindo (if aty = PB_ATYPE_STATIC then decode_static_field n env dec noinit wire_type it d
                else if aty = PB_ATYPE_POINTER then decode_pointer_field n env dec noinit wire_type it d
                else if aty = PB_ATYPE_CALLBACK then decode_callback_field env wire_type it d
                else derror d ''invalid field type'')
           (\<lambda>_ d. Ok it d))"

definition default_extension_decoder :: "nat \<Rightarrow> ('s, 'h) dec_env \<Rightarrow> ('s, 'h) msg_decoder \<Rightarrow>
    ('s, 'h) msg_decoder \<Rightarrow> u64 \<Rightarrow> u32 \<Rightarrow> u32 \<Rightarrow> ('s, 'h) dstate \<Rightarrow> ('s, 'h) dresult" where
  "default_extension_decoder n env dec noinit ext tag wire_type d =
     (let f = field_at (ddescs env (rd64 (dmem d) (rd64 (dmem d) ext + 16))) 0 in
      if ftag f \<noteq> tag then Ok () d
      else let it = iter_from_extension env (dmem d) ext; d = poke (ext + 24) [1] d in
           bindo (decode_field n env dec noinit wire_type it d) (\<lambda>_ d. Ok () d))"

text \<open>The extensions are tried in turn until one has taken something off the stream.\<close>

fun try_extensions :: "nat \<Rightarrow> (u64 \<Rightarrow> ('s, 'h) dstate \<Rightarrow> ('s, 'h) dresult) \<Rightarrow> u64 \<Rightarrow> u64 \<Rightarrow> ('s, 'h) dstate \<Rightarrow>
    ('s, 'h) dresult" where
  "try_extensions 0 body pos ext d =
     (if ext \<noteq> 0 \<and> pos = bytes_left (dstream d) then NoResult else Ok () d)"
| "try_extensions (Suc k) body pos ext d =
     (if ext \<noteq> 0 \<and> pos = bytes_left (dstream d)
      then bindo (body ext d) (\<lambda>_ d. try_extensions k body pos (rd64 (dmem d) (ext + 16)) d)
      else Ok () d)"

definition decode_extension :: "nat \<Rightarrow> ('s, 'h) dec_env \<Rightarrow> ('s, 'h) msg_decoder \<Rightarrow>
    ('s, 'h) msg_decoder \<Rightarrow> u32 \<Rightarrow> u32 \<Rightarrow> pb_field_iter \<Rightarrow> ('s, 'h) dstate \<Rightarrow> ('s, 'h) dresult" where
  "decode_extension n env dec noinit tag wire_type it d =
     try_extensions n
       (\<lambda>ext d. let decp = rd64 (dmem d) (rd64 (dmem d) ext) in
          if decp \<noteq> 0 then ext_decode_cb env decp ext tag wire_type d
          else default_extension_decoder n env dec noinit ext tag wire_type d)
       (bytes_left (dstream d)) (rd64 (dmem d) (pData it)) d"

fun ext_find_loop :: "nat \<Rightarrow> nat \<Rightarrow> pb_field_iter \<Rightarrow> (bool \<times> pb_field_iter) option" where
  "ext_find_loop 0 start it = None"
| "ext_find_loop (Suc n) start it =
     (if PB_LTYPE (ftype (ifield it)) = PB_LTYPE_EXTENSION then Some (True, it)
      else let it' = snd (pb_field_iter_next it) in
           if ipos it' = start then Some (False, it') else ext_find_loop n start it')"

definition find_extension_field :: "pb_field_iter \<Rightarrow> (bool \<times> pb_field_iter) option" where
  "find_extension_field it = ext_find_loop (Suc (length (istart it))) (ipos it) it"

section \<open>Messages\<close>

text \<open>
  The local variables of \<open>pb_decode_noinit\<close> that live across its loop. \<open>seen\<close> is the array
  \<open>fields_seen\<close> of two words; \<open>fixed_count_size\<close> is in memory, at \<open>fixed_count_addr\<close>.
\<close>

record dloop =
  lit :: pb_field_iter
  seen :: "u32 list"
  ext_start :: u32
  fixed_count_field :: "nat option"

abbreviation PB_MAX_REQUIRED_FIELDS :: u32 where "PB_MAX_REQUIRED_FIELDS \<equiv> 64"

definition mark_seen :: "u32 \<Rightarrow> u32 list \<Rightarrow> u32 list" where
  "mark_seen i ws = (let w = unat (drop_bit 5 i) in
     ws[w := ws ! w OR push_bit (unat (i AND 31)) 1])"

definition all_seen :: "u32 \<Rightarrow> u32 list \<Rightarrow> bool" where
  "all_seen count ws \<longleftrightarrow>
     (\<forall>i<unat (drop_bit 5 count). ws ! i = - 1) \<and>
     (count AND 31 \<noteq> 0 \<longrightarrow>
        ws ! unat (drop_bit 5 count) = drop_bit (unat (32 - (count AND 31))) (- 1))"

text \<open>A field that the table has no entry for: an extension field or skipped data.\<close>

definition decode_unknown :: "nat \<Rightarrow> ('s, 'h) dec_env \<Rightarrow> ('s, 'h) msg_decoder \<Rightarrow> ('s, 'h) msg_decoder \<Rightarrow>
    u32 \<Rightarrow> u32 \<Rightarrow> dloop \<Rightarrow> ('s, 'h) dstate \<Rightarrow> (dloop, ('s, 'h) dstate) outcome" where
  "decode_unknown n env dec noinit tag wire_type st d =
     (let skip = (\<lambda>st d. bindo (on_stream (\<lambda>s. pb_skip_field s wire_type) d) (\<lambda>_ d. Ok st d)) in
      if ext_start st \<le> tag
      then (case find_extension_field (lit st) of
          None \<Rightarrow> NoResult
        | Some (found, it) \<Rightarrow>
            (let st = st\<lparr>lit := it, ext_start := (if found then ftag (ifield it) else - 1)\<rparr> in
             if ext_start st \<le> tag
             then bindo (decode_extension n env dec noinit tag wire_type it d) (\<lambda>_ d'.
                    if bytes_left (dstream d') \<noteq> bytes_left (dstream d) then Ok st d' else skip st d')
             else skip st d))
      else skip st d)"

text \<open>
  A repeated field without a counter in the struct is counted in the local \<open>fixed_count_size\<close>, for
  one such field at a time.
\<close>

definition use_fixed_count :: "nat \<Rightarrow> ('s, 'h) dec_env \<Rightarrow> dloop \<Rightarrow> ('s, 'h) dstate \<Rightarrow>
    (dloop, ('s, 'h) dstate) outcome" where
  "use_fixed_count n env st d =
     (let it = lit st; f = ifield it; fixed = fixed_count_addr env n;
          here = (\<lambda>st. st\<lparr>lit := it\<lparr>pSize := fixed\<rparr>\<rparr>);
          restart = (\<lambda>d. Ok (here (st\<lparr>fixed_count_field := Some (ipos it)\<rparr>)) (poke32 fixed 0 d)) in
      if PB_HTYPE (ftype f) = PB_HTYPE_REPEATED \<and> pSize it = pData it
      then (case fixed_count_field st of
              Some p \<Rightarrow>
                if p = ipos it then Ok (here st) d
                else if rd32 (dmem d) fixed \<noteq> array_size (field_at (istart it) p)
                then derror d ''wrong size for fixed count field''
                else restart d
            | None \<Rightarrow> restart d)
      else Ok st d)"

definition decode_known :: "nat \<Rightarrow> ('s, 'h) dec_env \<Rightarrow> ('s, 'h) msg_decoder \<Rightarrow> ('s, 'h) msg_decoder \<Rightarrow>
    u32 \<Rightarrow> dloop \<Rightarrow> ('s, 'h) dstate \<Rightarrow> (dloop, ('s, 'h) dstate) outcome" where
  "decode_known n env dec noinit wire_type st d =
     bindo (use_fixed_count n env st d) (\<lambda>st d.
       let it = lit st;
           ws = (if PB_HTYPE (ftype (ifield it)) = PB_HTYPE_REQUIRED
                    \<and> required_field_index it < PB_MAX_REQUIRED_FIELDS
                 then mark_seen (required_field_index it) (seen st) else seen st)
       in bindo (decode_field n env dec noinit wire_type it d)
            (\<lambda>it d. Ok (st\<lparr>seen := ws, lit := it\<rparr>) d))"

definition decode_one :: "nat \<Rightarrow> ('s, 'h) dec_env \<Rightarrow> ('s, 'h) msg_decoder \<Rightarrow> ('s, 'h) msg_decoder \<Rightarrow>
    u32 \<Rightarrow> u32 \<Rightarrow> dloop \<Rightarrow> ('s, 'h) dstate \<Rightarrow> (dloop, ('s, 'h) dstate) outcome" where
  "decode_one n env dec noinit tag wire_type st d =
     (case pb_field_iter_find (lit st) tag of
        None \<Rightarrow> NoResult
      | Some (True, it) \<Rightarrow> decode_known n env dec noinit wire_type (st\<lparr>lit := it\<rparr>) d
      | Some (False, it) \<Rightarrow> decode_unknown n env dec noinit tag wire_type (st\<lparr>lit := it\<rparr>) d)"

text \<open>
  The loop over the fields on the wire. Every round takes the tag off the stream; a user
  callback that gives back more than that would keep the loop from ending, which is
  \<open>NoResult\<close>.
\<close>

function decode_loop :: "nat \<Rightarrow> ('s, 'h) dec_env \<Rightarrow> ('s, 'h) msg_decoder \<Rightarrow> ('s, 'h) msg_decoder \<Rightarrow>
    dloop \<Rightarrow> ('s, 'h) dstate \<Rightarrow> (dloop, ('s, 'h) dstate) outcome" where
  "decode_loop n env dec noinit st d =
     (if bytes_left (dstream d) = 0 then Ok st d
      else (case pb_decode_tag (dstream d) of
          (Fail s, eof) \<Rightarrow>
            if eof then Ok st (d\<lparr>dstream := s\<rparr>) else Fail (d\<lparr>dstream := s\<rparr>)
        | (NoResult, eof) \<Rightarrow> NoResult
        | (Ok (wire_type, tag) s, eof) \<Rightarrow>
            bindo (decode_one n env dec noinit tag wire_type st (d\<lparr>dstream := s\<rparr>)) (\<lambda>st' d'.
              if bytes_left (dstream d') < bytes_left (dstream d)
              then decode_loop n env dec noinit st' d' else NoResult)))"
  by pat_completeness auto
termination
  by (relation "measure (\<lambda>(n, env, dec, noinit, st, d). unat (bytes_left (dstream d)))")
    (auto simp: word_less_nat_alt)

declare decode_loop.simps [simp del]

text \<open>
  After the loop the required fields are counted by walking the iterator to the end of the
  table, which wraps it to the first entry.
\<close>

definition required_count :: "pb_field_iter \<Rightarrow> u32" where
  "required_count it =
     (let end_it = last (visits it); after = snd (pb_field_iter_next end_it);
          c = required_field_index end_it;
          c = (if PB_HTYPE (ftype (ifield end_it)) = PB_HTYPE_REQUIRED \<and> ftag (ifield after) \<noteq> 0
               then c + 1 else c)
      in if PB_MAX_REQUIRED_FIELDS < c then PB_MAX_REQUIRED_FIELDS else c)"

definition finish_message :: "u64 \<Rightarrow> dloop \<Rightarrow> ('s, 'h) dstate \<Rightarrow> ('s, 'h) dresult" where
  "finish_message fixed st d =
     (if (case fixed_count_field st of None \<Rightarrow> False
          | Some p \<Rightarrow> rd32 (dmem d) fixed \<noteq> array_size (field_at (istart (lit st)) p))
      then derror d ''wrong size for fixed count field''
      else let c = required_count (lit st) in
           if 0 < c \<and> \<not> all_seen c (seen st) then derror d ''missing required field''
           else Ok () d)"

definition noinit_body :: "nat \<Rightarrow> ('s, 'h) dec_env \<Rightarrow> ('s, 'h) msg_decoder \<Rightarrow> ('s, 'h) msg_decoder \<Rightarrow>
    ('s, 'h) msg_decoder" where
  "noinit_body n env dec noinit fs dest d =
     (let fixed = fixed_count_addr env n;
          st = \<lparr>lit = snd (pb_field_iter_begin fs dest), seen = [0, 0], ext_start = 0,
                fixed_count_field = None\<rparr>
      in bindo (decode_loop n env dec noinit st (poke32 fixed 0 d)) (\<lambda>st d. finish_message fixed st d))"

text \<open>\<open>pb_decode\<close> sets the defaults, decodes, and releases what it allocated if that failed.\<close>

definition init_and_release :: "nat \<Rightarrow> ('s, 'h) dec_env \<Rightarrow> ('s, 'h) msg_decoder \<Rightarrow> ('s, 'h) msg_decoder" where
  "init_and_release n env noinit fs dest d =
     bindo (pb_message_set_to_defaults n env fs dest d) (\<lambda>_ d.
       case noinit fs dest d of
         Ok _ d \<Rightarrow> Ok () d
       | Fail d \<Rightarrow> bindo (pb_release n env fs dest d) (\<lambda>_ d. Fail d)
       | NoResult \<Rightarrow> NoResult)"

fun pb_decode_noinit :: "nat \<Rightarrow> ('s, 'h) dec_env \<Rightarrow> pb_fields \<Rightarrow> u64 \<Rightarrow> ('s, 'h) dstate \<Rightarrow> ('s, 'h) dresult" where
  "pb_decode_noinit 0 env fs dest d = NoResult"
| "pb_decode_noinit (Suc n) env fs dest d =
     (let noinit = (\<lambda>fs dest d. pb_decode_noinit n env fs dest d)
      in noinit_body (Suc n) env (init_and_release n env noinit) noinit fs dest d)"

definition pb_decode :: "nat \<Rightarrow> ('s, 'h) dec_env \<Rightarrow> pb_fields \<Rightarrow> u64 \<Rightarrow> ('s, 'h) dstate \<Rightarrow> ('s, 'h) dresult" where
  "pb_decode n env = init_and_release n env (pb_decode_noinit n env)"

definition pb_decode_delimited_noinit :: "nat \<Rightarrow> ('s, 'h) dec_env \<Rightarrow> pb_fields \<Rightarrow> u64 \<Rightarrow>
    ('s, 'h) dstate \<Rightarrow> ('s, 'h) dresult" where
  "pb_decode_delimited_noinit n env fs dest d =
     bindo (on_stream pb_make_string_substream d) (\<lambda>sub d.
       on_substream (pb_decode_noinit n env fs dest) d sub)"

definition pb_decode_delimited :: "nat \<Rightarrow> ('s, 'h) dec_env \<Rightarrow> pb_fields \<Rightarrow> u64 \<Rightarrow>
    ('s, 'h) dstate \<Rightarrow> ('s, 'h) dresult" where
  "pb_decode_delimited n env fs dest d =
     bindo (on_stream pb_make_string_substream d) (\<lambda>sub d.
       on_substream (pb_decode n env fs dest) d sub)"

definition pb_decode_nullterminated :: "nat \<Rightarrow> ('s, 'h) dec_env \<Rightarrow> pb_fields \<Rightarrow> u64 \<Rightarrow>
    ('s, 'h) dstate \<Rightarrow> ('s, 'h) dresult" where
  "pb_decode_nullterminated n env fs dest d = pb_decode n env fs dest d"

end
