(* ===== verification/Nanopb_Decode_Props.thy ===== *)
theory Nanopb_Decode_Props
  imports Nanopb_Decode
begin

text \<open>
  Properties of the message decoder of nanopb.
\<close>

text \<open>An environment without descriptors, allocation and callbacks, for the witnesses.\<close>

definition plain_env :: "(unit, unit) dec_env" where
  "plain_env = \<lparr>ddescs = (\<lambda>_. []), pb_realloc = (\<lambda>h m p n. (0, h, m)), pb_free = (\<lambda>h m p. (h, m)),
     decode_cb = (\<lambda>_ _ _ d. Fail d), ext_decode_cb = (\<lambda>_ _ _ _ d. Fail d), fixed_count_addr = (\<lambda>_. 0x100)\<rparr>"

section \<open>Allocation\<close>

lemma div_less_mult_iff:
  fixes a d m :: nat
  assumes "0 < a"
  shows "m div a < d \<longleftrightarrow> m < d * a"
  using assms by (simp add: div_less_iff_less_mult)

text \<open>
  C36: The overflow check of allocate_field is exact. realloc is asked for array_size * data_size
  bytes as a product of integers: the request fails with "size too large" if that product does
  not fit in size_t and, for sizes other than 0, in no other case.
\<close>

theorem allocate_field_exact:
  "allocate_field env p dsize asize d =
     (if dsize = 0 \<or> asize = 0 then derror d ''invalid size''
      else if 2 ^ 64 \<le> unat asize * unat dsize then derror d ''size too large''
      else (case pb_realloc env (dheap d) (dmem d) (rd64 (dmem d) p) (of_nat (unat asize * unat dsize)) of
              (ptr, h, m) \<Rightarrow>
                if ptr = 0 then derror (d\<lparr>dheap := h, dmem := m\<rparr>) ''realloc failed''
                else Ok () (poke64 p ptr (d\<lparr>dheap := h, dmem := m\<rparr>))))"
proof (cases "dsize = 0 \<or> asize = 0")
  case True
  then show ?thesis by (simp add: allocate_field_def)
next
  case False
  have pos: "0 < unat asize" using False by (simp add: unat_gt_0)
  let ?big = "((push_bit 32 1 :: u64) \<le> dsize \<or> push_bit 32 1 \<le> asize) \<and> (- 1 :: u64) div asize < dsize"
  have div: "(- 1 :: u64) div asize < dsize \<longleftrightarrow> 2 ^ 64 \<le> unat asize * unat dsize"
  proof -
    have "unat ((- 1 :: u64) div asize) = (2 ^ 64 - 1) div unat asize"
      by (simp add: unat_div_distrib unsigned_minus_1_eq_mask mask_eq_exp_minus_1)
    then show ?thesis using div_less_mult_iff[OF pos, of "2 ^ 64 - 1" "unat dsize"]
      by (simp add: word_less_nat_alt mult.commute) linarith
  qed
  have "unat asize * unat dsize < 2 ^ 64"
    if "\<not> ((push_bit 32 1 :: u64) \<le> dsize \<or> push_bit 32 1 \<le> asize)"
  proof -
    have "unat asize < 2 ^ 32" "unat dsize < 2 ^ 32" using that by (auto simp: word_le_nat_alt not_le)
    then have "unat asize * unat dsize < 2 ^ 32 * 2 ^ 32" by (intro mult_strict_mono) auto
    then show ?thesis by simp
  qed
  then have "?big \<longleftrightarrow> 2 ^ 64 \<le> unat asize * unat dsize"
    unfolding div by (metis not_le)
  then show ?thesis using False
    by (simp add: allocate_field_def Let_def split: prod.splits)
qed

section \<open>Round trips of the fields of fixed size\<close>


text \<open>Narrowing a value that was widened from at most that many bits changes nothing.\<close>

lemma narrow_signed:
  "scast (ucast (scast (w :: u8) :: u64) :: u8) = (scast w :: u64)"
  "scast (ucast (scast (w' :: u16) :: u64) :: u16) = (scast w' :: u64)"
  "scast (ucast (scast (w'' :: u32) :: u64) :: u32) = (scast w'' :: u64)"
  "scast (ucast (scast (w :: u8) :: u64) :: u32) = (scast w :: u64)"
  "scast (ucast (scast (w' :: u16) :: u64) :: u32) = (scast w' :: u64)"
  by (rule bit_word_eqI; auto simp: bit_simps min_def)+

lemma narrow_unsigned:
  "ucast (ucast (ucast (w :: u8) :: u64) :: u8) = (ucast w :: u64)"
  "ucast (ucast (ucast (w' :: u16) :: u64) :: u16) = (ucast w' :: u64)"
  "ucast (ucast (ucast (w'' :: u32) :: u64) :: u32) = (ucast w'' :: u64)"
  by (rule bit_word_eqI; auto simp: bit_simps min_def dest: bit_imp_le_length)+

text \<open>What a decoder stores when the stream holds the value \<open>v\<close>.\<close>

lemma dec_int_stores:
  assumes "on_stream pb_decode_varint d = Ok v d1"
  shows "data_size f = 8 \<Longrightarrow> pb_dec_varint f dest d = Ok () (poke dest (le_bytes 8 v) d1)"
    and "data_size f = 4 \<Longrightarrow> scast (ucast v :: u32) = v \<Longrightarrow>
      pb_dec_varint f dest d = Ok () (poke dest (le_bytes 4 v) d1)"
    and "data_size f = 2 \<Longrightarrow> scast (ucast v :: u32) = v \<Longrightarrow> scast (ucast v :: u16) = v \<Longrightarrow>
      pb_dec_varint f dest d = Ok () (poke dest (le_bytes 2 v) d1)"
    and "data_size f = 1 \<Longrightarrow> scast (ucast v :: u32) = v \<Longrightarrow> scast (ucast v :: u8) = v \<Longrightarrow>
      pb_dec_varint f dest d = Ok () (poke dest (le_bytes 1 v) d1)"
    and "data_size f = 8 \<Longrightarrow> pb_dec_uvarint f dest d = Ok () (poke dest (le_bytes 8 v) d1)"
    and "data_size f = 4 \<Longrightarrow> ucast (ucast v :: u32) = v \<Longrightarrow>
      pb_dec_uvarint f dest d = Ok () (poke dest (le_bytes 4 v) d1)"
    and "data_size f = 2 \<Longrightarrow> ucast (ucast v :: u16) = v \<Longrightarrow>
      pb_dec_uvarint f dest d = Ok () (poke dest (le_bytes 2 v) d1)"
    and "data_size f = 1 \<Longrightarrow> ucast (ucast v :: u8) = v \<Longrightarrow>
      pb_dec_uvarint f dest d = Ok () (poke dest (le_bytes 1 v) d1)"
  by (simp_all add: pb_dec_varint_def pb_dec_uvarint_def assms Let_def del: le_bytes.simps)

lemma dec_sint_stores:
  assumes "on_stream pb_decode_svarint d = Ok v d1"
  shows "data_size f = 8 \<Longrightarrow> pb_dec_svarint f dest d = Ok () (poke dest (le_bytes 8 v) d1)"
    and "data_size f = 4 \<Longrightarrow> scast (ucast v :: u32) = v \<Longrightarrow>
      pb_dec_svarint f dest d = Ok () (poke dest (le_bytes 4 v) d1)"
    and "data_size f = 2 \<Longrightarrow> scast (ucast v :: u16) = v \<Longrightarrow>
      pb_dec_svarint f dest d = Ok () (poke dest (le_bytes 2 v) d1)"
    and "data_size f = 1 \<Longrightarrow> scast (ucast v :: u8) = v \<Longrightarrow>
      pb_dec_svarint f dest d = Ok () (poke dest (le_bytes 1 v) d1)"
  by (simp_all add: pb_dec_svarint_def assms Let_def del: le_bytes.simps)

definition reads_back :: "'s encoder \<Rightarrow> ('t, 'h) decoder \<Rightarrow> mem \<Rightarrow> pb_field \<Rightarrow> u64 \<Rightarrow> u64 \<Rightarrow> bool" where
  "reads_back enc dec m f src dest \<longleftrightarrow> (\<exists>bs. emits (\<lambda>s. enc f s src) bs \<and>
     (\<forall>lim rest d. ready (ibuf_content lim) (dstream d) (bs @ rest) \<longrightarrow>
        (\<exists>t. dec f dest d = Ok () (poke dest (mem_read m src (unat (data_size f))) (d\<lparr>dstream := t\<rparr>))
           \<and> consumed (ibuf_content lim) (dstream d) (length bs) t)))"

lemma reads_back_varint:
  assumes "emits (\<lambda>s. enc f s src) (varint_enc v)"
    and "\<And>d d1. on_stream pb_decode_varint d = Ok v d1 \<Longrightarrow>
      dec f dest d = Ok () (poke dest (mem_read m src (unat (data_size f))) d1)"
  shows "reads_back enc dec m f src dest"
  unfolding reads_back_def
proof (intro exI[of _ "varint_enc v"] conjI allI impI)
  fix lim rest and d :: "('b, 'c) dstate"
  assume "ready (ibuf_content lim) (dstream d) (varint_enc v @ rest)"
  then obtain t where t: "pb_decode_varint (dstream d) = Ok v t"
    "consumed (ibuf_content lim) (dstream d) (length (varint_enc v)) t"
    using buf_source.decode_varint_enc by blast
  then show "\<exists>t. dec f dest d = Ok () (poke dest (mem_read m src (unat (data_size f))) (d\<lparr>dstream := t\<rparr>))
           \<and> consumed (ibuf_content lim) (dstream d) (length (varint_enc v)) t"
    using assms(2)[of d "d\<lparr>dstream := t\<rparr>"] by (auto simp: on_stream_def)
qed (rule assms(1))

lemma reads_back_svarint:
  assumes "emits (\<lambda>s. enc f s src) (varint_enc (zigzag v))"
    and "\<And>d d1. on_stream pb_decode_svarint d = Ok v d1 \<Longrightarrow>
      dec f dest d = Ok () (poke dest (mem_read m src (unat (data_size f))) d1)"
  shows "reads_back enc dec m f src dest"
  unfolding reads_back_def
proof (intro exI[of _ "varint_enc (zigzag v)"] conjI allI impI)
  fix lim rest and d :: "('b, 'c) dstate"
  assume "ready (ibuf_content lim) (dstream d) (varint_enc (zigzag v) @ rest)"
  then obtain t where t: "pb_decode_svarint (dstream d) = Ok v t"
    "consumed (ibuf_content lim) (dstream d) (length (varint_enc (zigzag v))) t"
    using buf_source.decode_svarint_enc by blast
  then show "\<exists>t. dec f dest d = Ok () (poke dest (mem_read m src (unat (data_size f))) (d\<lparr>dstream := t\<rparr>))
           \<and> consumed (ibuf_content lim) (dstream d) (length (varint_enc (zigzag v))) t"
    using assms(2)[of d "d\<lparr>dstream := t\<rparr>"] by (auto simp: on_stream_def)
qed (rule assms(1))

lemma le_bytes_byte: "le_bytes (Suc 0) (rd8 m a) = [m a]"
  by (simp add: rd8_def)

lemmas int_field_simps =
  pb_enc_varint_def pb_enc_uvarint_def pb_enc_svarint_def emits_varint emits_svarint
  dec_int_stores dec_sint_stores le_bytes_reads le_bytes_byte le_bytes_scast le_bytes_ucast
  narrow_signed narrow_unsigned

lemma int_size_cases:
  assumes "data_size f \<in> {1, 2, 4, 8}"
  obtains "data_size f = 8" | "data_size f = 4" | "data_size f = 2" | "data_size f = 1"
  using assms by auto

lemma varint_reads_back:
  assumes "data_size f \<in> {1, 2, 4, 8}"
  shows "reads_back (pb_enc_varint m) pb_dec_varint m f src dest"
  using assms
proof (cases rule: int_size_cases)
  case 1
  then show ?thesis by (intro reads_back_varint[where v = "rd64 m src"])
      (simp_all add: int_field_simps del: le_bytes.simps)
next
  case 2
  then show ?thesis by (intro reads_back_varint[where v = "scast (rd32 m src)"])
      (simp_all add: int_field_simps del: le_bytes.simps)
next
  case 3
  then show ?thesis by (intro reads_back_varint[where v = "scast (rd16 m src)"])
      (simp_all add: int_field_simps del: le_bytes.simps)
next
  case 4
  then show ?thesis by (intro reads_back_varint[where v = "scast (rd8 m src)"])
      (simp_all add: int_field_simps del: le_bytes.simps)
qed

lemma uvarint_reads_back:
  assumes "data_size f \<in> {1, 2, 4, 8}"
  shows "reads_back (pb_enc_uvarint m) pb_dec_uvarint m f src dest"
  using assms
proof (cases rule: int_size_cases)
  case 1
  then show ?thesis by (intro reads_back_varint[where v = "rd64 m src"])
      (simp_all add: int_field_simps del: le_bytes.simps)
next
  case 2
  then show ?thesis by (intro reads_back_varint[where v = "ucast (rd32 m src)"])
      (simp_all add: int_field_simps del: le_bytes.simps)
next
  case 3
  then show ?thesis by (intro reads_back_varint[where v = "ucast (rd16 m src)"])
      (simp_all add: int_field_simps del: le_bytes.simps)
next
  case 4
  then show ?thesis by (intro reads_back_varint[where v = "ucast (rd8 m src)"])
      (simp_all add: int_field_simps del: le_bytes.simps)
qed

lemma svarint_reads_back:
  assumes "data_size f \<in> {1, 2, 4, 8}"
  shows "reads_back (pb_enc_svarint m) pb_dec_svarint m f src dest"
  using assms
proof (cases rule: int_size_cases)
  case 1
  then show ?thesis by (intro reads_back_svarint[where v = "rd64 m src"])
      (simp_all add: int_field_simps del: le_bytes.simps)
next
  case 2
  then show ?thesis by (intro reads_back_svarint[where v = "scast (rd32 m src)"])
      (simp_all add: int_field_simps del: le_bytes.simps)
next
  case 3
  then show ?thesis by (intro reads_back_svarint[where v = "scast (rd16 m src)"])
      (simp_all add: int_field_simps del: le_bytes.simps)
next
  case 4
  then show ?thesis by (intro reads_back_svarint[where v = "scast (rd8 m src)"])
      (simp_all add: int_field_simps del: le_bytes.simps)
qed

lemma fixed_reads_back:
  "data_size f = 4 \<Longrightarrow> reads_back (pb_enc_fixed32 m) pb_dec_fixed32 m f src dest"
  "data_size f = 8 \<Longrightarrow> reads_back (pb_enc_fixed64 m) pb_dec_fixed64 m f src dest"
proof -
  assume f: "data_size f = 4"
  show "reads_back (pb_enc_fixed32 m) pb_dec_fixed32 m f src dest"
    unfolding reads_back_def pb_dec_fixed32_def on_stream_def
    using buf_source.decode_fixed32_enc
    by (intro exI[of _ "le_bytes 4 (rd32 m src)"] conjI emits_enc_fixed32)
      (fastforce simp: poke_def poke32_def wr32_def le_bytes_reads f simp del: le_bytes.simps)
next
  assume f: "data_size f = 8"
  show "reads_back (pb_enc_fixed64 m) pb_dec_fixed64 m f src dest"
    unfolding reads_back_def pb_dec_fixed64_def on_stream_def
    using buf_source.decode_fixed64_enc
    by (intro exI[of _ "le_bytes 8 (rd64 m src)"] conjI emits_enc_fixed64)
      (fastforce simp: poke_def poke64_def wr64_def le_bytes_reads f simp del: le_bytes.simps)
qed

text \<open>
  C31: Integer fields survive the wire. For every integer field type, the encoder the table
  PB_ENCODERS names for it emits bytes from which the decoder that PB_DECODERS names stores
  the very bytes of the field again, reading exactly what was emitted, whatever follows.
\<close>

theorem int_field_roundtrip:
  assumes "lt \<in> {PB_LTYPE_VARINT, PB_LTYPE_UVARINT, PB_LTYPE_SVARINT} \<and> data_size f \<in> {1, 2, 4, 8} \<or>
    lt = PB_LTYPE_FIXED32 \<and> data_size f = 4 \<or> lt = PB_LTYPE_FIXED64 \<and> data_size f = 8"
  shows "\<exists>bs. emits (\<lambda>s. PB_ENCODERS env enc lt f s src) bs \<and>
    (\<forall>lim rest d. ready (ibuf_content lim) (dstream d) (bs @ rest) \<longrightarrow>
      (\<exists>t. PB_DECODERS denv dec noinit lt f dest d =
             Ok () (poke dest (mem_read (emem env) src (unat (data_size f))) (d\<lparr>dstream := t\<rparr>))
         \<and> consumed (ibuf_content lim) (dstream d) (length bs) t))"
proof -
  have "reads_back (PB_ENCODERS env enc lt) (PB_DECODERS denv dec noinit lt) (emem env) f src dest"
    using assms by (elim disjE conjE insertE emptyE)
      (simp_all add: PB_ENCODERS_def PB_DECODERS_def varint_reads_back uvarint_reads_back
        svarint_reads_back fixed_reads_back)
  then show ?thesis unfolding reads_back_def .
qed

lemma int_field_roundtrip_witness:
  "\<forall>(denv :: (unit, unit) dec_env) dec noinit.
    \<exists>bs. emits (\<lambda>s :: obuf pb_ostream. PB_ENCODERS sample_env (pb_encode 1 sample_env) PB_LTYPE_SVARINT
      (sample_desc ! 0) s 0x1000) bs \<and>
    (\<forall>lim rest d. ready (ibuf_content lim) (dstream (d :: (unit, unit) dstate)) (bs @ rest) \<longrightarrow>
      (\<exists>t. PB_DECODERS denv dec noinit PB_LTYPE_SVARINT (sample_desc ! 0) 0x2000 d =
         Ok () (poke 0x2000 (mem_read (emem (sample_env :: obuf enc_env)) 0x1000 4) (d\<lparr>dstream := t\<rparr>))))"
proof -
  have h: "PB_LTYPE_SVARINT \<in> {PB_LTYPE_VARINT, PB_LTYPE_UVARINT, PB_LTYPE_SVARINT}
      \<and> data_size (sample_desc ! 0) \<in> {1, 2, 4, 8} \<or>
    PB_LTYPE_SVARINT = PB_LTYPE_FIXED32 \<and> data_size (sample_desc ! 0) = 4 \<or>
    PB_LTYPE_SVARINT = PB_LTYPE_FIXED64 \<and> data_size (sample_desc ! 0) = 8"
    by (simp add: sample_desc_def)
  have sz: "unat (data_size (sample_desc ! 0)) = 4" by (simp add: sample_desc_def)
  show ?thesis
  proof (intro allI)
    fix denv :: "(unit, unit) dec_env" and dec noinit
    show "\<exists>bs. emits (\<lambda>s :: obuf pb_ostream. PB_ENCODERS sample_env (pb_encode 1 sample_env) PB_LTYPE_SVARINT
        (sample_desc ! 0) s 0x1000) bs \<and>
      (\<forall>lim rest d. ready (ibuf_content lim) (dstream (d :: (unit, unit) dstate)) (bs @ rest) \<longrightarrow>
        (\<exists>t. PB_DECODERS denv dec noinit PB_LTYPE_SVARINT (sample_desc ! 0) 0x2000 d =
           Ok () (poke 0x2000 (mem_read (emem (sample_env :: obuf enc_env)) 0x1000 4) (d\<lparr>dstream := t\<rparr>))))"
      using int_field_roundtrip[OF h, where src = "0x1000" and dest = "0x2000"
        and env = "sample_env :: obuf enc_env" and enc = "pb_encode 1 sample_env"
        and denv = denv and dec = dec and noinit = noinit] unfolding sz by blast
  qed
qed

end
