(* ===== verification/Nanopb_Required.thy ===== *)
theory Nanopb_Required
  imports Nanopb_Decode_Props
begin

text \<open>
  The bookkeeping of required fields in \<open>pb_decode_noinit\<close>: where the iterator stands while a
  message is decoded, which bits of \<open>fields_seen\<close> are set, and that a message is accepted only
  if the tags of its required fields were on the wire.
\<close>

section \<open>The iterator during decoding\<close>

text \<open>
  The iterator stands on an entry of the table; its \<open>pSize\<close> may have been redirected to the
  local counter, at a repeated field only.
\<close>

definition on_table :: "pb_fields \<Rightarrow> u64 \<Rightarrow> pb_field_iter \<Rightarrow> bool" where
  "on_table fs dest it \<longleftrightarrow> (\<exists>p<length fs. \<exists>x. it = (iter_at fs dest p)\<lparr>pSize := x\<rparr>
     \<and> (PB_HTYPE (ftype (fs ! p)) = PB_HTYPE_REPEATED \<or> x = pSize (iter_at fs dest p)))"

lemma on_tableI:
  "p < length fs \<Longrightarrow> it = (iter_at fs dest p)\<lparr>pSize := x\<rparr> \<Longrightarrow>
     PB_HTYPE (ftype (fs ! p)) = PB_HTYPE_REPEATED \<or> x = pSize (iter_at fs dest p) \<Longrightarrow> on_table fs dest it"
  unfolding on_table_def by blast

lemma on_tableE:
  assumes "on_table fs dest it"
  obtains p x where "p < length fs" "it = (iter_at fs dest p)\<lparr>pSize := x\<rparr>"
    "PB_HTYPE (ftype (fs ! p)) = PB_HTYPE_REPEATED \<or> x = pSize (iter_at fs dest p)"
  using assms unfolding on_table_def by blast

lemma same_pSize: "(it :: pb_field_iter)\<lparr>pSize := pSize it\<rparr> = it"
  by simp

lemma on_table_at: "p < length fs \<Longrightarrow> on_table fs dest (iter_at fs dest p)"
  by (rule on_tableI[OF _ same_pSize[symmetric]]) blast+

lemma ifield_at: "wf_fields fs \<Longrightarrow> p < length fs \<Longrightarrow> ifield ((iter_at fs dest p)\<lparr>pSize := x\<rparr>) = fs ! p"
  by (simp add: iter_at_pos field_at_def)

lemma on_table_redirect:
  assumes "on_table fs dest it" and wf: "wf_fields fs"
    and rep: "PB_HTYPE (ftype (ifield it)) = PB_HTYPE_REPEATED"
  shows "on_table fs dest (it\<lparr>pSize := x\<rparr>)"
  using assms(1)
proof (cases rule: on_tableE)
  case (1 p y)
  then show ?thesis using rep ifield_at[OF wf 1(1), where dest = dest and x = y]
    by (intro on_tableI[where p = p and x = x]) simp_all
qed

lemma next_ignores_pSize:
  assumes "PB_HTYPE (ftype (ifield it)) \<noteq> PB_HTYPE_ONEOF" and "ftag (ifield it) \<noteq> 0"
  shows "pb_field_iter_next (it\<lparr>pSize := x\<rparr>) = pb_field_iter_next it"
  using assms by (simp add: pb_field_iter_next_def Let_def)

lemma on_table_position:
  assumes "on_table fs dest it" and wf: "wf_fields fs"
  obtains p where "p < length fs" "ifield it = fs ! p"
    "required_field_index it = required_field_index (iter_at fs dest p)"
    "pb_field_iter_next it = pb_field_iter_next (iter_at fs dest p)"
proof -
  obtain p x where p: "p < length fs" and it: "it = (iter_at fs dest p)\<lparr>pSize := x\<rparr>"
    and x: "PB_HTYPE (ftype (fs ! p)) = PB_HTYPE_REPEATED \<or> x = pSize (iter_at fs dest p)"
    using assms(1) by (rule on_tableE)
  have f: "ifield (iter_at fs dest p) = fs ! p" by (simp add: iter_at_pos[OF wf p] field_at_def p)
  have "pb_field_iter_next it = pb_field_iter_next (iter_at fs dest p)"
  proof (cases "x = pSize (iter_at fs dest p)")
    case False
    then have "PB_HTYPE (ftype (ifield (iter_at fs dest p))) \<noteq> PB_HTYPE_ONEOF" using x f by simp
    moreover have "ftag (ifield (iter_at fs dest p)) \<noteq> 0"
      using f wf p by (simp add: wf_fields_def)
    ultimately show ?thesis unfolding it by (rule next_ignores_pSize)
  qed (simp add: it)
  moreover have "ifield it = fs ! p" using f it by simp
  moreover have "required_field_index it = required_field_index (iter_at fs dest p)" by (simp add: it)
  ultimately show thesis using that p by blast
qed

lemma on_table_next:
  assumes "on_table fs dest it" and wf: "wf_fields fs"
  shows "on_table fs dest (snd (pb_field_iter_next it))"
proof -
  obtain p where p: "p < length fs" and nx: "pb_field_iter_next it = pb_field_iter_next (iter_at fs dest p)"
    by (rule on_table_position[OF assms])
  then have "0 < length fs" by linarith
  then show ?thesis unfolding nx iter_next_at_snd[OF wf p]
    by (intro on_table_at) simp
qed

lemma on_table_find_loop:
  "iter_find_loop n start tag it = Some (r, it') \<Longrightarrow> on_table fs dest it \<Longrightarrow> wf_fields fs \<Longrightarrow>
     on_table fs dest it' \<and> (r \<longrightarrow> ftag (ifield it') = tag)"
proof (induction n arbitrary: it)
  case (Suc n)
  then show ?case using on_table_next[OF Suc.prems(2,3)] by (auto simp: Let_def split: if_splits)
qed simp

lemma on_table_find:
  "pb_field_iter_find it tag = Some (r, it') \<Longrightarrow> on_table fs dest it \<Longrightarrow> wf_fields fs \<Longrightarrow>
     on_table fs dest it' \<and> (r \<longrightarrow> ftag (ifield it') = tag)"
  unfolding pb_field_iter_find_def by (rule on_table_find_loop)

lemma on_table_find_extension:
  "find_extension_field it = Some (r, it') \<Longrightarrow> on_table fs dest it \<Longrightarrow> wf_fields fs \<Longrightarrow>
     on_table fs dest it'"
proof -
  have "ext_find_loop n start it = Some (r, it') \<Longrightarrow> on_table fs dest it \<Longrightarrow> wf_fields fs \<Longrightarrow>
      on_table fs dest it'" for n start
  proof (induction n arbitrary: it)
    case (Suc n)
    then show ?case using on_table_next[OF Suc.prems(2,3)] by (auto simp: Let_def split: if_splits)
  qed simp
  then show "find_extension_field it = Some (r, it') \<Longrightarrow> on_table fs dest it \<Longrightarrow> wf_fields fs \<Longrightarrow>
      on_table fs dest it'" unfolding find_extension_field_def .
qed

text \<open>Decoding a field moves the iterator to entries of the table only.\<close>

lemma on_table_release_union:
  assumes run: "pb_release_union_field n env it d = Ok it' d'" and on: "on_table fs dest it" and wf: "wf_fields fs"
  shows "on_table fs dest it'"
proof (cases "it' = it")
  case False
  let ?old = "rd32 (dmem d) (pSize it)"
  have ne: "?old \<noteq> 0" "?old \<noteq> ftag (ifield it)"
    using run False by (auto simp: pb_release_union_field_def Let_def split: if_splits)
  obtain it1 where 1: "pb_field_iter_find it ?old = Some (True, it1)"
    using run ne by (auto simp: pb_release_union_field_def Let_def derror_def split: option.splits prod.splits bool.splits)
  obtain d1 where "(case pb_field_iter_find it1 (ftag (ifield it)) of None \<Rightarrow> NoResult
      | Some (False, _) \<Rightarrow> derror d1 ''iterator error''
      | Some (True, it2) \<Rightarrow> Ok it2 (if PB_ATYPE (ftype (ifield it2)) = PB_ATYPE_POINTER
          then poke64 (pData it2) 0 d1 else d1)) = Ok it' d'"
    using run ne by (auto simp: pb_release_union_field_def Let_def 1)
  then have "pb_field_iter_find it1 (ftag (ifield it)) = Some (True, it')"
    by (auto simp: derror_def split: option.splits prod.splits bool.splits)
  then show ?thesis using on_table_find[OF _ _ wf] 1 on by blast
qed (use on in simp)

lemma on_table_decode_field:
  assumes "decode_field n env dec noinit wt it d = Ok it' d'" and "on_table fs dest it" and "wf_fields fs"
  shows "on_table fs dest it'"
  using assms on_table_release_union[OF _ assms(2,3)]
  by (auto simp: decode_field_def Let_def split: if_splits)

section \<open>Counting required fields\<close>

definition is_required :: "pb_field \<Rightarrow> bool" where
  "is_required f \<longleftrightarrow> PB_HTYPE (ftype f) = PB_HTYPE_REQUIRED"

definition required_before :: "pb_fields \<Rightarrow> nat \<Rightarrow> nat" where
  "required_before fs p = length (filter is_required (take p fs))"

lemma required_before_Suc:
  "p < length fs \<Longrightarrow> required_before fs (Suc p) = required_before fs p + (if is_required (fs ! p) then 1 else 0)"
  by (simp add: required_before_def take_Suc_conv_app_nth)

lemma required_before_mono: "p \<le> q \<Longrightarrow> required_before fs p \<le> required_before fs q"
  unfolding required_before_def
  by (metis filter_append le_add1 length_append min.absorb1 take_add take_take le_add_diff_inverse)

lemma required_before_le: "required_before fs p \<le> length fs"
  unfolding required_before_def by (rule le_trans[OF length_filter_le]) simp

lemma required_before_inj:
  assumes "p < length fs" "q < length fs" "is_required (fs ! p)" "is_required (fs ! q)"
    and "required_before fs p = required_before fs q"
  shows "p = q"
proof (rule ccontr)
  assume "p \<noteq> q"
  then consider "p < q" | "q < p" by linarith
  then show False
  proof cases
    case 1
    then show False using required_before_mono[of "Suc p" q fs] required_before_Suc[of p fs] assms by simp
  next
    case 2
    then show False using required_before_mono[of "Suc q" p fs] required_before_Suc[of q fs] assms by simp
  qed
qed

lemma iter_at_required_index:
  assumes wf: "wf_fields fs" and "p < length fs"
  shows "required_field_index (iter_at fs dest p) = of_nat (required_before fs p)"
  using assms(2)
proof (induction p)
  case 0
  then show ?case by (simp add: required_before_def)
next
  case (Suc p)
  then have p: "p < length fs" by simp
  have f: "field_at fs p = fs ! p" "field_at fs (Suc p) = fs ! Suc p" using Suc.prems by (auto simp: field_at_def)
  have t: "ftag (fs ! p) \<noteq> 0" "ftag (fs ! Suc p) \<noteq> 0" using wf Suc.prems by (auto simp: wf_fields_def)
  have "required_field_index (snd (pb_field_iter_next (iter_at fs dest p))) =
      required_field_index (iter_at fs dest p) + (if is_required (fs ! p) then 1 else 0)"
    by (simp add: pb_field_iter_next_def Let_def iter_at_pos[OF wf p] f t is_required_def)
  then show ?case using Suc.IH[OF p] required_before_Suc[OF p] by simp
qed

section \<open>The bits of fields_seen\<close>

lemma unat_drop5: "unat (drop_bit 5 (i :: u32)) = unat i div 32"
  by (simp add: unat_drop_bit del: drop_bit_Suc)

lemma unat_and31: "unat ((i :: u32) AND 31) = unat i mod 32"
proof -
  have "i AND 31 = take_bit 5 i" by (simp add: take_bit_eq_mask mask_eq_exp_minus_1)
  moreover have "unat (take_bit 5 i) = take_bit 5 (unat i)" by (rule unsigned_take_bit_eq)
  moreover have "take_bit 5 (unat i) = unat i mod 2 ^ 5" by (rule take_bit_eq_mod)
  ultimately show ?thesis by simp
qed

definition seen_bit :: "u32 list \<Rightarrow> nat \<Rightarrow> bool" where
  "seen_bit ws j \<longleftrightarrow> bit (ws ! (j div 32)) (j mod 32)"

lemma seen_bit_none: "\<not> seen_bit [0, 0] j" if "j < 64"
proof -
  have "j div 32 = 0 \<or> j div 32 = 1" using that by linarith
  then show ?thesis by (auto simp: seen_bit_def)
qed

lemma seen_bit_mark:
  assumes "length ws = 2" and "i < 64" and "j < 64"
  shows "seen_bit (mark_seen i ws) j \<longleftrightarrow> seen_bit ws j \<or> j = unat i"
proof -
  have i: "unat i < 64" using assms(2) by (simp add: word_less_nat_alt)
  then have w: "unat i div 32 < length ws" using assms(1) by simp
  have "bit (push_bit (unat i mod 32) 1 :: u32) (j mod 32) \<longleftrightarrow> j mod 32 = unat i mod 32"
    by (auto simp: bit_exp_iff)
  then show ?thesis
    using w div_mult_mod_eq[of j 32] div_mult_mod_eq[of "unat i" 32]
    by (cases "j div 32 = unat i div 32")
      (auto simp: seen_bit_def mark_seen_def Let_def unat_drop5 unat_and31 bit_or_iff)
qed

lemma all_seen_bit:
  assumes "all_seen c ws" and "j < unat c"
  shows "seen_bit ws j"
proof (cases "j div 32 < unat c div 32")
  case True
  then have "ws ! (j div 32) = - 1" using assms(1) by (simp add: all_seen_def unat_drop5)
  then show ?thesis by (simp add: seen_bit_def)
next
  case False
  have "j div 32 \<le> unat c div 32" using assms(2) by (intro div_le_mono) simp
  then have q: "j div 32 = unat c div 32" using False by simp
  then have r: "j mod 32 < unat c mod 32"
    using assms(2) div_mult_mod_eq[of j 32] div_mult_mod_eq[of "unat c" 32] by linarith
  then have "c AND 31 \<noteq> 0" using unat_and31[of c] by (metis not_less0 unat_0)
  then have e: "ws ! (j div 32) = drop_bit (unat (32 - (c AND 31))) (- 1)"
    using assms(1) q by (simp add: all_seen_def unat_drop5)
  have "unat (32 - (c AND 31)) = 32 - unat c mod 32"
    using unat_and31[of c] by (subst unat_sub) (simp_all add: word_le_nat_alt)
  then show ?thesis unfolding seen_bit_def e using r by (simp add: bit_drop_bit_eq bit_mask_iff)
qed

section \<open>The tags on the wire\<close>

text \<open>
  \<open>decode_trace \<dots> tags st d st' d'\<close>: the loop of \<open>pb_decode_noinit\<close> goes from \<open>st, d\<close> to its end in
  \<open>st', d'\<close>, and \<open>tags\<close> are the field numbers it reads from the stream, in order.
\<close>

inductive decode_trace :: "nat \<Rightarrow> ('s, 'h) dec_env \<Rightarrow> ('s, 'h) msg_decoder \<Rightarrow> ('s, 'h) msg_decoder \<Rightarrow>
    u32 list \<Rightarrow> dloop \<Rightarrow> ('s, 'h) dstate \<Rightarrow> dloop \<Rightarrow> ('s, 'h) dstate \<Rightarrow> bool"
  for n :: nat and env :: "('s, 'h) dec_env" and dec noinit :: "('s, 'h) msg_decoder" where
  trace_end: "bytes_left (dstream d) = 0 \<Longrightarrow> decode_trace n env dec noinit [] st d st d"
| trace_eof: "pb_decode_tag (dstream d) = (Fail s, True) \<Longrightarrow>
    decode_trace n env dec noinit [] st d st (d\<lparr>dstream := s\<rparr>)"
| trace_field: "pb_decode_tag (dstream d) = (Ok (wire_type, tag) s, eof) \<Longrightarrow>
    decode_one n env dec noinit tag wire_type st (d\<lparr>dstream := s\<rparr>) = Ok st1 d1 \<Longrightarrow>
    decode_trace n env dec noinit tags st1 d1 st' d' \<Longrightarrow>
    decode_trace n env dec noinit (tag # tags) st d st' d'"

lemma decode_loop_trace:
  "decode_loop n env dec noinit st d = Ok st' d' \<Longrightarrow> \<exists>tags. decode_trace n env dec noinit tags st d st' d'"
proof (induction n env dec noinit st d rule: decode_loop.induct)
  case (1 n env dec noinit st d)
  note step = decode_loop.simps[of n env dec noinit st d]
  show ?case
  proof (cases "bytes_left (dstream d) = 0")
    case True
    then show ?thesis using 1(2) step trace_end by fastforce
  next
    case False
    obtain r eof where t: "pb_decode_tag (dstream d) = (r, eof)" by fastforce
    show ?thesis
    proof (cases r)
      case (Ok v s)
      obtain wire_type tag where v: "v = (wire_type, tag)" by fastforce
      have t': "pb_decode_tag (dstream d) = (Ok (wire_type, tag) s, eof)" using t Ok v by simp
      obtain st1 d1 where one: "decode_one n env dec noinit tag wire_type st (d\<lparr>dstream := s\<rparr>) = Ok st1 d1"
        and lt: "bytes_left (dstream d1) < bytes_left (dstream d)"
        and rest: "decode_loop n env dec noinit st1 d1 = Ok st' d'"
        using 1(2) False step by (auto simp: t' split: if_splits)
      obtain tags where "decode_trace n env dec noinit tags st1 d1 st' d'"
        using "1.IH"[OF False t'[symmetric] refl refl one lt rest] by blast
      then show ?thesis using trace_field[OF t' one] by blast
    next
      case (Fail s)
      then show ?thesis using 1(2) False step t trace_eof by (fastforce split: if_splits)
    next
      case NoResult
      then show ?thesis using 1(2) False step t by simp
    qed
  qed
qed

definition seen_inv :: "pb_fields \<Rightarrow> u64 \<Rightarrow> u32 set \<Rightarrow> dloop \<Rightarrow> bool" where
  "seen_inv fs dest T st \<longleftrightarrow> on_table fs dest (lit st) \<and> length (seen st) = 2 \<and>
     (\<forall>j<64. seen_bit (seen st) j \<longrightarrow>
        (\<exists>p<length fs. is_required (fs ! p) \<and> required_before fs p = j \<and> ftag (fs ! p) \<in> T))"

lemma on_table_index:
  assumes "on_table fs dest it" and wf: "wf_fields fs"
  obtains p where "p < length fs" "ifield it = fs ! p" "required_field_index it = of_nat (required_before fs p)"
  using on_table_position[OF assms] iter_at_required_index[OF wf] by metis

lemma decode_known_inv:
  assumes run: "decode_known n env dec noinit wt st d = Ok st' d'"
    and inv: "seen_inv fs dest T st" and wf: "wf_fields fs" and len: "length fs < 2 ^ 32"
  shows "seen_inv fs dest (insert (ftag (ifield (lit st))) T) st'"
proof -
  let ?f = "ifield (lit st)"
  obtain st1 d1 where first: "use_fixed_count n env st d = Ok st1 d1"
    and rest: "\<exists>it2. decode_field n env dec noinit wt (lit st1) d1 = Ok it2 d' \<and>
      st' = st1\<lparr>seen := (if PB_HTYPE (ftype (ifield (lit st1))) = PB_HTYPE_REQUIRED
          \<and> required_field_index (lit st1) < PB_MAX_REQUIRED_FIELDS
        then mark_seen (required_field_index (lit st1)) (seen st1) else seen st1), lit := it2\<rparr>"
    using run unfolding decode_known_def Let_def by (auto simp: eq_commute[of _ st'])
  have seen1: "seen st1 = seen st"
    and lit1: "lit st1 = lit st \<or> PB_HTYPE (ftype ?f) = PB_HTYPE_REPEATED \<and> (\<exists>x. lit st1 = (lit st)\<lparr>pSize := x\<rparr>)"
    using first by (auto simp: use_fixed_count_def Let_def derror_def split: if_splits option.splits)
  have f1: "ifield (lit st1) = ?f" using lit1 by auto
  obtain it2 where fld: "decode_field n env dec noinit wt (lit st1) d1 = Ok it2 d'"
    and st': "st' = st1\<lparr>seen := (if PB_HTYPE (ftype ?f) = PB_HTYPE_REQUIRED
          \<and> required_field_index (lit st1) < PB_MAX_REQUIRED_FIELDS
        then mark_seen (required_field_index (lit st1)) (seen st1) else seen st1), lit := it2\<rparr>"
    using rest unfolding f1 by blast
  have on: "on_table fs dest (lit st)" using inv by (simp add: seen_inv_def)
  then have on1: "on_table fs dest (lit st1)" using lit1 on_table_redirect[OF on wf] by auto
  have on2: "on_table fs dest it2" by (rule on_table_decode_field[OF fld on1 wf])
  have i1: "required_field_index (lit st1) = required_field_index (lit st)" using lit1 by auto
  obtain p where p: "p < length fs" "?f = fs ! p"
    and idx: "required_field_index (lit st) = of_nat (required_before fs p)"
    by (rule on_table_index[OF on wf])
  have u: "unat (required_field_index (lit st)) = required_before fs p"
    using required_before_le[of fs p] len by (simp add: idx unat_of_nat)
  have len2: "length (seen st) = 2" using inv by (simp add: seen_inv_def)
  show ?thesis
    unfolding seen_inv_def
  proof (intro conjI allI impI)
    show "on_table fs dest (lit st')" using st' on2 by simp
    show "length (seen st') = 2" using st' seen1 len2 by (simp add: mark_seen_def Let_def)
  next
    fix j :: nat assume j: "j < 64" and b: "seen_bit (seen st') j"
    show "\<exists>p<length fs. is_required (fs ! p) \<and> required_before fs p = j \<and> ftag (fs ! p) \<in> insert (ftag ?f) T"
    proof (cases "seen_bit (seen st) j")
      case True
      then show ?thesis using inv j by (auto simp: seen_inv_def)
    next
      case False
      then have "is_required ?f" "j = required_before fs p"
        using b st' seen1 seen_bit_mark[OF len2 _ j] i1 u by (auto simp: is_required_def split: if_splits)
      then show ?thesis using p by (intro exI[of _ p]) simp
    qed
  qed
qed

lemma seen_inv_mono: "seen_inv fs dest T st \<Longrightarrow> T \<subseteq> T' \<Longrightarrow> seen_inv fs dest T' st"
  unfolding seen_inv_def by blast

lemma seen_inv_lit: "seen_inv fs dest T st \<Longrightarrow> on_table fs dest it \<Longrightarrow> seen_inv fs dest T (st\<lparr>lit := it\<rparr>)"
  by (simp add: seen_inv_def)

lemma decode_unknown_inv:
  assumes run: "decode_unknown n env dec noinit tag wt st d = Ok st' d'"
    and inv: "seen_inv fs dest T st" and wf: "wf_fields fs"
  shows "seen_inv fs dest T st'"
proof -
  have on: "on_table fs dest (lit st)" using inv by (simp add: seen_inv_def)
  have "st' = st \<or> (\<exists>found it e. find_extension_field (lit st) = Some (found, it)
      \<and> st' = st\<lparr>lit := it, ext_start := e\<rparr>)"
    using run by (auto simp: decode_unknown_def Let_def split: if_splits option.splits prod.splits)
  then show ?thesis
    using inv on_table_find_extension[OF _ on wf] by (auto simp: seen_inv_def)
qed

lemma decode_one_inv:
  assumes run: "decode_one n env dec noinit tag wt st d = Ok st' d'"
    and inv: "seen_inv fs dest T st" and wf: "wf_fields fs" and len: "length fs < 2 ^ 32"
  shows "seen_inv fs dest (insert tag T) st'"
proof -
  have on: "on_table fs dest (lit st)" using inv by (simp add: seen_inv_def)
  obtain r it where f: "pb_field_iter_find (lit st) tag = Some (r, it)"
    using run by (auto simp: decode_one_def split: option.splits)
  have it: "on_table fs dest it" "r \<Longrightarrow> ftag (ifield it) = tag"
    using on_table_find[OF f on wf] by auto
  have inv': "seen_inv fs dest T (st\<lparr>lit := it\<rparr>)" by (rule seen_inv_lit[OF inv it(1)])
  show ?thesis
  proof (cases r)
    case True
    then have "decode_known n env dec noinit wt (st\<lparr>lit := it\<rparr>) d = Ok st' d'"
      using run f by (simp add: decode_one_def)
    from decode_known_inv[OF this inv' wf len] show ?thesis using it(2)[OF True] by simp
  next
    case False
    then have "decode_unknown n env dec noinit tag wt (st\<lparr>lit := it\<rparr>) d = Ok st' d'"
      using run f by (simp add: decode_one_def)
    from decode_unknown_inv[OF this inv' wf] show ?thesis by (rule seen_inv_mono) blast
  qed
qed

lemma decode_trace_inv:
  assumes "decode_trace n env dec noinit tags st d st' d'"
    and "seen_inv fs dest T st" and "wf_fields fs" and "length fs < 2 ^ 32"
  shows "seen_inv fs dest (T \<union> set tags) st'"
  using assms
proof (induction arbitrary: T)
  case (trace_field d wire_type tag s eof st st1 d1 tags st' d')
  have "seen_inv fs dest (insert tag T \<union> set tags) st'"
    using trace_field.IH[OF decode_one_inv[OF trace_field.hyps(2) trace_field.prems]] trace_field.prems by blast
  then show ?case by simp
qed simp_all

section \<open>The required fields of an accepted message\<close>

lemma visits_last:
  "on_table fs dest it \<Longrightarrow> wf_fields fs \<Longrightarrow>
     on_table fs dest (last (visits it)) \<and> \<not> fst (pb_field_iter_next (last (visits it)))"
proof (induction it rule: visits.induct)
  case (1 it)
  show ?case
  proof (cases "fst (pb_field_iter_next it)")
    case True
    have ne: "visits (snd (pb_field_iter_next it)) \<noteq> []"
      by (subst visits.simps) simp
    have "last (visits it) = last (visits (snd (pb_field_iter_next it)))"
      by (subst visits.simps[of it]) (simp add: True ne)
    then show ?thesis using "1.IH"[OF True on_table_next[OF "1.prems"] "1.prems"(2)] by simp
  next
    case False
    then have "last (visits it) = it" by (subst visits.simps) simp
    then show ?thesis using "1.prems"(1) False by simp
  qed
qed

lemma required_count_eq:
  assumes on: "on_table fs dest it" and wf: "wf_fields fs" and len: "length fs < 2 ^ 32"
  shows "unat (required_count it) = min 64 (required_before fs (length fs))"
proof -
  let ?e = "last (visits it)"
  have e: "on_table fs dest ?e" and stop: "\<not> fst (pb_field_iter_next ?e)"
    using visits_last[OF on wf] by auto
  obtain p where p: "p < length fs" "ifield ?e = fs ! p"
    and idx: "required_field_index ?e = required_field_index (iter_at fs dest p)"
    and nx: "pb_field_iter_next ?e = pb_field_iter_next (iter_at fs dest p)"
    by (rule on_table_position[OF e wf])
  have "\<not> Suc p < length fs" using stop nx iter_next_at[OF wf p(1), of dest]
    by (metis fst_conv)
  then have last: "length fs = Suc p" using p(1) by simp
  obtain q where "q < length fs" "ifield (snd (pb_field_iter_next ?e)) = fs ! q"
    by (rule on_table_position[OF on_table_next[OF e wf] wf])
  then have tag: "ftag (ifield (snd (pb_field_iter_next ?e))) \<noteq> 0" using wf by (simp add: wf_fields_def)
  have c: "(if PB_HTYPE (ftype (ifield ?e)) = PB_HTYPE_REQUIRED \<and> ftag (ifield (snd (pb_field_iter_next ?e))) \<noteq> 0
      then required_field_index ?e + 1 else required_field_index ?e) = of_nat (required_before fs (length fs))"
    using tag p(2) required_before_Suc[OF p(1)] unfolding idx iter_at_required_index[OF wf p(1)] last
    by (simp add: is_required_def)
  have u: "unat (of_nat (required_before fs (length fs)) :: u32) = required_before fs (length fs)"
    using required_before_le[of fs "length fs"] len by (simp add: unat_of_nat)
  show ?thesis unfolding required_count_def Let_def c
    by (auto simp: word_less_nat_alt u min_def)
qed

text \<open>
  C2: A message is accepted only with its required fields. If pb_decode_noinit succeeds, the
  field numbers that it read from the stream include that of every required field of the
  message type, the first 64 of them (PB_MAX_REQUIRED_FIELDS) being checked.
\<close>

theorem decode_needs_required:
  assumes run: "pb_decode_noinit (Suc n) env fs dest d = Ok () d'"
    and wf: "wf_fields fs" and len: "length fs < 2 ^ 32"
    and p: "p < length fs" "PB_HTYPE (ftype (fs ! p)) = PB_HTYPE_REQUIRED" "required_before fs p < 64"
  shows "\<exists>tags st d''. decode_trace (Suc n) env (pb_decode n env) (pb_decode_noinit n env) tags
      \<lparr>lit = snd (pb_field_iter_begin fs dest), seen = [0, 0], ext_start = 0, fixed_count_field = None\<rparr>
      (poke32 (fixed_count_addr env (Suc n)) 0 d) st d'' \<and> ftag (fs ! p) \<in> set tags"
proof -
  let ?st0 = "\<lparr>lit = snd (pb_field_iter_begin fs dest), seen = [0, 0], ext_start = 0, fixed_count_field = None\<rparr>"
  let ?d0 = "poke32 (fixed_count_addr env (Suc n)) 0 d"
  obtain st d'' where loop: "decode_loop (Suc n) env (pb_decode n env) (pb_decode_noinit n env) ?st0 ?d0 = Ok st d''"
    and fin: "finish_message (fixed_count_addr env (Suc n)) st d'' = Ok () d'"
    using run by (auto simp: noinit_body_def Let_def pb_decode_def[symmetric])
  obtain tags where tr: "decode_trace (Suc n) env (pb_decode n env) (pb_decode_noinit n env) tags ?st0 ?d0 st d''"
    using decode_loop_trace[OF loop] by blast
  have ne: "0 < length fs" using p(1) by linarith
  have "seen_inv fs dest {} ?st0"
    using on_table_at[OF ne, of dest] by (simp add: seen_inv_def seen_bit_none)
  then have inv: "seen_inv fs dest (set tags) st"
    using decode_trace_inv[OF tr _ wf len] by fastforce
  have req: "is_required (fs ! p)" using p(2) by (simp add: is_required_def)
  have lt: "required_before fs p < required_before fs (length fs)"
    using required_before_Suc[OF p(1)] required_before_mono[of "Suc p" "length fs" fs] p(1) req by simp
  have cnt: "required_before fs p < unat (required_count (lit st))"
    using inv required_count_eq[of fs dest "lit st", OF _ wf len] lt p(3) by (simp add: seen_inv_def)
  then have "all_seen (required_count (lit st)) (seen st)"
    using fin by (auto simp: finish_message_def Let_def derror_def word_less_nat_alt split: if_splits option.splits)
  then have "seen_bit (seen st) (required_before fs p)" using cnt by (rule all_seen_bit)
  then obtain q where "q < length fs" "is_required (fs ! q)" "required_before fs q = required_before fs p"
    "ftag (fs ! q) \<in> set tags"
    using inv p(3) by (auto simp: seen_inv_def)
  then have "ftag (fs ! p) \<in> set tags" using required_before_inj[OF _ p(1) _ req] by metis
  then show ?thesis using tr by blast
qed

text \<open>A message of one required field, and the three bytes of an encoding of it.\<close>

definition one_field :: pb_fields where
  "one_field = [\<lparr>ftag = 1, ftype = 0x02, data_offset = 0, size_offset = 0, data_size = 4,
     array_size = 0, fptr = 0\<rparr>]"

definition one_input :: "(unit, unit) dstate" where
  "one_input = \<lparr>dmem = (\<lambda>_. 0), dheap = (),
     dstream = pb_istream_from_buffer (mem_write (\<lambda>_. 0) 0x2000 [0x08, 0x96, 0x01]) 0x2000 3\<rparr>"

lemma one_input_accepted:
  "case pb_decode_noinit 1 plain_env one_field 0x1000 one_input of
     Ok _ d \<Rightarrow> rd32 (dmem d) 0x1000 = 150 | _ \<Rightarrow> False"
  by code_simp

lemma decode_needs_required_witness:
  "\<exists>tags st d''. decode_trace 1 plain_env (pb_decode 0 plain_env) (pb_decode_noinit 0 plain_env) tags
      \<lparr>lit = snd (pb_field_iter_begin one_field 0x1000), seen = [0, 0], ext_start = 0, fixed_count_field = None\<rparr>
      (poke32 0x100 0 one_input) st d'' \<and> 1 \<in> set tags"
proof -
  obtain d' where run: "pb_decode_noinit (Suc 0) plain_env one_field 0x1000 one_input = Ok () d'"
    using one_input_accepted by (auto split: outcome.splits)
  have p: "0 < length one_field" "PB_HTYPE (ftype (one_field ! 0)) = PB_HTYPE_REQUIRED"
    "required_before one_field 0 < 64" "wf_fields one_field" "length one_field < 2 ^ 32"
    by (simp_all add: one_field_def PB_HTYPE_def required_before_def wf_fields_def)
  have t: "ftag (one_field ! 0) = 1" "fixed_count_addr plain_env (Suc 0) = 0x100"
    by (simp_all add: one_field_def plain_env_def)
  show ?thesis using decode_needs_required[OF run p(4,5,1,2,3)] unfolding t by simp
qed

end
