(* ===== verification/Nanopb_Safety.thy ===== *)
theory Nanopb_Safety
  imports Nanopb_Decode_Props
begin

text \<open>
  Where the decoder writes: the decoders of byte strings stay inside their field, and the
  default value of an array without a counter does not.
\<close>

section \<open>Streams whose callback stores what it was asked for\<close>

text \<open>The contract of a read callback: it stores no more bytes than \<open>count\<close>.\<close>

fun source_bounded :: "'s isource \<Rightarrow> bool" where
  "source_bounded (BufRead m p) = True"
| "source_bounded (CustomRead f st) = (\<forall>st c. length (fst (snd (f st c))) \<le> unat c)"

lemma call_source_bounded:
  assumes "source_bounded src" and "call_source src c = (ok, bs, src')"
  shows "length bs \<le> unat c \<and> source_bounded src'"
  using assms by (cases src) (auto split: prod.splits, metis fst_conv snd_conv)

lemma readbyte_bounded:
  "pb_readbyte s = Ok b t \<Longrightarrow> source_bounded (isource s) \<Longrightarrow> source_bounded (isource t)"
  by (auto simp: pb_readbyte_def split: if_splits prod.splits bool.splits list.splits
      dest: call_source_bounded)

lemma varint32_loop_bounded:
  "varint32_loop s r k = Ok v t \<Longrightarrow> source_bounded (isource s) \<Longrightarrow> source_bounded (isource t)"
proof (induction s r k rule: varint32_loop.induct)
  case (1 s r k)
  note step = varint32_loop.simps[of s r k]
  obtain b s1 where b: "pb_readbyte s = Ok b s1"
    using 1(2) unfolding step by auto
  have s1: "source_bounded (isource s1)" by (rule readbyte_bounded[OF b 1(3)])
  show ?case
    using 1(2) "1.IH"[OF b _ refl refl _ _ s1] s1 unfolding step
    by (auto simp: b Let_def split: if_splits)
qed

lemma decode_varint32_bounded:
  "pb_decode_varint32 s = Ok v t \<Longrightarrow> source_bounded (isource s) \<Longrightarrow> source_bounded (isource t)"
  by (auto simp: pb_decode_varint32_def pb_decode_varint32_eof_def
      dest: readbyte_bounded varint32_loop_bounded split: outcome.splits if_splits)

section \<open>Byte strings stay in their field\<close>

lemma frame_refl [simp]: "mem_frame base n m m"
  by (simp add: mem_frame_def)

lemma frame_poke:
  "unat (a - base) + length bs \<le> unat n \<Longrightarrow> mem_frame base n m0 (dmem (poke a bs d)) \<longleftrightarrow> mem_frame base n m0 (dmem d)"
  by (simp add: poke_def mem_frame_write)

lemma frame_stream [simp]: "dmem (d\<lparr>dstream := s\<rparr>) = dmem d"
  by simp

lemma dmem_poke_stream [simp]: "dmem (poke a bs (d\<lparr>dstream := s\<rparr>)) = dmem (poke a bs d)"
  by (simp add: poke_def)

definition frame_after :: "u64 \<Rightarrow> u64 \<Rightarrow> mem \<Rightarrow> ('s, 'h) dresult \<Rightarrow> bool" where
  "frame_after base n m r \<longleftrightarrow>
     (case r of Ok _ d \<Rightarrow> mem_frame base n m (dmem d) | Fail d \<Rightarrow> mem_frame base n m (dmem d) | NoResult \<Rightarrow> True)"

lemma frame_derror: "frame_after base n m (derror d msg) \<longleftrightarrow> mem_frame base n m (dmem d)"
  by (simp add: frame_after_def derror_def)

lemma read_to_frame:
  assumes "source_bounded (isource (dstream d))" and "mem_frame base n m (dmem d)"
    and "unat (a - base) + unat c \<le> unat n"
  shows "frame_after base n m (read_to a c d)"
proof -
  obtain ok bs s where r: "pb_read (dstream d) c = (ok, bs, s)" by (metis prod_cases3)
  have "length bs \<le> unat c"
    using r assms(1) call_source_bounded[of "isource (dstream d)" c]
    by (auto simp: pb_read_def split: if_splits prod.splits bool.splits)
  then have "mem_frame base n m (dmem (poke a bs d))" using assms(2,3) by (subst frame_poke) auto
  then show ?thesis by (cases ok) (simp_all add: read_to_def r frame_after_def)
qed

lemma decode_len_cases:
  assumes "source_bounded (isource (dstream d))" and "mem_frame base n m (dmem d)"
    and "\<And>sz d1. source_bounded (isource (dstream d1)) \<Longrightarrow> dmem d1 = dmem d \<Longrightarrow> frame_after base n m (k sz d1)"
  shows "frame_after base n m (bindo (on_stream pb_decode_varint32 d) k)"
proof (cases "pb_decode_varint32 (dstream d)")
  case (Ok sz s)
  then show ?thesis
    using assms(1) assms(3)[where ?d1.0 = "d\<lparr>dstream := s\<rparr>" and sz = sz] decode_varint32_bounded[OF Ok] by (simp add: on_stream_def)
next
  case (Fail s)
  then show ?thesis using assms(2) by (simp add: on_stream_def frame_after_def)
next
  case NoResult
  then show ?thesis by (simp add: on_stream_def frame_after_def)
qed

lemma frame_if:
  "(c \<Longrightarrow> frame_after base n m a) \<Longrightarrow> (\<not> c \<Longrightarrow> frame_after base n m b) \<Longrightarrow> frame_after base n m (if c then a else b)"
  by simp

lemma add4_le: "(ucast (sz :: u32) + 4 :: u64) \<le> ucast (n :: u32) \<Longrightarrow> unat sz + 4 \<le> unat n"
proof -
  assume a: "(ucast sz + 4 :: u64) \<le> ucast n"
  have "unat (ucast sz + 4 :: u64) = unat sz + 4"
    using unat_le_bound[of sz] by (simp add: unat_word_ariths unat_ucast_32_64)
  then show ?thesis using a by (simp add: word_le_nat_alt unat_ucast_32_64)
qed

lemma add1_le: "(ucast (sz + 1 :: u32) :: u64) \<le> ucast (n :: u32) \<Longrightarrow> \<not> (ucast (sz + 1) :: u64) < ucast sz \<Longrightarrow>
    unat sz + 1 \<le> unat n"
proof -
  assume a: "(ucast (sz + 1 :: u32) :: u64) \<le> ucast n" and b: "\<not> (ucast (sz + 1) :: u64) < ucast sz"
  have "unat sz \<le> unat (sz + 1)" using b by (simp add: word_less_nat_alt unat_ucast_32_64)
  then have "unat (sz + 1) = unat sz + 1"
    using unat_le_bound[of sz] by (simp add: unat_word_ariths mod_Suc split: if_splits)
  then show ?thesis using a by (simp add: word_le_nat_alt unat_ucast_32_64)
qed

text \<open>
  C3: The decoders of static bytes, string and fixed-length bytes fields never write outside the
  field, however long the string on the wire claims to be: whether they succeed or fail, the
  memory outside [dest, dest + data_size) is what it was.
\<close>

theorem static_bytes_in_bounds:
  assumes "PB_ATYPE (ftype f) = PB_ATYPE_STATIC"
    and "lt \<in> {PB_LTYPE_BYTES, PB_LTYPE_STRING, PB_LTYPE_FIXED_LENGTH_BYTES}"
    and "source_bounded (isource (dstream d))"
  shows "case PB_DECODERS env dec noinit lt f dest d of
      Ok _ d' \<Rightarrow> mem_frame dest (ucast (data_size f)) (dmem d) (dmem d')
    | Fail d' \<Rightarrow> mem_frame dest (ucast (data_size f)) (dmem d) (dmem d')
    | NoResult \<Rightarrow> True"
proof -
  let ?n = "ucast (data_size f) :: u64"
  have st: "PB_ATYPE (ftype f) \<noteq> PB_ATYPE_POINTER" using assms(1) by simp
  have bytes: "frame_after dest ?n (dmem d) (pb_dec_bytes env f dest d)"
    unfolding pb_dec_bytes_def Let_def if_not_P[OF st]
  proof (rule decode_len_cases[OF assms(3)], simp, intro frame_if)
    fix sz :: u32 and d1 :: "('a, 'b) dstate"
    assume b: "source_bounded (isource (dstream d1))" and m: "dmem d1 = dmem d"
      and le: "\<not> ?n < ucast sz + 4"
    have l: "unat sz + 4 \<le> unat (data_size f)" using le by (intro add4_le) (simp add: not_less)
    have "mem_frame dest ?n (dmem d) (dmem (poke32 dest sz d1))"
      using l m mem_frame_write[of dest dest "le_bytes 4 sz" ?n "dmem d" "dmem d1"]
      by (simp add: poke32_def wr32_def unat_ucast_32_64 del: le_bytes.simps)
    then show "frame_after dest ?n (dmem d) (read_to (dest + 4) (ucast sz) (poke32 dest sz d1))"
      using l b by (intro read_to_frame) (simp_all add: poke32_def unat_ucast_32_64)
  qed (simp_all add: frame_derror)
  have str: "frame_after dest ?n (dmem d) (pb_dec_string env f dest d)"
    unfolding pb_dec_string_def Let_def if_not_P[OF st]
  proof (rule decode_len_cases[OF assms(3)], simp, intro frame_if)
    fix sz :: u32 and d1 :: "('a, 'b) dstate"
    assume b: "source_bounded (isource (dstream d1))" and m: "dmem d1 = dmem d"
      and nw: "\<not> (ucast (sz + 1) :: u64) < ucast sz" and le: "\<not> ?n < ucast (sz + 1)"
    have l: "unat sz + 1 \<le> unat (data_size f)" using le nw by (intro add1_le) (simp_all add: not_less)
    have r: "frame_after dest ?n (dmem d) (read_to dest (ucast sz) d1)"
      using l b m by (intro read_to_frame) (simp_all add: unat_ucast_32_64)
    have z: "mem_frame dest ?n (dmem d) (dmem (poke (dest + ucast sz) [0] d2)) \<longleftrightarrow> mem_frame dest ?n (dmem d) (dmem d2)"
      for d2 :: "('a, 'b) dstate"
      using l by (intro frame_poke) (simp add: unat_ucast_32_64)
    show "frame_after dest ?n (dmem d) (case read_to dest (ucast sz) d1 of
        Ok _ d2 \<Rightarrow> Ok () (poke (dest + ucast sz) [0] d2)
      | Fail d2 \<Rightarrow> Fail (poke (dest + ucast sz) [0] d2) | NoResult \<Rightarrow> NoResult)"
      using r by (cases "read_to dest (ucast sz) d1") (simp_all add: frame_after_def z)
  qed (simp_all add: frame_derror)
  have fixed: "frame_after dest ?n (dmem d) (pb_dec_fixed_length_bytes f dest d)"
    unfolding pb_dec_fixed_length_bytes_def
  proof (rule decode_len_cases[OF assms(3)], simp, intro frame_if)
    fix sz :: u32 and d1 :: "('a, 'b) dstate"
    assume m: "dmem d1 = dmem d"
    show "frame_after dest ?n (dmem d) (Ok () (poke dest (replicate (unat (data_size f)) 0) d1))"
      using m by (simp add: frame_after_def frame_poke unat_ucast_32_64)
  qed (auto simp: frame_derror unat_ucast_32_64 intro: read_to_frame)
  have "frame_after dest ?n (dmem d) (PB_DECODERS env dec noinit lt f dest d)"
    using assms(2) bytes str fixed by (auto simp: PB_DECODERS_def)
  then show ?thesis unfolding frame_after_def .
qed

definition string_field :: pb_field where
  "string_field = \<lparr>ftag = 4, ftype = 0x07, data_offset = 0, size_offset = 0, data_size = 8,
     array_size = 0, fptr = 0\<rparr>"

definition long_string_input :: "(unit, unit) dstate" where
  "long_string_input = \<lparr>dmem = (\<lambda>_. 0x41), dheap = (),
     dstream = pb_istream_from_buffer (\<lambda>a. if a = 0x2000 then 0x7F else 0x42) 0x2000 128\<rparr>"

lemma static_bytes_in_bounds_witness:
  "\<forall>(env :: (unit, unit) dec_env) dec noinit.
    (case PB_DECODERS env dec noinit PB_LTYPE_STRING string_field 0x1000 long_string_input of
       Ok _ d' \<Rightarrow> mem_frame 0x1000 8 (\<lambda>_. 0x41) (dmem d')
     | Fail d' \<Rightarrow> mem_frame 0x1000 8 (\<lambda>_. 0x41) (dmem d')
     | NoResult \<Rightarrow> True)"
proof (intro allI)
  fix env :: "(unit, unit) dec_env" and dec noinit
  have h: "PB_ATYPE (ftype string_field) = PB_ATYPE_STATIC"
    "PB_LTYPE_STRING \<in> {PB_LTYPE_BYTES, PB_LTYPE_STRING, PB_LTYPE_FIXED_LENGTH_BYTES}"
    "source_bounded (isource (dstream long_string_input))"
    by (simp_all add: string_field_def PB_ATYPE_def long_string_input_def pb_istream_from_buffer_def)
  have e: "ucast (data_size string_field) = (8 :: u64)" "dmem long_string_input = (\<lambda>_. 0x41)"
    by (simp_all add: string_field_def long_string_input_def)
  show "case PB_DECODERS env dec noinit PB_LTYPE_STRING string_field 0x1000 long_string_input of
       Ok _ d' \<Rightarrow> mem_frame 0x1000 8 (\<lambda>_. 0x41) (dmem d')
     | Fail d' \<Rightarrow> mem_frame 0x1000 8 (\<lambda>_. 0x41) (dmem d')
     | NoResult \<Rightarrow> True"
    using static_bytes_in_bounds[OF h, where env = env and dec = dec and noinit = noinit and dest = "0x1000"]
    unfolding e .
qed

section \<open>Default values of arrays without a counter\<close>

text \<open>
  C38: Setting a static repeated field without a counter in the struct to its default stores a
  32-bit zero at the start of the array itself and changes nothing else, whatever the size of the
  array. The bytes behind an array of less than four bytes, which the message does not own when the
  array is the last field of the struct, keep their values only if those were zero.
\<close>

theorem default_fixed_count_overrun:
  fixes d :: "('s, 'h) dstate"
  assumes "PB_LTYPE (ftype (ifield it)) \<noteq> PB_LTYPE_EXTENSION"
    and "PB_ATYPE (ftype (ifield it)) = PB_ATYPE_STATIC"
    and "PB_HTYPE (ftype (ifield it)) = PB_HTYPE_REPEATED"
    and "pSize it = pData it"
  defines "sz \<equiv> ucast (data_size (ifield it)) * ucast (array_size (ifield it)) :: u64"
    and "mem' \<equiv> \<lambda>a. if unat (a - pData it) < 4 then 0 else dmem d a"
  shows "pb_field_set_to_default (Suc n) env it d = Ok () (d\<lparr>dmem := mem'\<rparr>) \<and>
    (mem_frame (pData it) sz (dmem d) mem' \<longleftrightarrow>
      (\<forall>i<4. unat sz \<le> i \<longrightarrow> dmem d (pData it + of_nat i) = 0))"
proof
  have z: "le_bytes 4 (0 :: u32) ! i = 0" if "i < 4" for i
    using that by (auto simp: less_Suc_eq numeral_eq_Suc)
  have "wr32 (pData it) 0 (dmem d) a = mem' a" for a
  proof (cases "unat (a - pData it) < 4")
    case True
    then have "a = pData it + of_nat (unat (a - pData it))" by simp
    then have "wr32 (pData it) 0 (dmem d) a = le_bytes 4 (0 :: u32) ! unat (a - pData it)"
      using mem_write_in[of "unat (a - pData it)" "le_bytes 4 (0 :: u32)" "dmem d" "pData it"] True
      by (simp add: wr32_def del: mem_write.simps le_bytes.simps)
    then show ?thesis using True z by (simp add: mem'_def)
  next
    case False
    have "pData it + of_nat i \<noteq> a" if "i < 4" for i :: nat
    proof
      assume "pData it + of_nat i = a"
      then have "a - pData it = of_nat i" by auto
      then show False using False that by (simp add: unat_of_nat)
    qed
    then have "mem_write (dmem d) (pData it) (le_bytes 4 (0 :: u32)) a = dmem d a" by (intro mem_write_other) simp
    then show ?thesis using False by (simp add: wr32_def mem'_def del: mem_write.simps le_bytes.simps)
  qed
  then have "wr32 (pData it) 0 (dmem d) = mem'" ..
  then show "pb_field_set_to_default (Suc n) env it d = Ok () (d\<lparr>dmem := mem'\<rparr>)"
    using assms(1-4) by (simp add: poke32_def)
  show "mem_frame (pData it) sz (dmem d) mem' \<longleftrightarrow> (\<forall>i<4. unat sz \<le> i \<longrightarrow> dmem d (pData it + of_nat i) = 0)"
  proof
    assume f: "mem_frame (pData it) sz (dmem d) mem'"
    show "\<forall>i<4. unat sz \<le> i \<longrightarrow> dmem d (pData it + of_nat i) = 0"
    proof (intro allI impI)
      fix i :: nat assume i: "i < 4" "unat sz \<le> i"
      then have u: "unat (pData it + of_nat i - pData it) = i" by (simp add: unat_of_nat)
      then have "mem' (pData it + of_nat i) = dmem d (pData it + of_nat i)" using f i unfolding mem_frame_def by metis
      moreover have "mem' (pData it + of_nat i) = 0" using u i by (simp add: mem'_def)
      ultimately show "dmem d (pData it + of_nat i) = 0" by simp
    qed
  next
    assume h: "\<forall>i<4. unat sz \<le> i \<longrightarrow> dmem d (pData it + of_nat i) = 0"
    have "dmem d a = 0" if "unat sz \<le> unat (a - pData it)" "unat (a - pData it) < 4" for a
      using h[rule_format, of "unat (a - pData it)"] that by simp
    then show "mem_frame (pData it) sz (dmem d) mem'" by (auto simp: mem_frame_def mem'_def)
  qed
qed

definition small_array :: pb_field_iter where
  "small_array = snd (pb_field_iter_begin [\<lparr>ftag = 1, ftype = 0x20, data_offset = 0, size_offset = 0,
     data_size = 1, array_size = 2, fptr = 0\<rparr>] 0x1000)"

text \<open>An array of two bytes: the two bytes behind it, which held 0x41, are lost.\<close>

lemma default_fixed_count_overrun_witness:
  "\<exists>d'. pb_field_set_to_default 1 plain_env small_array long_string_input = Ok () d' \<and>
    dmem d' 0x1003 = 0 \<and> dmem long_string_input 0x1003 = 0x41 \<and> \<not> mem_frame 0x1000 2 (dmem long_string_input) (dmem d')"
proof -
  have h: "PB_LTYPE (ftype (ifield small_array)) \<noteq> PB_LTYPE_EXTENSION"
    "PB_ATYPE (ftype (ifield small_array)) = PB_ATYPE_STATIC"
    "PB_HTYPE (ftype (ifield small_array)) = PB_HTYPE_REPEATED"
    "pSize small_array = pData small_array" and s: "pData small_array = 0x1000"
    "ucast (data_size (ifield small_array)) * ucast (array_size (ifield small_array)) = (2 :: u64)"
    and m: "dmem long_string_input = (\<lambda>_. 0x41)"
    by (simp_all add: small_array_def pb_field_iter_begin_def field_at_def PB_LTYPE_def PB_ATYPE_def
        PB_HTYPE_def long_string_input_def)
  have "\<not> (\<forall>i<4. unat (2 :: u64) \<le> i \<longrightarrow> (0x41 :: u8) = 0)" by (auto intro: exI[of _ 3])
  then show ?thesis
    using default_fixed_count_overrun[OF h, where n = 0 and env = plain_env and d = long_string_input] unfolding s m
    by (intro exI[of _ "long_string_input\<lparr>dmem := \<lambda>a. if unat (a - 0x1000) < 4 then 0 else 0x41\<rparr>"]) simp
qed

end
