(* ===== verification/Nanopb_Framing.thy ===== *)
theory Nanopb_Framing
  imports Nanopb_Encode
begin

text \<open>
  The framings of nanopb's encoder (\<open>pb_encode_delimited\<close> and \<open>pb_encode_nullterminated\<close> in
  pb_encode.c) when callbacks are free to write something else each time they are called: in the
  pass that counts, and in the one that writes.
\<close>

section \<open>Encoders that only append\<close>

text \<open>
  On a stream to a buffer such an encoder, when it succeeds, has written some bytes behind what was
  there and counted them, and done nothing else but leave an error message. The documentation of
  callbacks asks for that: they write through pb_write. Which bytes may depend on the stream.
\<close>

definition adds :: "(obuf pb_ostream \<Rightarrow> (unit, obuf pb_ostream) outcome) \<Rightarrow> bool" where
  "adds f \<longleftrightarrow> (\<forall>s m a t. ocallback s = Some buf_write \<longrightarrow> ostate s = Some (m, a) \<longrightarrow> f s = Ok () t \<longrightarrow>
     (\<exists>bs e. t = s\<lparr>ostate := Some (mem_write m a bs, a + of_nat (length bs)),
        bytes_written := bytes_written s + of_nat (length bs), oerrmsg := e\<rparr>))"

definition callbacks_append :: "obuf enc_env \<Rightarrow> bool" where
  "callbacks_append env \<longleftrightarrow> (\<forall>fp f a. adds (encode_cb env fp f a)) \<and> (\<forall>fp e. adds (ext_encode_cb env fp e))"

lemma addsI:
  assumes "\<And>s m a t. ocallback s = Some buf_write \<Longrightarrow> ostate s = Some (m, a) \<Longrightarrow> f s = Ok () t \<Longrightarrow>
     \<exists>bs e. t = s\<lparr>ostate := Some (mem_write m a bs, a + of_nat (length bs)),
        bytes_written := bytes_written s + of_nat (length bs), oerrmsg := e\<rparr>"
  shows "adds f"
  using assms unfolding adds_def by blast

lemma addsE:
  assumes "adds f" and "f s = Ok () t" and "ocallback s = Some buf_write" and "ostate s = Some (m, a)"
  obtains bs e where "t = s\<lparr>ostate := Some (mem_write m a bs, a + of_nat (length bs)),
        bytes_written := bytes_written s + of_nat (length bs), oerrmsg := e\<rparr>"
  using assms unfolding adds_def by blast

lemma adds_const [intro]: "adds (\<lambda>s. Fail (g s))" "adds (\<lambda>s. NoResult)"
  by (auto simp: adds_def)

lemma adds_skip [intro]: "adds (\<lambda>s. Ok () s)"
proof (rule addsI)
  fix s t :: "obuf pb_ostream" and m a
  assume "ocallback s = Some buf_write" "ostate s = Some (m, a)" "Ok () s = Ok () t"
  then show "\<exists>bs e. t = s\<lparr>ostate := Some (mem_write m a bs, a + of_nat (length bs)),
      bytes_written := bytes_written s + of_nat (length bs), oerrmsg := e\<rparr>"
    by (intro exI[of _ "[]"] exI[of _ "oerrmsg t"]) simp
qed

lemma adds_if [intro]:
  "(c \<Longrightarrow> adds f) \<Longrightarrow> (\<not> c \<Longrightarrow> adds g) \<Longrightarrow> adds (\<lambda>s. if c then f s else g s)"
  by (cases c) auto

lemma adds_option [intro]:
  "adds f \<Longrightarrow> (\<And>v. adds (g v)) \<Longrightarrow> adds (\<lambda>s. case x of None \<Rightarrow> f s | Some v \<Rightarrow> g v s)"
  by (cases x) auto

lemma adds_real: "adds g \<Longrightarrow> (\<And>s. ocallback s \<noteq> None \<Longrightarrow> f s = g s) \<Longrightarrow> adds f"
  unfolding adds_def by (metis option.distinct(1))

lemma adds_bind [intro]:
  assumes f: "adds f" and g: "adds g"
  shows "adds (\<lambda>s. bindo (f s) (\<lambda>_. g))"
proof (rule addsI)
  fix s t :: "obuf pb_ostream" and m a
  assume s: "ocallback s = Some buf_write" "ostate s = Some (m, a)" and run: "bindo (f s) (\<lambda>_. g) = Ok () t"
  then obtain u where u: "f s = Ok () u" "g u = Ok () t" by (cases "f s") auto
  obtain xs d where xs: "u = s\<lparr>ostate := Some (mem_write m a xs, a + of_nat (length xs)),
      bytes_written := bytes_written s + of_nat (length xs), oerrmsg := d\<rparr>" using addsE[OF f u(1) s] by blast
  obtain ys e where "t = u\<lparr>ostate := Some (mem_write (mem_write m a xs) (a + of_nat (length xs)) ys, a + of_nat (length xs) + of_nat (length ys)),
      bytes_written := bytes_written u + of_nat (length ys), oerrmsg := e\<rparr>"
    by (rule addsE[OF g u(2), of "mem_write m a xs" "a + of_nat (length xs)"]) (use s xs in simp_all)
  then show "\<exists>bs e. t = s\<lparr>ostate := Some (mem_write m a bs, a + of_nat (length bs)),
      bytes_written := bytes_written s + of_nat (length bs), oerrmsg := e\<rparr>"
    using xs by (intro exI[of _ "xs @ ys"] exI[of _ e]) (simp add: mem_write_append add.assoc)
qed

lemma buf_write_ok: "ocallback s = Some buf_write \<Longrightarrow> ostate s = Some (m, a) \<Longrightarrow> length buf = unat n \<Longrightarrow>
    pb_write s buf n =
      (if 0 < n \<and> (bytes_written s + n < bytes_written s \<or> max_size s < bytes_written s + n) then Fail (oset_error s ''stream full'')
       else Ok () (s\<lparr>ostate := Some (mem_write m a buf, a + n), bytes_written := bytes_written s + n\<rparr>))"
  by (auto simp: pb_write_def word_gt_0)

lemma adds_write:
  assumes "length buf = unat n"
  shows "adds (\<lambda>s. pb_write s buf n)"
proof (rule addsI)
  fix s t :: "obuf pb_ostream" and m a
  assume "ocallback s = Some buf_write" "ostate s = Some (m, a)" "pb_write s buf n = Ok () t"
  then have "t = s\<lparr>ostate := Some (mem_write m a buf, a + n), bytes_written := bytes_written s + n\<rparr>"
    using buf_write_ok[OF _ _ assms] by (auto split: if_splits)
  then show "\<exists>bs e. t = s\<lparr>ostate := Some (mem_write m a bs, a + of_nat (length bs)),
      bytes_written := bytes_written s + of_nat (length bs), oerrmsg := e\<rparr>"
    by (intro exI[of _ buf] exI[of _ "oerrmsg s"]) (simp add: assms)
qed

lemma varint_write: "pb_encode_varint s v = pb_write s (varint_enc v) (of_nat (length (varint_enc v)))"
proof (cases "v \<le> 0x7F")
  case True
  then show ?thesis by (simp add: pb_encode_varint_def varint_enc.simps[of v])
next
  case False
  then have nz: "v \<noteq> 0" by auto
  show ?thesis using varint_loop_enc[OF nz] False by (simp add: pb_encode_varint_def Let_def length_varint_loop[OF nz])
qed

lemma varint_size: "length (varint_enc v) = unat (of_nat (length (varint_enc v)) :: u64)"
  using length_varint_le_10[of v] by (simp add: unat_of_nat)

lemma adds_varint [intro]: "adds (\<lambda>s. pb_encode_varint s v)"
  unfolding varint_write by (rule adds_write[OF varint_size])

lemma adds_svarint [intro]: "adds (\<lambda>s. pb_encode_svarint s v)"
  unfolding pb_encode_svarint_def by (rule adds_varint)

lemma adds_tag [intro]: "adds (\<lambda>s. pb_encode_tag s w n)"
  unfolding pb_encode_tag_def by (rule adds_varint)

lemma adds_string: "length buf = unat n \<Longrightarrow> adds (\<lambda>s. pb_encode_string s buf n)"
  unfolding pb_encode_string_def by (intro adds_bind adds_varint adds_write)

lemma adds_tag_for_field [intro]: "adds (\<lambda>s. pb_encode_tag_for_field s f)"
  unfolding pb_encode_tag_for_field_def Let_def by (intro adds_if adds_tag adds_const)

lemma adds_encoders:
  "adds (\<lambda>s. pb_enc_bool m f s p)" "adds (\<lambda>s. pb_enc_varint m f s p)" "adds (\<lambda>s. pb_enc_uvarint m f s p)"
  "adds (\<lambda>s. pb_enc_svarint m f s p)" "adds (\<lambda>s. pb_enc_fixed32 m f s p)" "adds (\<lambda>s. pb_enc_fixed64 m f s p)"
  "adds (\<lambda>s. pb_enc_bytes m f s p)" "adds (\<lambda>s. pb_enc_string m f s p)" "adds (\<lambda>s. pb_enc_fixed_length_bytes m f s p)"
  unfolding pb_enc_bool_def pb_enc_varint_def pb_enc_uvarint_def pb_enc_svarint_def pb_enc_fixed32_def pb_enc_fixed64_def
    pb_encode_fixed32_def pb_encode_fixed64_def pb_enc_bytes_def pb_enc_string_def pb_enc_fixed_length_bytes_def Let_def
  by (intro adds_if adds_varint adds_svarint adds_const adds_write adds_string mem_read_size; simp)+

lemma adds_items: "(\<And>p. adds (\<lambda>s. func s p)) \<Longrightarrow> adds (for_items func stride n p)"
proof (induction n arbitrary: p)
  case 0
  show ?case unfolding for_items.simps by (rule adds_skip)
next
  case (Suc n)
  show ?case unfolding for_items.simps by (intro adds_bind Suc)
qed

lemma adds_packed:
  assumes "\<And>p. adds (\<lambda>s. func f s p)"
  shows "adds (\<lambda>s. enc_packed func f p count sz s)"
proof -
  have "adds (\<lambda>s. if ocallback s = None then pb_write s [] sz else for_items (func f) (ucast (data_size f)) (unat count) p s)"
  proof (rule adds_real)
    show "adds (for_items (func f) (ucast (data_size f)) (unat count) p)" by (rule adds_items) (rule assms)
  qed auto
  then show ?thesis unfolding enc_packed_def by (intro adds_bind adds_varint)
qed

lemma adds_array:
  assumes "\<And>p. adds (\<lambda>s. func f s p)"
  shows "adds (encode_array m func f p count)"
proof -
  have "adds (\<lambda>s. case r of Ok _ sub \<Rightarrow> enc_packed func f p count (bytes_written sub) s | Fail _ \<Rightarrow> Fail s | NoResult \<Rightarrow> NoResult)"
    for r :: "(unit, obuf pb_ostream) outcome"
    by (cases r) (simp_all only: outcome.case adds_const adds_packed[of func f, OF assms])
  then show ?thesis unfolding encode_array_def
    by (intro adds_if adds_const adds_skip adds_bind adds_tag adds_items adds_tag_for_field
        adds_packed[of func f, OF assms] assms)
qed

text \<open>
  A submessage: its size, and behind it what the second pass wrote. When the second pass writes
  another number of bytes the call fails.
\<close>

lemma submessage_run:
  assumes s: "ocallback s = Some buf_write" "ostate s = Some (m, a)" and size: "enc fs src PB_OSTREAM_SIZING = Ok () c"
  defines "sz \<equiv> bytes_written c" and "P \<equiv> varint_enc (bytes_written c)"
  defines "n \<equiv> of_nat (length P) :: u64"
  defines "sub \<equiv> pb_ostream_from_buffer (mem_write m a P) (a + n) sz"
  defines "back \<equiv> \<lambda>u. s\<lparr>bytes_written := bytes_written s + n + bytes_written u, ostate := ostate u, oerrmsg := oerrmsg u\<rparr>"
  shows "pb_encode_submessage enc fs src s =
    (if bytes_written s + n < bytes_written s \<or> max_size s < bytes_written s + n then Fail (oset_error s ''stream full'')
     else if max_size s < bytes_written s + n + sz
     then Fail (oset_error (s\<lparr>ostate := Some (mem_write m a P, a + n), bytes_written := bytes_written s + n\<rparr>) ''stream full'')
     else case enc fs src sub of
         Ok _ u \<Rightarrow> if bytes_written u \<noteq> sz then Fail (oset_error (back u) ''submsg size changed'') else Ok () (back u)
       | Fail u \<Rightarrow> if bytes_written u \<noteq> sz then Fail (oset_error (back u) ''submsg size changed'') else Fail (back u)
       | NoResult \<Rightarrow> NoResult)"
proof -
  have "n \<noteq> 0" using length_varint_pos[of sz] varint_size[of sz] unfolding n_def P_def sz_def by (metis less_irrefl unat_0)
  then have "0 < n" by (simp add: word_gt_0)
  then have w: "pb_encode_varint s sz =
    (if bytes_written s + n < bytes_written s \<or> max_size s < bytes_written s + n then Fail (oset_error s ''stream full'')
     else Ok () (s\<lparr>ostate := Some (mem_write m a P, a + n), bytes_written := bytes_written s + n\<rparr>))"
    unfolding varint_write using buf_write_ok[OF s varint_size[of sz]] by (simp add: n_def P_def sz_def)
  have e: "\<lparr>ocallback = Some buf_write, ostate = Some (mem_write m a P, a + n), max_size = sz, bytes_written = 0, oerrmsg = None\<rparr> = sub"
    by (simp add: sub_def pb_ostream_from_buffer_def)
  have b: "s\<lparr>ostate := x, bytes_written := bytes_written s + n, bytes_written := bytes_written s + n + bytes_written u, ostate := ostate u, oerrmsg := oerrmsg u\<rparr> = back u" for x u
    by (simp add: back_def)
  show ?thesis
    unfolding pb_encode_submessage_def size outcome.case Let_def sz_def[symmetric] w
    by (cases "enc fs src sub") (simp_all add: s e b back_def)
qed

lemma adds_submessage:
  assumes "adds (enc fs src)"
  shows "adds (pb_encode_submessage enc fs src)"
proof (rule addsI)
  fix s t :: "obuf pb_ostream" and m a
  assume s: "ocallback s = Some buf_write" "ostate s = Some (m, a)" and run: "pb_encode_submessage enc fs src s = Ok () t"
  obtain c where c: "enc fs src PB_OSTREAM_SIZING = Ok () c"
    using run by (cases "enc fs src PB_OSTREAM_SIZING") (auto simp: pb_encode_submessage_def)
  let ?P = "varint_enc (bytes_written c)"
  let ?sub = "pb_ostream_from_buffer (mem_write m a ?P) (a + of_nat (length ?P)) (bytes_written c)"
  obtain u where u: "enc fs src ?sub = Ok () u" "t = s\<lparr>bytes_written := bytes_written s + of_nat (length ?P) + bytes_written u,
      ostate := ostate u, oerrmsg := oerrmsg u\<rparr>"
    using run unfolding submessage_run[of s m a enc fs src c, OF s c] by (auto split: if_splits outcome.splits)
  obtain bs e where "u = ?sub\<lparr>ostate := Some (mem_write (mem_write m a ?P) (a + of_nat (length ?P)) bs, a + of_nat (length ?P) + of_nat (length bs)),
      bytes_written := bytes_written ?sub + of_nat (length bs), oerrmsg := e\<rparr>"
    by (rule addsE[OF assms u(1), of "mem_write m a ?P" "a + of_nat (length ?P)"]) (simp_all add: pb_ostream_from_buffer_def)
  then show "\<exists>bs e. t = s\<lparr>ostate := Some (mem_write m a bs, a + of_nat (length bs)),
      bytes_written := bytes_written s + of_nat (length bs), oerrmsg := e\<rparr>"
    using u(2) by (intro exI[of _ "?P @ bs"] exI[of _ e]) (simp add: mem_write_append add.assoc pb_ostream_from_buffer_def)
qed

section \<open>Every step of the encoder appends\<close>

lemma adds_PB_ENCODERS:
  assumes "\<And>fs a. adds (enc fs a)"
  shows "adds (\<lambda>s. PB_ENCODERS env enc lt f s p)"
proof -
  have c: "adds (\<lambda>s. (if c then A else B) f s p)" if "adds (\<lambda>s. A f s p)" and "adds (\<lambda>s. B f s p)" for c A B
    using that by (cases c) auto
  have sub: "adds (\<lambda>s. pb_enc_submessage env enc f s p)"
    unfolding pb_enc_submessage_def by (intro adds_if adds_const adds_submessage assms)
  show ?thesis unfolding PB_ENCODERS_def by (intro c adds_encoders sub adds_const)
qed

lemma adds_basic_field:
  assumes enc: "\<And>fs a. adds (enc fs a)"
  shows "adds (\<lambda>s. encode_basic_field n env enc f s p)"
proof -
  have w: "adds (\<lambda>s. bindo (pb_encode_tag_for_field s f) (\<lambda>_ s. PB_ENCODERS env enc (PB_LTYPE (ftype f)) f s q))" for q
    by (intro adds_bind adds_tag_for_field adds_PB_ENCODERS enc)
  have a: "adds (\<lambda>s. encode_array (emem env) (PB_ENCODERS env enc (PB_LTYPE (ftype f))) f q c s)" for q c
    by (intro adds_array adds_PB_ENCODERS enc)
  show ?thesis unfolding encode_basic_field_def Let_def
    by (intro adds_option adds_if w a adds_const adds_skip)
qed

lemma adds_error: "adds g \<Longrightarrow> adds (\<lambda>s. case g s of Fail s' \<Rightarrow> Fail (oset_error s' msg) | r \<Rightarrow> r)"
  unfolding adds_def by (auto split: outcome.splits)

lemma adds_field:
  assumes cb: "callbacks_append env" and "\<And>fs a. adds (enc fs a)"
  shows "adds (\<lambda>s. encode_field n env enc f s p)"
proof -
  have "adds (\<lambda>s. encode_callback_field env f s p)"
    unfolding encode_callback_field_def Let_def using cb
    by (intro adds_if adds_skip adds_error) (auto simp: callbacks_append_def)
  then show ?thesis unfolding encode_field_def Let_def
    by (intro adds_if adds_const adds_basic_field assms)
qed

lemma adds_extensions:
  assumes cb: "callbacks_append env" and enc: "\<And>fs a. adds (enc fs a)"
  shows "adds (encode_extensions k n env enc ext)"
proof (induction k arbitrary: ext)
  case 0
  show ?case unfolding encode_extensions.simps by (intro adds_if adds_skip adds_const)
next
  case (Suc k)
  have d: "adds (\<lambda>s. default_extension_encoder n env enc ext s)"
    unfolding default_extension_encoder_def Let_def by (intro adds_if adds_field cb enc)
  have e: "adds (\<lambda>s. ext_encode_cb env fp ext s)" for fp using cb by (simp add: callbacks_append_def)
  show ?case unfolding encode_extensions.simps Let_def by (intro adds_if adds_skip adds_bind d e Suc.IH)
qed

lemma adds_fields: "(\<And>it. adds (f it)) \<Longrightarrow> adds (for_each f its)"
proof (induction its)
  case Nil
  show ?case unfolding for_each.simps by (rule adds_skip)
next
  case (Cons it its)
  show ?case unfolding for_each.simps by (intro adds_bind Cons)
qed

lemma adds_pb_encode:
  assumes cb: "callbacks_append env"
  shows "adds (pb_encode n env fs src)"
proof (induction n arbitrary: fs src)
  case 0
  show ?case unfolding pb_encode.simps by (rule adds_const)
next
  case (Suc n)
  have e: "adds (encode_extensions (Suc n) (Suc n) env (pb_encode n env) x)" for x
    by (rule adds_extensions[OF cb Suc.IH])
  show ?case unfolding pb_encode.simps Let_def encode_extension_field_def
    by (intro adds_fields adds_if e adds_field[OF cb] Suc.IH)
qed

section \<open>The framings\<close>

text \<open>The stream has put the bytes at the address and counts nothing else.\<close>

definition wrote :: "mem \<Rightarrow> u64 \<Rightarrow> bytes \<Rightarrow> obuf pb_ostream \<Rightarrow> bool" where
  "wrote m buf bs s \<longleftrightarrow> ostate s = Some (mem_write m buf bs, buf + of_nat (length bs)) \<and> bytes_written s = of_nat (length bs)"

lemma encode_wrote:
  assumes "callbacks_append env" and "pb_encode n env fs src (pb_ostream_from_buffer m buf cap) = Ok () u"
  shows "(\<exists>bs. wrote m buf bs u) \<and> ocallback u = Some buf_write \<and> max_size u = cap"
proof -
  let ?s = "pb_ostream_from_buffer m buf cap"
  have "ocallback ?s = Some buf_write" "ostate ?s = Some (m, buf)" by (simp_all add: pb_ostream_from_buffer_def)
  then obtain bs e where "u = ?s\<lparr>ostate := Some (mem_write m buf bs, buf + of_nat (length bs)),
      bytes_written := bytes_written ?s + of_nat (length bs), oerrmsg := e\<rparr>"
    using addsE[OF adds_pb_encode[OF assms(1)] assms(2)] by blast
  then show ?thesis by (auto simp: wrote_def pb_ostream_from_buffer_def)
qed

text \<open>Where \<open>pb_encode_delimited\<close> runs the second pass, once the first has counted \<open>sz\<close> bytes.\<close>

definition second_pass :: "mem \<Rightarrow> u64 \<Rightarrow> u64 \<Rightarrow> obuf pb_ostream" where
  "second_pass m buf sz = pb_ostream_from_buffer (mem_write m buf (varint_enc sz)) (buf + of_nat (length (varint_enc sz))) sz"

lemma delimited_run:
  assumes "pb_get_encoded_size n env fs src = Ok sz c"
  defines "k \<equiv> of_nat (length (varint_enc sz)) :: u64"
  shows "pb_encode_delimited n env fs src (pb_ostream_from_buffer m buf cap) =
    (let s = pb_ostream_from_buffer m buf cap; back = \<lambda>u. s\<lparr>bytes_written := k + bytes_written u, ostate := ostate u, oerrmsg := oerrmsg u\<rparr> in
     if cap < k then Fail (oset_error s ''stream full'')
     else if cap < k + sz
     then Fail (oset_error (s\<lparr>ostate := Some (mem_write m buf (varint_enc sz), buf + k), bytes_written := k\<rparr>) ''stream full'')
     else case pb_encode n env fs src (second_pass m buf sz) of
         Ok _ u \<Rightarrow> if bytes_written u \<noteq> sz then Fail (oset_error (back u) ''submsg size changed'') else Ok () (back u)
       | Fail u \<Rightarrow> if bytes_written u \<noteq> sz then Fail (oset_error (back u) ''submsg size changed'') else Fail (back u)
       | NoResult \<Rightarrow> NoResult)"
proof -
  let ?s = "pb_ostream_from_buffer m buf cap"
  obtain c' where c: "pb_encode n env fs src PB_OSTREAM_SIZING = Ok () c'" "bytes_written c' = sz"
    using assms(1) by (cases "pb_encode n env fs src PB_OSTREAM_SIZING :: (unit, obuf pb_ostream) outcome") (auto simp: pb_get_encoded_size_def)
  have s: "ocallback ?s = Some buf_write" "ostate ?s = Some (m, buf)" and z: "bytes_written ?s = 0" "max_size ?s = cap"
    by (simp_all add: pb_ostream_from_buffer_def)
  have "\<not> k < 0" by simp
  then show ?thesis unfolding pb_encode_delimited_def submessage_run[of ?s m buf "pb_encode n env" fs src c', OF s c(1)] c(2) z add_0_left
    by (simp add: k_def second_pass_def Let_def)
qed

lemma full_byte: "(b :: u64) + 1 < b \<or> cap < b + 1 \<longleftrightarrow> cap \<le> b"
proof (cases "b = - 1")
  case False
  then have "1 + b \<noteq> 0" by (metis add.inverse_unique)
  then have "unat (b + 1) = Suc (unat b)" using unatSuc[of b] by (simp add: add.commute)
  then show ?thesis by (auto simp: word_less_nat_alt word_le_nat_alt)
qed (simp add: word_gt_0)

section \<open>Properties\<close>

text \<open>
  C28: The framings frame, whatever the callbacks write in each pass, if only they append.
  When pb_encode_delimited succeeds, it has put out the varint of the number of bytes behind it,
  and those are what pb_encode wrote in the second pass, as many as it counted in the first. When
  the size fits in the buffer and the second pass succeeds, it fails exactly if the second
  pass wrote another number of bytes, and says so. When pb_encode succeeds on the
  buffer, pb_encode_nullterminated puts out the same bytes and a zero, or fails if they fill the buffer.
\<close>

theorem pb_encode_framings:
  assumes "callbacks_append env"
  shows "(\<forall>s. pb_encode_delimited n env fs src (pb_ostream_from_buffer m buf cap) = Ok () s \<longrightarrow>
      (\<exists>bs t u. pb_get_encoded_size n env fs src = Ok (of_nat (length bs)) t \<and>
        wrote m buf (varint_enc (of_nat (length bs)) @ bs) s \<and>
        pb_encode n env fs src (second_pass m buf (of_nat (length bs))) = Ok () u \<and> ostate u = ostate s)) \<and>
    (\<forall>sz t u. pb_get_encoded_size n env fs src = Ok sz t \<longrightarrow> length (varint_enc sz) + unat sz \<le> unat cap \<longrightarrow>
      pb_encode n env fs src (second_pass m buf sz) = Ok () u \<longrightarrow>
      (case pb_encode_delimited n env fs src (pb_ostream_from_buffer m buf cap) of
         Ok _ s \<Rightarrow> bytes_written u = sz
       | Fail s \<Rightarrow> bytes_written u \<noteq> sz \<and> oerrmsg s = Some (case oerrmsg u of None \<Rightarrow> ''submsg size changed'' | Some e \<Rightarrow> e)
       | NoResult \<Rightarrow> False)) \<and>
    (\<forall>u. pb_encode n env fs src (pb_ostream_from_buffer m buf cap) = Ok () u \<longrightarrow>
      (case pb_encode_nullterminated n env fs src (pb_ostream_from_buffer m buf cap) of
         Ok _ s \<Rightarrow> bytes_written u < cap \<and> (\<exists>bs. wrote m buf bs u \<and> wrote m buf (bs @ [0]) s)
       | Fail s \<Rightarrow> cap \<le> bytes_written u
       | NoResult \<Rightarrow> False))"
proof (intro conjI allI impI)
  fix s assume run: "pb_encode_delimited n env fs src (pb_ostream_from_buffer m buf cap) = Ok () s"
  then obtain sz t where size: "pb_get_encoded_size n env fs src = Ok sz t"
    by (cases "pb_encode n env fs src PB_OSTREAM_SIZING :: (unit, obuf pb_ostream) outcome")
      (auto simp: pb_encode_delimited_def pb_encode_submessage_def pb_get_encoded_size_def)
  let ?k = "of_nat (length (varint_enc sz)) :: u64"
  obtain u where u: "pb_encode n env fs src (second_pass m buf sz) = Ok () u" "bytes_written u = sz"
    "ostate s = ostate u" "bytes_written s = ?k + sz"
    using run unfolding delimited_run[OF size] by (auto simp: Let_def split: if_splits outcome.splits)
  obtain bs where bs: "wrote (mem_write m buf (varint_enc sz)) (buf + ?k) bs u"
    using encode_wrote[OF assms u(1)[unfolded second_pass_def]] by blast
  have sz: "sz = of_nat (length bs)" using bs u(2) by (simp add: wrote_def)
  have "wrote m buf (varint_enc sz @ bs) s" using bs u(3,4) sz by (simp add: wrote_def mem_write_append add.assoc)
  then show "\<exists>bs t u. pb_get_encoded_size n env fs src = Ok (of_nat (length bs)) t \<and>
      wrote m buf (varint_enc (of_nat (length bs)) @ bs) s \<and>
      pb_encode n env fs src (second_pass m buf (of_nat (length bs))) = Ok () u \<and> ostate u = ostate s"
    using size u(1,3) unfolding sz by metis
next
  fix sz t u
  assume size: "pb_get_encoded_size n env fs src = Ok sz t" and fits: "length (varint_enc sz) + unat sz \<le> unat cap"
    and u: "pb_encode n env fs src (second_pass m buf sz) = Ok () u"
  let ?k = "of_nat (length (varint_enc sz)) :: u64"
  have "unat (?k + sz) = length (varint_enc sz) + unat sz"
    using fits varint_size[of sz] unat_le_bound[of cap] by (simp add: unat_word_ariths(1))
  then have "\<not> cap < ?k" "\<not> cap < ?k + sz" using fits varint_size[of sz] by (simp_all add: word_less_nat_alt)
  then show "case pb_encode_delimited n env fs src (pb_ostream_from_buffer m buf cap) of
         Ok _ s \<Rightarrow> bytes_written u = sz
       | Fail s \<Rightarrow> bytes_written u \<noteq> sz \<and> oerrmsg s = Some (case oerrmsg u of None \<Rightarrow> ''submsg size changed'' | Some e \<Rightarrow> e)
       | NoResult \<Rightarrow> False"
    unfolding delimited_run[OF size] by (simp add: Let_def u oset_error_def split: option.split)
next
  fix u assume u: "pb_encode n env fs src (pb_ostream_from_buffer m buf cap) = Ok () u"
  obtain bs where w: "wrote m buf bs u" and c: "ocallback u = Some buf_write" "max_size u = cap"
    using encode_wrote[OF assms u] by blast
  have o: "ostate u = Some (mem_write m buf bs, buf + of_nat (length bs))" using w by (simp add: wrote_def)
  have full: "bytes_written u + 1 < bytes_written u \<or> cap < bytes_written u + 1 \<longleftrightarrow> cap \<le> bytes_written u"
    by (rule full_byte)
  have "pb_write u [0] 1 = (if cap \<le> bytes_written u then Fail (oset_error u ''stream full'')
     else Ok () (u\<lparr>ostate := Some (mem_write m buf (bs @ [0]), buf + of_nat (length bs) + 1), bytes_written := bytes_written u + 1\<rparr>))"
    using buf_write_ok[OF c(1) o, of "[0]" 1] unfolding c(2) full by (simp add: mem_write_append)
  then show "case pb_encode_nullterminated n env fs src (pb_ostream_from_buffer m buf cap) of
         Ok _ s \<Rightarrow> bytes_written u < cap \<and> (\<exists>bs. wrote m buf bs u \<and> wrote m buf (bs @ [0]) s)
       | Fail s \<Rightarrow> cap \<le> bytes_written u
       | NoResult \<Rightarrow> False"
    using w by (auto simp: pb_encode_nullterminated_def u wrote_def add.assoc intro!: exI[of _ bs])
qed

text \<open>
  A message of one callback field. Its function writes the field in both passes; another one
  writes one byte less when it does not only count.
\<close>

definition callback_desc :: pb_fields where
  "callback_desc = [\<lparr>ftag = 1, ftype = 0x41, data_offset = 0, size_offset = 0, data_size = 16, array_size = 0, fptr = 0\<rparr>]"

definition callback_env :: "u8 \<Rightarrow> obuf enc_env" where
  "callback_env fp = \<lparr>emem = (\<lambda>a. if a = 0x1000 then fp else 0), edescs = (\<lambda>p. []),
     encode_cb = (\<lambda>fp f a s. if fp = 2 \<and> ocallback s \<noteq> None then pb_write s [8] 1 else pb_write s [8, 5] 2),
     ext_encode_cb = (\<lambda>fp e s. Fail s)\<rparr>"

lemma callback_env_adds: "callbacks_append (callback_env fp)"
proof -
  have "adds (encode_cb (callback_env fp) q f a)" for q f a
  proof (rule adds_real)
    show "adds (\<lambda>s. if q = 2 then pb_write s [8] 1 else pb_write s [8, 5] 2)"
      by (intro adds_if adds_write) simp_all
  qed (auto simp: callback_env_def)
  then show ?thesis by (auto simp: callbacks_append_def callback_env_def)
qed

lemma callback_runs:
  "case pb_get_encoded_size 1 (callback_env 1) callback_desc 0x1000 of Ok sz t \<Rightarrow> sz = 2 | _ \<Rightarrow> False"
  "case pb_get_encoded_size 1 (callback_env 2) callback_desc 0x1000 of Ok sz t \<Rightarrow> sz = 2 | _ \<Rightarrow> False"
  "case pb_encode 1 (callback_env 1) callback_desc 0x1000 (second_pass (\<lambda>_. 0) 0x2000 2) of
     Ok _ u \<Rightarrow> bytes_written u = 2 | _ \<Rightarrow> False"
  "case pb_encode 1 (callback_env 2) callback_desc 0x1000 (second_pass (\<lambda>_. 0) 0x2000 2) of
     Ok _ u \<Rightarrow> bytes_written u = 1 \<and> oerrmsg u = None | _ \<Rightarrow> False"
  "case pb_encode 1 (callback_env 1) callback_desc 0x1000 (pb_ostream_from_buffer (\<lambda>_. 0) 0x2000 8) of
     Ok _ u \<Rightarrow> bytes_written u = 2 | _ \<Rightarrow> False"
  by code_simp+

theorem pb_encode_framings_witness:
  "(\<exists>s bs. pb_encode_delimited 1 (callback_env 1) callback_desc 0x1000 (pb_ostream_from_buffer (\<lambda>_. 0) 0x2000 8) = Ok () s \<and>
      wrote (\<lambda>_. 0) 0x2000 (varint_enc 2 @ bs) s) \<and>
   (\<exists>s. pb_encode_delimited 1 (callback_env 2) callback_desc 0x1000 (pb_ostream_from_buffer (\<lambda>_. 0) 0x2000 8) = Fail s \<and>
      oerrmsg s = Some ''submsg size changed'') \<and>
   (\<exists>s bs. pb_encode_nullterminated 1 (callback_env 1) callback_desc 0x1000 (pb_ostream_from_buffer (\<lambda>_. 0) 0x2000 8) = Ok () s \<and>
      wrote (\<lambda>_. 0) 0x2000 (bs @ [0]) s)"
proof (intro conjI)
  let ?out = "pb_ostream_from_buffer (\<lambda>_. 0) 0x2000 8"
  note framings = pb_encode_framings[OF callback_env_adds, where n = 1 and fs = callback_desc and src = "0x1000"
      and m = "\<lambda>_. 0" and buf = "0x2000" and cap = 8]
  have l: "length (varint_enc 2) + unat (2 :: u64) \<le> unat (8 :: u64)" by (simp add: varint_enc.simps)
  obtain t1 where t1: "pb_get_encoded_size 1 (callback_env 1) callback_desc 0x1000 = Ok 2 t1"
    using callback_runs(1) by (auto split: outcome.splits simp del: pb_encode.simps)
  obtain t2 where t2: "pb_get_encoded_size 1 (callback_env 2) callback_desc 0x1000 = Ok 2 t2"
    using callback_runs(2) by (auto split: outcome.splits simp del: pb_encode.simps)
  obtain u1 where u1: "pb_encode 1 (callback_env 1) callback_desc 0x1000 (second_pass (\<lambda>_. 0) 0x2000 2) = Ok () u1" "bytes_written u1 = 2"
    using callback_runs(3) by (auto split: outcome.splits simp del: pb_encode.simps)
  obtain u2 where u2: "pb_encode 1 (callback_env 2) callback_desc 0x1000 (second_pass (\<lambda>_. 0) 0x2000 2) = Ok () u2" "bytes_written u2 = 1"
    "oerrmsg u2 = None" using callback_runs(4) by (auto split: outcome.splits simp del: pb_encode.simps)
  obtain u3 where u3: "pb_encode 1 (callback_env 1) callback_desc 0x1000 ?out = Ok () u3" "bytes_written u3 = 2"
    using callback_runs(5) by (auto split: outcome.splits simp del: pb_encode.simps)
  obtain s1 where s1: "pb_encode_delimited 1 (callback_env 1) callback_desc 0x1000 ?out = Ok () s1"
    using framings[of 1] t1 l u1 by (auto split: outcome.splits simp del: pb_encode.simps)
  obtain bs t where "pb_get_encoded_size 1 (callback_env 1) callback_desc 0x1000 = Ok (of_nat (length bs)) t"
    "wrote (\<lambda>_. 0) 0x2000 (varint_enc (of_nat (length bs)) @ bs) s1" using framings[of 1] s1 by blast
  then show "\<exists>s bs. pb_encode_delimited 1 (callback_env 1) callback_desc 0x1000 ?out = Ok () s \<and> wrote (\<lambda>_. 0) 0x2000 (varint_enc 2 @ bs) s"
    using s1 t1 by (intro exI[of _ s1] exI[of _ bs]) simp
  show "\<exists>s. pb_encode_delimited 1 (callback_env 2) callback_desc 0x1000 ?out = Fail s \<and> oerrmsg s = Some ''submsg size changed''"
    using framings[of 2] t2 l u2 by (auto split: outcome.splits simp del: pb_encode.simps)
  show "\<exists>s bs. pb_encode_nullterminated 1 (callback_env 1) callback_desc 0x1000 ?out = Ok () s \<and> wrote (\<lambda>_. 0) 0x2000 (bs @ [0]) s"
    using framings[of 1] u3 by (auto split: outcome.splits simp del: pb_encode.simps)
qed

end
