(* ===== verification/Const_Time.thy ===== *)
theory Const_Time
  imports Prelude
begin

text \<open>
  The constant-time primitives of BoringSSL (src/crypto/internal.h), which compute masks
  instead of branching, and the ones that base64.c adds for bytes. \<open>crypto_word_t\<close> is 64
  bits wide. Each primitive is shown to be the comparison or choice it stands for: a mask is
  all ones for true and 0 for false. The timing itself is not modelled, and neither are the
  value barriers, which are the identity on values.
\<close>

section \<open>Masks\<close>

definition constant_time_msb_w :: "u64 \<Rightarrow> u64" where
  "constant_time_msb_w a = 0 - drop_bit 63 a"

definition constant_time_lt_w :: "u64 \<Rightarrow> u64 \<Rightarrow> u64" where
  "constant_time_lt_w a b = constant_time_msb_w (a XOR ((a XOR b) OR ((a - b) XOR a)))"

definition constant_time_lt_8 :: "u64 \<Rightarrow> u64 \<Rightarrow> u8" where
  "constant_time_lt_8 a b = ucast (constant_time_lt_w a b)"

definition constant_time_ge_w :: "u64 \<Rightarrow> u64 \<Rightarrow> u64" where
  "constant_time_ge_w a b = NOT (constant_time_lt_w a b)"

definition constant_time_ge_8 :: "u64 \<Rightarrow> u64 \<Rightarrow> u8" where
  "constant_time_ge_8 a b = ucast (constant_time_ge_w a b)"

definition constant_time_is_zero_w :: "u64 \<Rightarrow> u64" where
  "constant_time_is_zero_w a = constant_time_msb_w (NOT a AND (a - 1))"

definition constant_time_is_zero_8 :: "u64 \<Rightarrow> u8" where
  "constant_time_is_zero_8 a = ucast (constant_time_is_zero_w a)"

definition constant_time_eq_w :: "u64 \<Rightarrow> u64 \<Rightarrow> u64" where
  "constant_time_eq_w a b = constant_time_is_zero_w (a XOR b)"

definition constant_time_eq_8 :: "u64 \<Rightarrow> u64 \<Rightarrow> u8" where
  "constant_time_eq_8 a b = ucast (constant_time_eq_w a b)"

definition constant_time_select_w :: "u64 \<Rightarrow> u64 \<Rightarrow> u64 \<Rightarrow> u64" where
  "constant_time_select_w m a b = (m AND a) OR (NOT m AND b)"

definition constant_time_select_8 :: "u8 \<Rightarrow> u8 \<Rightarrow> u8 \<Rightarrow> u8" where
  "constant_time_select_8 m a b = ucast (constant_time_select_w (ucast m) (ucast a) (ucast b))"

text \<open>The ones on \<open>int\<close>: a conversion to \<open>crypto_word_t\<close> extends the sign.\<close>

definition constant_time_eq_int :: "u32 \<Rightarrow> u32 \<Rightarrow> u64" where
  "constant_time_eq_int a b = constant_time_eq_w (scast a) (scast b)"

definition constant_time_eq_int_8 :: "u32 \<Rightarrow> u32 \<Rightarrow> u8" where
  "constant_time_eq_int_8 a b = constant_time_eq_8 (scast a) (scast b)"

definition constant_time_select_int :: "u64 \<Rightarrow> u32 \<Rightarrow> u32 \<Rightarrow> u32" where
  "constant_time_select_int m a b = ucast (constant_time_select_w m (scast a) (scast b))"

text \<open>The two of base64.c. The sum \<open>max - min + 1\<close> is one of ints, cut to a byte by the call.\<close>

definition constant_time_lt_args_8 :: "u8 \<Rightarrow> u8 \<Rightarrow> u8" where
  "constant_time_lt_args_8 a b = ucast (constant_time_msb_w (ucast a - ucast b))"

definition constant_time_in_range_8 :: "u8 \<Rightarrow> u8 \<Rightarrow> u8 \<Rightarrow> u8" where
  "constant_time_in_range_8 a lo hi = constant_time_lt_args_8 (a - lo) (hi - lo + 1)"

section \<open>What they compute\<close>

definition mask_of :: "bool \<Rightarrow> 'a::len word" where
  "mask_of b = (if b then - 1 else 0)"

named_theorems ct_simps \<open>the constant-time primitives as comparisons and choices\<close>

lemma msb_w_mask: "constant_time_msb_w a = mask_of (bit a 63)"
proof -
  have "drop_bit 63 a = (if bit a 63 then 1 else 0)"
  proof (rule bit_word_eqI)
    fix n assume "n < LENGTH(64)"
    show "bit (drop_bit 63 a) n = bit (if bit a 63 then 1 else 0 :: u64) n"
      by (cases "n = 0") (auto simp: bit_drop_bit_eq bit_1_iff dest: bit_imp_le_length)
  qed
  then show ?thesis by (simp add: constant_time_msb_w_def mask_of_def)
qed

lemma bit_63: "bit (a :: u64) 63 \<longleftrightarrow> 2 ^ 63 \<le> unat a"
proof -
  have "unat a div 2 ^ 63 = 0 \<or> unat a div 2 ^ 63 = 1"
    using unat_le_bound[of a] by (simp add: div_eq_0_iff) linarith
  moreover have "bit a 63 \<longleftrightarrow> odd (unat a div 2 ^ 63)"
    using bit_unsigned_iff[of a 63, where 'a = nat] by (simp add: bit_iff_odd)
  moreover have "unat a div 2 ^ 63 = 0 \<longleftrightarrow> unat a < 2 ^ 63" by (simp add: div_eq_0_iff)
  ultimately show ?thesis by (auto simp: not_less)
qed

lemma unat_diff: "unat (a - b :: u64) = (if unat b \<le> unat a then unat a - unat b else 2 ^ 64 + unat a - unat b)"
  by (auto simp: unat_sub_if' word_size)

lemma lt_w_mask [ct_simps]: "constant_time_lt_w a b = mask_of (a < b)"
proof -
  have "bit (a XOR ((a XOR b) OR ((a - b) XOR a))) 63 \<longleftrightarrow>
      (bit a 63 \<noteq> (bit a 63 \<noteq> bit b 63 \<or> bit (a - b) 63 \<noteq> bit a 63))"
    by (simp only: bit_xor_iff bit_or_iff)
  also have "\<dots> \<longleftrightarrow> a < b"
    unfolding bit_63 unat_diff word_less_nat_alt
    using unat_le_bound[of a] unat_le_bound[of b] by auto
  finally have "bit (a XOR ((a XOR b) OR ((a - b) XOR a))) 63 \<longleftrightarrow> a < b" .
  then show ?thesis by (simp add: constant_time_lt_w_def msb_w_mask)
qed

lemma is_zero_w_mask [ct_simps]: "constant_time_is_zero_w a = mask_of (a = 0)"
proof -
  have "bit (NOT a AND (a - 1)) 63 \<longleftrightarrow> \<not> bit a 63 \<and> bit (a - 1) 63"
    by (simp add: bit_and_iff bit_not_iff)
  also have "\<dots> \<longleftrightarrow> unat a = 0"
    unfolding bit_63 unat_diff using unat_le_bound[of a] by auto
  finally have "bit (NOT a AND (a - 1)) 63 \<longleftrightarrow> a = 0" by (simp add: unat_eq_zero)
  then show ?thesis by (simp add: constant_time_is_zero_w_def msb_w_mask)
qed

lemma xor_zero: "(a :: 'a::len word) XOR b = 0 \<longleftrightarrow> a = b"
  by (metis bit.xor_self xor.left_commute xor.right_neutral)

lemma eq_w_mask [ct_simps]: "constant_time_eq_w a b = mask_of (a = b)"
  by (simp add: constant_time_eq_w_def is_zero_w_mask xor_zero)

lemma ge_w_mask [ct_simps]: "constant_time_ge_w a b = mask_of (b \<le> a)"
  by (auto simp: constant_time_ge_w_def lt_w_mask mask_of_def)

lemma ucast_mask [ct_simps]: "ucast (mask_of c :: u64) = (mask_of c :: u8)"
  by (rule bit_word_eqI) (auto simp: mask_of_def bit_simps)

lemma masks_8 [ct_simps]:
  "constant_time_lt_8 a b = mask_of (a < b)"
  "constant_time_ge_8 a b = mask_of (b \<le> a)"
  "constant_time_is_zero_8 a = mask_of (a = 0)"
  "constant_time_eq_8 a b = mask_of (a = b)"
  by (simp_all add: constant_time_lt_8_def constant_time_ge_8_def constant_time_is_zero_8_def
      constant_time_eq_8_def ct_simps)

lemma select_w_mask [ct_simps]: "constant_time_select_w (mask_of c) a b = (if c then a else b)"
  by (simp add: constant_time_select_w_def mask_of_def)

lemma select_8_mask [ct_simps]: "constant_time_select_8 (mask_of c) a b = (if c then a else b)"
  by (rule bit_word_eqI)
    (auto simp: constant_time_select_8_def constant_time_select_w_def mask_of_def bit_simps)

lemma unat_ucast_8_64: "unat (ucast (a :: u8) :: u64) = unat a"
  using unat_le_bound[of a] by (simp add: unsigned_ucast_eq take_bit_nat_eq_self)

lemma lt_args_8_mask [ct_simps]: "constant_time_lt_args_8 a b = mask_of (a < b)"
proof -
  have "bit (ucast a - ucast b :: u64) 63 \<longleftrightarrow> a < b"
    unfolding bit_63 unat_diff unat_ucast_8_64 word_less_nat_alt
    using unat_le_bound[of a] unat_le_bound[of b] by auto
  then show ?thesis by (simp add: constant_time_lt_args_8_def msb_w_mask ct_simps)
qed

lemma in_range_8_mask [ct_simps]:
  assumes "lo \<le> hi" and "hi - lo \<noteq> - 1"
  shows "constant_time_in_range_8 a lo hi = mask_of (lo \<le> a \<and> a \<le> hi)"
proof -
  have "a - lo < hi - lo + 1 \<longleftrightarrow> lo \<le> a \<and> a \<le> hi"
  proof -
    have h: "unat (hi - lo) = unat hi - unat lo" using assms(1) by (simp add: unat_sub word_le_nat_alt)
    have "unat (hi - lo) \<noteq> 255" using assms(2) word_unat_eq_iff[of "hi - lo" "- 1"]
      by (simp add: unsigned_minus_1_eq_mask mask_eq_exp_minus_1)
    then have h1: "unat (hi - lo + 1) = unat hi - unat lo + 1"
      using unat_le_bound[of hi] h by (simp add: unat_word_ariths)
    have "unat (a - lo) = (if unat lo \<le> unat a then unat a - unat lo else unat a + 256 - unat lo)"
      by (auto simp: unat_sub_if' word_size)
    then show ?thesis using assms(1) unat_le_bound[of a] unat_le_bound[of hi] unat_le_bound[of lo]
      unfolding word_less_nat_alt word_le_nat_alt h1 by auto
  qed
  then show ?thesis by (simp add: constant_time_in_range_8_def lt_args_8_mask)
qed

lemma scast_inj_32_64: "(scast (a :: u32) :: u64) = scast b \<longleftrightarrow> a = b"
proof
  assume e: "(scast a :: u64) = scast b"
  have "ucast (scast x :: u64) = (x :: u32)" for x by (rule bit_word_eqI) (auto simp: bit_simps)
  then show "a = b" using e by metis
qed simp

lemma ucast_scast_32_64: "ucast (scast (x :: u32) :: u64) = x"
  by (rule bit_word_eqI) (auto simp: bit_simps)

text \<open>
  Every mask of the constant-time library is all ones when its comparison holds and zero when
  not, for words, bytes and ints, and a choice by such a mask is the choice by the comparison.
\<close>

theorem constant_time_exact:
  "constant_time_lt_w a b = mask_of (a < b) \<and> constant_time_ge_w a b = mask_of (b \<le> a) \<and>
   constant_time_eq_w a b = mask_of (a = b) \<and> constant_time_is_zero_w a = mask_of (a = 0) \<and>
   constant_time_lt_8 a b = mask_of (a < b) \<and> constant_time_ge_8 a b = mask_of (b \<le> a) \<and>
   constant_time_eq_8 a b = mask_of (a = b) \<and> constant_time_is_zero_8 a = mask_of (a = 0) \<and>
   constant_time_eq_int x y = mask_of (x = y) \<and> constant_time_eq_int_8 x y = mask_of (x = y) \<and>
   constant_time_select_w (mask_of c) a b = (if c then a else b) \<and>
   constant_time_select_8 (mask_of c) p q = (if c then p else q) \<and>
   constant_time_select_int (mask_of c) x y = (if c then x else y)"
  by (simp add: ct_simps constant_time_eq_int_def constant_time_eq_int_8_def scast_inj_32_64
      constant_time_select_int_def ucast_scast_32_64)

end
