(* ===== verification/Base64.thy ===== *)
theory Base64
  imports Const_Time
begin

text \<open>
  Base64 in BoringSSL (src/crypto/base64/base64.c): the constant-time conversions between six
  bits and a character, one-shot and streaming encoding, one-shot and streaming decoding.

  A C function that fills a buffer returns the bytes it has stored, the terminating zero
  included; \<open>int\<close> results are 32-bit words.
\<close>

section \<open>Characters\<close>

abbreviation CH_NL :: u8 where "CH_NL \<equiv> 0x0A"
abbreviation CH_EQ :: u8 where "CH_EQ \<equiv> 0x3D"

definition conv_bin2ascii :: "u8 \<Rightarrow> u8" where
  "conv_bin2ascii a0 =
     (let a = a0 AND 0x3F;
          ret = constant_time_select_8 (constant_time_eq_8 (ucast a) 62) 0x2B 0x2F;
          ret = constant_time_select_8 (constant_time_lt_args_8 a 62) (a - 52 + 0x30) ret;
          ret = constant_time_select_8 (constant_time_lt_args_8 a 52) (a - 26 + 0x61) ret
      in constant_time_select_8 (constant_time_lt_args_8 a 26) (a + 0x41) ret)"

definition base64_ascii_to_bin :: "u8 \<Rightarrow> u8" where
  "base64_ascii_to_bin a =
     (let is_upper = constant_time_in_range_8 a 0x41 0x5A;
          is_lower = constant_time_in_range_8 a 0x61 0x7A;
          is_digit = constant_time_in_range_8 a 0x30 0x39;
          is_plus = constant_time_eq_8 (ucast a) 0x2B;
          is_slash = constant_time_eq_8 (ucast a) 0x2F;
          is_equals = constant_time_eq_8 (ucast a) 0x3D;
          ret = (is_upper AND (a - 0x41)) OR (is_lower AND (a - 0x61 + 26)) OR
                (is_digit AND (a - 0x30 + 52)) OR (is_plus AND 62) OR (is_slash AND 63);
          is_valid = is_upper OR is_lower OR is_digit OR is_plus OR is_slash OR is_equals
      in ret OR NOT is_valid)"

section \<open>Encoding\<close>

definition EVP_EncodedLength :: "u64 \<Rightarrow> u64 option" where
  "EVP_EncodedLength len0 =
     (if len0 + 2 < len0 then None
      else let len = (len0 + 2) div 3 in
        if drop_bit 2 (push_bit 2 len) \<noteq> len then None
        else let len = push_bit 2 len in
          if len + 1 < len then None else Some (len + 1))"

text \<open>The characters that EVP_EncodeBlock puts out for its input, before the terminating zero.\<close>

fun encode_chars :: "bytes \<Rightarrow> bytes" where
  "encode_chars (a # b # c # rest) =
     (let l = push_bit 16 (ucast a) OR push_bit 8 (ucast b) OR ucast c :: u32 in
      conv_bin2ascii (ucast (drop_bit 18 l)) # conv_bin2ascii (ucast (drop_bit 12 l)) #
      conv_bin2ascii (ucast (drop_bit 6 l)) # conv_bin2ascii (ucast l) # encode_chars rest)"
| "encode_chars [a, b] =
     (let l = push_bit 16 (ucast a) OR push_bit 8 (ucast b) :: u32 in
      [conv_bin2ascii (ucast (drop_bit 18 l)), conv_bin2ascii (ucast (drop_bit 12 l)),
       conv_bin2ascii (ucast (drop_bit 6 l)), CH_EQ])"
| "encode_chars [a] =
     (let l = push_bit 16 (ucast a) :: u32 in
      [conv_bin2ascii (ucast (drop_bit 18 l)), conv_bin2ascii (ucast (drop_bit 12 l)), CH_EQ, CH_EQ])"
| "encode_chars [] = []"

definition EVP_EncodeBlock :: "bytes \<Rightarrow> bytes \<times> u64" where
  "EVP_EncodeBlock src = (encode_chars src @ [0], of_nat (length (encode_chars src)))"

text \<open>The streaming context: \<open>data\<close> is an array of 48 bytes.\<close>

record EVP_ENCODE_CTX =
  data_used :: u32
  data :: bytes
  eof_seen :: bool
  error_encountered :: bool

definition EVP_EncodeInit :: EVP_ENCODE_CTX where
  "EVP_EncodeInit = \<lparr>data_used = 0, data = replicate 48 0, eof_seen = False, error_encountered = False\<rparr>"

text \<open>\<open>OPENSSL_memcpy(&ctx->data[off], src, n)\<close>.\<close>

definition memcpy_at :: "nat \<Rightarrow> bytes \<Rightarrow> bytes \<Rightarrow> bytes" where
  "memcpy_at off src arr = take off arr @ src @ drop (off + length src) arr"

text \<open>
  The loop over whole lines. It stops early, with False, when the count of bytes put out wraps
  around; \<open>out\<close> is what has been put out before the terminating zero.
\<close>

fun encode_whole :: "nat \<Rightarrow> bytes \<Rightarrow> bytes \<Rightarrow> u64 \<Rightarrow> bool \<times> bytes \<times> bytes \<times> u64" where
  "encode_whole 0 ins out tot = (True, ins, out, tot)"
| "encode_whole (Suc k) ins out tot =
     (if 48 \<le> length ins
      then (let blk = encode_chars (take 48 ins); encoded = of_nat (length blk);
                ins = drop 48 ins; out = out @ blk @ [CH_NL]
            in if tot + encoded + 1 < tot then (False, ins, out, tot)
               else encode_whole k ins out (tot + encoded + 1))
      else (True, ins, out, tot))"

definition EVP_EncodeUpdate :: "EVP_ENCODE_CTX \<Rightarrow> bytes \<Rightarrow> EVP_ENCODE_CTX \<times> bytes \<times> u32" where
  "EVP_EncodeUpdate ctx ins =
     (let used = unat (data_used ctx) in
      if ins = [] then (ctx, [], 0)
      else if length ins < 48 - used
      then (ctx\<lparr>data := memcpy_at used ins (data ctx), data_used := data_used ctx + of_nat (length ins)\<rparr>, [], 0)
      else
        let todo = 48 - used;
            flush = (used \<noteq> 0);
            full = memcpy_at used (take todo ins) (data ctx);
            ctx1 = (if flush then ctx\<lparr>data := full, data_used := 0\<rparr> else ctx);
            ins1 = (if flush then drop todo ins else ins);
            out1 = (if flush then encode_chars full @ [CH_NL] else []);
            tot1 = (if flush then of_nat (length (encode_chars full)) + 1 else 0)
        in (case encode_whole (length ins1) ins1 out1 tot1 of (ok, rest, out, tot) \<Rightarrow>
              let stored = (if out = [] then [] else out @ [0]) in
              if \<not> ok then (ctx1, stored, 0)
              else (ctx1\<lparr>data := (if rest \<noteq> [] then memcpy_at 0 rest (data ctx1) else data ctx1),
                         data_used := of_nat (length rest)\<rparr>, stored,
                    (if 0x7FFFFFFF < tot then 0 else ucast tot))))"

definition EVP_EncodeFinal :: "EVP_ENCODE_CTX \<Rightarrow> EVP_ENCODE_CTX \<times> bytes \<times> u32" where
  "EVP_EncodeFinal ctx =
     (if data_used ctx = 0 then (ctx, [], 0)
      else let chars = encode_chars (take (unat (data_used ctx)) (data ctx)) in
        (ctx\<lparr>data_used := 0\<rparr>, chars @ [CH_NL, 0], of_nat (length chars + 1)))"

section \<open>Decoding\<close>

definition EVP_DecodedLength :: "u64 \<Rightarrow> u64 option" where
  "EVP_DecodedLength len = (if len mod 4 \<noteq> 0 then None else Some (len div 4 * 3))"

definition EVP_DecodeInit :: EVP_ENCODE_CTX where
  "EVP_DecodeInit = \<lparr>data_used = 0, data = replicate 48 0, eof_seen = False, error_encountered = False\<rparr>"

definition base64_decode_quad :: "u8 \<Rightarrow> u8 \<Rightarrow> u8 \<Rightarrow> u8 \<Rightarrow> bytes option" where
  "base64_decode_quad in0 in1 in2 in3 =
     (let a = base64_ascii_to_bin in0; b = base64_ascii_to_bin in1;
          c = base64_ascii_to_bin in2; d = base64_ascii_to_bin in3 in
      if a = 0xFF \<or> b = 0xFF \<or> c = 0xFF \<or> d = 0xFF then None
      else
        let v = push_bit 18 (ucast a) OR push_bit 12 (ucast b) OR push_bit 6 (ucast c) OR ucast d :: u32;
            flag = (\<lambda>i k. if i = CH_EQ then push_bit k 1 else 0 :: u32);
            pattern = flag in0 3 OR flag in1 2 OR flag in2 1 OR flag in3 0
        in if pattern = 0 then Some [ucast (drop_bit 16 v), ucast (drop_bit 8 v), ucast v]
           else if pattern = 1 then Some [ucast (drop_bit 16 v), ucast (drop_bit 8 v)]
           else if pattern = 3 then Some [ucast (drop_bit 16 v)]
           else None)"

definition is_space :: "u8 \<Rightarrow> bool" where
  "is_space c \<longleftrightarrow> c = 0x20 \<or> c = 0x09 \<or> c = 0x0D \<or> c = 0x0A"

text \<open>The loop of EVP_DecodeUpdate; False is the return with an error.\<close>

fun decode_chars :: "EVP_ENCODE_CTX \<Rightarrow> bytes \<Rightarrow> bytes \<Rightarrow> u64 \<Rightarrow> bool \<times> EVP_ENCODE_CTX \<times> bytes \<times> u64" where
  "decode_chars ctx [] out n = (True, ctx, out, n)"
| "decode_chars ctx (c # cs) out n =
     (if is_space c then decode_chars ctx cs out n
      else if eof_seen ctx then (False, ctx\<lparr>error_encountered := True\<rparr>, out, n)
      else
        let ctx = ctx\<lparr>data := (data ctx)[unat (data_used ctx) := c], data_used := data_used ctx + 1\<rparr> in
        if data_used ctx = 4
        then (case base64_decode_quad (data ctx ! 0) (data ctx ! 1) (data ctx ! 2) (data ctx ! 3) of
                None \<Rightarrow> (False, ctx\<lparr>error_encountered := True\<rparr>, out, n)
              | Some bs \<Rightarrow>
                  decode_chars (ctx\<lparr>data_used := 0, eof_seen := (length bs < 3 \<or> eof_seen ctx)\<rparr>) cs
                    (out @ bs) (n + of_nat (length bs)))
        else decode_chars ctx cs out n)"

definition EVP_DecodeUpdate :: "EVP_ENCODE_CTX \<Rightarrow> bytes \<Rightarrow> u32 \<times> EVP_ENCODE_CTX \<times> bytes \<times> u32" where
  "EVP_DecodeUpdate ctx ins =
     (if error_encountered ctx then (- 1, ctx, [], 0)
      else (case decode_chars ctx ins [] 0 of (ok, ctx', out, n) \<Rightarrow>
        if \<not> ok then (- 1, ctx', out, 0)
        else if 0x7FFFFFFF < n then (- 1, ctx'\<lparr>error_encountered := True\<rparr>, out, 0)
        else (if eof_seen ctx' then 0 else 1, ctx', out, ucast n)))"

definition EVP_DecodeFinal :: "EVP_ENCODE_CTX \<Rightarrow> u32" where
  "EVP_DecodeFinal ctx = (if error_encountered ctx \<or> data_used ctx \<noteq> 0 then - 1 else 1)"

text \<open>The quads of EVP_DecodeBase64: only the last may be padded. The length is a multiple of 4.\<close>

fun decode_quads :: "bytes \<Rightarrow> bytes option" where
  "decode_quads (a # b # c # d # rest) =
     (case base64_decode_quad a b c d of
        None \<Rightarrow> None
      | Some bs \<Rightarrow> if length bs \<noteq> 3 \<and> rest \<noteq> [] then None else map_option ((@) bs) (decode_quads rest))"
| "decode_quads _ = Some []"

definition EVP_DecodeBase64 :: "u64 \<Rightarrow> bytes \<Rightarrow> bytes option" where
  "EVP_DecodeBase64 max_out ins =
     (let in_len = of_nat (length ins) :: u64 in
      if in_len mod 4 \<noteq> 0 then None
      else (case EVP_DecodedLength in_len of
              None \<Rightarrow> None
            | Some max_len \<Rightarrow> if max_out < max_len then None else decode_quads ins))"

definition EVP_DecodeBlock :: "bytes \<Rightarrow> bytes option" where
  "EVP_DecodeBlock src =
     (let src = dropWhile (\<lambda>c. c = 0x20 \<or> c = 0x09) src;
          src = rev (dropWhile is_space (rev src)) in
      case EVP_DecodedLength (of_nat (length src)) of
        None \<Rightarrow> None
      | Some dst_len \<Rightarrow>
          if 0x7FFFFFFF < dst_len then None
          else (case EVP_DecodeBase64 dst_len src of
                  None \<Rightarrow> None
                | Some bs \<Rightarrow> Some (bs @ replicate ((3 - length bs mod 3) mod 3) 0)))"

section \<open>Six bits and a character\<close>

lemma conv_masks: "conv_bin2ascii (x AND 0x3F) = conv_bin2ascii x"
  by (simp add: conv_bin2ascii_def Let_def and.assoc)

text \<open>The two conversions with their masks resolved.\<close>

lemma conv_plain:
  "conv_bin2ascii x = (let a = x AND 0x3F in
     if a < 26 then a + 0x41 else if a < 52 then a - 26 + 0x61 else if a < 62 then a - 52 + 0x30
     else if a = 62 then 0x2B else 0x2F)"
proof -
  have "ucast (x AND 0x3F) = (62 :: u64) \<longleftrightarrow> x AND 0x3F = 62"
    by (simp add: word_unat_eq_iff unat_ucast_8_64)
  then show ?thesis by (simp add: conv_bin2ascii_def Let_def ct_simps)
qed

lemma unconv_plain:
  "base64_ascii_to_bin a =
     (if 0x41 \<le> a \<and> a \<le> 0x5A then a - 0x41 else if 0x61 \<le> a \<and> a \<le> 0x7A then a - 0x61 + 26
      else if 0x30 \<le> a \<and> a \<le> 0x39 then a - 0x30 + 52 else if a = 0x2B then 62
      else if a = 0x2F then 63 else if a = CH_EQ then 0 else 0xFF)"
proof -
  have u: "ucast a = (0x2B :: u64) \<longleftrightarrow> unat a = 0x2B" "ucast a = (0x2F :: u64) \<longleftrightarrow> unat a = 0x2F"
    "ucast a = (0x3D :: u64) \<longleftrightarrow> unat a = 0x3D"
    by (simp_all add: word_unat_eq_iff unat_ucast_8_64)
  show ?thesis
    by (simp add: base64_ascii_to_bin_def Let_def ct_simps u)
      (auto simp: mask_of_def word_le_nat_alt word_unat_eq_iff unsigned_minus_1_eq_mask mask_eq_exp_minus_1)
qed

lemma conv_table:
  "list_all (\<lambda>n. let c = conv_bin2ascii (of_nat n) in
     base64_ascii_to_bin c = of_nat n \<and> c \<noteq> CH_EQ \<and> \<not> is_space c) [0..<64]"
  unfolding conv_plain unconv_plain is_space_def by code_simp

lemma conv_bin2ascii_facts:
  "base64_ascii_to_bin (conv_bin2ascii x) = x AND 0x3F"
  "conv_bin2ascii x \<noteq> CH_EQ"
  "\<not> is_space (conv_bin2ascii x)"
proof -
  have m: "x AND 0x3F = take_bit 6 x" by (simp add: take_bit_eq_mask mask_eq_exp_minus_1)
  have "unat (x AND 0x3F) < 64" unfolding m
    using take_bit_nat_less_exp[of 6 "unat x"] by (simp add: unsigned_take_bit_eq)
  then have "unat (x AND 0x3F) \<in> set [0..<64]" by simp
  from bspec[OF conv_table[unfolded list_all_iff] this]
  have "base64_ascii_to_bin (conv_bin2ascii (x AND 0x3F)) = x AND 0x3F \<and>
      conv_bin2ascii (x AND 0x3F) \<noteq> CH_EQ \<and> \<not> is_space (conv_bin2ascii (x AND 0x3F))"
    by (simp add: Let_def)
  then show "base64_ascii_to_bin (conv_bin2ascii x) = x AND 0x3F" "conv_bin2ascii x \<noteq> CH_EQ"
    "\<not> is_space (conv_bin2ascii x)" by (simp_all add: conv_masks)
qed

lemma six_not_FF: "x AND 0x3F \<noteq> (0xFF :: u8)"
proof
  assume e: "x AND 0x3F = 0xFF"
  have "\<not> bit (x AND 0x3F) 7" by (simp add: bit_and_iff)
  then show False unfolding e by simp
qed

lemma byte_cases: "n < 8 \<Longrightarrow> n = 0 \<or> n = 1 \<or> n = 2 \<or> n = 3 \<or> n = 4 \<or> n = 5 \<or> n = 6 \<or> n = (7 :: nat)"
  by linarith

definition join4 :: "u8 \<Rightarrow> u8 \<Rightarrow> u8 \<Rightarrow> u8 \<Rightarrow> u32" where
  "join4 a b c d = push_bit 18 (ucast a) OR push_bit 12 (ucast b) OR push_bit 6 (ucast c) OR ucast d"

lemma join4_split:
  fixes l :: u32
  shows "join4 (ucast (drop_bit 18 l) AND 0x3F) (ucast (drop_bit 12 l) AND 0x3F)
      (ucast (drop_bit 6 l) AND 0x3F) (ucast l AND 0x3F) = take_bit 24 l"
proof -
  have six: "(x :: u8) AND 0x3F = take_bit 6 x" for x
    by (simp add: take_bit_eq_mask mask_eq_exp_minus_1)
  show ?thesis unfolding join4_def six
  proof (rule bit_word_eqI)
    fix n assume n: "n < LENGTH(32)"
    consider "n < 6" | m where "n = 6 + m" "m < 6" | m where "n = 12 + m" "m < 6"
      | m where "n = 18 + m" "m < 6" | "24 \<le> n"
    proof -
      have "n < 6 \<or> n = 6 + (n - 6) \<and> n - 6 < 6 \<or> n = 12 + (n - 12) \<and> n - 12 < 6
          \<or> n = 18 + (n - 18) \<and> n - 18 < 6 \<or> 24 \<le> n" by linarith
      then show ?thesis using that by blast
    qed
    then show "bit (push_bit 18 (ucast (take_bit 6 (ucast (drop_bit 18 l) :: u8))) OR
        push_bit 12 (ucast (take_bit 6 (ucast (drop_bit 12 l) :: u8))) OR
        push_bit 6 (ucast (take_bit 6 (ucast (drop_bit 6 l) :: u8))) OR
        ucast (take_bit 6 (ucast l :: u8)) :: u32) n = bit (take_bit 24 l) n"
      using n by cases (auto simp: bit_simps ac_simps)
  qed
qed

section \<open>One quad\<close>

abbreviation quad24 :: "u8 \<Rightarrow> u8 \<Rightarrow> u8 \<Rightarrow> u32" where
  "quad24 a b c \<equiv> push_bit 16 (ucast a) OR push_bit 8 (ucast b) OR ucast c"

lemma quad24_bytes:
  "ucast (drop_bit 16 (take_bit 24 (quad24 a b c))) = a"
  "ucast (drop_bit 8 (take_bit 24 (quad24 a b c))) = b"
  "ucast (take_bit 24 (quad24 a b c)) = c"
  by (rule bit_word_eqI; auto simp: bit_simps dest: bit_imp_le_length)+

lemma quad24_low:
  "ucast (quad24 a b 0) AND 0x3F = (0 :: u8)" "ucast (drop_bit 6 (quad24 a 0 0)) AND 0x3F = (0 :: u8)"
proof -
  have six: "(x :: u8) AND 0x3F = take_bit 6 x" for x
    by (simp add: take_bit_eq_mask mask_eq_exp_minus_1)
  show "ucast (quad24 a b 0) AND 0x3F = (0 :: u8)" "ucast (drop_bit 6 (quad24 a 0 0)) AND 0x3F = (0 :: u8)"
    unfolding six by (rule bit_word_eqI; auto simp: bit_simps)+
qed

lemma unconv_eq: "base64_ascii_to_bin CH_EQ = 0"
  by (simp add: unconv_plain)

lemma decode_quad_encoded:
  "base64_decode_quad (conv_bin2ascii (ucast (drop_bit 18 (quad24 a b c)))) (conv_bin2ascii (ucast (drop_bit 12 (quad24 a b c))))
     (conv_bin2ascii (ucast (drop_bit 6 (quad24 a b c)))) (conv_bin2ascii (ucast (quad24 a b c))) = Some [a, b, c]"
  "base64_decode_quad (conv_bin2ascii (ucast (drop_bit 18 (quad24 a b 0)))) (conv_bin2ascii (ucast (drop_bit 12 (quad24 a b 0))))
     (conv_bin2ascii (ucast (drop_bit 6 (quad24 a b 0)))) CH_EQ = Some [a, b]"
  "base64_decode_quad (conv_bin2ascii (ucast (drop_bit 18 (quad24 a 0 0)))) (conv_bin2ascii (ucast (drop_bit 12 (quad24 a 0 0))))
     CH_EQ CH_EQ = Some [a]"
proof -
  note j = join4_split[unfolded join4_def]
  note facts = conv_bin2ascii_facts unconv_eq six_not_FF
  show "base64_decode_quad (conv_bin2ascii (ucast (drop_bit 18 (quad24 a b c)))) (conv_bin2ascii (ucast (drop_bit 12 (quad24 a b c))))
     (conv_bin2ascii (ucast (drop_bit 6 (quad24 a b c)))) (conv_bin2ascii (ucast (quad24 a b c))) = Some [a, b, c]"
    by (simp only: base64_decode_quad_def Let_def facts j[of "quad24 a b c"] quad24_bytes) simp
  show "base64_decode_quad (conv_bin2ascii (ucast (drop_bit 18 (quad24 a b 0)))) (conv_bin2ascii (ucast (drop_bit 12 (quad24 a b 0))))
     (conv_bin2ascii (ucast (drop_bit 6 (quad24 a b 0)))) CH_EQ = Some [a, b]"
    by (simp only: base64_decode_quad_def Let_def facts
        j[of "quad24 a b 0", unfolded quad24_low] quad24_bytes) simp
  show "base64_decode_quad (conv_bin2ascii (ucast (drop_bit 18 (quad24 a 0 0)))) (conv_bin2ascii (ucast (drop_bit 12 (quad24 a 0 0))))
     CH_EQ CH_EQ = Some [a]"
    by (simp only: base64_decode_quad_def Let_def facts
        j[of "quad24 a 0 0", unfolded quad24_low] quad24_bytes) simp
qed

lemma quads_of_chars: "decode_quads (encode_chars bs) = Some bs"
proof (induction bs rule: encode_chars.induct)
  case (1 a b c rest)
  show ?case
    by (simp only: encode_chars.simps decode_quads.simps Let_def decode_quad_encoded(1) option.case 1) simp
next
  case (2 a b)
  show ?case
    using decode_quad_encoded(2)[of a b] by (simp del: drop_bit_or add: Let_def)
next
  case (3 a)
  show ?case
    using decode_quad_encoded(3)[of a] by (simp del: drop_bit_or add: Let_def)
qed simp

lemma length_encode_chars: "length (encode_chars bs) = 4 * ((length bs + 2) div 3)"
proof (induction bs rule: encode_chars.induct)
  case (1 a b c rest)
  have "(length (a # b # c # rest) + 2) div 3 = (length rest + 2) div 3 + 1" by simp
  then show ?case using 1 by (simp add: Let_def)
qed (simp_all add: Let_def)

section \<open>Streaming encoding\<close>

text \<open>
  The text that streaming encoding is to give: lines of 48 bytes' characters. A client calls
  EVP_EncodeUpdate on each chunk and EVP_EncodeFinal, and takes \<open>*out_len\<close> bytes after each.
\<close>

function pem_lines :: "bytes \<Rightarrow> bytes" where
  "pem_lines bs = (if bs = [] then [] else encode_chars (take 48 bs) @ [CH_NL] @ pem_lines (drop 48 bs))"
  by pat_completeness auto
termination by (relation "measure length") auto

declare pem_lines.simps [simp del]

fun encode_stream :: "EVP_ENCODE_CTX \<Rightarrow> bytes list \<Rightarrow> bytes" where
  "encode_stream ctx [] = (case EVP_EncodeFinal ctx of (_, out, n) \<Rightarrow> take (unat n) out)"
| "encode_stream ctx (xs # rest) =
     (case EVP_EncodeUpdate ctx xs of (ctx', out, n) \<Rightarrow> take (unat n) out @ encode_stream ctx' rest)"

text \<open>The bytes that wait in the context for a whole line.\<close>

definition enc_ok :: "bytes \<Rightarrow> EVP_ENCODE_CTX \<Rightarrow> bool" where
  "enc_ok p ctx \<longleftrightarrow> length (data ctx) = 48 \<and> unat (data_used ctx) = length p \<and> length p < 48 \<and>
     take (length p) (data ctx) = p"

lemma enc_ok_init: "enc_ok [] EVP_EncodeInit"
  by (simp add: enc_ok_def EVP_EncodeInit_def)

lemma memcpy_at_length: "off + length src \<le> length arr \<Longrightarrow> length (memcpy_at off src arr) = length arr"
  by (simp add: memcpy_at_def)

lemma memcpy_at_take:
  "off \<le> length arr \<Longrightarrow> take (off + length src) (memcpy_at off src arr) = take off arr @ src"
  by (simp add: memcpy_at_def)

lemma length_block: "length bs = 48 \<Longrightarrow> length (encode_chars bs) = 64"
  by (simp add: length_encode_chars)

lemma pem_lines_step: "length bs = 48 \<Longrightarrow> pem_lines (bs @ rest) = encode_chars bs @ [CH_NL] @ pem_lines rest"
  by (subst pem_lines.simps) auto

lemma encode_whole_lines:
  assumes "length ins div 48 \<le> k" and "unat tot + 65 * (length ins div 48) < 2 ^ 64"
  shows "\<exists>ls rest bs. encode_whole k ins out tot = (True, rest, out @ ls, tot + of_nat (length ls)) \<and>
     ins = bs @ rest \<and> length rest = length ins mod 48 \<and> length ls = 65 * (length ins div 48) \<and>
     (\<forall>r. pem_lines (bs @ r) = ls @ pem_lines r)"
  using assms
proof (induction k arbitrary: ins out tot)
  case 0
  then have "length ins < 48" by simp
  then show ?case by (auto intro!: exI[of _ "[] :: bytes"])
next
  case (Suc k)
  show ?case
  proof (cases "48 \<le> length ins")
    case False
    then show ?thesis by (auto intro!: exI[of _ "[] :: bytes"])
  next
    case True
    let ?b = "take 48 ins" and ?i = "drop 48 ins"
    let ?l = "encode_chars ?b @ [CH_NL]"
    have lb: "length ?b = 48" and ll: "length (encode_chars ?b) = 64"
      using True by (simp_all add: length_block)
    have d: "length ins div 48 = Suc (length ?i div 48)" and m: "length ins mod 48 = length ?i mod 48"
      using True by (simp_all add: le_div_geq le_mod_geq)
    have u: "unat (tot + 65) = unat tot + 65"
      using Suc.prems(2) d by (simp add: unat_word_ariths)
    then have nw: "\<not> tot + 65 < tot" by (simp add: word_less_nat_alt)
    have p1: "length ?i div 48 \<le> k" and p2: "unat (tot + 65) + 65 * (length ?i div 48) < 2 ^ 64"
      using Suc.prems unfolding u d by simp_all
    obtain ls rest bs where IH:
      "encode_whole k ?i (out @ ?l) (tot + 65) = (True, rest, (out @ ?l) @ ls, tot + 65 + of_nat (length ls))"
      "?i = bs @ rest" "length rest = length ?i mod 48" "length ls = 65 * (length ?i div 48)"
      "\<And>r. pem_lines (bs @ r) = ls @ pem_lines r"
      using Suc.IH[OF p1 p2, of "out @ ?l"] by blast
    have "encode_whole (Suc k) ins out tot = (True, rest, out @ (?l @ ls), tot + of_nat (length (?l @ ls)))"
      using True nw IH(1) by (simp add: Let_def ll add.assoc)
    moreover have "ins = (?b @ bs) @ rest" using IH(2) by (metis append_assoc append_take_drop_id)
    moreover have "length (?l @ ls) = 65 * (length ins div 48)" using IH(4) ll d by simp
    moreover have "pem_lines ((?b @ bs) @ r) = (?l @ ls) @ pem_lines r" for r
      using pem_lines_step[OF lb, of "bs @ r"] IH(5) by simp
    ultimately show ?thesis using IH(3) m by metis
  qed
qed

lemma ucast_of_nat_32: "ucast (of_nat n :: u64) = (of_nat n :: u32)"
  by (rule bit_word_eqI) (simp add: bit_simps)

text \<open>
  One update: what it puts out is the next lines of the text, and \<open>*out_len\<close> counts them.
\<close>

lemma encode_update_lines:
  assumes ok: "enc_ok p ctx" and bound: "length ins < 2 ^ 30"
  shows "\<exists>ctx' out n p'. EVP_EncodeUpdate ctx ins = (ctx', out, n) \<and> enc_ok p' ctx' \<and>
     (\<forall>r. pem_lines (p @ ins @ r) = take (unat n) out @ pem_lines (p' @ r))"
proof -
  note okd = ok[unfolded enc_ok_def]
  let ?used = "unat (data_used ctx)"
  consider "ins = []" | "ins \<noteq> []" "length ins < 48 - ?used" | "ins \<noteq> []" "48 - ?used \<le> length ins"
    by linarith
  then show ?thesis
  proof cases
    case 1
    then show ?thesis using ok by (auto simp: EVP_EncodeUpdate_def Let_def)
  next
    case 2
    have "enc_ok (p @ ins) (ctx\<lparr>data := memcpy_at ?used ins (data ctx), data_used := data_used ctx + of_nat (length ins)\<rparr>)"
      using okd 2 by (simp add: enc_ok_def memcpy_at_length memcpy_at_take[of "length p", simplified]
          unat_word_ariths unat_of_nat)
    then show ?thesis using 2 by (auto simp: EVP_EncodeUpdate_def Let_def)
  next
    case 3
    define full where "full = memcpy_at ?used (take (48 - ?used) ins) (data ctx)"
    define flush where "flush = (?used \<noteq> 0)"
    define ctx1 where "ctx1 = (if flush then ctx\<lparr>data := full, data_used := 0\<rparr> else ctx)"
    define ins1 where "ins1 = (if flush then drop (48 - ?used) ins else ins)"
    define out1 where "out1 = (if flush then encode_chars full @ [CH_NL] else [])"
    have lfull: "length full = 48" using okd 3 by (simp add: full_def memcpy_at_length)
    have l1: "length (data ctx1) = 48" using okd lfull by (simp add: ctx1_def)
    have lout: "length out1 = (if flush then 65 else 0)"
      by (simp add: out1_def length_block[OF lfull])
    have first: "pem_lines (p @ ins @ r) = out1 @ pem_lines (ins1 @ r)" for r
    proof (cases flush)
      case True
      have e: "p @ ins @ r = full @ drop (48 - ?used) ins @ r"
        using okd 3 by (simp add: full_def memcpy_at_def)
      show ?thesis
        unfolding e using pem_lines_step[OF lfull, of "drop (48 - ?used) ins @ r"] True by (simp add: out1_def ins1_def)
    next
      case False
      then show ?thesis using okd by (simp add: flush_def out1_def ins1_def)
    qed
    have li: "length ins1 < 2 ^ 30" using bound by (auto simp: ins1_def)
    have tot1: "(if flush then of_nat (length (encode_chars full)) + 1 else 0) = (of_nat (length out1) :: u64)"
      by (simp add: out1_def)
    have lb: "65 * (length ins1 div 48) < 2 ^ 30 * 3 div 2"
      using li div_times_less_eq_dividend[of "length ins1" 48] by simp
    then have w: "unat (of_nat (length out1) :: u64) + 65 * (length ins1 div 48) < 2 ^ 64"
      by (simp add: lout unat_of_nat)
    have "length ins1 div 48 \<le> length ins1" by simp
    from encode_whole_lines[OF this w, of out1] obtain ls rest bs where W: "encode_whole (length ins1) ins1 out1 (of_nat (length out1)) =
        (True, rest, out1 @ ls, of_nat (length out1) + of_nat (length ls))"
      and b: "ins1 = bs @ rest" "length rest = length ins1 mod 48" "length ls = 65 * (length ins1 div 48)"
        "\<And>r. pem_lines (bs @ r) = ls @ pem_lines r" by blast
    let ?o = "out1 @ ls"
    have lo: "length ?o \<le> 0x7FFFFFFF" using lb b(3) by (simp add: lout)
    then have uo: "unat (of_nat (length ?o) :: u64) = length ?o" and ul: "unat (of_nat (length ?o) :: u32) = length ?o"
      by (simp_all add: unat_of_nat del: length_append of_nat_add)
    have nlt: "\<not> (0x7FFFFFFF :: u64) < of_nat (length out1) + of_nat (length ls)"
      using lo uo by (simp add: word_less_nat_alt flip: of_nat_add)
    have uc: "ucast (of_nat (length out1) + of_nat (length ls) :: u64) = (of_nat (length ?o) :: u32)"
      by (metis length_append of_nat_add ucast_of_nat_32)
    have c: "ins = [] \<longleftrightarrow> False" "length ins < 48 - ?used \<longleftrightarrow> False" using 3 by simp_all
    have upd: "EVP_EncodeUpdate ctx ins =
        (ctx1\<lparr>data := (if rest \<noteq> [] then memcpy_at 0 rest (data ctx1) else data ctx1),
              data_used := of_nat (length rest)\<rparr>,
         (if ?o = [] then [] else ?o @ [0]), of_nat (length ?o))"
      by (simp only: EVP_EncodeUpdate_def Let_def c if_False if_True full_def[symmetric] flush_def[symmetric]
          ctx1_def[symmetric] ins1_def[symmetric] out1_def[symmetric] tot1 W prod.case not_True_eq_False nlt uc)
    have lr: "length rest < 48" using b(2) by simp
    have "enc_ok rest (ctx1\<lparr>data := (if rest \<noteq> [] then memcpy_at 0 rest (data ctx1) else data ctx1),
              data_used := of_nat (length rest)\<rparr>)"
      using l1 lr by (auto simp: enc_ok_def memcpy_at_def unat_of_nat)
    moreover have "pem_lines (p @ ins @ r) = take (unat (of_nat (length ?o) :: u32)) (if ?o = [] then [] else ?o @ [0]) @ pem_lines (rest @ r)" for r
      unfolding ul using first b(1,4) by simp
    ultimately show ?thesis using upd by blast
  qed
qed

lemma encode_final_lines:
  assumes "enc_ok p ctx"
  shows "case EVP_EncodeFinal ctx of (_, out, n) \<Rightarrow> take (unat n) out = pem_lines p"
proof -
  have u: "data_used ctx = 0 \<longleftrightarrow> p = []" and l: "length p < 48" and t: "take (length p) (data ctx) = p"
    and d: "unat (data_used ctx) = length p"
    using assms by (auto simp: enc_ok_def unat_eq_zero[symmetric])
  have "(length p + 2) div 3 \<le> 16" using l by simp
  then have "unat (of_nat (length (encode_chars p) + 1) :: u32) = length (encode_chars p) + 1"
    by (simp add: unat_of_nat length_encode_chars del: of_nat_add of_nat_Suc)
  then show ?thesis
    using l by (cases "p = []")
      (simp_all add: EVP_EncodeFinal_def u d t Let_def pem_lines.simps[of p] pem_lines.simps[of "[]"]
        del: of_nat_add of_nat_Suc)
qed

lemma encode_stream_lines:
  assumes "\<forall>xs\<in>set chunks. length xs < 2 ^ 30" and "enc_ok p ctx"
  shows "encode_stream ctx chunks = pem_lines (p @ concat chunks)"
  using assms
proof (induction chunks arbitrary: p ctx)
  case Nil
  then show ?case using encode_final_lines[of p ctx] by (simp split: prod.splits)
next
  case (Cons xs chunks)
  have "length xs < 2 ^ 30" using Cons.prems(1) by simp
  from encode_update_lines[OF Cons.prems(2) this] obtain ctx' out n p' where
    U: "EVP_EncodeUpdate ctx xs = (ctx', out, n)" and ok: "enc_ok p' ctx'"
    and L: "\<And>r. pem_lines (p @ xs @ r) = take (unat n) out @ pem_lines (p' @ r)" by blast
  have "encode_stream ctx' chunks = pem_lines (p' @ concat chunks)"
    using Cons.prems(1) by (intro Cons.IH ok) simp
  then show ?case using U L by simp
qed

section \<open>Streaming decoding\<close>

text \<open>
  A client that calls EVP_DecodeUpdate on each chunk, takes \<open>*out_len\<close> bytes after each, gives up
  on -1 and asks EVP_DecodeFinal at the end.
\<close>

fun decode_stream :: "EVP_ENCODE_CTX \<Rightarrow> bytes list \<Rightarrow> bytes option" where
  "decode_stream ctx [] = (if EVP_DecodeFinal ctx = 1 then Some [] else None)"
| "decode_stream ctx (xs # rest) =
     (case EVP_DecodeUpdate ctx xs of (r, ctx', out, n) \<Rightarrow>
        if r = - 1 then None else map_option ((@) (take (unat n) out)) (decode_stream ctx' rest))"

text \<open>What the quads of a text without space give, from a state that may have seen the padding.\<close>

fun quads_from :: "bool \<Rightarrow> bytes \<Rightarrow> bytes option" where
  "quads_from eof (a # b # c # d # rest) =
     (if eof then None
      else case base64_decode_quad a b c d of
        None \<Rightarrow> None
      | Some bs \<Rightarrow> map_option ((@) bs) (quads_from (length bs < 3) rest))"
| "quads_from eof [] = Some []"
| "quads_from eof _ = None"

lemma quad_length: "base64_decode_quad a b c d = Some bs \<Longrightarrow> 1 \<le> length bs \<and> length bs \<le> 3"
  by (auto simp: base64_decode_quad_def Let_def split: if_splits)

lemma quads_from_eof: "xs \<noteq> [] \<Longrightarrow> quads_from True xs = None"
  by (cases "(True, xs)" rule: quads_from.cases) auto

lemma quads_from_decode:
  "quads_from False xs = (if length xs mod 4 = 0 then decode_quads xs else None)"
proof (induction xs rule: decode_quads.induct)
  case (1 a b c d rest)
  have m: "length (a # b # c # d # rest) mod 4 = length rest mod 4" by simp
  show ?case
  proof (cases "base64_decode_quad a b c d")
    case (Some bs)
    note l = quad_length[OF Some]
    show ?thesis
    proof (cases "length bs < 3")
      case True
      then show ?thesis using Some quads_from_eof[of rest] m by (cases "rest = []") auto
    next
      case False
      then have "length bs = 3" using l by simp
      then show ?thesis using 1[OF Some] Some m by simp
    qed
  qed simp
qed simp_all

definition strip :: "bytes \<Rightarrow> bytes" where
  "strip = filter (\<lambda>c. \<not> is_space c)"

text \<open>The characters that wait in the context for a whole quad.\<close>

definition dec_ok :: "bytes \<Rightarrow> EVP_ENCODE_CTX \<Rightarrow> bool" where
  "dec_ok p ctx \<longleftrightarrow> length (data ctx) = 48 \<and> unat (data_used ctx) = length p \<and> length p < 4 \<and>
     take (length p) (data ctx) = p \<and> \<not> error_encountered ctx \<and> (eof_seen ctx \<longrightarrow> p = [])"

lemma dec_ok_init: "dec_ok [] EVP_DecodeInit"
  by (simp add: dec_ok_def EVP_DecodeInit_def)

lemma dec_ok_push:
  assumes "dec_ok p ctx" and "\<not> eof_seen ctx"
    and ctx'_def: "ctx' = ctx\<lparr>data := (data ctx)[unat (data_used ctx) := c], data_used := data_used ctx + 1\<rparr>"
  shows "take (length p + 1) (data ctx') = p @ [c]" and "unat (data_used ctx') = length p + 1"
    and "length p < 3 \<Longrightarrow> dec_ok (p @ [c]) ctx'" and "length (data ctx') = 48"
proof -
  note ok = assms(1)[unfolded dec_ok_def]
  show t: "take (length p + 1) (data ctx') = p @ [c]"
    using ok by (simp add: ctx'_def take_Suc_conv_app_nth)
  show u: "unat (data_used ctx') = length p + 1"
    using ok by (simp add: ctx'_def unat_word_ariths)
  show l: "length (data ctx') = 48" using ok by (simp add: ctx'_def)
  show "dec_ok (p @ [c]) ctx'" if "length p < 3"
    using t u l that ok assms(2) by (simp add: dec_ok_def) (simp add: ctx'_def)
qed

text \<open>
  What a run over the characters \<open>xs\<close> (without space) does, from \<open>p\<close> waiting: after an error
  no continuation of the text is acceptable; otherwise it has put out the bytes of whole quads.
\<close>

definition run_ok :: "bool \<Rightarrow> bytes \<Rightarrow> bytes \<Rightarrow> bytes \<Rightarrow> u64 \<Rightarrow> bool \<times> EVP_ENCODE_CTX \<times> bytes \<times> u64 \<Rightarrow> bool" where
  "run_ok eof p xs out n = (\<lambda>(ok, ctx', out', n').
     if ok then
       (\<exists>p' bs. dec_ok p' ctx' \<and> out' = out @ bs \<and> n' = n + of_nat (length bs) \<and>
          4 * length bs + 3 * length p' \<le> 3 * (length p + length xs) \<and>
          (\<forall>t. quads_from eof (p @ xs @ t) = map_option ((@) bs) (quads_from (eof_seen ctx') (p' @ t))))
     else \<forall>t. quads_from eof (p @ xs @ t) = None)"

lemma run_ok_error: "(\<And>t. quads_from eof (p @ xs @ t) = None) \<Longrightarrow> run_ok eof p xs out n (False, ctx', out', n')"
  by (simp add: run_ok_def)

lemma run_ok_nil: "dec_ok p ctx \<Longrightarrow> run_ok (eof_seen ctx) p [] out n (True, ctx, out, n)"
  unfolding run_ok_def prod.case if_True
  by (rule exI[of _ p], rule exI[of _ "[]"]) (simp add: append_Nil[abs_def] option.map_id0[unfolded id_def])

lemma run_ok_push: "run_ok eof (p @ [c]) xs out n r \<Longrightarrow> run_ok eof p (c # xs) out n r"
  by (auto simp: run_ok_def split: prod.splits if_splits)

lemma run_ok_quad:
  assumes q: "base64_decode_quad a b c d = Some bs"
    and r: "run_ok (length bs < 3) [] xs (out @ bs) (n + of_nat (length bs)) r"
  shows "run_ok False [a, b, c] (d # xs) out n r"
proof -
  obtain ok ctx' out' n' where R: "r = (ok, ctx', out', n')" by (cases r)
  show ?thesis
  proof (cases ok)
    case True
    with r obtain p' cs where h: "dec_ok p' ctx'" "out' = out @ bs @ cs"
      "n' = n + of_nat (length bs) + of_nat (length cs)" "4 * length cs + 3 * length p' \<le> 3 * length xs"
      "\<And>t. quads_from (length bs < 3) (xs @ t) = map_option ((@) cs) (quads_from (eof_seen ctx') (p' @ t))"
      by (auto simp: run_ok_def R)
    have "quads_from False ([a, b, c] @ (d # xs) @ t) =
        map_option ((@) (bs @ cs)) (quads_from (eof_seen ctx') (p' @ t))" for t
      by (simp add: q h(5) option.map_comp o_def append_assoc[abs_def])
    then show ?thesis unfolding run_ok_def R prod.case if_P[OF True]
      using h(1-4) quad_length[OF q] by - (rule exI[of _ p'], rule exI[of _ "bs @ cs"], simp)
  next
    case False
    then show ?thesis using r q by (simp add: run_ok_def R)
  qed
qed

lemma decode_chars_quads:
  assumes "dec_ok p ctx"
  shows "run_ok (eof_seen ctx) p (strip cs) out n (decode_chars ctx cs out n)"
  using assms
proof (induction cs arbitrary: ctx p out n)
  case Nil
  then show ?case by (simp add: strip_def run_ok_nil)
next
  case (Cons c cs)
  define ctx1 where "ctx1 = ctx\<lparr>data := (data ctx)[unat (data_used ctx) := c], data_used := data_used ctx + 1\<rparr>"
  note step = decode_chars.simps(2)[of ctx c cs out n, unfolded Let_def, folded ctx1_def]
  note push = dec_ok_push[OF Cons.prems _ ctx1_def]
  have p4: "length p < 4" using Cons.prems by (simp add: dec_ok_def)
  have s: "strip (c # cs) = (if is_space c then strip cs else c # strip cs)" by (simp add: strip_def)
  have used: "data_used ctx1 = 4 \<longleftrightarrow> length p = 3" if "\<not> eof_seen ctx"
    using push(2)[OF that] by (simp add: word_unat_eq_iff)
  consider "is_space c" | "\<not> is_space c" "eof_seen ctx"
    | "\<not> is_space c" "\<not> eof_seen ctx" "length p < 3" | "\<not> is_space c" "\<not> eof_seen ctx" "length p = 3"
    using p4 by linarith
  then show ?case
  proof cases
    case 1
    then show ?thesis using Cons.IH[OF Cons.prems] s by simp
  next
    case 2
    then show ?thesis using quads_from_eof by (auto simp: s intro!: run_ok_error)
  next
    case 3
    have e: "eof_seen ctx1 = eof_seen ctx" by (simp add: ctx1_def)
    show ?thesis
      using Cons.IH[OF push(3)[OF 3(2,3)], of out n] 3 used unfolding s step e by (simp add: run_ok_push)
  next
    case 4
    obtain p0 p1 p2 where p: "p = [p0, p1, p2]" using 4(3) by (auto simp: numeral_3_eq_3 length_Suc_conv)
    have t: "take 4 (data ctx1) = [p0, p1, p2, c]" using push(1)[OF 4(2)] p by (simp add: numeral_Bit0)
    then have d: "data ctx1 ! 0 = p0" "data ctx1 ! 1 = p1" "data ctx1 ! 2 = p2" "data ctx1 ! 3 = c"
      using nth_take[of 0 4 "data ctx1"] nth_take[of 1 4 "data ctx1"] nth_take[of 2 4 "data ctx1"]
        nth_take[of 3 4 "data ctx1"] by simp_all
    show ?thesis
    proof (cases "base64_decode_quad p0 p1 p2 c")
      case None
      then show ?thesis using 4 used unfolding s step d by (simp add: p run_ok_error)
    next
      case (Some bs)
      let ?ctx2 = "ctx1\<lparr>data_used := 0, eof_seen := length bs < 3 \<or> eof_seen ctx1\<rparr>"
      have e1: "\<not> eof_seen ctx1" using 4 by (simp add: ctx1_def)
      have ok2: "dec_ok [] ?ctx2" using push(4)[OF 4(2)] Cons.prems by (simp add: dec_ok_def ctx1_def)
      have "decode_chars ctx (c # cs) out n = decode_chars ?ctx2 cs (out @ bs) (n + of_nat (length bs))"
        using 4 used unfolding step d Some by simp
      moreover have "eof_seen ?ctx2 = (length bs < 3)" using e1 by simp
      ultimately show ?thesis
        using run_ok_quad[OF Some] Cons.IH[OF ok2, of "out @ bs" "n + of_nat (length bs)"] 4
        unfolding s p by simp
    qed
  qed
qed

lemma decode_update_quads:
  assumes ok: "dec_ok p ctx" and bound: "length cs < 2 ^ 31"
  shows "case EVP_DecodeUpdate ctx cs of (r, ctx', out, n) \<Rightarrow>
    if r = - 1 then \<forall>t. quads_from (eof_seen ctx) (p @ strip cs @ t) = None
    else \<exists>p'. dec_ok p' ctx' \<and> (\<forall>t. quads_from (eof_seen ctx) (p @ strip cs @ t) =
           map_option ((@) (take (unat n) out)) (quads_from (eof_seen ctx') (p' @ t)))"
proof -
  obtain k ctx' out n where D: "decode_chars ctx cs [] 0 = (k, ctx', out, n)" by (cases "decode_chars ctx cs [] 0")
  note R = decode_chars_quads[OF ok, of cs "[]" 0, unfolded D]
  have ne: "\<not> error_encountered ctx" and lp: "length p < 4" using ok by (simp_all add: dec_ok_def)
  show ?thesis
  proof (cases k)
    case False
    then show ?thesis using R ne by (simp add: EVP_DecodeUpdate_def D run_ok_def)
  next
    case True
    with R obtain p' where h: "dec_ok p' ctx'" "n = of_nat (length out)"
      "4 * length out + 3 * length p' \<le> 3 * (length p + length (strip cs))"
      "\<And>t. quads_from (eof_seen ctx) (p @ strip cs @ t) = map_option ((@) out) (quads_from (eof_seen ctx') (p' @ t))"
      by (auto simp: run_ok_def)
    have "length (strip cs) \<le> length cs" by (simp add: strip_def)
    then have l: "length out \<le> 0x7FFFFFFF" using h(3) bound lp by simp
    then have "unat n = length out" "unat (ucast n :: u32) = length out"
      by (simp_all add: h(2) ucast_of_nat_32 unat_of_nat)
    then show ?thesis using True ne l h(1,4) by (auto simp: EVP_DecodeUpdate_def D word_less_nat_alt)
  qed
qed

lemma decode_stream_quads:
  assumes "\<forall>cs\<in>set chunks. length cs < 2 ^ 31" and "dec_ok p ctx"
  shows "decode_stream ctx chunks = quads_from (eof_seen ctx) (p @ strip (concat chunks))"
  using assms
proof (induction chunks arbitrary: p ctx)
  case Nil
  have "p = [] \<longleftrightarrow> data_used ctx = 0" "\<not> error_encountered ctx" "length p < 4"
    using Nil by (auto simp: dec_ok_def unat_eq_zero[symmetric])
  then show ?case
    by (cases "(eof_seen ctx, p)" rule: quads_from.cases) (auto simp: EVP_DecodeFinal_def strip_def)
next
  case (Cons cs chunks)
  have b: "length cs < 2 ^ 31" and r: "\<forall>cs\<in>set chunks. length cs < 2 ^ 31" using Cons.prems(1) by simp_all
  obtain k ctx' out n where U: "EVP_DecodeUpdate ctx cs = (k, ctx', out, n)" by (cases "EVP_DecodeUpdate ctx cs")
  note h = decode_update_quads[OF Cons.prems(2) b, unfolded U prod.case]
  have s: "strip (concat (cs # chunks)) = strip cs @ strip (concat chunks)" by (simp add: strip_def)
  show ?case
  proof (cases "k = - 1")
    case True
    then show ?thesis using h U s by simp
  next
    case False
    then obtain p' where "dec_ok p' ctx'" and q: "\<And>t. quads_from (eof_seen ctx) (p @ strip cs @ t) =
        map_option ((@) (take (unat n) out)) (quads_from (eof_seen ctx') (p' @ t))" using h by auto
    then have "decode_stream ctx' chunks = quads_from (eof_seen ctx') (p' @ strip (concat chunks))"
      using Cons.IH r by simp
    then show ?thesis using False U s q by simp
  qed
qed

section \<open>The alphabet of RFC 4648\<close>

definition base64_alphabet :: string where
  "base64_alphabet = ''ABCDEFGHIJKLMNOPQRSTUVWXYZabcdefghijklmnopqrstuvwxyz0123456789+/''"

lemma alphabet_table:
  "list_all (\<lambda>n. conv_bin2ascii (of_nat n) = of_char (base64_alphabet ! n)) [0..<64]"
  unfolding conv_plain by code_simp

lemma unconv_table:
  "list_all (\<lambda>n. let c = of_nat n; b = base64_ascii_to_bin c in
     if b = 0xFF then True else c = CH_EQ \<and> b = 0 \<or> b < 64 \<and> conv_bin2ascii b = c) [0..<256]"
  unfolding conv_plain unconv_plain by code_simp

lemma strip_encode_chars: "strip (encode_chars bs) = encode_chars bs"
proof -
  have "\<not> is_space CH_EQ" by (simp add: is_space_def)
  then show ?thesis
    by (induction bs rule: encode_chars.induct) (simp_all add: Let_def strip_def conv_bin2ascii_facts)
qed

lemma encode_chars_append: "length xs mod 3 = 0 \<Longrightarrow> encode_chars (xs @ ys) = encode_chars xs @ encode_chars ys"
  by (induction xs rule: encode_chars.induct) (simp_all add: Let_def)

lemma strip_pem_lines: "strip (pem_lines bs) = encode_chars bs"
proof (induction bs rule: pem_lines.induct)
  case (1 bs)
  show ?case
  proof (cases "bs = []")
    case False
    have "encode_chars bs = encode_chars (take 48 bs) @ encode_chars (drop 48 bs)"
      using encode_chars_append[of "take 48 bs" "drop 48 bs"] by (cases "48 \<le> length bs") simp_all
    moreover have "strip (pem_lines bs) = strip (encode_chars (take 48 bs)) @ strip (pem_lines (drop 48 bs))"
      using False by (subst pem_lines.simps) (simp add: strip_def is_space_def)
    ultimately show ?thesis using 1 False by (simp add: strip_encode_chars)
  qed (simp add: pem_lines.simps strip_def)
qed

lemma shift_back_iff:
  assumes "m < 2 ^ 63"
  shows "drop_bit 2 (of_nat (4 * m)) = (of_nat m :: u64) \<longleftrightarrow> 4 * m < 2 ^ 64"
proof -
  have "unat (of_nat m :: u64) = m" using assms by (simp add: unat_of_nat)
  moreover have "unat (drop_bit 2 (of_nat (4 * m) :: u64)) = (4 * m mod 2 ^ 64) div 4"
    unfolding unat_drop_bit_eq unfolding drop_bit_eq_div using unat_of_nat[of "4 * m", where 'a = "64"] by simp
  moreover have "(4 * m mod 2 ^ 64) div 4 = m \<longleftrightarrow> 4 * m < 2 ^ 64"
  proof
    assume "(4 * m mod 2 ^ 64) div 4 = m"
    then have "4 * m \<le> 4 * m mod 2 ^ 64" using div_times_less_eq_dividend[of "4 * m mod 2 ^ 64" 4] by simp
    then show "4 * m < 2 ^ 64" by (rule le_less_trans) simp
  qed simp
  ultimately show ?thesis by (simp add: word_unat_eq_iff)
qed

lemma EVP_EncodedLength_nat:
  "n < 2 ^ 64 \<Longrightarrow> EVP_EncodedLength (of_nat n) =
     (if 4 * ((n + 2) div 3) + 1 < 2 ^ 64 then Some (of_nat (4 * ((n + 2) div 3) + 1)) else None)"
proof -
  assume n: "n < 2 ^ 64"
  let ?m = "(n + 2) div 3"
  show ?thesis
  proof (cases "n + 2 < 2 ^ 64")
    case False
    have "unat (of_nat n + 2 :: u64) = n + 2 - 2 ^ 64" and un: "unat (of_nat n :: u64) = n"
      using n False by (auto simp: unat_word_ariths unat_of_nat mod_if)
    then have "of_nat n + 2 < (of_nat n :: u64)" using n False by (simp add: word_less_nat_alt)
    moreover have "\<not> 4 * ?m + 1 < 2 ^ 64" using False by simp
    ultimately show ?thesis by (simp only: EVP_EncodedLength_def if_True if_False)
  next
    case True
    have nl: "\<not> of_nat n + 2 < (of_nat n :: u64)"
      using True n by (simp add: word_less_nat_alt unat_word_ariths unat_of_nat)
    have n2: "unat (of_nat n + 2 :: u64) = n + 2" using True by (simp add: unat_word_ariths unat_of_nat)
    have d: "(of_nat n + 2) div 3 = (of_nat ?m :: u64)"
      using True by (simp add: word_unat_eq_iff unat_div n2 unat_of_nat)
    have m: "?m < 2 ^ 63" using True by simp
    have p: "push_bit 2 (of_nat ?m) = (of_nat (4 * ?m) :: u64)" by (simp add: push_bit_eq_mult)
    have rt: "drop_bit 2 (of_nat (4 * ?m)) = (of_nat ?m :: u64) \<longleftrightarrow> 4 * ?m < 2 ^ 64"
      using m by (rule shift_back_iff)
    have wrap: "\<not> of_nat (4 * ?m) + 1 < (of_nat (4 * ?m) :: u64)" if "4 * ?m < 2 ^ 64"
    proof -
      have "4 * q < 2 ^ 64 \<Longrightarrow> 4 * q + 1 < 2 ^ 64" for q :: nat by simp
      then have "4 * ?m + 1 < 2 ^ 64" using that by blast
      moreover have "unat (of_nat (4 * ?m) :: u64) = 4 * ?m" using that by (simp only: unat_of_nat) simp
      moreover have "unat w + 1 < 2 ^ 64 \<Longrightarrow> \<not> w + 1 < w" for w :: u64
        by (simp add: word_less_nat_alt unat_word_ariths)
      ultimately show ?thesis by metis
    qed
    have "4 * q + 1 < 2 ^ 64 \<longleftrightarrow> 4 * q < 2 ^ 64" for q :: nat by simp presburger
    then have iff: "4 * ?m + 1 < 2 ^ 64 \<longleftrightarrow> 4 * ?m < 2 ^ 64" by blast
    show ?thesis
    proof (cases "4 * ?m < 2 ^ 64")
      case t: True
      show ?thesis
        by (simp only: EVP_EncodedLength_def Let_def nl d p rt iff t wrap[OF t] if_True if_False
            simp_thms of_nat_add of_nat_1)
    next
      case False
      then show ?thesis
        by (simp only: EVP_EncodedLength_def Let_def nl d p rt iff if_True if_False simp_thms)
    qed
  qed
qed

lemma encode_chars_ends:
  assumes "bs \<noteq> []"
  shows "encode_chars bs \<noteq> [] \<and> \<not> is_space (hd (encode_chars bs)) \<and> \<not> is_space (last (encode_chars bs))"
proof -
  have "length (encode_chars bs) \<noteq> 0" using assms by (simp add: length_encode_chars) (cases bs; simp)
  then have ne: "encode_chars bs \<noteq> []" by simp
  have "\<forall>c\<in>set (encode_chars bs). \<not> is_space c"
    using strip_encode_chars[of bs] by (simp add: strip_def filter_id_conv)
  then show ?thesis using ne by simp
qed

lemma fill_triple: "(n + (3 - n mod 3) mod 3) mod 3 = (0 :: nat)"
proof -
  have "n mod 3 < 3" by simp
  then have "n mod 3 = 0 \<or> n mod 3 = 1 \<or> n mod 3 = 2" by linarith
  then show ?thesis by (auto simp: mod_simps) presburger+
qed

lemma dropWhile_stop: "\<forall>c\<in>set pre. P c \<Longrightarrow> xs \<noteq> [] \<Longrightarrow> \<not> P (hd xs) \<Longrightarrow> dropWhile P (pre @ xs) = xs"
  by (cases xs) (simp_all add: dropWhile_append3)

lemma trim_encoded:
  assumes "\<forall>c\<in>set pre. c = 0x20 \<or> c = 0x09" and "\<forall>c\<in>set post. is_space c"
  shows "rev (dropWhile is_space (rev (dropWhile (\<lambda>c. c = 0x20 \<or> c = 0x09) (pre @ encode_chars bs @ post)))) =
    encode_chars bs"
proof (cases "bs = []")
  case True
  have "\<forall>c\<in>set (dropWhile (\<lambda>c. c = 0x20 \<or> c = 0x09) (pre @ post)). is_space c"
    using assms by (auto simp: is_space_def dest!: set_dropWhileD)
  then show ?thesis using True by (simp add: dropWhile_eq_Nil_conv)
next
  case False
  note e = encode_chars_ends[OF False]
  have "dropWhile (\<lambda>c. c = 0x20 \<or> c = 0x09) (pre @ encode_chars bs @ post) = encode_chars bs @ post"
    using assms(1) e by (intro dropWhile_stop) (auto simp: is_space_def)
  moreover have "dropWhile is_space (rev post @ rev (encode_chars bs)) = rev (encode_chars bs)"
    using assms(2) e by (intro dropWhile_stop) (auto simp: hd_rev)
  ultimately show ?thesis by simp
qed

section \<open>Properties\<close>

text \<open>
  The branch-free conversion of six bits is the alphabet of RFC 4648, and the conversion
  back undoes it, gives 0 for the padding and 0xFF for every byte that is not in the alphabet.
\<close>

theorem base64_alphabet_exact:
  "conv_bin2ascii x = of_char (base64_alphabet ! unat (x AND 0x3F)) \<and>
   base64_ascii_to_bin (conv_bin2ascii x) = x AND 0x3F \<and>
   (base64_ascii_to_bin c = 0xFF \<or> base64_ascii_to_bin c = 0 \<and> c = CH_EQ \<or>
    base64_ascii_to_bin c < 64 \<and> conv_bin2ascii (base64_ascii_to_bin c) = c)"
proof (intro conjI)
  have m: "x AND 0x3F = take_bit 6 x" by (simp add: take_bit_eq_mask mask_eq_exp_minus_1)
  have "unat (x AND 0x3F) < 64" unfolding m
    using take_bit_nat_less_exp[of 6 "unat x"] by (simp add: unsigned_take_bit_eq)
  then have "unat (x AND 0x3F) \<in> set [0..<64]" by simp
  from bspec[OF alphabet_table[unfolded list_all_iff] this]
  show "conv_bin2ascii x = of_char (base64_alphabet ! unat (x AND 0x3F))" by (simp add: conv_masks)
  show "base64_ascii_to_bin (conv_bin2ascii x) = x AND 0x3F" by (rule conv_bin2ascii_facts)
  have "unat c \<in> set [0..<256]" using unat_le_bound[of c] by auto
  from bspec[OF unconv_table[unfolded list_all_iff] this]
  show "base64_ascii_to_bin c = 0xFF \<or> base64_ascii_to_bin c = 0 \<and> c = CH_EQ \<or>
      base64_ascii_to_bin c < 64 \<and> conv_bin2ascii (base64_ascii_to_bin c) = c"
    by (auto simp: Let_def split: if_splits)
qed

text \<open>
  EVP_EncodedLength is exact. It refuses exactly the lengths whose encoding, with its
  terminating zero, would not fit a size_t, and otherwise gives the number of bytes that
  EVP_EncodeBlock stores.
\<close>

theorem encoded_length_exact:
  assumes "length bs < 2 ^ 64"
  shows "EVP_EncodedLength (of_nat (length bs)) =
    (if length (fst (EVP_EncodeBlock bs)) < 2 ^ 64 then Some (of_nat (length (fst (EVP_EncodeBlock bs)))) else None)"
  using EVP_EncodedLength_nat[OF assms] by (simp add: EVP_EncodeBlock_def length_encode_chars)

theorem encoded_length_exact_witness:
  "EVP_EncodedLength 5 = Some 9 \<and> length (fst (EVP_EncodeBlock [1, 2, 3, 4, 5])) = 9"
proof -
  have l: "length (fst (EVP_EncodeBlock [1, 2, 3, 4, 5])) = 9"
    by (simp add: EVP_EncodeBlock_def length_encode_chars)
  show ?thesis using encoded_length_exact[of "[1, 2, 3, 4, 5]"] unfolding l by simp
qed

text \<open>
  One-shot decoding undoes one-shot encoding, whatever the bytes, whenever the text's length
  is a size_t and the output buffer has the size that EVP_DecodedLength asks for.
\<close>

theorem base64_block_roundtrip:
  assumes "length (fst (EVP_EncodeBlock bs)) < 2 ^ 64"
    and "EVP_DecodedLength (snd (EVP_EncodeBlock bs)) = Some need" and "need \<le> max_out"
  shows "case EVP_EncodeBlock bs of (stored, n) \<Rightarrow> EVP_DecodeBase64 max_out (take (unat n) stored) = Some bs"
proof -
  let ?n = "length (encode_chars bs)"
  have n: "?n < 2 ^ 64" using assms(1) by (simp add: EVP_EncodeBlock_def)
  then have u: "unat (of_nat ?n :: u64) = ?n" by (simp add: unat_of_nat)
  have "?n mod 4 = 0" by (simp add: length_encode_chars)
  then have "of_nat ?n mod 4 = (0 :: u64)" by (simp add: word_unat_eq_iff unat_mod u)
  moreover have "EVP_DecodedLength (of_nat ?n) = Some need" using assms(2) by (simp add: EVP_EncodeBlock_def)
  ultimately show ?thesis using assms(3)
    by (simp add: EVP_EncodeBlock_def EVP_DecodeBase64_def u quads_of_chars)
qed

theorem base64_block_roundtrip_witness:
  "case EVP_EncodeBlock [1, 2, 3, 4] of (stored, n) \<Rightarrow> EVP_DecodeBase64 6 (take (unat n) stored) = Some [1, 2, 3, 4]"
  by (rule base64_block_roundtrip[where need = 6])
    (simp_all add: EVP_EncodeBlock_def length_encode_chars EVP_DecodedLength_def)

text \<open>
  Streaming encoding does not depend on how the input is cut into chunks: the bytes that
  EVP_EncodeUpdate and EVP_EncodeFinal count in \<open>*out_len\<close> are the lines of the whole input,
  each line the characters of 48 bytes (fewer in the last) and a newline.
\<close>

theorem encode_stream_chunking:
  assumes "\<forall>xs\<in>set chunks. length xs < 2 ^ 30"
  shows "encode_stream EVP_EncodeInit chunks = pem_lines (concat chunks)"
  using encode_stream_lines[OF assms enc_ok_init] by simp

theorem encode_stream_chunking_witness:
  "encode_stream EVP_EncodeInit [[1], [], [2, 3]] = pem_lines [1, 2, 3]"
  using encode_stream_chunking[of "[[1], [], [2, 3]]"] by simp

text \<open>
  C33: Streaming decoding does not depend on the chunks either. A text is accepted, by every
  update and by EVP_DecodeFinal, exactly when without its space it is whole quads of which only
  the last is padded; the bytes put out are then those of one-shot decoding.
\<close>

theorem decode_stream_exact:
  assumes "\<forall>cs\<in>set chunks. length cs < 2 ^ 31"
  shows "decode_stream EVP_DecodeInit chunks =
    (let text = strip (concat chunks) in if length text mod 4 = 0 then decode_quads text else None)"
  using decode_stream_quads[OF assms dec_ok_init] by (simp add: quads_from_decode Let_def EVP_DecodeInit_def)

theorem decode_stream_exact_witness:
  "decode_stream EVP_DecodeInit [[0x41, 0x51], [0x20], [0x3D, 0x3D, 0x0A]] = decode_quads [0x41, 0x51, 0x3D, 0x3D]"
  using decode_stream_exact[of "[[0x41, 0x51], [0x20], [0x3D, 0x3D, 0x0A]]"]
  by (simp add: Let_def strip_def is_space_def)

text \<open>
  C26: What was encoded in chunks is decoded in any other chunks: the decoder accepts the text
  of the encoder and gives the bytes back.
\<close>

theorem base64_stream_roundtrip:
  assumes "\<forall>xs\<in>set chunks. length xs < 2 ^ 30" and "\<forall>cs\<in>set texts. length cs < 2 ^ 31"
    and "concat texts = encode_stream EVP_EncodeInit chunks"
  shows "decode_stream EVP_DecodeInit texts = Some (concat chunks)"
proof -
  have "strip (concat texts) = encode_chars (concat chunks)"
    using assms(3) encode_stream_lines[OF assms(1) enc_ok_init] by (simp add: strip_pem_lines)
  moreover have "decode_stream EVP_DecodeInit texts = quads_from False (strip (concat texts))"
    using decode_stream_quads[OF assms(2) dec_ok_init] by (simp add: EVP_DecodeInit_def)
  ultimately show ?thesis by (simp add: quads_from_decode quads_of_chars length_encode_chars)
qed

theorem base64_stream_roundtrip_witness:
  "\<exists>t. decode_stream EVP_DecodeInit [take 2 t, drop 2 t] = Some [1, 2, 3, 4]"
proof -
  let ?t = "encode_stream EVP_EncodeInit [[1], [2, 3, 4]]"
  have t: "?t = pem_lines [1, 2, 3, 4]" using encode_stream_lines[OF _ enc_ok_init, of "[[1], [2, 3, 4]]"] by simp
  have "length ?t = 9" unfolding t by (simp add: pem_lines.simps[of "[1, 2, 3, 4]"] pem_lines.simps[of "[]"] length_encode_chars)
  then have "decode_stream EVP_DecodeInit [take 2 ?t, drop 2 ?t] = Some (concat [[1], [2, 3, 4]])"
    by (intro base64_stream_roundtrip) simp_all
  then show ?thesis by auto
qed

text \<open>
  EVP_DecodeBlock on encoded text with blanks before and blanks and newlines after gives the
  bytes, filled up with zeros to whole triples because it does not take the padding into account.
\<close>

theorem decode_block_padded:
  assumes "\<forall>c\<in>set pre. c = 0x20 \<or> c = 0x09" and "\<forall>c\<in>set post. is_space c" and "length bs < 2 ^ 30"
  shows "\<exists>zs. EVP_DecodeBlock (pre @ encode_chars bs @ post) = Some (bs @ zs) \<and>
    set zs \<subseteq> {0} \<and> length zs < 3 \<and> length (bs @ zs) mod 3 = 0"
proof -
  let ?t = "encode_chars bs" and ?k = "(length bs + 2) div 3"
  have lt: "length ?t = 4 * ?k" by (rule length_encode_chars)
  have k: "?k \<le> 2 ^ 29" using assms(3) by simp
  then have u: "unat (of_nat (length ?t) :: u64) = 4 * ?k" and u3: "unat (of_nat (3 * ?k) :: u64) = 3 * ?k"
    unfolding lt by (simp_all add: unat_of_nat del: of_nat_mult)
  have "unat (of_nat ?k :: u64) = ?k" using k by (simp add: unat_of_nat)
  then have "of_nat (length ?t) div 4 = (of_nat ?k :: u64)" by (simp only: word_unat_eq_iff unat_div u) simp
  then have d: "of_nat (length ?t) div 4 * 3 = (of_nat (3 * ?k) :: u64)" by simp
  have m: "of_nat (length ?t) mod 4 = (0 :: u64)" by (simp add: word_unat_eq_iff unat_mod u)
  have len: "EVP_DecodedLength (of_nat (length ?t)) = Some (of_nat (3 * ?k))"
    by (simp only: EVP_DecodedLength_def m d simp_thms if_False)
  have nl: "\<not> (0x7FFFFFFF :: u64) < of_nat (3 * ?k)" using k u3 by (simp add: word_less_nat_alt)
  have "EVP_DecodeBase64 (of_nat (3 * ?k)) ?t = Some bs"
    by (simp only: EVP_DecodeBase64_def Let_def m len option.case simp_thms if_False less_irrefl quads_of_chars)
  then have "EVP_DecodeBlock (pre @ ?t @ post) = Some (bs @ replicate ((3 - length bs mod 3) mod 3) 0)"
    by (simp only: EVP_DecodeBlock_def Let_def trim_encoded[OF assms(1,2)] len option.case nl if_False)
  moreover note fill_triple[of "length bs"]
  ultimately show ?thesis by (intro exI[of _ "replicate ((3 - length bs mod 3) mod 3) 0"]) auto
qed

theorem decode_block_padded_witness:
  "\<exists>zs. EVP_DecodeBlock ([0x20] @ encode_chars [7] @ [0x0A]) = Some ([7] @ zs) \<and>
    set zs \<subseteq> {0} \<and> length zs < 3 \<and> length ([7 :: u8] @ zs) mod 3 = 0"
  by (rule decode_block_padded) (simp_all add: is_space_def)

end
