(* ===== verification/Stack.thy ===== *)
theory Stack
  imports Prelude "HOL-Library.Multiset"
begin

text \<open>
  The pointer stack of BoringSSL (src/crypto/stack/stack.c): a growing array of \<open>void *\<close> with
  an optional comparison function and a flag that says that the array is sorted.

  Pointers are 64-bit words and NULL is 0; a stack pointer that may be NULL is an option. The
  allocator is a parameter: asked for a number of bytes, it fails or says what the fresh cells
  hold. A comparison function is known by its pointer, and \<open>call_cmp\<close> is what calls it.
  \<open>qsort\<close> is the C library's.
\<close>

section \<open>Data\<close>

record stack_st =
  st_num :: u64
  st_data :: "u64 list"
  st_sorted :: bool
  st_num_alloc :: u64
  st_comp :: u64

type_synonym alloc = "u64 \<Rightarrow> (nat \<Rightarrow> u64) option"
type_synonym call_cmp = "u64 \<Rightarrow> u64 \<Rightarrow> u64 \<Rightarrow> int"

abbreviation PTR_SIZE :: u64 where "PTR_SIZE \<equiv> 8"

definition kMinSize :: u64 where "kMinSize = 4"

text \<open>\<open>OPENSSL_memmove(&data[to], &data[from], sizeof(void *) * n)\<close>.\<close>

definition memmove :: "nat \<Rightarrow> nat \<Rightarrow> nat \<Rightarrow> u64 list \<Rightarrow> u64 list" where
  "memmove to from n xs = take to xs @ take n (drop from xs) @ drop (to + n) xs"

text \<open>The linear searches.\<close>

fun scan :: "(u64 \<Rightarrow> bool) \<Rightarrow> u64 list \<Rightarrow> u64 \<Rightarrow> u64 option" where
  "scan P [] i = None"
| "scan P (x # xs) i = (if P x then Some i else scan P xs (i + 1))"

section \<open>Operations\<close>

definition sk_new :: "bool \<Rightarrow> alloc \<Rightarrow> u64 \<Rightarrow> stack_st option" where
  "sk_new ok al cmp =
     (if \<not> ok then None
      else case al (PTR_SIZE * kMinSize) of
        None \<Rightarrow> None
      | Some junk \<Rightarrow> Some \<lparr>st_num = 0, st_data = replicate (unat kMinSize) 0, st_sorted = False,
                         st_num_alloc = kMinSize, st_comp = cmp\<rparr>)"

definition sk_new_null :: "bool \<Rightarrow> alloc \<Rightarrow> stack_st option" where
  "sk_new_null ok al = sk_new ok al 0"

fun sk_num :: "stack_st option \<Rightarrow> u64" where
  "sk_num None = 0"
| "sk_num (Some sk) = st_num sk"

fun sk_zero :: "stack_st option \<Rightarrow> stack_st option" where
  "sk_zero None = None"
| "sk_zero (Some sk) =
     (if st_num sk = 0 then Some sk
      else Some (sk\<lparr>st_data := replicate (unat (st_num sk)) 0 @ drop (unat (st_num sk)) (st_data sk),
                    st_num := 0, st_sorted := False\<rparr>))"

fun sk_value :: "stack_st option \<Rightarrow> u64 \<Rightarrow> u64" where
  "sk_value None i = 0"
| "sk_value (Some sk) i = (if st_num sk \<le> i then 0 else st_data sk ! unat i)"

fun sk_set :: "stack_st option \<Rightarrow> u64 \<Rightarrow> u64 \<Rightarrow> stack_st option \<times> u64" where
  "sk_set None i v = (None, 0)"
| "sk_set (Some sk) i v =
     (if st_num sk \<le> i then (Some sk, 0)
      else (Some (sk\<lparr>st_data := (st_data sk)[unat i := v]\<rparr>), v))"

text \<open>Making room: the array is doubled, or grown by one where doubling would overflow.\<close>

definition overflows :: "u64 \<Rightarrow> u64 \<Rightarrow> bool" where
  "overflows old new \<longleftrightarrow> new < old \<or> (new * PTR_SIZE) div PTR_SIZE \<noteq> new"

definition sk_grow :: "alloc \<Rightarrow> stack_st \<Rightarrow> stack_st option" where
  "sk_grow al sk =
     (if st_num_alloc sk \<le> st_num sk + 1 then
        let new_alloc = push_bit 1 (st_num_alloc sk);
            new_alloc = (if overflows (st_num_alloc sk) new_alloc then st_num_alloc sk + 1 else new_alloc)
        in if overflows (st_num_alloc sk) new_alloc then None
           else case al (new_alloc * PTR_SIZE) of
             None \<Rightarrow> None
           | Some junk \<Rightarrow> Some (sk\<lparr>st_data := st_data sk @ map junk [length (st_data sk) ..< unat new_alloc],
                                 st_num_alloc := new_alloc\<rparr>)
      else Some sk)"

fun sk_insert :: "alloc \<Rightarrow> stack_st option \<Rightarrow> u64 \<Rightarrow> u64 \<Rightarrow> stack_st option \<times> u64" where
  "sk_insert al None p i = (None, 0)"
| "sk_insert al (Some sk) p i =
     (case sk_grow al sk of
        None \<Rightarrow> (Some sk, 0)
      | Some sk' \<Rightarrow>
          let d = st_data sk'; n = st_num sk';
              d' = (if n \<le> i then d[unat n := p]
                    else (memmove (unat i + 1) (unat i) (unat (n - i)) d)[unat i := p])
          in (Some (sk'\<lparr>st_data := d', st_num := n + 1, st_sorted := False\<rparr>), n + 1))"

fun sk_delete :: "stack_st option \<Rightarrow> u64 \<Rightarrow> stack_st option \<times> u64" where
  "sk_delete None i = (None, 0)"
| "sk_delete (Some sk) i =
     (let n = st_num sk; d = st_data sk in
      if n \<le> i then (Some sk, 0)
      else (Some (sk\<lparr>st_data := (if i \<noteq> n - 1 then memmove (unat i) (unat i + 1) (unat (n - i - 1)) d else d),
                     st_num := n - 1\<rparr>), d ! unat i))"

fun sk_delete_ptr :: "stack_st option \<Rightarrow> u64 \<Rightarrow> stack_st option \<times> u64" where
  "sk_delete_ptr None p = (None, 0)"
| "sk_delete_ptr (Some sk) p =
     (case scan (\<lambda>x. x = p) (take (unat (st_num sk)) (st_data sk)) 0 of
        None \<Rightarrow> (Some sk, 0)
      | Some i \<Rightarrow> sk_delete (Some sk) i)"

fun sk_shift :: "stack_st option \<Rightarrow> stack_st option \<times> u64" where
  "sk_shift None = (None, 0)"
| "sk_shift (Some sk) = (if st_num sk = 0 then (Some sk, 0) else sk_delete (Some sk) 0)"

fun sk_push :: "alloc \<Rightarrow> stack_st option \<Rightarrow> u64 \<Rightarrow> stack_st option \<times> u64" where
  "sk_push al None p = sk_insert al None p 0"
| "sk_push al (Some sk) p = sk_insert al (Some sk) p (st_num sk)"

fun sk_pop :: "stack_st option \<Rightarrow> stack_st option \<times> u64" where
  "sk_pop None = (None, 0)"
| "sk_pop (Some sk) = (if st_num sk = 0 then (Some sk, 0) else sk_delete (Some sk) (st_num sk - 1))"

fun sk_is_sorted :: "stack_st option \<Rightarrow> bool" where
  "sk_is_sorted None = True"
| "sk_is_sorted (Some sk) = st_sorted sk"

text \<open>The binary search of sk_find over the half-open interval from \<open>lo\<close> to \<open>hi\<close>.\<close>

lemma bsearch_mid:
  assumes "(lo :: u64) < hi"
  defines "mid \<equiv> lo + (hi - lo - 1) div 2"
  shows "unat mid = unat lo + (unat hi - unat lo - 1) div 2" "lo \<le> mid" "mid < hi" "unat (mid + 1) = unat mid + 1"
proof -
  have l: "unat lo < unat hi" using assms(1) by (simp add: word_less_nat_alt)
  have d: "unat (hi - lo) = unat hi - unat lo" using assms(1) by (simp add: unat_sub)
  then have "1 \<le> hi - lo" using l by (simp add: word_le_nat_alt)
  then have d1: "unat (hi - lo - 1) = unat hi - unat lo - 1" using d by (simp add: unat_sub)
  show m: "unat mid = unat lo + (unat hi - unat lo - 1) div 2"
  proof -
    have "unat lo + (unat hi - unat lo - 1) div 2 < unat hi" using l by linarith
    also have "unat hi < 2 ^ 64" using unat_le_bound[of hi] by simp
    finally show ?thesis unfolding mid_def by (simp add: unat_word_ariths(1) unat_div d1)
  qed
  show "lo \<le> mid" using m by (simp add: word_le_nat_alt)
  have "unat mid < unat hi" using l m by linarith
  then show "mid < hi" by (simp add: word_less_nat_alt)
  have "unat mid + 1 < 2 ^ 64" using \<open>unat mid < unat hi\<close> unat_le_bound[of hi] by simp
  then show "unat (mid + 1) = unat mid + 1" by (simp add: unat_word_ariths(1))
qed

lemma bsearch_shrinks:
  assumes "(lo :: u64) < hi" and "hi - lo \<noteq> 1"
  shows "unat (lo + (hi - lo - 1) div 2 + 1) < unat hi"
proof -
  have l: "unat lo < unat hi" using assms(1) by (simp add: word_less_nat_alt)
  have "unat (hi - lo) = unat hi - unat lo" using assms(1) by (simp add: unat_sub)
  then have "unat hi - unat lo \<noteq> 1" using assms(2) by (metis unat_1 word_unat_eq_iff)
  then show ?thesis using l bsearch_mid[OF assms(1)] by linarith
qed

function bsearch :: "(u64 \<Rightarrow> int) \<Rightarrow> u64 list \<Rightarrow> u64 \<Rightarrow> u64 \<Rightarrow> u64 option" where
  "bsearch f xs lo hi =
     (if lo < hi then
        let mid = lo + (hi - lo - 1) div 2; r = f (xs ! unat mid) in
        if 0 < r then bsearch f xs (mid + 1) hi
        else if r < 0 then bsearch f xs lo mid
        else if hi - lo = 1 then Some mid
        else bsearch f xs lo (mid + 1)
      else None)"
  by pat_completeness auto

termination
proof (relation "measure (\<lambda>(f, xs, lo, hi). unat hi - unat lo)", goal_cases)
  case (2 f xs lo hi mid r)
  then show ?case using bsearch_mid[of lo hi] by (simp add: word_less_nat_alt word_le_nat_alt) linarith
next
  case (3 f xs lo hi mid r)
  then show ?case using bsearch_mid[of lo hi] by (simp add: word_less_nat_alt word_le_nat_alt) linarith
next
  case (4 f xs lo hi mid r)
  then show ?case using bsearch_shrinks[of lo hi] by (simp add: word_less_nat_alt) 
qed simp

declare bsearch.simps [simp del]

fun sk_find :: "call_cmp \<Rightarrow> stack_st option \<Rightarrow> u64 \<Rightarrow> u64 option" where
  "sk_find call_cmp None p = None"
| "sk_find call_cmp (Some sk) p =
     (let xs = take (unat (st_num sk)) (st_data sk) in
      if st_comp sk = 0 then scan (\<lambda>x. x = p) xs 0
      else if p = 0 then None
      else if \<not> sk_is_sorted (Some sk) then scan (\<lambda>x. call_cmp (st_comp sk) p x = 0) xs 0
      else bsearch (call_cmp (st_comp sk) p) (st_data sk) 0 (st_num sk))"

fun sk_dup :: "bool \<Rightarrow> alloc \<Rightarrow> stack_st option \<Rightarrow> stack_st option" where
  "sk_dup ok al None = None"
| "sk_dup ok al (Some sk) =
     (if \<not> ok then None
      else case al (PTR_SIZE * st_num_alloc sk) of
        None \<Rightarrow> None
      | Some junk \<Rightarrow>
          Some \<lparr>st_num = st_num sk,
                st_data = take (unat (st_num sk)) (st_data sk) @ map junk [unat (st_num sk) ..< unat (st_num_alloc sk)],
                st_sorted = st_sorted sk, st_num_alloc = st_num_alloc sk, st_comp = st_comp sk\<rparr>)"

fun sk_sort :: "((u64 \<Rightarrow> u64 \<Rightarrow> int) \<Rightarrow> u64 list \<Rightarrow> u64 list) \<Rightarrow> call_cmp \<Rightarrow> stack_st option \<Rightarrow> stack_st option" where
  "sk_sort qsort call_cmp None = None"
| "sk_sort qsort call_cmp (Some sk) =
     (let n = unat (st_num sk) in
      if st_comp sk = 0 \<or> st_sorted sk then Some sk
      else Some (sk\<lparr>st_data := (if 2 \<le> st_num sk
                               then qsort (call_cmp (st_comp sk)) (take n (st_data sk)) @ drop n (st_data sk)
                               else st_data sk),
                    st_sorted := True\<rparr>))"

definition sk_set_cmp_func :: "stack_st \<Rightarrow> u64 \<Rightarrow> stack_st \<times> u64" where
  "sk_set_cmp_func sk cmp =
     (sk\<lparr>st_sorted := (if st_comp sk \<noteq> cmp then False else st_sorted sk), st_comp := cmp\<rparr>, st_comp sk)"

text \<open>Freeing and deep copies call back; \<open>'s\<close> is the state that the callbacks work on.\<close>

definition free_items :: "(u64 \<Rightarrow> 's \<Rightarrow> 's) \<Rightarrow> u64 list \<Rightarrow> 's \<Rightarrow> 's" where
  "free_items free xs s = fold (\<lambda>x s. if x \<noteq> 0 then free x s else s) xs s"

fun sk_pop_free_ex :: "(u64 \<Rightarrow> 's \<Rightarrow> 's) \<Rightarrow> stack_st option \<Rightarrow> 's \<Rightarrow> 's" where
  "sk_pop_free_ex free None s = s"
| "sk_pop_free_ex free (Some sk) s = free_items free (take (unat (st_num sk)) (st_data sk)) s"

fun copy_items :: "(u64 \<Rightarrow> 's \<Rightarrow> u64 \<times> 's) \<Rightarrow> (u64 \<Rightarrow> 's \<Rightarrow> 's) \<Rightarrow> u64 list \<Rightarrow> u64 list \<Rightarrow> 's \<Rightarrow> u64 list option \<times> 's" where
  "copy_items copy free [] copied s = (Some copied, s)"
| "copy_items copy free (x # xs) copied s =
     (if x = 0 then copy_items copy free xs (copied @ [x]) s
      else case copy x s of (y, s') \<Rightarrow>
        if y = 0 then (None, free_items free copied s')
        else copy_items copy free xs (copied @ [y]) s')"

definition sk_deep_copy ::
  "bool \<Rightarrow> alloc \<Rightarrow> (u64 \<Rightarrow> 's \<Rightarrow> u64 \<times> 's) \<Rightarrow> (u64 \<Rightarrow> 's \<Rightarrow> 's) \<Rightarrow> stack_st option \<Rightarrow> 's \<Rightarrow> stack_st option \<times> 's" where
  "sk_deep_copy ok al copy free sk s =
     (case sk_dup ok al sk of
        None \<Rightarrow> (None, s)
      | Some ret \<Rightarrow>
          let n = unat (st_num ret) in
          (case copy_items copy free (take n (st_data ret)) [] s of
             (None, s') \<Rightarrow> (None, s')
           | (Some ys, s') \<Rightarrow> (Some (ret\<lparr>st_data := ys @ drop n (st_data ret)\<rparr>), s')))"

section \<open>The invariant and what a stack holds\<close>

definition contents :: "stack_st \<Rightarrow> u64 list" where
  "contents sk = take (unat (st_num sk)) (st_data sk)"

text \<open>There is always room for one element more, and the size of the array in bytes does not wrap.\<close>

definition stack_ok :: "stack_st \<Rightarrow> bool" where
  "stack_ok sk \<longleftrightarrow> length (st_data sk) = unat (st_num_alloc sk) \<and> unat (st_num sk) < unat (st_num_alloc sk) \<and>
     8 * unat (st_num_alloc sk) < 2 ^ 64"

lemma stack_okD:
  assumes "stack_ok sk"
  shows "length (st_data sk) = unat (st_num_alloc sk)" "unat (st_num sk) < unat (st_num_alloc sk)"
    "8 * unat (st_num_alloc sk) < 2 ^ 64" "length (contents sk) = unat (st_num sk)"
    "unat (st_num sk + 1) = unat (st_num sk) + 1"
  using assms by (auto simp: stack_ok_def contents_def unat_word_ariths(1))

lemma overflowsD:
  assumes "\<not> overflows old new"
  shows "8 * unat new < 2 ^ 64" and "old \<le> new"
proof -
  have "unat (new * PTR_SIZE) div 8 = unat new"
    using assms by (simp add: overflows_def word_unat_eq_iff unat_div)
  then have "unat new * 8 \<le> unat (new * PTR_SIZE)"
    using div_times_less_eq_dividend[of "unat (new * PTR_SIZE)" 8] by simp
  also have "\<dots> < 2 ^ 64" using unat_le_bound[of "new * PTR_SIZE"] by simp
  finally show "8 * unat new < 2 ^ 64" by simp
  show "old \<le> new" using assms by (simp add: overflows_def not_less)
qed

lemma sk_grow_cases:
  assumes "stack_ok sk" and "sk_grow al sk = Some sk'"
  obtains more where "st_data sk' = st_data sk @ more" "length (st_data sk') = unat (st_num_alloc sk')"
    "st_num sk' = st_num sk" "st_comp sk' = st_comp sk" "unat (st_num sk) + 1 < unat (st_num_alloc sk')"
    "8 * unat (st_num_alloc sk') < 2 ^ 64"
proof (cases "st_num_alloc sk \<le> st_num sk + 1")
  case True
  note ok = stack_okD[OF assms(1)]
  define na where "na = (if overflows (st_num_alloc sk) (push_bit 1 (st_num_alloc sk))
    then st_num_alloc sk + 1 else push_bit 1 (st_num_alloc sk))"
  note gr = assms(2)[unfolded sk_grow_def Let_def if_P[OF True], folded na_def]
  then obtain junk where n: "\<not> overflows (st_num_alloc sk) na" and sk': "sk' = sk\<lparr>st_data := st_data sk @
      map junk [length (st_data sk) ..< unat na], st_num_alloc := na\<rparr>"
    by (auto split: if_splits option.splits)
  have "unat na = 2 * unat (st_num_alloc sk) \<or> unat na = unat (st_num_alloc sk) + 1"
    using ok(3) by (simp add: na_def push_bit_eq_mult unat_word_ariths)
  then have lt: "unat (st_num_alloc sk) < unat na" using ok(2) by linarith
  then show ?thesis using that[of "map junk [length (st_data sk) ..< unat na]"] overflowsD(1)[OF n] ok
    by (simp add: sk')
next
  case False
  then have "sk' = sk" using assms(2) by (simp add: sk_grow_def)
  moreover have "unat (st_num sk) + 1 < unat (st_num_alloc sk)"
    using False stack_okD(5)[OF assms(1)] by (simp add: word_le_nat_alt)
  ultimately show ?thesis using that[of "[]"] stack_okD[OF assms(1)] by simp
qed

text \<open>Where the C code says \<open>where >= sk->num\<close>, the element goes to the end.\<close>

definition insert_list :: "nat \<Rightarrow> 'a \<Rightarrow> 'a list \<Rightarrow> 'a list" where
  "insert_list i x xs = take i xs @ [x] @ drop i xs"

definition delete_list :: "nat \<Rightarrow> 'a list \<Rightarrow> 'a list" where
  "delete_list i xs = take i xs @ drop (Suc i) xs"

lemma take_memmove_up:
  assumes "i < n" "n < length d"
  shows "take (n + 1) ((memmove (i + 1) i (n - i) d)[i := p]) = insert_list i p (take n d)"
proof (rule nth_equalityI)
  show "length (take (n + 1) ((memmove (i + 1) i (n - i) d)[i := p])) = length (insert_list i p (take n d))"
    using assms by (simp add: memmove_def insert_list_def)
  fix j assume "j < length (take (n + 1) ((memmove (i + 1) i (n - i) d)[i := p]))"
  then have "j \<le> n" by simp
  then show "take (n + 1) ((memmove (i + 1) i (n - i) d)[i := p]) ! j = insert_list i p (take n d) ! j"
    using assms by (auto simp: memmove_def insert_list_def nth_append nth_list_update nth_Cons' min_def)
qed

lemma take_memmove_down:
  assumes "i < n" "n \<le> length d"
  shows "take (n - 1) (memmove i (i + 1) (n - i - 1) d) = delete_list i (take n d)"
proof (cases "i = n - 1")
  case True
  then show ?thesis using assms by (simp add: memmove_def delete_list_def)
next
  case False
  then have "i + 1 < n" "\<not> n - 1 \<le> i" using assms(1) by linarith+
  then show ?thesis using assms(2) by (simp add: memmove_def delete_list_def min_def take_drop)
qed

lemma length_memmove:
  "to + n \<le> length d \<Longrightarrow> from + n \<le> length d \<Longrightarrow> length (memmove to from n d) = length d"
  by (simp add: memmove_def)

lemma sk_insert_ok:
  assumes "stack_ok sk" and "sk_insert al (Some sk) p i = (sko, r)"
  shows "(r = 0 \<and> sko = Some sk) \<or>
    (\<exists>sk'. sko = Some sk' \<and> stack_ok sk' \<and> contents sk' = insert_list (unat i) p (contents sk) \<and>
       unat r = length (contents sk') \<and> \<not> st_sorted sk' \<and> st_comp sk' = st_comp sk)"
proof (cases "sk_grow al sk")
  case None
  then show ?thesis using assms(2) by simp
next
  case (Some g)
  obtain more where g: "st_data g = st_data sk @ more" "length (st_data g) = unat (st_num_alloc g)"
    "st_num g = st_num sk" "st_comp g = st_comp sk" "unat (st_num sk) + 1 < unat (st_num_alloc g)"
    "8 * unat (st_num_alloc g) < 2 ^ 64"
    using sk_grow_cases[OF assms(1) Some] .
  let ?n = "unat (st_num sk)" and ?d = "st_data g"
  define d' where "d' = (if st_num sk \<le> i then ?d[?n := p]
     else (memmove (unat i + 1) (unat i) (unat (st_num sk - i)) ?d)[unat i := p])"
  note n1 = stack_okD(5)[OF assms(1)]
  have t: "take ?n ?d = contents sk" using stack_okD[OF assms(1)] g(1) by (simp add: contents_def)
  have "length d' = length ?d \<and> take (?n + 1) d' = insert_list (unat i) p (contents sk)"
  proof (cases "st_num sk \<le> i")
    case True
    then have "?n \<le> unat i" by (simp add: word_le_nat_alt)
    then show ?thesis using True g(2,5) stack_okD(4)[OF assms(1)]
      by (simp add: d'_def insert_list_def take_Suc_conv_app_nth t)
  next
    case False
    then have l: "unat i < ?n" and s: "unat (st_num sk - i) = ?n - unat i"
      by (simp_all add: word_le_nat_alt unat_sub)
    show ?thesis using False l g(2,5) take_memmove_up[OF l, of ?d p] t
      by (simp add: d'_def s length_memmove)
  qed
  then have d': "length d' = length ?d" "take (?n + 1) d' = insert_list (unat i) p (contents sk)" by simp_all
  define sk1 where "sk1 = g\<lparr>st_data := d', st_num := st_num sk + 1, st_sorted := False\<rparr>"
  have "sko = Some sk1" and r: "r = st_num sk + 1"
    using assms(2) Some by (auto simp: Let_def g(3) sk1_def d'_def)
  moreover have "contents sk1 = insert_list (unat i) p (contents sk)"
    using d'(2) n1 unfolding contents_def[of sk1] by (simp add: sk1_def)
  moreover have ok1: "stack_ok sk1" using g(2,5,6) n1 d'(1) by (simp add: sk1_def stack_ok_def)
  moreover have "unat r = length (contents sk1)" unfolding stack_okD(4)[OF ok1] r by (simp add: sk1_def)
  ultimately show ?thesis by (auto simp: sk1_def g(4))
qed

lemma sk_delete_ok:
  assumes "stack_ok sk" and "sk_delete (Some sk) i = (sko, r)"
  shows "(st_num sk \<le> i \<and> sko = Some sk \<and> r = 0) \<or>
    (i < st_num sk \<and> (\<exists>sk'. sko = Some sk' \<and> stack_ok sk' \<and> contents sk' = delete_list (unat i) (contents sk) \<and>
       r = contents sk ! unat i \<and> st_sorted sk' = st_sorted sk \<and> st_comp sk' = st_comp sk))"
proof (cases "st_num sk \<le> i")
  case True
  then show ?thesis using assms(2) by (simp add: Let_def)
next
  case False
  let ?n = "unat (st_num sk)" and ?d = "st_data sk"
  note ok = stack_okD[OF assms(1)]
  have l: "unat i < ?n" and s: "unat (st_num sk - i) = ?n - unat i"
    using False by (simp_all add: word_le_nat_alt unat_sub)
  then have "1 \<le> st_num sk - i" "1 \<le> st_num sk" by (simp_all add: word_le_nat_alt)
  then have s1: "unat (st_num sk - i - 1) = ?n - unat i - 1" and n1: "unat (st_num sk - 1) = ?n - 1"
    using s by (simp_all add: unat_sub)
  define d' where "d' = (if i \<noteq> st_num sk - 1
    then memmove (unat i) (unat i + 1) (unat (st_num sk - i - 1)) ?d else ?d)"
  define sk1 where "sk1 = sk\<lparr>st_data := d', st_num := st_num sk - 1\<rparr>"
  have "length d' = length ?d" using l ok(1,2) by (simp add: d'_def s1 length_memmove)
  moreover have "take (?n - 1) d' = delete_list (unat i) (contents sk)"
  proof (cases "i = st_num sk - 1")
    case True
    then show ?thesis using ok(1,2) l by (simp add: d'_def delete_list_def contents_def n1)
  next
    case False
    then show ?thesis using take_memmove_down[OF l, of ?d] ok(1,2) by (simp add: d'_def s1 contents_def)
  qed
  ultimately have "stack_ok sk1" "contents sk1 = delete_list (unat i) (contents sk)"
    using ok(1-3) by (simp_all add: sk1_def stack_ok_def contents_def[of "sk\<lparr>st_data := d', st_num := st_num sk - 1\<rparr>"] n1)
  moreover have "sko = Some sk1" "r = contents sk ! unat i"
    using assms(2) False l ok(1,2) by (auto simp: Let_def sk1_def d'_def contents_def)
  ultimately show ?thesis using False by (auto simp: sk1_def)
qed

lemma sk_zero_ok:
  assumes "stack_ok sk"
  shows "\<exists>sk'. sk_zero (Some sk) = Some sk' \<and> stack_ok sk' \<and> contents sk' = []"
  using assms by (auto simp: stack_ok_def contents_def)

lemma sk_set_ok:
  assumes "stack_ok sk" and "sk_set (Some sk) i v = (sko, r)"
  shows "\<exists>sk'. sko = Some sk' \<and> stack_ok sk' \<and> contents sk' = (contents sk)[unat i := v] \<and>
    (unat i < length (contents sk) \<longrightarrow> r = v) \<and> st_sorted sk' = st_sorted sk \<and> st_comp sk' = st_comp sk"
proof (cases "st_num sk \<le> i")
  case True
  then show ?thesis using assms by (auto simp: contents_def word_le_nat_alt list_update_beyond)
next
  case False
  then show ?thesis using assms by (auto simp: stack_ok_def contents_def take_update_swap word_le_nat_alt)
qed

lemma sk_dup_ok:
  assumes "stack_ok sk" and "sk_dup ok al (Some sk) = Some sk'"
  shows "stack_ok sk' \<and> contents sk' = contents sk \<and> st_sorted sk' = st_sorted sk \<and> st_comp sk' = st_comp sk"
  using assms by (auto simp: stack_ok_def contents_def split: if_splits option.splits)

definition qsort_ok :: "((u64 \<Rightarrow> u64 \<Rightarrow> int) \<Rightarrow> u64 list \<Rightarrow> u64 list) \<Rightarrow> call_cmp \<Rightarrow> bool" where
  "qsort_ok qsort cc \<longleftrightarrow> (\<forall>c xs. mset (qsort (cc c) xs) = mset xs \<and> sorted_wrt (\<lambda>x y. cc c x y \<le> 0) (qsort (cc c) xs))"

definition flag_ok :: "call_cmp \<Rightarrow> stack_st \<Rightarrow> bool" where
  "flag_ok cc sk \<longleftrightarrow> (st_sorted sk \<longrightarrow> sorted_wrt (\<lambda>x y. cc (st_comp sk) x y \<le> 0) (contents sk))"

lemma sk_sort_ok:
  assumes "stack_ok sk" and "qsort_ok qsort cc"
  shows "\<exists>sk'. sk_sort qsort cc (Some sk) = Some sk' \<and> stack_ok sk' \<and> mset (contents sk') = mset (contents sk) \<and>
    (flag_ok cc sk \<longrightarrow> flag_ok cc sk') \<and> st_comp sk' = st_comp sk \<and> (st_comp sk \<noteq> 0 \<longrightarrow> st_sorted sk')"
proof (cases "st_comp sk = 0 \<or> st_sorted sk")
  case True
  then show ?thesis using assms(1) by auto
next
  case False
  note ok = stack_okD[OF assms(1)]
  let ?q = "qsort (cc (st_comp sk)) (contents sk)"
  have q: "mset ?q = mset (contents sk)" "sorted_wrt (\<lambda>x y. cc (st_comp sk) x y \<le> 0) ?q"
    using assms(2) by (simp_all add: qsort_ok_def)
  have lq: "length ?q = unat (st_num sk)" using mset_eq_length[OF q(1)] ok(4) by simp
  define sk1 where "sk1 = sk\<lparr>st_data := (if 2 \<le> st_num sk then ?q @ drop (unat (st_num sk)) (st_data sk)
    else st_data sk), st_sorted := True\<rparr>"
  have e: "sk_sort qsort cc (Some sk) = Some sk1"
    using False by (simp add: sk1_def contents_def Let_def)
  have "stack_ok sk1" using assms(1) ok lq by (auto simp: stack_ok_def sk1_def)
  moreover have "contents sk1 = (if 2 \<le> st_num sk then ?q else contents sk)"
    using lq unfolding contents_def[of sk1] by (simp add: sk1_def contents_def[of sk])
  moreover have "sorted_wrt R (contents sk)" if "\<not> 2 \<le> st_num sk" for R
  proof -
    have "length (contents sk) < 2" using that ok(4) by (simp add: word_le_nat_alt)
    then show ?thesis by (cases "contents sk" rule: list.exhaust; cases "tl (contents sk)") auto
  qed
  ultimately show ?thesis using e q by (auto simp: flag_ok_def sk1_def)
qed

text \<open>Sorting does nothing to a stack that cannot be sorted or says that it is.\<close>

lemma sk_sort_sorted:
  assumes "stack_ok sk" and "qsort_ok qsort cc" and "sk_sort qsort cc (Some sk) = Some sk'"
  shows "if st_comp sk = 0 \<or> st_sorted sk then sk' = sk
    else st_sorted sk' \<and> sorted_wrt (\<lambda>x y. cc (st_comp sk) x y \<le> 0) (contents sk')"
proof (cases "st_comp sk = 0 \<or> st_sorted sk")
  case False
  then have "flag_ok cc sk'" "st_comp sk' = st_comp sk" "st_sorted sk'"
    using sk_sort_ok[OF assms(1,2)] assms(3) by (auto simp: flag_ok_def[of cc sk])
  then show ?thesis using False by (simp add: flag_ok_def)
qed (use assms(3) in auto)

text \<open>
  A deep copy has a copy in place of every element, and NULL in place of NULL. The copies are in
  order if copying keeps what the comparison functions say.
\<close>

definition copy_of :: "(u64 \<Rightarrow> 's \<Rightarrow> u64 \<times> 's) \<Rightarrow> u64 \<Rightarrow> u64 \<Rightarrow> bool" where
  "copy_of copy x y \<longleftrightarrow> (if x = 0 then y = 0 else y \<noteq> 0 \<and> (\<exists>s s'. copy x s = (y, s')))"

definition keeps_order :: "call_cmp \<Rightarrow> (u64 \<Rightarrow> 's \<Rightarrow> u64 \<times> 's) \<Rightarrow> bool" where
  "keeps_order cc copy \<longleftrightarrow>
     (\<forall>c x y x' y'. copy_of copy x y \<longrightarrow> copy_of copy x' y' \<longrightarrow> cc c x x' \<le> 0 \<longrightarrow> cc c y y' \<le> 0)"

lemma copy_items_of:
  "copy_items copy free xs ys s = (Some zs, s') \<Longrightarrow> \<exists>ws. zs = ys @ ws \<and> list_all2 (copy_of copy) xs ws"
proof (induction xs arbitrary: ys s)
  case (Cons x xs)
  obtain y t where c: "copy x s = (y, t)" by (cases "copy x s")
  have "\<exists>w u. copy_items copy free xs (ys @ [w]) u = (Some zs, s') \<and> copy_of copy x w"
    using Cons.prems c by (auto simp: copy_of_def split: if_splits)
  then show ?case using Cons.IH by fastforce
qed simp

lemma sorted_wrt_copies:
  assumes "sorted_wrt R xs" and "list_all2 C xs ys"
    and "\<And>x y x' y'. C x y \<Longrightarrow> C x' y' \<Longrightarrow> R x x' \<Longrightarrow> R y y'"
  shows "sorted_wrt R ys"
  unfolding sorted_wrt_iff_nth_less
proof (intro allI impI)
  fix i j assume ij: "i < j" "j < length ys"
  then have "C (xs ! i) (ys ! i)" "C (xs ! j) (ys ! j)" "R (xs ! i) (xs ! j)"
    using assms(1,2) by (simp_all add: list_all2_conv_all_nth sorted_wrt_iff_nth_less)
  then show "R (ys ! i) (ys ! j)" by (rule assms(3))
qed

lemma sk_deep_copy_ok:
  assumes "stack_ok sk" and "sk_deep_copy ok al copy free (Some sk) s = (Some sk', s')"
  shows "stack_ok sk' \<and> list_all2 (copy_of copy) (contents sk) (contents sk') \<and>
    st_sorted sk' = st_sorted sk \<and> st_comp sk' = st_comp sk"
proof -
  obtain d where d: "sk_dup ok al (Some sk) = Some d"
    using assms(2) by (cases "sk_dup ok al (Some sk)") (simp_all add: sk_deep_copy_def del: sk_dup.simps)
  note dup = sk_dup_ok[OF assms(1) d]
  have dc: "take (unat (st_num d)) (st_data d) = contents sk" using dup by (simp add: contents_def[of d])
  obtain ys where ys: "copy_items copy free (contents sk) [] s = (Some ys, s')"
    "sk' = d\<lparr>st_data := ys @ drop (unat (st_num d)) (st_data d)\<rparr>"
    using assms(2) by (auto simp: sk_deep_copy_def d Let_def dc simp del: sk_dup.simps split: prod.splits option.splits)
  have a: "list_all2 (copy_of copy) (contents sk) ys" using copy_items_of[OF ys(1)] by simp
  then have l: "length ys = unat (st_num d)" using stack_okD(4)[of d] dup by (simp add: list_all2_lengthD)
  then have "contents sk' = ys" by (simp add: ys(2) contents_def)
  moreover have "stack_ok sk'" using dup l by (auto simp: stack_ok_def ys(2))
  ultimately show ?thesis using a dup by (simp add: ys(2))
qed

section \<open>Histories of a stack\<close>

text \<open>
  Every stack a client can come to hold. \<open>sets\<close> says whether sk_set is among its calls, and
  \<open>copies\<close> which functions it makes deep copies with. The allocator may answer differently each
  time.
\<close>

inductive sk_reach :: "((u64 \<Rightarrow> u64 \<Rightarrow> int) \<Rightarrow> u64 list \<Rightarrow> u64 list) \<Rightarrow> call_cmp \<Rightarrow> bool \<Rightarrow>
    ((u64 \<Rightarrow> 's \<Rightarrow> u64 \<times> 's) \<Rightarrow> bool) \<Rightarrow> stack_st \<Rightarrow> bool"
  for qsort :: "(u64 \<Rightarrow> u64 \<Rightarrow> int) \<Rightarrow> u64 list \<Rightarrow> u64 list" and cc :: call_cmp and sets :: bool
    and copies :: "(u64 \<Rightarrow> 's \<Rightarrow> u64 \<times> 's) \<Rightarrow> bool" where
  new: "sk_new ok al c = Some sk \<Longrightarrow> sk_reach qsort cc sets copies sk"
| insert: "sk_reach qsort cc sets copies sk \<Longrightarrow> sk_insert al (Some sk) p i = (Some sk', r) \<Longrightarrow> sk_reach qsort cc sets copies sk'"
| push: "sk_reach qsort cc sets copies sk \<Longrightarrow> sk_push al (Some sk) p = (Some sk', r) \<Longrightarrow> sk_reach qsort cc sets copies sk'"
| delete: "sk_reach qsort cc sets copies sk \<Longrightarrow> sk_delete (Some sk) i = (Some sk', r) \<Longrightarrow> sk_reach qsort cc sets copies sk'"
| delete_ptr: "sk_reach qsort cc sets copies sk \<Longrightarrow> sk_delete_ptr (Some sk) p = (Some sk', r) \<Longrightarrow> sk_reach qsort cc sets copies sk'"
| shift: "sk_reach qsort cc sets copies sk \<Longrightarrow> sk_shift (Some sk) = (Some sk', r) \<Longrightarrow> sk_reach qsort cc sets copies sk'"
| pop: "sk_reach qsort cc sets copies sk \<Longrightarrow> sk_pop (Some sk) = (Some sk', r) \<Longrightarrow> sk_reach qsort cc sets copies sk'"
| zero: "sk_reach qsort cc sets copies sk \<Longrightarrow> sk_zero (Some sk) = Some sk' \<Longrightarrow> sk_reach qsort cc sets copies sk'"
| sort: "sk_reach qsort cc sets copies sk \<Longrightarrow> sk_sort qsort cc (Some sk) = Some sk' \<Longrightarrow> sk_reach qsort cc sets copies sk'"
| dup: "sk_reach qsort cc sets copies sk \<Longrightarrow> sk_dup ok al (Some sk) = Some sk' \<Longrightarrow> sk_reach qsort cc sets copies sk'"
| deep_copy: "sk_reach qsort cc sets copies sk \<Longrightarrow> copies copy \<Longrightarrow> sk_deep_copy ok al copy free (Some sk) s = (Some sk', s') \<Longrightarrow>
    sk_reach qsort cc sets copies sk'"
| cmp: "sk_reach qsort cc sets copies sk \<Longrightarrow> sk_set_cmp_func sk c = (sk', r) \<Longrightarrow> sk_reach qsort cc sets copies sk'"
| set: "sets \<Longrightarrow> sk_reach qsort cc sets copies sk \<Longrightarrow> sk_set (Some sk) i v = (Some sk', r) \<Longrightarrow> sk_reach qsort cc sets copies sk'"

lemma sorted_wrt_delete_list: "sorted_wrt R xs \<Longrightarrow> sorted_wrt R (delete_list i xs)"
proof -
  assume "sorted_wrt R xs"
  then have "sorted_wrt R (take i xs @ drop i xs)" by simp
  then have s: "sorted_wrt R (take i xs)" "sorted_wrt R (drop i xs)" "\<forall>x\<in>set (take i xs). \<forall>y\<in>set (drop i xs). R x y"
    unfolding sorted_wrt_append by blast+
  moreover have "set (drop (Suc i) xs) \<subseteq> set (drop i xs)" by (simp add: set_drop_subset_set_drop)
  moreover have "sorted_wrt R (drop (Suc i) xs)" using \<open>sorted_wrt R xs\<close> by (rule sorted_wrt_drop)
  ultimately show ?thesis unfolding delete_list_def sorted_wrt_append by blast
qed

lemma stack_step_insert:
  "stack_ok sk \<and> flag_ok cc sk \<Longrightarrow> sk_insert al (Some sk) p i = (Some sk', r) \<Longrightarrow> stack_ok sk' \<and> flag_ok cc sk'"
  using sk_insert_ok[of sk al p i "Some sk'" r] by (auto simp: flag_ok_def)

lemma stack_step_delete:
  assumes "stack_ok sk" and "sk_delete (Some sk) i = (Some sk', r)"
  shows "stack_ok sk' \<and> (flag_ok cc sk \<longrightarrow> flag_ok cc sk')"
  using sk_delete_ok[OF assms] assms(1) by (auto simp: flag_ok_def intro: sorted_wrt_delete_list)

lemma delete_kinds:
  "sk_pop (Some sk) = sk_delete (Some sk) (st_num sk - 1)"
  "sk_shift (Some sk) = sk_delete (Some sk) 0"
  "(\<exists>i. sk_delete_ptr (Some sk) p = sk_delete (Some sk) i) \<or> sk_delete_ptr (Some sk) p = (Some sk, 0)"
  by (auto simp: Let_def split: option.split)

lemma stack_step_insert_ok: "stack_ok sk \<Longrightarrow> sk_insert al (Some sk) p i = (Some sk', r) \<Longrightarrow> stack_ok sk'"
  using sk_insert_ok[of sk al p i "Some sk'" r] by auto

lemma sk_new_ok: "sk_new ok al c = Some sk \<Longrightarrow> stack_ok sk \<and> flag_ok cc sk"
  by (auto simp: sk_new_def stack_ok_def flag_ok_def kMinSize_def split: if_splits option.splits)

lemma sk_reach_ok:
  assumes "sk_reach qsort cc sets copies sk" and "qsort_ok qsort cc"
  shows "stack_ok sk \<and> (\<not> sets \<and> (\<forall>copy. copies copy \<longrightarrow> keeps_order cc copy) \<longrightarrow> flag_ok cc sk)"
  using assms(1)
proof induction
  case (new ok al c sk)
  then show ?case using sk_new_ok by blast
next
  case (insert sk al p i sk' r)
  then show ?case using stack_step_insert stack_step_insert_ok by blast
next
  case (push sk al p sk' r)
  then show ?case unfolding sk_push.simps using stack_step_insert stack_step_insert_ok by blast
next
  case (delete sk i sk' r)
  then show ?case using stack_step_delete by blast
next
  case (delete_ptr sk p sk' r)
  then show ?case using delete_kinds(3)[of sk p] stack_step_delete[of sk _ sk' r cc] by auto
next
  case (shift sk sk' r)
  then show ?case unfolding delete_kinds using stack_step_delete by blast
next
  case (pop sk sk' r)
  then show ?case unfolding delete_kinds using stack_step_delete by blast
next
  case (zero sk sk')
  then show ?case using sk_zero_ok[of sk] by (auto simp: flag_ok_def)
next
  case (sort sk sk')
  then show ?case using sk_sort_ok[OF _ assms(2), of sk] by auto
next
  case (dup sk ok al sk')
  then show ?case using sk_dup_ok[of sk ok al sk'] by (simp add: flag_ok_def)
next
  case (deep_copy sk copy ok al free s sk' s')
  note d = sk_deep_copy_ok[OF conjunct1[OF deep_copy.IH] deep_copy.hyps(3)]
  have "flag_ok cc sk'" if "flag_ok cc sk" "keeps_order cc copy"
    using sorted_wrt_copies[of "\<lambda>x y. cc (st_comp sk) x y \<le> 0" "contents sk" "copy_of copy" "contents sk'"] d that
    by (auto simp: flag_ok_def keeps_order_def)
  then show ?case using d deep_copy.IH deep_copy.hyps(2) by blast
next
  case (cmp sk c sk' r)
  then show ?case by (cases "st_comp sk = c") (auto simp: sk_set_cmp_func_def stack_ok_def flag_ok_def contents_def)
next
  case (set sk i v sk' r)
  then show ?case using sk_set_ok[of sk i v "Some sk'" r] by auto
qed

section \<open>Searches\<close>

text \<open>\<open>first_match\<close> says that an answer is the index of the first element that satisfies \<open>P\<close>.\<close>

definition first_match :: "(u64 \<Rightarrow> bool) \<Rightarrow> u64 list \<Rightarrow> u64 option \<Rightarrow> bool" where
  "first_match P xs r \<longleftrightarrow> (case r of
     None \<Rightarrow> \<forall>i<length xs. \<not> P (xs ! i)
   | Some i \<Rightarrow> unat i < length xs \<and> P (xs ! unat i) \<and> (\<forall>j<unat i. \<not> P (xs ! j)))"

lemma scan_first:
  assumes "unat i + length xs < 2 ^ 64"
  shows "case scan P xs i of
      None \<Rightarrow> \<forall>j<length xs. \<not> P (xs ! j)
    | Some k \<Rightarrow> \<exists>j<length xs. unat k = unat i + j \<and> P (xs ! j) \<and> (\<forall>m<j. \<not> P (xs ! m))"
  using assms
proof (induction xs arbitrary: i)
  case (Cons x xs)
  show ?case
  proof (cases "P x")
    case False
    have u: "unat (i + 1) = unat i + 1" using Cons.prems by (simp add: unat_word_ariths(1))
    then have "unat (i + 1) + length xs < 2 ^ 64" using Cons.prems by simp
    note IH = Cons.IH[OF this]
    show ?thesis
    proof (cases "scan P xs (i + 1)")
      case None
      then show ?thesis using IH False by (simp add: nth_Cons' )
    next
      case (Some k)
      with IH obtain j where "j < length xs" "unat k = unat (i + 1) + j" "P (xs ! j)" "\<forall>m<j. \<not> P (xs ! m)" by auto
      then show ?thesis using Some False u by (auto intro!: exI[of _ "Suc j"] simp: nth_Cons')
    qed
  qed auto
qed simp

lemma scan_first_match: "length xs < 2 ^ 64 \<Longrightarrow> first_match P xs (scan P xs 0)"
  using scan_first[of 0 xs P] by (auto simp: first_match_def split: option.splits)

text \<open>What documentation asks of a comparison function: it orders the elements, ties allowed.\<close>

definition cmp_order :: "(u64 \<Rightarrow> u64 \<Rightarrow> int) \<Rightarrow> bool" where
  "cmp_order f \<longleftrightarrow> (\<forall>x y. sgn (f x y) = - sgn (f y x)) \<and> (\<forall>x y z. f x y \<le> 0 \<longrightarrow> f y z \<le> 0 \<longrightarrow> f x z \<le> 0)"

lemma cmp_order_flip: "cmp_order f \<Longrightarrow> (f x y = 0 \<longleftrightarrow> f y x = 0) \<and> (f x y < 0 \<longleftrightarrow> 0 < f y x) \<and> (f x y \<le> 0 \<longleftrightarrow> 0 \<le> f y x)"
  unfolding cmp_order_def by (metis neg_0_equal_iff_equal sgn_0_0 sgn_greater sgn_less neg_0_less_iff_less not_less)

lemma cmp_order_trans: "cmp_order f \<Longrightarrow> f x y \<le> 0 \<Longrightarrow> f y z \<le> 0 \<Longrightarrow> f x z \<le> 0"
  unfolding cmp_order_def by blast

lemma sorted_cmp_mono:
  assumes "cmp_order f" and "sorted_wrt (\<lambda>x y. f x y \<le> 0) xs" and "i \<le> j" and "j < length xs"
  shows "0 < f p (xs ! j) \<Longrightarrow> 0 < f p (xs ! i)" and "f p (xs ! i) < 0 \<Longrightarrow> f p (xs ! j) < 0"
proof -
  have le: "i = j \<or> f (xs ! i) (xs ! j) \<le> 0"
    using sorted_wrt_nth_less[OF assms(2), of i j] assms(3,4) by fastforce
  note fl = cmp_order_flip[OF assms(1)] and tr = cmp_order_trans[OF assms(1)]
  show "0 < f p (xs ! i)" if "0 < f p (xs ! j)" using le that tr[of p "xs ! i" "xs ! j"] by force
  show "f p (xs ! j) < 0" if h: "f p (xs ! i) < 0"
  proof (rule ccontr)
    assume n: "\<not> f p (xs ! j) < 0"
    then have "f (xs ! j) p \<le> 0" using fl[of "xs ! j" p] by simp
    moreover have "f (xs ! i) (xs ! j) \<le> 0" using le h n by auto
    ultimately have "f (xs ! i) p \<le> 0" using tr by blast
    then show False using h fl[of "xs ! i" p] by simp
  qed
qed

lemma bsearch_first_match:
  assumes ord: "cmp_order f" and srt: "sorted_wrt (\<lambda>x y. f x y \<le> 0) xs"
    and "unat hi \<le> length xs" and "\<forall>i<length xs. i < unat lo \<longrightarrow> f p (xs ! i) \<noteq> 0"
    and "\<forall>i<length xs. unat hi \<le> i \<and> f p (xs ! i) = 0 \<longrightarrow> (\<exists>j<unat hi. f p (xs ! j) = 0)"
  shows "first_match (\<lambda>x. f p x = 0) xs (bsearch (f p) xs lo hi)"
  using assms(3-5)
proof (induction "unat hi - unat lo" arbitrary: lo hi rule: less_induct)
  case less
  note mono = sorted_cmp_mono[OF ord srt, where p = p]
  show ?case
  proof (cases "lo < hi")
    case False
    then have e: "bsearch (f p) xs lo hi = None" by (subst bsearch.simps) simp
    have le: "unat hi \<le> unat lo" using False by (simp add: word_less_nat_alt)
    have "f p (xs ! i) \<noteq> 0" if i: "i < length xs" for i
    proof (cases "i < unat lo")
      case True
      then show ?thesis using less.prems(2) i by blast
    next
      case False
      then have "unat hi \<le> i" using le by simp
      moreover have "\<not> (\<exists>j<unat hi. f p (xs ! j) = 0)" using less.prems(1,2) le by auto
      ultimately show ?thesis using less.prems(3) i by blast
    qed
    then show ?thesis by (simp add: e first_match_def)
  next
    case True
    define mid where "mid = lo + (hi - lo - 1) div 2"
    note mid = bsearch_mid[OF True, folded mid_def]
    have mhi: "unat mid < unat hi" and lom: "unat lo \<le> unat mid" using mid(2,3) by (simp_all add: word_less_nat_alt word_le_nat_alt)
    then have ml: "unat mid < length xs" using less.prems(1) by simp
    have step: "bsearch (f p) xs lo hi = (let r = f p (xs ! unat mid) in
        if 0 < r then bsearch (f p) xs (mid + 1) hi else if r < 0 then bsearch (f p) xs lo mid
        else if hi - lo = 1 then Some mid else bsearch (f p) xs lo (mid + 1))"
      using True by (subst bsearch.simps) (simp add: mid_def Let_def)
    consider "0 < f p (xs ! unat mid)" | "f p (xs ! unat mid) < 0"
      | "f p (xs ! unat mid) = 0" "hi - lo = 1" | "f p (xs ! unat mid) = 0" "hi - lo \<noteq> 1" by linarith
    then show ?thesis
    proof cases
      case 1
      have "first_match (\<lambda>x. f p x = 0) xs (bsearch (f p) xs (mid + 1) hi)"
      proof (rule less.hyps)
        show "unat hi - unat (mid + 1) < unat hi - unat lo" using mid(4) mhi lom by linarith
        show "\<forall>i<length xs. i < unat (mid + 1) \<longrightarrow> f p (xs ! i) \<noteq> 0"
        proof (intro allI impI)
          fix i assume "i < unat (mid + 1)"
          then have "i \<le> unat mid" using mid(4) by simp
          from mono(1)[OF this ml 1] show "f p (xs ! i) \<noteq> 0" by simp
        qed
      qed (use less.prems in simp_all)
      then show ?thesis unfolding step using 1 by simp
    next
      case 2
      have "first_match (\<lambda>x. f p x = 0) xs (bsearch (f p) xs lo mid)"
      proof (rule less.hyps)
        show "\<forall>i<length xs. unat mid \<le> i \<and> f p (xs ! i) = 0 \<longrightarrow> (\<exists>j<unat mid. f p (xs ! j) = 0)"
          using mono(2)[OF _ _ 2] by (metis less_irrefl)
      qed (use less.prems ml mhi lom in simp_all)
      then show ?thesis unfolding step using 2 by simp
    next
      case 3
      have "unat (hi - lo) = unat hi - unat lo" using True by (simp add: unat_sub)
      then have "unat mid = unat lo" using 3(2) mid(1) by simp
      then show ?thesis unfolding step using 3 ml less.prems(2) by (simp add: first_match_def)
    next
      case 4
      have "unat (mid + 1) < unat hi" using bsearch_shrinks[OF True 4(2)] by (simp add: mid_def)
      then have "first_match (\<lambda>x. f p x = 0) xs (bsearch (f p) xs lo (mid + 1))"
        using less.prems 4(1) lom mid(4) by (intro less.hyps) auto
      then show ?thesis unfolding step using 4 by simp
    qed
  qed
qed

lemma bsearch_prefix:
  assumes "unat hi \<le> n"
  shows "bsearch f (take n xs) lo hi = bsearch f xs lo hi"
  using assms
proof (induction "unat hi - unat lo" arbitrary: lo hi rule: less_induct)
  case less
  show ?case
  proof (cases "lo < hi")
    case True
    define mid where "mid = lo + (hi - lo - 1) div 2"
    note mid = bsearch_mid[OF True, folded mid_def]
    have mhi: "unat mid < unat hi" and lom: "unat lo \<le> unat mid" using mid(2,3) by (simp_all add: word_less_nat_alt word_le_nat_alt)
    have nth: "take n xs ! unat mid = xs ! unat mid" using mhi less.prems by simp
    have ih: "bsearch f (take n xs) (mid + 1) hi = bsearch f xs (mid + 1) hi"
      "bsearch f (take n xs) lo mid = bsearch f xs lo mid"
      "hi - lo \<noteq> 1 \<Longrightarrow> bsearch f (take n xs) lo (mid + 1) = bsearch f xs lo (mid + 1)"
      using mid(4) mhi lom less.prems bsearch_shrinks[OF True] by (intro less.hyps; simp add: mid_def)+
    show ?thesis
      by (subst (1 2) bsearch.simps) (simp add: nth ih Let_def flip: mid_def)
  qed (subst (1 2) bsearch.simps, simp)
qed

lemma bsearch_right:
  assumes "\<And>i. unat lo \<le> i \<Longrightarrow> i < unat hi \<Longrightarrow> 0 < f (xs ! i)"
  shows "bsearch f xs lo hi = None"
  using assms
proof (induction "unat hi - unat lo" arbitrary: lo rule: less_induct)
  case less
  show ?case
  proof (cases "lo < hi")
    case True
    define mid where "mid = lo + (hi - lo - 1) div 2"
    note mid = bsearch_mid[OF True, folded mid_def]
    have m: "unat mid < unat hi" "unat lo \<le> unat mid" using mid(2,3) by (simp_all add: word_less_nat_alt word_le_nat_alt)
    then have "bsearch f xs (mid + 1) hi = None" using mid(4) less.prems by (intro less.hyps) simp_all
    then show ?thesis using True less.prems[of "unat mid"] m by (subst bsearch.simps) (simp add: mid_def Let_def)
  qed (subst bsearch.simps, simp)
qed

lemma sk_find_first:
  assumes "stack_ok sk" and "flag_ok cc sk" and "cmp_order (cc (st_comp sk))"
  shows "first_match (\<lambda>x. if st_comp sk = 0 then x = p else p \<noteq> 0 \<and> cc (st_comp sk) p x = 0)
     (contents sk) (sk_find cc (Some sk) p)"
proof -
  have l: "length (contents sk) < 2 ^ 64" using stack_okD[OF assms(1)] by simp
  note sc = scan_first_match[OF l]
  note find = sk_find.simps(2)[of cc sk p, unfolded Let_def, folded contents_def]
  consider "st_comp sk = 0" | "st_comp sk \<noteq> 0" "p = 0" | "st_comp sk \<noteq> 0" "p \<noteq> 0" "\<not> st_sorted sk"
    | "st_comp sk \<noteq> 0" "p \<noteq> 0" "st_sorted sk" by blast
  then show ?thesis
  proof cases
    case 1
    then show ?thesis using sc[of "\<lambda>x. x = p"] unfolding find by simp
  next
    case 2
    then show ?thesis unfolding find by (simp add: first_match_def)
  next
    case 3
    then show ?thesis using sc[of "\<lambda>x. cc (st_comp sk) p x = 0"] unfolding find by simp
  next
    case 4
    have "first_match (\<lambda>x. cc (st_comp sk) p x = 0) (contents sk) (bsearch (cc (st_comp sk) p) (contents sk) 0 (st_num sk))"
      using 4(3) assms stack_okD(4)[OF assms(1)] by (intro bsearch_first_match) (simp_all add: flag_ok_def)
    then show ?thesis using 4 bsearch_prefix[of "st_num sk" "unat (st_num sk)"] unfolding find
      by (simp add: contents_def)
  qed
qed

section \<open>The stack as a sequence\<close>

text \<open>
  What clients rely on when they use a stack as a stack or as a queue: adding at one end, which
  may fail, and taking from either. \<open>add_all\<close> and \<open>take_all\<close> are a client's loops.
\<close>

fun add_all :: "('s \<Rightarrow> 'v \<Rightarrow> 's option) \<Rightarrow> 's \<Rightarrow> 'v list \<Rightarrow> 's option" where
  "add_all f s [] = Some s"
| "add_all f s (x # xs) = (case f s x of None \<Rightarrow> None | Some s' \<Rightarrow> add_all f s' xs)"

fun take_all :: "('s \<Rightarrow> 's \<times> 'v) \<Rightarrow> nat \<Rightarrow> 's \<Rightarrow> 's \<times> 'v list" where
  "take_all f 0 s = (s, [])"
| "take_all f (Suc n) s = (case f s of (s', x) \<Rightarrow> case take_all f n s' of (s'', xs) \<Rightarrow> (s'', x # xs))"

locale sequence =
  fixes inv :: "'s \<Rightarrow> bool" and abs :: "'s \<Rightarrow> 'v list"
    and push :: "'s \<Rightarrow> 'v \<Rightarrow> 's option" and pop :: "'s \<Rightarrow> 's \<times> 'v" and shift :: "'s \<Rightarrow> 's \<times> 'v"
  assumes push: "inv s \<Longrightarrow> push s x = Some s' \<Longrightarrow> inv s' \<and> abs s' = abs s @ [x]"
    and pop: "inv s \<Longrightarrow> abs s = xs @ [x] \<Longrightarrow> \<exists>s'. pop s = (s', x) \<and> inv s' \<and> abs s' = xs"
    and shift: "inv s \<Longrightarrow> abs s = x # xs \<Longrightarrow> \<exists>s'. shift s = (s', x) \<and> inv s' \<and> abs s' = xs"
begin

lemma add_all_abs: "inv s \<Longrightarrow> add_all push s xs = Some s' \<Longrightarrow> inv s' \<and> abs s' = abs s @ xs"
proof (induction xs arbitrary: s)
  case (Cons x xs)
  then show ?case using push[of s x] by (auto split: option.splits)
qed simp

lemma pop_all: "inv s \<Longrightarrow> abs s = ys @ rev xs \<Longrightarrow>
    \<exists>s'. take_all pop (length xs) s = (s', xs) \<and> inv s' \<and> abs s' = ys"
proof (induction xs arbitrary: s)
  case (Cons x xs)
  then obtain s1 where "pop s = (s1, x)" "inv s1" "abs s1 = ys @ rev xs" using pop[of s "ys @ rev xs" x] by auto
  then show ?case using Cons.IH[of s1] by auto
qed simp

lemma shift_all: "inv s \<Longrightarrow> abs s = xs @ ys \<Longrightarrow>
    \<exists>s'. take_all shift (length xs) s = (s', xs) \<and> inv s' \<and> abs s' = ys"
proof (induction xs arbitrary: s)
  case (Cons x xs)
  then obtain s1 where "shift s = (s1, x)" "inv s1" "abs s1 = xs @ ys" using shift[of s x "xs @ ys"] by auto
  then show ?case using Cons.IH[of s1] by auto
qed simp

lemma lifo_fifo:
  assumes "inv s" and "add_all push s xs = Some s'"
  shows "\<exists>s''. take_all pop (length xs) s' = (s'', rev xs) \<and> inv s'' \<and> abs s'' = abs s"
    and "\<exists>s''. take_all shift (length (abs s @ xs)) s' = (s'', abs s @ xs) \<and> inv s'' \<and> abs s'' = []"
  using add_all_abs[OF assms] pop_all[of s' "abs s" "rev xs"] shift_all[of s' "abs s @ xs" "[]"] by auto

end

text \<open>A client that holds a stack pushes, pops and shifts. NULL is what it never holds.\<close>

definition push1 :: "alloc \<Rightarrow> stack_st \<Rightarrow> u64 \<Rightarrow> stack_st option" where
  "push1 al sk x = (case sk_push al (Some sk) x of (sko, r) \<Rightarrow> if r = 0 then None else sko)"

definition pop1 :: "stack_st \<Rightarrow> stack_st \<times> u64" where
  "pop1 sk = (case sk_pop (Some sk) of (Some sk', r) \<Rightarrow> (sk', r) | (None, r) \<Rightarrow> (sk, r))"

definition shift1 :: "stack_st \<Rightarrow> stack_st \<times> u64" where
  "shift1 sk = (case sk_shift (Some sk) of (Some sk', r) \<Rightarrow> (sk', r) | (None, r) \<Rightarrow> (sk, r))"

lemma sk_push_ok:
  assumes "stack_ok sk" and "push1 al sk x = Some sk'"
  shows "stack_ok sk' \<and> contents sk' = contents sk @ [x]"
proof -
  obtain r where "sk_insert al (Some sk) x (st_num sk) = (Some sk', r)" "r \<noteq> 0"
    using assms(2) by (cases "sk_insert al (Some sk) x (st_num sk)")
      (auto simp: push1_def split: if_splits simp del: sk_insert.simps)
  then show ?thesis
    using sk_insert_ok[OF assms(1)] stack_okD(4)[OF assms(1)] by (fastforce simp: insert_list_def)
qed

lemma sk_delete_at:
  assumes "stack_ok sk" and "contents sk = xs @ [x] @ ys"
  shows "\<exists>sk'. sk_delete (Some sk) (of_nat (length xs)) = (Some sk', x) \<and> stack_ok sk' \<and> contents sk' = xs @ ys"
proof -
  note ok = stack_okD[OF assms(1)]
  have l: "unat (st_num sk) = length xs + 1 + length ys" using ok(4) assms(2) by simp
  then have u: "unat (of_nat (length xs) :: u64) = length xs" using ok(2,3) by (simp add: unat_of_nat)
  then have "of_nat (length xs) < st_num sk" using l by (simp add: word_less_nat_alt)
  moreover obtain sko r where d: "sk_delete (Some sk) (of_nat (length xs)) = (sko, r)" by (cases "sk_delete (Some sk) (of_nat (length xs))")
  ultimately show ?thesis using sk_delete_ok[OF assms(1) d] u assms(2)
    by (auto simp: delete_list_def not_le nth_append simp del: sk_delete.simps)
qed

lemma num_contents: "stack_ok sk \<Longrightarrow> st_num sk = of_nat (length (contents sk))"
  using stack_okD(4) by (metis of_nat_unat ucast_id)

interpretation sk: sequence stack_ok contents "push1 al" pop1 shift1 for al
proof
  fix s s' x assume "stack_ok s" "push1 al s x = Some s'"
  then show "stack_ok s' \<and> contents s' = contents s @ [x]" by (rule sk_push_ok)
next
  fix s xs x assume a: "stack_ok s" "contents s = xs @ [x]"
  have n: "st_num s = of_nat (length xs) + 1" using num_contents[OF a(1)] a(2) by simp
  have "st_num s \<noteq> 0" using stack_okD(4)[OF a(1)] a(2) by auto
  then show "\<exists>s'. pop1 s = (s', x) \<and> stack_ok s' \<and> contents s' = xs"
    using sk_delete_at[OF a(1), of xs x "[]"] a(2) n by (auto simp: pop1_def simp del: sk_delete.simps)
next
  fix s xs x assume a: "stack_ok s" "contents s = x # xs"
  have "st_num s \<noteq> 0" using stack_okD(4)[OF a(1)] a(2) by auto
  then show "\<exists>s'. shift1 s = (s', x) \<and> stack_ok s' \<and> contents s' = xs"
    using sk_delete_at[OF a(1), of "[]" x xs] a(2) by (auto simp: shift1_def simp del: sk_delete.simps)
qed

section \<open>Deep copies\<close>

text \<open>
  The callbacks as an allocator sees them: \<open>'s\<close> is the multiset of live objects, a copy that
  succeeds adds one and freeing removes one.
\<close>

definition copy_ok :: "(u64 \<Rightarrow> u64 multiset \<Rightarrow> u64 \<times> u64 multiset) \<Rightarrow> bool" where
  "copy_ok copy \<longleftrightarrow> (\<forall>x s y s'. copy x s = (y, s') \<longrightarrow> s' = (if y = 0 then s else add_mset y s))"

lemma free_items_live:
  "free_items (\<lambda>x s. s - {#x#}) xs (s + mset (filter (\<lambda>x. x \<noteq> 0) xs)) = s"
proof (induction xs arbitrary: s)
  case (Cons x xs)
  then show ?case by (simp add: free_items_def)
qed (simp add: free_items_def)

lemma copy_items_live:
  assumes "copy_ok copy" and "copy_items copy (\<lambda>x s. s - {#x#}) xs ys (s + mset (filter (\<lambda>x. x \<noteq> 0) ys)) = (r, s')"
  shows "case r of None \<Rightarrow> s' = s
    | Some zs \<Rightarrow> s' = s + mset (filter (\<lambda>x. x \<noteq> 0) zs) \<and> length zs = length ys + length xs"
  using assms(2)
proof (induction xs arbitrary: ys)
  case (Cons x xs)
  show ?case
  proof (cases "x = 0")
    case True
    then show ?thesis using Cons.IH[of "ys @ [x]"] Cons.prems by (auto split: option.splits)
  next
    case False
    obtain y t where c: "copy x (s + mset (filter (\<lambda>x. x \<noteq> 0) ys)) = (y, t)" by (cases "copy x (s + mset (filter (\<lambda>x. x \<noteq> 0) ys))")
    then have t: "t = (if y = 0 then s + mset (filter (\<lambda>x. x \<noteq> 0) ys) else add_mset y (s + mset (filter (\<lambda>x. x \<noteq> 0) ys)))"
      using assms(1) by (simp add: copy_ok_def)
    show ?thesis
    proof (cases "y = 0")
      case True
      then show ?thesis using Cons.prems False c t free_items_live[of ys s] by auto
    next
      case y: False
      then show ?thesis using Cons.IH[of "ys @ [y]"] Cons.prems False c t by (auto split: option.splits)
    qed
  qed
qed auto

section \<open>Properties\<close>

text \<open>
  C32: The pointer stack implements a list. On a stack that holds \<open>xs\<close>, sk_insert either reports
  failure and changes nothing or inserts at the position or the end and returns the new length;
  sk_delete takes out what sk_value shows, or reports NULL when out of range; sk_sort puts the
  elements in the order of the comparison function and sets the flag, and leaves a stack alone that
  has no such function or is flagged as sorted.
\<close>

theorem stack_refines_list:
  assumes "stack_ok sk" and "qsort_ok qsort cc"
  shows "(case sk_insert al (Some sk) p i of
      (None, r) \<Rightarrow> False
    | (Some sk', r) \<Rightarrow> stack_ok sk' \<and>
        (if r = 0 then contents sk' = contents sk
         else contents sk' = insert_list (unat i) p (contents sk) \<and> unat r = length (contents sk'))) \<and>
    (case sk_delete (Some sk) i of
      (None, r) \<Rightarrow> False
    | (Some sk', r) \<Rightarrow> stack_ok sk' \<and> r = sk_value (Some sk) i \<and>
        contents sk' = (if unat i < length (contents sk) then delete_list (unat i) (contents sk) else contents sk)) \<and>
    (case sk_sort qsort cc (Some sk) of
      None \<Rightarrow> False
    | Some sk' \<Rightarrow> stack_ok sk' \<and> mset (contents sk') = mset (contents sk) \<and>
        (if st_comp sk = 0 \<or> st_sorted sk then sk' = sk
         else st_sorted sk' \<and> sorted_wrt (\<lambda>x y. cc (st_comp sk) x y \<le> 0) (contents sk'))) \<and>
    sk_value (Some sk) i = (if unat i < length (contents sk) then contents sk ! unat i else 0) \<and>
    unat (sk_num (Some sk)) = length (contents sk)"
proof (intro conjI)
  note len = stack_okD(4)[OF assms(1)]
  have nil: "r = 0" if "contents sk' = []" "unat r = length (contents sk')" for r :: u64 and sk'
    using that by (simp add: unat_eq_zero)
  show "case sk_insert al (Some sk) p i of (None, r) \<Rightarrow> False
    | (Some sk', r) \<Rightarrow> stack_ok sk' \<and> (if r = 0 then contents sk' = contents sk
         else contents sk' = insert_list (unat i) p (contents sk) \<and> unat r = length (contents sk'))"
  proof (cases "sk_insert al (Some sk) p i")
    case (Pair sko r)
    from sk_insert_ok[OF assms(1) this] show ?thesis unfolding Pair
    proof
      assume "\<exists>sk'. sko = Some sk' \<and> stack_ok sk' \<and> contents sk' = insert_list (unat i) p (contents sk) \<and>
        unat r = length (contents sk') \<and> \<not> st_sorted sk' \<and> st_comp sk' = st_comp sk"
      then obtain sk' where h: "sko = Some sk'" "stack_ok sk'" "contents sk' = insert_list (unat i) p (contents sk)"
        "unat r = length (contents sk')" by blast
      moreover have "r \<noteq> 0" using h(3,4) by (auto simp: insert_list_def)
      ultimately show "case (sko, r) of (None, r) \<Rightarrow> False | (Some sk', r) \<Rightarrow> stack_ok sk' \<and>
        (if r = 0 then contents sk' = contents sk
         else contents sk' = insert_list (unat i) p (contents sk) \<and> unat r = length (contents sk'))" by simp
    qed (use assms(1) in simp)
  qed
  show val: "sk_value (Some sk) i = (if unat i < length (contents sk) then contents sk ! unat i else 0)"
    using len by (auto simp: contents_def word_le_nat_alt not_le)
  show "case sk_delete (Some sk) i of (None, r) \<Rightarrow> False
    | (Some sk', r) \<Rightarrow> stack_ok sk' \<and> r = sk_value (Some sk) i \<and>
        contents sk' = (if unat i < length (contents sk) then delete_list (unat i) (contents sk) else contents sk)"
  proof (cases "sk_delete (Some sk) i")
    case (Pair sko r)
    show ?thesis unfolding Pair val
      using sk_delete_ok[OF assms(1) Pair] assms(1) len by (auto simp: word_less_nat_alt word_le_nat_alt)
  qed
  show "case sk_sort qsort cc (Some sk) of None \<Rightarrow> False
    | Some sk' \<Rightarrow> stack_ok sk' \<and> mset (contents sk') = mset (contents sk) \<and>
        (if st_comp sk = 0 \<or> st_sorted sk then sk' = sk
         else st_sorted sk' \<and> sorted_wrt (\<lambda>x y. cc (st_comp sk) x y \<le> 0) (contents sk'))"
    using sk_sort_ok[OF assms] sk_sort_sorted[OF assms] by (auto simp del: sk_sort.simps)
  show "unat (sk_num (Some sk)) = length (contents sk)" using len by simp
qed

text \<open>Pointers compared as numbers, by every comparison function, and a sort that fits.\<close>

definition ptr_cmp :: call_cmp where
  "ptr_cmp c x y = (if x < y then - 1 else if x = y then 0 else 1)"

definition ptr_sort :: "(u64 \<Rightarrow> u64 \<Rightarrow> int) \<Rightarrow> u64 list \<Rightarrow> u64 list" where
  "ptr_sort f xs = sort xs"

lemma ptr_sort_ok: "qsort_ok ptr_sort ptr_cmp"
proof -
  have "sorted_wrt (\<lambda>x y. ptr_cmp c x y \<le> 0) (sort xs)" for c xs
    using sorted_sort[of xs] by (rule sorted_wrt_mono_rel[rotated]) (auto simp: ptr_cmp_def)
  then show ?thesis by (simp add: qsort_ok_def ptr_sort_def)
qed

lemma ptr_cmp_order: "cmp_order (ptr_cmp c)"
  by (auto simp: cmp_order_def ptr_cmp_def)

definition sample_stack :: "bool \<Rightarrow> stack_st" where
  "sample_stack s = \<lparr>st_num = 3, st_data = [10, 20, 30, 0], st_sorted = s, st_num_alloc = 4, st_comp = 1\<rparr>"

lemma sample_stack_ok: "stack_ok (sample_stack s)" "contents (sample_stack s) = [10, 20, 30]" "flag_ok ptr_cmp (sample_stack s)"
proof -
  show "stack_ok (sample_stack s)" by (simp add: sample_stack_def stack_ok_def)
  show c: "contents (sample_stack s) = [10, 20, 30]" by (cases s; simp; code_simp)
  show "flag_ok ptr_cmp (sample_stack s)" unfolding flag_ok_def c by (simp add: ptr_cmp_def)
qed

text \<open>A stack that pushes have left unsorted.\<close>

definition pushed_stack :: stack_st where
  "pushed_stack = \<lparr>st_num = 3, st_data = [30, 10, 20, 0], st_sorted = False, st_num_alloc = 4, st_comp = 1\<rparr>"

lemma pushed_stack_ok: "stack_ok pushed_stack"
  by (simp add: pushed_stack_def stack_ok_def)

theorem stack_refines_list_witness:
  "contents pushed_stack = [30, 10, 20] \<and> sk_value (Some pushed_stack) 1 = contents pushed_stack ! 1 \<and>
   (\<exists>sk'. sk_sort ptr_sort ptr_cmp (Some pushed_stack) = Some sk' \<and> st_sorted sk' \<and>
      mset (contents sk') = {#10, 20, 30#} \<and> sorted_wrt (\<lambda>x y. ptr_cmp 1 x y \<le> 0) (contents sk'))"
proof -
  have c: "contents pushed_stack = [30, 10, 20]" "st_comp pushed_stack = 1" "\<not> st_sorted pushed_stack" by code_simp+
  show ?thesis
    using stack_refines_list[OF pushed_stack_ok ptr_sort_ok, where al = "\<lambda>n. None" and p = 0 and i = 1] c
    by (auto simp del: sk_sort.simps sk_value.simps sk_insert.simps sk_delete.simps split: option.splits)
qed

text \<open>
  C7: Every stack that a client can reach from sk_new by any sequence of operations, with an
  allocator that may fail at any time, keeps the invariant: one more element always fits without
  growing the array twice, so that no operation writes outside it. The flag \<open>sorted\<close> also never
  lies, when sk_set is not among the operations and the functions that sk_deep_copy is called with
  give copies that compare as the elements did: sk_deep_copy keeps the flag.
\<close>

theorem stack_history_invariant:
  assumes "sk_reach qsort cc sets copies sk" and "qsort_ok qsort cc"
  shows "unat (st_num sk) < length (st_data sk) \<and> length (st_data sk) = unat (st_num_alloc sk) \<and>
    8 * unat (st_num_alloc sk) < 2 ^ 64 \<and>
    (\<not> sets \<and> (\<forall>copy. copies copy \<longrightarrow> keeps_order cc copy) \<and> st_sorted sk \<longrightarrow>
      sorted_wrt (\<lambda>x y. cc (st_comp sk) x y \<le> 0) (contents sk))"
  using sk_reach_ok[OF assms] stack_okD by (auto simp: flag_ok_def)

text \<open>Three pushes, a sort and a deep copy whose function returns the next address but one.\<close>

definition next_ptr :: "u64 \<Rightarrow> u64 \<Rightarrow> u64 \<times> u64" where
  "next_ptr x s = (if x < 100 then x + 1 else 0, s + 1)"

lemma next_ptr_order: "keeps_order ptr_cmp next_ptr"
proof -
  have u: "unat (x + 1) = unat x + 1" if "x < 100" for x :: u64
    using that by (simp add: word_less_nat_alt unat_word_ariths(1))
  show ?thesis
    by (auto simp: keeps_order_def copy_of_def next_ptr_def ptr_cmp_def word_less_nat_alt word_unat_eq_iff u split: if_splits)
qed

definition copied_stack :: stack_st where
  "copied_stack = \<lparr>st_num = 3, st_data = [11, 21, 31, 0], st_sorted = True, st_num_alloc = 4, st_comp = 1\<rparr>"

lemma copied_stack_reached: "sk_reach ptr_sort ptr_cmp False (\<lambda>copy. copy = next_ptr) copied_stack"
proof -
  let ?al = "\<lambda>n. Some (\<lambda>i. 0) :: (nat \<Rightarrow> u64) option"
  let ?sk = "\<lambda>n d s. \<lparr>st_num = n, st_data = d, st_sorted = s, st_num_alloc = 4, st_comp = 1\<rparr>"
  let ?r = "sk_reach ptr_sort ptr_cmp False (\<lambda>copy. copy = next_ptr)"
  have "sk_new True ?al 1 = Some (?sk 0 [0, 0, 0, 0] False)" by code_simp
  then have 1: "?r (?sk 0 [0, 0, 0, 0] False)" by (rule sk_reach.new)
  have "sk_push ?al (Some (?sk 0 [0, 0, 0, 0] False)) 30 = (Some (?sk 1 [30, 0, 0, 0] False), 1)" by code_simp
  then have 2: "?r (?sk 1 [30, 0, 0, 0] False)" by (rule sk_reach.push[OF 1])
  have "sk_push ?al (Some (?sk 1 [30, 0, 0, 0] False)) 10 = (Some (?sk 2 [30, 10, 0, 0] False), 2)" by code_simp
  then have 3: "?r (?sk 2 [30, 10, 0, 0] False)" by (rule sk_reach.push[OF 2])
  have "sk_push ?al (Some (?sk 2 [30, 10, 0, 0] False)) 20 = (Some (?sk 3 [30, 10, 20, 0] False), 3)" by code_simp
  then have 4: "?r (?sk 3 [30, 10, 20, 0] False)" by (rule sk_reach.push[OF 3])
  have "sk_sort ptr_sort ptr_cmp (Some (?sk 3 [30, 10, 20, 0] False)) = Some (?sk 3 [10, 20, 30, 0] True)" by code_simp
  then have 5: "?r (?sk 3 [10, 20, 30, 0] True)" by (rule sk_reach.sort[OF 4])
  have "sk_deep_copy True ?al next_ptr (\<lambda>x s. s) (Some (?sk 3 [10, 20, 30, 0] True)) 0 = (Some copied_stack, 3)" by code_simp
  then show ?thesis by (rule sk_reach.deep_copy[OF 5 refl])
qed

theorem stack_history_invariant_witness:
  "unat (st_num copied_stack) < length (st_data copied_stack) \<and> st_sorted copied_stack \<and> contents copied_stack = [11, 21, 31] \<and>
    sorted_wrt (\<lambda>x y. ptr_cmp (st_comp copied_stack) x y \<le> 0) (contents copied_stack)"
proof -
  have "st_sorted copied_stack" "contents copied_stack = [11, 21, 31]" by code_simp+
  then show ?thesis using stack_history_invariant[OF copied_stack_reached ptr_sort_ok] next_ptr_order by auto
qed

text \<open>
  C8: sk_find gives the first element equal to the one asked for, by pointer without a comparison
  function and by comparison with one, and nothing only if there is none: the binary search of a
  sorted stack agrees with the linear search of an unsorted one, ties included.
\<close>

theorem sk_find_exact:
  assumes "stack_ok sk" and "flag_ok cc sk" and "cmp_order (cc (st_comp sk))"
  shows "first_match (\<lambda>x. if st_comp sk = 0 then x = p else p \<noteq> 0 \<and> cc (st_comp sk) p x = 0)
     (contents sk) (sk_find cc (Some sk) p)"
  using sk_find_first[OF assms] .

theorem sk_find_exact_witness:
  "first_match (\<lambda>x. if st_comp (sample_stack True) = 0 then x = 20 else (20 :: u64) \<noteq> 0 \<and> ptr_cmp (st_comp (sample_stack True)) 20 x = 0)
     (contents (sample_stack True)) (sk_find ptr_cmp (Some (sample_stack True)) 20)"
  by (rule sk_find_exact[OF sample_stack_ok(1,3) ptr_cmp_order])

text \<open>
  C39: Sk_set leaves the flag \<open>sorted\<close> alone. When an element in the first half of a stack that is
  flagged as sorted, before the element that the search looks at first, is set to one that compares
  greater than all the others, the stack still says that it is sorted, and sk_find does not find
  the new element, though the stack holds it.
\<close>

theorem sk_set_breaks_search:
  assumes "stack_ok sk" and "st_sorted sk" and "st_comp sk \<noteq> 0" and "p \<noteq> 0"
    and i: "unat i < (length (contents sk) - 1) div 2"
    and greater: "\<And>x. x \<in> set (contents sk) \<Longrightarrow> 0 < cc (st_comp sk) p x"
  shows "case sk_set (Some sk) i p of
     (Some sk', r) \<Rightarrow> r = p \<and> sk_is_sorted (Some sk') \<and> contents sk' = (contents sk)[unat i := p] \<and>
       p \<in> set (contents sk') \<and> sk_find cc (Some sk') p = None
   | (None, r) \<Rightarrow> False"
proof -
  note ok = stack_okD[OF assms(1)]
  obtain sko r where s: "sk_set (Some sk) i p = (sko, r)" by (cases "sk_set (Some sk) i p")
  then obtain sk' where sk': "sko = Some sk'" "stack_ok sk'" "contents sk' = (contents sk)[unat i := p]" "r = p"
    "st_sorted sk'" "st_comp sk' = st_comp sk" using sk_set_ok[OF assms(1) s] i assms(2) by auto
  let ?n = "length (contents sk)" and ?f = "cc (st_comp sk) p"
  have n: "unat (st_num sk') = ?n" using stack_okD(4)[OF sk'(2)] sk'(3) by simp
  have right: "0 < ?f (contents sk' ! j)" if "unat i < j" "j < ?n" for j
    using that greater[of "contents sk ! j"] sk'(3) by simp
  have "0 < ?n" using i by (cases "contents sk") simp_all
  then have lt: "0 < st_num sk'" using n by (simp add: word_less_nat_alt)
  define mid where "mid = 0 + (st_num sk' - 0 - 1) div 2"
  note mid = bsearch_mid[OF lt, folded mid_def]
  have m: "unat mid = (?n - 1) div 2" using mid(1) n by simp
  have "bsearch ?f (contents sk') (mid + 1) (st_num sk') = None"
    by (rule bsearch_right) (use right m i mid(4) n in simp)
  moreover have "0 < ?f (contents sk' ! unat mid)" using right[of "unat mid"] m i by simp
  ultimately have "bsearch ?f (contents sk') 0 (st_num sk') = None"
    using lt by (subst bsearch.simps) (simp add: mid_def Let_def)
  then have "sk_find cc (Some sk') p = None"
    using assms(3,4) sk'(5,6) bsearch_prefix[of "st_num sk'" "unat (st_num sk')" ?f "st_data sk'" 0]
    by (simp add: contents_def)
  moreover have "p \<in> set (contents sk')" using sk'(3) i by (simp add: set_update_memI)
  ultimately show ?thesis unfolding s using sk' by simp
qed

theorem sk_set_breaks_search_witness:
  "case sk_set (Some (sample_stack True)) 0 40 of
     (Some sk', r) \<Rightarrow> sk_is_sorted (Some sk') \<and> contents sk' = [40, 20, 30] \<and> sk_find ptr_cmp (Some sk') 40 = None
   | (None, r) \<Rightarrow> False"
proof -
  let ?sk = "sample_stack True"
  have f: "st_sorted ?sk" "st_comp ?sk \<noteq> 0" "unat (0 :: u64) < (length (contents ?sk) - 1) div 2"
    unfolding sample_stack_ok(2) by (simp_all add: sample_stack_def)
  have "0 < ptr_cmp (st_comp ?sk) 40 x" if "x \<in> set (contents ?sk)" for x
    using that unfolding sample_stack_ok(2) by (auto simp: ptr_cmp_def)
  from sk_set_breaks_search[of ?sk 40 0 ptr_cmp, OF sample_stack_ok(1) f(1,2) _ f(3) this]
  show ?thesis unfolding sample_stack_ok(2) by (simp del: sk_set.simps sk_find.simps split: prod.splits option.splits)
qed

text \<open>
  What is pushed on a stack is popped in reverse order and, before that, would be shifted out
  in order after what was there, whenever the pushes succeed.
\<close>

theorem stack_lifo_fifo:
  assumes "stack_ok sk" and "add_all (push1 al) sk xs = Some sk'"
  shows "(\<exists>t. take_all pop1 (length xs) sk' = (t, rev xs) \<and> contents t = contents sk) \<and>
    (\<exists>t. take_all shift1 (length (contents sk) + length xs) sk' = (t, contents sk @ xs) \<and> contents t = [])"
  using sk.lifo_fifo[OF assms] by auto

theorem stack_lifo_fifo_witness:
  "\<exists>sk'. add_all (push1 (\<lambda>n. Some (\<lambda>i. 0))) (sample_stack False) [7, 8] = Some sk' \<and>
    (\<exists>t. take_all pop1 2 sk' = (t, [8, 7]) \<and> contents t = contents (sample_stack False))"
proof -
  have "case add_all (push1 (\<lambda>n. Some (\<lambda>i. 0))) (sample_stack False) [7, 8] of None \<Rightarrow> False | Some sk' \<Rightarrow> True"
    by code_simp
  then obtain sk' where a: "add_all (push1 (\<lambda>n. Some (\<lambda>i. 0))) (sample_stack False) [7, 8] = Some sk'"
    by (auto split: option.splits)
  from stack_lifo_fifo[OF sample_stack_ok(1) a] a show ?thesis by (auto simp: numeral_2_eq_2)
qed

text \<open>
  C37: sk_deep_copy leaks nothing. If it fails, every copy it had made is freed and the live
  objects are those of before; if it succeeds, they are those of before and the new stack's.
\<close>

theorem deep_copy_frees:
  assumes "stack_ok sk" and "copy_ok copy"
  shows "case sk_deep_copy ok al copy (\<lambda>x s. s - {#x#}) (Some sk) live of
      (None, live') \<Rightarrow> live' = live
    | (Some sk', live') \<Rightarrow> live' = live + mset (filter (\<lambda>x. x \<noteq> 0) (contents sk')) \<and>
        length (contents sk') = length (contents sk)"
proof (cases "sk_dup ok al (Some sk)")
  case None
  then show ?thesis by (simp add: sk_deep_copy_def)
next
  case (Some d)
  note dup = sk_dup_ok[OF assms(1) Some]
  have n: "unat (st_num d) = length (contents sk)" using dup stack_okD(4)[of d] by simp
  obtain r s' where c: "copy_items copy (\<lambda>x s. s - {#x#}) (take (unat (st_num d)) (st_data d)) [] live = (r, s')"
    by (cases "copy_items copy (\<lambda>x s. s - {#x#}) (take (unat (st_num d)) (st_data d)) [] live")
  have e: "sk_deep_copy ok al copy (\<lambda>x s. s - {#x#}) (Some sk) live = (case r of None \<Rightarrow> (None, s')
      | Some ys \<Rightarrow> (Some (d\<lparr>st_data := ys @ drop (unat (st_num d)) (st_data d)\<rparr>), s'))"
    by (simp add: sk_deep_copy_def Some c Let_def del: sk_dup.simps split: option.split)
  have live: "case r of None \<Rightarrow> s' = live | Some zs \<Rightarrow> s' = live + mset (filter (\<lambda>x. x \<noteq> 0) zs) \<and>
      length zs = length (take (unat (st_num d)) (st_data d))"
    using copy_items_live[OF assms(2), of _ "[]" live r s'] c by (auto split: option.splits)
  have "length (take (unat (st_num d)) (st_data d)) = unat (st_num d)"
    using stack_okD(1,2)[of d] dup by simp
  then show ?thesis unfolding e using live n by (auto simp: contents_def[of "d\<lparr>st_data := _\<rparr>"] split: option.splits)
qed

theorem deep_copy_frees_witness:
  "case sk_deep_copy True (\<lambda>n. Some (\<lambda>i. 0)) (\<lambda>x s. if x = 30 then (0, s) else (7, add_mset 7 s))
      (\<lambda>x s. s - {#x#}) (Some (sample_stack False)) {#} of
      (None, live') \<Rightarrow> live' = {#}
    | (Some sk', live') \<Rightarrow> live' = {#} + mset (filter (\<lambda>x. x \<noteq> 0) (contents sk')) \<and>
        length (contents sk') = length (contents (sample_stack False))"
  by (rule deep_copy_frees[OF sample_stack_ok(1)]) (auto simp: copy_ok_def)

end
