(* ===== verification/Lhash.thy ===== *)
theory Lhash
  imports Prelude "HOL-Library.Multiset"
begin

text \<open>
  The hash table of BoringSSL (src/crypto/lhash/lhash.c): an array of chains that grows and
  shrinks with the number of items.

  Items are pointers, 64-bit words with NULL as 0; a chain is a list. The table's hash function
  and comparison function are parameters, and so is each answer of the allocator. A position in a
  chain stands for the C code's pointer to a next pointer.
\<close>

section \<open>Data\<close>

record LHASH_ITEM =
  it_data :: u64
  it_hash :: u32

record lhash_st =
  num_items :: u64
  buckets :: "LHASH_ITEM list list"
  num_buckets :: u64
  callback_depth :: u32

definition kMinNumBuckets :: u64 where "kMinNumBuckets = 16"
definition kMaxAverageChainLength :: u64 where "kMaxAverageChainLength = 2"
definition kMinAverageChainLength :: u64 where "kMinAverageChainLength = 1"

abbreviation UINT_MAX :: u32 where "UINT_MAX \<equiv> 0xFFFFFFFF"

section \<open>Operations\<close>

definition OPENSSL_lh_new :: "bool \<Rightarrow> bool \<Rightarrow> lhash_st option" where
  "OPENSSL_lh_new ok_table ok_buckets =
     (if \<not> ok_table \<or> \<not> ok_buckets then None
      else Some \<lparr>num_items = 0, buckets = replicate (unat kMinNumBuckets) [], num_buckets = kMinNumBuckets,
                 callback_depth = 0\<rparr>)"

text \<open>The number of blocks that are given back: every item, the array and the table.\<close>

definition OPENSSL_lh_free :: "lhash_st option \<Rightarrow> nat" where
  "OPENSSL_lh_free lho =
     (case lho of None \<Rightarrow> 0 | Some lh \<Rightarrow> fold (\<lambda>chain n. fold (\<lambda>item n. Suc n) chain n) (buckets lh) 0 + 2)"

definition OPENSSL_lh_num_items :: "lhash_st \<Rightarrow> u64" where
  "OPENSSL_lh_num_items lh = num_items lh"

text \<open>The bucket of a hash, and the place in its chain where the search stops.\<close>

definition bucket_of :: "u64 \<Rightarrow> u32 \<Rightarrow> nat" where
  "bucket_of n hash = unat (ucast hash mod n)"

fun chain_pos :: "(u64 \<Rightarrow> bool) \<Rightarrow> LHASH_ITEM list \<Rightarrow> nat" where
  "chain_pos P [] = 0"
| "chain_pos P (cur # rest) = (if P (it_data cur) then 0 else Suc (chain_pos P rest))"

definition get_next_ptr_and_hash ::
  "(u64 \<Rightarrow> u32) \<Rightarrow> (u64 \<Rightarrow> u64 \<Rightarrow> int) \<Rightarrow> lhash_st \<Rightarrow> u64 \<Rightarrow> u32 \<times> nat \<times> nat" where
  "get_next_ptr_and_hash hashf cmp lh d =
     (let hash = hashf d; b = bucket_of (num_buckets lh) hash
      in (hash, b, chain_pos (\<lambda>x. cmp x d = 0) (buckets lh ! b)))"

definition get_next_ptr_by_key :: "lhash_st \<Rightarrow> u32 \<Rightarrow> (u64 \<Rightarrow> int) \<Rightarrow> nat \<times> nat" where
  "get_next_ptr_by_key lh key_hash cmp_key =
     (let b = bucket_of (num_buckets lh) key_hash in (b, chain_pos (\<lambda>x. cmp_key x = 0) (buckets lh ! b)))"

definition data_at :: "LHASH_ITEM list \<Rightarrow> nat \<Rightarrow> u64" where
  "data_at chain i = (if length chain \<le> i then 0 else it_data (chain ! i))"

definition OPENSSL_lh_retrieve :: "(u64 \<Rightarrow> u32) \<Rightarrow> (u64 \<Rightarrow> u64 \<Rightarrow> int) \<Rightarrow> lhash_st \<Rightarrow> u64 \<Rightarrow> u64" where
  "OPENSSL_lh_retrieve hashf cmp lh d =
     (case get_next_ptr_and_hash hashf cmp lh d of (hash, b, i) \<Rightarrow> data_at (buckets lh ! b) i)"

definition OPENSSL_lh_retrieve_key :: "lhash_st \<Rightarrow> u32 \<Rightarrow> (u64 \<Rightarrow> int) \<Rightarrow> u64" where
  "OPENSSL_lh_retrieve_key lh key_hash cmp_key =
     (case get_next_ptr_by_key lh key_hash cmp_key of (b, i) \<Rightarrow> data_at (buckets lh ! b) i)"

text \<open>Each item of the old array goes to the head of its new chain.\<close>

definition rebucket_item :: "u64 \<Rightarrow> LHASH_ITEM \<Rightarrow> LHASH_ITEM list list \<Rightarrow> LHASH_ITEM list list" where
  "rebucket_item n cur bs = (let b = bucket_of n (it_hash cur) in bs[b := cur # bs ! b])"

definition lh_rebucket :: "(u64 \<Rightarrow> bool) \<Rightarrow> u64 \<Rightarrow> lhash_st \<Rightarrow> lhash_st" where
  "lh_rebucket alloc n lh =
     (let alloc_size = 8 * n in
      if alloc_size div 8 \<noteq> n then lh
      else if \<not> alloc alloc_size then lh
      else lh\<lparr>num_buckets := n,
              buckets := fold (fold (rebucket_item n)) (buckets lh) (replicate (unat n) [])\<rparr>)"

definition lh_maybe_resize :: "(u64 \<Rightarrow> bool) \<Rightarrow> lhash_st \<Rightarrow> lhash_st" where
  "lh_maybe_resize alloc lh =
     (if callback_depth lh > 0 then lh
      else let avg = num_items lh div num_buckets lh in
        if kMaxAverageChainLength < avg then
          let n = num_buckets lh * 2 in if num_buckets lh < n then lh_rebucket alloc n lh else lh
        else if avg < kMinAverageChainLength \<and> kMinNumBuckets < num_buckets lh then
          let n = num_buckets lh div 2; n = (if n < kMinNumBuckets then kMinNumBuckets else n)
          in lh_rebucket alloc n lh
        else lh)"

text \<open>The result is the table, \<open>*old_data\<close> and the return value.\<close>

definition OPENSSL_lh_insert ::
  "(u64 \<Rightarrow> u32) \<Rightarrow> (u64 \<Rightarrow> u64 \<Rightarrow> int) \<Rightarrow> bool \<Rightarrow> (u64 \<Rightarrow> bool) \<Rightarrow> lhash_st \<Rightarrow> u64 \<Rightarrow> lhash_st \<times> u64 \<times> bool" where
  "OPENSSL_lh_insert hashf cmp ok_item alloc lh d =
     (case get_next_ptr_and_hash hashf cmp lh d of (hash, b, i) \<Rightarrow>
        let chain = buckets lh ! b in
        if i < length chain then
          (lh\<lparr>buckets := (buckets lh)[b := chain[i := (chain ! i)\<lparr>it_data := d\<rparr>]]\<rparr>, it_data (chain ! i), True)
        else if \<not> ok_item then (lh, 0, False)
        else (lh_maybe_resize alloc
               (lh\<lparr>buckets := (buckets lh)[b := chain @ [\<lparr>it_data = d, it_hash = hash\<rparr>]],
                   num_items := num_items lh + 1\<rparr>), 0, True))"

definition OPENSSL_lh_delete ::
  "(u64 \<Rightarrow> u32) \<Rightarrow> (u64 \<Rightarrow> u64 \<Rightarrow> int) \<Rightarrow> (u64 \<Rightarrow> bool) \<Rightarrow> lhash_st \<Rightarrow> u64 \<Rightarrow> lhash_st \<times> u64" where
  "OPENSSL_lh_delete hashf cmp alloc lh d =
     (case get_next_ptr_and_hash hashf cmp lh d of (hash, b, i) \<Rightarrow>
        let chain = buckets lh ! b in
        if length chain \<le> i then (lh, 0)
        else (lh_maybe_resize alloc
               (lh\<lparr>buckets := (buckets lh)[b := take i chain @ drop (Suc i) chain],
                   num_items := num_items lh - 1\<rparr>), it_data (chain ! i)))"

text \<open>
  The iteration, for a callback that works on its own state \<open>'s\<close> and leaves the table alone.
  \<open>callback_depth\<close> saturates; while it is positive nothing is resized.
\<close>

definition OPENSSL_lh_doall_arg ::
  "(u64 \<Rightarrow> bool) \<Rightarrow> (u64 \<Rightarrow> 's \<Rightarrow> 's) \<Rightarrow> lhash_st option \<Rightarrow> 's \<Rightarrow> lhash_st option \<times> 's" where
  "OPENSSL_lh_doall_arg alloc func lho s =
     (case lho of
        None \<Rightarrow> (None, s)
      | Some lh \<Rightarrow>
          let lh = (if callback_depth lh < UINT_MAX then lh\<lparr>callback_depth := callback_depth lh + 1\<rparr> else lh);
              s = fold (fold (\<lambda>cur. func (it_data cur))) (buckets lh) s;
              lh = (if callback_depth lh < UINT_MAX then lh\<lparr>callback_depth := callback_depth lh - 1\<rparr> else lh)
          in (Some (lh_maybe_resize alloc lh), s))"

section \<open>The invariant\<close>

text \<open>What the callers owe: comparison is an equivalence and equal items have equal hashes.\<close>

definition eq_hash :: "(u64 \<Rightarrow> u32) \<Rightarrow> (u64 \<Rightarrow> u64 \<Rightarrow> int) \<Rightarrow> bool" where
  "eq_hash hashf cmp \<longleftrightarrow> (\<forall>x. cmp x x = 0) \<and> (\<forall>x y. cmp x y = 0 \<longrightarrow> cmp y x = 0 \<and> hashf x = hashf y) \<and>
     (\<forall>x y z. cmp x y = 0 \<longrightarrow> cmp y z = 0 \<longrightarrow> cmp x z = 0)"

lemma eq_hashD:
  assumes "eq_hash hashf cmp"
  shows "cmp x x = 0" "cmp x y = 0 \<Longrightarrow> cmp y x = 0" "cmp x y = 0 \<Longrightarrow> hashf x = hashf y"
    "cmp x y = 0 \<Longrightarrow> cmp y z = 0 \<Longrightarrow> cmp x z = 0"
  using assms unfolding eq_hash_def by blast+

definition items :: "lhash_st \<Rightarrow> u64 multiset" where
  "items lh = mset (map it_data (concat (buckets lh)))"

text \<open>Chains hold what hashes to them, hashes are cached truly, and no two items are equal.\<close>

definition belongs :: "(u64 \<Rightarrow> u32) \<Rightarrow> u64 \<Rightarrow> nat \<Rightarrow> LHASH_ITEM \<Rightarrow> bool" where
  "belongs hashf n b it \<longleftrightarrow> it_hash it = hashf (it_data it) \<and> bucket_of n (hashf (it_data it)) = b"

definition placed :: "(u64 \<Rightarrow> u32) \<Rightarrow> u64 \<Rightarrow> LHASH_ITEM list list \<Rightarrow> bool" where
  "placed hashf n bs \<longleftrightarrow> length bs = unat n \<and>
     (\<forall>b<length bs. \<forall>it\<in>set (bs ! b). belongs hashf n b it)"

definition lhash_ok :: "(u64 \<Rightarrow> u32) \<Rightarrow> (u64 \<Rightarrow> u64 \<Rightarrow> int) \<Rightarrow> lhash_st \<Rightarrow> bool" where
  "lhash_ok hashf cmp lh \<longleftrightarrow> eq_hash hashf cmp \<and> 16 \<le> unat (num_buckets lh) \<and>
     placed hashf (num_buckets lh) (buckets lh) \<and>
     num_items lh = of_nat (size (items lh)) \<and>
     (\<forall>d. size (filter_mset (\<lambda>x. cmp x d = 0) (items lh)) \<le> 1)"

lemma bucket_lt: "n \<noteq> 0 \<Longrightarrow> bucket_of n h < unat n"
  by (simp add: bucket_of_def unat_mod unat_gt_0)

lemma mset_concat_update:
  "b < length bs \<Longrightarrow> mset (concat (bs[b := c])) + mset (bs ! b) = mset (concat bs) + mset c"
proof (induction bs arbitrary: b)
  case (Cons x bs)
  then show ?case by (cases b) (simp_all add: ac_simps)
qed simp

lemma items_update:
  "b < length (buckets lh) \<Longrightarrow>
    items (lh\<lparr>buckets := (buckets lh)[b := c]\<rparr>) + mset (map it_data (buckets lh ! b)) = items lh + mset (map it_data c)"
  using mset_concat_update[of b "buckets lh" c] unfolding items_def mset_map
  by (simp flip: image_mset_union)

lemma placed_update:
  assumes "placed hashf n bs" and "b < length bs"
    and "\<forall>it\<in>set c. belongs hashf n b it"
  shows "placed hashf n (bs[b := c])"
  using assms by (auto simp: placed_def nth_list_update)

section \<open>Searching a chain\<close>

lemma chain_pos_le: "chain_pos P c \<le> length c"
  by (induction c) auto

lemma chain_pos_found: "chain_pos P c < length c \<Longrightarrow> P (it_data (c ! chain_pos P c))"
  by (induction c) (auto split: if_splits)

lemma chain_pos_none: "length c \<le> chain_pos P c \<Longrightarrow> it \<in> set c \<Longrightarrow> \<not> P (it_data it)"
  by (induction c) (auto split: if_splits)

lemma unique_item:
  assumes "size (filter_mset P M) \<le> 1" and "x \<in># M" "P x" "y \<in># M" "P y"
  shows "x = y"
proof (rule ccontr)
  assume "x \<noteq> y"
  then have "{#x, y#} \<subseteq># filter_mset P M"
    using assms(2-5) by (intro mset_subset_eq_insertD[THEN conjunct2] | simp add: insert_subset_eq_iff in_diff_count)+
  from size_mset_mono[OF this] show False using assms(1) by simp
qed

lemma in_bucket:
  assumes "lhash_ok hashf cmp lh" and "x \<in># items lh" and "cmp x d = 0"
  shows "\<exists>it\<in>set (buckets lh ! bucket_of (num_buckets lh) (hashf d)). it_data it = x"
proof -
  obtain b it where it: "b < length (buckets lh)" "it \<in> set (buckets lh ! b)" "it_data it = x"
    using assms(2) by (auto simp: items_def in_set_conv_nth[of _ "buckets lh"])
  have "hashf x = hashf d" using assms(1,3) eq_hashD(3) by (auto simp: lhash_ok_def)
  moreover have "belongs hashf (num_buckets lh) b it"
    using assms(1) it by (auto simp: lhash_ok_def placed_def)
  ultimately have "b = bucket_of (num_buckets lh) (hashf d)" using it(3) by (simp add: belongs_def)
  then show ?thesis using it by blast
qed

lemma bucket_items:
  assumes "lhash_ok hashf cmp lh"
  shows "bucket_of (num_buckets lh) h < length (buckets lh)"
    and "it \<in> set (buckets lh ! bucket_of (num_buckets lh) h) \<Longrightarrow> it_data it \<in># items lh"
proof -
  have "num_buckets lh \<noteq> 0" using assms by (auto simp: lhash_ok_def)
  then show b: "bucket_of (num_buckets lh) h < length (buckets lh)"
    using assms bucket_lt by (simp add: lhash_ok_def placed_def)
  show "it_data it \<in># items lh" if "it \<in> set (buckets lh ! bucket_of (num_buckets lh) h)"
    using that b nth_mem by (fastforce simp: items_def)
qed

lemma retrieve_found:
  assumes "lhash_ok hashf cmp lh" and "x \<in># items lh" and "cmp x d = 0"
  shows "OPENSSL_lh_retrieve hashf cmp lh d = x"
proof -
  let ?c = "buckets lh ! bucket_of (num_buckets lh) (hashf d)"
  let ?i = "chain_pos (\<lambda>x. cmp x d = 0) ?c"
  obtain it where "it \<in> set ?c" "it_data it = x" using in_bucket[OF assms] by blast
  then have i: "?i < length ?c" using chain_pos_none[of ?c "\<lambda>x. cmp x d = 0" it] assms(3) by force
  then have "cmp (it_data (?c ! ?i)) d = 0" by (rule chain_pos_found)
  moreover have "it_data (?c ! ?i) \<in># items lh" using bucket_items(2)[OF assms(1) nth_mem[OF i]] .
  ultimately have "it_data (?c ! ?i) = x"
    using unique_item[of "\<lambda>x. cmp x d = 0" "items lh"] assms by (auto simp: lhash_ok_def)
  then show ?thesis using i by (simp add: OPENSSL_lh_retrieve_def get_next_ptr_and_hash_def Let_def data_at_def)
qed

lemma retrieve_none:
  assumes "lhash_ok hashf cmp lh" and "\<And>x. x \<in># items lh \<Longrightarrow> cmp x d \<noteq> 0"
  shows "OPENSSL_lh_retrieve hashf cmp lh d = 0"
proof -
  let ?c = "buckets lh ! bucket_of (num_buckets lh) (hashf d)"
  let ?i = "chain_pos (\<lambda>x. cmp x d = 0) ?c"
  have "\<not> ?i < length ?c"
  proof
    assume i: "?i < length ?c"
    then have "cmp (it_data (?c ! ?i)) d = 0" by (rule chain_pos_found)
    moreover have "it_data (?c ! ?i) \<in># items lh" using bucket_items(2)[OF assms(1) nth_mem[OF i]] .
    ultimately show False using assms(2) by blast
  qed
  then show ?thesis by (simp add: OPENSSL_lh_retrieve_def get_next_ptr_and_hash_def Let_def data_at_def)
qed

section \<open>Resizing\<close>

lemma rebucket_fold:
  assumes "n \<noteq> 0" and "placed hashf n bs" and "\<forall>it\<in>set its. it_hash it = hashf (it_data it)"
  shows "placed hashf n (fold (rebucket_item n) its bs) \<and>
    mset (concat (fold (rebucket_item n) its bs)) = mset (concat bs) + mset its"
  using assms(2,3)
proof (induction its arbitrary: bs)
  case (Cons it its)
  let ?b = "bucket_of n (it_hash it)"
  let ?bs = "rebucket_item n it bs"
  have b: "?b < length bs" using Cons.prems(1) bucket_lt[OF assms(1)] by (simp add: placed_def)
  have "placed hashf n ?bs"
    unfolding rebucket_item_def Let_def using Cons.prems b
    by (intro placed_update) (auto simp: placed_def belongs_def)
  moreover have "mset (concat ?bs) = add_mset it (mset (concat bs))"
    using mset_concat_update[OF b, of "it # bs ! ?b"] by (simp add: rebucket_item_def Let_def)
  ultimately show ?case using Cons.IH[of ?bs] Cons.prems(2) by simp
qed simp

lemma fold_concat: "fold (fold f) xss s = fold f (concat xss) s"
  by (induction xss arbitrary: s) auto

lemma placed_empty: "placed hashf n (replicate (unat n) [])"
  by (simp add: placed_def)

definition same_items :: "lhash_st \<Rightarrow> lhash_st \<Rightarrow> bool" where
  "same_items lh lh' \<longleftrightarrow> items lh' = items lh \<and> num_items lh' = num_items lh \<and> callback_depth lh' = callback_depth lh"

lemma lh_rebucket_ok:
  assumes "lhash_ok hashf cmp lh" and "16 \<le> unat n"
  shows "lhash_ok hashf cmp (lh_rebucket alloc n lh) \<and> same_items lh (lh_rebucket alloc n lh)"
proof -
  have n0: "n \<noteq> 0" using assms(2) by auto
  have h: "\<forall>it\<in>set (concat (buckets lh)). it_hash it = hashf (it_data it)"
    using assms(1) by (auto simp: lhash_ok_def placed_def belongs_def in_set_conv_nth[of _ "buckets lh"])
  define bs where "bs = fold (fold (rebucket_item n)) (buckets lh) (replicate (unat n) [])"
  have pl: "placed hashf n bs" and m: "mset (concat bs) = mset (concat (buckets lh))"
    using rebucket_fold[OF n0 placed_empty h] by (simp_all add: bs_def fold_concat)
  have "items (lh\<lparr>num_buckets := n, buckets := bs\<rparr>) = items lh" by (simp add: items_def m)
  then have "lhash_ok hashf cmp (lh\<lparr>num_buckets := n, buckets := bs\<rparr>) \<and> same_items lh (lh\<lparr>num_buckets := n, buckets := bs\<rparr>)"
    using assms pl by (simp add: lhash_ok_def same_items_def)
  then show ?thesis using assms(1) by (simp add: lh_rebucket_def Let_def same_items_def flip: bs_def)
qed

lemma lh_maybe_resize_ok:
  assumes "lhash_ok hashf cmp lh"
  shows "lhash_ok hashf cmp (lh_maybe_resize alloc lh) \<and> same_items lh (lh_maybe_resize alloc lh)"
proof -
  have n16: "16 \<le> unat (num_buckets lh)" using assms by (simp add: lhash_ok_def)
  have "16 \<le> unat (num_buckets lh * 2)" if "num_buckets lh < num_buckets lh * 2"
    using that n16 by (simp add: word_less_nat_alt)
  moreover have "16 \<le> unat (if n < kMinNumBuckets then kMinNumBuckets else n)" for n
    by (simp add: kMinNumBuckets_def word_less_nat_alt)
  ultimately show ?thesis using assms lh_rebucket_ok[OF assms]
    by (auto simp: lh_maybe_resize_def Let_def same_items_def)
qed

section \<open>Insertion and deletion\<close>

definition uniq :: "(u64 \<Rightarrow> u64 \<Rightarrow> int) \<Rightarrow> u64 multiset \<Rightarrow> bool" where
  "uniq cmp M \<longleftrightarrow> (\<forall>d. size (filter_mset (\<lambda>x. cmp x d = 0) M) \<le> 1)"

lemma uniq_replace:
  assumes "eq_hash hashf cmp" and "uniq cmp (add_mset y M)" and "cmp y d = 0"
  shows "uniq cmp (add_mset d M)"
  unfolding uniq_def
proof
  fix e
  have "cmp d e = 0 \<longleftrightarrow> cmp y e = 0" using assms(1,3) unfolding eq_hash_def by metis
  then show "size (filter_mset (\<lambda>x. cmp x e = 0) (add_mset d M)) \<le> 1"
    using assms(2)[unfolded uniq_def, rule_format, of e] by (simp split: if_splits)
qed

lemma uniq_remove: "uniq cmp (add_mset y M) \<Longrightarrow> uniq cmp M"
  unfolding uniq_def
proof
  fix d assume a: "\<forall>d. size (filter_mset (\<lambda>x. cmp x d = 0) (add_mset y M)) \<le> 1"
  have "filter_mset (\<lambda>x. cmp x d = 0) M \<subseteq># filter_mset (\<lambda>x. cmp x d = 0) (add_mset y M)" by auto
  from size_mset_mono[OF this] a show "size (filter_mset (\<lambda>x. cmp x d = 0) M) \<le> 1" by (meson le_trans)
qed

lemma uniq_add:
  assumes "eq_hash hashf cmp" and "uniq cmp M" and "\<And>x. x \<in># M \<Longrightarrow> cmp x d \<noteq> 0"
  shows "uniq cmp (add_mset d M)"
  unfolding uniq_def
proof
  fix e
  have "filter_mset (\<lambda>x. cmp x e = 0) M = {#}" if "cmp d e = 0"
    using assms(1,3) that unfolding eq_hash_def by (intro filter_mset_eq_mempty_iff[THEN iffD2]) metis
  then show "size (filter_mset (\<lambda>x. cmp x e = 0) (add_mset d M)) \<le> 1"
    using assms(2)[unfolded uniq_def, rule_format, of e] by auto
qed

lemma search_split:
  assumes "lhash_ok hashf cmp lh" and "get_next_ptr_and_hash hashf cmp lh d = (hash, b, i)"
  shows "hash = hashf d" "b = bucket_of (num_buckets lh) (hashf d)" "b < length (buckets lh)"
    and "i < length (buckets lh ! b) \<Longrightarrow> cmp (it_data (buckets lh ! b ! i)) d = 0 \<and>
       it_data (buckets lh ! b ! i) = OPENSSL_lh_retrieve hashf cmp lh d"
    and "\<not> i < length (buckets lh ! b) \<Longrightarrow> OPENSSL_lh_retrieve hashf cmp lh d = 0 \<and> (\<forall>x. x \<in># items lh \<longrightarrow> cmp x d \<noteq> 0)"
proof -
  show b: "hash = hashf d" "b = bucket_of (num_buckets lh) (hashf d)"
    using assms(2) by (auto simp: get_next_ptr_and_hash_def Let_def)
  show bl: "b < length (buckets lh)" unfolding b by (rule bucket_items(1)[OF assms(1)])
  have i: "i = chain_pos (\<lambda>x. cmp x d = 0) (buckets lh ! b)"
    using assms(2) by (auto simp: get_next_ptr_and_hash_def Let_def)
  show "cmp (it_data (buckets lh ! b ! i)) d = 0 \<and> it_data (buckets lh ! b ! i) = OPENSSL_lh_retrieve hashf cmp lh d"
    if "i < length (buckets lh ! b)"
    using that chain_pos_found[of "\<lambda>x. cmp x d = 0" "buckets lh ! b"] assms(2)
    by (simp add: i OPENSSL_lh_retrieve_def data_at_def)
  show "OPENSSL_lh_retrieve hashf cmp lh d = 0 \<and> (\<forall>x. x \<in># items lh \<longrightarrow> cmp x d \<noteq> 0)"
    if "\<not> i < length (buckets lh ! b)"
    using that in_bucket[OF assms(1)] chain_pos_none[of "buckets lh ! b" "\<lambda>x. cmp x d = 0"] assms(2)
    by (fastforce simp: i b OPENSSL_lh_retrieve_def data_at_def)
qed

lemma lhash_ok_uniq: "lhash_ok hashf cmp lh \<longleftrightarrow> eq_hash hashf cmp \<and> 16 \<le> unat (num_buckets lh) \<and>
     placed hashf (num_buckets lh) (buckets lh) \<and> num_items lh = of_nat (size (items lh)) \<and> uniq cmp (items lh)"
  by (simp add: lhash_ok_def uniq_def)

lemma items_at:
  assumes "b < length (buckets lh)" and "i < length (buckets lh ! b)"
  defines "chain \<equiv> buckets lh ! b"
  shows "\<exists>M. items lh = add_mset (it_data (chain ! i)) M \<and>
    items (lh\<lparr>buckets := (buckets lh)[b := take i chain @ drop (Suc i) chain]\<rparr>) = M \<and>
    items (lh\<lparr>buckets := (buckets lh)[b := chain[i := (chain ! i)\<lparr>it_data := d\<rparr>]]\<rparr>) = add_mset d M"
proof -
  let ?rest = "mset (map it_data (take i chain @ drop (Suc i) chain))"
  have c: "mset (map it_data chain) = add_mset (it_data (chain ! i)) ?rest"
    using assms(2) by (subst id_take_nth_drop[of i chain]) (simp_all add: chain_def)
  have c': "mset (map it_data (chain[i := (chain ! i)\<lparr>it_data := d\<rparr>])) = add_mset d ?rest"
    using assms(2) by (simp add: chain_def upd_conv_take_nth_drop)
  have e1: "items (lh\<lparr>buckets := (buckets lh)[b := take i chain @ drop (Suc i) chain]\<rparr>) + add_mset (it_data (chain ! i)) ?rest = items lh + ?rest"
    using items_update[OF assms(1)] c unfolding chain_def by metis
  have e2: "items (lh\<lparr>buckets := (buckets lh)[b := chain[i := (chain ! i)\<lparr>it_data := d\<rparr>]]\<rparr>) + add_mset (it_data (chain ! i)) ?rest = items lh + add_mset d ?rest"
    using items_update[OF assms(1)] c c' unfolding chain_def by metis
  have r1: "items lh = add_mset (it_data (chain ! i)) (items (lh\<lparr>buckets := (buckets lh)[b := take i chain @ drop (Suc i) chain]\<rparr>))"
    using e1 by simp
  have "items (lh\<lparr>buckets := (buckets lh)[b := chain[i := (chain ! i)\<lparr>it_data := d\<rparr>]]\<rparr>) =
      add_mset d (items (lh\<lparr>buckets := (buckets lh)[b := take i chain @ drop (Suc i) chain]\<rparr>))"
    using e2 unfolding r1 by (simp add: add_mset_commute)
  then show ?thesis using r1 by blast
qed

text \<open>What the items are after an insertion or a deletion, and that the table stays well-formed.\<close>

lemma insert_items:
  assumes ok: "lhash_ok hashf cmp lh" and run: "OPENSSL_lh_insert hashf cmp ok_item alloc lh d = (lh', old, done)"
  shows "lhash_ok hashf cmp lh' \<and> old = OPENSSL_lh_retrieve hashf cmp lh d \<and>
    (if done then (if \<exists>x. x \<in># items lh \<and> cmp x d = 0
                   then \<exists>M. items lh = add_mset old M \<and> items lh' = add_mset d M \<and> cmp old d = 0
                   else items lh' = add_mset d (items lh))
     else lh' = lh \<and> \<not> ok_item)"
proof -
  obtain hash b i where g: "get_next_ptr_and_hash hashf cmp lh d = (hash, b, i)" by (cases "get_next_ptr_and_hash hashf cmp lh d")
  note sp = search_split[OF ok g]
  note oku = ok[unfolded lhash_ok_uniq]
  let ?chain = "buckets lh ! b"
  have bel: "\<forall>it\<in>set ?chain. belongs hashf (num_buckets lh) b it" using oku sp(3) by (simp add: placed_def)
  show ?thesis
  proof (cases "i < length ?chain")
    case True
    let ?lh = "lh\<lparr>buckets := (buckets lh)[b := ?chain[i := (?chain ! i)\<lparr>it_data := d\<rparr>]]\<rparr>"
    have r: "lh' = ?lh" "old = it_data (?chain ! i)" "done" using run True by (simp_all add: OPENSSL_lh_insert_def g Let_def)
    obtain M where M: "items lh = add_mset old M" "items ?lh = add_mset d M"
      using items_at[OF sp(3) True, of d] unfolding r(2) by blast
    have c: "cmp old d = 0" using sp(4)[OF True] unfolding r(2) by blast
    have "hashf old = hashf d" using oku c eq_hashD(3) by blast
    then have "belongs hashf (num_buckets lh) b ((?chain ! i)\<lparr>it_data := d\<rparr>)"
      using bel nth_mem[OF True] r(2) by (auto simp: belongs_def)
    then have "\<forall>it\<in>set (?chain[i := (?chain ! i)\<lparr>it_data := d\<rparr>]). belongs hashf (num_buckets lh) b it"
      using bel by (auto dest: set_update_subset_insert[THEN subsetD])
    then have "placed hashf (num_buckets lh) (buckets ?lh)" using oku sp(3) by (simp add: placed_update)
    moreover have "uniq cmp (items ?lh)" using uniq_replace[of hashf cmp old M d] oku M c by simp
    ultimately have "lhash_ok hashf cmp ?lh" using oku M by (simp add: lhash_ok_uniq)
    moreover have "old = OPENSSL_lh_retrieve hashf cmp lh d" using sp(4)[OF True] unfolding r(2) by blast
    ultimately show ?thesis unfolding r(1) using r(3) M c by auto
  next
    case False
    note none = sp(5)[OF False]
    show ?thesis
    proof (cases ok_item)
      case True
      let ?new = "\<lparr>it_data = d, it_hash = hash\<rparr>"
      let ?lh = "lh\<lparr>buckets := (buckets lh)[b := ?chain @ [?new]], num_items := num_items lh + 1\<rparr>"
      have r: "lh' = lh_maybe_resize alloc ?lh" "old = 0" "done" using run True False by (simp_all add: OPENSSL_lh_insert_def g Let_def)
      have "items (lh\<lparr>buckets := (buckets lh)[b := ?chain @ [?new]]\<rparr>) = add_mset d (items lh)"
        using items_update[OF sp(3), of "?chain @ [?new]"] by simp
      then have it: "items ?lh = add_mset d (items lh)" by (simp add: items_def)
      have "belongs hashf (num_buckets lh) b ?new" using sp(1,2) by (simp add: belongs_def)
      then have "placed hashf (num_buckets lh) (buckets ?lh)" using oku sp(3) bel by (simp add: placed_update)
      moreover have "uniq cmp (items ?lh)" unfolding it using uniq_add oku none by blast
      ultimately have "lhash_ok hashf cmp ?lh" using oku it by (simp add: lhash_ok_uniq)
      from lh_maybe_resize_ok[OF this, of alloc] show ?thesis using r it none by (auto simp: same_items_def)
    next
      case no: False
      then show ?thesis using run False none ok by (auto simp: OPENSSL_lh_insert_def g Let_def)
    qed
  qed
qed

lemma delete_items:
  assumes ok: "lhash_ok hashf cmp lh" and run: "OPENSSL_lh_delete hashf cmp alloc lh d = (lh', old)"
  shows "lhash_ok hashf cmp lh' \<and> old = OPENSSL_lh_retrieve hashf cmp lh d \<and>
    (if \<exists>x. x \<in># items lh \<and> cmp x d = 0 then items lh = add_mset old (items lh') \<and> cmp old d = 0
     else lh' = lh)"
proof -
  obtain hash b i where g: "get_next_ptr_and_hash hashf cmp lh d = (hash, b, i)" by (cases "get_next_ptr_and_hash hashf cmp lh d")
  note sp = search_split[OF ok g]
  note oku = ok[unfolded lhash_ok_uniq]
  let ?chain = "buckets lh ! b"
  have bel: "\<forall>it\<in>set ?chain. belongs hashf (num_buckets lh) b it" using oku sp(3) by (simp add: placed_def)
  show ?thesis
  proof (cases "i < length ?chain")
    case True
    let ?c = "take i ?chain @ drop (Suc i) ?chain"
    let ?lh = "lh\<lparr>buckets := (buckets lh)[b := ?c], num_items := num_items lh - 1\<rparr>"
    have r: "lh' = lh_maybe_resize alloc ?lh" "old = it_data (?chain ! i)"
      using run True by (simp_all add: OPENSSL_lh_delete_def g Let_def)
    have it: "items lh = add_mset old (items ?lh)"
    proof -
      have "items ?lh = items (lh\<lparr>buckets := (buckets lh)[b := ?c]\<rparr>)" by (simp add: items_def)
      then show ?thesis using items_at[OF sp(3) True, of 0] unfolding r(2) by metis
    qed
    have "\<forall>it\<in>set ?c. belongs hashf (num_buckets lh) b it" using bel by (auto dest: in_set_takeD in_set_dropD)
    then have "placed hashf (num_buckets lh) (buckets ?lh)" using oku sp(3) by (simp add: placed_update)
    moreover have "uniq cmp (items ?lh)" using oku it uniq_remove by metis
    moreover have "num_items ?lh = of_nat (size (items ?lh))"
    proof -
      have "num_items lh = of_nat (size (items ?lh)) + 1"
        using oku arg_cong[OF it, of size] by (metis of_nat_Suc add.commute size_add_mset)
      then have "num_items lh - 1 = of_nat (size (items ?lh))" by (metis add_diff_cancel_right')
      moreover have "num_items ?lh = num_items lh - 1" by simp
      ultimately show ?thesis by metis
    qed
    moreover have "num_buckets ?lh = num_buckets lh" by simp
    ultimately have "lhash_ok hashf cmp ?lh" using oku unfolding lhash_ok_uniq by metis
    then have "lhash_ok hashf cmp lh'" "items lh' = items ?lh"
      using lh_maybe_resize_ok[of hashf cmp ?lh alloc] unfolding r(1) same_items_def by blast+
    moreover have "cmp old d = 0" "old = OPENSSL_lh_retrieve hashf cmp lh d"
      using sp(4)[OF True] unfolding r(2) by blast+
    moreover have "old \<in># items lh" unfolding it by simp
    ultimately show ?thesis using it by auto
  next
    case False
    then show ?thesis using run sp(5)[OF False] ok by (auto simp: OPENSSL_lh_delete_def g Let_def)
  qed
qed

text \<open>Freeing the table gives back one block for each item, and the two of the table itself.\<close>

lemma lh_free_blocks:
  assumes "lhash_ok hashf cmp lh" and "size (items lh) < 2 ^ 64"
  shows "OPENSSL_lh_free (Some lh) = unat (num_items lh) + 2"
proof -
  have c: "fold (\<lambda>item n. Suc n) c n = n + length c" for c :: "LHASH_ITEM list" and n by (induction c arbitrary: n) simp_all
  have "fold (\<lambda>chain n. fold (\<lambda>item n. Suc n) chain n) bs n = n + length (concat bs)" for bs :: "LHASH_ITEM list list" and n
    by (induction bs arbitrary: n) (simp_all add: c)
  then have "OPENSSL_lh_free (Some lh) = size (items lh) + 2" by (simp add: OPENSSL_lh_free_def items_def)
  then show ?thesis using assms by (simp add: lhash_ok_def unat_of_nat take_bit_nat_eq_self)
qed

section \<open>The table as a dictionary\<close>

text \<open>
  What clients of the table rely on. A key is any item that compares equal; \<open>put\<close> may fail, and
  0 stands for absence, as NULL does.
\<close>

locale dictionary =
  fixes inv :: "'t \<Rightarrow> bool" and same :: "'k \<Rightarrow> 'k \<Rightarrow> bool" and look :: "'t \<Rightarrow> 'k \<Rightarrow> 'k"
    and put :: "'t \<Rightarrow> 'k \<Rightarrow> 't option" and del :: "'t \<Rightarrow> 'k \<Rightarrow> 't" and null :: 'k
  assumes put: "inv t \<Longrightarrow> put t d = Some t' \<Longrightarrow> inv t' \<and> look t' e = (if same d e then d else look t e)"
    and del: "inv t \<Longrightarrow> inv (del t d) \<and> look (del t d) e = (if same d e then null else look t e)"
begin

lemma put_all:
  assumes "inv t" and "foldl (\<lambda>to d. case to of None \<Rightarrow> None | Some t \<Rightarrow> put t d) (Some t) ds = Some t'"
  shows "inv t' \<and> look t' e = (case find (\<lambda>d. same d e) (rev ds) of Some d \<Rightarrow> d | None \<Rightarrow> look t e)"
  using assms(2)
proof (induction ds arbitrary: t' rule: rev_induct)
  case Nil
  then show ?case using assms(1) by simp
next
  case (snoc d ds)
  then obtain t1 where t1: "foldl (\<lambda>to d. case to of None \<Rightarrow> None | Some t \<Rightarrow> put t d) (Some t) ds = Some t1" "put t1 d = Some t'"
    by (auto split: option.splits)
  then show ?case using snoc.IH[OF t1(1)] put[of t1 d t' e] by simp
qed

lemma del_all: "inv t \<Longrightarrow> inv (foldl del t ds) \<and> look (foldl del t ds) e = (if \<exists>d\<in>set ds. same d e then null else look t e)"
  by (induction ds rule: rev_induct) (use del in auto)

end

definition lh_put :: "(u64 \<Rightarrow> u32) \<Rightarrow> (u64 \<Rightarrow> u64 \<Rightarrow> int) \<Rightarrow> bool \<Rightarrow> (u64 \<Rightarrow> bool) \<Rightarrow> lhash_st \<Rightarrow> u64 \<Rightarrow> lhash_st option" where
  "lh_put hashf cmp ok_item alloc lh d =
     (case OPENSSL_lh_insert hashf cmp ok_item alloc lh d of (lh', old, done) \<Rightarrow> if done then Some lh' else None)"

definition lh_del :: "(u64 \<Rightarrow> u32) \<Rightarrow> (u64 \<Rightarrow> u64 \<Rightarrow> int) \<Rightarrow> (u64 \<Rightarrow> bool) \<Rightarrow> lhash_st \<Rightarrow> u64 \<Rightarrow> lhash_st" where
  "lh_del hashf cmp alloc lh d = fst (OPENSSL_lh_delete hashf cmp alloc lh d)"

text \<open>Two tables agree on a key when they hold the same items equal to it.\<close>

lemma retrieve_cong:
  assumes "lhash_ok hashf cmp lh" and "lhash_ok hashf cmp lh'"
    and "\<And>x. cmp x e = 0 \<Longrightarrow> x \<in># items lh' \<longleftrightarrow> x \<in># items lh"
  shows "OPENSSL_lh_retrieve hashf cmp lh' e = OPENSSL_lh_retrieve hashf cmp lh e"
proof (cases "\<exists>x. x \<in># items lh \<and> cmp x e = 0")
  case True
  then obtain x where "x \<in># items lh" "cmp x e = 0" by blast
  then show ?thesis using retrieve_found[OF assms(1)] retrieve_found[OF assms(2)] assms(3) by metis
next
  case False
  then show ?thesis using retrieve_none[OF assms(1), of e] retrieve_none[OF assms(2), of e] assms(3) by metis
qed

lemma insert_retrieve:
  assumes ok: "lhash_ok hashf cmp lh" and run: "OPENSSL_lh_insert hashf cmp ok_item alloc lh d = (lh', old, True)"
  shows "OPENSSL_lh_retrieve hashf cmp lh' e = (if cmp d e = 0 then d else OPENSSL_lh_retrieve hashf cmp lh e)"
proof -
  note ins = insert_items[OF ok run]
  have eq: "eq_hash hashf cmp" using ok by (simp add: lhash_ok_def)
  obtain M where M: "items lh' = add_mset d M" "items lh = M \<or> (\<exists>y. items lh = add_mset y M \<and> cmp y d = 0)"
    using ins by (auto split: if_splits)
  show ?thesis
  proof (cases "cmp d e = 0")
    case True
    then show ?thesis using retrieve_found[of hashf cmp lh' d e] ins M(1) by simp
  next
    case False
    have "x \<in># items lh' \<longleftrightarrow> x \<in># items lh" if "cmp x e = 0" for x
    proof -
      have "x \<noteq> d" using that False by blast
      moreover have "x \<noteq> y" if "cmp y d = 0" for y using that \<open>cmp x e = 0\<close> False eq unfolding eq_hash_def by metis
      ultimately show ?thesis using M by auto
    qed
    then show ?thesis using False retrieve_cong[OF ok, of lh' e] ins by simp
  qed
qed

lemma delete_retrieve:
  assumes ok: "lhash_ok hashf cmp lh" and run: "OPENSSL_lh_delete hashf cmp alloc lh d = (lh', old)"
  shows "OPENSSL_lh_retrieve hashf cmp lh' e = (if cmp d e = 0 then 0 else OPENSSL_lh_retrieve hashf cmp lh e)"
proof -
  note dl = delete_items[OF ok run]
  have eq: "eq_hash hashf cmp" using ok by (simp add: lhash_ok_def)
  show ?thesis
  proof (cases "cmp d e = 0")
    case True
    have "cmp x e \<noteq> 0" if x: "x \<in># items lh'" for x
    proof
      assume "cmp x e = 0"
      then have c: "cmp x d = 0" using True eq unfolding eq_hash_def by metis
      have xl: "x \<in># items lh" using x dl by (auto split: if_splits)
      then have "items lh = add_mset old (items lh')" "cmp old d = 0" using c dl by (auto split: if_splits)
      moreover have "size (filter_mset (\<lambda>x. cmp x d = 0) (items lh)) \<le> 1" using ok by (simp add: lhash_ok_def)
      moreover have "{#x#} \<subseteq># filter_mset (\<lambda>x. cmp x d = 0) (items lh')" using x c by simp
      ultimately show False using size_mset_mono by fastforce
    qed
    then show ?thesis using True retrieve_none[of hashf cmp lh' e] dl by simp
  next
    case False
    have "x \<in># items lh' \<longleftrightarrow> x \<in># items lh" if "cmp x e = 0" for x
    proof (cases "\<exists>x. x \<in># items lh \<and> cmp x d = 0")
      case True
      then have "items lh = add_mset old (items lh')" "cmp old d = 0" using dl unfolding if_P[OF True] by blast+
      moreover have "x \<noteq> old" using \<open>cmp x e = 0\<close> False calculation(2) eq unfolding eq_hash_def by metis
      ultimately show ?thesis by simp
    next
      case no: False
      then show ?thesis using dl by auto
    qed
    then show ?thesis using False retrieve_cong[OF ok, of lh' e] dl by simp
  qed
qed

interpretation lh: dictionary "lhash_ok hashf cmp" "\<lambda>d e. cmp d e = 0" "OPENSSL_lh_retrieve hashf cmp"
  "lh_put hashf cmp ok_item alloc" "lh_del hashf cmp alloc" 0 for hashf cmp ok_item alloc
proof
  fix t d t' e assume ok: "lhash_ok hashf cmp t" and "lh_put hashf cmp ok_item alloc t d = Some t'"
  then obtain old where run: "OPENSSL_lh_insert hashf cmp ok_item alloc t d = (t', old, True)"
    by (auto simp: lh_put_def split: prod.splits if_splits)
  show "lhash_ok hashf cmp t' \<and> OPENSSL_lh_retrieve hashf cmp t' e = (if cmp d e = 0 then d else OPENSSL_lh_retrieve hashf cmp t e)"
    using insert_items[OF ok run] insert_retrieve[OF ok run] by blast
next
  fix t d e assume ok: "lhash_ok hashf cmp t"
  obtain t' old where run: "OPENSSL_lh_delete hashf cmp alloc t d = (t', old)" by (cases "OPENSSL_lh_delete hashf cmp alloc t d")
  show "lhash_ok hashf cmp (lh_del hashf cmp alloc t d) \<and>
      OPENSSL_lh_retrieve hashf cmp (lh_del hashf cmp alloc t d) e = (if cmp d e = 0 then 0 else OPENSSL_lh_retrieve hashf cmp t e)"
    using delete_items[OF ok run] delete_retrieve[OF ok run] by (simp add: lh_del_def run)
qed

section \<open>The load of the table\<close>

lemma rebucket_num:
  assumes "8 * unat n < 2 ^ 64"
  shows "num_buckets (lh_rebucket (\<lambda>n. True) n lh) = n"
proof -
  have u: "unat (8 * n) = 8 * unat n" using assms by (simp add: unat_word_ariths)
  have "8 * n div 8 = n" by (simp add: word_unat_eq_iff unat_div u)
  then show ?thesis by (simp add: lh_rebucket_def)
qed

definition low_load :: "lhash_st \<Rightarrow> bool" where
  "low_load lh \<longleftrightarrow> unat (num_items lh) < 3 * unat (num_buckets lh)"

lemma resize_load:
  assumes "16 \<le> unat (num_buckets lh)" and "unat (num_buckets lh) < 2 ^ 59"
    and "callback_depth lh = 0" and "unat (num_items lh) \<le> 3 * unat (num_buckets lh)"
    and same: "num_items (lh_maybe_resize (\<lambda>n. True) lh) = num_items lh"
  shows "low_load (lh_maybe_resize (\<lambda>n. True) lh)"
proof -
  let ?n = "unat (num_buckets lh)" and ?i = "unat (num_items lh)"
  have avg: "unat (num_items lh div num_buckets lh) = ?i div ?n" by (simp add: unat_div)
  have dbl: "unat (num_buckets lh * 2) = 2 * ?n" using assms(2) by (simp add: unat_word_ariths)
  consider "3 * ?n \<le> ?i" | "?n \<le> ?i" "?i < 3 * ?n" | "?i < ?n" by linarith
  then show ?thesis
  proof cases
    case 1
    then have "3 \<le> ?i div ?n" using assms(1) by (simp add: less_eq_div_iff_mult_less_eq)
    then have "kMaxAverageChainLength < num_items lh div num_buckets lh"
      by (simp add: kMaxAverageChainLength_def word_less_nat_alt avg)
    moreover have "num_buckets lh < num_buckets lh * 2" using assms(1) dbl by (simp add: word_less_nat_alt)
    ultimately have "lh_maybe_resize (\<lambda>n. True) lh = lh_rebucket (\<lambda>n. True) (num_buckets lh * 2) lh"
      using assms(3) by (simp add: lh_maybe_resize_def Let_def)
    then show ?thesis using rebucket_num[of "num_buckets lh * 2" lh] dbl assms(1,2,4) same
      by (simp add: low_load_def)
  next
    case 2
    then have "?i div ?n < 3" "1 \<le> ?i div ?n" using assms(1) by (simp_all add: div_less_iff_less_mult less_eq_div_iff_mult_less_eq)
    then have "lh_maybe_resize (\<lambda>n. True) lh = lh"
      by (simp add: lh_maybe_resize_def Let_def kMaxAverageChainLength_def kMinAverageChainLength_def word_less_nat_alt avg)
    then show ?thesis using 2 by (simp add: low_load_def)
  next
    case 3
    define n where "n = (if num_buckets lh div 2 < kMinNumBuckets then kMinNumBuckets else num_buckets lh div 2)"
    have un: "unat n = (if ?n div 2 < 16 then 16 else ?n div 2)"
      by (simp add: n_def kMinNumBuckets_def word_less_nat_alt unat_div)
    have "?i div ?n = 0" using 3 by simp
    then have z: "unat (num_items lh div num_buckets lh) = 0" using avg by simp
    show ?thesis
    proof (cases "kMinNumBuckets < num_buckets lh")
      case True
      then have "lh_maybe_resize (\<lambda>n. True) lh = lh_rebucket (\<lambda>n. True) n lh"
        using assms(3) z by (simp add: lh_maybe_resize_def Let_def kMaxAverageChainLength_def
            kMinAverageChainLength_def unat_eq_zero flip: n_def)
      moreover have "?n < 3 * unat n" unfolding un using assms(1) by simp presburger
      moreover have "8 * unat n < 2 ^ 64"
        unfolding un using assms(2) div_le_dividend[of ?n 2] by (cases "?n div 2 < 16") simp_all
      ultimately show ?thesis using rebucket_num[of n lh] 3 same by (simp add: low_load_def)
    next
      case False
      then have "lh_maybe_resize (\<lambda>n. True) lh = lh"
        using z by (simp add: lh_maybe_resize_def Let_def kMaxAverageChainLength_def unat_eq_zero)
      then show ?thesis using 3 by (simp add: low_load_def)
    qed
  qed
qed

section \<open>Properties\<close>

text \<open>
  C5: The hash table implements a dictionary. Insertion and deletion keep it well-formed and
  report the item that was there; afterwards every lookup gives what it gave before, except for
  keys equal to the inserted or deleted one. This holds across growing and shrinking, and an
  insertion only fails, changing nothing, when the allocator does.
\<close>

theorem lhash_refines_dictionary:
  assumes "lhash_ok hashf cmp lh"
  shows "(case OPENSSL_lh_insert hashf cmp ok_item alloc lh d of (lh', old, done) \<Rightarrow>
      lhash_ok hashf cmp lh' \<and> old = OPENSSL_lh_retrieve hashf cmp lh d \<and>
      (if done then OPENSSL_lh_retrieve hashf cmp lh' e = (if cmp d e = 0 then d else OPENSSL_lh_retrieve hashf cmp lh e)
       else lh' = lh \<and> \<not> ok_item)) \<and>
    (case OPENSSL_lh_delete hashf cmp alloc lh d of (lh', old) \<Rightarrow>
      lhash_ok hashf cmp lh' \<and> old = OPENSSL_lh_retrieve hashf cmp lh d \<and>
      OPENSSL_lh_retrieve hashf cmp lh' e = (if cmp d e = 0 then 0 else OPENSSL_lh_retrieve hashf cmp lh e))"
proof -
  obtain lh1 old1 done1 where i: "OPENSSL_lh_insert hashf cmp ok_item alloc lh d = (lh1, old1, done1)"
    by (cases "OPENSSL_lh_insert hashf cmp ok_item alloc lh d")
  obtain lh2 old2 where x: "OPENSSL_lh_delete hashf cmp alloc lh d = (lh2, old2)"
    by (cases "OPENSSL_lh_delete hashf cmp alloc lh d")
  show ?thesis unfolding i x prod.case
    using insert_items[OF assms i] insert_retrieve[OF assms, of ok_item alloc d lh1 old1 e] i
      delete_items[OF assms x] delete_retrieve[OF assms x, of e] by (cases done1) auto
qed

text \<open>Keys are numbers modulo 8: 1 and 9 are equal.\<close>

definition mod8_cmp :: "u64 \<Rightarrow> u64 \<Rightarrow> int" where
  "mod8_cmp x y = (if x mod 8 = y mod 8 then 0 else 1)"

definition mod8_hash :: "u64 \<Rightarrow> u32" where
  "mod8_hash x = ucast (x mod 8)"

definition empty_table :: lhash_st where
  "empty_table = \<lparr>num_items = 0, buckets = replicate 16 [], num_buckets = 16, callback_depth = 0\<rparr>"

lemma empty_table_ok: "eq_hash hashf cmp \<Longrightarrow> lhash_ok hashf cmp empty_table"
proof -
  have "placed hashf 16 (replicate 16 [])" by (simp add: placed_def)
  then show "eq_hash hashf cmp \<Longrightarrow> lhash_ok hashf cmp empty_table"
    by (simp add: lhash_ok_def empty_table_def items_def)
qed

lemma mod8_eq_hash: "eq_hash mod8_hash mod8_cmp"
  by (auto simp: eq_hash_def mod8_cmp_def mod8_hash_def split: if_splits)

theorem lhash_refines_dictionary_witness:
  "case OPENSSL_lh_insert mod8_hash mod8_cmp True (\<lambda>n. True) empty_table 9 of (lh', old, done) \<Rightarrow>
     old = 0 \<and> done \<and> OPENSSL_lh_retrieve mod8_hash mod8_cmp lh' 1 = 9"
proof -
  have r: "OPENSSL_lh_retrieve mod8_hash mod8_cmp empty_table 9 = 0"
    by (rule retrieve_none[OF empty_table_ok[OF mod8_eq_hash]]) (simp add: empty_table_def items_def)
  have c: "mod8_cmp 9 1 = 0" by (simp add: mod8_cmp_def)
  from lhash_refines_dictionary[OF empty_table_ok[OF mod8_eq_hash], where ok_item = True and alloc = "\<lambda>n. True" and d = 9 and e = 1] show ?thesis
    unfolding r by (auto simp: c split: prod.splits if_splits)
qed

text \<open>
  C34: While the allocator does not fail and no iteration is under way, the average chain stays
  shorter than three: an insertion that makes it longer doubles the array, a deletion that
  makes it shorter than one halves it, and halving never goes below 16 buckets.
\<close>

theorem lhash_load_bounded:
  assumes "lhash_ok hashf cmp lh" and "low_load lh" and "size (items lh) < 2 ^ 64"
    and "callback_depth lh = 0" and "unat (num_buckets lh) < 2 ^ 59"
  shows "low_load (fst (OPENSSL_lh_insert hashf cmp True (\<lambda>n. True) lh d)) \<and>
    low_load (fst (OPENSSL_lh_delete hashf cmp (\<lambda>n. True) lh d)) \<and>
    16 \<le> unat (num_buckets (fst (OPENSSL_lh_insert hashf cmp True (\<lambda>n. True) lh d))) \<and>
    16 \<le> unat (num_buckets (fst (OPENSSL_lh_delete hashf cmp (\<lambda>n. True) lh d)))"
proof -
  have n16: "16 \<le> unat (num_buckets lh)" using assms(1) by (simp add: lhash_ok_def)
  have keep: "num_items (lh_maybe_resize al l) = num_items l" for al l
    by (simp add: lh_maybe_resize_def lh_rebucket_def Let_def)
  have step: "low_load (lh_maybe_resize (\<lambda>n. True) (lh\<lparr>buckets := b, num_items := i\<rparr>))"
    if "unat i \<le> 3 * unat (num_buckets lh)" for b i
    by (rule resize_load) (use that n16 assms(4,5) keep in simp_all)
  have "unat (num_items lh + 1) \<le> 3 * unat (num_buckets lh)"
    using assms(2) by (auto simp: low_load_def unat_word_ariths(1) intro: le_trans[OF mod_less_eq_dividend])
  note ins = step[OF this]
  obtain hash b i where g: "get_next_ptr_and_hash hashf cmp lh d = (hash, b, i)" by (cases "get_next_ptr_and_hash hashf cmp lh d")
  have "low_load (fst (OPENSSL_lh_insert hashf cmp True (\<lambda>n. True) lh d))"
    using assms(2) ins by (simp add: OPENSSL_lh_insert_def g Let_def) (simp add: low_load_def)
  moreover have "low_load (fst (OPENSSL_lh_delete hashf cmp (\<lambda>n. True) lh d))"
  proof (cases "i < length (buckets lh ! b)")
    case True
    note sp = search_split[OF assms(1) g]
    obtain M where "items lh = add_mset (it_data (buckets lh ! b ! i)) M" using items_at[OF sp(3) True] by blast
    show ?thesis
    proof (cases "num_items lh = 0")
      case z: True
      then have "size (items lh) mod 2 ^ 64 = 0"
        using assms(1) unat_of_nat[of "size (items lh)", where 'a = "64"] by (simp add: lhash_ok_def)
      then have "items lh = {#}" using assms(3) by simp
      then show ?thesis using \<open>items lh = add_mset (it_data (buckets lh ! b ! i)) M\<close> by simp
    next
      case False
      then have "unat (num_items lh - 1) \<le> 3 * unat (num_buckets lh)"
        using assms(2) by (simp add: low_load_def unat_minus_one)
      then show ?thesis using True step by (simp add: OPENSSL_lh_delete_def g Let_def)
    qed
  next
    case False
    then show ?thesis using assms(2) by (simp add: OPENSSL_lh_delete_def g Let_def)
  qed
  moreover have "16 \<le> unat (num_buckets (fst (OPENSSL_lh_insert hashf cmp True (\<lambda>n. True) lh d)))"
    using insert_items[OF assms(1)] by (cases "OPENSSL_lh_insert hashf cmp True (\<lambda>n. True) lh d") (auto simp: lhash_ok_def)
  moreover have "16 \<le> unat (num_buckets (fst (OPENSSL_lh_delete hashf cmp (\<lambda>n. True) lh d)))"
    using delete_items[OF assms(1)] by (cases "OPENSSL_lh_delete hashf cmp (\<lambda>n. True) lh d") (auto simp: lhash_ok_def)
  ultimately show ?thesis by blast
qed

theorem lhash_load_bounded_witness:
  "low_load (fst (OPENSSL_lh_insert mod8_hash mod8_cmp True (\<lambda>n. True) empty_table 5))"
proof -
  have "low_load empty_table" "size (items empty_table) < 2 ^ 64" "callback_depth empty_table = 0"
    "unat (num_buckets empty_table) < 2 ^ 59"
    by (simp_all add: low_load_def empty_table_def items_def)
  from lhash_load_bounded[OF empty_table_ok[OF mod8_eq_hash] this, of 5] show ?thesis by blast
qed

text \<open>
  OPENSSL_lh_doall_arg calls back exactly once for each item of the table, and neither items
  nor lookups change; the depth of iterations is restored unless its counter saturates.
\<close>

theorem lhash_doall_visits:
  assumes "lhash_ok hashf cmp lh"
  shows "case OPENSSL_lh_doall_arg alloc (\<lambda>x s. add_mset x s) (Some lh) {#} of
      (None, seen) \<Rightarrow> False
    | (Some lh', seen) \<Rightarrow> seen = items lh \<and> lhash_ok hashf cmp lh' \<and> items lh' = items lh \<and>
        OPENSSL_lh_retrieve hashf cmp lh' d = OPENSSL_lh_retrieve hashf cmp lh d \<and>
        (callback_depth lh < UINT_MAX - 1 \<longrightarrow> callback_depth lh' = callback_depth lh)"
proof -
  have seen: "fold (fold (\<lambda>cur. add_mset (it_data cur))) bs M = M + mset (map it_data (concat bs))" for bs M
  proof -
    have c: "fold (\<lambda>cur. add_mset (it_data cur)) c M = M + mset (map it_data c)" for c M
      by (induction c arbitrary: M) simp_all
    show ?thesis by (induction bs arbitrary: M) (simp_all add: c add.assoc)
  qed
  define c where "c = (let c = (if callback_depth lh < UINT_MAX then callback_depth lh + 1 else callback_depth lh)
    in if c < UINT_MAX then c - 1 else c)"
  have run: "OPENSSL_lh_doall_arg alloc (\<lambda>x s. add_mset x s) (Some lh) {#} =
      (Some (lh_maybe_resize alloc (lh\<lparr>callback_depth := c\<rparr>)), items lh)"
    by (auto simp: OPENSSL_lh_doall_arg_def Let_def seen items_def c_def)
  have "lhash_ok hashf cmp (lh\<lparr>callback_depth := c\<rparr>)" using assms by (simp add: lhash_ok_def items_def)
  note rs = lh_maybe_resize_ok[OF this, of alloc]
  have it: "items (lh_maybe_resize alloc (lh\<lparr>callback_depth := c\<rparr>)) = items lh"
    using rs by (simp add: same_items_def items_def)
  have "c = callback_depth lh" if "callback_depth lh < UINT_MAX - 1"
  proof -
    have l: "unat (callback_depth lh) < 0xFFFFFFFE" using that by (simp add: word_less_nat_alt)
    then have "unat (callback_depth lh + 1) = unat (callback_depth lh) + 1" by (simp add: unat_word_ariths(1))
    then show ?thesis using l by (simp add: c_def Let_def word_less_nat_alt)
  qed
  moreover have "callback_depth (lh_maybe_resize alloc (lh\<lparr>callback_depth := c\<rparr>)) = c"
    using rs by (simp add: same_items_def)
  ultimately have dep: "callback_depth lh < UINT_MAX - 1 \<longrightarrow>
      callback_depth (lh_maybe_resize alloc (lh\<lparr>callback_depth := c\<rparr>)) = callback_depth lh" by metis
  have "OPENSSL_lh_retrieve hashf cmp (lh_maybe_resize alloc (lh\<lparr>callback_depth := c\<rparr>)) d = OPENSSL_lh_retrieve hashf cmp lh d"
    by (rule retrieve_cong[OF assms]) (use rs it in simp_all)
  then show ?thesis unfolding run prod.case option.case using rs it dep by blast
qed

theorem lhash_doall_visits_witness:
  "case OPENSSL_lh_doall_arg (\<lambda>n. True) (\<lambda>x s. add_mset x s) (Some empty_table) {#} of
      (None, seen) \<Rightarrow> False | (Some lh', seen) \<Rightarrow> seen = {#} \<and> items lh' = {#}"
proof -
  have e: "items empty_table = {#}" by (simp add: items_def empty_table_def)
  from lhash_doall_visits[OF empty_table_ok[OF mod8_eq_hash], where alloc = "\<lambda>n. True" and d = 0] show ?thesis
    unfolding e by (auto split: prod.splits option.splits)
qed

end
