(* ===== verification/Cbs.thy ===== *)
theory Cbs
  imports Prelude
begin

text \<open>
  The byte-string reader of BoringSSL (src/crypto/bytestring/cbs.c): big- and little-endian
  numbers, length-prefixed strings, and DER and BER elements.

  A CBS is the bytes that are left of it. A function that reads returns \<open>Ok\<close> with its output and
  what is left, or \<open>Fail\<close> with what is left then: some functions consume input before they
  fail. \<open>NoResult\<close> does not occur. The optional output pointers are always given.
\<close>

type_synonym CBS = bytes
type_synonym 'v reader = "CBS \<Rightarrow> ('v, CBS) outcome"

abbreviation CBS_ASN1_TAG_SHIFT :: nat where "CBS_ASN1_TAG_SHIFT \<equiv> 24"
abbreviation CBS_ASN1_CONSTRUCTED :: u32 where "CBS_ASN1_CONSTRUCTED \<equiv> 0x20000000"
abbreviation CBS_ASN1_TAG_NUMBER_MASK :: u32 where "CBS_ASN1_TAG_NUMBER_MASK \<equiv> 0x1FFFFFFF"
abbreviation CBS_ASN1_BOOLEAN :: u32 where "CBS_ASN1_BOOLEAN \<equiv> 1"
abbreviation CBS_ASN1_INTEGER :: u32 where "CBS_ASN1_INTEGER \<equiv> 2"
abbreviation CBS_ASN1_OCTETSTRING :: u32 where "CBS_ASN1_OCTETSTRING \<equiv> 4"

section \<open>Bytes and numbers\<close>

definition CBS_len :: "CBS \<Rightarrow> u64" where
  "CBS_len cbs = of_nat (length cbs)"

definition cbs_get :: "u64 \<Rightarrow> bytes reader" where
  "cbs_get n cbs = (if length cbs < unat n then Fail cbs else Ok (take (unat n) cbs) (drop (unat n) cbs))"

definition CBS_skip :: "u64 \<Rightarrow> unit reader" where
  "CBS_skip n cbs = bindo (cbs_get n cbs) (\<lambda>_ cbs. Ok () cbs)"

text \<open>Copies out: the allocator's answer is a parameter.\<close>

definition CBS_stow :: "bool \<Rightarrow> CBS \<Rightarrow> bytes option" where
  "CBS_stow ok cbs = (if CBS_len cbs = 0 then Some [] else if ok then Some cbs else None)"

fun OPENSSL_strnlen :: "bytes \<Rightarrow> nat" where
  "OPENSSL_strnlen [] = 0"
| "OPENSSL_strnlen (c # s) = (if c = 0 then 0 else Suc (OPENSSL_strnlen s))"

definition OPENSSL_strndup :: "bool \<Rightarrow> bytes \<Rightarrow> bytes option" where
  "OPENSSL_strndup ok str =
     (let n = of_nat (OPENSSL_strnlen str) :: u64 in
      if n + 1 < n then None else if \<not> ok then None else Some (take (unat n) str @ [0]))"

definition CBS_strdup :: "bool \<Rightarrow> CBS \<Rightarrow> bytes option" where
  "CBS_strdup ok cbs = OPENSSL_strndup ok cbs"

definition CBS_contains_zero_byte :: "CBS \<Rightarrow> bool" where
  "CBS_contains_zero_byte cbs = list_ex (\<lambda>c. c = 0) cbs"

definition CRYPTO_memcmp :: "bytes \<Rightarrow> bytes \<Rightarrow> u8" where
  "CRYPTO_memcmp a b = fold (\<lambda>(p, q) x. x OR (p XOR q)) (zip a b) 0"

definition CBS_mem_equal :: "CBS \<Rightarrow> bytes \<Rightarrow> bool" where
  "CBS_mem_equal cbs d = (if length d \<noteq> length cbs then False else CRYPTO_memcmp cbs d = 0)"

section \<open>Numbers\<close>

definition be_number :: "bytes \<Rightarrow> u64" where
  "be_number bs = fold (\<lambda>b r. push_bit 8 r OR ucast b) bs 0"

definition cbs_get_u :: "u64 \<Rightarrow> u64 reader" where
  "cbs_get_u n cbs = bindo (cbs_get n cbs) (\<lambda>d cbs. Ok (be_number d) cbs)"

text \<open>The byte swaps of internal.h, on a little-endian machine.\<close>

definition CRYPTO_bswap2 :: "u16 \<Rightarrow> u16" where "CRYPTO_bswap2 x = le_word (rev (le_bytes 2 x))"
definition CRYPTO_bswap4 :: "u32 \<Rightarrow> u32" where "CRYPTO_bswap4 x = le_word (rev (le_bytes 4 x))"
definition CRYPTO_bswap8 :: "u64 \<Rightarrow> u64" where "CRYPTO_bswap8 x = le_word (rev (le_bytes 8 x))"

definition CBS_get_u8 :: "u8 reader" where
  "CBS_get_u8 cbs = bindo (cbs_get 1 cbs) (\<lambda>v cbs. Ok (v ! 0) cbs)"

definition CBS_get_u16 :: "u16 reader" where
  "CBS_get_u16 cbs = bindo (cbs_get_u 2 cbs) (\<lambda>v cbs. Ok (ucast v) cbs)"

definition CBS_get_u16le :: "u16 reader" where
  "CBS_get_u16le cbs = bindo (CBS_get_u16 cbs) (\<lambda>v cbs. Ok (CRYPTO_bswap2 v) cbs)"

definition CBS_get_u24 :: "u32 reader" where
  "CBS_get_u24 cbs = bindo (cbs_get_u 3 cbs) (\<lambda>v cbs. Ok (ucast v) cbs)"

definition CBS_get_u32 :: "u32 reader" where
  "CBS_get_u32 cbs = bindo (cbs_get_u 4 cbs) (\<lambda>v cbs. Ok (ucast v) cbs)"

definition CBS_get_u32le :: "u32 reader" where
  "CBS_get_u32le cbs = bindo (CBS_get_u32 cbs) (\<lambda>v cbs. Ok (CRYPTO_bswap4 v) cbs)"

definition CBS_get_u64 :: "u64 reader" where
  "CBS_get_u64 cbs = cbs_get_u 8 cbs"

definition CBS_get_u64le :: "u64 reader" where
  "CBS_get_u64le cbs = bindo (cbs_get_u 8 cbs) (\<lambda>v cbs. Ok (CRYPTO_bswap8 v) cbs)"

definition CBS_get_last_u8 :: "u8 reader" where
  "CBS_get_last_u8 cbs = (if CBS_len cbs = 0 then Fail cbs else Ok (last cbs) (butlast cbs))"

definition CBS_get_bytes :: "u64 \<Rightarrow> CBS reader" where
  "CBS_get_bytes n cbs = bindo (cbs_get n cbs) (\<lambda>v cbs. Ok v cbs)"

definition CBS_copy_bytes :: "u64 \<Rightarrow> bytes reader" where
  "CBS_copy_bytes n cbs = bindo (cbs_get n cbs) (\<lambda>v cbs. Ok v cbs)"

definition cbs_get_length_prefixed :: "u64 \<Rightarrow> CBS reader" where
  "cbs_get_length_prefixed len_len cbs = bindo (cbs_get_u len_len cbs) (\<lambda>n cbs. CBS_get_bytes n cbs)"

definition CBS_get_u8_length_prefixed :: "CBS reader" where
  "CBS_get_u8_length_prefixed cbs = cbs_get_length_prefixed 1 cbs"

definition CBS_get_u16_length_prefixed :: "CBS reader" where
  "CBS_get_u16_length_prefixed cbs = cbs_get_length_prefixed 2 cbs"

definition CBS_get_u24_length_prefixed :: "CBS reader" where
  "CBS_get_u24_length_prefixed cbs = cbs_get_length_prefixed 3 cbs"

definition CBS_get_until_first :: "u8 \<Rightarrow> CBS reader" where
  "CBS_get_until_first c cbs =
     (if c \<notin> set cbs then Fail cbs else CBS_get_bytes (of_nat (length (takeWhile (\<lambda>x. x \<noteq> c) cbs))) cbs)"

section \<open>ASN.1 elements\<close>

fun base128_loop :: "u64 \<Rightarrow> u64 reader" where
  "base128_loop v [] = Fail []"
| "base128_loop v (b # cbs) =
     (if drop_bit (64 - 7) v \<noteq> 0 then Fail cbs
      else if v = 0 \<and> b = 0x80 then Fail cbs
      else let v = push_bit 7 v OR (ucast b AND 0x7F) in
        if b AND 0x80 \<noteq> 0 then base128_loop v cbs else Ok v cbs)"

definition parse_base128_integer :: "u64 reader" where
  "parse_base128_integer cbs = base128_loop 0 cbs"

definition parse_asn1_tag :: "u32 reader" where
  "parse_asn1_tag cbs = bindo (CBS_get_u8 cbs) (\<lambda>tag_byte cbs.
     let tag = push_bit CBS_ASN1_TAG_SHIFT (ucast tag_byte AND 0xE0) :: u32;
         tag_number = ucast tag_byte AND 0x1F :: u32
     in if tag_number = 0x1F
        then bindo (parse_base128_integer cbs) (\<lambda>v cbs.
               if ucast CBS_ASN1_TAG_NUMBER_MASK < v \<or> v < 0x1F then Fail cbs else Ok (tag OR ucast v) cbs)
        else Ok (tag OR tag_number) cbs)"

text \<open>The output is the element with its header, the tag, the header's length and \<open>*out_ber_found\<close>.\<close>

definition cbs_get_any_asn1_element :: "bool \<Rightarrow> (CBS \<times> u32 \<times> u64 \<times> bool) reader" where
  "cbs_get_any_asn1_element ber_ok cbs =
     (case bindo (parse_asn1_tag cbs) (\<lambda>tag h. bindo (CBS_get_u8 h) (\<lambda>length_byte h. Ok (tag, length_byte) h)) of
        Ok (tag, length_byte) header \<Rightarrow>
          let header_len = CBS_len cbs - CBS_len header in
          if length_byte AND 0x80 = 0
          then bindo (CBS_get_bytes (ucast length_byte + header_len) cbs) (\<lambda>out cbs. Ok (out, tag, header_len, False) cbs)
          else let num_bytes = ucast length_byte AND 0x7F :: u64 in
            if ber_ok \<and> tag AND CBS_ASN1_CONSTRUCTED \<noteq> 0 \<and> num_bytes = 0
            then bindo (CBS_get_bytes header_len cbs) (\<lambda>out cbs. Ok (out, tag, header_len, True) cbs)
            else if num_bytes = 0 \<or> 4 < num_bytes then Fail cbs
            else (case cbs_get_u num_bytes header of
                    Ok len64 header \<Rightarrow>
                      let short = len64 < 128; long = drop_bit (unat ((num_bytes - 1) * 8)) len64 = 0 in
                      if (short \<or> long) \<and> \<not> ber_ok then Fail cbs
                      else if len64 + header_len + num_bytes < len64 then Fail cbs
                      else bindo (CBS_get_bytes (len64 + (header_len + num_bytes)) cbs)
                             (\<lambda>out cbs. Ok (out, tag, header_len + num_bytes, short \<or> long) cbs)
                  | Fail _ \<Rightarrow> Fail cbs
                  | NoResult \<Rightarrow> NoResult)
      | Fail _ \<Rightarrow> Fail cbs
      | NoResult \<Rightarrow> NoResult)"

definition CBS_get_any_asn1_element :: "(CBS \<times> u32 \<times> u64) reader" where
  "CBS_get_any_asn1_element cbs =
     bindo (cbs_get_any_asn1_element False cbs) (\<lambda>(out, tag, header_len, ber) cbs. Ok (out, tag, header_len) cbs)"

definition CBS_get_any_ber_asn1_element :: "(CBS \<times> u32 \<times> u64 \<times> bool) reader" where
  "CBS_get_any_ber_asn1_element cbs = cbs_get_any_asn1_element True cbs"

text \<open>Skipping the header of an element leaves its contents; a failure there fails the caller.\<close>

definition skip_header :: "u64 \<Rightarrow> CBS \<Rightarrow> CBS option" where
  "skip_header n out = (case CBS_skip n out of Ok _ out \<Rightarrow> Some out | Fail _ \<Rightarrow> None | NoResult \<Rightarrow> None)"

definition CBS_get_any_asn1 :: "(CBS \<times> u32) reader" where
  "CBS_get_any_asn1 cbs = bindo (CBS_get_any_asn1_element cbs) (\<lambda>(out, tag, header_len) cbs.
     case skip_header header_len out of None \<Rightarrow> Fail cbs | Some out \<Rightarrow> Ok (out, tag) cbs)"

definition cbs_get_asn1 :: "u32 \<Rightarrow> bool \<Rightarrow> CBS reader" where
  "cbs_get_asn1 tag_value skip cbs = bindo (CBS_get_any_asn1_element cbs) (\<lambda>(out, tag, header_len) cbs.
     if tag \<noteq> tag_value then Fail cbs
     else if skip then (case skip_header header_len out of None \<Rightarrow> Fail cbs | Some out \<Rightarrow> Ok out cbs)
     else Ok out cbs)"

definition CBS_get_asn1 :: "u32 \<Rightarrow> CBS reader" where
  "CBS_get_asn1 tag_value cbs = cbs_get_asn1 tag_value True cbs"

definition CBS_get_asn1_element :: "u32 \<Rightarrow> CBS reader" where
  "CBS_get_asn1_element tag_value cbs = cbs_get_asn1 tag_value False cbs"

definition CBS_peek_asn1_tag :: "CBS \<Rightarrow> u32 \<Rightarrow> bool" where
  "CBS_peek_asn1_tag cbs tag_value =
     (if CBS_len cbs < 1 then False
      else case parse_asn1_tag cbs of Ok actual_tag _ \<Rightarrow> tag_value = actual_tag | Fail _ \<Rightarrow> False | NoResult \<Rightarrow> False)"

section \<open>ASN.1 values\<close>

text \<open>None when the string is not a valid integer, otherwise whether it is negative.\<close>

definition CBS_is_valid_asn1_integer :: "CBS \<Rightarrow> bool option" where
  "CBS_is_valid_asn1_integer cbs =
     (case CBS_get_u8 cbs of
        Ok first_byte copy \<Rightarrow>
          let neg = first_byte AND 0x80 \<noteq> 0 in
          (case CBS_get_u8 copy of
             Ok second_byte copy \<Rightarrow>
               if first_byte = 0x00 \<and> second_byte AND 0x80 = 0 \<or> first_byte = 0xFF \<and> second_byte AND 0x80 \<noteq> 0
               then None else Some neg
           | Fail _ \<Rightarrow> Some neg
           | NoResult \<Rightarrow> None)
      | Fail _ \<Rightarrow> None
      | NoResult \<Rightarrow> None)"

definition CBS_is_unsigned_asn1_integer :: "CBS \<Rightarrow> bool" where
  "CBS_is_unsigned_asn1_integer cbs = (CBS_is_valid_asn1_integer cbs = Some False)"

fun uint64_loop :: "bytes \<Rightarrow> u64 \<Rightarrow> u64 option" where
  "uint64_loop [] out = Some out"
| "uint64_loop (b # bs) out = (if drop_bit 56 out \<noteq> 0 then None else uint64_loop bs (push_bit 8 out OR ucast b))"

definition CBS_get_asn1_uint64 :: "u64 reader" where
  "CBS_get_asn1_uint64 cbs = bindo (CBS_get_asn1 CBS_ASN1_INTEGER cbs) (\<lambda>bytes cbs.
     if \<not> CBS_is_unsigned_asn1_integer bytes then Fail cbs
     else case uint64_loop bytes 0 of None \<Rightarrow> Fail cbs | Some out \<Rightarrow> Ok out cbs)"

text \<open>The eight bytes of the union are the sign's, then overwritten from the lowest with the value's.\<close>

definition CBS_get_asn1_int64 :: "u64 reader" where
  "CBS_get_asn1_int64 cbs = bindo (CBS_get_asn1 CBS_ASN1_INTEGER cbs) (\<lambda>bytes cbs.
     case CBS_is_valid_asn1_integer bytes of
       None \<Rightarrow> Fail cbs
     | Some neg \<Rightarrow>
         if 8 < length bytes then Fail cbs
         else Ok (le_word (rev bytes @ replicate (8 - length bytes) (if neg then 0xFF else 0))) cbs)"

definition CBS_get_asn1_bool :: "bool reader" where
  "CBS_get_asn1_bool cbs = bindo (CBS_get_asn1 CBS_ASN1_BOOLEAN cbs) (\<lambda>bytes cbs.
     if CBS_len bytes \<noteq> 1 then Fail cbs
     else if bytes ! 0 \<noteq> 0 \<and> bytes ! 0 \<noteq> 0xFF then Fail cbs else Ok (bytes ! 0 \<noteq> 0) cbs)"

definition CBS_get_optional_asn1 :: "u32 \<Rightarrow> CBS option reader" where
  "CBS_get_optional_asn1 tag cbs =
     (if CBS_peek_asn1_tag cbs tag then bindo (CBS_get_asn1 tag cbs) (\<lambda>out cbs. Ok (Some out) cbs) else Ok None cbs)"

text \<open>An explicitly tagged value: what is read must be all of the element.\<close>

definition of_child :: "'v reader \<Rightarrow> CBS \<Rightarrow> 'v option" where
  "of_child rd child = (case rd child of Ok v rest \<Rightarrow> if CBS_len rest \<noteq> 0 then None else Some v | Fail _ \<Rightarrow> None | NoResult \<Rightarrow> None)"

definition CBS_get_optional_asn1_octet_string :: "u32 \<Rightarrow> (CBS \<times> bool) reader" where
  "CBS_get_optional_asn1_octet_string tag cbs = bindo (CBS_get_optional_asn1 tag cbs) (\<lambda>child cbs.
     case child of
       None \<Rightarrow> Ok ([], False) cbs
     | Some child \<Rightarrow>
         (case of_child (CBS_get_asn1 CBS_ASN1_OCTETSTRING) child of None \<Rightarrow> Fail cbs | Some out \<Rightarrow> Ok (out, True) cbs))"

definition CBS_get_optional_asn1_uint64 :: "u32 \<Rightarrow> u64 \<Rightarrow> u64 reader" where
  "CBS_get_optional_asn1_uint64 tag default_value cbs = bindo (CBS_get_optional_asn1 tag cbs) (\<lambda>child cbs.
     case child of
       None \<Rightarrow> Ok default_value cbs
     | Some child \<Rightarrow> (case of_child CBS_get_asn1_uint64 child of None \<Rightarrow> Fail cbs | Some out \<Rightarrow> Ok out cbs))"

definition CBS_get_optional_asn1_bool :: "u32 \<Rightarrow> bool \<Rightarrow> bool reader" where
  "CBS_get_optional_asn1_bool tag default_value cbs = bindo (CBS_get_optional_asn1 tag cbs) (\<lambda>child cbs.
     case child of
       None \<Rightarrow> Ok default_value cbs
     | Some child \<Rightarrow>
         (case CBS_get_asn1 CBS_ASN1_BOOLEAN child of
            Ok child2 rest \<Rightarrow>
              if CBS_len child2 \<noteq> 1 \<or> CBS_len rest \<noteq> 0 then Fail cbs
              else if child2 ! 0 = 0 then Ok False cbs
              else if child2 ! 0 = 0xFF then Ok True cbs else Fail cbs
          | Fail _ \<Rightarrow> Fail cbs
          | NoResult \<Rightarrow> NoResult))"

definition CBS_is_valid_asn1_bitstring :: "CBS \<Rightarrow> bool" where
  "CBS_is_valid_asn1_bitstring cbs =
     (case CBS_get_u8 cbs of
        Ok num_unused_bits rest \<Rightarrow>
          if 7 < num_unused_bits then False
          else if num_unused_bits = 0 then True
          else (case CBS_get_last_u8 rest of
                  Ok lst _ \<Rightarrow> lst AND (push_bit (unat num_unused_bits) 1 - 1) = 0
                | Fail _ \<Rightarrow> False
                | NoResult \<Rightarrow> False)
      | Fail _ \<Rightarrow> False
      | NoResult \<Rightarrow> False)"

definition CBS_asn1_bitstring_has_bit :: "CBS \<Rightarrow> u32 \<Rightarrow> bool" where
  "CBS_asn1_bitstring_has_bit cbs b =
     (if \<not> CBS_is_valid_asn1_bitstring cbs then False
      else let byte_num = drop_bit 3 b + 1; bit_num = 7 - (b AND 7) in
        ucast byte_num < CBS_len cbs \<and> ucast (cbs ! unat byte_num) AND push_bit (unat bit_num) (1 :: u32) \<noteq> 0)"

section \<open>What the readers accept\<close>

text \<open>
  Each reader succeeds exactly on the encodings of its outputs: \<open>Ok v rest\<close> means that the input
  is the encoding of \<open>v\<close> followed by \<open>rest\<close>. These facts are collected as \<open>cbs_exact\<close>.
\<close>

named_theorems cbs_exact \<open>the inputs on which a reader succeeds\<close>

lemma cbs_get_exact [cbs_exact]: "cbs_get n cbs = Ok d rest \<longleftrightarrow> cbs = d @ rest \<and> length d = unat n"
  by (auto simp: cbs_get_def)

lemma CBS_get_bytes_exact [cbs_exact]: "CBS_get_bytes n cbs = Ok d rest \<longleftrightarrow> cbs = d @ rest \<and> length d = unat n"
  by (auto simp: CBS_get_bytes_def cbs_get_exact)

lemma CBS_get_u8_exact [cbs_exact]: "CBS_get_u8 cbs = Ok b rest \<longleftrightarrow> cbs = b # rest"
  by (auto simp: CBS_get_u8_def cbs_get_exact length_Suc_conv)

text \<open>Big-endian numbers.\<close>

lemma be_number_le_word: "be_number bs = le_word (rev bs)"
proof (induction bs rule: rev_induct)
  case (snoc b bs)
  then show ?case by (simp add: be_number_def or.commute)
qed (simp add: be_number_def)

lemma cbs_get_u_exact [cbs_exact]:
  assumes "unat n \<le> 8"
  shows "cbs_get_u n cbs = Ok v rest \<longleftrightarrow>
    cbs = rev (le_bytes (unat n) v) @ rest \<and> take_bit (8 * unat n) v = v"
proof
  assume "cbs_get_u n cbs = Ok v rest"
  then obtain d where d: "cbs = d @ rest" "length d = unat n" "v = le_word (rev d)"
    by (auto simp: cbs_get_u_def cbs_get_exact be_number_le_word)
  have "le_bytes (unat n) v = rev d"
    using le_bytes_le_word[of "rev d", where 'a = 64] assms d by simp
  moreover have "take_bit (8 * unat n) v = v"
    using le_word_le_bytes[of "unat n" v] calculation d(3) by simp
  ultimately show "cbs = rev (le_bytes (unat n) v) @ rest \<and> take_bit (8 * unat n) v = v" using d(1) by simp
next
  assume a: "cbs = rev (le_bytes (unat n) v) @ rest \<and> take_bit (8 * unat n) v = v"
  then show "cbs_get_u n cbs = Ok v rest"
    by (auto simp: cbs_get_u_def be_number_le_word le_word_le_bytes cbs_get_exact)
qed

section \<open>DER headers\<close>

text \<open>The base-128 digits of a number, highest first, all but the last with the high bit set.\<close>

function base128_hi :: "u64 \<Rightarrow> bytes" where
  "base128_hi v = (if v = 0 then [] else base128_hi (drop_bit 7 v) @ [(ucast v AND 0x7F) OR 0x80])"
  by pat_completeness auto

termination
  by (relation "measure unat") (auto dest: drop_bit_less[where k = 7])

declare base128_hi.simps [simp del]

definition base128 :: "u64 \<Rightarrow> bytes" where
  "base128 v = base128_hi (drop_bit 7 v) @ [ucast v AND 0x7F]"

text \<open>The constants of the parser, bit by bit.\<close>

declare bit_numeral_word_iff [simp del]

lemma const_bits:
  "bit (0x7F :: 'a::len word) n \<longleftrightarrow> n < LENGTH('a) \<and> n < 7"
  "bit (0x1F :: 'a::len word) n \<longleftrightarrow> n < LENGTH('a) \<and> n < 5"
  "bit (0x80 :: u8) n \<longleftrightarrow> n = 7" "bit (0xE0 :: u8) n \<longleftrightarrow> 5 \<le> n \<and> n < 8"
  "bit (0xE0 :: u32) n \<longleftrightarrow> 5 \<le> n \<and> n < 8" "bit CBS_ASN1_TAG_NUMBER_MASK n \<longleftrightarrow> n < 29"
  "bit (0xE0000000 :: u32) n \<longleftrightarrow> 29 \<le> n \<and> n < 32"
proof -
  have m: "(0x7F :: 'a::len word) = mask 7" "(0x1F :: 'a::len word) = mask 5" "(0x80 :: u8) = push_bit 7 (mask 1)"
    "(0xE0 :: u8) = push_bit 5 (mask 3)" "(0xE0 :: u32) = push_bit 5 (mask 3)" "CBS_ASN1_TAG_NUMBER_MASK = mask 29"
    "(0xE0000000 :: u32) = push_bit 29 (mask 3)"
    by (simp_all add: mask_eq_exp_minus_1)
  show "bit (0x7F :: 'a::len word) n \<longleftrightarrow> n < LENGTH('a) \<and> n < 7"
    "bit (0x1F :: 'a::len word) n \<longleftrightarrow> n < LENGTH('a) \<and> n < 5"
    "bit (0x80 :: u8) n \<longleftrightarrow> n = 7" "bit (0xE0 :: u8) n \<longleftrightarrow> 5 \<le> n \<and> n < 8"
    "bit (0xE0 :: u32) n \<longleftrightarrow> 5 \<le> n \<and> n < 8" "bit CBS_ASN1_TAG_NUMBER_MASK n \<longleftrightarrow> n < 29"
    "bit (0xE0000000 :: u32) n \<longleftrightarrow> 29 \<le> n \<and> n < 32"
    unfolding m bit_push_bit_iff bit_mask_iff by auto
qed

lemma base128_step:
  fixes v :: u64 and b :: u8
  assumes "drop_bit 57 v = 0"
  defines "v' \<equiv> push_bit 7 v OR (ucast b AND 0x7F)"
  shows "drop_bit 7 v' = v" and "(ucast v' :: u8) AND 0x7F = b AND 0x7F"
    and "b AND 0x80 \<noteq> 0 \<Longrightarrow> (b AND 0x7F) OR 0x80 = b" and "b AND 0x80 = 0 \<Longrightarrow> b AND 0x7F = b"
    and "v' = 0 \<Longrightarrow> v = 0 \<and> b AND 0x7F = 0"
proof -
  have top: "\<not> bit v n" if "57 \<le> n" for n
  proof
    assume "bit v n"
    then have "bit (drop_bit 57 v) (n - 57)" using that by (simp add: bit_drop_bit_eq)
    then show False by (simp add: assms(1))
  qed
  show d: "drop_bit 7 v' = v"
  proof (rule bit_word_eqI)
    fix n assume "n < LENGTH(64)"
    show "bit (drop_bit 7 v') n \<longleftrightarrow> bit v n"
      using top[of n] by (cases "57 \<le> n") (auto simp: v'_def const_bits bit_simps dest: bit_imp_le_length)
  qed
  show u: "(ucast v' :: u8) AND 0x7F = b AND 0x7F"
    by (rule bit_word_eqI) (auto simp: v'_def const_bits bit_simps)
  show "(b AND 0x7F) OR 0x80 = b" if "b AND 0x80 \<noteq> 0"
  proof (rule bit_word_eqI)
    fix n assume "n < LENGTH(8)"
    then show "bit ((b AND 0x7F) OR 0x80) n \<longleftrightarrow> bit b n"
      using that unfolding and_80_zero_iff by (cases "n = 7") (auto simp: const_bits bit_simps)
  qed
  show "b AND 0x7F = b" if "b AND 0x80 = 0"
  proof (rule bit_word_eqI)
    fix n assume "n < LENGTH(8)"
    then show "bit (b AND 0x7F) n \<longleftrightarrow> bit b n"
      using that unfolding and_80_zero_iff by (cases "n = 7") (auto simp: const_bits bit_simps)
  qed
  show "v = 0 \<and> b AND 0x7F = 0" if "v' = 0"
    using d u that by auto
qed

lemma base128_loop_sound: "base128_loop v cbs = Ok w rest \<Longrightarrow> base128_hi v @ cbs = base128 w @ rest"
proof (induction v cbs rule: base128_loop.induct)
  case (2 v b cbs)
  have h: "drop_bit 57 v = 0" "\<not> (v = 0 \<and> b = 0x80)" using 2(2) by (auto split: if_splits)
  define v' where "v' = push_bit 7 v OR (ucast b AND 0x7F)"
  note st = base128_step[OF h(1), of b, folded v'_def]
  have run: "(if b AND 0x80 \<noteq> 0 then base128_loop v' cbs else Ok v' cbs) = Ok w rest"
    using 2(2) h by (auto simp: Let_def v'_def)
  show ?case
  proof (cases "b AND 0x80 = 0")
    case False
    have "v' \<noteq> 0" using st(3)[OF False] st(5) h(2) by auto
    then have "base128_hi v' = base128_hi v @ [b]"
      using st(1-3) False by (subst base128_hi.simps) simp
    moreover have "base128_hi v' @ cbs = base128 w @ rest"
      using 2(1)[OF _ h(2), of v'] h(1) False run by (auto simp: v'_def)
    ultimately show ?thesis by simp
  next
    case True
    then show ?thesis using run st(1,2,4) by (auto simp: base128_def)
  qed
qed simp

lemma base128_loop_prefix: "base128_loop 0 (base128_hi u @ cs) = base128_loop u cs"
proof (induction u arbitrary: cs rule: base128_hi.induct)
  case (1 u)
  show ?case
  proof (cases "u = 0")
    case True
    then show ?thesis by (subst base128_hi.simps) simp
  next
    case False
    let ?d = "(ucast u AND 0x7F) OR 0x80 :: u8"
    have d57: "drop_bit (64 - 7) (drop_bit 7 u) = 0" by (rule bit_word_eqI) (auto simp: bit_simps dest: bit_imp_le_length)
    have cont: "?d AND 0x80 \<noteq> 0" unfolding and_80_zero_iff by (simp add: const_bits bit_simps)
    have nz: "\<not> (drop_bit 7 u = 0 \<and> ?d = 0x80)"
    proof
      assume a: "drop_bit 7 u = 0 \<and> ?d = 0x80"
      have "\<not> bit u n" for n
      proof (cases "n < 7")
        case True
        have "bit ?d n = bit (0x80 :: u8) n" using a by simp
        then show ?thesis using True by (simp add: const_bits bit_simps)
      next
        case False
        then have "bit u n = bit (drop_bit 7 u) (n - 7)" by (simp add: bit_drop_bit_eq)
        then show ?thesis using a by simp
      qed
      then have "u = 0" by (intro bit_word_eqI) simp
      then show False using False by simp
    qed
    have join: "push_bit 7 (drop_bit 7 u) OR (ucast ?d AND 0x7F) = u"
    proof (rule bit_word_eqI)
      fix n assume "n < LENGTH(64)"
      then show "bit (push_bit 7 (drop_bit 7 u) OR (ucast ?d AND 0x7F)) n \<longleftrightarrow> bit u n"
        by (cases "n < 7") (auto simp: const_bits bit_simps)
    qed
    have "base128_loop 0 (base128_hi u @ cs) = base128_loop 0 (base128_hi (drop_bit 7 u) @ ?d # cs)"
      using False by (subst base128_hi.simps) simp
    also have "\<dots> = base128_loop (drop_bit 7 u) (?d # cs)" by (rule 1[OF False])
    also have "\<dots> = base128_loop u cs"
      using d57 cont nz by (simp only: base128_loop.simps Let_def join simp_thms if_True if_False)
    finally show ?thesis .
  qed
qed

lemma base128_loop_complete: "base128_loop 0 (base128 w @ rest) = Ok w rest"
proof -
  let ?d = "ucast w AND 0x7F :: u8"
  have d57: "drop_bit (64 - 7) (drop_bit 7 w) = 0" by (rule bit_word_eqI) (auto simp: bit_simps dest: bit_imp_le_length)
  have stop: "?d AND 0x80 = 0" unfolding and_80_zero_iff by (simp add: const_bits bit_simps)
  then have nz: "\<not> (drop_bit 7 w = 0 \<and> ?d = 0x80)" by auto
  have join: "push_bit 7 (drop_bit 7 w) OR (ucast ?d AND 0x7F) = w"
  proof (rule bit_word_eqI)
    fix n assume "n < LENGTH(64)"
    then show "bit (push_bit 7 (drop_bit 7 w) OR (ucast ?d AND 0x7F)) n \<longleftrightarrow> bit w n"
      by (cases "n < 7") (auto simp: const_bits bit_simps)
  qed
  have "base128_loop 0 (base128 w @ rest) = base128_loop (drop_bit 7 w) (?d # rest)"
    using base128_loop_prefix[of "drop_bit 7 w" "?d # rest"] by (simp add: base128_def)
  also have "\<dots> = Ok w rest"
    using d57 stop nz by (simp only: base128_loop.simps Let_def join if_True if_False simp_thms)
  finally show ?thesis .
qed

lemma parse_base128_exact [cbs_exact]: "parse_base128_integer cbs = Ok w rest \<longleftrightarrow> cbs = base128 w @ rest"
  using base128_loop_sound[of 0 cbs w rest] base128_loop_complete[of w rest]
  by (auto simp: parse_base128_integer_def base128_hi.simps[of 0])

text \<open>The identifier bytes of a tag: its class and form in three bits, its number in five or base 128.\<close>

definition tag_class :: "u32 \<Rightarrow> u8" where
  "tag_class tag = ucast (drop_bit 24 tag) AND 0xE0"

definition tag_number :: "u32 \<Rightarrow> u32" where
  "tag_number tag = tag AND CBS_ASN1_TAG_NUMBER_MASK"

definition der_tag :: "u32 \<Rightarrow> bytes" where
  "der_tag tag = (if tag_number tag < 0x1F then [tag_class tag OR ucast (tag_number tag)]
                  else (tag_class tag OR 0x1F) # base128 (ucast (tag_number tag)))"

lemma tag_join:
  fixes b :: u8 and n :: u32
  assumes "n AND CBS_ASN1_TAG_NUMBER_MASK = n"
  defines "tag \<equiv> push_bit CBS_ASN1_TAG_SHIFT (ucast b AND 0xE0) OR n"
  shows "tag_number tag = n" and "tag_class tag = b AND 0xE0"
proof -
  have n: "bit n i \<longrightarrow> i < 29" for i using assms(1) by (metis bit_and_iff const_bits(6))
  show "tag_number tag = n"
    by (rule bit_word_eqI) (use n in \<open>auto simp: tag_number_def tag_def const_bits bit_simps\<close>)
  show "tag_class tag = b AND 0xE0"
  proof (rule bit_word_eqI)
    fix i assume i: "i < LENGTH(8)"
    have "5 \<le> i \<longrightarrow> \<not> bit n (24 + i)" using n[of "24 + i"] by auto
    then show "bit (tag_class tag) i \<longleftrightarrow> bit (b AND 0xE0) i"
      using i by (auto simp: tag_class_def tag_def const_bits bit_simps)
  qed
qed

lemma tag_rejoin: "push_bit CBS_ASN1_TAG_SHIFT (ucast (tag_class tag OR x) AND 0xE0) OR tag_number tag = tag"
  if "x AND 0xE0 = 0"
proof (rule bit_word_eqI)
  fix i assume i: "i < LENGTH(32)"
  have x: "5 \<le> j \<and> j < 8 \<longrightarrow> \<not> bit x j" for j using that by (metis bit_and_iff bit_0_eq bot_apply bot_bool_def const_bits(4))
  show "bit (push_bit CBS_ASN1_TAG_SHIFT (ucast (tag_class tag OR x) AND 0xE0) OR tag_number tag) i \<longleftrightarrow> bit tag i"
    using i x[of "i - 24"] by (cases "i < 29") (auto simp: tag_class_def tag_number_def const_bits bit_simps)
qed

lemma byte_split: "(b AND 0xE0) OR (b AND 0x1F) = (b :: u8)"
  by (rule bit_word_eqI) (auto simp: const_bits bit_simps)

lemma low5: "ucast (ucast b AND 0x1F :: u32) = (b AND 0x1F :: u8)" "(ucast b AND 0x1F :: u32) = ucast (b AND 0x1F :: u8)"
  by (rule bit_word_eqI; auto simp: const_bits bit_simps)+

lemma bit_of_small: "unat w < 2 ^ k \<Longrightarrow> bit w i \<Longrightarrow> i < k" for w :: "'a::len word"
proof (rule ccontr)
  assume a: "unat w < 2 ^ k" "bit w i" "\<not> i < k"
  have "(2::nat) ^ k \<le> 2 ^ i" using a(3) by (intro power_increasing) auto
  then have "unat w div 2 ^ i = 0" using a(1) by (intro div_less) linarith
  then have "\<not> bit (unat w) i" by (simp add: bit_iff_odd)
  moreover have "bit (unat w) i" using a(2) bit_imp_le_length[of w i] by (simp add: bit_unsigned_iff)
  ultimately show False by simp
qed

lemma small_and_mask: "unat w < 2 ^ k \<Longrightarrow> w AND mask k = (w :: 'a::len word)"
  by (rule bit_word_eqI) (auto simp: bit_simps dest: bit_of_small bit_imp_le_length)

lemma take_bit_self: "take_bit k w = w \<longleftrightarrow> unat w < 2 ^ k" for w :: "'a::len word"
proof
  assume "take_bit k w = w"
  then have "unat w = unat w mod 2 ^ k" by (metis take_bit_eq_mod unsigned_take_bit_eq)
  then show "unat w < 2 ^ k" by (metis mod_less_divisor zero_less_numeral zero_less_power)
next
  assume "unat w < 2 ^ k"
  then show "take_bit k w = w" by (intro bit_word_eqI) (auto simp: bit_simps dest: bit_of_small)
qed

lemma low5_class:
  fixes n :: u32
  assumes "n < 0x1F"
  shows "ucast (tag_class tag OR ucast n) AND 0x1F = n" and "ucast n AND (0xE0 :: u8) = 0"
proof -
  have n: "i < 5" if "bit n i" for i
    using bit_of_small[OF _ that, of 5] assms by (simp add: word_less_nat_alt)
  show "ucast (tag_class tag OR ucast n) AND 0x1F = n"
  proof (rule bit_word_eqI)
    fix i assume i: "i < LENGTH(32)"
    show "bit (ucast (tag_class tag OR ucast n) AND 0x1F :: u32) i \<longleftrightarrow> bit n i"
      using n[of i] i by (cases "i < 5") (auto simp: tag_class_def const_bits bit_simps)
  qed
  show "ucast n AND (0xE0 :: u8) = 0"
    by (rule bit_word_eqI) (use n in \<open>force simp: const_bits bit_simps\<close>)
qed

lemma low5_high: "ucast (tag_class tag OR 0x1F) AND 0x1F = (0x1F :: u32)" "(0x1F :: u8) AND 0xE0 = 0"
  by (rule bit_word_eqI; auto simp: const_bits bit_simps)+

lemma tag_number_mask: "tag_number tag AND CBS_ASN1_TAG_NUMBER_MASK = tag_number tag"
  by (simp add: tag_number_def and.assoc)

lemma tag_number_small: "unat (tag_number tag) < 2 ^ 29"
proof -
  have "tag_number tag = take_bit 29 tag"
    by (rule bit_word_eqI) (auto simp: tag_number_def const_bits bit_simps)
  then show ?thesis by (simp add: take_bit_eq_mod unat_mod)
qed

lemma small_tag_number: "ucast v AND CBS_ASN1_TAG_NUMBER_MASK = ucast v" "ucast (ucast v :: u32) = v"
  if "\<not> ucast CBS_ASN1_TAG_NUMBER_MASK < (v :: u64)"
proof -
  have v: "i < 29" if "bit v i" for i
    using bit_of_small[OF _ that, of 29] \<open>\<not> _ < v\<close> by (simp add: word_less_nat_alt)
  show "ucast v AND CBS_ASN1_TAG_NUMBER_MASK = ucast v" "ucast (ucast v :: u32) = v"
    by (rule bit_word_eqI; use v in \<open>force simp: const_bits bit_simps\<close>)+
qed

lemma CBS_get_u8_Cons: "CBS_get_u8 (b # rest) = Ok b rest"
  by (simp add: CBS_get_u8_exact)

lemma parse_low: "parse_asn1_tag (b # rest) = Ok (push_bit CBS_ASN1_TAG_SHIFT (ucast b AND 0xE0) OR n) rest"
  if "ucast b AND 0x1F = n" and "n \<noteq> 0x1F"
  using that by (simp add: parse_asn1_tag_def CBS_get_u8_Cons Let_def)

lemma parse_high:
  assumes "ucast b AND 0x1F = (0x1F :: u32)" and "\<not> ucast CBS_ASN1_TAG_NUMBER_MASK < v" and "\<not> v < 0x1F"
  shows "parse_asn1_tag (b # base128 v @ rest) = Ok (push_bit CBS_ASN1_TAG_SHIFT (ucast b AND 0xE0) OR ucast v) rest"
proof -
  have "parse_base128_integer (base128 v @ rest) = Ok v rest" by (simp add: parse_base128_exact)
  then show ?thesis using assms by (simp add: parse_asn1_tag_def CBS_get_u8_Cons Let_def)
qed

lemma low5_less: "(ucast b AND 0x1F :: u32) < 0x1F \<longleftrightarrow> (ucast (b :: u8) AND 0x1F :: u32) \<noteq> 0x1F"
proof -
  have "(ucast b AND 0x1F :: u32) = take_bit 5 (ucast b)"
    by (rule bit_word_eqI) (auto simp: const_bits bit_simps)
  then have "(ucast b AND 0x1F :: u32) \<le> 0x1F"
    by (simp add: word_le_nat_alt take_bit_eq_mod unat_mod)
  then show ?thesis by auto
qed

lemma ucast_ucast_tag: "ucast (ucast (w :: u32) :: u64) = w"
  by (rule bit_word_eqI) (auto simp: bit_simps)

lemma parse_asn1_tag_exact [cbs_exact]: "parse_asn1_tag cbs = Ok tag rest \<longleftrightarrow> cbs = der_tag tag @ rest"
proof
  assume p: "parse_asn1_tag cbs = Ok tag rest"
  then obtain b cs where cbs: "cbs = b # cs" by (auto simp: parse_asn1_tag_def cbs_exact)
  have tb: "tag_class tag = b AND 0xE0 \<and> tag_number tag = n"
    if "tag = push_bit CBS_ASN1_TAG_SHIFT (ucast b AND 0xE0) OR n" "n AND CBS_ASN1_TAG_NUMBER_MASK = n" for n
    unfolding that(1) using tag_join[OF that(2), of b] by simp
  show "cbs = der_tag tag @ rest"
  proof (cases "(ucast b AND 0x1F :: u32) = 0x1F")
    case True
    then obtain v where v: "cs = base128 v @ rest" "\<not> ucast CBS_ASN1_TAG_NUMBER_MASK < v" "\<not> v < 0x1F"
      "tag = push_bit CBS_ASN1_TAG_SHIFT (ucast b AND 0xE0) OR ucast v"
      using p unfolding parse_asn1_tag_def cbs by (auto simp: cbs_exact Let_def split: if_splits)
    note sm = small_tag_number[OF v(2)]
    have n: "tag_number tag = ucast v" and c: "tag_class tag = b AND 0xE0"
      using tb[OF v(4) sm(1)] by auto
    have "unat (ucast v :: u32) = unat v" using v(2)
      by (simp add: word_less_nat_alt unsigned_ucast_eq take_bit_nat_eq_self)
    then have "\<not> tag_number tag < 0x1F" using v(3) n by (simp add: word_less_nat_alt)
    moreover have "tag_class tag OR 0x1F = b"
      using byte_split[of b] low5[of b] True c by simp
    ultimately show ?thesis by (simp add: der_tag_def cbs v(1) n sm(2))
  next
    case False
    let ?n = "ucast b AND 0x1F :: u32"
    have v: "cs = rest" "tag = push_bit CBS_ASN1_TAG_SHIFT (ucast b AND 0xE0) OR ?n"
      using p False unfolding parse_asn1_tag_def cbs by (auto simp: cbs_exact Let_def)
    have "?n AND CBS_ASN1_TAG_NUMBER_MASK = ?n" by (rule bit_word_eqI) (auto simp: const_bits bit_simps)
    note t = tb[OF v(2) this]
    moreover have "tag_class tag OR ucast ?n = b" using t byte_split[of b] low5(1)[of b] by simp
    ultimately show ?thesis using low5_less[of b] False by (simp add: der_tag_def cbs v(1))
  qed
next
  assume cbs: "cbs = der_tag tag @ rest"
  show "parse_asn1_tag cbs = Ok tag rest"
  proof (cases "tag_number tag < 0x1F")
    case True
    note l = low5_class[OF True]
    have "cbs = (tag_class tag OR ucast (tag_number tag)) # rest" using cbs True by (simp add: der_tag_def)
    then show ?thesis
      using parse_low[OF l(1)] True tag_rejoin[OF l(2), of tag] by auto
  next
    case False
    have c: "cbs = (tag_class tag OR 0x1F) # base128 (ucast (tag_number tag)) @ rest"
      using cbs False by (simp add: der_tag_def)
    have u: "unat (ucast (tag_number tag) :: u64) = unat (tag_number tag)"
      using tag_number_small[of tag] by (simp add: unsigned_ucast_eq take_bit_nat_eq_self)
    have "\<not> ucast CBS_ASN1_TAG_NUMBER_MASK < (ucast (tag_number tag) :: u64)" "\<not> (ucast (tag_number tag) :: u64) < 0x1F"
      using tag_number_small[of tag] False by (auto simp: word_less_nat_alt u)
    from parse_high[OF low5_high(1)[of tag] this] tag_rejoin[OF low5_high(2), of tag]
    show ?thesis by (simp add: c ucast_ucast_tag)
  qed
qed

section \<open>DER elements\<close>

text \<open>
  The length bytes of \<open>n\<close>: one byte below 128, otherwise the number of the bytes of \<open>n\<close> and
  these bytes, highest first and without a leading zero.
\<close>

fun byte_len :: "nat \<Rightarrow> nat" where
  "byte_len n = (if n = 0 then 0 else Suc (byte_len (n div 256)))"

declare byte_len.simps [simp del]

definition der_length :: "nat \<Rightarrow> bytes" where
  "der_length n = (if n < 128 then [of_nat n]
                   else (0x80 OR of_nat (byte_len n)) # rev (le_bytes (byte_len n) (of_nat n :: u64)))"

definition der_header :: "u32 \<Rightarrow> nat \<Rightarrow> bytes" where
  "der_header tag n = der_tag tag @ der_length n"

definition der_element :: "u32 \<Rightarrow> bytes \<Rightarrow> bytes" where
  "der_element tag contents = der_header tag (length contents) @ contents"

lemma byte_len_iff: "byte_len n = Suc k \<longleftrightarrow> 256 ^ k \<le> n \<and> n < 256 ^ Suc k"
proof (induction k arbitrary: n)
  case 0
  show ?case by (subst byte_len.simps, subst byte_len.simps) (auto simp: div_eq_0_iff)
next
  case (Suc k)
  have "byte_len n = Suc (Suc k) \<longleftrightarrow> n \<noteq> 0 \<and> byte_len (n div 256) = Suc k"
    by (subst byte_len.simps) auto
  also have "\<dots> \<longleftrightarrow> n \<noteq> 0 \<and> 256 ^ k \<le> n div 256 \<and> n div 256 < 256 ^ Suc k"
    using Suc by simp
  also have "\<dots> \<longleftrightarrow> 256 ^ Suc k \<le> n \<and> n < 256 ^ Suc (Suc k)"
    using zero_less_power[of "256::nat" k]
    by (auto simp: less_eq_div_iff_mult_less_eq div_less_iff_less_mult mult.commute)
  finally show ?case .
qed

text \<open>The header read by the code: a tag and a length byte.\<close>

lemma header_exact:
  "bindo (parse_asn1_tag cbs) (\<lambda>tag h. bindo (CBS_get_u8 h) (\<lambda>length_byte h. Ok (tag, length_byte) h)) =
     Ok (tag, l) h \<longleftrightarrow> cbs = der_tag tag @ l # h"
  by (auto simp: cbs_exact)

text \<open>The long form, which the code accepts with one to four bytes that are not too many.\<close>

lemma long_length_exact:
  assumes "1 \<le> k" and "k \<le> 4"
  shows "cbs_get_u (of_nat k) h = Ok v r \<and> \<not> v < 128 \<and> drop_bit ((k - 1) * 8) v \<noteq> 0 \<longleftrightarrow>
    h = rev (le_bytes k v) @ r \<and> 128 \<le> unat v \<and> byte_len (unat v) = k"
proof -
  obtain j where k: "k = Suc j" using assms(1) by (cases k) auto
  have uk: "unat (of_nat k :: u64) = k" using assms by (simp add: unat_of_nat)
  have "cbs_get_u (of_nat k) h = Ok v r \<longleftrightarrow> h = rev (le_bytes k v) @ r \<and> unat v < 256 ^ k"
    using assms(2) by (simp add: cbs_get_u_exact uk take_bit_self power_mult)
  moreover have "drop_bit ((k - 1) * 8) v \<noteq> 0 \<longleftrightarrow> 256 ^ j \<le> unat v"
  proof -
    have "(2::nat) ^ (j * 8) = 256 ^ j" using power_mult[of "2::nat" 8 j] by (simp add: mult.commute)
    moreover have "drop_bit (j * 8) v = 0 \<longleftrightarrow> unat v div 2 ^ (j * 8) = 0"
      by (simp add: unat_drop_bit flip: unat_eq_zero)
    ultimately show ?thesis by (simp add: k div_eq_0_iff not_less)
  qed
  moreover have "\<not> v < 128 \<longleftrightarrow> 128 \<le> unat v" by (simp add: word_less_nat_alt not_less)
  ultimately show ?thesis unfolding k byte_len_iff by auto
qed

text \<open>Cutting an element off: its header, its contents and the rest.\<close>

lemma cut_element:
  assumes "cbs = hdr @ body"
  shows "cbs = out @ rest \<and> length out = length hdr + n \<longleftrightarrow>
    (\<exists>contents. out = hdr @ contents \<and> length contents = n \<and> body = contents @ rest)"
  using assms by (auto simp: append_eq_append_conv2)

definition short_case :: "CBS \<Rightarrow> u32 \<Rightarrow> u8 \<Rightarrow> CBS \<Rightarrow> CBS \<Rightarrow> CBS \<Rightarrow> u64 \<Rightarrow> bool" where
  "short_case cbs tag l h out rest hl \<longleftrightarrow> l AND 0x80 = 0 \<and> hl = CBS_len cbs - CBS_len h \<and>
     CBS_get_bytes (ucast l + hl) cbs = Ok out rest"

definition long_case :: "CBS \<Rightarrow> u32 \<Rightarrow> u8 \<Rightarrow> CBS \<Rightarrow> CBS \<Rightarrow> CBS \<Rightarrow> u64 \<Rightarrow> bool" where
  "long_case cbs tag l h out rest hl \<longleftrightarrow> l AND 0x80 \<noteq> 0 \<and>
     (\<exists>k v h'. k = ucast l AND 0x7F \<and> 1 \<le> unat k \<and> unat k \<le> 4 \<and> cbs_get_u k h = Ok v h' \<and>
        \<not> v < 128 \<and> drop_bit ((unat k - 1) * 8) v \<noteq> 0 \<and> hl = CBS_len cbs - CBS_len h + k \<and>
        \<not> v + (CBS_len cbs - CBS_len h) + k < v \<and> CBS_get_bytes (v + hl) cbs = Ok out rest)"

lemma shift_amount:
  assumes "k \<noteq> 0" and "\<not> 4 < (k :: u64)"
  shows "unat ((k - 1) * 8) = (unat k - 1) * 8" and "1 \<le> unat k" and "unat k \<le> 4"
proof -
  have k: "unat k \<noteq> 0" "unat k \<le> 4" using assms by (auto simp: word_less_nat_alt unat_eq_zero)
  then have "unat (k - 1) = unat k - 1" by (simp add: unat_sub_if')
  then show "unat ((k - 1) * 8) = (unat k - 1) * 8" using k(2) by (subst unat_mult_lem[THEN iffD1]) auto
  show "1 \<le> unat k" "unat k \<le> 4" using k by auto
qed

lemma any_element_after_header:
  assumes "bindo (parse_asn1_tag cbs) (\<lambda>tag h. bindo (CBS_get_u8 h) (\<lambda>length_byte h. Ok (tag, length_byte) h)) =
    Ok (tag', l) h"
  shows "CBS_get_any_asn1_element cbs = Ok (out, tag, hl) rest \<longleftrightarrow> tag' = tag \<and>
    (short_case cbs tag l h out rest hl \<or> long_case cbs tag l h out rest hl)"
proof (cases "l AND 0x80 = 0")
  case True
  then show ?thesis
    by (auto simp: CBS_get_any_asn1_element_def cbs_get_any_asn1_element_def assms short_case_def long_case_def Let_def)
next
  case False
  let ?k = "ucast l AND 0x7F :: u64"
  show ?thesis
  proof (cases "?k = 0 \<or> 4 < ?k")
    case True
    then have "\<not> (1 \<le> unat ?k \<and> unat ?k \<le> 4)"
      by (auto simp: word_less_nat_alt unat_eq_zero)
    then show ?thesis using False True
      by (auto simp: CBS_get_any_asn1_element_def cbs_get_any_asn1_element_def assms short_case_def long_case_def Let_def)
  next
    case in_range: False
    note k = shift_amount[of ?k]
    show ?thesis
      using False in_range k
      by (auto simp: CBS_get_any_asn1_element_def cbs_get_any_asn1_element_def assms short_case_def long_case_def Let_def
            ac_simps split: outcome.splits if_splits)
  qed
qed

lemma any_element_cases:
  "CBS_get_any_asn1_element cbs = Ok (out, tag, hl) rest \<longleftrightarrow>
    (\<exists>l h. cbs = der_tag tag @ l # h \<and>
      (short_case cbs tag l h out rest hl \<or> long_case cbs tag l h out rest hl))"
proof (cases "bindo (parse_asn1_tag cbs) (\<lambda>tag h. bindo (CBS_get_u8 h) (\<lambda>length_byte h. Ok (tag, length_byte) h))")
  case (Ok tl h)
  obtain tag' l where tl: "tl = (tag', l)" by (cases tl)
  have "cbs = der_tag t @ x # y \<longleftrightarrow> t = tag' \<and> x = l \<and> y = h" for t x y
    unfolding header_exact[symmetric] Ok tl by auto
  then show ?thesis
    using any_element_after_header[OF Ok[unfolded tl]] by auto
qed (use header_exact[of cbs] in \<open>auto simp: CBS_get_any_asn1_element_def cbs_get_any_asn1_element_def\<close>)

text \<open>The arithmetic on the lengths does not wrap around on inputs of less than \<open>2 ^ 63\<close> bytes.\<close>

lemma header_length_word:
  "CBS_len (der_tag tag @ l # h) - CBS_len h = of_nat (Suc (length (der_tag tag)))"
  by (simp add: CBS_len_def)

lemma and_80_unat: "(b :: u8) AND 0x80 = 0 \<longleftrightarrow> unat b < 128"
proof -
  have "unat b div 128 < 2" using unat_le_bound[of b] by simp
  then have "odd (unat b div 128) \<longleftrightarrow> unat b div 128 \<noteq> 0" by (auto simp: less_2_cases_iff)
  moreover have "bit b 7 \<longleftrightarrow> odd (unat b div 128)"
  proof -
    have "bit (unat b) 7 \<longleftrightarrow> bit b 7" using bit_imp_le_length[of b 7] by (simp add: bit_unsigned_iff)
    then show ?thesis by (simp add: bit_iff_odd)
  qed
  ultimately show ?thesis by (auto simp: and_80_zero_iff div_eq_0_iff)
qed

lemma unat_add_of_nat: "n + unat w < 2 ^ 64 \<Longrightarrow> unat (w + of_nat n :: u64) = n + unat w"
  by (simp add: unat_word_ariths unat_of_nat take_bit_nat_eq_self)

text \<open>Cutting off as many bytes as a word says, with the header.\<close>

lemma cut_element_word:
  assumes "cbs = hdr @ body" and "length cbs < 2 ^ 63" and "unat n < 2 ^ 63"
  shows "CBS_get_bytes (n + of_nat (length hdr)) cbs = Ok out rest \<longleftrightarrow>
    (\<exists>contents. out = hdr @ contents \<and> length contents = unat n \<and> body = contents @ rest)"
proof -
  have "length hdr < 2 ^ 63" using assms(1,2) by auto
  then have "unat (n + of_nat (length hdr)) = length hdr + unat n"
    using assms(3) by (intro unat_add_of_nat) auto
  then show ?thesis unfolding CBS_get_bytes_exact using cut_element[OF assms(1)] by simp
qed

lemma unat_ucast_u8: "unat (ucast (l :: u8) :: u64) = unat l"
  using unat_le_bound[of l] by (simp add: unsigned_ucast_eq take_bit_nat_eq_self)

lemma short_case_iff:
  assumes "length cbs < 2 ^ 63" and "cbs = der_tag tag @ l # h"
  shows "short_case cbs tag l h out rest hl \<longleftrightarrow>
    (\<exists>contents. unat l = length contents \<and> length contents < 128 \<and>
       out = der_tag tag @ l # contents \<and> hl = of_nat (Suc (length (der_tag tag))) \<and> h = contents @ rest)"
proof -
  let ?hdr = "der_tag tag @ [l]"
  have "CBS_get_bytes (ucast l + of_nat (length ?hdr)) cbs = Ok out rest \<longleftrightarrow>
    (\<exists>contents. out = ?hdr @ contents \<and> length contents = unat l \<and> h = contents @ rest)"
    using cut_element_word[of cbs ?hdr h "ucast l" out rest] assms unat_le_bound[of l]
    by (simp add: unat_ucast_u8 del: of_nat_Suc of_nat_add)
  moreover have "CBS_len cbs - CBS_len h = of_nat (length ?hdr)"
    using header_length_word[of tag l h] assms(2) by simp
  ultimately show ?thesis
    unfolding short_case_def and_80_unat by (auto simp del: of_nat_Suc of_nat_add)
qed

lemma byte_len_small: "1 \<le> byte_len n \<and> byte_len n \<le> 4 \<longleftrightarrow> n < 2 ^ 32" if "0 < n"
proof -
  have "byte_len n \<noteq> 0" using that by (subst byte_len.simps) simp
  then obtain j where j: "byte_len n = Suc j" using not0_implies_Suc by blast
  then have b: "256 ^ j \<le> n" "n < 256 ^ Suc j" using byte_len_iff by auto
  have "j \<le> 3 \<longleftrightarrow> n < 256 ^ 4"
  proof
    assume "j \<le> 3"
    then have "(256::nat) ^ Suc j \<le> 256 ^ 4" by (intro power_increasing) auto
    then show "n < 256 ^ 4" using b(2) by linarith
  next
    assume n: "n < 256 ^ 4"
    show "j \<le> 3"
    proof (rule ccontr)
      assume "\<not> j \<le> 3"
      then have "(256::nat) ^ 4 \<le> 256 ^ j" by (intro power_increasing) auto
      then show False using n b(1) by linarith
    qed
  qed
  then show ?thesis using j by simp
qed

text \<open>The length byte of the long form.\<close>

lemma byte_high_split:
  "m = 128 * q + r \<Longrightarrow> r < 128 \<Longrightarrow> q = 0 \<or> q = (1::nat) \<Longrightarrow> r = j \<and> \<not> m < 128 \<longleftrightarrow> m = 128 + j"
  by auto

lemma long_byte:
  fixes l :: u8
  assumes "j \<le> 4"
  shows "l AND 0x80 \<noteq> 0 \<and> unat (ucast l AND 0x7F :: u64) = j \<longleftrightarrow> l = 0x80 OR of_nat j"
proof -
  have j: "j = 0 \<or> j = 1 \<or> j = 2 \<or> j = 3 \<or> j = 4" using assms by auto
  have "(0x80 OR of_nat j :: u8) = of_nat (128 + j)" using j by auto
  moreover have "unat (of_nat (128 + j) :: u8) = 128 + j" using assms by (simp add: unat_of_nat take_bit_nat_eq_self del: of_nat_add)
  ultimately have "l = 0x80 OR of_nat j \<longleftrightarrow> unat l = 128 + j" by (auto simp: word_unat_eq_iff)
  moreover have "(ucast l AND 0x7F :: u64) = take_bit 7 (ucast l)"
    by (rule bit_word_eqI) (auto simp: const_bits bit_simps)
  then have "unat (ucast l AND 0x7F :: u64) = unat l mod 128"
    by (simp add: unat_mod unat_ucast_u8 take_bit_eq_mod)
  moreover have "unat l div 128 < 2" using unat_le_bound[of l] by simp
  then have q: "unat l div 128 = 0 \<or> unat l div 128 = 1" by linarith
  have "unat l mod 128 = j \<and> \<not> unat l < 128 \<longleftrightarrow> unat l = 128 + j"
    by (rule byte_high_split[OF mult_div_mod_eq[symmetric] _ q]) simp
  ultimately show ?thesis unfolding and_80_unat by auto
qed

lemma der_length_long: "128 \<le> n \<Longrightarrow>
  der_length n = (0x80 OR of_nat (byte_len n)) # rev (le_bytes (byte_len n) (of_nat n :: u64))"
  by (simp add: der_length_def)

lemma long_case_iff:
  assumes "length cbs < 2 ^ 63" and "cbs = der_tag tag @ l # h"
  shows "long_case cbs tag l h out rest hl \<longleftrightarrow>
    (\<exists>contents. 128 \<le> length contents \<and> length contents < 2 ^ 32 \<and>
       l # h = der_length (length contents) @ contents @ rest \<and> out = der_element tag contents \<and>
       hl = of_nat (length (der_header tag (length contents))))" (is "_ \<longleftrightarrow> ?r")
proof -
  have hlen: "of_nat (length (der_tag tag @ l # rev (le_bytes j v))) =
      CBS_len cbs - CBS_len h + (of_nat j :: u64)" for j and v :: u64
    using header_length_word[of tag l h] assms(2) by simp
  have cut: "CBS_get_bytes (of_nat n + (CBS_len cbs - CBS_len h + of_nat j)) cbs = Ok out rest \<longleftrightarrow>
      (\<exists>contents. out = der_tag tag @ l # rev (le_bytes j v) @ contents \<and> length contents = n \<and> h' = contents @ rest)"
    if "h = rev (le_bytes j v) @ h'" "n < 2 ^ 32" for j h' n and v :: u64
  proof -
    have "cbs = (der_tag tag @ l # rev (le_bytes j v)) @ h'" using that(1) assms(2) by simp
    moreover have u: "unat (of_nat n :: u64) = n" using that(2) by (simp add: unat_of_nat)
    moreover have "unat (of_nat n :: u64) < 2 ^ 63" unfolding u using that(2) by simp
    ultimately show ?thesis
      using cut_element_word[of cbs "der_tag tag @ l # rev (le_bytes j v)" h' "of_nat n" out rest] assms(1)
      unfolding hlen by simp
  qed
  show ?thesis
  proof
    assume "long_case cbs tag l h out rest hl"
    then obtain k v h' where l: "l AND 0x80 \<noteq> 0" "k = ucast l AND 0x7F" "1 \<le> unat k" "unat k \<le> 4"
      and u: "cbs_get_u k h = Ok v h'" "\<not> v < 128" "drop_bit ((unat k - 1) * 8) v \<noteq> 0"
      and hl: "hl = CBS_len cbs - CBS_len h + k" and b: "CBS_get_bytes (v + hl) cbs = Ok out rest"
      unfolding long_case_def by blast
    let ?j = "unat k" and ?n = "unat v"
    have v: "h = rev (le_bytes ?j v) @ h'" "128 \<le> ?n" "byte_len ?n = ?j"
      using long_length_exact[OF l(3,4), of h v h'] u by auto
    have n: "?n < 2 ^ 32" using byte_len_small[of ?n] v(2,3) l(3,4) by auto
    have lb: "l = 0x80 OR of_nat ?j" using long_byte[OF l(4), of l] l(1,2) by simp
    have "CBS_get_bytes (of_nat ?n + (CBS_len cbs - CBS_len h + of_nat ?j)) cbs = Ok out rest"
      using b hl by simp
    then obtain contents where c: "out = der_tag tag @ l # rev (le_bytes ?j v) @ contents"
      "length contents = ?n" "h' = contents @ rest"
      using cut[OF v(1) n] by auto
    have dl: "der_length (length contents) = l # rev (le_bytes ?j v)"
      using der_length_long[of ?n] v(2,3) c(2) lb by simp
    show ?r
      using v(1,2) n c dl hl hlen[of ?j v]
      by (intro exI[of _ contents]) (auto simp: der_element_def der_header_def)
  next
    assume ?r
    then obtain contents where c: "128 \<le> length contents" "length contents < 2 ^ 32"
      "l # h = der_length (length contents) @ contents @ rest" "out = der_element tag contents"
      "hl = of_nat (length (der_header tag (length contents)))" by auto
    let ?n = "length contents" and ?j = "byte_len (length contents)" and ?v = "of_nat (length contents) :: u64"
    have h: "h = rev (le_bytes ?j ?v) @ contents @ rest" and lb: "l = 0x80 OR of_nat ?j"
      using c(3) der_length_long[OF c(1)] by auto
    have "0 < ?n" using c(1) by linarith
    then have j: "1 \<le> ?j" "?j \<le> 4" using byte_len_small c(2) by blast+
    note lk = long_byte[OF j(2), of l, THEN iffD2, OF lb]
    have "(ucast l AND 0x7F :: u64) = of_nat (unat (ucast l AND 0x7F :: u64))" by simp
    then have k: "ucast l AND 0x7F = (of_nat ?j :: u64)" using lk by simp
    have v: "unat ?v = ?n" using c(2) by (simp add: unat_of_nat)
    have g: "cbs_get_u (of_nat ?j) h = Ok ?v (contents @ rest) \<and> \<not> ?v < 128 \<and> drop_bit ((?j - 1) * 8) ?v \<noteq> 0"
      using long_length_exact[OF j, of h ?v "contents @ rest"] h v c(1) by simp
    have hl: "hl = CBS_len cbs - CBS_len h + of_nat ?j"
      using hlen[of ?j ?v] c(5) der_length_long[OF c(1)] lb by (simp add: der_header_def)
    have b: "CBS_get_bytes (?v + hl) cbs = Ok out rest"
      using cut[OF h c(2)] c(4) der_length_long[OF c(1)] lb unfolding hl by (auto simp: der_element_def der_header_def)
    have "length (der_header tag ?n) \<le> length cbs"
      using c(3) assms(2) by (auto simp: der_header_def)
    then have "unat (?v + hl) = length (der_header tag ?n) + ?n"
      unfolding c(5) using c(2) assms(1) v by (subst unat_add_of_nat) auto
    then have no: "\<not> ?v + (CBS_len cbs - CBS_len h) + of_nat ?j < ?v"
      unfolding hl by (simp add: word_less_nat_alt v add.assoc)
    have uj: "unat (of_nat ?j :: u64) = ?j" using j by (simp add: unat_of_nat)
    show "long_case cbs tag l h out rest hl"
      unfolding long_case_def using lk k g hl b no j uj
      by (intro conjI exI[of _ "of_nat ?j"] exI[of _ ?v] exI[of _ "contents @ rest"]) simp_all
  qed
qed

text \<open>
  The parser of DER elements accepts exactly the canonical encodings: one identifier in its
  shortest form, the length in its shortest form and at most four bytes, and all the contents.
\<close>

lemma der_element_iff:
  assumes "length cbs < 2 ^ 63"
  shows "CBS_get_any_asn1_element cbs = Ok (out, tag, hl) rest \<longleftrightarrow>
    (\<exists>contents. length contents < 2 ^ 32 \<and> out = der_element tag contents \<and> cbs = out @ rest \<and>
       hl = of_nat (length (der_header tag (length contents))))"
proof
  assume "CBS_get_any_asn1_element cbs = Ok (out, tag, hl) rest"
  then obtain l h where c: "cbs = der_tag tag @ l # h"
    "short_case cbs tag l h out rest hl \<or> long_case cbs tag l h out rest hl"
    using any_element_cases by blast
  from c(2) show "\<exists>contents. length contents < 2 ^ 32 \<and> out = der_element tag contents \<and> cbs = out @ rest \<and>
       hl = of_nat (length (der_header tag (length contents)))"
  proof
    assume "short_case cbs tag l h out rest hl"
    then obtain contents where s: "unat l = length contents" "length contents < 128"
      "out = der_tag tag @ l # contents" "hl = of_nat (Suc (length (der_tag tag)))" "h = contents @ rest"
      using short_case_iff[OF assms c(1)] by auto
    have "l = of_nat (length contents)" unfolding s(1)[symmetric] by simp
    then have "der_length (length contents) = [l]" using s(2) by (simp add: der_length_def)
    then show ?thesis using s c(1) by (intro exI[of _ contents]) (auto simp: der_element_def der_header_def)
  next
    assume "long_case cbs tag l h out rest hl"
    then show ?thesis
      using long_case_iff[OF assms c(1)] c(1) by (auto simp: der_element_def der_header_def)
  qed
next
  assume "\<exists>contents. length contents < 2 ^ 32 \<and> out = der_element tag contents \<and> cbs = out @ rest \<and>
       hl = of_nat (length (der_header tag (length contents)))"
  then obtain contents where c: "length contents < 2 ^ 32" "out = der_element tag contents" "cbs = out @ rest"
    "hl = of_nat (length (der_header tag (length contents)))" by auto
  let ?n = "length contents"
  have "der_length ?n \<noteq> []" by (simp add: der_length_def)
  then obtain l ls where l: "der_length ?n = l # ls" by (cases "der_length ?n") auto
  define h where "h = ls @ contents @ rest"
  have cbs: "cbs = der_tag tag @ l # h" using c(2,3) l by (simp add: der_element_def der_header_def h_def)
  have "short_case cbs tag l h out rest hl \<or> long_case cbs tag l h out rest hl"
  proof (cases "?n < 128")
    case True
    then have "l = of_nat ?n" "ls = []" using l by (auto simp: der_length_def)
    moreover have "unat (of_nat ?n :: u8) = ?n" using True by (simp add: unat_of_nat take_bit_nat_eq_self)
    ultimately show ?thesis
      using short_case_iff[OF assms cbs] True c(2,4) l by (auto simp: der_element_def der_header_def h_def)
  next
    case False
    then show ?thesis
      using long_case_iff[OF assms cbs] c l by (intro disjI2) (auto simp: h_def intro!: exI[of _ contents])
  qed
  then show "CBS_get_any_asn1_element cbs = Ok (out, tag, hl) rest"
    using any_element_cases cbs by blast
qed

section \<open>Properties\<close>

text \<open>
  C4: CBS_get_any_asn1_element succeeds exactly when the input starts with a canonical DER element
  of less than \<open>2 ^ 32\<close> bytes of contents: the tag number in its shortest form, the length in its
  shortest form, and all the contents. It then returns this element, its tag, the length of its
  header and what follows, for inputs of less than \<open>2 ^ 63\<close> bytes.
\<close>

theorem der_parser_exact:
  assumes "length cbs < 2 ^ 63"
  shows "CBS_get_any_asn1_element cbs = Ok (out, tag, hl) rest \<longleftrightarrow>
    (\<exists>contents. length contents < 2 ^ 32 \<and> out = der_element tag contents \<and> cbs = out @ rest \<and>
       hl = of_nat (length (der_header tag (length contents))))"
  by (rule der_element_iff[OF assms])

lemma der_parser_exact_witness:
  "CBS_get_any_asn1_element [0x30, 3, 1, 2, 3, 9] = Ok ([0x30, 3, 1, 2, 3], 0x20000010, 2) [9]"
proof -
  have t: "der_tag 0x20000010 = [0x30]"
    by (simp add: der_tag_def tag_number_def tag_class_def)
  show ?thesis
    using der_parser_exact[of "[0x30, 3, 1, 2, 3, 9]" "[0x30, 3, 1, 2, 3]" "0x20000010" 2 "[9]"]
    by (simp add: der_element_def der_header_def der_length_def t exI[of _ "[1, 2, 3]"])
qed

lemma ber_flag:
  "cbs_get_any_asn1_element False cbs = Ok (out, tag, hl, ber) rest \<longleftrightarrow>
    \<not> ber \<and> cbs_get_any_asn1_element True cbs = Ok (out, tag, hl, False) rest"
proof (cases "bindo (parse_asn1_tag cbs) (\<lambda>tag h. bindo (CBS_get_u8 h) (\<lambda>length_byte h. Ok (tag, length_byte) h))")
  case (Ok tl h)
  obtain tag' l where tl: "tl = (tag', l)" by (cases tl)
  let ?k = "ucast l AND 0x7F :: u64"
  note d = cbs_get_any_asn1_element_def Ok tl Let_def
  consider (short) "l AND 0x80 = 0" | (zero) "l AND 0x80 \<noteq> 0" "?k = 0" | (many) "l AND 0x80 \<noteq> 0" "?k \<noteq> 0" "4 < ?k"
    | (long) "l AND 0x80 \<noteq> 0" "?k \<noteq> 0" "\<not> 4 < ?k" by blast
  then show ?thesis
  proof cases
    case long
    then show ?thesis
    proof (cases "cbs_get_u ?k h")
      case (Ok v h')
      show ?thesis
        by (cases "v < 128 \<or> drop_bit (unat ((?k - 1) * 8)) v = 0") (use long Ok in \<open>auto simp: d\<close>)
    qed (use long in \<open>simp_all add: d\<close>)
  qed (simp_all add: d, blast?)
qed (simp_all add: cbs_get_any_asn1_element_def)

text \<open>
  The BER parser and the DER parser agree: the DER parser accepts an element exactly when the BER
  parser accepts the same one and reports that it found nothing that only BER allows.
\<close>

theorem ber_parser_extends_der:
  "CBS_get_any_asn1_element cbs = Ok (out, tag, hl) rest \<longleftrightarrow>
    CBS_get_any_ber_asn1_element cbs = Ok (out, tag, hl, False) rest"
  unfolding CBS_get_any_asn1_element_def CBS_get_any_ber_asn1_element_def bindo_eq_Ok
  using ber_flag[of cbs out tag hl _ rest] by fastforce

end
