(* ===== verification/Cbb.thy ===== *)
theory Cbb
  imports Cbs
begin

text \<open>
  The byte-string writer of BoringSSL (src/crypto/bytestring/cbb.c), and the text form of object
  identifiers, which cbs.c writes with it.

  A CBB writes to the end of a buffer. Its child, when it has one, is a CBB whose contents get
  a length in front; children have children in turn. All of them share the buffer, so one state
  holds the buffer and the children from the outermost to the innermost, each under the pointer
  that the caller gave for it. A CBB pointer is \<open>None\<close> for the CBB that was initialised and
  \<open>Some p\<close> for a child; a pointer that is not among the children is a CBB whose \<open>base\<close> is
  null. The pointer given for a new child is none of the pointers in use above it.

  The allocator is a parameter: \<open>al n\<close> is None when it fails, otherwise the contents of the fresh
  block of \<open>n\<close> bytes. Within one CBB every request is for more bytes than the one before.
  \<open>NoResult\<close> is undefined behaviour: an access outside the buffer.
\<close>

type_synonym allocator = "u64 \<Rightarrow> bytes option"

section \<open>The buffer\<close>

record cbb_buffer_st =
  bf_buf :: bytes
  bf_len :: u64
  bf_cap :: u64
  bf_can_resize :: bool
  bf_error :: bool

record cbb_child =
  ch_ptr :: nat
  ch_offset :: u64
  ch_pending_len_len :: u8
  ch_is_asn1 :: bool

record CBB =
  cb_base :: "cbb_buffer_st option"
  cb_children :: "cbb_child list"

type_synonym cbb_ptr = "nat option"
type_synonym 'v base_op = "cbb_buffer_st \<Rightarrow> ('v, cbb_buffer_st) outcome"
type_synonym 'v cbb_op = "CBB \<Rightarrow> ('v, CBB) outcome"

text \<open>A failed operation sets the error flag of the buffer.\<close>

definition base_err :: "'v base_op" where
  "base_err base = Fail (base\<lparr>bf_error := True\<rparr>)"

text \<open>Bytes are stored inside the allocation.\<close>

definition store :: "nat \<Rightarrow> bytes \<Rightarrow> unit base_op" where
  "store i bs base =
     (if length (bf_buf base) < i + length bs then NoResult
      else Ok () (base\<lparr>bf_buf := take i (bf_buf base) @ bs @ drop (i + length bs) (bf_buf base)\<rparr>))"

definition load :: "nat \<Rightarrow> nat \<Rightarrow> bytes base_op" where
  "load i n base =
     (if length (bf_buf base) < i + n then NoResult else Ok (take n (drop i (bf_buf base))) base)"

text \<open>The output of \<open>cbb_buffer_reserve\<close> and \<open>cbb_buffer_add\<close> is the offset in the buffer that they return a pointer to.\<close>

definition cbb_buffer_reserve :: "allocator \<Rightarrow> u64 \<Rightarrow> u64 base_op" where
  "cbb_buffer_reserve al len base =
     (let newlen = bf_len base + len in
      if newlen < bf_len base then base_err base
      else if bf_cap base < newlen then
        if \<not> bf_can_resize base then base_err base
        else let newcap = bf_cap base * 2;
                 newcap = (if newcap < bf_cap base \<or> newcap < newlen then newlen else newcap)
             in (case al newcap of
                   None \<Rightarrow> base_err base
                 | Some fresh \<Rightarrow>
                     Ok (bf_len base) (base\<lparr>bf_buf := bf_buf base @ drop (length (bf_buf base)) fresh, bf_cap := newcap\<rparr>))
      else Ok (bf_len base) base)"

definition cbb_buffer_add :: "allocator \<Rightarrow> u64 \<Rightarrow> u64 base_op" where
  "cbb_buffer_add al len base =
     bindo (cbb_buffer_reserve al len base) (\<lambda>out base. Ok out (base\<lparr>bf_len := bf_len base + len\<rparr>))"

text \<open>The loop that stores a number from its last byte to its first, and what is left of it then.\<close>

fun put_be :: "nat \<Rightarrow> u64 \<Rightarrow> bytes \<Rightarrow> bytes \<times> u64" where
  "put_be 0 v bs = (bs, v)"
| "put_be (Suc i) v bs = put_be i (drop_bit 8 v) (ucast v # bs)"

definition cbb_buffer_add_u :: "allocator \<Rightarrow> u64 \<Rightarrow> u64 \<Rightarrow> unit base_op" where
  "cbb_buffer_add_u al v len_len base =
     (if len_len = 0 then Ok () base
      else bindo (cbb_buffer_add al len_len base) (\<lambda>out base.
             let (bs, v) = put_be (unat len_len) v [] in
             bindo (store (unat out) bs base) (\<lambda>_ base. if v \<noteq> 0 then base_err base else Ok () base)))"

section \<open>Starting and finishing\<close>

definition CBB_zero :: CBB where
  "CBB_zero = \<lparr>cb_base = None, cb_children = []\<rparr>"

text \<open>\<open>ok\<close> is whether the buffer's own structure can be allocated.\<close>

definition cbb_init :: "bool \<Rightarrow> bytes \<Rightarrow> u64 \<Rightarrow> unit cbb_op" where
  "cbb_init ok buf cap cbb =
     (if \<not> ok then Fail cbb
      else Ok () (cbb\<lparr>cb_base := Some \<lparr>bf_buf = buf, bf_len = 0, bf_cap = cap, bf_can_resize = True, bf_error = False\<rparr>\<rparr>))"

definition CBB_init :: "allocator \<Rightarrow> bool \<Rightarrow> u64 \<Rightarrow> (unit, CBB) outcome" where
  "CBB_init al ok initial_capacity =
     (let buf = al initial_capacity in
      if 0 < initial_capacity \<and> buf = None then Fail CBB_zero
      else cbb_init ok (case buf of None \<Rightarrow> [] | Some b \<Rightarrow> b) initial_capacity CBB_zero)"

definition CBB_init_fixed :: "bool \<Rightarrow> bytes \<Rightarrow> u64 \<Rightarrow> (unit, CBB) outcome" where
  "CBB_init_fixed ok buf len =
     bindo (cbb_init ok buf len CBB_zero) (\<lambda>_ cbb. Ok () (cbb\<lparr>cb_base := map_option (\<lambda>b. b\<lparr>bf_can_resize := False\<rparr>) (cb_base cbb)\<rparr>))"

definition CBB_cleanup :: "cbb_ptr \<Rightarrow> CBB \<Rightarrow> CBB" where
  "CBB_cleanup p cbb = (if p \<noteq> None then cbb else cbb\<lparr>cb_base := None\<rparr>)"

section \<open>Flushing\<close>

text \<open>
  The length bytes of an ASN.1 child: how many there are, the first one, and the length that the
  others hold.
\<close>

definition asn1_len_len :: "u64 \<Rightarrow> (u8 \<times> u8 \<times> u64) option" where
  "asn1_len_len len =
     (if 0xfffffffe < len then None
      else if 0xffffff < len then Some (5, 0x80 OR 4, len)
      else if 0xffff < len then Some (4, 0x80 OR 3, len)
      else if 0xff < len then Some (3, 0x80 OR 2, len)
      else if 0x7f < len then Some (2, 0x80 OR 1, len)
      else Some (1, ucast len, 0))"

text \<open>The contents are moved along to make space, and the first byte is stored.\<close>

definition flush_asn1 :: "allocator \<Rightarrow> u64 \<Rightarrow> u64 \<Rightarrow> cbb_child \<Rightarrow> (u64 \<times> cbb_child) base_op" where
  "flush_asn1 al child_start len child base =
     (case asn1_len_len len of
        None \<Rightarrow> base_err base
      | Some (len_len, initial_length_byte, len) \<Rightarrow>
          bindo (if len_len \<noteq> 1 then
                   let extra_bytes = ucast (len_len - 1) in
                   (case cbb_buffer_add al extra_bytes base of
                      Ok _ base \<Rightarrow>
                        bindo (load (unat child_start) (unat len) base) (\<lambda>contents base.
                          store (unat (child_start + extra_bytes)) contents base)
                    | Fail base \<Rightarrow> base_err base
                    | NoResult \<Rightarrow> NoResult)
                 else Ok () base) (\<lambda>_ base.
          bindo (store (unat (ch_offset child)) [initial_length_byte] base) (\<lambda>_ base.
            Ok (len, child\<lparr>ch_offset := ch_offset child + 1, ch_pending_len_len := len_len - 1\<rparr>) base)))"

text \<open>The length is stored in front of the contents of a child.\<close>

definition close_child :: "allocator \<Rightarrow> u64 \<Rightarrow> u64 \<Rightarrow> cbb_child \<Rightarrow> unit base_op" where
  "close_child al child_start len child base =
     bindo (if ch_is_asn1 child then flush_asn1 al child_start len child base else Ok (len, child) base)
       (\<lambda>(len, child) base.
          let (bs, len) = put_be (unat (ch_pending_len_len child)) len [] in
          bindo (store (unat (ch_offset child)) bs base) (\<lambda>_ base. if len \<noteq> 0 then base_err base else Ok () base))"

text \<open>\<open>CBB_flush\<close> of a CBB with the given children; its state is the buffer and these children.\<close>

fun cbb_flush :: "allocator \<Rightarrow> cbb_buffer_st \<Rightarrow> cbb_child list \<Rightarrow> (unit, cbb_buffer_st \<times> cbb_child list) outcome" where
  "cbb_flush al base [] = (if bf_error base then Fail (base, []) else Ok () (base, []))"
| "cbb_flush al base (child # cs) =
     (if bf_error base then Fail (base, child # cs)
      else if ch_pending_len_len child = 0 then Ok () (base, child # cs)
      else let child_start = ch_offset child + ucast (ch_pending_len_len child) in
        (case cbb_flush al base cs of
           NoResult \<Rightarrow> NoResult
         | Fail (base, cs) \<Rightarrow> Fail (base\<lparr>bf_error := True\<rparr>, child # cs)
         | Ok _ (base, cs) \<Rightarrow>
             if child_start < ch_offset child \<or> bf_len base < child_start
             then Fail (base\<lparr>bf_error := True\<rparr>, child # cs)
             else let len = bf_len base - child_start in
               (case close_child al child_start len child base of
                  Ok _ base \<Rightarrow> Ok () (base, [])
                | Fail base \<Rightarrow> Fail (base, child # cs)
                | NoResult \<Rightarrow> NoResult)))"

text \<open>The children of the CBB at a pointer, behind those it is one of.\<close>

fun split_children :: "cbb_ptr \<Rightarrow> cbb_child list \<Rightarrow> (cbb_child list \<times> cbb_child list) option" where
  "split_children None cs = Some ([], cs)"
| "split_children (Some p) [] = None"
| "split_children (Some p) (c # cs) =
     (if ch_ptr c = p then Some ([c], cs) else map_option (\<lambda>(a, b). (c # a, b)) (split_children (Some p) cs))"

definition CBB_flush :: "allocator \<Rightarrow> cbb_ptr \<Rightarrow> unit cbb_op" where
  "CBB_flush al p cbb =
     (case (cb_base cbb, split_children p (cb_children cbb)) of
        (Some base, Some (outer, inner)) \<Rightarrow>
          (case cbb_flush al base inner of
             Ok _ (base, inner) \<Rightarrow> Ok () \<lparr>cb_base = Some base, cb_children = outer @ inner\<rparr>
           | Fail (base, inner) \<Rightarrow> Fail \<lparr>cb_base = Some base, cb_children = outer @ inner\<rparr>
           | NoResult \<Rightarrow> NoResult)
      | _ \<Rightarrow> Fail cbb)"

text \<open>An operation on the buffer, after a flush.\<close>

definition on_base :: "'v base_op \<Rightarrow> 'v cbb_op" where
  "on_base f cbb =
     (case cb_base cbb of
        None \<Rightarrow> Fail cbb
      | Some base \<Rightarrow> (case f base of
            Ok v base \<Rightarrow> Ok v (cbb\<lparr>cb_base := Some base\<rparr>)
          | Fail base \<Rightarrow> Fail (cbb\<lparr>cb_base := Some base\<rparr>)
          | NoResult \<Rightarrow> NoResult))"

text \<open>The data and its length; both outputs are asked for.\<close>

definition CBB_finish :: "allocator \<Rightarrow> cbb_ptr \<Rightarrow> (bytes \<times> u64) cbb_op" where
  "CBB_finish al p cbb =
     (if p \<noteq> None then Fail cbb
      else bindo (CBB_flush al p cbb) (\<lambda>_ cbb.
        case cb_base cbb of
          None \<Rightarrow> NoResult
        | Some base \<Rightarrow> Ok (bf_buf base, bf_len base) (CBB_cleanup p cbb)))"

section \<open>Where a CBB starts\<close>

text \<open>The offset of the contents of the CBB at a pointer; None for a null base or a CBB with a child.\<close>

definition contents_start :: "cbb_ptr \<Rightarrow> CBB \<Rightarrow> u64 option" where
  "contents_start p cbb =
     (case split_children p (cb_children cbb) of
        Some (outer, []) \<Rightarrow>
          Some (if outer = [] then 0 else ch_offset (last outer) + ucast (ch_pending_len_len (last outer)))
      | _ \<Rightarrow> None)"

definition CBB_data :: "cbb_ptr \<Rightarrow> CBB \<Rightarrow> (u64, CBB) outcome" where
  "CBB_data p cbb =
     (case (cb_base cbb, contents_start p cbb) of (Some base, Some s) \<Rightarrow> Ok s cbb | _ \<Rightarrow> NoResult)"

definition CBB_len :: "cbb_ptr \<Rightarrow> CBB \<Rightarrow> (u64, CBB) outcome" where
  "CBB_len p cbb =
     (case (cb_base cbb, contents_start p cbb) of
        (Some base, Some s) \<Rightarrow> if bf_len base < s then NoResult else Ok (bf_len base - s) cbb
      | _ \<Rightarrow> NoResult)"

section \<open>Children\<close>

text \<open>A new child replaces the children of its CBB.\<close>

definition new_child :: "cbb_ptr \<Rightarrow> cbb_child \<Rightarrow> CBB \<Rightarrow> CBB" where
  "new_child p child cbb =
     (case split_children p (cb_children cbb) of
        None \<Rightarrow> cbb
      | Some (outer, inner) \<Rightarrow> cbb\<lparr>cb_children := outer @ [child]\<rparr>)"

definition base_len :: "CBB \<Rightarrow> u64" where
  "base_len cbb = (case cb_base cbb of None \<Rightarrow> 0 | Some base \<Rightarrow> bf_len base)"

definition cbb_add_length_prefixed :: "allocator \<Rightarrow> cbb_ptr \<Rightarrow> nat \<Rightarrow> u8 \<Rightarrow> unit cbb_op" where
  "cbb_add_length_prefixed al p out_contents len_len cbb =
     bindo (CBB_flush al p cbb) (\<lambda>_ cbb.
       let offset = base_len cbb in
       bindo (on_base (cbb_buffer_add al (ucast len_len)) cbb) (\<lambda>prefix_bytes cbb.
         bindo (on_base (store (unat prefix_bytes) (replicate (unat len_len) 0)) cbb) (\<lambda>_ cbb.
           Ok () (new_child p \<lparr>ch_ptr = out_contents, ch_offset = offset, ch_pending_len_len = len_len, ch_is_asn1 = False\<rparr> cbb))))"

definition CBB_add_u8_length_prefixed :: "allocator \<Rightarrow> cbb_ptr \<Rightarrow> nat \<Rightarrow> unit cbb_op" where
  "CBB_add_u8_length_prefixed al p out_contents cbb = cbb_add_length_prefixed al p out_contents 1 cbb"

definition CBB_add_u16_length_prefixed :: "allocator \<Rightarrow> cbb_ptr \<Rightarrow> nat \<Rightarrow> unit cbb_op" where
  "CBB_add_u16_length_prefixed al p out_contents cbb = cbb_add_length_prefixed al p out_contents 2 cbb"

definition CBB_add_u24_length_prefixed :: "allocator \<Rightarrow> cbb_ptr \<Rightarrow> nat \<Rightarrow> unit cbb_op" where
  "CBB_add_u24_length_prefixed al p out_contents cbb = cbb_add_length_prefixed al p out_contents 3 cbb"

definition CBB_discard_child :: "cbb_ptr \<Rightarrow> CBB \<Rightarrow> CBB" where
  "CBB_discard_child p cbb =
     (case split_children p (cb_children cbb) of
        Some (outer, child # _) \<Rightarrow>
          cbb\<lparr>cb_base := map_option (\<lambda>b. b\<lparr>bf_len := ch_offset child\<rparr>) (cb_base cbb), cb_children := outer\<rparr>
      | _ \<Rightarrow> cbb)"

section \<open>Bytes and numbers\<close>

definition CBB_add_u8 :: "allocator \<Rightarrow> cbb_ptr \<Rightarrow> u8 \<Rightarrow> unit cbb_op" where
  "CBB_add_u8 al p v cbb = bindo (CBB_flush al p cbb) (\<lambda>_ cbb. on_base (cbb_buffer_add_u al (ucast v) 1) cbb)"

definition CBB_add_u16 :: "allocator \<Rightarrow> cbb_ptr \<Rightarrow> u16 \<Rightarrow> unit cbb_op" where
  "CBB_add_u16 al p v cbb = bindo (CBB_flush al p cbb) (\<lambda>_ cbb. on_base (cbb_buffer_add_u al (ucast v) 2) cbb)"

definition CBB_add_u16le :: "allocator \<Rightarrow> cbb_ptr \<Rightarrow> u16 \<Rightarrow> unit cbb_op" where
  "CBB_add_u16le al p v cbb = CBB_add_u16 al p (CRYPTO_bswap2 v) cbb"

definition CBB_add_u24 :: "allocator \<Rightarrow> cbb_ptr \<Rightarrow> u32 \<Rightarrow> unit cbb_op" where
  "CBB_add_u24 al p v cbb = bindo (CBB_flush al p cbb) (\<lambda>_ cbb. on_base (cbb_buffer_add_u al (ucast v) 3) cbb)"

definition CBB_add_u32 :: "allocator \<Rightarrow> cbb_ptr \<Rightarrow> u32 \<Rightarrow> unit cbb_op" where
  "CBB_add_u32 al p v cbb = bindo (CBB_flush al p cbb) (\<lambda>_ cbb. on_base (cbb_buffer_add_u al (ucast v) 4) cbb)"

definition CBB_add_u32le :: "allocator \<Rightarrow> cbb_ptr \<Rightarrow> u32 \<Rightarrow> unit cbb_op" where
  "CBB_add_u32le al p v cbb = CBB_add_u32 al p (CRYPTO_bswap4 v) cbb"

definition CBB_add_u64 :: "allocator \<Rightarrow> cbb_ptr \<Rightarrow> u64 \<Rightarrow> unit cbb_op" where
  "CBB_add_u64 al p v cbb = bindo (CBB_flush al p cbb) (\<lambda>_ cbb. on_base (cbb_buffer_add_u al v 8) cbb)"

definition CBB_add_u64le :: "allocator \<Rightarrow> cbb_ptr \<Rightarrow> u64 \<Rightarrow> unit cbb_op" where
  "CBB_add_u64le al p v cbb = CBB_add_u64 al p (CRYPTO_bswap8 v) cbb"

definition CBB_add_space :: "allocator \<Rightarrow> cbb_ptr \<Rightarrow> u64 \<Rightarrow> u64 cbb_op" where
  "CBB_add_space al p len cbb = bindo (CBB_flush al p cbb) (\<lambda>_ cbb. on_base (cbb_buffer_add al len) cbb)"

definition CBB_add_bytes :: "allocator \<Rightarrow> cbb_ptr \<Rightarrow> bytes \<Rightarrow> unit cbb_op" where
  "CBB_add_bytes al p bs cbb =
     bindo (CBB_flush al p cbb) (\<lambda>_ cbb.
       bindo (on_base (cbb_buffer_add al (of_nat (length bs))) cbb) (\<lambda>dest cbb. on_base (store (unat dest) bs) cbb))"

definition CBB_add_zeros :: "allocator \<Rightarrow> cbb_ptr \<Rightarrow> u64 \<Rightarrow> unit cbb_op" where
  "CBB_add_zeros al p len cbb =
     bindo (CBB_add_space al p len cbb) (\<lambda>out cbb. on_base (store (unat out) (replicate (unat len) 0)) cbb)"

definition CBB_reserve :: "allocator \<Rightarrow> cbb_ptr \<Rightarrow> u64 \<Rightarrow> u64 cbb_op" where
  "CBB_reserve al p len cbb = bindo (CBB_flush al p cbb) (\<lambda>_ cbb. on_base (cbb_buffer_reserve al len) cbb)"

definition CBB_did_write :: "cbb_ptr \<Rightarrow> u64 \<Rightarrow> unit cbb_op" where
  "CBB_did_write p len cbb =
     (case (cb_base cbb, split_children p (cb_children cbb)) of
        (Some base, Some (outer, inner)) \<Rightarrow>
          let newlen = bf_len base + len in
          if inner \<noteq> [] \<or> newlen < bf_len base \<or> bf_cap base < newlen then Fail cbb
          else Ok () (cbb\<lparr>cb_base := Some (base\<lparr>bf_len := newlen\<rparr>)\<rparr>)
      | _ \<Rightarrow> NoResult)"

section \<open>ASN.1\<close>

text \<open>The number of base-128 digits.\<close>

function base128_len :: "u64 \<Rightarrow> nat" where
  "base128_len copy = (if copy = 0 then 0 else Suc (base128_len (drop_bit 7 copy)))"
  by pat_completeness auto

termination
  by (relation "measure unat") (auto dest: drop_bit_less[where k = 7])

declare base128_len.simps [simp del]

text \<open>The loop over the digits: \<open>i\<close> of them are still to write.\<close>

fun base128_digits :: "allocator \<Rightarrow> cbb_ptr \<Rightarrow> u64 \<Rightarrow> nat \<Rightarrow> unit cbb_op" where
  "base128_digits al p v 0 cbb = Ok () cbb"
| "base128_digits al p v (Suc i) cbb =
     (let byte = ucast (drop_bit (7 * i) v AND 0x7f) :: u8;
          byte = (if i \<noteq> 0 then byte OR 0x80 else byte)
      in bindo (CBB_add_u8 al p byte cbb) (\<lambda>_ cbb. base128_digits al p v i cbb))"

definition add_base128_integer :: "allocator \<Rightarrow> cbb_ptr \<Rightarrow> u64 \<Rightarrow> unit cbb_op" where
  "add_base128_integer al p v cbb =
     (let len_len = base128_len v; len_len = (if len_len = 0 then 1 else len_len)
      in base128_digits al p v len_len cbb)"

definition CBB_add_asn1 :: "allocator \<Rightarrow> cbb_ptr \<Rightarrow> nat \<Rightarrow> u32 \<Rightarrow> unit cbb_op" where
  "CBB_add_asn1 al p out_contents tag cbb =
     bindo (CBB_flush al p cbb) (\<lambda>_ cbb.
       let tag_bits = ucast (drop_bit CBS_ASN1_TAG_SHIFT tag) AND 0xe0 :: u8;
           tag_number = tag AND CBS_ASN1_TAG_NUMBER_MASK
       in bindo (if 0x1f \<le> tag_number
                 then bindo (CBB_add_u8 al p (tag_bits OR 0x1f) cbb) (\<lambda>_ cbb. add_base128_integer al p (ucast tag_number) cbb)
                 else CBB_add_u8 al p (tag_bits OR ucast tag_number) cbb) (\<lambda>_ cbb.
          let offset = base_len cbb in
          bindo (CBB_add_u8 al p 0 cbb) (\<lambda>_ cbb.
            Ok () (new_child p \<lparr>ch_ptr = out_contents, ch_offset = offset, ch_pending_len_len = 1, ch_is_asn1 = True\<rparr> cbb))))"

text \<open>A CBB on the stack of a function has a pointer that no CBB in use has.\<close>

definition local_ptr :: "CBB \<Rightarrow> nat" where
  "local_ptr cbb = Suc (foldr (\<lambda>c n. max (ch_ptr c) n) (cb_children cbb) 0)"

text \<open>The bytes of an unsigned number from the highest, without leading zeros, padded when the high bit is set.\<close>

fun uint64_bytes :: "allocator \<Rightarrow> nat \<Rightarrow> u64 \<Rightarrow> nat \<Rightarrow> bool \<Rightarrow> bool cbb_op" where
  "uint64_bytes al child v 0 started cbb = Ok started cbb"
| "uint64_bytes al child v (Suc n) started cbb =
     (let byte = ucast (drop_bit (8 * n) v) AND 0xff :: u8 in
      if \<not> started \<and> byte = 0 then uint64_bytes al child v n started cbb
      else bindo (if \<not> started \<and> byte AND 0x80 \<noteq> 0 then CBB_add_u8 al (Some child) 0 cbb else Ok () cbb) (\<lambda>_ cbb.
             bindo (CBB_add_u8 al (Some child) byte cbb) (\<lambda>_ cbb. uint64_bytes al child v n True cbb)))"

definition CBB_add_asn1_uint64 :: "allocator \<Rightarrow> cbb_ptr \<Rightarrow> u64 \<Rightarrow> unit cbb_op" where
  "CBB_add_asn1_uint64 al p v cbb =
     (let child = local_ptr cbb in
      bindo (CBB_add_asn1 al p child CBS_ASN1_INTEGER cbb) (\<lambda>_ cbb.
        bindo (uint64_bytes al child v 8 False cbb) (\<lambda>started cbb.
          bindo (if \<not> started then CBB_add_u8 al (Some child) 0 cbb else Ok () cbb) (\<lambda>_ cbb. CBB_flush al p cbb))))"

text \<open>The index of the first byte of a negative number that has to be written.\<close>

fun int64_start :: "bytes \<Rightarrow> nat \<Rightarrow> nat" where
  "int64_start u 0 = 0"
| "int64_start u (Suc start) =
     (if u ! Suc start = 0xff \<and> u ! start AND 0x80 \<noteq> 0 then int64_start u start else Suc start)"

fun int64_bytes_from :: "allocator \<Rightarrow> nat \<Rightarrow> bytes \<Rightarrow> nat \<Rightarrow> unit cbb_op" where
  "int64_bytes_from al child u 0 cbb = CBB_add_u8 al (Some child) (u ! 0) cbb"
| "int64_bytes_from al child u (Suc i) cbb =
     bindo (CBB_add_u8 al (Some child) (u ! Suc i) cbb) (\<lambda>_ cbb. int64_bytes_from al child u i cbb)"

definition CBB_add_asn1_int64 :: "allocator \<Rightarrow> cbb_ptr \<Rightarrow> u64 \<Rightarrow> unit cbb_op" where
  "CBB_add_asn1_int64 al p v cbb =
     (if 0 \<le> sint v then CBB_add_asn1_uint64 al p v cbb
      else let u = le_bytes 8 v; start = int64_start u 7; child = local_ptr cbb in
        bindo (CBB_add_asn1 al p child CBS_ASN1_INTEGER cbb) (\<lambda>_ cbb.
          bindo (int64_bytes_from al child u start cbb) (\<lambda>_ cbb. CBB_flush al p cbb)))"

definition CBB_add_asn1_octet_string :: "allocator \<Rightarrow> cbb_ptr \<Rightarrow> bytes \<Rightarrow> unit cbb_op" where
  "CBB_add_asn1_octet_string al p data cbb =
     (let child = local_ptr cbb in
      bindo (CBB_add_asn1 al p child CBS_ASN1_OCTETSTRING cbb) (\<lambda>_ cbb.
        bindo (CBB_add_bytes al (Some child) data cbb) (\<lambda>_ cbb. CBB_flush al p cbb)))"

definition CBB_add_asn1_bool :: "allocator \<Rightarrow> cbb_ptr \<Rightarrow> bool \<Rightarrow> unit cbb_op" where
  "CBB_add_asn1_bool al p v cbb =
     (let child = local_ptr cbb in
      bindo (CBB_add_asn1 al p child CBS_ASN1_BOOLEAN cbb) (\<lambda>_ cbb.
        bindo (CBB_add_u8 al (Some child) (if v then 0xff else 0) cbb) (\<lambda>_ cbb. CBB_flush al p cbb)))"

end
