(* ===== verification/Cbb_Flush.thy ===== *)
theory Cbb_Flush
  imports Cbb
begin

text \<open>
  What flushing a CBB leaves in its buffer: the data with the length of every pending child filled
  in. The buffer never leaves its allocation, every failure sets its error flag, and it fails only
  when the space, the allocator or the width of a length prefix forces it to.
\<close>

section \<open>The buffer\<close>

definition buf_data :: "cbb_buffer_st \<Rightarrow> bytes" where
  "buf_data b = take (unat (bf_len b)) (bf_buf b)"

definition wf_buf :: "cbb_buffer_st \<Rightarrow> bool" where
  "wf_buf b \<longleftrightarrow> length (bf_buf b) = unat (bf_cap b) \<and> bf_len b \<le> bf_cap b"

text \<open>An allocated block has the size that was asked for.\<close>

definition sized :: "allocator \<Rightarrow> bool" where
  "sized al \<longleftrightarrow> (\<forall>n m. al n = Some m \<longrightarrow> length m = unat n)"

text \<open>The number of bytes that are certain to fit.\<close>

definition never_fails :: "allocator \<Rightarrow> bool" where
  "never_fails al \<longleftrightarrow> (\<forall>n. al n \<noteq> None)"

definition limit :: "allocator \<Rightarrow> cbb_buffer_st \<Rightarrow> nat" where
  "limit al b = (if bf_can_resize b \<and> never_fails al then 2 ^ 64 - 1 else unat (bf_cap b))"

text \<open>From one buffer to a later one with other data.\<close>

definition becomes :: "allocator \<Rightarrow> cbb_buffer_st \<Rightarrow> bytes \<Rightarrow> cbb_buffer_st \<Rightarrow> bool" where
  "becomes al b d b' \<longleftrightarrow> wf_buf b' \<and> buf_data b' = d \<and> bf_error b' = bf_error b \<and> limit al b \<le> limit al b'"

text \<open>
  An operation that makes the data \<open>d\<close> of a buffer, and returns \<open>v\<close>, when \<open>q\<close> holds; otherwise, or
  when \<open>d\<close> is not certain to fit, it fails with the error flag set.
\<close>

definition makes :: "allocator \<Rightarrow> 'v base_op \<Rightarrow> cbb_buffer_st \<Rightarrow> 'v \<Rightarrow> bytes \<Rightarrow> bool \<Rightarrow> bool" where
  "makes al f b v d q \<longleftrightarrow>
     (case f b of
        Ok w b' \<Rightarrow> q \<and> w = v \<and> becomes al b d b'
      | Fail b' \<Rightarrow> \<not> (q \<and> length d \<le> limit al b) \<and> wf_buf b' \<and> bf_error b'
      | NoResult \<Rightarrow> False)"

lemma length_buf_data: "wf_buf b \<Longrightarrow> length (buf_data b) = unat (bf_len b)"
  by (simp add: buf_data_def wf_buf_def word_le_nat_alt)

lemma unat_plus: "unat a + unat b < 2 ^ 64 \<Longrightarrow> unat (a + b :: u64) = unat a + unat b"
  by (simp add: unat_word_ariths)

lemma plus_overflow: "a + b < (a :: u64) \<longleftrightarrow> 2 ^ 64 \<le> unat a + unat b"
proof -
  have "unat (a + b) = (unat a + unat b) mod 2 ^ 64" by (simp add: unat_word_ariths)
  moreover have "unat a < 2 ^ 64" "unat b < 2 ^ 64" using unat_le_bound[of a] unat_le_bound[of b] by auto
  ultimately show ?thesis
    by (cases "unat a + unat b < 2 ^ 64") (auto simp: word_less_nat_alt mod_if)
qed

lemma base_err_simp: "base_err b = Fail (b\<lparr>bf_error := True\<rparr>)"
  by (simp add: base_err_def)

lemma wf_error [simp]: "wf_buf (b\<lparr>bf_error := e\<rparr>) = wf_buf b"
  by (simp add: wf_buf_def)

lemma becomes_refl: "wf_buf b \<Longrightarrow> becomes al b (buf_data b) b"
  by (simp add: becomes_def)

lemma limit_bound: "limit al b < 2 ^ 64"
  using unat_le_bound[of "bf_cap b"] by (simp add: limit_def)

lemma cap_le_limit: "unat (bf_cap b) \<le> limit al b"
  using unat_le_bound[of "bf_cap b"] by (simp add: limit_def)

text \<open>A larger allocation keeps the data.\<close>

lemma regrow:
  assumes wf: "wf_buf b" and fresh: "length fresh = unat c" and c: "bf_cap b \<le> c" and rs: "bf_can_resize b"
  defines "b' \<equiv> b\<lparr>bf_buf := bf_buf b @ drop (length (bf_buf b)) fresh, bf_cap := c\<rparr>"
  shows "becomes al b (buf_data b) b' \<and> bf_len b' = bf_len b"
proof -
  have l: "unat (bf_len b) \<le> length (bf_buf b)" "length (bf_buf b) \<le> unat c"
    using wf c by (auto simp: wf_buf_def word_le_nat_alt)
  have "length (bf_buf b') = unat c" using l fresh by (simp add: b'_def)
  moreover have "bf_len b' \<le> c" using wf c by (auto simp: b'_def wf_buf_def)
  moreover have "limit al b \<le> limit al b'" using c rs by (auto simp: limit_def b'_def word_le_nat_alt)
  ultimately show ?thesis using l
    by (auto simp: becomes_def wf_buf_def buf_data_def b'_def)
qed

lemma reserve_makes:
  assumes wf: "wf_buf b" and al: "sized al"
  shows "case cbb_buffer_reserve al n b of
      Ok v b' \<Rightarrow> v = bf_len b \<and> becomes al b (buf_data b) b' \<and> bf_len b' = bf_len b \<and>
        unat (bf_len b) + unat n \<le> unat (bf_cap b')
    | Fail b' \<Rightarrow> \<not> unat (bf_len b) + unat n \<le> limit al b \<and> wf_buf b' \<and> bf_error b'
    | NoResult \<Rightarrow> False"
proof (cases "bf_len b + n < bf_len b")
  case True
  then have "2 ^ 64 \<le> unat (bf_len b) + unat n" by (simp only: plus_overflow)
  then show ?thesis using True limit_bound[of al b] wf
    by (simp add: cbb_buffer_reserve_def base_err_simp)
next
  case nowrap: False
  then have sum: "unat (bf_len b + n) = unat (bf_len b) + unat n"
    unfolding plus_overflow by (intro unat_plus) simp
  show ?thesis
  proof (cases "bf_cap b < bf_len b + n")
    case False
    then have "unat (bf_len b) + unat n \<le> unat (bf_cap b)" using sum by (simp add: not_less word_le_nat_alt)
    then show ?thesis using False nowrap
      by (simp add: cbb_buffer_reserve_def Let_def becomes_refl[OF wf])
  next
    case big: True
    let ?c = "if bf_cap b * 2 < bf_cap b \<or> bf_cap b * 2 < bf_len b + n then bf_len b + n else bf_cap b * 2"
    have c: "bf_len b + n \<le> ?c" "bf_cap b \<le> ?c" using big by auto
    have small: "unat (bf_cap b) < unat (bf_len b) + unat n" using big sum by (simp add: word_less_nat_alt)
    show ?thesis
    proof (cases "bf_can_resize b \<and> al ?c \<noteq> None")
      case False
      then have "\<not> (bf_can_resize b \<and> never_fails al)" unfolding never_fails_def by blast
      then have "limit al b = unat (bf_cap b)" unfolding limit_def by (rule if_not_P)
      then show ?thesis using False nowrap big small wf
        by (auto simp: cbb_buffer_reserve_def base_err_simp Let_def)
    next
      case True
      then obtain fresh where f: "al ?c = Some fresh" by auto
      then have "length fresh = unat ?c" using al by (auto simp: sized_def)
      from regrow[OF wf this c(2)] True f nowrap big c(1) sum
      show ?thesis by (auto simp: cbb_buffer_reserve_def Let_def word_le_nat_alt)
    qed
  qed
qed

lemma limit_len [simp]: "limit al (b\<lparr>bf_len := n\<rparr>) = limit al b" "limit al (b\<lparr>bf_buf := m\<rparr>) = limit al b"
  by (simp_all add: limit_def)

lemma makes_bindo:
  assumes f: "makes al f b v d q" and g: "\<And>b'. becomes al b d b' \<Longrightarrow> q \<Longrightarrow> makes al (g v) b' w d' q'"
    and l: "length d \<le> length d'"
  shows "makes al (\<lambda>b. bindo (f b) g) b w d' (q \<and> q')"
proof (cases "f b")
  case (Ok u b')
  then have b': "u = v" "becomes al b d b'" q using f by (auto simp: makes_def)
  have "limit al b \<le> limit al b'" using b'(2) by (simp add: becomes_def)
  then show ?thesis using g[OF b'(2,3)] b' Ok
    by (auto simp: makes_def becomes_def split: outcome.splits)
next
  case (Fail b')
  then show ?thesis using f l by (auto simp: makes_def)
next
  case NoResult
  then show ?thesis using f by (simp add: makes_def)
qed

lemma makes_Ok: "wf_buf b \<Longrightarrow> buf_data b = d \<Longrightarrow> makes al (Ok v) b v d True"
  by (auto simp: makes_def becomes_def)

lemma makes_err: "wf_buf b \<Longrightarrow> makes al base_err b v d False"
  by (simp add: makes_def base_err_def)

text \<open>New bytes at the end: the place for them, then the bytes.\<close>

lemma add_makes:
  assumes wf: "wf_buf b" and al: "sized al"
  shows "\<exists>junk. length junk = unat n \<and> makes al (cbb_buffer_add al n) b (bf_len b) (buf_data b @ junk) True"
proof (cases "cbb_buffer_reserve al n b")
  case (Ok v b')
  note r = reserve_makes[OF wf al, of n, unfolded Ok outcome.case]
  then have b': "v = bf_len b" "wf_buf b'" "buf_data b' = buf_data b" "bf_error b' = bf_error b" "bf_len b' = bf_len b"
    "limit al b \<le> limit al b'" "unat (bf_len b) + unat n \<le> unat (bf_cap b')"
    by (auto simp: becomes_def)
  let ?b = "b'\<lparr>bf_len := bf_len b' + n\<rparr>"
  have sum: "unat (bf_len b + n) = unat (bf_len b) + unat n"
    using b'(7) unat_le_bound[of "bf_cap b'"] by (intro unat_plus) simp
  have buf: "length (bf_buf b') = unat (bf_cap b')" using b'(2) by (simp add: wf_buf_def)
  let ?junk = "take (unat n) (drop (unat (bf_len b)) (bf_buf b'))"
  have d: "take (unat (bf_len b)) (bf_buf b') = buf_data b" using b'(1,3,5) by (simp add: buf_data_def)
  have "buf_data ?b = take (unat (bf_len b) + unat n) (bf_buf b')"
    unfolding buf_data_def using b'(5) sum by simp
  then have "buf_data ?b = buf_data b @ ?junk" by (simp add: take_add d)
  moreover have "wf_buf ?b" using buf b'(5,7) sum by (simp add: wf_buf_def word_le_nat_alt)
  ultimately have "makes al (cbb_buffer_add al n) b (bf_len b) (buf_data b @ ?junk) True"
    using b' by (simp add: makes_def cbb_buffer_add_def Ok becomes_def)
  moreover have "length ?junk = unat n" using b'(7) buf by simp
  ultimately show ?thesis by blast
next
  case (Fail b')
  then have "makes al (cbb_buffer_add al n) b (bf_len b) (buf_data b @ replicate (unat n) 0) True"
    using reserve_makes[OF wf al, of n] length_buf_data[OF wf] by (simp add: makes_def cbb_buffer_add_def)
  then show ?thesis by (metis length_replicate)
next
  case NoResult
  then show ?thesis using reserve_makes[OF wf al, of n] by simp
qed

lemma store_makes:
  assumes wf: "wf_buf b" and i: "i + length bs \<le> length (buf_data b)"
  shows "makes al (store i bs) b () (take i (buf_data b) @ bs @ drop (i + length bs) (buf_data b)) True"
proof -
  let ?d = "buf_data b" and ?n = "unat (bf_len b)"
  have l: "length ?d = ?n" by (rule length_buf_data[OF wf])
  have le: "?n \<le> length (bf_buf b)" using wf by (simp add: wf_buf_def word_le_nat_alt)
  obtain rest where rest: "bf_buf b = ?d @ rest" using append_take_drop_id[of ?n "bf_buf b"] by (metis buf_data_def)
  let ?e = "b\<lparr>bf_buf := take i (bf_buf b) @ bs @ drop (i + length bs) (bf_buf b)\<rparr>"
  let ?x = "take i ?d @ bs @ drop (i + length bs) ?d"
  have x: "length ?x = ?n" using i l by simp
  have e: "bf_buf ?e = ?x @ rest" using i by (simp add: rest)
  have "buf_data ?e = take ?n (?x @ rest)" unfolding buf_data_def[of ?e] e by simp
  also have "\<dots> = ?x" unfolding x[symmetric] by (rule append_eq_conv_conj[THEN iffD1, THEN conjunct1, symmetric, OF refl])
  finally have "buf_data ?e = ?x" .
  moreover have "wf_buf ?e" using wf i l le by (simp add: wf_buf_def)
  moreover have "store i bs b = Ok () ?e" using i l le by (simp add: store_def)
  ultimately show ?thesis by (simp add: makes_def becomes_def)
qed

lemma load_eq:
  assumes wf: "wf_buf b" and i: "i + n \<le> length (buf_data b)"
  shows "load i n b = Ok (take n (drop i (buf_data b))) b"
proof -
  have "unat (bf_len b) \<le> length (bf_buf b)" using wf by (simp add: wf_buf_def word_le_nat_alt)
  then show ?thesis using i length_buf_data[OF wf] by (simp add: load_def buf_data_def drop_take)
qed

lemma add_store_makes:
  assumes wf: "wf_buf b" and al: "sized al" and n: "unat n = length bs"
  shows "makes al (\<lambda>b. bindo (cbb_buffer_add al n b) (\<lambda>out. store (unat out) bs)) b () (buf_data b @ bs) True"
proof -
  obtain junk where j: "length junk = length bs"
    "makes al (cbb_buffer_add al n) b (bf_len b) (buf_data b @ junk) True"
    using add_makes[OF wf al, of n] n by auto
  have "makes al (store (unat (bf_len b)) bs) b' () (buf_data b @ bs) True"
    if "becomes al b (buf_data b @ junk) b'" for b'
    using store_makes[of b' "unat (bf_len b)" bs al] that j(1) length_buf_data[OF wf] by (simp add: becomes_def)
  from makes_bindo[where g = "\<lambda>out. store (unat out) bs", OF j(2) this] j(1) show ?thesis by simp
qed

section \<open>The length of a child\<close>

lemma put_be_eq: "put_be n v bs = (rev (le_bytes n v) @ bs, drop_bit (8 * n) v)"
  by (induction n v bs rule: put_be.induct) (simp_all add: drop_bit_drop_bit add.commute)

text \<open>What a child becomes: the length, then the contents.\<close>

definition prefix_len :: "cbb_child \<Rightarrow> nat" where
  "prefix_len c = unat (ch_pending_len_len c)"

definition child_encoding :: "cbb_child \<Rightarrow> bytes \<Rightarrow> bytes" where
  "child_encoding c contents =
     (if ch_is_asn1 c then der_length (length contents)
      else rev (le_bytes (prefix_len c) (of_nat (length contents) :: u64))) @ contents"

definition child_fits :: "cbb_child \<Rightarrow> nat \<Rightarrow> bool" where
  "child_fits c n = (if ch_is_asn1 c then n \<le> 0xfffffffe else n < 256 ^ prefix_len c)"

lemma long_length:
  assumes "256 ^ k \<le> unat len" and "unat len < 256 ^ Suc k" and "128 \<le> unat (len :: u64)"
  shows "der_length (unat len) = (0x80 OR of_nat (Suc k)) # rev (le_bytes (Suc k) len)" and "drop_bit (8 * Suc k) len = 0"
proof -
  have "byte_len (unat len) = Suc k" using byte_len_iff assms(1,2) by blast
  then show "der_length (unat len) = (0x80 OR of_nat (Suc k)) # rev (le_bytes (Suc k) len)"
    using assms(3) by (simp add: der_length_long del: of_nat_Suc le_bytes.simps)
  have "(2::nat) ^ (8 * Suc k) = (2 ^ 8) ^ Suc k" by (rule power_mult)
  then have "(2::nat) ^ (8 * Suc k) = 256 ^ Suc k" by simp
  then show "drop_bit (8 * Suc k) len = 0"
    using assms(2) by (simp only: unat_drop_bit unat_eq_zero[symmetric] div_less)
qed

lemma asn1_len_len_Some:
  assumes "asn1_len_len len = Some (len_len, initial, len')"
  shows "der_length (unat len) = initial # rev (le_bytes (unat len_len - 1) len')"
    and "drop_bit (8 * (unat len_len - 1)) len' = 0" and "len_len \<noteq> 1 \<Longrightarrow> len' = len"
    and "1 \<le> unat len_len" and "unat len_len \<le> 5"
proof -
  let ?goal = "der_length (unat len) = initial # rev (le_bytes (unat len_len - 1) len') \<and>
    drop_bit (8 * (unat len_len - 1)) len' = 0 \<and> (len_len \<noteq> 1 \<longrightarrow> len' = len) \<and> 1 \<le> unat len_len \<and> unat len_len \<le> 5"
  have long: ?goal if "256 ^ k \<le> unat len" "unat len < 256 ^ Suc k" "128 \<le> unat len"
      "len_len = of_nat (Suc (Suc k))" "initial = 0x80 OR of_nat (Suc k)" "len' = len" "k \<le> 3" for k
  proof -
    have "unat len_len = Suc (Suc k)" using that(4,7) by (simp add: unat_of_nat take_bit_nat_eq_self del: of_nat_Suc)
    then show ?thesis using long_length[OF that(1-3)] that(5-7) by (simp del: le_bytes.simps mult_Suc_right)
  qed
  have top: "\<not> 0xfffffffe < len" using assms by (cases "0xfffffffe < len") (simp_all add: asn1_len_len_def)
  note d = assms[unfolded asn1_len_len_def if_not_P[OF top]]
  consider "0xffffff < len" | "\<not> 0xffffff < len" "0xffff < len" | "\<not> 0xffffff < len" "\<not> 0xffff < len" "0xff < len"
    | "\<not> 0xffffff < len" "\<not> 0xffff < len" "\<not> 0xff < len" "0x7f < len"
    | "\<not> 0xffffff < len" "\<not> 0xffff < len" "\<not> 0xff < len" "\<not> 0x7f < len" by blast
  then have ?goal
  proof cases
    case 1
    then show ?thesis using d top by (intro long[of 3]) (auto simp: word_less_nat_alt)
  next
    case 2
    then show ?thesis using d by (intro long[of 2]) (auto simp: word_less_nat_alt)
  next
    case 3
    then show ?thesis using d by (intro long[of 1]) (auto simp: word_less_nat_alt)
  next
    case 4
    then show ?thesis using d by (intro long[of 0]) (auto simp: word_less_nat_alt)
  next
    case 5
    then have "unat len < 128" by (simp add: word_less_nat_alt)
    moreover have "(of_nat (unat len) :: u8) = ucast len" by simp
    ultimately show ?thesis using 5 d by (auto simp: der_length_def)
  qed
  then show "der_length (unat len) = initial # rev (le_bytes (unat len_len - 1) len')"
    "drop_bit (8 * (unat len_len - 1)) len' = 0" "len_len \<noteq> 1 \<Longrightarrow> len' = len"
    "1 \<le> unat len_len" "unat len_len \<le> 5" by auto
qed

lemma asn1_len_len_None: "asn1_len_len len = None \<longleftrightarrow> \<not> unat len \<le> 0xfffffffe"
  by (auto simp: asn1_len_len_def word_less_nat_alt)

text \<open>The contents are moved along to make space for a longer length.\<close>

definition make_space :: "allocator \<Rightarrow> u64 \<Rightarrow> u8 \<Rightarrow> u64 \<Rightarrow> unit base_op" where
  "make_space al child_start len_len len base =
     (if len_len \<noteq> 1 then
        let extra_bytes = ucast (len_len - 1) in
        (case cbb_buffer_add al extra_bytes base of
           Ok _ base \<Rightarrow>
             bindo (load (unat child_start) (unat len) base) (\<lambda>contents base.
               store (unat (child_start + extra_bytes)) contents base)
         | Fail base \<Rightarrow> base_err base
         | NoResult \<Rightarrow> NoResult)
      else Ok () base)"

lemma close_asn1:
  assumes "ch_is_asn1 c" and "asn1_len_len len = Some (len_len, initial, len')" and "drop_bit (8 * (unat len_len - 1)) len' = 0"
    and "1 \<le> unat len_len"
  shows "close_child al child_start len c b =
    bindo (make_space al child_start len_len len' b) (\<lambda>_ b.
      bindo (store (unat (ch_offset c)) [initial] b) (\<lambda>_ b.
        store (unat (ch_offset c + 1)) (rev (le_bytes (unat len_len - 1) len')) b))"
proof -
  have "unat (len_len - 1) = unat len_len - 1"
    using assms(4) by (simp add: unat_sub_if' Suc_le_eq)
  then show ?thesis
    using assms(1-3) by (simp add: close_child_def flush_asn1_def make_space_def put_be_eq cong: if_cong)
qed

lemma makes_goto_err:
  assumes f: "makes al f b v d q" and g: "\<And>b'. becomes al b d b' \<Longrightarrow> q \<Longrightarrow> makes al (g v) b' w d' q'"
    and l: "length d \<le> length d'"
  shows "makes al (\<lambda>b. case f b of Ok u b \<Rightarrow> g u b | Fail b \<Rightarrow> base_err b | NoResult \<Rightarrow> NoResult) b w d' (q \<and> q')"
proof (cases "f b")
  case (Fail b')
  then show ?thesis using f l by (auto simp: makes_def base_err_def)
qed (use makes_bindo[where g = g, OF f g l] in \<open>simp_all add: makes_def\<close>)

lemma make_space_makes:
  assumes wf: "wf_buf b" and al: "sized al" and d: "buf_data b = pre @ fill @ contents"
    and cs: "unat child_start = length pre + length fill" and ll: "1 \<le> unat len_len"
    and len: "len_len \<noteq> 1 \<Longrightarrow> unat len = length contents"
  shows "\<exists>junk. length junk = unat len_len - 1 \<and>
    makes al (make_space al child_start len_len len) b () (pre @ fill @ junk @ contents) True"
proof (cases "len_len = 1")
  case True
  then have "makes al (make_space al child_start len_len len) b () (pre @ fill @ [] @ contents) True"
    using makes_Ok[OF wf d] by (simp add: make_space_def makes_def)
  then show ?thesis using True by (intro exI[of _ "[]"]) simp
next
  case False
  let ?x = "ucast (len_len - 1) :: u64"
  have x: "unat ?x = unat len_len - 1" using ll by (simp add: unat_ucast_u8 unat_sub_if' Suc_le_eq)
  obtain junk where j: "length junk = unat len_len - 1"
    "makes al (cbb_buffer_add al ?x) b (bf_len b) (buf_data b @ junk) True"
    using add_makes[OF wf al, of ?x] x by auto
  let ?J = "take (unat len_len - 1) (contents @ junk)"
  have J: "length ?J = unat len_len - 1" using j(1) by simp
  have "makes al (\<lambda>b. bindo (load (unat child_start) (unat len) b) (\<lambda>contents b. store (unat (child_start + ?x)) contents b))
      b' () (pre @ fill @ ?J @ contents) True"
    if b': "becomes al b (buf_data b @ junk) b'" for b'
  proof -
    have w: "wf_buf b'" and d': "buf_data b' = pre @ fill @ contents @ junk" using b' d by (auto simp: becomes_def)
    have l: "length (buf_data b') < 2 ^ 64" using length_buf_data[OF w] unat_le_bound[of "bf_len b'"] by simp
    have s: "unat (child_start + ?x) = length pre + length fill + (unat len_len - 1)"
      using l d' j(1) cs x by (subst unat_plus) auto
    have "load (unat child_start) (unat len) b' = Ok contents b'"
      using load_eq[OF w, of "unat child_start" "unat len"] d' cs len[OF False] by simp
    moreover have "makes al (store (unat (child_start + ?x)) contents) b' () (pre @ fill @ ?J @ contents) True"
      using store_makes[OF w, of "unat (child_start + ?x)" contents al] j(1) d' s by simp
    ultimately show ?thesis by (simp add: makes_def)
  qed
  from makes_goto_err[where g = "\<lambda>_ b. bindo (load (unat child_start) (unat len) b) (\<lambda>contents b. store (unat (child_start + ?x)) contents b)",
      OF j(2) this] d j(1)
  have "makes al (make_space al child_start len_len len) b () (pre @ fill @ ?J @ contents) True"
    using False by (simp add: make_space_def makes_def Let_def)
  then show ?thesis using J by blast
qed

text \<open>A pending child: where it starts, what it reserves and what is in it.\<close>

definition pending :: "cbb_child \<Rightarrow> bool" where
  "pending c \<longleftrightarrow> 1 \<le> prefix_len c \<and> prefix_len c \<le> 7 \<and> (ch_is_asn1 c \<longrightarrow> prefix_len c = 1)"

lemma close_asn1_makes:
  assumes wf: "wf_buf b" and al: "sized al" and d: "buf_data b = pre @ fill @ contents"
    and off: "unat (ch_offset c) = length pre" and fill: "length fill = 1" and c: "ch_is_asn1 c"
    and cs: "unat child_start = length pre + 1" and len: "unat len = length contents"
  shows "makes al (close_child al child_start len c) b () (pre @ child_encoding c contents) (child_fits c (length contents))"
proof (cases "asn1_len_len len")
  case None
  then have "\<not> child_fits c (length contents)" using c len by (simp add: child_fits_def asn1_len_len_None)
  moreover have "close_child al child_start len c b = base_err b"
    using c None by (simp add: close_child_def flush_asn1_def base_err_def)
  ultimately show ?thesis using makes_err[OF wf] by (simp add: makes_def)
next
  case (Some t)
  obtain ll initial len' where t: "t = (ll, initial, len')" by (cases t) auto
  note a = asn1_len_len_Some[OF Some[unfolded t]]
  let ?bs = "rev (le_bytes (unat ll - 1) len')"
  have fits: "child_fits c (length contents)"
    using c len Some asn1_len_len_None[of len] by (simp add: child_fits_def)
  have enc: "pre @ child_encoding c contents = pre @ initial # ?bs @ contents"
    using a(1) c len by (simp add: child_encoding_def)
  obtain junk where j: "length junk = unat ll - 1"
    "makes al (make_space al child_start ll len') b () (pre @ fill @ junk @ contents) True"
    using make_space_makes[OF wf al d, of child_start ll len'] cs fill a(3,4) len by auto
  have total: "length pre + length fill + length junk + length contents < 2 ^ 64"
    if "becomes al b (pre @ fill @ junk @ contents) b'" for b'
    using that length_buf_data[of b'] unat_le_bound[of "bf_len b'"] by (auto simp: becomes_def)
  have step: "makes al (\<lambda>b. bindo (store (unat (ch_offset c)) [initial] b) (\<lambda>_. store (unat (ch_offset c + 1)) ?bs)) b' ()
      (pre @ initial # ?bs @ contents) (True \<and> True)"
    if b': "becomes al b (pre @ fill @ junk @ contents) b'" for b'
  proof (rule makes_bindo)
    have o1: "unat (ch_offset c + 1) = length pre + 1" using total[OF b'] fill off by (subst unat_plus) auto
    show "makes al (store (unat (ch_offset c)) [initial]) b' () (pre @ [initial] @ junk @ contents) True"
      using store_makes[of b' "length pre" "[initial]" al] b' fill off by (simp add: becomes_def)
    fix b'' assume b'': "becomes al b' (pre @ [initial] @ junk @ contents) b''"
    show "makes al (store (unat (ch_offset c + 1)) ?bs) b'' () (pre @ initial # ?bs @ contents) True"
      using store_makes[of b'' "length pre + 1" ?bs al] b'' j(1) by (simp add: becomes_def o1)
  qed (simp add: j(1))
  have "makes al (\<lambda>b. bindo (make_space al child_start ll len' b) (\<lambda>_ b. bindo (store (unat (ch_offset c)) [initial] b)
      (\<lambda>_. store (unat (ch_offset c + 1)) ?bs))) b () (pre @ initial # ?bs @ contents) (True \<and> True \<and> True)"
    by (rule makes_bindo[OF j(2)]) (use step fill j(1) in auto)
  then show ?thesis
    unfolding enc using fits close_asn1[OF c Some[unfolded t] a(2,4), of al child_start b]
    by (simp add: makes_def)
qed

lemma close_prefix_makes:
  assumes wf: "wf_buf b" and d: "buf_data b = pre @ fill @ contents"
    and off: "unat (ch_offset c) = length pre" and fill: "length fill = prefix_len c" and c: "\<not> ch_is_asn1 c"
    and len: "unat len = length contents"
  shows "makes al (close_child al child_start len c) b () (pre @ child_encoding c contents) (child_fits c (length contents))"
proof -
  let ?n = "prefix_len c"
  let ?bs = "rev (le_bytes ?n len)"
  have l: "len = of_nat (length contents)" unfolding len[symmetric] by simp
  have "(2::nat) ^ (8 * ?n) = (2 ^ 8) ^ ?n" by (rule power_mult)
  then have fits: "drop_bit (8 * ?n) len = 0 \<longleftrightarrow> child_fits c (length contents)"
    using c len by (simp add: child_fits_def unat_drop_bit div_eq_0_iff flip: unat_eq_zero)
  have enc: "pre @ child_encoding c contents = pre @ ?bs @ contents" using c l by (simp add: child_encoding_def)
  have st: "makes al (store (length pre) ?bs) b () (pre @ ?bs @ contents) True"
    using store_makes[OF wf, of "length pre" ?bs al] d fill by simp
  have cl: "close_child al child_start len c b = bindo (store (length pre) ?bs b)
      (\<lambda>_ b. if drop_bit (8 * ?n) len \<noteq> 0 then base_err b else Ok () b)"
    using c off by (simp add: close_child_def put_be_eq prefix_len_def)
  have "makes al (\<lambda>b. bindo (store (length pre) ?bs b) (\<lambda>_ b. if drop_bit (8 * ?n) len \<noteq> 0 then base_err b else Ok () b)) b ()
      (pre @ ?bs @ contents) (True \<and> child_fits c (length contents))"
  proof (rule makes_bindo[OF st])
    fix b' assume b': "becomes al b (pre @ ?bs @ contents) b'"
    then have "wf_buf b'" "buf_data b' = pre @ ?bs @ contents" by (auto simp: becomes_def)
    then show "makes al (\<lambda>b. if drop_bit (8 * ?n) len \<noteq> 0 then base_err b else Ok () b) b' () (pre @ ?bs @ contents)
        (child_fits c (length contents))"
      using fits makes_Ok[of b' _ al "()"] makes_err[of b' al "()"] by (cases "drop_bit (8 * ?n) len = 0") (auto simp: makes_def)
  qed simp
  then show ?thesis unfolding enc by (simp add: makes_def cl)
qed

lemma close_makes:
  assumes wf: "wf_buf b" and al: "sized al" and d: "buf_data b = pre @ fill @ contents"
    and off: "unat (ch_offset c) = length pre" and fill: "length fill = prefix_len c" and c: "pending c"
  shows "makes al (close_child al (ch_offset c + ucast (ch_pending_len_len c)) (of_nat (length contents)) c) b ()
    (pre @ child_encoding c contents) (child_fits c (length contents))"
proof -
  have "length (buf_data b) < 2 ^ 64" using length_buf_data[OF wf] unat_le_bound[of "bf_len b"] by simp
  then have n: "unat (of_nat (length contents) :: u64) = length contents"
    and cs: "unat (ch_offset c + ucast (ch_pending_len_len c)) = length pre + prefix_len c"
    using d fill off by (simp_all add: unat_of_nat take_bit_nat_eq_self unat_plus unat_ucast_u8 prefix_len_def)
  show ?thesis
  proof (cases "ch_is_asn1 c")
    case True
    then show ?thesis using close_asn1_makes[OF wf al d off _ True _ n] fill c cs by (simp add: pending_def)
  next
    case False
    then show ?thesis using close_prefix_makes[OF wf d off fill False n] by simp
  qed
qed

section \<open>Flushing\<close>

text \<open>
  The bytes from a position on, with all pending children closed; whether every length fits
  its prefix; and that the children lie one behind the other in the data.
\<close>

definition child_start :: "cbb_child \<Rightarrow> nat" where
  "child_start c = unat (ch_offset c) + prefix_len c"

fun finished :: "bytes \<Rightarrow> nat \<Rightarrow> cbb_child list \<Rightarrow> bytes" where
  "finished d pos [] = drop pos d"
| "finished d pos (c # cs) =
     take (unat (ch_offset c) - pos) (drop pos d) @ child_encoding c (finished d (child_start c) cs)"

fun lengths_fit :: "bytes \<Rightarrow> cbb_child list \<Rightarrow> bool" where
  "lengths_fit d [] = True"
| "lengths_fit d (c # cs) = (child_fits c (length (finished d (child_start c) cs)) \<and> lengths_fit d cs)"

fun nested :: "nat \<Rightarrow> nat \<Rightarrow> cbb_child list \<Rightarrow> bool" where
  "nested n pos [] = (pos \<le> n)"
| "nested n pos (c # cs) = (pending c \<and> pos \<le> unat (ch_offset c) \<and> nested n (child_start c) cs)"

lemma nested_le: "nested n pos cs \<Longrightarrow> pos \<le> n"
  by (induction cs arbitrary: pos) (auto simp: child_start_def, fastforce)

lemma length_der_length: "1 \<le> length (der_length n)"
  by (simp add: der_length_def)

lemma length_child_encoding: "pending c \<Longrightarrow> prefix_len c + length d \<le> length (child_encoding c d)"
  using length_der_length[of "length d"] by (auto simp: child_encoding_def pending_def)

lemma unat_eq_of_nat: "unat (w :: u64) = n \<Longrightarrow> w = of_nat n"
  by auto

lemma flush_makes:
  assumes "wf_buf b" and al: "sized al" and "\<not> bf_error b" and "nested (length (buf_data b)) pos cs"
  shows "case cbb_flush al b cs of
      Ok _ (b', cs') \<Rightarrow> cs' = [] \<and> lengths_fit (buf_data b) cs \<and>
        becomes al b (take pos (buf_data b) @ finished (buf_data b) pos cs) b'
    | Fail (b', cs') \<Rightarrow> \<not> (lengths_fit (buf_data b) cs \<and> pos + length (finished (buf_data b) pos cs) \<le> limit al b) \<and>
        wf_buf b' \<and> bf_error b'
    | NoResult \<Rightarrow> False"
  using assms(1,3,4)
proof (induction cs arbitrary: pos)
  case Nil
  then show ?case by (simp add: becomes_refl)
next
  case (Cons c cs)
  let ?d = "buf_data b" and ?off = "unat (ch_offset c)" and ?p = "prefix_len c"
  let ?in = "finished ?d (child_start c) cs"
  have c: "pending c" "pos \<le> ?off" "nested (length ?d) (child_start c) cs" using Cons.prems(3) by auto
  have st: "child_start c \<le> length ?d" using nested_le[OF c(3)] .
  then have "?off + ?p < 2 ^ 64"
    using length_buf_data[OF Cons.prems(1)] unat_le_bound[of "bf_len b"] by (simp add: child_start_def)
  then have start: "unat (ch_offset c + ucast (ch_pending_len_len c)) = child_start c"
    by (subst unat_plus) (simp_all add: unat_ucast_u8 prefix_len_def child_start_def)
  have p0: "ch_pending_len_len c \<noteq> 0" using c(1) by (auto simp: pending_def prefix_len_def)
  note IH = Cons.IH[OF Cons.prems(1,2) c(3)]
  have enc: "take pos ?d @ finished ?d pos (c # cs) = take ?off ?d @ child_encoding c ?in"
    using c(2) take_add[of pos "?off - pos" ?d] by simp
  have enc_len: "pos + length (finished ?d pos (c # cs)) = ?off + length (child_encoding c ?in)"
    using arg_cong[OF enc, of length] c(2) st by (simp add: child_start_def)
  have longer: "child_start c + length ?in \<le> ?off + length (child_encoding c ?in)"
    using length_child_encoding[OF c(1), of ?in] by (simp add: child_start_def)
  show ?case
  proof (cases "cbb_flush al b cs")
    case (Ok u s)
    obtain b1 cs1 where s: "s = (b1, cs1)" by (cases s)
    have b1: "lengths_fit ?d cs" "becomes al b (take (child_start c) ?d @ ?in) b1"
      using IH unfolding Ok s by auto
    then have w1: "wf_buf b1" and d1: "buf_data b1 = take (child_start c) ?d @ ?in" and lim: "limit al b \<le> limit al b1"
      by (auto simp: becomes_def)
    have len1: "unat (bf_len b1) = child_start c + length ?in"
      using length_buf_data[OF w1] d1 st by simp
    have diff: "bf_len b1 - (ch_offset c + ucast (ch_pending_len_len c)) = of_nat (length ?in)"
      unfolding unat_eq_of_nat[OF len1] unat_eq_of_nat[OF start] by simp
    have checks: "\<not> ch_offset c + ucast (ch_pending_len_len c) < ch_offset c"
      "\<not> bf_len b1 < ch_offset c + ucast (ch_pending_len_len c)"
      by (simp_all add: word_less_nat_alt start len1 child_start_def)
    have "buf_data b1 = take ?off ?d @ take ?p (drop ?off ?d) @ ?in"
      using d1 by (simp add: child_start_def take_add)
    from close_makes[OF w1 al this _ _ c(1)] st
    have cl: "makes al (close_child al (ch_offset c + ucast (ch_pending_len_len c)) (of_nat (length ?in)) c) b1 ()
        (take ?off ?d @ child_encoding c ?in) (child_fits c (length ?in))"
      by (simp add: child_start_def)
    have flush: "cbb_flush al b (c # cs) =
      (case close_child al (ch_offset c + ucast (ch_pending_len_len c)) (of_nat (length ?in)) c b1 of
         Ok _ base \<Rightarrow> Ok () (base, []) | Fail base \<Rightarrow> Fail (base, c # cs1) | NoResult \<Rightarrow> NoResult)"
      using Cons.prems(2) p0 Ok s checks by (simp add: diff Let_def)
    show ?thesis
    proof (cases "close_child al (ch_offset c + ucast (ch_pending_len_len c)) (of_nat (length ?in)) c b1")
      case (Ok v b2)
      then show ?thesis using cl b1(1) b1(2) lim
        unfolding flush enc by (auto simp: makes_def becomes_def)
    next
      case (Fail b2)
      then show ?thesis using cl lim enc_len unfolding flush by (auto simp: makes_def)
    next
      case NoResult
      then show ?thesis using cl by (simp add: makes_def)
    qed
  next
    case (Fail s)
    then show ?thesis using IH Cons.prems(2) p0 enc_len longer
      by (cases s) auto
  next
    case NoResult
    then show ?thesis using IH by simp
  qed
qed

end
