(* ===== verification/Cbb_Write.thy ===== *)
theory Cbb_Write
  imports Cbb_Flush
begin

text \<open>
  What the operations of a CBB write (src/crypto/bytestring/cbb.c). Every writing operation first
  flushes the CBB it is applied to, then appends its bytes to the data; a child whose contents
  were appended becomes, with the next flush, its length followed by these contents.
\<close>

section \<open>Operations on a CBB\<close>

text \<open>
  From the buffer \<open>b\<close> with the children \<open>cs\<close>, an operation makes the data \<open>d\<close> and leaves the children
  \<open>cs'\<close> when \<open>q\<close> holds; otherwise, or when \<open>d\<close> is not certain to fit, it fails with the error flag set.
\<close>

definition cmakes :: "allocator \<Rightarrow> 'v cbb_op \<Rightarrow> cbb_buffer_st \<Rightarrow> cbb_child list \<Rightarrow> 'v \<Rightarrow> bytes \<Rightarrow> cbb_child list \<Rightarrow> bool \<Rightarrow> bool" where
  "cmakes al f b cs v d cs' q \<longleftrightarrow>
     (case f \<lparr>cb_base = Some b, cb_children = cs\<rparr> of
        Ok w cbb \<Rightarrow> q \<and> w = v \<and> (\<exists>b'. cbb = \<lparr>cb_base = Some b', cb_children = cs'\<rparr> \<and> becomes al b d b')
      | Fail cbb \<Rightarrow> \<not> (q \<and> length d \<le> limit al b) \<and> (\<exists>b'. cb_base cbb = Some b' \<and> wf_buf b' \<and> bf_error b')
      | NoResult \<Rightarrow> False)"

lemma becomes_trans: "becomes al b d b' \<Longrightarrow> becomes al b' d' b'' \<Longrightarrow> becomes al b d' b''"
  by (auto simp: becomes_def)

lemma cmakes_bindo:
  assumes f: "cmakes al f b cs v d cs1 q"
    and g: "\<And>b'. becomes al b d b' \<Longrightarrow> q \<Longrightarrow> cmakes al (g v) b' cs1 w d' cs2 q'"
    and l: "length d \<le> length d'"
  shows "cmakes al (\<lambda>cbb. bindo (f cbb) g) b cs w d' cs2 (q \<and> q')"
proof (cases "f \<lparr>cb_base = Some b, cb_children = cs\<rparr>")
  case (Ok u cbb)
  then obtain b' where b': "u = v" "cbb = \<lparr>cb_base = Some b', cb_children = cs1\<rparr>" "becomes al b d b'" q
    using f by (auto simp: cmakes_def)
  have lim: "limit al b \<le> limit al b'" using b'(3) by (simp add: becomes_def)
  show ?thesis
  proof (cases "g v cbb")
    case (Ok x cbb')
    then show ?thesis using g[OF b'(3,4)] b' \<open>f _ = Ok u cbb\<close> becomes_trans[OF b'(3)]
      by (auto simp: cmakes_def)
  next
    case (Fail cbb')
    then show ?thesis using g[OF b'(3,4)] b' \<open>f _ = Ok u cbb\<close> lim by (auto simp: cmakes_def)
  next
    case NoResult
    then show ?thesis using g[OF b'(3,4)] b' by (simp add: cmakes_def)
  qed
next
  case (Fail cbb)
  then show ?thesis using f l by (auto simp: cmakes_def)
next
  case NoResult
  then show ?thesis using f by (simp add: cmakes_def)
qed

lemma cmakes_on_base: "makes al f b v d q \<Longrightarrow> cmakes al (on_base f) b cs v d cs q"
  by (auto simp: makes_def cmakes_def on_base_def split: outcome.splits)

lemma on_base_bindo: "bindo (on_base f cbb) (\<lambda>v. on_base (g v)) = on_base (\<lambda>b. bindo (f b) g) cbb"
proof (cases "cb_base cbb")
  case (Some b)
  show ?thesis
  proof (cases "f b")
    case (Ok v b')
    then show ?thesis using Some by (cases "g v b'") (simp_all add: on_base_def)
  qed (use Some in \<open>simp_all add: on_base_def\<close>)
qed (simp add: on_base_def)

section \<open>Handles\<close>

text \<open>Where the contents of a CBB start, given the children around it and itself.\<close>

definition start_of :: "cbb_child list \<Rightarrow> nat" where
  "start_of outer = (if outer = [] then 0 else child_start (last outer))"

lemma split_append: "split_children p cs = Some (outer, inner) \<Longrightarrow> cs = outer @ inner"
  by (induction p cs arbitrary: outer inner rule: split_children.induct) (auto split: if_splits)

lemma split_outer: "split_children p cs = Some (outer, inner) \<Longrightarrow> split_children p (outer @ inner') = Some (outer, inner')"
  by (induction p cs arbitrary: outer inner rule: split_children.induct) (auto split: if_splits)

lemma split_new: "ch_ptr c \<notin> ch_ptr ` set outer \<Longrightarrow> split_children (Some (ch_ptr c)) (outer @ [c]) = Some (outer @ [c], [])"
  by (induction outer) auto

lemma nested_append: "nested n pos (outer @ inner) \<longleftrightarrow>
    nested (if outer = [] then pos else start_of outer) pos outer \<and> nested n (if outer = [] then pos else start_of outer) inner"
proof (induction outer arbitrary: pos)
  case (Cons c outer)
  then show ?case by (cases "outer = []") (auto simp: start_of_def)
qed (auto dest: nested_le)

lemma nested_longer: "nested n pos cs \<Longrightarrow> n \<le> m \<Longrightarrow> nested m pos cs"
  by (induction cs arbitrary: pos) auto

lemma nested_outer:
  assumes "nested n 0 (outer @ inner)"
  shows "nested n (start_of outer) inner" and "start_of outer \<le> m \<Longrightarrow> nested m 0 outer"
  using assms nested_append[of n 0 outer inner] nested_longer[of "start_of outer" 0 outer m]
  by (auto simp: start_of_def split: if_splits)

text \<open>A buffer and children on which the operations work, and what flushing a CBB makes of the data.\<close>

definition live :: "cbb_buffer_st \<Rightarrow> cbb_child list \<Rightarrow> bool" where
  "live b cs \<longleftrightarrow> wf_buf b \<and> \<not> bf_error b \<and> nested (length (buf_data b)) 0 cs"

definition flushed :: "bytes \<Rightarrow> cbb_child list \<Rightarrow> cbb_child list \<Rightarrow> bytes" where
  "flushed d outer inner = take (start_of outer) d @ finished d (start_of outer) inner"

lemma flushed_Nil [simp]: "flushed d outer [] = d"
  by (simp add: flushed_def)

lemma live_becomes:
  assumes "live b (outer @ inner)" and "becomes al b d b'" and "start_of outer \<le> length d"
  shows "live b' outer"
  using assms nested_outer(2)[of "length (buf_data b)" outer inner "length d"] by (auto simp: live_def becomes_def)

lemma start_le_flushed: "live b (outer @ inner) \<Longrightarrow> start_of outer \<le> length (flushed (buf_data b) outer inner)"
  using nested_outer(1)[of "length (buf_data b)" outer inner] nested_le[of "length (buf_data b)" "start_of outer" inner]
  by (simp add: live_def flushed_def)

section \<open>Appending\<close>

text \<open>An operation on the CBB at \<open>p\<close> that appends \<open>bs\<close> to its contents.\<close>

definition appends :: "allocator \<Rightarrow> unit cbb_op \<Rightarrow> cbb_ptr \<Rightarrow> bytes \<Rightarrow> bool \<Rightarrow> bool" where
  "appends al f p bs q \<longleftrightarrow> (\<forall>b cs outer inner. live b cs \<longrightarrow> split_children p cs = Some (outer, inner) \<longrightarrow>
     cmakes al f b cs () (flushed (buf_data b) outer inner @ bs) outer (lengths_fit (buf_data b) inner \<and> q))"

lemma appendsD: "appends al f p bs q \<Longrightarrow> live b cs \<Longrightarrow> split_children p cs = Some (outer, inner) \<Longrightarrow>
    cmakes al f b cs () (flushed (buf_data b) outer inner @ bs) outer (lengths_fit (buf_data b) inner \<and> q)"
  by (simp add: appends_def)

lemma flush_cmakes:
  assumes al: "sized al" and b: "live b cs" and p: "split_children p cs = Some (outer, inner)"
  shows "cmakes al (CBB_flush al p) b cs () (flushed (buf_data b) outer inner) outer (lengths_fit (buf_data b) inner)"
proof -
  have cs: "cs = outer @ inner" using split_append[OF p] .
  have n: "nested (length (buf_data b)) (start_of outer) inner" using b nested_outer(1) unfolding live_def cs by blast
  have "length (flushed (buf_data b) outer inner) = start_of outer + length (finished (buf_data b) (start_of outer) inner)"
    using nested_le[OF n] by (simp add: flushed_def)
  then show ?thesis
    using flush_makes[OF _ al _ n] b p
    by (auto simp: live_def cmakes_def CBB_flush_def flushed_def split: outcome.splits)
qed

lemma flush_appends: "sized al \<Longrightarrow> appends al (CBB_flush al p) p [] True"
  using flush_cmakes by (simp add: appends_def)

text \<open>An operation that is only applied to a CBB without pending children, after another one.\<close>

definition continues :: "allocator \<Rightarrow> unit cbb_op \<Rightarrow> cbb_ptr \<Rightarrow> bytes \<Rightarrow> bool \<Rightarrow> bool" where
  "continues al f p bs q \<longleftrightarrow> (\<forall>b cs. live b cs \<longrightarrow> split_children p cs = Some (cs, []) \<longrightarrow>
     cmakes al f b cs () (buf_data b @ bs) cs q)"

lemma continuesD: "continues al f p bs q \<Longrightarrow> live b cs \<Longrightarrow> split_children p cs = Some (cs, []) \<Longrightarrow>
    cmakes al f b cs () (buf_data b @ bs) cs q"
  by (simp add: continues_def)

lemma appends_continues: "appends al f p bs q \<Longrightarrow> continues al f p bs q"
  unfolding continues_def using appendsD[of al f p bs q] by fastforce

lemma continues_Ok: "continues al (Ok ()) p [] True"
  by (simp add: continues_def cmakes_def live_def becomes_refl)

lemma appends_bindo_continues:
  assumes f: "appends al f p bs q" and g: "continues al (g ()) p bs' q'"
  shows "appends al (\<lambda>cbb. bindo (f cbb) g) p (bs @ bs') (q \<and> q')"
  unfolding appends_def
proof (intro allI impI)
  fix b cs outer inner assume b: "live b cs" and p: "split_children p cs = Some (outer, inner)"
  let ?d = "flushed (buf_data b) outer inner @ bs"
  have cs: "cs = outer @ inner" using split_append[OF p] .
  have "cmakes al (g ()) b' outer () (?d @ bs') outer q'" if b': "becomes al b ?d b'" for b'
  proof -
    have l: "live b' outer" using live_becomes[OF _ b'] start_le_flushed b unfolding cs by fastforce
    have "buf_data b' = ?d" using b' by (simp add: becomes_def)
    then show ?thesis
      using continuesD[OF g l] split_outer[OF p, of "[]"] by simp
  qed
  from cmakes_bindo[where g = g, OF appendsD[OF f b p] this]
  show "cmakes al (\<lambda>cbb. bindo (f cbb) g) b cs () (flushed (buf_data b) outer inner @ bs @ bs') outer
      (lengths_fit (buf_data b) inner \<and> q \<and> q')" by (simp add: conj_assoc)
qed

lemmas appends_bindo = appends_bindo_continues[OF _ appends_continues]

lemma continues_bindo:
  assumes f: "continues al f p bs q" and g: "continues al (g ()) p bs' q'"
  shows "continues al (\<lambda>cbb. bindo (f cbb) g) p (bs @ bs') (q \<and> q')"
  unfolding continues_def
proof (intro allI impI)
  fix b cs assume b: "live b cs" and p: "split_children p cs = Some (cs, [])"
  have "cmakes al (g ()) b' cs () (buf_data b @ bs @ bs') cs q'" if b': "becomes al b (buf_data b @ bs) b'" for b'
  proof -
    have n: "start_of cs \<le> length (buf_data b @ bs)" using start_le_flushed[of b cs "[]"] b by simp
    have "live b' cs" using live_becomes[of b cs "[]", OF _ b' n] b by simp
    then show ?thesis using continuesD[OF g _ p, of b'] b' by (simp add: becomes_def)
  qed
  from cmakes_bindo[where g = g, OF continuesD[OF f b p] this]
  show "cmakes al (\<lambda>cbb. bindo (f cbb) g) b cs () (buf_data b @ bs @ bs') cs (q \<and> q')" by simp
qed

lemma continues_cong: "continues al f p bs q \<Longrightarrow> (\<And>cbb. f cbb = g cbb) \<Longrightarrow> bs = bs' \<Longrightarrow> q = q' \<Longrightarrow> continues al g p bs' q'"
  by (simp add: continues_def cmakes_def)

lemma appends_cong: "appends al f p bs q \<Longrightarrow> (\<And>cbb. f cbb = g cbb) \<Longrightarrow> bs = bs' \<Longrightarrow> q = q' \<Longrightarrow> appends al g p bs' q'"
  by (simp add: appends_def cmakes_def)

text \<open>An operation on the buffer after a flush.\<close>

lemma after_flush_appends:
  assumes al: "sized al" and f: "\<And>b. wf_buf b \<Longrightarrow> makes al f b () (buf_data b @ bs) q"
  shows "appends al (\<lambda>cbb. bindo (CBB_flush al p cbb) (\<lambda>_. on_base f)) p bs q"
  unfolding appends_def
proof (intro allI impI)
  fix b cs outer inner assume b: "live b cs" and p: "split_children p cs = Some (outer, inner)"
  have "cmakes al (on_base f) b' outer () (flushed (buf_data b) outer inner @ bs) outer q"
    if "becomes al b (flushed (buf_data b) outer inner) b'" for b'
    using cmakes_on_base[OF f[of b']] that by (simp add: becomes_def)
  from cmakes_bindo[where g = "\<lambda>_. on_base f", OF flush_cmakes[OF al b p] this]
  show "cmakes al (\<lambda>cbb. bindo (CBB_flush al p cbb) (\<lambda>_. on_base f)) b cs ()
      (flushed (buf_data b) outer inner @ bs) outer (lengths_fit (buf_data b) inner \<and> q)" by simp
qed

section \<open>Bytes and numbers\<close>

lemma add_u_makes:
  assumes wf: "wf_buf b" and al: "sized al" and n: "n \<noteq> 0"
  shows "makes al (cbb_buffer_add_u al v n) b () (buf_data b @ rev (le_bytes (unat n) v)) (drop_bit (8 * unat n) v = 0)"
proof -
  let ?bs = "rev (le_bytes (unat n) v)" and ?r = "drop_bit (8 * unat n) v"
  have st: "makes al (\<lambda>b. bindo (cbb_buffer_add al n b) (\<lambda>out. store (unat out) ?bs)) b () (buf_data b @ ?bs) True"
    using add_store_makes[OF wf al] by simp
  have "makes al (\<lambda>b. bindo (bindo (cbb_buffer_add al n b) (\<lambda>out. store (unat out) ?bs))
      (\<lambda>_ b. if ?r \<noteq> 0 then base_err b else Ok () b)) b () (buf_data b @ ?bs) (True \<and> ?r = 0)"
  proof (rule makes_bindo[OF st])
    fix b' assume "becomes al b (buf_data b @ ?bs) b'"
    then have "wf_buf b'" "buf_data b' = buf_data b @ ?bs" by (auto simp: becomes_def)
    then show "makes al (\<lambda>b. if ?r \<noteq> 0 then base_err b else Ok () b) b' () (buf_data b @ ?bs) (?r = 0)"
      using makes_Ok[of b' _ al "()"] makes_err[of b' al "()"] by (cases "?r = 0") (auto simp: makes_def)
  qed simp
  then show ?thesis using n by (simp add: cbb_buffer_add_u_def put_be_eq makes_def)
qed

lemma add_u_appends:
  "sized al \<Longrightarrow> n \<noteq> 0 \<Longrightarrow> appends al (\<lambda>cbb. bindo (CBB_flush al p cbb) (\<lambda>_. on_base (cbb_buffer_add_u al v n))) p
    (rev (le_bytes (unat n) v)) (drop_bit (8 * unat n) v = 0)"
  by (rule after_flush_appends) (auto intro: add_u_makes)

lemma small_ucast:
  "drop_bit 8 (ucast (v :: u8) :: u64) = 0" "ucast (ucast v :: u64) = v"
  "drop_bit 16 (ucast (w :: u16) :: u64) = 0" "drop_bit 32 (ucast (x :: u32) :: u64) = 0" "drop_bit 64 (y :: u64) = 0"
  by (rule bit_word_eqI; auto simp: bit_simps dest: bit_imp_le_length)+

lemma u8_appends: "sized al \<Longrightarrow> appends al (CBB_add_u8 al p v) p [v] True"
  by (rule appends_cong[OF add_u_appends[of al 1 p "ucast v"]]) (simp_all add: CBB_add_u8_def small_ucast)

lemma u16_appends: "sized al \<Longrightarrow> appends al (CBB_add_u16 al p v) p (rev (le_bytes 2 v)) True"
  by (rule appends_cong[OF add_u_appends[of al 2 p "ucast v"]])
    (simp_all add: CBB_add_u16_def small_ucast le_bytes_ucast del: le_bytes.simps)

lemma u24_appends: "sized al \<Longrightarrow> appends al (CBB_add_u24 al p v) p (rev (le_bytes 3 v)) (unat v < 2 ^ 24)"
proof -
  assume al: "sized al"
  have "unat (ucast v :: u64) = unat v"
    using unat_le_bound[of v] by (simp add: unsigned_ucast_eq take_bit_nat_eq_self)
  then have "drop_bit 24 (ucast v :: u64) = 0 \<longleftrightarrow> unat v < 2 ^ 24"
    by (simp add: unat_drop_bit div_eq_0_iff flip: unat_eq_zero)
  then show ?thesis
    by (intro appends_cong[OF add_u_appends[OF al, of 3 p "ucast v"]])
      (simp_all add: CBB_add_u24_def le_bytes_ucast del: le_bytes.simps)
qed

lemma u32_appends: "sized al \<Longrightarrow> appends al (CBB_add_u32 al p v) p (rev (le_bytes 4 v)) True"
  by (rule appends_cong[OF add_u_appends[of al 4 p "ucast v"]])
    (simp_all add: CBB_add_u32_def small_ucast le_bytes_ucast del: le_bytes.simps)

lemma u64_appends: "sized al \<Longrightarrow> appends al (CBB_add_u64 al p v) p (rev (le_bytes 8 v)) True"
  by (rule appends_cong[OF add_u_appends[of al 8 p v]])
    (simp_all add: CBB_add_u64_def small_ucast del: le_bytes.simps)

lemma bytes_appends:
  assumes al: "sized al" and n: "length bs < 2 ^ 64"
  shows "appends al (CBB_add_bytes al p bs) p bs True"
proof (rule appends_cong[OF after_flush_appends[OF al add_store_makes[OF _ al]]])
  show "unat (of_nat (length bs) :: u64) = length bs" using n by (simp add: unat_of_nat take_bit_nat_eq_self)
qed (simp_all add: CBB_add_bytes_def on_base_bindo)

section \<open>ASN.1 headers\<close>

fun digits :: "u64 \<Rightarrow> nat \<Rightarrow> bytes" where
  "digits v 0 = []"
| "digits v (Suc i) =
     (let byte = ucast (drop_bit (7 * i) v AND 0x7f) in if i \<noteq> 0 then byte OR 0x80 else byte) # digits v i"

lemma base128_digits_appends: "sized al \<Longrightarrow> appends al (base128_digits al p v (Suc i)) p (digits v (Suc i)) True"
proof (induction i)
  case 0
  have "base128_digits al p v 0 = Ok ()" by (rule ext) simp
  then show ?case using 0 by (intro appends_cong[OF u8_appends]) (auto simp: Let_def)
next
  case (Suc i)
  from appends_bindo[where g = "\<lambda>_. base128_digits al p v (Suc i)", OF u8_appends[OF Suc(2)] Suc(1)[OF Suc(2)]]
  show ?case by (rule appends_cong) (auto simp: Let_def)
qed

fun digits7 :: "u64 \<Rightarrow> nat \<Rightarrow> bytes" where
  "digits7 v 0 = []"
| "digits7 v (Suc i) = ucast (drop_bit (7 * i) v AND 0x7f) # digits7 v i"

lemma digits7_snoc: "digits7 v (Suc i) = digits7 (drop_bit 7 v) i @ [ucast (v AND 0x7f)]"
  by (induction i) (simp_all add: drop_bit_drop_bit add.commute)

lemma digits_eq: "digits v (Suc i) = map (\<lambda>b. b OR 0x80) (digits7 (drop_bit 7 v) i) @ [ucast (v AND 0x7f)]"
  by (induction i) (simp_all add: drop_bit_drop_bit add.commute Let_def)

lemma ucast_and_7F: "(ucast (v AND 0x7f :: u64) :: u8) = ucast v AND 0x7f"
  by (rule bit_word_eqI) (auto simp: const_bits bit_simps)

lemma base128_hi_digits: "base128_hi v = map (\<lambda>b. b OR 0x80) (digits7 v (base128_len v))"
proof (induction v rule: base128_hi.induct)
  case (1 v)
  show ?case
  proof (cases "v = 0")
    case True
    then show ?thesis by (simp add: base128_hi.simps[of 0] base128_len.simps[of 0])
  next
    case False
    then show ?thesis using 1[OF False]
      by (simp only: base128_hi.simps[of v] base128_len.simps[of v] if_False digits7_snoc map_append list.map ucast_and_7F)
  qed
qed

lemma base128_appends: "sized al \<Longrightarrow> appends al (add_base128_integer al p v) p (base128 v) True"
proof -
  assume al: "sized al"
  let ?n = "Suc (base128_len (drop_bit 7 v))"
  have "(if base128_len v = 0 then 1 else base128_len v) = ?n"
    by (cases "v = 0") (simp_all add: base128_len.simps[of v] base128_len.simps[of 0])
  then have "add_base128_integer al p v cbb = base128_digits al p v ?n cbb" for cbb
    by (simp only: add_base128_integer_def Let_def)
  moreover have "digits v ?n = base128 v"
    by (simp only: digits_eq base128_def base128_hi_digits ucast_and_7F)
  ultimately show ?thesis
    using appends_cong[OF base128_digits_appends[OF al, of p v "base128_len (drop_bit 7 v)"]] by simp
qed

text \<open>The identifier of an element.\<close>

definition add_identifier :: "allocator \<Rightarrow> cbb_ptr \<Rightarrow> u32 \<Rightarrow> unit cbb_op" where
  "add_identifier al p tag cbb =
     (let tag_bits = ucast (drop_bit CBS_ASN1_TAG_SHIFT tag) AND 0xe0 :: u8;
          tag_number = tag AND CBS_ASN1_TAG_NUMBER_MASK
      in if 0x1f \<le> tag_number
         then bindo (CBB_add_u8 al p (tag_bits OR 0x1f) cbb) (\<lambda>_ cbb. add_base128_integer al p (ucast tag_number) cbb)
         else CBB_add_u8 al p (tag_bits OR ucast tag_number) cbb)"

lemma add_identifier_eq: "add_identifier al p tag cbb =
  (if 0x1f \<le> tag_number tag
   then bindo (CBB_add_u8 al p (tag_class tag OR 0x1f) cbb) (\<lambda>_ cbb. add_base128_integer al p (ucast (tag_number tag)) cbb)
   else CBB_add_u8 al p (tag_class tag OR ucast (tag_number tag)) cbb)"
  by (simp only: add_identifier_def tag_class_def tag_number_def Let_def)

lemma identifier_appends: "sized al \<Longrightarrow> appends al (add_identifier al p tag) p (der_tag tag) True"
proof (cases "tag_number tag < 0x1f")
  case True
  assume al: "sized al"
  from True have "\<not> 0x1f \<le> tag_number tag" by simp
  then have "add_identifier al p tag cbb = CBB_add_u8 al p (tag_class tag OR ucast (tag_number tag)) cbb" for cbb
    by (simp add: add_identifier_eq)
  then show ?thesis using True by (intro appends_cong[OF u8_appends[OF al]]) (auto simp: der_tag_def)
next
  case False
  assume al: "sized al"
  from False have "add_identifier al p tag cbb = bindo (CBB_add_u8 al p (tag_class tag OR 0x1f) cbb)
      (\<lambda>_. add_base128_integer al p (ucast (tag_number tag)))" for cbb
    by (simp add: add_identifier_eq not_less)
  then show ?thesis using False
    by (intro appends_cong[OF appends_bindo[where g = "\<lambda>_. add_base128_integer al p (ucast (tag_number tag))",
            OF u8_appends[OF al] base128_appends[OF al]]]) (auto simp: der_tag_def)
qed

lemma add_asn1_identifier:
  "CBB_add_asn1 al p child tag cbb = bindo (bindo (CBB_flush al p cbb) (\<lambda>_. add_identifier al p tag)) (\<lambda>_ cbb.
     let offset = base_len cbb in
     bindo (CBB_add_u8 al p 0 cbb) (\<lambda>_ cbb.
       Ok () (new_child p \<lparr>ch_ptr = child, ch_offset = offset, ch_pending_len_len = 1, ch_is_asn1 = True\<rparr> cbb)))"
  by (simp add: CBB_add_asn1_def add_identifier_def Let_def)

section \<open>Children\<close>

definition asn1_child :: "nat \<Rightarrow> nat \<Rightarrow> cbb_child" where
  "asn1_child child offset =
     \<lparr>ch_ptr = child, ch_offset = of_nat offset, ch_pending_len_len = 1, ch_is_asn1 = True\<rparr>"

lemma asn1_child_simps:
  assumes "n < 2 ^ 64"
  shows "child_start (asn1_child child n) = n + 1" "pending (asn1_child child n)" "unat (ch_offset (asn1_child child n)) = n"
    "child_encoding (asn1_child child n) bs = der_length (length bs) @ bs"
    "child_fits (asn1_child child n) m = (m \<le> 0xfffffffe)" "ch_ptr (asn1_child child n) = child"
  using assms by (simp_all add: asn1_child_def child_start_def pending_def prefix_len_def child_encoding_def child_fits_def
      unat_of_nat take_bit_nat_eq_self)

lemma becomes_length: "becomes al b d b' \<Longrightarrow> length d < 2 ^ 64 \<and> bf_len b' = of_nat (length d)"
proof -
  assume "becomes al b d b'"
  then have "length d = unat (bf_len b')" using length_buf_data[of b'] by (simp add: becomes_def)
  then show ?thesis using unat_le_bound[of "bf_len b'"] unat_eq_of_nat[of "bf_len b'"] by simp
qed

lemma add_asn1_cmakes:
  fixes tag :: u32
  assumes al: "sized al" and b: "live b cs" and p: "split_children p cs = Some (outer, inner)"
  defines "d \<equiv> flushed (buf_data b) outer inner @ der_tag tag"
  shows "cmakes al (CBB_add_asn1 al p child tag) b cs () (d @ [0]) (outer @ [asn1_child child (length d)])
    (lengths_fit (buf_data b) inner)"
proof -
  let ?c = "asn1_child child (length d)"
  let ?g = "\<lambda>cbb. let offset = base_len cbb in bindo (CBB_add_u8 al p 0 cbb) (\<lambda>_ cbb.
      Ok () (new_child p \<lparr>ch_ptr = child, ch_offset = offset, ch_pending_len_len = 1, ch_is_asn1 = True\<rparr> cbb))"
  have cs: "cs = outer @ inner" using split_append[OF p] .
  have id: "cmakes al (\<lambda>cbb. bindo (CBB_flush al p cbb) (\<lambda>_. add_identifier al p tag)) b cs () d outer (lengths_fit (buf_data b) inner)"
    using appendsD[OF appends_bindo[where g = "\<lambda>_. add_identifier al p tag", OF flush_appends[OF al] identifier_appends[OF al]] b p]
    by (simp add: d_def)
  have "cmakes al ?g b1 outer () (d @ [0]) (outer @ [?c]) (True \<and> True)" if b1: "becomes al b d b1" for b1
  proof -
    have l: "live b1 outer" using live_becomes[OF _ b1] start_le_flushed b unfolding cs d_def by fastforce
    have u8: "cmakes al (CBB_add_u8 al p 0) b1 outer () (d @ [0]) outer True"
      using appendsD[OF u8_appends[OF al] l split_outer[OF p, of "[]", simplified]] b1 by (simp add: becomes_def)
    let ?h = "\<lambda>_ cbb. Ok () (new_child p ?c cbb)"
    have "cmakes al (?h ()) b2 outer () (d @ [0]) (outer @ [?c]) True" if "becomes al b1 (d @ [0]) b2" for b2
      using that split_outer[OF p, of "[]"] by (simp add: cmakes_def new_child_def becomes_def)
    from cmakes_bindo[where g = ?h, OF u8 this]
    show ?thesis using becomes_length[OF b1] by (simp add: cmakes_def base_len_def asn1_child_def)
  qed
  from cmakes_bindo[where g = "\<lambda>_. ?g", OF id this]
  show ?thesis unfolding add_asn1_identifier[abs_def] by simp
qed

lemma flushed_child:
  assumes "start_of outer \<le> length d" and n: "length d < 2 ^ 64"
  shows "flushed (d @ [0] @ bs) outer [asn1_child child (length d)] = d @ der_length (length bs) @ bs"
    and "lengths_fit (d @ [0] @ bs) [asn1_child child (length d)] = (length bs \<le> 0xfffffffe)"
proof -
  have "take (start_of outer) d @ take (length d - start_of outer) (drop (start_of outer) d) = d" by simp
  then show "flushed (d @ [0] @ bs) outer [asn1_child child (length d)] = d @ der_length (length bs) @ bs"
    using assms(1) by (simp add: flushed_def asn1_child_simps[OF n])
qed (simp add: asn1_child_simps[OF n])

text \<open>A child that was just added, and the flush after its contents were written.\<close>

lemma opened_child:
  assumes b: "live b cs" and p: "split_children p cs = Some (outer, inner)" and child: "child \<notin> ch_ptr ` set cs"
    and d: "d = flushed (buf_data b) outer inner @ t" and b1: "becomes al b (d @ [0]) b1"
  shows "length d < 2 ^ 64" and "start_of outer \<le> length d"
    and "length d < m \<Longrightarrow> nested m 0 (outer @ [asn1_child child (length d)])"
    and "live b1 (outer @ [asn1_child child (length d)])"
    and "split_children (Some child) (outer @ [asn1_child child (length d)]) = Some (outer @ [asn1_child child (length d)], [])"
proof -
  let ?c = "asn1_child child (length d)"
  have cs: "cs = outer @ inner" using split_append[OF p] .
  show n: "length d < 2 ^ 64" using becomes_length[OF b1] by simp
  note c = asn1_child_simps[OF n, of child]
  show start: "start_of outer \<le> length d" using start_le_flushed[of b outer inner] b unfolding cs d by simp
  have "nested (start_of outer) 0 outer" using nested_outer(2)[of "length (buf_data b)" outer inner] b
    unfolding live_def cs by blast
  then show nest: "nested m 0 (outer @ [?c])" if "length d < m" for m
    using that start c by (auto simp: nested_append start_of_def)
  then show "live b1 (outer @ [?c])" using b1 b by (auto simp: live_def becomes_def)
  show "split_children (Some child) (outer @ [?c]) = Some (outer @ [?c], [])"
    using split_new[of ?c outer] child c(6) unfolding cs by auto
qed

lemma closed_child:
  assumes al: "sized al" and b: "live b cs" and p: "split_children p cs = Some (outer, inner)" and child: "child \<notin> ch_ptr ` set cs"
    and d: "d = flushed (buf_data b) outer inner @ t" and b1: "becomes al b (d @ [0]) b1" and b2: "becomes al b1 (d @ [0] @ bs) b2"
  shows "cmakes al (CBB_flush al p) b2 (outer @ [asn1_child child (length d)]) () (d @ der_length (length bs) @ bs) outer
    (length bs \<le> 0xfffffffe)"
proof -
  note o = opened_child[OF b p child d b1]
  have d2: "buf_data b2 = d @ [0] @ bs" using b2 by (simp add: becomes_def)
  have l2: "live b2 (outer @ [asn1_child child (length d)])" using b2 o(4) o(3)[of "length (d @ [0] @ bs)"] by (simp add: live_def becomes_def)
  show ?thesis
    using flush_cmakes[OF al l2 split_outer[OF p, of "[asn1_child child (length d)]"]] unfolding d2 flushed_child[OF o(2,1)] .
qed

text \<open>
  The scope of a child: an element is started, its contents are written to the child and the
  parent is flushed. What is appended is the whole element.
\<close>

lemma element_scope:
  assumes al: "sized al" and body: "appends al body (Some child) bs q" and b: "live b cs"
    and p: "split_children p cs = Some (outer, inner)" and child: "child \<notin> ch_ptr ` set cs"
  shows "cmakes al (\<lambda>cbb. bindo (CBB_add_asn1 al p child tag cbb) (\<lambda>_ cbb. bindo (body cbb) (\<lambda>_. CBB_flush al p))) b cs ()
    (flushed (buf_data b) outer inner @ der_element tag bs) outer
    (lengths_fit (buf_data b) inner \<and> q \<and> length bs \<le> 0xfffffffe)"
proof -
  let ?d = "flushed (buf_data b) outer inner @ der_tag tag"
  let ?c = "asn1_child child (length ?d)"
  let ?e = "flushed (buf_data b) outer inner @ der_element tag bs"
  have e: "?e = ?d @ der_length (length bs) @ bs" by (simp add: der_element_def der_header_def)
  have longer: "length (?d @ [0] @ bs) \<le> length ?e"
    using length_der_length[of "length bs"] unfolding e length_append by simp
  have longer0: "length (?d @ [0]) \<le> length ?e" using longer unfolding length_append by linarith
  have tail: "cmakes al (\<lambda>cbb. bindo (body cbb) (\<lambda>_. CBB_flush al p)) b1 (outer @ [?c]) () ?e outer
      (q \<and> length bs \<le> 0xfffffffe)" if b1: "becomes al b (?d @ [0]) b1" for b1
  proof -
    note o = opened_child[OF b p child refl b1]
    have bd: "cmakes al body b1 (outer @ [?c]) () (?d @ [0] @ bs) (outer @ [?c]) q"
      using appendsD[OF body o(4,5)] b1 by (simp add: becomes_def)
    have fl: "cmakes al (CBB_flush al p) b2 (outer @ [?c]) () ?e outer (length bs \<le> 0xfffffffe)"
      if "becomes al b1 (?d @ [0] @ bs) b2" for b2
      using closed_child[OF al b p child refl b1 that] unfolding e .
    show ?thesis by (rule cmakes_bindo[OF bd fl longer])
  qed
  show ?thesis
    by (rule cmakes_bindo[OF add_asn1_cmakes[OF al b p] tail longer0])
qed

section \<open>Flushing, as a whole\<close>

text \<open>
  C6: CBB_flush of any CBB in a consistent buffer, its children to any depth included, never leaves
  the allocation. When it succeeds the data are those of before with the length of every pending
  child of that CBB filled in, the children around it stay pending and those inside are gone; it
  fails only when a length is too large for its prefix or the data do not fit, and then the error
  flag is set.
\<close>

theorem flush_exact:
  assumes "sized al" and "live b cs" and "split_children p cs = Some (outer, inner)"
  shows "case CBB_flush al p \<lparr>cb_base = Some b, cb_children = cs\<rparr> of
      Ok _ cbb \<Rightarrow> lengths_fit (buf_data b) inner \<and> (\<exists>b'. cbb = \<lparr>cb_base = Some b', cb_children = outer\<rparr> \<and> live b' outer \<and>
        buf_data b' = flushed (buf_data b) outer inner)
    | Fail cbb \<Rightarrow> \<not> (lengths_fit (buf_data b) inner \<and> length (flushed (buf_data b) outer inner) \<le> limit al b) \<and>
        (\<exists>b'. cb_base cbb = Some b' \<and> wf_buf b' \<and> bf_error b')
    | NoResult \<Rightarrow> False"
proof -
  have cs: "cs = outer @ inner" using split_append[OF assms(3)] .
  have "live b' outer" if "becomes al b (flushed (buf_data b) outer inner) b'" for b'
    using live_becomes[OF _ that] start_le_flushed assms(2) unfolding cs by blast
  then show ?thesis
    using flush_cmakes[OF assms] by (auto simp: cmakes_def becomes_def split: outcome.splits)
qed

theorem flush_exact_witness:
  "case CBB_flush (\<lambda>n. None) None \<lparr>cb_base = Some \<lparr>bf_buf = [0x30, 0, 5], bf_len = 3, bf_cap = 3, bf_can_resize = False, bf_error = False\<rparr>,
      cb_children = [\<lparr>ch_ptr = 0, ch_offset = 1, ch_pending_len_len = 1, ch_is_asn1 = True\<rparr>]\<rparr> of
    Ok _ cbb \<Rightarrow> map_option buf_data (cb_base cbb) = Some [0x30, 1, 5] | Fail _ \<Rightarrow> False | NoResult \<Rightarrow> False"
proof -
  let ?b = "\<lparr>bf_buf = [0x30, 0, 5], bf_len = 3, bf_cap = 3, bf_can_resize = False, bf_error = False\<rparr>"
  let ?c = "\<lparr>ch_ptr = 0, ch_offset = 1, ch_pending_len_len = 1, ch_is_asn1 = True\<rparr>"
  have l: "live ?b [?c]"
    by (simp add: live_def wf_buf_def buf_data_def pending_def prefix_len_def child_start_def)
  have d: "buf_data ?b = [0x30, 0, 5]" by (simp add: buf_data_def)
  have f: "flushed [0x30, 0, 5] [] [?c] = [0x30, 1, 5]"
    by (simp add: flushed_def start_of_def child_encoding_def child_start_def prefix_len_def der_length_def)
  have fits: "lengths_fit [0x30, 0, 5] [?c]" by (simp add: child_fits_def child_start_def prefix_len_def)
  have al: "sized (\<lambda>n. None)" by (simp add: sized_def)
  have sp: "split_children None [?c] = Some ([], [?c])" by simp
  have "length [0x30, 1, 5 :: u8] \<le> limit (\<lambda>n. None) ?b" by (simp add: limit_def)
  then show ?thesis using flush_exact[OF al l sp, unfolded d f] fits by (auto split: outcome.splits)
qed

end
