(* ===== verification/Asn1_Integer.thy ===== *)
theory Asn1_Integer
  imports Cbs
begin

text \<open>
  What the readers of DER values accept (src/crypto/bytestring/cbs.c): the elements of one tag,
  integers, booleans and strings with a length in front. The encoding of an integer is stated on
  \<open>int\<close>: the shortest two's complement, highest byte first.
\<close>

section \<open>Elements of a tag\<close>

lemma skip_header_iff: "skip_header n out = Some c \<longleftrightarrow> unat n \<le> length out \<and> c = drop (unat n) out"
  by (auto simp: skip_header_def CBS_skip_def cbs_get_def)

lemma asn1_exact:
  assumes "length cbs < 2 ^ 63"
  shows "CBS_get_asn1 tag cbs = Ok c rest \<longleftrightarrow> length c < 2 ^ 32 \<and> cbs = der_element tag c @ rest"
proof -
  have sk: "skip_header (of_nat (length (der_header tag' (length x)))) (der_element tag' x) = Some c' \<longleftrightarrow> c' = x"
    if "cbs = der_element tag' x @ r" for tag' x r c'
  proof -
    have "length (der_header tag' (length x)) < 2 ^ 64" using that assms by (auto simp: der_element_def)
    then have "unat (of_nat (length (der_header tag' (length x))) :: u64) = length (der_header tag' (length x))"
      by (simp add: unat_of_nat take_bit_nat_eq_self)
    then show ?thesis by (auto simp: skip_header_iff der_element_def)
  qed
  have "CBS_get_asn1 tag cbs = Ok c rest \<longleftrightarrow>
      (\<exists>out hl. CBS_get_any_asn1_element cbs = Ok (out, tag, hl) rest \<and> skip_header hl out = Some c)"
  proof
    assume "CBS_get_asn1 tag cbs = Ok c rest"
    then show "\<exists>out hl. CBS_get_any_asn1_element cbs = Ok (out, tag, hl) rest \<and> skip_header hl out = Some c"
      by (auto simp: CBS_get_asn1_def cbs_get_asn1_def split: if_splits option.splits)
  next
    assume "\<exists>out hl. CBS_get_any_asn1_element cbs = Ok (out, tag, hl) rest \<and> skip_header hl out = Some c"
    then show "CBS_get_asn1 tag cbs = Ok c rest"
      by (elim exE conjE) (simp add: CBS_get_asn1_def cbs_get_asn1_def)
  qed
  also have "\<dots> \<longleftrightarrow> length c < 2 ^ 32 \<and> cbs = der_element tag c @ rest"
    unfolding der_element_iff[OF assms]
  proof (intro iffI; elim exE conjE)
    fix out hl contents
    assume "skip_header hl out = Some c" "length contents < 2 ^ 32" "out = der_element tag contents"
      "cbs = out @ rest" "hl = of_nat (length (der_header tag (length contents)))"
    then show "length c < 2 ^ 32 \<and> cbs = der_element tag c @ rest" using sk by simp
  next
    assume "length c < 2 ^ 32" "cbs = der_element tag c @ rest"
    then show "\<exists>out hl. (\<exists>contents. length contents < 2 ^ 32 \<and> out = der_element tag contents \<and>
        cbs = out @ rest \<and> hl = of_nat (length (der_header tag (length contents)))) \<and> skip_header hl out = Some c"
      using sk[of tag c rest c] by blast
  qed
  finally show ?thesis .
qed

section \<open>Integers in two's complement\<close>

function der_int :: "int \<Rightarrow> bytes" where
  "der_int i = (if - 128 \<le> i \<and> i < 128 then [of_int i] else der_int (i div 256) @ [of_int (i mod 256)])"
  by pat_completeness auto

termination
  by (relation "measure (\<lambda>i. nat \<bar>i\<bar>)") (auto simp: abs_if div_less_iff_less_mult)

declare der_int.simps [simp del]

text \<open>The number that bytes stand for: the first is signed.\<close>

fun be_append :: "int \<Rightarrow> bytes \<Rightarrow> int" where
  "be_append v [] = v"
| "be_append v (b # bs) = be_append (v * 256 + uint b) bs"

fun int_of_bytes :: "bytes \<Rightarrow> int" where
  "int_of_bytes [] = 0"
| "int_of_bytes (b # bs) = be_append (sint b) bs"

lemma be_append_snoc: "be_append v (bs @ [b]) = be_append v bs * 256 + uint b"
  by (induction bs arbitrary: v) auto

lemma int_of_bytes_snoc: "bs \<noteq> [] \<Longrightarrow> int_of_bytes (bs @ [b]) = int_of_bytes bs * 256 + uint b"
  by (cases bs) (auto simp: be_append_snoc)

text \<open>Shortest encodings: the first nine bits are not all equal.\<close>

definition minimal :: "bytes \<Rightarrow> bool" where
  "minimal bs = (bs \<noteq> [] \<and> (2 \<le> length bs \<longrightarrow>
     \<not> (bs ! 0 = 0 \<and> uint (bs ! 1) < 128) \<and> \<not> (bs ! 0 = 0xFF \<and> 128 \<le> uint (bs ! 1))))"

lemma uint_byte: "0 \<le> uint (b :: u8)" "uint b < 256"
  using uint_bounded[of b] by auto

lemma and_80_uint: "(b :: u8) AND 0x80 = 0 \<longleftrightarrow> uint b < 128"
proof -
  have "int (unat b) < int 128 \<longleftrightarrow> uint b < 128" by simp
  then show ?thesis unfolding and_80_unat of_nat_less_iff by simp
qed

lemma sint_u8: "sint (b :: u8) = (if uint b < 128 then uint b else uint b - 256)"
proof -
  have "bit (uint b) 7 \<longleftrightarrow> \<not> uint b < 128"
    using and_80_uint[of b] bit_imp_le_length[of b 7] by (auto simp: and_80_zero_iff bit_unsigned_iff)
  moreover have "take_bit 8 (uint b) = uint b" by (simp add: take_bit_eq_mod uint_byte)
  ultimately show ?thesis
    by (simp add: sint_uint signed_take_bit_eq_take_bit_minus)
qed

lemma sint_neg: "sint (b :: u8) < 0 \<longleftrightarrow> b AND 0x80 \<noteq> 0"
  using uint_byte[of b] by (auto simp: sint_u8 and_80_uint)

lemma valid_integer_iff:
  "CBS_is_valid_asn1_integer bs = Some neg \<longleftrightarrow> minimal bs \<and> neg = (sint (hd bs) < 0)"
proof (cases bs)
  case Nil
  then show ?thesis by (simp add: CBS_is_valid_asn1_integer_def CBS_get_u8_def cbs_get_def minimal_def)
next
  case (Cons b cs)
  then show ?thesis
    by (cases cs) (auto simp: CBS_is_valid_asn1_integer_def CBS_get_u8_Cons minimal_def sint_neg and_80_uint not_less
        CBS_get_u8_def cbs_get_def)
qed

lemma minimal_snoc: "minimal (bs @ [b]) \<Longrightarrow> 2 \<le> length bs \<Longrightarrow> minimal bs"
  by (cases bs; cases "tl bs") (auto simp: minimal_def nth_append Suc_le_eq)

lemma far_arith:
  fixes x y :: int
  shows "0 \<le> x \<Longrightarrow> x < 256 \<Longrightarrow> 0 \<le> y \<Longrightarrow> y < 256 \<Longrightarrow> x \<noteq> 0 \<or> 128 \<le> y \<Longrightarrow> x \<noteq> 255 \<or> y < 128 \<Longrightarrow>
    (if x < 128 then x else x - 256) * 256 + y < - 128 \<or> 128 \<le> (if x < 128 then x else x - 256) * 256 + y"
  by (cases "x < 128") auto

lemma far_step:
  fixes v y :: int
  shows "v < - 128 \<or> 128 \<le> v \<Longrightarrow> 0 \<le> y \<Longrightarrow> y < 256 \<Longrightarrow> v * 256 + y < - 128 \<or> 128 \<le> v * 256 + y"
  by auto

lemma minimal_far: "minimal bs \<Longrightarrow> 2 \<le> length bs \<Longrightarrow> int_of_bytes bs < - 128 \<or> 128 \<le> int_of_bytes bs"
proof (induction bs rule: rev_induct)
  case (snoc b bs)
  show ?case
  proof (cases "length bs = 1")
    case True
    then obtain a where a: "bs = [a]" by (cases bs) auto
    have "a \<noteq> 0 \<or> 128 \<le> uint b" "a \<noteq> 0xFF \<or> uint b < 128" using snoc(2) by (auto simp: a minimal_def)
    moreover have "uint a = 0 \<longleftrightarrow> a = 0" "uint a = 255 \<longleftrightarrow> a = 0xFF" by (auto simp: word_uint_eq_iff)
    ultimately show ?thesis
      using far_arith[OF uint_byte[of a] uint_byte[of b]] by (simp add: a sint_u8)
  next
    case False
    then have "2 \<le> length bs" using snoc(3) by simp
    then show ?thesis
      using far_step[OF snoc(1)[OF minimal_snoc[OF snoc(2)]] uint_byte[of b]] int_of_bytes_snoc[of bs b]
      by (metis list.size(3) not_numeral_le_zero)
  qed
qed simp

lemma div_snoc: "(v * 256 + uint (b :: u8)) div 256 = v" "(v * 256 + uint b) mod 256 = uint b"
  using uint_byte[of b] by (auto simp: div_add1_eq)

lemma der_int_sint: "der_int (sint b) = [b]"
proof -
  have "- 128 \<le> sint b \<and> sint b < 128" using sint_ge[of b] sint_lt[of b] by simp
  then show ?thesis by (subst der_int.simps) simp
qed

lemma der_int_unique: "minimal bs \<Longrightarrow> der_int (int_of_bytes bs) = bs"
proof (induction bs rule: rev_induct)
  case (snoc b bs)
  show ?case
  proof (cases "bs = []")
    case True
    then show ?thesis by (simp add: der_int_sint)
  next
    case False
    have far: "int_of_bytes (bs @ [b]) < - 128 \<or> 128 \<le> int_of_bytes (bs @ [b])"
      using minimal_far[OF snoc(2)] False by (cases bs; cases "tl bs") auto
    have "der_int (int_of_bytes bs) = bs"
    proof (cases "length bs = 1")
      case True
      then obtain a where "bs = [a]" by (cases bs) auto
      then show ?thesis by (simp add: der_int_sint)
    next
      case c: False
      moreover have "length bs \<noteq> 0" using False by simp
      ultimately have "2 \<le> length bs" by linarith
      then show ?thesis using snoc(1) minimal_snoc[OF snoc(2)] by simp
    qed
    moreover have "der_int (int_of_bytes (bs @ [b])) =
        der_int (int_of_bytes (bs @ [b]) div 256) @ [of_int (int_of_bytes (bs @ [b]) mod 256)]"
      using far by (subst der_int.simps) auto
    ultimately show ?thesis using False div_snoc[of "int_of_bytes bs" b]
      by (simp only: int_of_bytes_snoc word_of_int_uint of_int_uint simp_thms)
  qed
qed (simp add: minimal_def)

lemma der_int_not_Nil [simp]: "der_int i \<noteq> []"
  by (subst der_int.simps) auto

lemma sint_of_int_u8: "- 128 \<le> i \<Longrightarrow> i < 128 \<Longrightarrow> sint (of_int i :: u8) = i"
  by (simp add: signed_of_int signed_take_bit_int_eq_self)

lemma uint_of_mod: "uint (of_int (i mod 256) :: u8) = i mod 256"
  by (simp add: unsigned_of_int take_bit_eq_mod)

lemma int_of_der_int: "int_of_bytes (der_int i) = i"
proof (induction i rule: der_int.induct)
  case (1 i)
  show ?case
    using 1 by (cases "- 128 \<le> i \<and> i < 128"; subst der_int.simps)
      (auto simp: sint_of_int_u8 int_of_bytes_snoc uint_of_mod)
qed

lemma int_div_bounds: "p \<le> i div 256 \<longleftrightarrow> p * 256 \<le> i" "i div 256 < p \<longleftrightarrow> i < p * (256::int)"
proof -
  have "i = 256 * q + r \<Longrightarrow> 0 \<le> r \<Longrightarrow> r < 256 \<Longrightarrow> (p \<le> q \<longleftrightarrow> p * 256 \<le> i) \<and> (q < p \<longleftrightarrow> i < p * 256)"
    for q r by auto
  from this[of "i div 256" "i mod 256"]
  show "p \<le> i div 256 \<longleftrightarrow> p * 256 \<le> i" "i div 256 < p \<longleftrightarrow> i < p * 256" by auto
qed

lemma length_der_int: "length (der_int i) \<le> Suc n \<longleftrightarrow> - (2 ^ (8 * n + 7)) \<le> i \<and> i < 2 ^ (8 * n + 7)"
proof (induction n arbitrary: i)
  case 0
  show ?case by (subst der_int.simps) auto
next
  case (Suc n)
  show ?case
  proof (cases "- 128 \<le> i \<and> i < 128")
    case True
    have "(128 :: int) \<le> 2 ^ (8 * Suc n + 7)" using power_increasing[of 7 "8 * Suc n + 7" "2::int"] by simp
    then show ?thesis using True by (subst der_int.simps) auto
  next
    case False
    let ?P = "2 ^ (8 * n + 7) :: int"
    have "length (der_int i) \<le> Suc (Suc n) \<longleftrightarrow> - ?P \<le> i div 256 \<and> i div 256 < ?P"
      using False Suc by (subst der_int.simps) auto
    also have "\<dots> \<longleftrightarrow> - ?P * 256 \<le> i \<and> i < ?P * 256"
      by (simp add: int_div_bounds)
    also have "- ?P * 256 = - (2 ^ (8 * Suc n + 7))" by (simp add: power_add)
    also have "?P * 256 = 2 ^ (8 * Suc n + 7)" by (simp add: power_add)
    finally show ?thesis .
  qed
qed

lemma hd_int_of_bytes: "bs \<noteq> [] \<Longrightarrow> sint (hd bs) < 0 \<longleftrightarrow> int_of_bytes bs < 0"
proof (induction bs rule: rev_induct)
  case (snoc b bs)
  have "v * 256 + uint b < 0 \<longleftrightarrow> v < 0" for v
    by (rule iffI; use uint_byte[of b] in linarith)
  then show ?case using snoc by (cases "bs = []") (auto simp: int_of_bytes_snoc)
qed simp

lemma minimal_der_int: "minimal (der_int i)"
proof (induction i rule: der_int.induct)
  case (1 i)
  show ?case
  proof (cases "- 128 \<le> i \<and> i < 128")
    case True
    then show ?thesis by (subst der_int.simps) (simp add: minimal_def)
  next
    case False
    let ?q = "i div 256" and ?b = "of_int (i mod 256) :: u8"
    have e: "der_int i = der_int ?q @ [?b]" by (subst der_int.simps) (rule if_not_P[OF False])
    have b: "uint ?b = i mod 256" by (rule uint_of_mod)
    show ?thesis
    proof (cases "- 128 \<le> ?q \<and> ?q < 128")
      case True
      then have q: "der_int ?q = [of_int ?q]" by (subst der_int.simps) simp
      have "of_int ?q = (0 :: u8) \<longleftrightarrow> ?q = 0" "of_int ?q = (0xFF :: u8) \<longleftrightarrow> ?q = - 1"
        using sint_of_int_u8[of ?q] True by auto
      moreover have "?q = 0 \<longrightarrow> i mod 256 = i" "?q = - 1 \<longrightarrow> i mod 256 = i + 256"
        using minus_mult_div_eq_mod[of i 256] by auto
      ultimately show ?thesis using False by (auto simp: e q minimal_def b)
    next
      case far: False
      have "2 \<le> length (der_int ?q)" using far length_der_int[of ?q 0] by auto
      then show ?thesis using 1[OF False] unfolding e by (auto simp: minimal_def nth_append)
    qed
  qed
qed

section \<open>Integers of 64 bits\<close>

text \<open>The loop of the unsigned reader refuses to shift out a byte that is not zero.\<close>

lemma be_append_le: "0 \<le> v \<Longrightarrow> v \<le> be_append v bs"
proof (induction bs arbitrary: v)
  case (Cons b bs)
  have "v \<le> v * 256 + uint b" using Cons(2) uint_byte(1)[of b] by linarith
  also have "\<dots> \<le> be_append (v * 256 + uint b) bs"
    using Cons(2) uint_byte(1)[of b] by (intro Cons(1)) linarith
  finally show ?case by simp
qed simp

lemma bit_be_step: "bit (x * 256 + uint b) i \<longleftrightarrow> (if i < 8 then bit b i else bit x (i - 8))" for b :: u8
proof (cases "i < 8")
  case True
  have "take_bit 8 (x * 256 + uint b) = uint b" using uint_byte[of b] by (simp add: take_bit_eq_mod mod_pos_pos_trivial)
  then have "bit (x * 256 + uint b) i \<longleftrightarrow> bit (uint b) i"
    using True by (metis bit_take_bit_iff)
  then show ?thesis using True by (simp add: bit_unsigned_iff)
next
  case False
  have "drop_bit 8 (x * 256 + uint b) = x" using div_snoc(1)[of x b] by (simp add: drop_bit_eq_div)
  then have "bit x (i - 8) \<longleftrightarrow> bit (x * 256 + uint b) (8 + (i - 8))" by (metis bit_drop_bit_eq comp_apply)
  then show ?thesis using False by simp
qed

lemma shift_in_byte: "uint (push_bit 8 w OR ucast b) = uint w * 256 + uint b"
  if "drop_bit 56 w = 0" for w :: u64 and b :: u8
proof (rule bit_eqI)
  fix i
  have top: "\<not> bit w j" if "56 \<le> j" for j
  proof
    assume "bit w j"
    then have "bit (drop_bit 56 w) (j - 56)" using that by (simp add: bit_drop_bit_eq)
    then show False by (simp add: \<open>drop_bit 56 w = 0\<close>)
  qed
  have w: "bit w (i - 8) \<longrightarrow> i < 64" using top[of "i - 8"] by (cases "i < 64") auto
  show "bit (uint (push_bit 8 w OR ucast b)) i \<longleftrightarrow> bit (uint w * 256 + uint b) i"
  proof (cases "i < 8")
    case True
    then show ?thesis unfolding bit_be_step by (simp add: bit_simps)
  next
    case False
    then have "\<not> bit b i" by (auto dest: bit_imp_le_length)
    then show ?thesis using False w unfolding bit_be_step by (auto simp: bit_simps)
  qed
qed

lemma uint_ucast_u8: "uint (ucast (b :: u8) :: u64) = uint b"
  using shift_in_byte[of 0 b] by simp

lemma uint64_loop_iff: "uint64_loop bs w = Some v \<longleftrightarrow> uint v = be_append (uint w) bs"
proof (induction bs arbitrary: w)
  case Nil
  show ?case by (auto simp: word_uint_eq_iff)
next
  case (Cons b bs)
  show ?case
  proof (cases "drop_bit 56 w = 0")
    case True
    then show ?thesis using Cons shift_in_byte by simp
  next
    case False
    have "2 ^ 56 \<le> uint w"
    proof (rule ccontr)
      assume "\<not> 2 ^ 56 \<le> uint w"
      moreover have "uint (drop_bit 56 w) = drop_bit 56 (uint w)"
        by (intro bit_eqI) (auto simp: bit_unsigned_iff bit_drop_bit_eq dest: bit_imp_le_length)
      ultimately have "uint (drop_bit 56 w) = 0" by (simp add: drop_bit_eq_div)
      then have "drop_bit 56 w = 0" unfolding word_uint_eq_iff by simp
      then show False using False by simp
    qed
    moreover have "(2 :: int) ^ 64 = 2 ^ 56 * 256" by simp
    ultimately have "2 ^ 64 \<le> uint w * 256 + uint b" using uint_byte(1)[of b] by linarith
    then have "2 ^ 64 \<le> be_append (uint w * 256 + uint b) bs"
      using be_append_le[of "uint w * 256 + uint b" bs] order_trans by fastforce
    moreover have "uint v < 2 ^ 64" using uint_bounded[of v] by simp
    ultimately show ?thesis using False by auto
  qed
qed

text \<open>The bytes of the signed reader.\<close>

lemma bit_int_of_bytes: "bs \<noteq> [] \<Longrightarrow> bit (int_of_bytes bs) i \<longleftrightarrow>
    (if i < 8 * length bs then bit (rev bs ! (i div 8)) (i mod 8) else sint (hd bs) < 0)"
proof (induction bs arbitrary: i rule: rev_induct)
  case (snoc b bs)
  show ?case
  proof (cases "bs = []")
    case True
    have "sint b < 0 \<longleftrightarrow> bit b 7" by (simp add: sint_neg and_80_zero_iff)
    then show ?thesis using True bit_imp_le_length[of b i] by (auto simp: bit_sint_iff not_less min_def)
  next
    case False
    show ?thesis
    proof (cases "i < 8")
      case True
      then show ?thesis using False by (simp add: int_of_bytes_snoc bit_be_step)
    next
      case large: False
      then have "i div 8 = Suc ((i - 8) div 8)" "(i - 8) mod 8 = i mod 8" by (simp_all add: le_div_geq le_mod_geq)
      then show ?thesis using False large snoc(1)[OF False, of "i - 8"] by (auto simp: int_of_bytes_snoc bit_be_step)
    qed
  qed
qed simp

lemma int64_bytes:
  assumes "bs \<noteq> []" and "length bs \<le> 8"
  shows "(le_word (rev bs @ replicate (8 - length bs) (if sint (hd bs) < 0 then 0xFF else 0)) :: u64) = of_int (int_of_bytes bs)"
    (is "?l = ?r")
proof (rule bit_word_eqI)
  fix i assume i: "i < LENGTH(64)"
  have ff: "bit (0xFF :: u8) (i mod 8)"
  proof -
    have "(0xFF :: u8) = mask 8" by (simp add: mask_eq_exp_minus_1)
    then show ?thesis by (simp only: bit_mask_iff) simp
  qed
  have "bit ?r i \<longleftrightarrow> bit (int_of_bytes bs) i" using i by (simp add: bit_of_int_iff)
  moreover have "i div 8 < length bs \<longleftrightarrow> i < 8 * length bs" by (simp add: div_less_iff_less_mult mult.commute)
  ultimately show "bit ?l i \<longleftrightarrow> bit ?r i"
    using i assms ff unfolding bit_le_word bit_int_of_bytes[OF assms(1)]
    by (auto simp: nth_append)
qed

lemma der_int_iff: "bs = der_int i \<longleftrightarrow> minimal bs \<and> int_of_bytes bs = i"
  using der_int_unique int_of_der_int minimal_der_int by metis

lemma length_der_int64: "length (der_int (sint (v :: u64))) \<le> 8"
  using length_der_int[of "sint v" 7] sint_ge[of v] sint_lt[of v] by simp

lemma length_der_uint64: "length (der_int (uint (v :: u64))) \<le> 9"
  using length_der_int[of "uint v" 8] uint_bounded[of v] uint_ge_0[of v] by simp

lemma unsigned_loop_iff:
  "CBS_is_unsigned_asn1_integer bs \<and> uint64_loop bs 0 = Some v \<longleftrightarrow> bs = der_int (uint v)"
proof -
  have "CBS_is_unsigned_asn1_integer bs \<longleftrightarrow> minimal bs \<and> \<not> sint (hd bs) < 0"
    by (simp add: CBS_is_unsigned_asn1_integer_def valid_integer_iff)
  moreover have "uint64_loop bs 0 = Some v \<longleftrightarrow> uint v = int_of_bytes bs" if "bs \<noteq> []" "\<not> sint (hd bs) < 0"
    using that uint_byte[of "hd bs"] by (cases bs) (auto simp: uint64_loop_iff sint_u8 uint_ucast_u8 split: if_splits)
  moreover have "\<not> sint (hd (der_int (uint v))) < 0"
    using hd_int_of_bytes[of "der_int (uint v)"] by (simp add: int_of_der_int not_less)
  moreover have "minimal bs \<longrightarrow> bs \<noteq> []" by (simp add: minimal_def)
  ultimately show ?thesis using der_int_iff[of bs "uint v"] by metis
qed

lemma asn1_uint64_iff:
  assumes "length cbs < 2 ^ 63"
  shows "CBS_get_asn1_uint64 cbs = Ok v rest \<longleftrightarrow> cbs = der_element CBS_ASN1_INTEGER (der_int (uint v)) @ rest"
proof -
  have "CBS_get_asn1_uint64 cbs = Ok v rest \<longleftrightarrow>
      (\<exists>bs. CBS_get_asn1 CBS_ASN1_INTEGER cbs = Ok bs rest \<and> CBS_is_unsigned_asn1_integer bs \<and> uint64_loop bs 0 = Some v)"
    by (auto simp: CBS_get_asn1_uint64_def split: option.splits)
  also have "\<dots> \<longleftrightarrow> CBS_get_asn1 CBS_ASN1_INTEGER cbs = Ok (der_int (uint v)) rest"
    unfolding unsigned_loop_iff by auto
  also have "\<dots> \<longleftrightarrow> cbs = der_element CBS_ASN1_INTEGER (der_int (uint v)) @ rest"
    unfolding asn1_exact[OF assms] using length_der_uint64[of v] by auto
  finally show ?thesis .
qed

lemma signed_bytes_iff:
  "minimal bs \<and> length bs \<le> 8 \<and> v = of_int (int_of_bytes bs) \<longleftrightarrow> bs = der_int (sint (v :: u64))"
proof
  assume a: "minimal bs \<and> length bs \<le> 8 \<and> v = of_int (int_of_bytes bs)"
  then have "length (der_int (int_of_bytes bs)) \<le> Suc 7" using der_int_unique by simp
  then have "- (2 ^ 63) \<le> int_of_bytes bs" "int_of_bytes bs < 2 ^ 63"
    using length_der_int[of "int_of_bytes bs" 7] by simp_all
  then have "sint v = int_of_bytes bs" using a by (simp add: signed_of_int signed_take_bit_int_eq_self)
  then show "bs = der_int (sint v)" using a der_int_unique by simp
next
  assume "bs = der_int (sint v)"
  then show "minimal bs \<and> length bs \<le> 8 \<and> v = of_int (int_of_bytes bs)"
    using length_der_int64[of v] by (simp add: minimal_der_int int_of_der_int)
qed

lemma int64_bytes_iff:
  "(\<exists>neg. CBS_is_valid_asn1_integer bs = Some neg \<and>
      length bs \<le> 8 \<and> v = (le_word (rev bs @ replicate (8 - length bs) (if neg then 0xFF else 0)) :: u64)) \<longleftrightarrow>
    minimal bs \<and> length bs \<le> 8 \<and> v = of_int (int_of_bytes bs)"
proof (cases "minimal bs \<and> length bs \<le> 8")
  case True
  then have "bs \<noteq> []" by (simp add: minimal_def)
  then show ?thesis using True int64_bytes[of bs] by (simp add: valid_integer_iff)
qed (auto simp: valid_integer_iff)

lemma int64_case:
  "(case x of None \<Rightarrow> Fail s | Some neg \<Rightarrow> if 8 < n then Fail s else Ok (f neg) s) = Ok v r \<longleftrightarrow>
    s = r \<and> (\<exists>neg. x = Some neg \<and> n \<le> (8::nat) \<and> v = f neg)"
  by (auto split: option.splits)

lemma asn1_int64_iff:
  assumes "length cbs < 2 ^ 63"
  shows "CBS_get_asn1_int64 cbs = Ok v rest \<longleftrightarrow> cbs = der_element CBS_ASN1_INTEGER (der_int (sint v)) @ rest"
proof -
  have "CBS_get_asn1_int64 cbs = Ok v rest \<longleftrightarrow>
      (\<exists>bs. CBS_get_asn1 CBS_ASN1_INTEGER cbs = Ok bs rest \<and> (\<exists>neg. CBS_is_valid_asn1_integer bs = Some neg \<and>
         length bs \<le> 8 \<and> v = le_word (rev bs @ replicate (8 - length bs) (if neg then 0xFF else 0))))"
    unfolding CBS_get_asn1_int64_def bindo_eq_Ok int64_case by blast
  also have "\<dots> \<longleftrightarrow> (\<exists>bs. CBS_get_asn1 CBS_ASN1_INTEGER cbs = Ok bs rest \<and> minimal bs \<and> length bs \<le> 8 \<and>
      v = of_int (int_of_bytes bs))"
    unfolding int64_bytes_iff ..
  also have "\<dots> \<longleftrightarrow> CBS_get_asn1 CBS_ASN1_INTEGER cbs = Ok (der_int (sint v)) rest"
    unfolding signed_bytes_iff by auto
  also have "\<dots> \<longleftrightarrow> cbs = der_element CBS_ASN1_INTEGER (der_int (sint v)) @ rest"
    unfolding asn1_exact[OF assms] using length_der_int64[of v] by auto
  finally show ?thesis .
qed

section \<open>Booleans and strings with a length in front\<close>

lemma asn1_bool_iff:
  assumes "length cbs < 2 ^ 63"
  shows "CBS_get_asn1_bool cbs = Ok v rest \<longleftrightarrow>
    cbs = der_element CBS_ASN1_BOOLEAN [if v then 0xFF else 0] @ rest"
proof -
  have "CBS_get_asn1_bool cbs = Ok v rest \<longleftrightarrow> (\<exists>bs. CBS_get_asn1 CBS_ASN1_BOOLEAN cbs = Ok bs rest \<and>
      CBS_len bs = 1 \<and> (bs ! 0 = 0 \<or> bs ! 0 = 0xFF) \<and> v = (bs ! 0 \<noteq> 0))"
    by (auto simp: CBS_get_asn1_bool_def split: if_splits)
  also have "\<dots> \<longleftrightarrow> CBS_get_asn1 CBS_ASN1_BOOLEAN cbs = Ok [if v then 0xFF else 0] rest"
  proof (rule iffI, elim exE conjE)
    fix bs assume b: "CBS_get_asn1 CBS_ASN1_BOOLEAN cbs = Ok bs rest" "CBS_len bs = 1"
      "bs ! 0 = 0 \<or> bs ! 0 = 0xFF" "v = (bs ! 0 \<noteq> 0)"
    have "length bs < 2 ^ 64" using b(1) unfolding asn1_exact[OF assms] by simp
    then have "unat (CBS_len bs) = length bs" by (simp add: CBS_len_def unat_of_nat take_bit_nat_eq_self)
    then have "length bs = 1" unfolding b(2) by simp
    then have "bs = [if v then 0xFF else 0]" using b(3,4) by (cases bs) auto
    then show "CBS_get_asn1 CBS_ASN1_BOOLEAN cbs = Ok [if v then 0xFF else 0] rest" using b(1) by simp
  qed (auto simp: CBS_len_def intro!: exI[of _ "[if v then 0xFF else 0]"])
  also have "\<dots> \<longleftrightarrow> cbs = der_element CBS_ASN1_BOOLEAN [if v then 0xFF else 0] @ rest"
    unfolding asn1_exact[OF assms] by simp
  finally show ?thesis .
qed

lemma length_prefixed_iff:
  assumes "unat n \<le> 7"
  shows "cbs_get_length_prefixed n cbs = Ok d rest \<longleftrightarrow>
    length d < 256 ^ unat n \<and> cbs = rev (le_bytes (unat n) (of_nat (length d) :: u64)) @ d @ rest"
proof -
  have "(256::nat) ^ unat n \<le> 256 ^ 7" using assms by (intro power_increasing) auto
  then have l: "unat (of_nat (length d) :: u64) = length d" if "length d < 256 ^ unat n"
    using that by (simp add: unat_of_nat take_bit_nat_eq_self)
  have le: "unat n \<le> 8" using assms by simp
  have pw: "(2::nat) ^ (8 * unat n) = 256 ^ unat n" by (simp add: power_mult)
  have "cbs_get_length_prefixed n cbs = Ok d rest \<longleftrightarrow>
    (\<exists>v :: u64. cbs = rev (le_bytes (unat n) v) @ d @ rest \<and> unat v < 256 ^ unat n \<and> length d = unat v)"
    using assms by (simp only: cbs_get_length_prefixed_def bindo_eq_Ok CBS_get_bytes_exact
        cbs_get_u_exact[OF le] take_bit_self pw) blast
  also have "\<dots> \<longleftrightarrow> length d < 256 ^ unat n \<and> cbs = rev (le_bytes (unat n) (of_nat (length d) :: u64)) @ d @ rest"
    using l by auto
  finally show ?thesis .
qed

section \<open>Properties\<close>

text \<open>
  C15: CBS_get_asn1_uint64 accepts exactly the DER INTEGER whose contents are the shortest two's
  complement encoding of the number, and returns the number: no negative number, no number of more
  than 64 bits and no second encoding of a number is accepted.
\<close>

theorem asn1_uint64_exact:
  assumes "length cbs < 2 ^ 63"
  shows "CBS_get_asn1_uint64 cbs = Ok v rest \<longleftrightarrow> cbs = der_element CBS_ASN1_INTEGER (der_int (uint v)) @ rest"
  by (rule asn1_uint64_iff[OF assms])

text \<open>
  CBS_get_asn1_int64 accepts exactly the DER INTEGER whose contents are the shortest two's
  complement encoding of the number read as signed: the sign is extended over the bytes that are
  not there.
\<close>

theorem asn1_int64_exact:
  assumes "length cbs < 2 ^ 63"
  shows "CBS_get_asn1_int64 cbs = Ok v rest \<longleftrightarrow> cbs = der_element CBS_ASN1_INTEGER (der_int (sint v)) @ rest"
  by (rule asn1_int64_iff[OF assms])

lemma der_integer_header: "length c < 128 \<Longrightarrow> der_element CBS_ASN1_INTEGER c = 2 # of_nat (length c) # c"
  by (simp add: der_element_def der_header_def der_length_def der_tag_def tag_number_def tag_class_def)

lemma asn1_uint64_exact_witness: "CBS_get_asn1_uint64 [2, 2, 0, 0x80, 7] = Ok 0x80 [7]"
  using asn1_uint64_exact[of "[2, 2, 0, 0x80, 7]" "0x80" "[7]"]
  by (simp add: der_integer_header der_int.simps)

lemma asn1_int64_exact_witness: "CBS_get_asn1_int64 [2, 1, 0xFE, 7] = Ok (- 2) [7]"
  using asn1_int64_exact[of "[2, 1, 0xFE, 7]" "- 2" "[7]"]
  by (simp add: der_integer_header der_int.simps)

end
