(* ===== verification/Cbb_Der.thy ===== *)
theory Cbb_Der
  imports Cbb_Write Asn1_Integer
begin

text \<open>
  The DER values that a CBB writes (src/crypto/bytestring/cbb.c) are those that the readers of
  cbs.c accept: integers, booleans and octet strings, each written as a child that holds the
  contents.
\<close>

section \<open>Sequences of bytes\<close>

fun add_all :: "allocator \<Rightarrow> cbb_ptr \<Rightarrow> bytes \<Rightarrow> unit cbb_op" where
  "add_all al p [] cbb = Ok () cbb"
| "add_all al p (b # bs) cbb = bindo (CBB_add_u8 al p b cbb) (\<lambda>_. add_all al p bs)"

lemma add_all_Cons: "add_all al p (b # bs) = (\<lambda>cbb. bindo (CBB_add_u8 al p b cbb) (\<lambda>_. add_all al p bs))"
  by (rule ext) simp

lemma add_all_appends: "sized al \<Longrightarrow> bs \<noteq> [] \<Longrightarrow> appends al (add_all al p bs) p bs True"
proof (induction bs)
  case (Cons b bs)
  show ?case
  proof (cases "bs = []")
    case True
    have "add_all al p [] = Ok ()" by (rule ext) simp
    then show ?thesis using True by (intro appends_cong[OF u8_appends[OF Cons(2)]]) simp_all
  next
    case False
    from appends_bindo[where g = "\<lambda>_. add_all al p bs", OF u8_appends[OF Cons(2)] Cons(1)[OF Cons(2) False]]
    show ?thesis by (rule appends_cong) simp_all
  qed
qed simp

section \<open>Unsigned integers\<close>

text \<open>The bytes that the loop writes: the bytes of the number without leading zeros, at least one, and no sign bit.\<close>

definition unsigned_bytes :: "bytes \<Rightarrow> bytes" where
  "unsigned_bytes bs =
     (case dropWhile (\<lambda>b. b = 0) bs of
        [] \<Rightarrow> [0]
      | b # ds \<Rightarrow> (if b AND 0x80 \<noteq> 0 then [0] else []) @ b # ds)"

lemma byte_of_word: "ucast (drop_bit (8 * n) v) AND 0xff = (ucast (drop_bit (8 * n) v) :: u8)"
proof -
  have "(0xff :: u8) = mask 8" by (simp add: mask_eq_exp_minus_1)
  moreover have "unat (ucast (drop_bit (8 * n) v) :: u8) < 2 ^ 8"
    using unat_le_bound[of "ucast (drop_bit (8 * n) v) :: u8"] by simp
  ultimately show ?thesis using small_and_mask by metis
qed

lemma rev_le_bytes: "rev (le_bytes (Suc n) v) = ucast (drop_bit (8 * n) v) # rev (le_bytes n (v :: u64))"
proof (induction n arbitrary: v)
  case (Suc n)
  have "rev (le_bytes (Suc (Suc n)) v) = rev (le_bytes (Suc n) (drop_bit 8 v)) @ [ucast v]"
    unfolding le_bytes.simps(2)[of "Suc n"] by simp
  also have "\<dots> = ucast (drop_bit (8 * n) (drop_bit 8 v)) # rev (le_bytes n (drop_bit 8 v)) @ [ucast v]"
    unfolding Suc by simp
  also have "rev (le_bytes n (drop_bit 8 v)) @ [ucast v] = rev (le_bytes (Suc n) v)" by simp
  also have "drop_bit (8 * n) (drop_bit 8 v) = drop_bit (8 * Suc n) v" by (simp add: drop_bit_drop_bit add.commute)
  finally show ?case .
qed simp

lemma uint64_bytes_started:
  "uint64_bytes al child v n True = (\<lambda>cbb. bindo (add_all al (Some child) (rev (le_bytes n v)) cbb) (\<lambda>_. Ok True))"
proof (induction n)
  case (Suc n)
  show ?case by (rule ext) (simp add: rev_le_bytes byte_of_word Let_def Suc del: le_bytes.simps)
qed (rule ext, simp)

lemma uint64_bytes_eq:
  "bindo (uint64_bytes al child v n False cbb) (\<lambda>started. if \<not> started then CBB_add_u8 al (Some child) 0 else Ok ()) =
    add_all al (Some child) (unsigned_bytes (rev (le_bytes n v))) cbb"
proof (induction n)
  case 0
  have "add_all al (Some child) [] = Ok ()" by (rule ext) simp
  then show ?case by (simp add: unsigned_bytes_def)
next
  case (Suc n)
  let ?b = "ucast (drop_bit (8 * n) v) :: u8"
  show ?case
  proof (cases "?b = 0")
    case True
    then show ?thesis using Suc by (simp add: rev_le_bytes byte_of_word unsigned_bytes_def del: le_bytes.simps)
  next
    case False
    then show ?thesis
      by (simp add: rev_le_bytes byte_of_word unsigned_bytes_def uint64_bytes_started add_all_Cons Let_def del: le_bytes.simps)
  qed
qed

lemma be_append_le_bytes: "be_append 0 (rev (le_bytes n (v :: u64))) = uint v mod 256 ^ n"
proof (induction n arbitrary: v)
  case (Suc n)
  have "uint (drop_bit 8 v) = drop_bit 8 (uint v)"
    by (intro bit_eqI) (auto simp: bit_unsigned_iff bit_drop_bit_eq dest: bit_imp_le_length)
  then have d: "uint (drop_bit 8 v) = uint v div 256" by (simp add: drop_bit_eq_div)
  have m: "uint (ucast v :: u8) = uint v mod 256" by (simp add: unsigned_ucast_eq take_bit_eq_mod)
  have "uint v mod (256 * 256 ^ n) = 256 * (uint v div 256 mod 256 ^ n) + uint v mod 256"
    by (rule zmod_zmult2_eq) simp
  then show ?case using Suc[of "drop_bit 8 v"] d m by (simp add: be_append_snoc mult.commute)
qed simp

lemma be_append_zeros: "be_append 0 (dropWhile (\<lambda>b. b = 0) bs) = be_append 0 bs"
  by (induction bs) simp_all

lemma unsigned_bytes_der_int: "unsigned_bytes bs = der_int (be_append 0 bs)"
proof -
  have "minimal (unsigned_bytes bs) \<and> int_of_bytes (unsigned_bytes bs) = be_append 0 bs"
  proof (cases "dropWhile (\<lambda>b. b = 0) bs")
    case Nil
    then have "be_append 0 bs = 0" using be_append_zeros[of bs] unfolding Nil by simp
    then show ?thesis unfolding unsigned_bytes_def Nil by (simp add: minimal_def)
  next
    case (Cons b ds)
    have b: "b \<noteq> 0" using hd_dropWhile[of "\<lambda>b. b = 0" bs] Cons by auto
    have v: "be_append 0 bs = be_append (uint b) ds" using be_append_zeros[of bs] by (simp add: Cons)
    show ?thesis
    proof (cases "b AND 0x80 = 0")
      case True
      then have "uint b < 128" by (simp add: and_80_uint)
      moreover from this have "b \<noteq> 0xFF" by auto
      ultimately show ?thesis using b v True unfolding unsigned_bytes_def Cons by (simp add: minimal_def sint_u8)
    next
      case False
      then have "\<not> uint b < 128" by (simp add: and_80_uint)
      then show ?thesis using v False unfolding unsigned_bytes_def Cons by (simp add: minimal_def)
    qed
  qed
  then show ?thesis by (simp add: der_int_iff)
qed

lemma uint64_bytes_der_int: "unsigned_bytes (rev (le_bytes 8 v)) = der_int (uint (v :: u64))"
proof -
  have "uint v mod 256 ^ 8 = uint v" using uint_bounded[of v] by (simp add: mod_pos_pos_trivial)
  then show ?thesis using be_append_le_bytes[of 8 v] by (simp add: unsigned_bytes_der_int del: le_bytes.simps)
qed

section \<open>Negative integers\<close>

lemma int64_bytes_from_eq: "Suc i \<le> length u \<Longrightarrow> int64_bytes_from al child u i = add_all al (Some child) (rev (take (Suc i) u))"
proof (induction i)
  case 0
  have "add_all al (Some child) [] = Ok ()" by (rule ext) simp
  then show ?case using 0 by (intro ext) (cases u; simp)
next
  case (Suc i)
  then show ?case by (intro ext) (simp add: take_Suc_conv_app_nth[of "Suc i"] add_all_Cons)
qed

text \<open>Leading bytes 0xff that only repeat the sign do not change the number.\<close>

lemma drop_sign_byte:
  assumes "b = 0xFF" and "c AND 0x80 \<noteq> (0 :: u8)"
  shows "int_of_bytes (b # c # bs) = int_of_bytes (c # bs)"
  using assms by (simp add: sint_u8 and_80_uint)

lemma int64_start_spec:
  assumes "s < length u" and "u ! s AND 0x80 \<noteq> 0"
  shows "minimal (rev (take (Suc (int64_start u s)) u)) \<and>
    int_of_bytes (rev (take (Suc (int64_start u s)) u)) = int_of_bytes (rev (take (Suc s) u)) \<and> int64_start u s \<le> s"
  using assms
proof (induction s)
  case 0
  then show ?case by (cases u) (auto simp: minimal_def)
next
  case (Suc s)
  have t: "rev (take (Suc (Suc s)) u) = u ! Suc s # u ! s # rev (take s u)"
    using Suc.prems(1) by (simp add: take_Suc_conv_app_nth)
  show ?case
  proof (cases "u ! Suc s = 0xff \<and> u ! s AND 0x80 \<noteq> 0")
    case True
    have "rev (take (Suc s) u) = u ! s # rev (take s u)" using Suc.prems(1) by (simp add: take_Suc_conv_app_nth)
    then have "int_of_bytes (rev (take (Suc (Suc s)) u)) = int_of_bytes (rev (take (Suc s) u))"
      unfolding t using drop_sign_byte True by simp
    moreover have "int64_start u (Suc s) = int64_start u s" using True by (simp only: int64_start.simps if_True simp_thms)
    ultimately show ?thesis using Suc.IH True Suc.prems(1) by simp
  next
    case False
    then have st: "int64_start u (Suc s) = Suc s" by (simp only: int64_start.simps if_False)
    have "u ! Suc s \<noteq> 0" using Suc.prems(2) by auto
    moreover have "u ! Suc s = 0xff \<longrightarrow> uint (u ! s) < 128" using False by (auto simp: and_80_uint)
    ultimately show ?thesis unfolding st t by (auto simp: minimal_def)
  qed
qed

lemma int_of_bytes_range:
  "length bs = Suc n \<Longrightarrow> - (2 ^ (8 * n + 7)) \<le> int_of_bytes bs \<and> int_of_bytes bs < 2 ^ (8 * n + 7)"
proof (induction n arbitrary: bs)
  case 0
  then obtain b where "bs = [b]" by (cases bs) auto
  then show ?case using sint_ge[of b] sint_lt[of b] by simp
next
  case (Suc n)
  then obtain cs b where bs: "bs = cs @ [b]" "length cs = Suc n" by (cases bs rule: rev_cases) auto
  then have v: "int_of_bytes bs = int_of_bytes cs * 256 + uint b" by (intro int_of_bytes_snoc[of cs b, folded bs(1)]) auto
  let ?P = "2 ^ (8 * n + 7) :: int"
  have "x * 256 + y < P * 256" "- (P * 256) \<le> x * 256 + y" if "- P \<le> x" "x < P" "0 \<le> y" "y < 256" for x y P :: int
    using that by auto
  note r = this[of ?P "int_of_bytes cs" "uint b"]
  have "2 ^ (8 * Suc n + 7) = ?P * 256" by (simp add: power_add)
  then show ?case unfolding v using r Suc.IH[OF bs(2)] uint_byte[of b] by (simp only: simp_thms)
qed

lemma rev_le_bytes_8: "rev (le_bytes 8 v) \<noteq> []" "length (rev (le_bytes 8 v)) = Suc 7"
proof -
  show "length (rev (le_bytes 8 v)) = Suc 7" by (simp del: le_bytes.simps)
  then show "rev (le_bytes 8 v) \<noteq> []" by (metis list.size(3) nat.distinct(1))
qed

lemma int_of_le_bytes: "int_of_bytes (rev (le_bytes 8 v)) = sint (v :: u64)"
proof -
  let ?bs = "rev (le_bytes 8 v)"
  note ne = rev_le_bytes_8[of v]
  have "take_bit 64 v = v" using unat_le_bound[of v] by (simp add: take_bit_self)
  then have "v = of_int (int_of_bytes ?bs)"
    using int64_bytes[of ?bs] ne le_word_le_bytes[of 8 v] by (simp del: le_bytes.simps)
  then have "sint v = sint (of_int (int_of_bytes ?bs) :: u64)" by simp
  also have "\<dots> = int_of_bytes ?bs"
    using int_of_bytes_range[OF ne(2)] by (simp add: signed_of_int signed_take_bit_int_eq_self del: le_bytes.simps)
  finally show ?thesis by simp
qed

lemma negative_bytes_der_int:
  fixes v :: u64
  assumes "sint v < 0"
  shows "rev (take (Suc (int64_start (le_bytes 8 v) 7)) (le_bytes 8 v)) = der_int (sint v)"
    and "int64_start (le_bytes 8 v) 7 \<le> 7"
proof -
  let ?u = "le_bytes 8 (v :: u64)"
  have r: "rev ?u = ?u ! 7 # rev (take 7 ?u)"
  proof -
    have "?u = take 7 ?u @ [?u ! 7]" using take_Suc_conv_app_nth[of 7 ?u] by (simp del: le_bytes.simps)
    then show ?thesis by (metis rev.simps(2) rev_append rev_rev_ident rev_eq_Cons_iff)
  qed
  have "sint (hd (rev ?u)) < 0"
    using hd_int_of_bytes[OF rev_le_bytes_8(1)[of v]] int_of_le_bytes[of v] assms by (simp del: le_bytes.simps)
  then have h: "?u ! 7 AND 0x80 \<noteq> 0" unfolding r by (simp add: sint_neg)
  have t: "take (Suc 7) ?u = ?u" by (simp del: le_bytes.simps)
  have "7 < length ?u" by (simp del: le_bytes.simps)
  note s = int64_start_spec[OF this h, unfolded t]
  show "rev (take (Suc (int64_start ?u 7)) ?u) = der_int (sint v)"
    using s int_of_le_bytes[of v] by (simp only: der_int_iff)
  show "int64_start ?u 7 \<le> 7" using s by blast
qed

section \<open>Writing values\<close>

lemma local_ptr_fresh: "local_ptr cbb \<notin> ch_ptr ` set (cb_children cbb)"
proof -
  have "ch_ptr c \<le> foldr (\<lambda>c n. max (ch_ptr c) n) cs 0" if "c \<in> set cs" for c cs
    using that by (induction cs) auto
  then have "ch_ptr c < local_ptr cbb" if "c \<in> set (cb_children cbb)" for c
    using that by (simp add: local_ptr_def less_Suc_eq_le)
  then show ?thesis by fastforce
qed

text \<open>An operation that writes the contents of one element to a local child.\<close>

lemma value_appends:
  assumes al: "sized al" and body: "\<And>child. appends al (body child) (Some child) bs True" and n: "length bs \<le> 0xfffffffe"
    and f: "\<And>cbb. f cbb = bindo (CBB_add_asn1 al p (local_ptr cbb) tag cbb)
      (\<lambda>_ cbb'. bindo (body (local_ptr cbb) cbb') (\<lambda>_. CBB_flush al p))"
  shows "appends al f p (der_element tag bs) True"
  unfolding appends_def
proof (intro allI impI)
  fix b cs outer inner assume b: "live b cs" and p: "split_children p cs = Some (outer, inner)"
  let ?cbb = "\<lparr>cb_base = Some b, cb_children = cs\<rparr>"
  have "local_ptr ?cbb \<notin> ch_ptr ` set cs" using local_ptr_fresh[of ?cbb] by simp
  from element_scope[OF al body b p this, of tag] n
  show "cmakes al f b cs () (flushed (buf_data b) outer inner @ der_element tag bs) outer (lengths_fit (buf_data b) inner \<and> True)"
    by (simp add: cmakes_def f)
qed

lemma if_app: "(if c then f else g) x = (if c then f x else g x)"
  by simp

lemma asn1_uint64_appends:
  assumes al: "sized al"
  shows "appends al (CBB_add_asn1_uint64 al p v) p (der_element CBS_ASN1_INTEGER (der_int (uint v))) True"
proof (rule value_appends[OF al])
  let ?body = "\<lambda>child. add_all al (Some child) (unsigned_bytes (rev (le_bytes 8 v)))"
  show "appends al (?body child) (Some child) (der_int (uint v)) True" for child
    using add_all_appends[OF al, of "der_int (uint v)" "Some child"] by (simp add: uint64_bytes_der_int del: le_bytes.simps)
  show "length (der_int (uint v)) \<le> 0xfffffffe" using length_der_uint64[of v] by simp
  show "CBB_add_asn1_uint64 al p v cbb = bindo (CBB_add_asn1 al p (local_ptr cbb) CBS_ASN1_INTEGER cbb)
      (\<lambda>_ cbb'. bindo (?body (local_ptr cbb) cbb') (\<lambda>_. CBB_flush al p))" for cbb
    by (simp add: CBB_add_asn1_uint64_def Let_def uint64_bytes_eq[symmetric] if_app del: le_bytes.simps uint64_bytes.simps)
qed

lemma asn1_int64_appends:
  assumes al: "sized al"
  shows "appends al (CBB_add_asn1_int64 al p v) p (der_element CBS_ASN1_INTEGER (der_int (sint v))) True"
proof (cases "sint v < 0")
  case False
  then have "CBB_add_asn1_int64 al p v cbb = CBB_add_asn1_uint64 al p v cbb" for cbb
    by (simp add: CBB_add_asn1_int64_def)
  moreover have "uint v = sint v"
    using False uint_bounded[of v]
    by (cases "bit (uint v) 63") (simp_all add: sint_uint signed_take_bit_eq_take_bit_minus take_bit_eq_mod)
  ultimately show ?thesis by (intro appends_cong[OF asn1_uint64_appends[OF al]]) auto
next
  case True
  note nb = negative_bytes_der_int[OF True]
  let ?u = "le_bytes 8 v"
  let ?start = "int64_start ?u 7"
  show ?thesis
  proof (rule value_appends[OF al])
    let ?body = "\<lambda>child. int64_bytes_from al child ?u ?start"
    show "appends al (?body child) (Some child) (der_int (sint v)) True" for child
      using add_all_appends[OF al der_int_not_Nil, of "Some child"] int64_bytes_from_eq[of ?start ?u al child] nb
      by (simp del: le_bytes.simps int64_bytes_from.simps int64_start.simps)
    show "length (der_int (sint v)) \<le> 0xfffffffe" using length_der_int64[of v] by simp
    show "CBB_add_asn1_int64 al p v cbb = bindo (CBB_add_asn1 al p (local_ptr cbb) CBS_ASN1_INTEGER cbb)
        (\<lambda>_ cbb'. bindo (?body (local_ptr cbb) cbb') (\<lambda>_. CBB_flush al p))" for cbb
      using True by (simp only: CBB_add_asn1_int64_def Let_def not_less[symmetric] if_False simp_thms)
  qed
qed

lemma asn1_octet_string_appends:
  assumes al: "sized al" and n: "length d \<le> 0xfffffffe"
  shows "appends al (CBB_add_asn1_octet_string al p d) p (der_element CBS_ASN1_OCTETSTRING d) True"
proof (rule value_appends[OF al _ n])
  show "appends al (CBB_add_bytes al (Some child) d) (Some child) d True" for child
    using bytes_appends[OF al, of d "Some child"] n by simp
qed (simp add: CBB_add_asn1_octet_string_def Let_def)

lemma asn1_bool_appends:
  assumes al: "sized al"
  shows "appends al (CBB_add_asn1_bool al p v) p (der_element CBS_ASN1_BOOLEAN [if v then 0xff else 0]) True"
proof (rule value_appends[OF al u8_appends[OF al]])
  show "CBB_add_asn1_bool al p v cbb = bindo (CBB_add_asn1 al p (local_ptr cbb) CBS_ASN1_BOOLEAN cbb)
      (\<lambda>_ cbb'. bindo (CBB_add_u8 al (Some (local_ptr cbb)) (if v then 0xff else 0) cbb') (\<lambda>_. CBB_flush al p))" for cbb
    by (simp add: CBB_add_asn1_bool_def Let_def)
qed simp

section \<open>Finishing\<close>

text \<open>What a CBB built from nothing returns when the allocator does not fail.\<close>

lemma init_live:
  assumes al: "sized al" "never_fails al"
  shows "\<exists>b. CBB_init al True cap = Ok () \<lparr>cb_base = Some b, cb_children = []\<rparr> \<and> live b [] \<and>
    buf_data b = [] \<and> limit al b = 2 ^ 64 - 1"
proof -
  have "al cap \<noteq> None" using al(2) unfolding never_fails_def by blast
  then obtain m where m: "al cap = Some m" by blast
  moreover have "length m = unat cap" using al(1) m unfolding sized_def by blast
  ultimately show ?thesis
    using al(2) by (simp add: CBB_init_def cbb_init_def CBB_zero_def live_def wf_buf_def buf_data_def limit_def)
qed

lemma built:
  assumes al: "sized al" "never_fails al" and f: "appends al f None bs True" and n: "length bs < 2 ^ 64"
  shows "\<exists>buf len cbb. bindo (CBB_init al True cap) (\<lambda>_ cbb. bindo (f cbb) (\<lambda>_. CBB_finish al None)) = Ok (buf, len) cbb \<and>
    take (unat len) buf = bs"
proof -
  obtain b where b: "CBB_init al True cap = Ok () \<lparr>cb_base = Some b, cb_children = []\<rparr>" "live b []" "buf_data b = []"
    "limit al b = 2 ^ 64 - 1" using init_live[OF al] by blast
  have sp: "split_children None [] = Some ([], [])" by simp
  have run: "cmakes al (\<lambda>cbb. bindo (f cbb) (\<lambda>_. CBB_flush al None)) b [] () bs [] True"
    using appendsD[OF appends_bindo[where g = "\<lambda>_. CBB_flush al None", OF f flush_appends[OF al(1)]] b(2) sp] b(3) by simp
  then obtain b' where b': "bindo (f \<lparr>cb_base = Some b, cb_children = []\<rparr>) (\<lambda>_. CBB_flush al None) =
      Ok () \<lparr>cb_base = Some b', cb_children = []\<rparr>" "buf_data b' = bs"
    using b(4) n by (auto simp: cmakes_def becomes_def split: outcome.splits)
  then obtain s where s: "f \<lparr>cb_base = Some b, cb_children = []\<rparr> = Ok () s"
    "CBB_flush al None s = Ok () \<lparr>cb_base = Some b', cb_children = []\<rparr>" by auto
  then show ?thesis using b(1) b'(2) by (simp add: CBB_finish_def buf_data_def)
qed

section \<open>Writing and reading back\<close>

text \<open>The bytes that the caller gets from a CBB to which one operation was applied.\<close>

definition build :: "allocator \<Rightarrow> u64 \<Rightarrow> unit cbb_op \<Rightarrow> bytes option" where
  "build al cap f =
     (case bindo (CBB_init al True cap) (\<lambda>_ cbb. bindo (f cbb) (\<lambda>_. CBB_finish al None)) of
        Ok (buf, len) _ \<Rightarrow> Some (take (unat len) buf)
      | Fail _ \<Rightarrow> None
      | NoResult \<Rightarrow> None)"

lemma build_appends:
  assumes "sized al" "never_fails al" and "appends al f None bs True" and "length bs < 2 ^ 64"
  shows "build al cap f = Some bs"
proof -
  from built[OF assms, of cap] show ?thesis unfolding build_def by (elim exE conjE) (simp only: outcome.case prod.case)
qed

lemma length_base128_hi: "unat v < 128 ^ n \<Longrightarrow> length (base128_hi v) \<le> n"
proof (induction n arbitrary: v)
  case 0
  then show ?case by (simp add: base128_hi.simps unat_eq_0)
next
  case (Suc n)
  have "unat (drop_bit 7 v) < 128 ^ n" using Suc.prems by (simp add: drop_bit_eq_div unat_div less_mult_imp_div_less mult.commute)
  then show ?case using Suc.IH by (simp add: base128_hi.simps[of v])
qed

lemma length_base128: "length (base128 v) \<le> 10"
proof -
  have "unat (drop_bit 7 v) < 128 ^ 9" using unat_le_bound[of v] by (simp add: drop_bit_eq_div unat_div less_mult_imp_div_less)
  then show ?thesis using length_base128_hi by (fastforce simp: base128_def)
qed

lemma length_der_element: "length d \<le> 0xfffffffe \<Longrightarrow> length (der_element tag d) < 2 ^ 63"
proof -
  assume d: "length d \<le> 0xfffffffe"
  have "length (der_tag tag) \<le> 11" using length_base128 by (simp add: der_tag_def)
  moreover have "length (der_length (length d)) \<le> 5"
    using byte_len_small[of "length d"] d by (cases "length d = 0") (auto simp: der_length_def)
  ultimately show ?thesis using d by (simp add: der_element_def der_header_def)
qed

text \<open>
  C14: what CBB_add_asn1_uint64, CBB_add_asn1_int64, CBB_add_asn1_bool and
  CBB_add_asn1_octet_string write into a new CBB is read back as the same value, to its last byte,
  by CBS_get_asn1_uint64, CBS_get_asn1_int64, CBS_get_asn1_bool and CBS_get_asn1.
\<close>

theorem der_writer_roundtrip:
  assumes "sized al" and "never_fails al" and "length d \<le> 0xfffffffe"
  shows "(\<exists>bs. build al cap (CBB_add_asn1_uint64 al None v) = Some bs \<and> CBS_get_asn1_uint64 bs = Ok v []) \<and>
    (\<exists>bs. build al cap (CBB_add_asn1_int64 al None v) = Some bs \<and> CBS_get_asn1_int64 bs = Ok v []) \<and>
    (\<exists>bs. build al cap (CBB_add_asn1_bool al None t) = Some bs \<and> CBS_get_asn1_bool bs = Ok t []) \<and>
    (\<exists>bs. build al cap (CBB_add_asn1_octet_string al None d) = Some bs \<and> CBS_get_asn1 CBS_ASN1_OCTETSTRING bs = Ok d [])"
proof -
  have b: "build al cap f = Some (der_element tag c) \<and> length (der_element tag c) < 2 ^ 63"
    if "appends al f None (der_element tag c) True" "length c \<le> 0xfffffffe" for f tag c
    using build_appends[OF assms(1,2) that(1)] length_der_element[OF that(2), of tag] by simp
  note u = b[OF asn1_uint64_appends[OF assms(1)]] and i = b[OF asn1_int64_appends[OF assms(1)]]
    and t = b[OF asn1_bool_appends[OF assms(1)]] and o = b[OF asn1_octet_string_appends[OF assms(1,3)] assms(3)]
  show ?thesis
    using u[of v] i[of v] t[of t] o length_der_uint64[of v] length_der_int64[of v] assms(3)
    by (auto simp: asn1_uint64_iff asn1_int64_iff asn1_bool_iff asn1_exact)
qed

theorem der_writer_roundtrip_witness:
  "\<exists>bs. build (\<lambda>n. Some (replicate (unat n) 0)) 0 (CBB_add_asn1_int64 (\<lambda>n. Some (replicate (unat n) 0)) None (- 129)) = Some bs \<and>
    CBS_get_asn1_int64 bs = Ok (- 129) []"
  using der_writer_roundtrip[of "\<lambda>n. Some (replicate (unat n) 0)" "[]" 0 "- 129" True] by (simp add: sized_def never_fails_def)

end
