(* ===== verification/Elements.thy ===== *)
theory Elements
  imports Cbb_Der
begin

text \<open>
  More about the element parser of src/crypto/bytestring/cbs.c: it always consumes something, so
  that the loops over the elements of a string come to an end, and the elements that it accepts in
  BER are, besides those of DER, the ones with a length that is not the shortest and the headers
  of indefinite length.
\<close>

section \<open>Progress\<close>

lemma length_der_tag: "1 \<le> length (der_tag tag)" "length (der_tag tag) \<le> 11"
  using length_base128 by (auto simp: der_tag_def)

lemma header_word_pos: "unat (of_nat (Suc (length (der_tag tag))) :: u64) = Suc (length (der_tag tag))"
  using length_der_tag(2)[of tag] by (simp add: unat_of_nat take_bit_nat_eq_self del: of_nat_Suc)

lemma get_u_small:
  assumes "cbs_get_u k h = Ok v h'" and "unat k \<le> 4"
  shows "unat v < 2 ^ 32"
proof -
  have "take_bit (8 * unat k) v = v" using assms by (simp add: cbs_get_u_exact)
  then have "unat v = unat v mod 2 ^ (8 * unat k)" by (metis unsigned_take_bit_eq take_bit_eq_mod)
  moreover have "unat v mod 2 ^ (8 * unat k) < 2 ^ (8 * unat k)" by simp
  moreover have "(2::nat) ^ (8 * unat k) \<le> 2 ^ 32" using assms(2) by (intro power_increasing) auto
  ultimately show ?thesis by linarith
qed

lemma nonzero_length: "unat w + n < 2 ^ 64 \<Longrightarrow> 0 < n \<Longrightarrow> unat (w + of_nat n :: u64) \<noteq> 0"
  using unat_add_of_nat[of n w] by (simp add: add.commute)

lemma get_bytes_cut: "CBS_get_bytes n cbs = Ok out rest \<Longrightarrow> unat n \<noteq> 0 \<Longrightarrow> cbs = out @ rest \<and> out \<noteq> []"
  by (auto simp: CBS_get_bytes_exact)

lemma element_progress:
  assumes "cbs_get_any_asn1_element ber_ok cbs = Ok (out, tag, hl, ber) rest"
  shows "cbs = out @ rest \<and> out \<noteq> []"
proof (cases "bindo (parse_asn1_tag cbs) (\<lambda>tag h. bindo (CBS_get_u8 h) (\<lambda>length_byte h. Ok (tag, length_byte) h))")
  case (Ok tl h)
  obtain t l where tl: "tl = (t, l)" by (cases tl)
  have cbs: "cbs = der_tag t @ l # h" using Ok header_exact[of cbs] unfolding tl by simp
  have hl: "CBS_len cbs - CBS_len h = of_nat (Suc (length (der_tag t)))"
    using header_length_word[of t l h] cbs by simp
  let ?n = "Suc (length (der_tag t))" and ?k = "ucast l AND 0x7F :: u64"
  have n: "0 < ?n" "?n \<le> 12" using length_der_tag(2)[of t] by auto
  note d = assms[unfolded cbs_get_any_asn1_element_def Ok tl Let_def outcome.case prod.case hl]
  consider (short) "l AND 0x80 = 0" | (indefinite) "l AND 0x80 \<noteq> 0" "?k = 0" | (many) "l AND 0x80 \<noteq> 0" "?k \<noteq> 0" "4 < ?k"
    | (long) "l AND 0x80 \<noteq> 0" "?k \<noteq> 0" "\<not> 4 < ?k" by blast
  then show ?thesis
  proof cases
    case short
    then have "CBS_get_bytes (ucast l + of_nat ?n) cbs = Ok out rest" using d by (auto simp del: of_nat_Suc)
    moreover have "unat (ucast l :: u64) + ?n < 2 ^ 64" using unat_ucast_u8[of l] unat_le_bound[of l] n by simp
    ultimately show ?thesis using nonzero_length[OF _ n(1)] get_bytes_cut by blast
  next
    case indefinite
    then have "CBS_get_bytes (of_nat ?n) cbs = Ok out rest" using d by (auto simp del: of_nat_Suc split: if_splits)
    then show ?thesis using header_word_pos[of t] by (intro get_bytes_cut) auto
  next
    case many
    then show ?thesis using d by simp
  next
    case long
    then obtain v h' where v: "cbs_get_u ?k h = Ok v h'"
      and b: "CBS_get_bytes (v + (of_nat ?n + ?k)) cbs = Ok out rest"
      using d by (auto simp del: of_nat_Suc split: outcome.splits if_splits)
    have k: "unat ?k \<le> 4" using shift_amount(3)[of ?k] long by simp
    have "unat v < 2 ^ 32" using get_u_small[OF v k] .
    then have "unat (v + ?k) = unat v + unat ?k" using k by (subst unat_plus) auto
    then have "unat (v + ?k) + ?n < 2 ^ 64" using k n \<open>unat v < 2 ^ 32\<close> by simp
    then have nz: "unat (v + ?k + of_nat ?n) \<noteq> 0" using nonzero_length n(1) by blast
    have eq: "v + (of_nat ?n + ?k) = v + ?k + of_nat ?n" by simp
    show ?thesis using get_bytes_cut[OF b[unfolded eq] nz] .
  qed
qed (use assms in \<open>simp_all add: cbs_get_any_asn1_element_def\<close>)

lemma der_element_progress: "CBS_get_any_asn1_element cbs = Ok (out, tag, hl) rest \<Longrightarrow> cbs = out @ rest \<and> out \<noteq> []"
  using element_progress by (fastforce simp: CBS_get_any_asn1_element_def)

section \<open>Elements of BER\<close>

text \<open>The bytes that may give the length of contents of a definite length.\<close>

definition ber_length :: "nat \<Rightarrow> bytes \<Rightarrow> bool" where
  "ber_length n lb \<longleftrightarrow> (n < 128 \<and> lb = [of_nat n]) \<or>
     (\<exists>k. 1 \<le> k \<and> k \<le> 4 \<and> n < 256 ^ k \<and> lb = (0x80 OR of_nat k) # rev (le_bytes k (of_nat n :: u64)))"

lemma small_masked: "k \<noteq> 0 \<Longrightarrow> \<not> 4 < (k :: u64) \<Longrightarrow> \<exists>j. k = of_nat j \<and> 1 \<le> j \<and> j \<le> 4"
  using shift_amount(2,3)[of k] by (intro exI[of _ "unat k"]) simp

lemma ber_element_sound:
  assumes l: "length cbs < 2 ^ 63" and parse: "cbs_get_any_asn1_element True cbs = Ok (out, tag, hl, ber) rest"
  shows "cbs = out @ rest \<and>
    ((\<exists>lb c. ber_length (length c) lb \<and> out = der_tag tag @ lb @ c \<and> hl = of_nat (length (der_tag tag @ lb))) \<or>
     (tag AND CBS_ASN1_CONSTRUCTED \<noteq> 0 \<and> out = der_tag tag @ [0x80] \<and> hl = of_nat (length out)))"
proof (cases "bindo (parse_asn1_tag cbs) (\<lambda>tag h. bindo (CBS_get_u8 h) (\<lambda>length_byte h. Ok (tag, length_byte) h))")
  case (Ok tl h)
  obtain t b where tl: "tl = (t, b)" by (cases tl)
  have cbs: "cbs = der_tag t @ b # h" using Ok header_exact[of cbs] unfolding tl by simp
  have hl: "CBS_len cbs - CBS_len h = of_nat (Suc (length (der_tag t)))"
    using header_length_word[of t b h] cbs by simp
  let ?n = "Suc (length (der_tag t))" and ?k = "ucast b AND 0x7F :: u64"
  note d = parse[unfolded cbs_get_any_asn1_element_def Ok tl Let_def outcome.case prod.case hl]
  consider (short) "b AND 0x80 = 0" | (indefinite) "b AND 0x80 \<noteq> 0" "?k = 0" | (many) "b AND 0x80 \<noteq> 0" "?k \<noteq> 0" "4 < ?k"
    | (long) "b AND 0x80 \<noteq> 0" "?k \<noteq> 0" "\<not> 4 < ?k" by blast
  then show ?thesis
  proof cases
    case short
    then have r: "CBS_get_bytes (ucast b + of_nat (length (der_tag t @ [b]))) cbs = Ok out rest" "tag = t" "hl = of_nat (length (der_tag t @ [b]))"
      using d by (auto simp del: of_nat_Suc)
    have "cbs = (der_tag t @ [b]) @ h" using cbs by simp
    moreover have "unat (ucast b :: u64) < 2 ^ 63" using unat_ucast_u8[of b] unat_le_bound[of b] by simp
    ultimately obtain c where c: "out = (der_tag t @ [b]) @ c" "length c = unat b" "h = c @ rest"
      using r(1) l cut_element_word[of cbs "der_tag t @ [b]" h "ucast b" out rest] unat_ucast_u8[of b] by auto
    have "ber_length (length c) [b]" using c(2) short by (simp add: ber_length_def and_80_unat)
    then show ?thesis using c r cbs by (intro conjI disjI1 exI[of _ "[b]"] exI[of _ c]) auto
  next
    case indefinite
    then have r: "CBS_get_bytes (of_nat ?n) cbs = Ok out rest" "tag = t" "hl = of_nat ?n" "t AND CBS_ASN1_CONSTRUCTED \<noteq> 0"
      using d by (auto simp del: of_nat_Suc split: if_splits)
    have "b = 0x80 OR of_nat 0" using long_byte[of 0 b] indefinite by (simp add: unat_eq_zero)
    then have b: "b = 0x80" by simp
    have "cbs = out @ rest" "length out = ?n" using r(1) header_word_pos[of t] by (auto simp: CBS_get_bytes_exact)
    moreover have "cbs = (der_tag t @ [b]) @ h" using cbs by simp
    ultimately have "out = der_tag t @ [b]" by (metis append_eq_append_conv length_append_singleton)
    then show ?thesis using r b \<open>cbs = out @ rest\<close> by auto
  next
    case many
    then show ?thesis using d by simp
  next
    case long
    then obtain v h' where v: "cbs_get_u ?k h = Ok v h'" and r: "tag = t" "hl = of_nat ?n + ?k"
      and g: "CBS_get_bytes (v + (of_nat ?n + ?k)) cbs = Ok out rest"
      using d by (auto simp del: of_nat_Suc split: outcome.splits if_splits)
    obtain j where j: "?k = of_nat j" "1 \<le> j" "j \<le> 4" using small_masked long(2,3) by blast
    have uj: "unat (of_nat j :: u64) = j" using j by (simp add: unat_of_nat)
    have h: "h = rev (le_bytes j v) @ h'" "unat v < 256 ^ j"
      using v j by (simp_all add: cbs_get_u_exact uj take_bit_self power_mult)
    let ?hdr = "der_tag t @ b # rev (le_bytes j v)"
    have hdr: "cbs = ?hdr @ h'" using cbs h(1) by simp
    have v63: "unat v < 2 ^ 63" using get_u_small[OF v] shift_amount(3)[of ?k] long by simp
    have lh: "(of_nat ?n + ?k) = (of_nat (length ?hdr) :: u64)" unfolding j(1) by simp
    obtain c where c: "out = ?hdr @ c" "length c = unat v" "h' = c @ rest"
      using g unfolding lh cut_element_word[OF hdr l v63] by blast
    have "b = 0x80 OR of_nat j" using long_byte[OF j(3), of b] long(1) j(1) uj by simp
    then have "ber_length (length c) (b # rev (le_bytes j v))" using c(2) j(2,3) h(2) by (auto simp: ber_length_def)
    then show ?thesis
      using c r lh cbs h(1) by (intro conjI disjI1 exI[of _ "b # rev (le_bytes j v)"] exI[of _ c]) auto
  qed
qed (use parse in \<open>simp_all add: cbs_get_any_asn1_element_def\<close>)

text \<open>Every element of these two forms is found.\<close>

lemma word_of_unat: "unat (x :: u64) = k \<Longrightarrow> x = of_nat k"
  by auto

lemma ber_element_complete:
  assumes l: "length (der_tag tag @ lb @ c @ rest) < 2 ^ 63" and lb: "ber_length (length c) lb"
  shows "\<exists>ber. cbs_get_any_asn1_element True (der_tag tag @ lb @ c @ rest) =
    Ok (der_tag tag @ lb @ c, tag, of_nat (length (der_tag tag @ lb)), ber) rest"
  using lb[unfolded ber_length_def]
proof (elim disjE exE conjE)
  assume n: "length c < 128" "lb = [of_nat (length c)]"
  let ?l = "of_nat (length c) :: u8" and ?cbs = "der_tag tag @ lb @ c @ rest" and ?hdr = "der_tag tag @ lb"
  have ul: "unat ?l = length c" using n(1) by (simp add: unat_of_nat take_bit_nat_eq_self)
  have h: "bindo (parse_asn1_tag ?cbs) (\<lambda>tag h. bindo (CBS_get_u8 h) (\<lambda>length_byte h. Ok (tag, length_byte) h)) = Ok (tag, ?l) (c @ rest)"
    unfolding header_exact using n(2) by simp
  have hl: "CBS_len ?cbs - CBS_len (c @ rest) = of_nat (length ?hdr)" using header_length_word[of tag ?l "c @ rest"] n(2) by simp
  have u: "unat (ucast ?l :: u64) = length c" using ul by (simp add: unat_ucast_u8)
  have "CBS_get_bytes (ucast ?l + of_nat (length ?hdr)) ?cbs = Ok (der_tag tag @ lb @ c) rest"
    using cut_element_word[of ?cbs ?hdr "c @ rest" "ucast ?l"] l u n(1) by simp
  moreover have "?l AND 0x80 = 0" using ul n(1) by (simp add: and_80_unat)
  ultimately show ?thesis unfolding cbs_get_any_asn1_element_def h Let_def outcome.case prod.case hl by auto
next
  fix k assume k: "1 \<le> k" "k \<le> 4" "length c < 256 ^ k" "lb = (0x80 OR of_nat k) # rev (le_bytes k (of_nat (length c) :: u64))"
  let ?l = "0x80 OR of_nat k :: u8" and ?v = "of_nat (length c) :: u64" and ?cbs = "der_tag tag @ lb @ c @ rest" and ?hdr = "der_tag tag @ lb"
  let ?h = "rev (le_bytes k ?v) @ c @ rest" and ?k = "ucast ?l AND 0x7F :: u64"
  have h: "bindo (parse_asn1_tag ?cbs) (\<lambda>tag h. bindo (CBS_get_u8 h) (\<lambda>length_byte h. Ok (tag, length_byte) h)) = Ok (tag, ?l) ?h"
    unfolding header_exact using k(4) by simp
  have lbk: "?l AND 0x80 \<noteq> 0" "?k = of_nat k" using long_byte[OF k(2), of ?l] word_of_unat by blast+
  have uk: "unat (of_nat k :: u64) = k" using k(2) by (simp add: unat_of_nat)
  have "(256::nat) ^ k \<le> 256 ^ 4" using k(2) by (intro power_increasing) auto
  then have v: "unat ?v = length c" "length c < 2 ^ 32" using k(3) by (simp_all add: unat_of_nat take_bit_nat_eq_self)
  have g: "cbs_get_u (of_nat k) ?h = Ok ?v (c @ rest)" using k(2,3) v(1) by (simp add: cbs_get_u_exact uk take_bit_self power_mult)
  have hl: "CBS_len ?cbs - CBS_len ?h + of_nat k = of_nat (length ?hdr)" using header_length_word[of tag ?l ?h] k(4) by simp
  have b: "CBS_get_bytes (?v + of_nat (length ?hdr)) ?cbs = Ok (der_tag tag @ lb @ c) rest"
    using cut_element_word[of ?cbs ?hdr "c @ rest" ?v] l v by simp
  have no: "\<not> ?v + (CBS_len ?cbs - CBS_len ?h) + of_nat k < ?v"
  proof -
    have "length ?hdr + length c < 2 ^ 63" using l by simp
    then have "unat (?v + of_nat (length ?hdr)) = length ?hdr + length c" using v(1) by (subst unat_add_of_nat) auto
    then show ?thesis unfolding add.assoc hl by (simp add: word_less_nat_alt v(1))
  qed
  have nz: "(of_nat k :: u64) \<noteq> 0" "\<not> 4 < (of_nat k :: u64)" using k(1,2) uk by (auto simp: word_less_nat_alt)
  show ?thesis
    unfolding cbs_get_any_asn1_element_def h Let_def outcome.case prod.case lbk(2)
    using lbk(1) nz g no b hl by simp
qed

lemma indefinite_complete:
  assumes "tag AND CBS_ASN1_CONSTRUCTED \<noteq> 0"
  shows "cbs_get_any_asn1_element True (der_tag tag @ 0x80 # rest) =
    Ok (der_tag tag @ [0x80], tag, of_nat (length (der_tag tag @ [0x80])), True) rest"
proof -
  let ?cbs = "der_tag tag @ 0x80 # rest" and ?hdr = "der_tag tag @ [0x80]"
  have h: "bindo (parse_asn1_tag ?cbs) (\<lambda>tag h. bindo (CBS_get_u8 h) (\<lambda>length_byte h. Ok (tag, length_byte) h)) = Ok (tag, 0x80) rest"
    unfolding header_exact ..
  have hl: "CBS_len ?cbs - CBS_len rest = of_nat (length ?hdr)" using header_length_word[of tag "0x80" rest] by simp
  have "unat (of_nat (length ?hdr) :: u64) = length ?hdr" using header_word_pos[of tag] by simp
  then have "CBS_get_bytes (of_nat (length ?hdr)) ?cbs = Ok ?hdr rest" by (simp add: CBS_get_bytes_exact del: of_nat_Suc of_nat_add length_append)
  then show ?thesis unfolding cbs_get_any_asn1_element_def h Let_def outcome.case prod.case hl using assms by simp
qed

end
