(* ===== verification/Oid.thy ===== *)
theory Oid
  imports Cbb_Der
begin

text \<open>
  Object identifiers as text: CBB_add_asn1_oid_from_text of src/crypto/bytestring/cbb.c and
  CBS_asn1_oid_to_text of src/crypto/bytestring/cbs.c. The first accepts exactly the texts of the
  identifiers with at least two components, the second gives the text back.
\<close>

section \<open>From text\<close>

abbreviation UINT64_MAX :: u64 where "UINT64_MAX \<equiv> - 1"

text \<open>The loop over the digits; a component ends with the text or with a dot that is not its last byte.\<close>

fun dotted_loop :: "u64 \<Rightarrow> bool \<Rightarrow> u64 reader" where
  "dotted_loop out seen_digit [] = (if seen_digit then Ok out [] else Fail [])"
| "dotted_loop out seen_digit (u # cbs) =
     (if u = 46 \<and> 0 < CBS_len cbs then (if seen_digit then Ok out cbs else Fail cbs)
      else if u < 48 \<or> 57 < u \<or> (seen_digit \<and> out = 0) \<or> UINT64_MAX div 10 < out \<or>
        UINT64_MAX - ucast (u - 48) < out * 10 then Fail cbs
      else dotted_loop (out * 10 + ucast (u - 48)) True cbs)"

definition parse_dotted_decimal :: "u64 reader" where
  "parse_dotted_decimal cbs = dotted_loop 0 False cbs"

lemma dotted_loop_length: "dotted_loop out seen cbs = Ok v rest \<Longrightarrow> length rest < length cbs \<or> cbs = [] \<and> seen"
  by (induction out seen cbs rule: dotted_loop.induct) (auto split: if_splits)

lemma parse_dotted_length: "parse_dotted_decimal cbs = Ok v rest \<Longrightarrow> length rest < length cbs"
  using dotted_loop_length[of 0 False cbs v rest] by (simp add: parse_dotted_decimal_def)

text \<open>The components after the first two.\<close>

function oid_components :: "allocator \<Rightarrow> cbb_ptr \<Rightarrow> CBS \<Rightarrow> unit cbb_op" where
  "oid_components al p cbs cbb =
     (if CBS_len cbs = 0 then Ok () cbb
      else case parse_dotted_decimal cbs of
             Ok a cbs \<Rightarrow> bindo (add_base128_integer al p a cbb) (\<lambda>_. oid_components al p cbs)
           | Fail _ \<Rightarrow> Fail cbb
           | NoResult \<Rightarrow> NoResult)"
  by pat_completeness auto

termination
  by (relation "measure (\<lambda>(al, p, cbs, cbb). length cbs)") (auto dest: parse_dotted_length)

declare oid_components.simps [simp del]

definition CBB_add_asn1_oid_from_text :: "allocator \<Rightarrow> cbb_ptr \<Rightarrow> bytes \<Rightarrow> unit cbb_op" where
  "CBB_add_asn1_oid_from_text al p text cbb =
     bindo (CBB_flush al p cbb) (\<lambda>_ cbb.
       case bindo (parse_dotted_decimal text) (\<lambda>a cbs. bindo (parse_dotted_decimal cbs) (\<lambda>b cbs. Ok (a, b) cbs)) of
         Ok (a, b) cbs \<Rightarrow>
           if 2 < a \<or> (a < 2 \<and> 39 < b) \<or> UINT64_MAX - 80 < b then Fail cbb
           else bindo (add_base128_integer al p (40 * a + b) cbb) (\<lambda>_. oid_components al p cbs)
       | Fail _ \<Rightarrow> Fail cbb
       | NoResult \<Rightarrow> NoResult)"

section \<open>To text\<close>

text \<open>The text of a number that \<open>BIO_snprintf\<close> writes for the format \<open>PRIu64\<close>.\<close>

fun decimal :: "nat \<Rightarrow> bytes" where
  "decimal n = (if n < 10 then [48 + of_nat n] else decimal (n div 10) @ [48 + of_nat (n mod 10)])"

declare decimal.simps [simp del]

definition add_decimal :: "allocator \<Rightarrow> u64 \<Rightarrow> unit cbb_op" where
  "add_decimal al v cbb = CBB_add_bytes al None (decimal (unat v)) cbb"

lemma base128_loop_length: "base128_loop v cbs = Ok w rest \<Longrightarrow> length rest < length cbs"
  by (induction v cbs rule: base128_loop.induct) (auto simp: Let_def split: if_splits)

lemma parse_base128_length: "parse_base128_integer cbs = Ok v rest \<Longrightarrow> length rest < length cbs"
  unfolding parse_base128_integer_def by (rule base128_loop_length)

function oid_rest_text :: "allocator \<Rightarrow> CBS \<Rightarrow> unit cbb_op" where
  "oid_rest_text al copy cbb =
     (if CBS_len copy = 0 then Ok () cbb
      else case parse_base128_integer copy of
             Ok v copy \<Rightarrow> bindo (bindo (CBB_add_u8 al None 46 cbb) (\<lambda>_. add_decimal al v)) (\<lambda>_. oid_rest_text al copy)
           | Fail _ \<Rightarrow> Fail cbb
           | NoResult \<Rightarrow> NoResult)"
  by pat_completeness auto

termination
  by (relation "measure (\<lambda>(al, copy, cbb). length copy)") (auto dest: parse_base128_length)

declare oid_rest_text.simps [simp del]

text \<open>The result is the block of memory that the caller gets, None for NULL.\<close>

definition CBS_asn1_oid_to_text :: "allocator \<Rightarrow> bool \<Rightarrow> CBS \<Rightarrow> bytes option" where
  "CBS_asn1_oid_to_text al ok cbs =
     (case bindo (CBB_init al ok 32) (\<lambda>_ cbb.
        case parse_base128_integer cbs of
          Ok v copy \<Rightarrow>
            bindo (if 80 \<le> v then bindo (CBB_add_bytes al None [50, 46] cbb) (\<lambda>_. add_decimal al (v - 80))
                   else bindo (bindo (add_decimal al (v div 40) cbb) (\<lambda>_. CBB_add_u8 al None 46)) (\<lambda>_. add_decimal al (v mod 40)))
              (\<lambda>_ cbb. bindo (oid_rest_text al copy cbb) (\<lambda>_ cbb.
                bindo (CBB_add_u8 al None 0 cbb) (\<lambda>_. CBB_finish al None)))
        | Fail _ \<Rightarrow> Fail cbb
        | NoResult \<Rightarrow> NoResult) of
        Ok (txt, txt_len) _ \<Rightarrow> Some txt
      | Fail _ \<Rightarrow> None
      | NoResult \<Rightarrow> None)"

section \<open>Decimal numbers\<close>

lemma decimal_small: "n < 10 \<Longrightarrow> decimal n = [48 + of_nat n]"
  by (simp add: decimal.simps[of n])

lemma decimal_snoc: "0 < n \<Longrightarrow> d < 10 \<Longrightarrow> decimal (n * 10 + d) = decimal n @ [48 + of_nat d]"
  by (simp add: decimal.simps[of "n * 10 + d"])

lemma decimal_not_Nil [simp]: "decimal n \<noteq> []"
  by (simp add: decimal.simps[of n])

text \<open>A digit and its value.\<close>

lemma digit_value:
  assumes "\<not> u < 48" and "\<not> 57 < (u :: u8)"
  shows "unat (ucast (u - 48) :: u64) = unat u - 48" and "unat u - 48 < 10" and "48 + of_nat (unat u - 48) = u"
proof -
  have u: "48 \<le> unat u" "unat u \<le> 57" using assms by (auto simp: word_less_nat_alt)
  then have "unat (u - 48) = unat u - 48" by (simp add: unat_sub_if')
  then show "unat (ucast (u - 48) :: u64) = unat u - 48" by (simp add: unat_ucast_u8)
  show "unat u - 48 < 10" using u by simp
  have "48 + of_nat (unat u - 48) = (of_nat (48 + (unat u - 48)) :: u8)" by (simp del: of_nat_diff)
  then show "48 + of_nat (unat u - 48) = u" using u by simp
qed

lemma byte_digit: "d < 10 \<Longrightarrow> unat (48 + of_nat d :: u8) = 48 + d"
  by (simp add: unat_word_ariths unat_of_nat)

lemma unat_max: "unat UINT64_MAX = 2 ^ 64 - 1"
  by (simp add: unsigned_minus_1_eq_mask mask_eq_exp_minus_1)

lemma unat_max_minus: "unat (UINT64_MAX - d) = 2 ^ 64 - 1 - unat d"
  using unat_le_bound[of d] unat_max by (simp add: unat_sub_if')

lemma append_digit_word:
  assumes "\<not> UINT64_MAX div 10 < out" and "\<not> UINT64_MAX - d < out * 10"
  shows "unat (out * 10 + d) = unat out * 10 + unat d"
proof -
  have m: "unat (UINT64_MAX div 10) = (2 ^ 64 - 1) div 10" by (simp add: unat_div)
  have "unat out * 10 < 2 ^ 64" using assms(1) m by (simp add: word_less_nat_alt)
  then have t: "unat (out * 10) = unat out * 10" by (subst unat_mult_lem[THEN iffD1]) auto
  have "unat (UINT64_MAX - d) = 2 ^ 64 - 1 - unat d" by (rule unat_max_minus)
  then have "unat out * 10 + unat d < 2 ^ 64"
    using assms(2) t unat_le_bound[of d] by (simp add: word_less_nat_alt)
  then show ?thesis using t by (subst unat_plus) auto
qed

lemma append_digit_checks:
  assumes "unat out * 10 + unat d < 2 ^ 64"
  shows "\<not> UINT64_MAX div 10 < out" and "\<not> UINT64_MAX - d < out * 10" and "unat (out * 10 + d) = unat out * 10 + unat d"
proof -
  have m: "unat (UINT64_MAX div 10) = (2 ^ 64 - 1) div 10" by (simp add: unat_div)
  show "\<not> UINT64_MAX div 10 < out" using assms m by (simp add: word_less_nat_alt)
  have t: "unat (out * 10) = unat out * 10" using assms by (subst unat_mult_lem[THEN iffD1]) auto
  have "unat (UINT64_MAX - d) = 2 ^ 64 - 1 - unat d" by (rule unat_max_minus)
  then show "\<not> UINT64_MAX - d < out * 10" using t assms by (simp add: word_less_nat_alt)
  show "unat (out * 10 + d) = unat out * 10 + unat d" using t assms by (subst unat_plus) auto
qed

section \<open>Components\<close>

text \<open>A component and what follows it: nothing, or a dot and the other components.\<close>

definition dotted :: "u64 \<Rightarrow> bytes \<Rightarrow> bytes" where
  "dotted v rest = decimal (unat v) @ (if rest = [] then [] else 46 # rest)"

lemma dotted_loop_sound:
  "dotted_loop out seen cbs = Ok v rest \<Longrightarrow> (\<not> seen \<Longrightarrow> out = 0) \<Longrightarrow>
    (if seen then decimal (unat out) else []) @ cbs = dotted v rest"
proof (induction out seen cbs rule: dotted_loop.induct)
  case (2 out seen u cbs)
  show ?case
  proof (cases "u = 46 \<and> 0 < CBS_len cbs")
    case True
    then have "cbs \<noteq> []" by (auto simp: CBS_len_def)
    then show ?thesis using 2(2) True by (auto simp: dotted_def split: if_splits)
  next
    case False
    let ?d = "ucast (u - 48) :: u64"
    have c: "\<not> u < 48" "\<not> 57 < u" "\<not> (seen \<and> out = 0)" "\<not> UINT64_MAX div 10 < out" "\<not> UINT64_MAX - ?d < out * 10"
      and run: "dotted_loop (out * 10 + ?d) True cbs = Ok v rest"
      using 2(2) False by (auto split: if_splits)
    note dv = digit_value[OF c(1,2)]
    have sum: "unat (out * 10 + ?d) = unat out * 10 + (unat u - 48)"
      using append_digit_word[OF c(4,5)] dv(1) by simp
    have "decimal (unat (out * 10 + ?d)) = (if seen then decimal (unat out) else []) @ [u]"
    proof (cases seen)
      case True
      then have "0 < unat out" using c(3) by (simp add: unat_gt_0)
      then show ?thesis using True dv(2,3) unfolding sum by (simp add: decimal_snoc)
    next
      case seen: False
      then show ?thesis using 2(3) dv(2,3) unfolding sum by (simp add: decimal_small)
    qed
    moreover have "decimal (unat (out * 10 + ?d)) @ cbs = dotted v rest"
      using 2(1)[OF False _ run] c by auto
    ultimately show ?thesis by auto
  qed
qed (auto simp: dotted_def split: if_splits)

lemma dotted_loop_digits:
  "n < 2 ^ 64 \<Longrightarrow> dotted_loop 0 False (decimal n @ cs) = dotted_loop (of_nat n) True cs"
proof (induction n arbitrary: cs rule: decimal.induct)
  case (1 n)
  let ?d = "48 + of_nat (n mod 10) :: u8"
  have d: "unat ?d = 48 + n mod 10" by (rule byte_digit) simp
  then have range: "\<not> ?d < 48" "\<not> 57 < ?d" by (simp_all add: word_less_nat_alt)
  have "unat ?d \<noteq> unat (46 :: u8)" unfolding d by simp
  then have dot: "?d \<noteq> 46" by metis
  have ud: "unat (ucast (?d - 48) :: u64) = n mod 10" using digit_value(1)[OF range(1,2)] d by simp
  have step: "dotted_loop (of_nat (n div 10)) seen (?d # cs) = dotted_loop (of_nat n) True cs"
    if "\<not> (seen \<and> n div 10 = 0)" for seen
  proof -
    have q: "unat (of_nat (n div 10) :: u64) = n div 10" using 1(2) by (simp add: unat_of_nat take_bit_nat_eq_self)
    have s: "unat (of_nat (n div 10) :: u64) * 10 + unat (ucast (?d - 48) :: u64) < 2 ^ 64"
      using 1(2) unfolding q ud by simp
    note ch = append_digit_checks[OF s]
    have "of_nat (n div 10) * 10 + ucast (?d - 48) = (of_nat n :: u64)"
      using unat_eq_of_nat[OF ch(3)] unfolding q ud by simp
    moreover have "\<not> (seen \<and> (of_nat (n div 10) :: u64) = 0)" using that q by (metis unat_0)
    ultimately show ?thesis using range dot ch(1,2) by (cases seen) simp_all
  qed
  show ?case
  proof (cases "n < 10")
    case True
    then show ?thesis using step[of False] by (simp add: decimal_small)
  next
    case False
    then have "decimal n = decimal (n div 10) @ [?d]" by (simp add: decimal.simps[of n])
    moreover have "n div 10 < 2 ^ 64" using 1(2) by linarith
    ultimately show ?thesis using 1(1)[OF False, of "?d # cs"] step[of True] False by simp
  qed
qed

lemma parse_dotted_exact [cbs_exact]:
  assumes "length cbs < 2 ^ 64"
  shows "parse_dotted_decimal cbs = Ok v rest \<longleftrightarrow> cbs = dotted v rest"
proof
  assume "parse_dotted_decimal cbs = Ok v rest"
  then show "cbs = dotted v rest" using dotted_loop_sound[of 0 False cbs v rest] by (simp add: parse_dotted_decimal_def)
next
  assume c: "cbs = dotted v rest"
  then have "length rest < 2 ^ 64" using assms by (simp add: dotted_def split: if_splits)
  then have "rest \<noteq> [] \<Longrightarrow> 0 < CBS_len rest"
    by (simp add: CBS_len_def word_gt_0 word_of_nat_eq_0_iff nat_dvd_not_less)
  then show "parse_dotted_decimal cbs = Ok v rest"
    using dotted_loop_digits[of "unat v"] unat_le_bound[of v]
    by (simp add: c parse_dotted_decimal_def dotted_def)
qed

section \<open>Identifiers\<close>

text \<open>An identifier is its first two components and the others; its text and its encoding.\<close>

fun oid_text :: "u64 list \<Rightarrow> bytes" where
  "oid_text [] = []"
| "oid_text (v # vs) = dotted v (oid_text vs)"

definition valid_oid :: "u64 \<Rightarrow> u64 \<Rightarrow> bool" where
  "valid_oid a b \<longleftrightarrow> a \<le> 2 \<and> (a < 2 \<longrightarrow> b \<le> 39) \<and> b \<le> UINT64_MAX - 80"

definition oid_contents :: "u64 \<Rightarrow> u64 \<Rightarrow> u64 list \<Rightarrow> bytes" where
  "oid_contents a b vs = base128 (40 * a + b) @ concat (map base128 vs)"

lemma CBS_len_0: "length cbs < 2 ^ 64 \<Longrightarrow> CBS_len cbs = 0 \<longleftrightarrow> cbs = []"
  by (auto simp: CBS_len_def word_of_nat_eq_0_iff dest: dvd_imp_le)

lemma dotted_not_Nil [simp]: "dotted v rest \<noteq> []"
  by (simp add: dotted_def)

lemma oid_text_Nil [simp]: "oid_text vs = [] \<longleftrightarrow> vs = []"
  by (cases vs) (auto simp: dotted_def)

lemma length_dotted: "length rest < length (dotted v rest)"
  by (cases "decimal (unat v)") (auto simp: dotted_def)

lemma length_base128_pos: "0 < length (base128 v)"
  by (simp add: base128_def)

text \<open>The components after the first two are appended one after the other.\<close>

lemma oid_components_continues:
  assumes al: "sized al"
  shows "length (oid_text vs) < 2 ^ 64 \<Longrightarrow> continues al (oid_components al p (oid_text vs)) p (concat (map base128 vs)) True"
proof (induction vs)
  case Nil
  show ?case by (rule continues_cong[OF continues_Ok]) (simp_all add: oid_components.simps CBS_len_def)
next
  case (Cons v vs)
  let ?rest = "oid_text vs"
  have l: "length ?rest < 2 ^ 64" using Cons.prems(1) length_dotted[of ?rest v] by simp
  have parse: "parse_dotted_decimal (oid_text (v # vs)) = Ok v ?rest"
    using Cons.prems(1) by (simp add: parse_dotted_exact)
  have "CBS_len (oid_text (v # vs)) \<noteq> 0" using CBS_len_0[OF Cons.prems(1)] by simp
  then have eq: "oid_components al p (oid_text (v # vs)) cbb =
      bindo (add_base128_integer al p v cbb) (\<lambda>_. oid_components al p ?rest)" for cbb
    by (subst oid_components.simps) (simp only: parse outcome.case if_False)
  from continues_bindo[where g = "\<lambda>_. oid_components al p ?rest", OF
      appends_continues[OF base128_appends[OF al]] Cons.IH[OF l]]
  show ?case by (rule continues_cong) (simp_all add: eq del: oid_text.simps)
qed

lemma oid_from_text_appends:
  assumes al: "sized al" and v: "valid_oid a b" and l: "length (oid_text (a # b # vs)) < 2 ^ 64"
  shows "appends al (CBB_add_asn1_oid_from_text al p (oid_text (a # b # vs))) p (oid_contents a b vs) True"
proof -
  let ?t = "oid_text (a # b # vs)"
  have l1: "length (oid_text (b # vs)) < 2 ^ 64" "length (oid_text vs) < 2 ^ 64"
    using l length_dotted[of "oid_text (b # vs)" a] length_dotted[of "oid_text vs" b] by auto
  have parse: "bindo (parse_dotted_decimal ?t) (\<lambda>a cbs. bindo (parse_dotted_decimal cbs) (\<lambda>b cbs. Ok (a, b) cbs)) =
      Ok (a, b) (oid_text vs)"
  proof -
    have "parse_dotted_decimal ?t = Ok a (oid_text (b # vs))" "parse_dotted_decimal (oid_text (b # vs)) = Ok b (oid_text vs)"
      unfolding parse_dotted_exact[OF l] parse_dotted_exact[OF l1(1)] by simp_all
    then show ?thesis by (simp only: bindo.simps)
  qed
  have checks: "\<not> (2 < a \<or> (a < 2 \<and> 39 < b) \<or> UINT64_MAX - 80 < b)" using v by (auto simp: valid_oid_def not_less)
  have eq: "CBB_add_asn1_oid_from_text al p ?t cbb = bindo (bindo (CBB_flush al p cbb)
      (\<lambda>_. add_base128_integer al p (40 * a + b))) (\<lambda>_. oid_components al p (oid_text vs))" for cbb
    by (simp only: CBB_add_asn1_oid_from_text_def parse outcome.case prod.case checks if_False bindo_assoc)
  from appends_bindo_continues[where g = "\<lambda>_. oid_components al p (oid_text vs)", OF
      appends_bindo[where g = "\<lambda>_. add_base128_integer al p (40 * a + b)", OF flush_appends[OF al] base128_appends[OF al]]
      oid_components_continues[OF al l1(2)]]
  show ?thesis by (rule appends_cong) (simp_all add: eq oid_contents_def del: oid_text.simps)
qed

text \<open>No other text is accepted.\<close>

lemma oid_components_Ok:
  "oid_components al p cbs cbb = Ok u cbb' \<Longrightarrow> length cbs < 2 ^ 64 \<Longrightarrow> \<exists>vs. cbs = oid_text vs"
proof (induction al p cbs cbb arbitrary: u cbb' rule: oid_components.induct)
  case (1 al p cbs cbb)
  show ?case
  proof (cases "CBS_len cbs = 0")
    case True
    then show ?thesis using CBS_len_0[OF 1(3)] by (intro exI[of _ "[]"]) simp
  next
    case False
    then obtain v rest where p: "parse_dotted_decimal cbs = Ok v rest"
      using 1(2) by (subst (asm) oid_components.simps) (auto split: outcome.splits)
    then obtain w s where run: "oid_components al p rest s = Ok w cbb'"
      using 1(2) False by (subst (asm) oid_components.simps) auto
    have d: "cbs = dotted v rest" using p parse_dotted_exact[OF 1(3)] by simp
    have "length rest < 2 ^ 64" using parse_dotted_length[OF p] 1(3) by simp
    then obtain vs where "rest = oid_text vs" using 1(1)[OF False p run] by blast
    then show ?thesis using d by (intro exI[of _ "v # vs"]) simp
  qed
qed

lemma oid_from_text_Ok:
  assumes "CBB_add_asn1_oid_from_text al p text cbb = Ok u cbb'" and l: "length text < 2 ^ 64"
  shows "\<exists>a b vs. valid_oid a b \<and> text = oid_text (a # b # vs)"
proof -
  obtain a r b rest s v where p: "parse_dotted_decimal text = Ok a r" "parse_dotted_decimal r = Ok b rest"
    "\<not> (2 < a \<or> (a < 2 \<and> 39 < b) \<or> UINT64_MAX - 80 < b)" "oid_components al p rest s = Ok v cbb'"
    using assms(1) unfolding CBB_add_asn1_oid_from_text_def bindo_eq_Ok
    by (cases "bindo (parse_dotted_decimal text) (\<lambda>a cbs. bindo (parse_dotted_decimal cbs) (\<lambda>b cbs. Ok (a, b) cbs))")
      (auto split: if_splits)
  have lr: "length r < 2 ^ 64" "length rest < 2 ^ 64"
    using parse_dotted_length[OF p(1)] parse_dotted_length[OF p(2)] l by auto
  have "text = dotted a r" "r = dotted b rest" using p(1,2) parse_dotted_exact[OF l] parse_dotted_exact[OF lr(1)] by auto
  moreover obtain vs where "rest = oid_text vs" using oid_components_Ok[OF p(4) lr(2)] by blast
  ultimately have "text = oid_text (a # b # vs)" by simp
  then show ?thesis using p(3) by (intro exI[of _ a] exI[of _ b] exI[of _ vs]) (auto simp: valid_oid_def not_less)
qed

section \<open>Back to text\<close>

lemma length_decimal: "n < 10 ^ Suc k \<Longrightarrow> length (decimal n) \<le> Suc k"
proof (induction k arbitrary: n)
  case (Suc k)
  then have "n div 10 < 10 ^ Suc k" by (simp add: less_mult_imp_div_less)
  then show ?case using Suc.IH by (simp add: decimal.simps[of n])
qed (simp add: decimal_small)

lemma length_decimal_u64: "length (decimal (unat (v :: u64))) \<le> 20"
  using length_decimal[of "unat v" 19] unat_le_bound[of v] by simp

lemma add_decimal_appends: "sized al \<Longrightarrow> appends al (add_decimal al v) None (decimal (unat v)) True"
  using length_decimal_u64[of v] by (intro appends_cong[OF bytes_appends[of al "decimal (unat v)" None]]) (simp_all add: add_decimal_def)

text \<open>The text after the first component.\<close>

definition dot_text :: "u64 list \<Rightarrow> bytes" where
  "dot_text vs = concat (map (\<lambda>v. 46 # decimal (unat v)) vs)"

lemma oid_text_dots: "oid_text (v # vs) = decimal (unat v) @ dot_text vs"
proof (induction vs arbitrary: v)
  case (Cons w vs)
  have "oid_text (v # w # vs) = decimal (unat v) @ 46 # oid_text (w # vs)" by (simp add: dotted_def)
  then show ?case unfolding Cons by (simp add: dot_text_def)
qed (simp add: dotted_def dot_text_def)

lemma oid_rest_continues:
  assumes al: "sized al"
  shows "length (concat (map base128 vs)) < 2 ^ 64 \<Longrightarrow>
    continues al (oid_rest_text al (concat (map base128 vs))) None (dot_text vs) True"
proof (induction vs)
  case Nil
  show ?case by (rule continues_cong[OF continues_Ok]) (simp_all add: oid_rest_text.simps CBS_len_def dot_text_def)
next
  case (Cons v vs)
  let ?rest = "concat (map base128 vs)"
  have l: "length ?rest < 2 ^ 64" using Cons.prems by simp
  have parse: "parse_base128_integer (concat (map base128 (v # vs))) = Ok v ?rest" by (simp add: parse_base128_exact)
  have "concat (map base128 (v # vs)) \<noteq> []" using length_base128_pos[of v] by auto
  then have "CBS_len (concat (map base128 (v # vs))) \<noteq> 0" using CBS_len_0[OF Cons.prems] by blast
  then have eq: "oid_rest_text al (concat (map base128 (v # vs))) cbb =
      bindo (bindo (CBB_add_u8 al None 46 cbb) (\<lambda>_. add_decimal al v)) (\<lambda>_. oid_rest_text al ?rest)" for cbb
    by (subst oid_rest_text.simps) (simp only: parse outcome.case if_False)
  note step = appends_bindo[where g = "\<lambda>_. add_decimal al v", OF u8_appends[OF al] add_decimal_appends[OF al]]
  from continues_bindo[where g = "\<lambda>_. oid_rest_text al ?rest", OF appends_continues[OF step] Cons.IH[OF l]]
  show ?case by (rule continues_cong, simp only: eq) (simp_all add: dot_text_def)
qed

text \<open>The first component is that of the two first numbers.\<close>

lemma first_component:
  assumes "valid_oid a b"
  shows "80 \<le> 40 * a + b \<longleftrightarrow> a = 2" and "a = 2 \<Longrightarrow> 40 * a + b - 80 = b"
    and "a \<noteq> 2 \<Longrightarrow> (40 * a + b) div 40 = a" and "a \<noteq> 2 \<Longrightarrow> (40 * a + b) mod 40 = b"
proof -
  have a: "unat a \<le> 2" "unat a < 2 \<longrightarrow> unat b \<le> 39" "unat b \<le> 2 ^ 64 - 81"
    using assms unat_max_minus[of 80] by (auto simp: valid_oid_def word_le_nat_alt word_less_nat_alt)
  have m: "unat (40 * a) = 40 * unat a" using a(1) by (subst unat_mult_lem[THEN iffD1]) auto
  have s: "unat (40 * a + b) = 40 * unat a + unat b" using a m by (subst unat_plus) auto
  have two: "a = 2 \<longleftrightarrow> unat a = 2" by (simp add: word_unat_eq_iff)
  show "80 \<le> 40 * a + b \<longleftrightarrow> a = 2" using a s two by (auto simp: word_le_nat_alt)
  show "a = 2 \<Longrightarrow> 40 * a + b - 80 = b" by simp
  assume "a \<noteq> 2"
  then have l: "unat a < 2" "unat b < 40" using a two by linarith+
  show "(40 * a + b) div 40 = a" using l s by (simp add: word_unat_eq_iff unat_div)
  show "(40 * a + b) mod 40 = b" using l s by (simp add: word_unat_eq_iff unat_mod)
qed

definition first_text :: "allocator \<Rightarrow> u64 \<Rightarrow> unit cbb_op" where
  "first_text al v cbb = (if 80 \<le> v then bindo (CBB_add_bytes al None [50, 46] cbb) (\<lambda>_. add_decimal al (v - 80))
     else bindo (bindo (add_decimal al (v div 40) cbb) (\<lambda>_. CBB_add_u8 al None 46)) (\<lambda>_. add_decimal al (v mod 40)))"

lemma first_text_appends:
  assumes al: "sized al" and v: "valid_oid a b"
  shows "appends al (first_text al (40 * a + b)) None (decimal (unat a) @ 46 # decimal (unat b)) True"
proof (cases "a = 2")
  case True
  have "appends al (CBB_add_bytes al None [50, 46]) None [50, 46] True" by (rule bytes_appends[OF al]) simp
  from appends_bindo[where g = "\<lambda>_. add_decimal al b", OF this add_decimal_appends[OF al]]
  show ?thesis using first_component(1,2)[OF v] True
    by (elim appends_cong) (simp_all add: first_text_def decimal_small)
next
  case False
  note two = appends_bindo[where g = "\<lambda>_. CBB_add_u8 al None 46", OF add_decimal_appends[OF al] u8_appends[OF al]]
  from appends_bindo[where g = "\<lambda>_. add_decimal al b", OF two[of a] add_decimal_appends[OF al]]
  show ?thesis using first_component(1,3,4)[OF v] False
    by (elim appends_cong) (simp_all add: first_text_def)
qed

lemma decimal_nonzero: "n < 2 ^ 64 \<Longrightarrow> 0 \<notin> set (decimal n)"
proof (induction n rule: decimal.induct)
  case (1 n)
  have "48 + of_nat (n mod 10) \<noteq> (0 :: u8)" using byte_digit[of "n mod 10"] by (metis Nat.add_0_right add_is_0 mod_less_divisor unat_0 zero_neq_numeral zero_less_numeral)
  moreover have "n div 10 < 2 ^ 64" using 1(2) by linarith
  ultimately show ?case using 1(1) by (subst decimal.simps) auto
qed

lemma decimal_u64_nonzero: "0 \<notin> set (decimal (unat (v :: u64)))"
  using decimal_nonzero[of "unat v"] unat_le_bound[of v] by simp

lemma dots_nonzero: "0 \<notin> set (dot_text vs)"
  using decimal_u64_nonzero by (auto simp: dot_text_def)
  
lemma oid_to_text:
  assumes al: "sized al" "never_fails al" and v: "valid_oid a b" and l: "length (oid_text (a # b # vs)) < 2 ^ 60"
  shows "\<exists>txt. CBS_asn1_oid_to_text al True (oid_contents a b vs) = Some txt \<and> takeWhile (\<lambda>c. c \<noteq> 0) txt = oid_text (a # b # vs)"
proof -
  let ?rest = "concat (map base128 vs)" and ?v = "40 * a + b" and ?t = "oid_text (a # b # vs)"
  have t: "?t = (decimal (unat a) @ 46 # decimal (unat b)) @ dot_text vs"
    by (simp add: oid_text_dots dot_text_def del: oid_text.simps)
  have lc: "length (concat (map base128 vs)) \<le> 10 * length vs \<and> length vs \<le> length (dot_text vs)" for vs
    using length_base128 by (induction vs) (auto simp: dot_text_def intro: add_mono)
  have lr: "length ?rest < 2 ^ 64" using lc[of vs] l unfolding t by simp
  define f where "f = (\<lambda>cbb. bindo (bindo (first_text al ?v cbb) (\<lambda>_. oid_rest_text al ?rest)) (\<lambda>_. CBB_add_u8 al None 0))"
  note two = appends_bindo_continues[where g = "\<lambda>_. oid_rest_text al ?rest", OF first_text_appends[OF al(1) v] oid_rest_continues[OF al(1) lr]]
  from appends_bindo[where g = "\<lambda>_. CBB_add_u8 al None 0", OF two u8_appends[OF al(1)]]
  have f: "appends al f None (?t @ [0]) True" by (rule appends_cong) (simp_all add: f_def t del: oid_text.simps)
  have "length (?t @ [0]) < 2 ^ 64" using l by (simp del: oid_text.simps)
  from built[OF al f this, of 32] obtain buf len cbb
    where r: "bindo (CBB_init al True 32) (\<lambda>_ cbb. bindo (f cbb) (\<lambda>_. CBB_finish al None)) = Ok (buf, len) cbb"
      "take (unat len) buf = ?t @ [0]" by blast
  have parse: "parse_base128_integer (oid_contents a b vs) = Ok ?v ?rest"
    by (simp add: parse_base128_exact oid_contents_def)
  have "CBS_asn1_oid_to_text al True (oid_contents a b vs) = Some buf"
    using r(1) by (simp only: CBS_asn1_oid_to_text_def parse outcome.case first_text_def f_def bindo_assoc prod.case)
  moreover have "takeWhile (\<lambda>c. c \<noteq> 0) buf = ?t"
  proof -
    obtain junk where "buf = ?t @ 0 # junk" using r(2) append_take_drop_id[of "unat len" buf] by (metis append.assoc append_Cons append_Nil)
    moreover have "0 \<notin> set ?t" using dots_nonzero[of "b # vs"] decimal_u64_nonzero[of a]
      unfolding oid_text_dots by simp
    then have "takeWhile (\<lambda>c. c \<noteq> 0) (?t @ 0 # junk) = ?t" for junk by (subst takeWhile_append2) auto
    ultimately show ?thesis by (simp only:)
  qed
  ultimately show ?thesis by blast
qed

section \<open>Properties\<close>

lemma length_oid_contents: "length (oid_contents a b vs) \<le> 10 * length (oid_text (a # b # vs))"
proof -
  have "length (concat (map base128 vs)) \<le> 10 * length vs \<and> length vs \<le> length (dot_text vs)"
    using length_base128 by (induction vs) (auto simp: dot_text_def intro: add_mono)
  then show ?thesis using length_base128[of "40 * a + b"]
    by (simp add: oid_contents_def oid_text_dots dot_text_def del: oid_text.simps)
qed

lemma oid_from_text_built:
  assumes al: "sized al" "never_fails al" and v: "valid_oid a b" and l: "length (oid_text (a # b # vs)) < 2 ^ 60"
  shows "\<exists>buf len cbb. bindo (CBB_init al True cap) (\<lambda>_ cbb. bindo (CBB_add_asn1_oid_from_text al None (oid_text (a # b # vs)) cbb)
      (\<lambda>_. CBB_finish al None)) = Ok (buf, len) cbb \<and> take (unat len) buf = oid_contents a b vs"
proof (rule built[OF al])
  show "appends al (CBB_add_asn1_oid_from_text al None (oid_text (a # b # vs))) None (oid_contents a b vs) True"
    using l by (intro oid_from_text_appends[OF al(1) v]) simp
  show "length (oid_contents a b vs) < 2 ^ 64" using length_oid_contents[of a b vs] l by simp
qed

lemma zero_allocator: "sized (\<lambda>n. Some (replicate (unat n) 0))" "never_fails (\<lambda>n. Some (replicate (unat n) 0))"
  by (simp_all add: sized_def never_fails_def)

text \<open>
  C29: CBB_add_asn1_oid_from_text accepts exactly the texts of the valid identifiers: at least two
  decimal numbers without leading zeros and below 2^64, separated by single dots, the first of them
  at most 2, the second below 40 when the first is 0 or 1 and small enough for 40 * a + b to fit.
  What it writes are the base-128 contents of the identifier.
\<close>

theorem oid_from_text_exact:
  assumes "sized al" and "never_fails al" and "length text < 2 ^ 60"
  shows "(\<exists>buf len cbb. bindo (CBB_init al True cap) (\<lambda>_ cbb. bindo (CBB_add_asn1_oid_from_text al None text cbb)
      (\<lambda>_. CBB_finish al None)) = Ok (buf, len) cbb \<and> take (unat len) buf = contents) \<longleftrightarrow>
    (\<exists>a b vs. valid_oid a b \<and> text = oid_text (a # b # vs) \<and> contents = oid_contents a b vs)"
    (is "(\<exists>buf len cbb. ?run = Ok (buf, len) cbb \<and> _) \<longleftrightarrow> ?valid")
proof
  assume "?valid"
  then show "\<exists>buf len cbb. ?run = Ok (buf, len) cbb \<and> take (unat len) buf = contents"
    using oid_from_text_built[OF assms(1,2)] assms(3) by blast
next
  assume "\<exists>buf len cbb. ?run = Ok (buf, len) cbb \<and> take (unat len) buf = contents"
  then obtain buf len cbb where run: "?run = Ok (buf, len) cbb" and c: "take (unat len) buf = contents" by blast
  then obtain s s' where "CBB_add_asn1_oid_from_text al None text s = Ok () s'" by auto
  then obtain a b vs where v: "valid_oid a b" "text = oid_text (a # b # vs)"
    using oid_from_text_Ok[of al None "text" s "()" s'] assms(3) by fastforce
  from oid_from_text_built[OF assms(1,2) v(1), of vs cap] assms(3)
  have "contents = oid_contents a b vs" using run c unfolding v(2) by auto
  then show ?valid using v by blast
qed

theorem oid_from_text_exact_witness:
  "\<exists>buf len cbb. bindo (CBB_init (\<lambda>n. Some (replicate (unat n) 0)) True 1) (\<lambda>_ cbb.
      bindo (CBB_add_asn1_oid_from_text (\<lambda>n. Some (replicate (unat n) 0)) None [49, 46, 50, 46, 56, 52, 48] cbb)
        (\<lambda>_. CBB_finish (\<lambda>n. Some (replicate (unat n) 0)) None)) = Ok (buf, len) cbb \<and>
    take (unat len) buf = [0x2a, 0x86, 0x48]"
proof -
  have "valid_oid 1 2" by (simp add: valid_oid_def)
  moreover have "[49, 46, 50, 46, 56, 52, 48] = oid_text [1, 2, 840]" by (simp add: dotted_def decimal.simps)
  moreover have "[0x2a, 0x86, 0x48] = oid_contents 1 2 [840]" by (simp add: oid_contents_def base128_def base128_hi.simps)
  ultimately have "\<exists>a b vs. valid_oid a b \<and> [49, 46, 50, 46, 56, 52, 48] = oid_text (a # b # vs) \<and> [0x2a, 0x86, 0x48] = oid_contents a b vs"
    by blast
  then show ?thesis
    using oid_from_text_exact[OF zero_allocator, of "[49, 46, 50, 46, 56, 52, 48]" 1 "[0x2a, 0x86, 0x48]"]
    by (simp del: bindo_eq_Ok)
qed

text \<open>
  The contents that CBB_add_asn1_oid_from_text writes for an accepted text are read back by
  CBS_asn1_oid_to_text as the same text, up to the byte 0 that ends the C string.
\<close>

theorem oid_text_roundtrip:
  assumes "sized al" and "never_fails al" and "length text < 2 ^ 60"
    and "bindo (CBB_init al True cap) (\<lambda>_ cbb. bindo (CBB_add_asn1_oid_from_text al None text cbb)
      (\<lambda>_. CBB_finish al None)) = Ok (buf, len) cbb"
  shows "\<exists>txt. CBS_asn1_oid_to_text al True (take (unat len) buf) = Some txt \<and> takeWhile (\<lambda>c. c \<noteq> 0) txt = text"
proof -
  obtain s s' where "CBB_add_asn1_oid_from_text al None text s = Ok () s'" using assms(4) by auto
  then obtain a b vs where v: "valid_oid a b" "text = oid_text (a # b # vs)"
    using oid_from_text_Ok[of al None "text" s "()" s'] assms(3) by fastforce
  have "take (unat len) buf = oid_contents a b vs"
    using oid_from_text_built[OF assms(1,2) v(1), of vs cap] assms(3,4) unfolding v(2) by auto
  then show ?thesis using oid_to_text[OF assms(1,2) v(1), of vs] assms(3) unfolding v(2) by metis
qed

theorem oid_text_roundtrip_witness:
  "\<exists>buf len cbb txt. bindo (CBB_init (\<lambda>n. Some (replicate (unat n) 0)) True 1) (\<lambda>_ cbb.
      bindo (CBB_add_asn1_oid_from_text (\<lambda>n. Some (replicate (unat n) 0)) None [50, 46, 57, 57] cbb)
        (\<lambda>_. CBB_finish (\<lambda>n. Some (replicate (unat n) 0)) None)) = Ok (buf, len) cbb \<and>
    CBS_asn1_oid_to_text (\<lambda>n. Some (replicate (unat n) 0)) True (take (unat len) buf) = Some txt \<and>
    takeWhile (\<lambda>c. c \<noteq> 0) txt = [50, 46, 57, 57]"
proof -
  have v: "valid_oid 2 99" by (simp add: valid_oid_def)
  have t: "oid_text [2, 99] = [50, 46, 57, 57]" by (simp add: dotted_def decimal.simps)
  from oid_from_text_built[OF zero_allocator v, of "[]" 1]
  show ?thesis using oid_text_roundtrip[OF zero_allocator, of "[50, 46, 57, 57]" 1] unfolding t by (simp del: bindo_eq_Ok) blast
qed

end
