(* ===== verification/Set_Of.thy ===== *)
theory Set_Of
  imports Elements Oid "HOL-Library.Multiset"
begin

text \<open>
  CBB_flush_asn1_set_of of src/crypto/bytestring/cbb.c: the elements that were written to a CBB are
  put into the order that DER prescribes for a SET OF. \<open>qsort\<close> is the C library's.
\<close>

section \<open>The code\<close>

text \<open>The sign of the result is that of the first difference.\<close>

fun memcmp :: "bytes \<Rightarrow> bytes \<Rightarrow> nat \<Rightarrow> int" where
  "memcmp (a # as) (b # bs) (Suc n) = (if a \<noteq> b then uint a - uint b else memcmp as bs n)"
| "memcmp _ _ _ = 0"

definition compare_set_of_element :: "bytes \<Rightarrow> bytes \<Rightarrow> int" where
  "compare_set_of_element a b =
     (let a_len = length a; b_len = length b;
          min_len = (if a_len < b_len then a_len else b_len);
          ret = memcmp a b min_len
      in if ret \<noteq> 0 then ret else if a_len = b_len then 0 else if a_len < b_len then - 1 else 1)"

text \<open>The first loop counts the elements, the second collects them; None is a failure of the parser.\<close>

function count_elements :: "CBS \<Rightarrow> nat option" where
  "count_elements cbs =
     (if CBS_len cbs = 0 then Some 0
      else case CBS_get_any_asn1_element cbs of
             Ok _ cbs \<Rightarrow> map_option Suc (count_elements cbs)
           | Fail _ \<Rightarrow> None
           | NoResult \<Rightarrow> None)"
  by pat_completeness auto

termination
  by (relation "measure length") (auto dest!: der_element_progress)

declare count_elements.simps [simp del]

fun collect_elements :: "nat \<Rightarrow> CBS \<Rightarrow> bytes list option" where
  "collect_elements 0 cbs = Some []"
| "collect_elements (Suc n) cbs =
     (case CBS_get_any_asn1_element cbs of
        Ok (child, _, _) cbs \<Rightarrow> map_option (\<lambda>cs. child # cs) (collect_elements n cbs)
      | Fail _ \<Rightarrow> None
      | NoResult \<Rightarrow> None)"

fun add_elements :: "allocator \<Rightarrow> cbb_ptr \<Rightarrow> bytes list \<Rightarrow> unit cbb_op" where
  "add_elements al p [] cbb = Ok () cbb"
| "add_elements al p (c # cs) cbb = bindo (CBB_add_bytes al p c cbb) (\<lambda>_. add_elements al p cs)"

text \<open>\<open>sizeof(CBS)\<close> on a 64-bit machine.\<close>

definition sizeof_CBS :: nat where
  "sizeof_CBS = 16"

text \<open>\<open>ok\<close> is whether both temporary blocks can be allocated.\<close>

definition CBB_flush_asn1_set_of ::
  "allocator \<Rightarrow> ((bytes \<Rightarrow> bytes \<Rightarrow> int) \<Rightarrow> bytes list \<Rightarrow> bytes list) \<Rightarrow> bool \<Rightarrow> cbb_ptr \<Rightarrow> unit cbb_op" where
  "CBB_flush_asn1_set_of al qsort ok p cbb =
     bindo (CBB_flush al p cbb) (\<lambda>_ cbb.
     bindo (CBB_data p cbb) (\<lambda>start cbb.
     bindo (CBB_len p cbb) (\<lambda>buf_len cbb.
     bindo (on_base (load (unat start) (unat buf_len)) cbb) (\<lambda>buf cbb.
       case count_elements buf of
         None \<Rightarrow> Fail cbb
       | Some num_children \<Rightarrow>
           if num_children < 2 then Ok () cbb
           else if (2 ^ 64 - 1) div sizeof_CBS < num_children then Fail cbb
           else if \<not> ok then Fail cbb
           else case collect_elements num_children buf of
                  None \<Rightarrow> Fail cbb
                | Some children \<Rightarrow>
                    add_elements al p (qsort compare_set_of_element children)
                      (cbb\<lparr>cb_base := map_option (\<lambda>base. base\<lparr>bf_len := start\<rparr>) (cb_base cbb)\<rparr>)))))"

section \<open>The order\<close>

text \<open>The comparison is the lexicographic order of the bytes.\<close>

lemma compare_Cons:
  "compare_set_of_element (a # as) (b # bs) = (if a \<noteq> b then uint a - uint b else compare_set_of_element as bs)"
  by (auto simp: compare_set_of_element_def Let_def word_uint_eq_iff)

lemma compare_Nil: "compare_set_of_element [] [] = 0" "compare_set_of_element [] (b # bs) = - 1"
  "compare_set_of_element (a # as) [] = 1"
  by (simp_all add: compare_set_of_element_def)

lemma compare_le: "compare_set_of_element a b \<le> 0 \<longleftrightarrow> lexordp_eq a b"
proof (induction a arbitrary: b)
  case Nil
  show ?case by (cases b) (simp_all add: compare_Nil)
next
  case (Cons x a)
  show ?case by (cases b) (auto simp: compare_Nil compare_Cons Cons word_less_def word_uint_eq_iff)
qed

text \<open>A DER element of contents that the parser takes.\<close>

definition is_der :: "bytes \<Rightarrow> bool" where
  "is_der e \<longleftrightarrow> (\<exists>tag c. length c < 2 ^ 32 \<and> e = der_element tag c)"

lemma count_concat:
  "\<forall>e\<in>set es. is_der e \<Longrightarrow> length (concat es) < 2 ^ 63 \<Longrightarrow> count_elements (concat es) = Some (length es)"
proof (induction es)
  case Nil
  show ?case by (simp add: count_elements.simps CBS_len_def)
next
  case (Cons e es)
  then obtain tag c where e: "length c < 2 ^ 32" "e = der_element tag c" by (auto simp: is_der_def)
  have parse: "CBS_get_any_asn1_element (concat (e # es)) =
      Ok (e, tag, of_nat (length (der_header tag (length c)))) (concat es)"
    using der_element_iff[OF Cons.prems(2)] e by auto
  then have "concat (e # es) \<noteq> []" using der_element_progress[OF parse] by auto
  then have "CBS_len (concat (e # es)) \<noteq> 0" using Cons.prems(2) CBS_len_0[of "concat (e # es)"] by simp
  moreover have "length (concat es) < 2 ^ 63" using Cons.prems(2) by simp
  ultimately show ?case
    using Cons by (subst count_elements.simps) (simp add: parse del: concat.simps)
qed

lemma collect_concat:
  "\<forall>e\<in>set es. is_der e \<Longrightarrow> length (concat es) < 2 ^ 63 \<Longrightarrow> collect_elements (length es) (concat es) = Some es"
proof (induction es)
  case (Cons e es)
  then obtain tag c where e: "length c < 2 ^ 32" "e = der_element tag c" by (auto simp: is_der_def)
  have parse: "CBS_get_any_asn1_element (concat (e # es)) =
      Ok (e, tag, of_nat (length (der_header tag (length c)))) (concat es)"
    using der_element_iff[OF Cons.prems(2)] e by auto
  moreover have "length (concat es) < 2 ^ 63" using Cons.prems(2) by simp
  ultimately show ?case using Cons by (simp del: concat.simps)
qed simp

section \<open>The result\<close>

lemma add_elements_continues:
  assumes al: "sized al"
  shows "length (concat es) < 2 ^ 64 \<Longrightarrow> continues al (add_elements al p es) p (concat es) True"
proof (induction es)
  case Nil
  show ?case by (rule continues_cong[OF continues_Ok]) simp_all
next
  case (Cons e es)
  then have l: "length e < 2 ^ 64" "length (concat es) < 2 ^ 64" by simp_all
  from continues_bindo[where g = "\<lambda>_. add_elements al p es", OF
      appends_continues[OF bytes_appends[OF al l(1)]] Cons.IH[OF l(2)]]
  show ?case by (rule continues_cong) simp_all
qed

lemma length_concat_mset: "mset xs = mset ys \<Longrightarrow> length (concat xs) = length (concat ys)"
proof -
  assume "mset xs = mset ys"
  then have "sum_mset (image_mset length (mset xs)) = sum_mset (image_mset length (mset ys))" by simp
  then show ?thesis by (simp add: length_concat flip: mset_map sum_mset_sum_list)
qed

text \<open>Where a flushed CBB starts, and its contents.\<close>

lemma contents_start_live:
  assumes b: "live b outer" and p: "split_children p outer = Some (outer, [])"
  shows "contents_start p \<lparr>cb_base = Some b, cb_children = outer\<rparr> = Some (of_nat (start_of outer))"
    and "start_of outer \<le> length (buf_data b)" and "length (buf_data b) = unat (bf_len b)"
proof -
  show len: "length (buf_data b) = unat (bf_len b)" using b length_buf_data by (simp add: live_def)
  show "start_of outer \<le> length (buf_data b)" using start_le_flushed[of b outer "[]"] b by simp
  show "contents_start p \<lparr>cb_base = Some b, cb_children = outer\<rparr> = Some (of_nat (start_of outer))"
    using p by (simp add: contents_start_def start_of_def child_start_def prefix_len_def)
qed

text \<open>What the code asks of the C library: a sorted permutation for this comparison.\<close>

definition sorts :: "((bytes \<Rightarrow> bytes \<Rightarrow> int) \<Rightarrow> bytes list \<Rightarrow> bytes list) \<Rightarrow> bool" where
  "sorts qsort \<longleftrightarrow> (\<forall>xs. mset (qsort compare_set_of_element xs) = mset xs \<and>
     sorted_wrt (\<lambda>a b. compare_set_of_element a b \<le> 0) (qsort compare_set_of_element xs))"

lemma rewrite_sorted:
  assumes al: "sized al" and b: "live b outer" and p: "split_children p outer = Some (outer, [])"
    and es: "length (concat es') = length (buf_data b) - start_of outer"
  shows "\<exists>b'. add_elements al p es' \<lparr>cb_base = Some (b\<lparr>bf_len := of_nat (start_of outer)\<rparr>), cb_children = outer\<rparr> =
      Ok () \<lparr>cb_base = Some b', cb_children = outer\<rparr> \<and> live b' outer \<and>
    buf_data b' = take (start_of outer) (buf_data b) @ concat es'"
proof -
  let ?s = "start_of outer" and ?b = "b\<lparr>bf_len := of_nat (start_of outer)\<rparr>"
  note c = contents_start_live[OF b p]
  have us: "unat (of_nat ?s :: u64) = ?s"
    using c(2,3) unat_le_bound[of "bf_len b"] by (simp add: unat_of_nat take_bit_nat_eq_self)
  have d: "buf_data ?b = take ?s (buf_data b)" using us c(2,3) by (simp add: buf_data_def min_def)
  have w: "wf_buf ?b" using b us c(2,3) by (auto simp: live_def wf_buf_def word_le_nat_alt)
  have "nested ?s 0 outer" using nested_outer(2)[of "length (buf_data b)" outer "[]" ?s] b by (simp add: live_def)
  then have l: "live ?b outer" using w b d c(2) by (simp add: live_def)
  have "length (concat es') < 2 ^ 64" using es c(3) unat_le_bound[of "bf_len b"] by simp
  from continuesD[OF add_elements_continues[OF al this] l p]
  have run: "cmakes al (add_elements al p es') ?b outer () (take ?s (buf_data b) @ concat es') outer True" unfolding d .
  have "length (take ?s (buf_data b) @ concat es') = unat (bf_len b)" using es c(2,3) by simp
  also have "\<dots> \<le> limit al ?b" using cap_le_limit[of b al] b by (simp add: live_def wf_buf_def word_le_nat_alt)
  finally obtain b' where r: "add_elements al p es' \<lparr>cb_base = Some ?b, cb_children = outer\<rparr> =
      Ok () \<lparr>cb_base = Some b', cb_children = outer\<rparr>" "becomes al ?b (take ?s (buf_data b) @ concat es') b'"
    using run by (auto simp: cmakes_def split: outcome.splits)
  have "live b' outer" using live_becomes[of ?b outer "[]" al, OF _ r(2)] l c(2) by simp
  then show ?thesis using r by (auto simp: becomes_def)
qed

lemma set_of_after_flush:
  assumes al: "sized al" and b: "live b outer" and p: "split_children p outer = Some (outer, [])" and q: "sorts qsort"
    and es: "drop (start_of outer) (buf_data b) = concat es" "\<forall>e\<in>set es. is_der e" and l: "length (buf_data b) < 2 ^ 60"
    and fl: "CBB_flush al p cbb = Ok () \<lparr>cb_base = Some b, cb_children = outer\<rparr>"
  shows "\<exists>es' b'. mset es' = mset es \<and> sorted_wrt lexordp_eq es' \<and>
    CBB_flush_asn1_set_of al qsort True p cbb = Ok () \<lparr>cb_base = Some b', cb_children = outer\<rparr> \<and> live b' outer \<and>
    buf_data b' = take (start_of outer) (buf_data b) @ concat es'"
proof -
  let ?s = "start_of outer" and ?cbb = "\<lparr>cb_base = Some b, cb_children = outer\<rparr>"
  note c = contents_start_live[OF b p]
  have us: "unat (of_nat ?s :: u64) = ?s"
    using c(2,3) unat_le_bound[of "bf_len b"] by (simp add: unat_of_nat take_bit_nat_eq_self)
  have le: "of_nat ?s \<le> bf_len b" using us c(2,3) by (simp add: word_le_nat_alt)
  have un: "unat (bf_len b - of_nat ?s) = length (concat es)"
    using us c(2,3) le es(1)[symmetric] by (simp add: unat_sub word_le_nat_alt)
  have "load ?s (length (concat es)) b = Ok (concat es) b"
  proof -
    have "length (concat es) = unat (bf_len b) - ?s" using c(3) unfolding es(1)[symmetric] by simp
    moreover have "concat es = take (unat (bf_len b) - ?s) (drop ?s (bf_buf b))"
      unfolding es(1)[symmetric] buf_data_def by (rule drop_take)
    moreover have "unat (bf_len b) \<le> length (bf_buf b)" using b by (simp add: live_def wf_buf_def word_le_nat_alt)
    ultimately show ?thesis using c(2,3) by (simp add: load_def)
  qed
  then have ld: "on_base (load ?s (length (concat es))) ?cbb = Ok (concat es) ?cbb" by (simp add: on_base_def)
  have lc: "length (concat es) < 2 ^ 60" using l unfolding es(1)[symmetric] by simp
  have cnt: "count_elements (concat es) = Some (length es)" and col: "collect_elements (length es) (concat es) = Some es"
    using count_concat[OF es(2)] collect_concat[OF es(2)] lc by simp_all
  have few: "length es \<le> length (concat es)"
    using es(2) by (induction es) (auto simp: is_der_def der_element_def der_header_def der_tag_def)
  have run: "CBB_flush_asn1_set_of al qsort True p cbb =
      (if length es < 2 then Ok () ?cbb
       else add_elements al p (qsort compare_set_of_element es) \<lparr>cb_base = Some (b\<lparr>bf_len := of_nat ?s\<rparr>), cb_children = outer\<rparr>)"
    unfolding CBB_flush_asn1_set_of_def fl
    using c le few lc by (simp add: CBB_data_def CBB_len_def us un ld cnt col sizeof_CBS_def leD[OF le])
  show ?thesis
  proof (cases "length es < 2")
    case True
    then have "sorted_wrt lexordp_eq es" by (cases es) auto
    moreover have "buf_data b = take ?s (buf_data b) @ concat es" unfolding es(1)[symmetric] by simp
    ultimately show ?thesis using run True b by (intro exI[of _ es] exI[of _ b]) simp
  next
    case False
    let ?es = "qsort compare_set_of_element es"
    have m: "mset ?es = mset es" "sorted_wrt lexordp_eq ?es" using q by (simp_all add: sorts_def compare_le)
    have "length (concat ?es) = length (buf_data b) - ?s" using length_concat_mset[OF m(1)] es(1)[symmetric] by simp
    from rewrite_sorted[OF al b p this] show ?thesis using run False m by auto
  qed
qed

text \<open>
  C24: CBB_flush_asn1_set_of sorts the elements in a CBB: when the flushed contents are a sequence of
  DER elements, the call replaces them by the same elements, as often as they occur, in ascending
  lexicographic order of their bytes, which is the order of DER for a SET OF. Nothing before the
  contents changes, the buffer keeps its length and stays consistent, and the only failures are
  those of flushing, when the temporary memory can be allocated.
\<close>

theorem set_of_sorted:
  assumes "sized al" and "live b cs" and "split_children p cs = Some (outer, inner)" and "sorts qsort"
    and "drop (start_of outer) (flushed (buf_data b) outer inner) = concat es" and "\<forall>e\<in>set es. is_der e"
    and "length (flushed (buf_data b) outer inner) < 2 ^ 60"
  shows "case CBB_flush_asn1_set_of al qsort True p \<lparr>cb_base = Some b, cb_children = cs\<rparr> of
      Ok _ cbb \<Rightarrow> \<exists>es' b'. mset es' = mset es \<and> sorted_wrt lexordp_eq es' \<and>
        cbb = \<lparr>cb_base = Some b', cb_children = outer\<rparr> \<and> live b' outer \<and>
        buf_data b' = take (start_of outer) (flushed (buf_data b) outer inner) @ concat es'
    | Fail _ \<Rightarrow> \<not> (lengths_fit (buf_data b) inner \<and> length (flushed (buf_data b) outer inner) \<le> limit al b)
    | NoResult \<Rightarrow> False"
proof (cases "CBB_flush al p \<lparr>cb_base = Some b, cb_children = cs\<rparr>")
  case (Ok u cbb)
  have cs: "cs = outer @ inner" using split_append[OF assms(3)] .
  from flush_cmakes[OF assms(1-3)] Ok obtain b1
    where b1: "cbb = \<lparr>cb_base = Some b1, cb_children = outer\<rparr>" "becomes al b (flushed (buf_data b) outer inner) b1"
    by (auto simp: cmakes_def)
  have d: "buf_data b1 = flushed (buf_data b) outer inner" using b1(2) by (simp add: becomes_def)
  have l: "live b1 outer" using live_becomes[OF _ b1(2)] start_le_flushed assms(2) unfolding cs by blast
  have "\<exists>es' b'. mset es' = mset es \<and> sorted_wrt lexordp_eq es' \<and>
      CBB_flush_asn1_set_of al qsort True p \<lparr>cb_base = Some b, cb_children = cs\<rparr> = Ok () \<lparr>cb_base = Some b', cb_children = outer\<rparr> \<and>
      live b' outer \<and> buf_data b' = take (start_of outer) (buf_data b1) @ concat es'"
    using assms(5-7) Ok unfolding b1(1) d[symmetric]
    by (intro set_of_after_flush[OF assms(1) l split_outer[OF assms(3), of "[]", simplified] assms(4)]) auto
  then show ?thesis unfolding d by auto
next
  case (Fail cbb)
  then show ?thesis using flush_cmakes[OF assms(1-3)] by (simp add: CBB_flush_asn1_set_of_def cmakes_def)
next
  case NoResult
  then show ?thesis using flush_cmakes[OF assms(1-3)] by (simp add: cmakes_def)
qed

text \<open>An insertion sort is such a function.\<close>

fun insert_by :: "('a \<Rightarrow> 'a \<Rightarrow> int) \<Rightarrow> 'a \<Rightarrow> 'a list \<Rightarrow> 'a list" where
  "insert_by cmp x [] = [x]"
| "insert_by cmp x (y # ys) = (if cmp x y \<le> 0 then x # y # ys else y # insert_by cmp x ys)"

fun sort_by :: "('a \<Rightarrow> 'a \<Rightarrow> int) \<Rightarrow> 'a list \<Rightarrow> 'a list" where
  "sort_by cmp [] = []"
| "sort_by cmp (x # xs) = insert_by cmp x (sort_by cmp xs)"

lemma sort_by_sorts: "sorts sort_by"
proof -
  have m: "mset (insert_by cmp x xs) = add_mset x (mset xs)" for cmp x and xs :: "bytes list"
    by (induction xs) auto
  have trans: "lexordp_eq a c" if "lexordp_eq a b" "lexordp_eq b c" for a b c :: bytes
    using that by (rule lexordp_eq_trans)
  have lin: "lexordp_eq b a" if "\<not> lexordp_eq a b" for a b :: bytes
    using that lexordp_eq_linear by blast
  have ins: "sorted_wrt lexordp_eq (insert_by compare_set_of_element x xs)" if "sorted_wrt lexordp_eq xs" for x xs
    using that
  proof (induction xs)
    case (Cons y ys)
    have set: "set (insert_by compare_set_of_element x ys) = insert x (set ys)" using m by (metis set_mset_add_mset_insert set_mset_mset)
    then show ?case
    proof (cases "lexordp_eq x y")
      case True
      then have "\<forall>z\<in>set ys. lexordp_eq x z" using Cons.prems trans[of x y] by simp
      then show ?thesis using True Cons.prems by (simp add: compare_le)
    next
      case False
      then have "lexordp_eq y x" by (rule lin)
      then show ?thesis using False Cons set by (simp add: compare_le)
    qed
  qed simp
  have "mset (sort_by cmp xs) = mset xs" for cmp and xs :: "bytes list" by (induction xs) (auto simp: m)
  moreover have "sorted_wrt lexordp_eq (sort_by compare_set_of_element xs)" for xs by (induction xs) (auto simp: ins)
  ultimately show ?thesis by (simp add: sorts_def compare_le)
qed

theorem set_of_sorted_witness:
  "case CBB_flush_asn1_set_of (\<lambda>n. None) sort_by True None
      \<lparr>cb_base = Some \<lparr>bf_buf = [2, 1, 7, 1, 1, 0xff], bf_len = 6, bf_cap = 6, bf_can_resize = False, bf_error = False\<rparr>, cb_children = []\<rparr> of
    Ok _ cbb \<Rightarrow> \<exists>es'. mset es' = {#[2, 1, 7], [1, 1, 0xff]#} \<and> sorted_wrt lexordp_eq es' \<and> map_option buf_data (cb_base cbb) = Some (concat es')
  | Fail _ \<Rightarrow> False | NoResult \<Rightarrow> False"
proof -
  let ?b = "\<lparr>bf_buf = [2, 1, 7, 1, 1, 0xff], bf_len = 6, bf_cap = 6, bf_can_resize = False, bf_error = False\<rparr>"
  have l: "live ?b []" by (simp add: live_def wf_buf_def buf_data_def)
  have d: "buf_data ?b = [2, 1, 7, 1, 1, 0xff]" by (simp add: buf_data_def)
  have al: "sized (\<lambda>n. None)" by (simp add: sized_def)
  have "der_element 2 [7] = [2, 1, 7]" "der_element 1 [0xff] = [1, 1, 0xff]"
    by (simp_all add: der_element_def der_header_def der_length_def der_tag_def tag_number_def tag_class_def)
  then have "is_der [2, 1, 7]" "is_der [1, 1, 0xff]" unfolding is_der_def
    by (intro exI[of _ 2] exI[of _ "[7]"], simp, intro exI[of _ 1] exI[of _ "[0xff]"], simp)
  then have es: "\<forall>e\<in>set [[2, 1, 7], [1, 1, 0xff]]. is_der e" by simp
  have sp: "split_children None [] = Some ([], [])" by simp
  have c: "drop (start_of []) (flushed (buf_data ?b) [] []) = concat [[2, 1, 7], [1, 1, 0xff]]"
    unfolding d by (simp add: start_of_def)
  have s: "length (flushed (buf_data ?b) [] []) < 2 ^ 60" "length (flushed (buf_data ?b) [] []) \<le> limit (\<lambda>n. None) ?b"
    unfolding d by (simp_all add: limit_def)
  show ?thesis
    using set_of_sorted[OF al l sp sort_by_sorts c es s(1)] s(2) by (auto split: outcome.splits simp: start_of_def)
qed

end
