(* ===== verification/Pool.thy ===== *)
theory Pool
  imports Lhash Set_Of
begin

text \<open>
  The buffers of BoringSSL that are counted and shared through pools (src/crypto/pool/pool.c), with
  their hash (src/crypto/mem.c) and the counters (src/crypto/refcount_c11.c). A pool is a hash table
  of Lhash, whose hash and comparison read the buffers that its items point to.

  Several threads may work at once: each part of a call that holds the lock of a pool, and each
  operation on a counter, is one step, and steps of different calls may come in any order. The memory
  is a map from addresses to buffers, and another one from addresses to the tables of the pools;
  using what is not allocated has no result, and the check of the counter that aborts the program is
  a failure.
\<close>

section \<open>Data\<close>

type_synonym ptr = u64

record CRYPTO_BUFFER =
  cb_pool :: ptr
  cb_data :: bytes
  cb_len :: u64
  cb_references :: u32
  cb_static :: bool

record memory =
  bufs :: "ptr \<Rightarrow> CRYPTO_BUFFER option"
  pools :: "ptr \<Rightarrow> lhash_st option"

type_synonym 'v pool_op = "memory \<Rightarrow> ('v, memory) outcome"

text \<open>
  What the allocator answers to a call: the addresses of the new object (0 when there is none), and
  whether the other blocks are given. \<open>a_tmp\<close> is where the object on the stack is.
\<close>

record answers =
  a_new :: ptr
  a_data :: bool
  a_item :: bool
  a_table :: "u64 \<Rightarrow> bool"
  a_tmp :: ptr

abbreviation CRYPTO_REFCOUNT_MAX :: u32 where
  "CRYPTO_REFCOUNT_MAX \<equiv> 0xffffffff"

section \<open>Counters and hashes\<close>

definition CRYPTO_refcount_inc :: "u32 \<Rightarrow> u32" where
  "CRYPTO_refcount_inc in_count = (if in_count \<noteq> CRYPTO_REFCOUNT_MAX then in_count + 1 else in_count)"

text \<open>The new value and whether it is 0; None is abort.\<close>

definition CRYPTO_refcount_dec_and_test_zero :: "u32 \<Rightarrow> (u32 \<times> bool) option" where
  "CRYPTO_refcount_dec_and_test_zero in_count =
     (if in_count = 0 then None
      else if in_count = CRYPTO_REFCOUNT_MAX then Some (in_count, False)
      else let new_value = in_count - 1 in Some (new_value, new_value = 0))"

definition OPENSSL_hash32 :: "bytes \<Rightarrow> u32" where
  "OPENSSL_hash32 input = fold (\<lambda>b h. (h XOR ucast b) * 16777619) input 2166136261"

definition OPENSSL_memcmp :: "bytes \<Rightarrow> bytes \<Rightarrow> u64 \<Rightarrow> int" where
  "OPENSSL_memcmp s1 s2 n = (if n = 0 then 0 else memcmp s1 s2 (unat n))"

definition CRYPTO_BUFFER_hash :: "CRYPTO_BUFFER \<Rightarrow> u32" where
  "CRYPTO_BUFFER_hash buf = OPENSSL_hash32 (take (unat (cb_len buf)) (cb_data buf))"

definition CRYPTO_BUFFER_cmp :: "CRYPTO_BUFFER \<Rightarrow> CRYPTO_BUFFER \<Rightarrow> int" where
  "CRYPTO_BUFFER_cmp a b =
     (if cb_len a \<noteq> cb_len b then 1 else OPENSSL_memcmp (cb_data a) (cb_data b) (cb_len a))"

text \<open>
  The functions that the table calls, on the addresses of buffers. The theorems below show that it
  never compares an address where there is no buffer.
\<close>

definition hash_at :: "(ptr \<Rightarrow> CRYPTO_BUFFER option) \<Rightarrow> ptr \<Rightarrow> u32" where
  "hash_at h p = (case h p of None \<Rightarrow> 0 | Some b \<Rightarrow> CRYPTO_BUFFER_hash b)"

definition cmp_at :: "(ptr \<Rightarrow> CRYPTO_BUFFER option) \<Rightarrow> ptr \<Rightarrow> ptr \<Rightarrow> int" where
  "cmp_at h p q =
     (case (h p, h q) of
        (Some a, Some b) \<Rightarrow> CRYPTO_BUFFER_cmp a b
      | (None, None) \<Rightarrow> 0
      | _ \<Rightarrow> 1)"

section \<open>Memory\<close>

definition load :: "ptr \<Rightarrow> CRYPTO_BUFFER pool_op" where
  "load p m = (case bufs m p of None \<Rightarrow> NoResult | Some b \<Rightarrow> Ok b m)"

definition set_references :: "ptr \<Rightarrow> u32 \<Rightarrow> unit pool_op" where
  "set_references p in_count m =
     bindo (load p m) (\<lambda>b m. Ok () (m\<lparr>bufs := (bufs m)(p \<mapsto> b\<lparr>cb_references := in_count\<rparr>)\<rparr>))"

definition set_table :: "ptr \<Rightarrow> lhash_st option \<Rightarrow> memory \<Rightarrow> memory" where
  "set_table pool t m = m\<lparr>pools := (pools m)(pool := t)\<rparr>"

definition crypto_buffer_free_object :: "ptr \<Rightarrow> unit pool_op" where
  "crypto_buffer_free_object buf m = bindo (load buf m) (\<lambda>_ m. Ok () (m\<lparr>bufs := (bufs m)(buf := None)\<rparr>))"

section \<open>Pools\<close>

definition CRYPTO_BUFFER_POOL_new :: "answers \<Rightarrow> ptr pool_op" where
  "CRYPTO_BUFFER_POOL_new a m =
     (if a_new a = 0 then Ok 0 m
      else case OPENSSL_lh_new (a_item a) (a_data a) of
             None \<Rightarrow> Ok 0 m
           | Some t \<Rightarrow> Ok (a_new a) (set_table (a_new a) (Some t) m))"

text \<open>The assertion of debug builds that the pool is empty is a failure here.\<close>

definition CRYPTO_BUFFER_POOL_free :: "ptr \<Rightarrow> unit pool_op" where
  "CRYPTO_BUFFER_POOL_free pool m =
     (if pool = 0 then Ok () m
      else case pools m pool of
             None \<Rightarrow> NoResult
           | Some t \<Rightarrow> if OPENSSL_lh_num_items t \<noteq> 0 then Fail m else Ok () (set_table pool None m))"

section \<open>New buffers\<close>

text \<open>
  The lookup that both locked parts of crypto_buffer_new begin with: NULL (0) when there is no equal
  buffer, or none that a static one must not replace.
\<close>

definition find_duplicate :: "bool \<Rightarrow> ptr \<Rightarrow> ptr \<Rightarrow> ptr pool_op" where
  "find_duplicate data_is_static pool key m =
     (case pools m pool of
        None \<Rightarrow> NoResult
      | Some t \<Rightarrow>
          let duplicate = OPENSSL_lh_retrieve (hash_at (bufs m)) (cmp_at (bufs m)) t key
          in if duplicate = 0 then Ok 0 m
             else bindo (load duplicate m) (\<lambda>b m.
               if data_is_static \<and> \<not> cb_static b then Ok 0 m else Ok duplicate m))"

definition inc_references :: "ptr \<Rightarrow> unit pool_op" where
  "inc_references p m = bindo (load p m) (\<lambda>b. set_references p (CRYPTO_refcount_inc (cb_references b)))"

text \<open>
  The part under the read lock. The key is an object on the stack of which only the data and the
  length are set.
\<close>

definition new_lookup :: "answers \<Rightarrow> bytes \<Rightarrow> bool \<Rightarrow> ptr \<Rightarrow> ptr pool_op" where
  "new_lookup a data data_is_static pool m =
     (let tmp = \<lparr>cb_pool = 0, cb_data = data, cb_len = of_nat (length data), cb_references = 0, cb_static = False\<rparr>
      in case find_duplicate data_is_static pool (a_tmp a) (m\<lparr>bufs := (bufs m)(a_tmp a \<mapsto> tmp)\<rparr>) of
           Ok duplicate _ \<Rightarrow>
             if duplicate = 0 then Ok 0 m else bindo (inc_references duplicate m) (\<lambda>_. Ok duplicate)
         | Fail _ \<Rightarrow> Fail m
         | NoResult \<Rightarrow> NoResult)"

text \<open>The part without a lock, which makes the object.\<close>

definition new_object :: "answers \<Rightarrow> bytes \<Rightarrow> bool \<Rightarrow> ptr \<Rightarrow> ptr pool_op" where
  "new_object a data data_is_static pool m =
     (if a_new a = 0 then Ok 0 m
      else if \<not> data_is_static \<and> data \<noteq> [] \<and> \<not> a_data a then Ok 0 m
      else Ok (a_new a) (m\<lparr>bufs := (bufs m)(a_new a \<mapsto>
        \<lparr>cb_pool = pool, cb_data = data, cb_len = of_nat (length data), cb_references = 1, cb_static = data_is_static\<rparr>)\<rparr>))"

text \<open>The part under the write lock.\<close>

definition new_insert :: "answers \<Rightarrow> bool \<Rightarrow> ptr \<Rightarrow> ptr \<Rightarrow> ptr pool_op" where
  "new_insert a data_is_static pool buf m =
     bindo (find_duplicate data_is_static pool buf m) (\<lambda>duplicate m.
       if duplicate = 0 then
         (case pools m pool of
            None \<Rightarrow> NoResult
          | Some t \<Rightarrow>
              (case OPENSSL_lh_insert (hash_at (bufs m)) (cmp_at (bufs m)) (a_item a) (a_table a) t buf of (t, old, inserted) \<Rightarrow>
                 let m = set_table pool (Some t) m
                 in if \<not> inserted then bindo (crypto_buffer_free_object buf m) (\<lambda>_. Ok 0) else Ok buf m))
       else bindo (inc_references duplicate m) (\<lambda>_ m.
              bindo (crypto_buffer_free_object buf m) (\<lambda>_. Ok duplicate)))"

text \<open>The whole call, when no other thread comes between.\<close>

definition crypto_buffer_new :: "answers \<Rightarrow> bytes \<Rightarrow> bool \<Rightarrow> ptr \<Rightarrow> ptr pool_op" where
  "crypto_buffer_new a data data_is_static pool m =
     bindo (if pool \<noteq> 0 then new_lookup a data data_is_static pool m else Ok 0 m) (\<lambda>duplicate m.
       if duplicate \<noteq> 0 then Ok duplicate m
       else bindo (new_object a data data_is_static pool m) (\<lambda>buf m.
         if buf = 0 then Ok 0 m
         else if pool = 0 then Ok buf m
         else new_insert a data_is_static pool buf m))"

definition CRYPTO_BUFFER_new :: "answers \<Rightarrow> bytes \<Rightarrow> ptr \<Rightarrow> ptr pool_op" where
  "CRYPTO_BUFFER_new a data pool = crypto_buffer_new a data False pool"

definition CRYPTO_BUFFER_new_from_CBS :: "answers \<Rightarrow> CBS \<Rightarrow> ptr \<Rightarrow> ptr pool_op" where
  "CRYPTO_BUFFER_new_from_CBS a cbs pool = CRYPTO_BUFFER_new a cbs pool"

definition CRYPTO_BUFFER_new_from_static_data_unsafe :: "answers \<Rightarrow> bytes \<Rightarrow> ptr \<Rightarrow> ptr pool_op" where
  "CRYPTO_BUFFER_new_from_static_data_unsafe a data pool = crypto_buffer_new a data True pool"

text \<open>
  A buffer of \<open>len\<close> bytes for the caller to fill, in no pool; \<open>block\<close> is what the allocated memory holds
  in the end. The pointer to the bytes, which the code stores in \<open>*out_data\<close>, is that of the buffer's data
  and has no place of its own here: bytes in memory are not modelled, and nothing reads them before.
\<close>

definition CRYPTO_BUFFER_alloc :: "answers \<Rightarrow> bytes \<Rightarrow> u64 \<Rightarrow> ptr pool_op" where
  "CRYPTO_BUFFER_alloc a block len m =
     (if a_new a = 0 then Ok 0 m
      else if len \<noteq> 0 \<and> \<not> a_data a then Ok 0 m
      else Ok (a_new a) (m\<lparr>bufs := (bufs m)(a_new a \<mapsto>
        \<lparr>cb_pool = 0, cb_data = take (unat len) block, cb_len = len, cb_references = 1, cb_static = False\<rparr>)\<rparr>))"

section \<open>References\<close>

definition CRYPTO_BUFFER_up_ref :: "ptr \<Rightarrow> unit pool_op" where
  "CRYPTO_BUFFER_up_ref buf m = inc_references buf m"

definition CRYPTO_BUFFER_data :: "CRYPTO_BUFFER \<Rightarrow> bytes" where
  "CRYPTO_BUFFER_data buf = cb_data buf"

definition CRYPTO_BUFFER_len :: "CRYPTO_BUFFER \<Rightarrow> u64" where
  "CRYPTO_BUFFER_len buf = cb_len buf"

definition CRYPTO_BUFFER_init_CBS :: "CRYPTO_BUFFER \<Rightarrow> CBS" where
  "CRYPTO_BUFFER_init_CBS buf = take (unat (cb_len buf)) (cb_data buf)"

text \<open>Taking the buffer out of its pool, if it is there; another one may have replaced it.\<close>

definition remove_from_pool :: "answers \<Rightarrow> ptr \<Rightarrow> ptr \<Rightarrow> unit pool_op" where
  "remove_from_pool a pool buf m =
     (case pools m pool of
        None \<Rightarrow> NoResult
      | Some t \<Rightarrow>
          if OPENSSL_lh_retrieve (hash_at (bufs m)) (cmp_at (bufs m)) t buf = buf then
            (case OPENSSL_lh_delete (hash_at (bufs m)) (cmp_at (bufs m)) (a_table a) t buf of (t, found) \<Rightarrow>
               if found \<noteq> buf then Fail m else Ok () (set_table pool (Some t) m))
          else Ok () m)"

definition CRYPTO_BUFFER_free :: "answers \<Rightarrow> ptr \<Rightarrow> unit pool_op" where
  "CRYPTO_BUFFER_free a buf m =
     (if buf = 0 then Ok () m
      else bindo (load buf m) (\<lambda>b m.
        case CRYPTO_refcount_dec_and_test_zero (cb_references b) of
          None \<Rightarrow> Fail m
        | Some (in_count, zero) \<Rightarrow>
            bindo (set_references buf in_count m) (\<lambda>_ m.
              if cb_pool b = 0 then if zero then crypto_buffer_free_object buf m else Ok () m
              else if \<not> zero then Ok () m
              else bindo (remove_from_pool a (cb_pool b) buf m) (\<lambda>_. crypto_buffer_free_object buf))))"

section \<open>Equal contents\<close>

text \<open>The addresses of a well-formed memory, and what the tables compare there.\<close>

definition sound_heap :: "(ptr \<Rightarrow> CRYPTO_BUFFER option) \<Rightarrow> bool" where
  "sound_heap h \<longleftrightarrow> (\<forall>p b. h p = Some b \<longrightarrow> p \<noteq> 0 \<and> length (cb_data b) = unat (cb_len b))"

definition contents_at :: "(ptr \<Rightarrow> CRYPTO_BUFFER option) \<Rightarrow> ptr \<Rightarrow> bytes option" where
  "contents_at h p = map_option cb_data (h p)"

lemma memcmp_0: "length a = n \<Longrightarrow> length b = n \<Longrightarrow> memcmp a b n = 0 \<longleftrightarrow> a = b"
proof (induction a b n rule: memcmp.induct)
  case (1 a as b bs n)
  have "uint a - uint b = 0 \<longleftrightarrow> a = b" by (simp add: word_uint_eq_iff)
  then show ?case using 1 by auto
qed auto

lemma cmp_at_0: "sound_heap h \<Longrightarrow> cmp_at h p q = 0 \<longleftrightarrow> contents_at h p = contents_at h q"
proof -
  assume h: "sound_heap h"
  have "CRYPTO_BUFFER_cmp a b = 0 \<longleftrightarrow> cb_data a = cb_data b" if ab: "h p = Some a" "h q = Some b" for a b
  proof -
    have l: "length (cb_data a) = unat (cb_len a)" "length (cb_data b) = unat (cb_len b)" using h ab by (auto simp: sound_heap_def)
    show ?thesis
    proof (cases "cb_len a = cb_len b")
      case True
      then have m: "memcmp (cb_data a) (cb_data b) (unat (cb_len a)) = 0 \<longleftrightarrow> cb_data a = cb_data b" using l by (intro memcmp_0) simp_all
      then show ?thesis using True l by (auto simp: CRYPTO_BUFFER_cmp_def OPENSSL_memcmp_def)
    next
      case False
      then have "cb_data a \<noteq> cb_data b" using l by (auto simp: word_unat_eq_iff)
      then show ?thesis using False by (simp add: CRYPTO_BUFFER_cmp_def)
    qed
  qed
  then show ?thesis by (auto simp: cmp_at_def contents_at_def split: option.splits)
qed

lemma hash_at_eq: "sound_heap h \<Longrightarrow> contents_at h p = contents_at h q \<Longrightarrow> hash_at h p = hash_at h q"
  by (auto simp: hash_at_def contents_at_def sound_heap_def CRYPTO_BUFFER_hash_def split: option.splits)

lemma buffers_eq_hash: "sound_heap h \<Longrightarrow> eq_hash (hash_at h) (cmp_at h)"
  unfolding eq_hash_def by (auto simp: cmp_at_0 intro: hash_at_eq)

text \<open>A table stays well-formed as long as the contents of its items stay.\<close>

lemma lhash_ok_heap:
  assumes ok: "lhash_ok (hash_at h) (cmp_at h) t" and h: "sound_heap h" "sound_heap h'"
    and same: "\<And>p. p \<in># items t \<Longrightarrow> contents_at h' p = contents_at h p"
  shows "lhash_ok (hash_at h') (cmp_at h') t"
proof -
  have hash: "hash_at h' p = hash_at h p" if "p \<in># items t" for p
    using same[OF that] h by (auto simp: hash_at_def contents_at_def sound_heap_def CRYPTO_BUFFER_hash_def split: option.splits)
  have "placed (hash_at h') (num_buckets t) (buckets t)"
    unfolding placed_def
  proof (intro conjI allI ballI impI)
    show "length (buckets t) = unat (num_buckets t)" using ok by (simp add: lhash_ok_def placed_def)
    fix i it assume i: "i < length (buckets t)" "it \<in> set (buckets t ! i)"
    then have "it_data it \<in># items t" by (auto simp: items_def intro!: imageI bexI[of _ "buckets t ! i"])
    moreover have "belongs (hash_at h) (num_buckets t) i it" using ok i by (simp add: lhash_ok_def placed_def)
    ultimately show "belongs (hash_at h') (num_buckets t) i it" using hash by (simp add: belongs_def)
  qed
  moreover have "size (filter_mset (\<lambda>x. cmp_at h' x d = 0) (items t)) \<le> 1" for d
  proof (cases "\<exists>y. y \<in># items t \<and> cmp_at h' y d = 0")
    case True
    then obtain y where y: "y \<in># items t" "cmp_at h' y d = 0" by blast
    have "filter_mset (\<lambda>x. cmp_at h' x d = 0) (items t) = filter_mset (\<lambda>x. cmp_at h x y = 0) (items t)"
      using y same h by (intro filter_mset_cong refl) (simp add: cmp_at_0)
    then show ?thesis using ok by (simp add: lhash_ok_def)
  next
    case False
    then have "filter_mset (\<lambda>x. cmp_at h' x d = 0) (items t) = {#}" by (simp only: filter_mset_eq_mempty_iff) blast
    then show ?thesis by (simp only: size_empty)
  qed
  ultimately show ?thesis using ok buffers_eq_hash[OF h(2)] by (simp add: lhash_ok_def)
qed

section \<open>The invariant\<close>

text \<open>
  What the threads hold: references that were given to clients, and objects that are not yet in
  their pool.
\<close>

record world =
  w_mem :: memory
  w_held :: "ptr multiset"
  w_built :: "ptr set"

definition refs_to :: "world \<Rightarrow> ptr \<Rightarrow> nat" where
  "refs_to w p = count (w_held w) p + (if p \<in> w_built w then 1 else 0)"

definition counted :: "world \<Rightarrow> ptr \<Rightarrow> CRYPTO_BUFFER \<Rightarrow> bool" where
  "counted w p b \<longleftrightarrow> cb_references b \<noteq> 0 \<and> (cb_references b = CRYPTO_REFCOUNT_MAX \<or> unat (cb_references b) = refs_to w p)"

definition table_ok :: "memory \<Rightarrow> ptr \<Rightarrow> lhash_st \<Rightarrow> bool" where
  "table_ok m q t \<longleftrightarrow> lhash_ok (hash_at (bufs m)) (cmp_at (bufs m)) t \<and>
     (\<forall>p. p \<in># items t \<longrightarrow> (\<exists>b. bufs m p = Some b \<and> cb_pool b = q))"

definition mem_ok :: "memory \<Rightarrow> bool" where
  "mem_ok m \<longleftrightarrow> sound_heap (bufs m) \<and> (\<forall>q t. pools m q = Some t \<longrightarrow> q \<noteq> 0 \<and> table_ok m q t) \<and>
     (\<forall>p b. bufs m p = Some b \<longrightarrow> cb_pool b = 0 \<or> pools m (cb_pool b) \<noteq> None)"

definition pool_inv :: "world \<Rightarrow> bool" where
  "pool_inv w \<longleftrightarrow> mem_ok (w_mem w) \<and>
     (\<forall>p b. bufs (w_mem w) p = Some b \<longrightarrow> counted w p b) \<and>
     (\<forall>p. 0 < refs_to w p \<longrightarrow> bufs (w_mem w) p \<noteq> None) \<and>
     (\<forall>p b. p \<in> w_built w \<longrightarrow> bufs (w_mem w) p = Some b \<longrightarrow>
        p \<notin># w_held w \<and> cb_references b = 1 \<and> cb_pool b \<noteq> 0 \<and> (\<forall>q t. pools (w_mem w) q = Some t \<longrightarrow> p \<notin># items t))"

section \<open>Operations on a well-formed memory\<close>

definition with_refs :: "ptr \<Rightarrow> CRYPTO_BUFFER \<Rightarrow> u32 \<Rightarrow> memory \<Rightarrow> memory" where
  "with_refs p b c m = m\<lparr>bufs := (bufs m)(p \<mapsto> b\<lparr>cb_references := c\<rparr>)\<rparr>"

definition without :: "ptr \<Rightarrow> memory \<Rightarrow> memory" where
  "without p m = m\<lparr>bufs := (bufs m)(p := None)\<rparr>"

lemma table_ok_heap:
  assumes "table_ok m q t" and "sound_heap (bufs m)" "sound_heap (bufs m')"
    and "\<And>p b. p \<in># items t \<Longrightarrow> bufs m p = Some b \<Longrightarrow> \<exists>b'. bufs m' p = Some b' \<and> cb_data b' = cb_data b \<and> cb_pool b' = cb_pool b"
  shows "table_ok m' q t"
proof -
  have it: "\<exists>b b'. bufs m p = Some b \<and> bufs m' p = Some b' \<and> cb_data b' = cb_data b \<and> cb_pool b' = cb_pool b \<and> cb_pool b = q"
    if "p \<in># items t" for p
    using assms(1,4) that unfolding table_ok_def by metis
  have "lhash_ok (hash_at (bufs m')) (cmp_at (bufs m')) t"
  proof (rule lhash_ok_heap[OF _ assms(2,3)])
    show "lhash_ok (hash_at (bufs m)) (cmp_at (bufs m)) t" using assms(1) by (simp add: table_ok_def)
    show "contents_at (bufs m') p = contents_at (bufs m) p" if "p \<in># items t" for p
      using it[OF that] by (auto simp: contents_at_def)
  qed
  then show ?thesis using it unfolding table_ok_def by metis
qed

lemma mem_ok_with_refs:
  assumes "mem_ok m" and "bufs m p = Some b"
  shows "mem_ok (with_refs p b c m)"
proof -
  have s: "sound_heap (bufs m)" "sound_heap (bufs (with_refs p b c m))" using assms by (auto simp: mem_ok_def sound_heap_def with_refs_def)
  have "table_ok (with_refs p b c m) q t" if "pools m q = Some t" for q t
    by (rule table_ok_heap[OF _ s]) (use assms that in \<open>auto simp: mem_ok_def with_refs_def\<close>)
  then show ?thesis using assms s(2) by (auto simp: mem_ok_def with_refs_def)
qed

lemma mem_ok_without:
  assumes "mem_ok m" and "\<And>q t. pools m q = Some t \<Longrightarrow> p \<notin># items t"
  shows "mem_ok (without p m)"
proof -
  have s: "sound_heap (bufs m)" "sound_heap (bufs (without p m))" using assms by (auto simp: mem_ok_def sound_heap_def without_def)
  have "table_ok (without p m) q t" if "pools m q = Some t" for q t
    by (rule table_ok_heap[OF _ s]) (use assms that in \<open>auto simp: mem_ok_def without_def\<close>)
  then show ?thesis using assms s(2) by (auto simp: mem_ok_def without_def)
qed

lemma mem_ok_object:
  assumes "mem_ok m" and "bufs m p = None" "p \<noteq> 0" and "length (cb_data b) = unat (cb_len b)"
    and "cb_pool b = 0 \<or> pools m (cb_pool b) \<noteq> None"
  shows "mem_ok (m\<lparr>bufs := (bufs m)(p \<mapsto> b)\<rparr>)"
proof -
  let ?m = "m\<lparr>bufs := (bufs m)(p \<mapsto> b)\<rparr>"
  have s: "sound_heap (bufs m)" "sound_heap (bufs ?m)" using assms by (auto simp: mem_ok_def sound_heap_def)
  have "table_ok ?m q t" if "pools m q = Some t" for q t
    by (rule table_ok_heap[OF _ s]) (use assms that in \<open>auto simp: mem_ok_def\<close>)
  then show ?thesis using assms s(2) by (auto simp: mem_ok_def)
qed

lemma mem_ok_table: "mem_ok m \<Longrightarrow> q \<noteq> 0 \<Longrightarrow> table_ok m q t \<Longrightarrow> mem_ok (set_table q (Some t) m)"
  by (auto simp: mem_ok_def set_table_def table_ok_def)

text \<open>What a lookup finds.\<close>

definition upgradable :: "bool \<Rightarrow> memory \<Rightarrow> ptr \<Rightarrow> bool" where
  "upgradable st m p \<longleftrightarrow> st \<and> (\<exists>b. bufs m p = Some b \<and> \<not> cb_static b)"

lemma retrieve_at:
  fixes key :: ptr
  assumes "table_ok m q t" and "sound_heap (bufs m)"
  defines "p \<equiv> OPENSSL_lh_retrieve (hash_at (bufs m)) (cmp_at (bufs m)) t key"
  shows "if \<exists>x. x \<in># items t \<and> contents_at (bufs m) x = contents_at (bufs m) key
    then p \<in># items t \<and> contents_at (bufs m) p = contents_at (bufs m) key else p = 0"
proof (cases "\<exists>x. x \<in># items t \<and> contents_at (bufs m) x = contents_at (bufs m) key")
  case True
  then obtain x where x: "x \<in># items t" "contents_at (bufs m) x = contents_at (bufs m) key" by blast
  have "p = x" unfolding p_def by (rule retrieve_found) (use assms(1,2) x in \<open>simp_all add: table_ok_def cmp_at_0\<close>)
  then show ?thesis using x by auto
next
  case False
  have "p = 0" unfolding p_def by (rule retrieve_none) (use assms(1,2) False in \<open>auto simp: table_ok_def cmp_at_0\<close>)
  then show ?thesis unfolding if_not_P[OF False] .
qed

lemma find_duplicate_result:
  assumes "pools m q = Some t" and t: "table_ok m q t" and h: "sound_heap (bufs m)"
  shows "\<exists>p. find_duplicate st q key m = Ok p m \<and>
    (if p = 0 then \<forall>x. x \<in># items t \<longrightarrow> contents_at (bufs m) x = contents_at (bufs m) key \<longrightarrow> upgradable st m x
     else p \<in># items t \<and> (\<exists>b. bufs m p = Some b \<and> Some (cb_data b) = contents_at (bufs m) key \<and> cb_pool b = q \<and> (st \<longrightarrow> cb_static b)))"
proof -
  let ?p = "OPENSSL_lh_retrieve (hash_at (bufs m)) (cmp_at (bufs m)) t key"
  note r = retrieve_at[OF t h, of key]
  show ?thesis
  proof (cases "\<exists>x. x \<in># items t \<and> contents_at (bufs m) x = contents_at (bufs m) key")
    case True
    then have p: "?p \<in># items t" "contents_at (bufs m) ?p = contents_at (bufs m) key" using r by simp_all
    then obtain b where b: "bufs m ?p = Some b" "cb_pool b = q" using t unfolding table_ok_def by blast
    have n: "?p \<noteq> 0" using h b(1) unfolding sound_heap_def by metis
    have one: "x = ?p" if x: "x \<in># items t" "contents_at (bufs m) x = contents_at (bufs m) key" for x
      using retrieve_found[of "hash_at (bufs m)" "cmp_at (bufs m)" t x key] t x h by (simp add: table_ok_def cmp_at_0)
    have k: "contents_at (bufs m) key = Some (cb_data b)" using p(2) b(1) by (simp add: contents_at_def)
    have f: "find_duplicate st q key m = (if st \<and> \<not> cb_static b then Ok 0 m else Ok ?p m)"
      using assms(1) n b(1) by (simp add: find_duplicate_def Let_def load_def)
    show ?thesis
    proof (cases "st \<and> \<not> cb_static b")
      case True
      then have "upgradable st m x" if "x \<in># items t" "contents_at (bufs m) x = contents_at (bufs m) key" for x
        using one[OF that] b(1) by (simp add: upgradable_def)
      then show ?thesis using f True by auto
    next
      case False
      then show ?thesis using f n p(1) b k by (intro exI[of _ ?p]) auto
    qed
  next
    case False
    then have "?p = 0" using r by simp
    then show ?thesis using assms(1) False by (auto simp: find_duplicate_def Let_def)
  qed
qed

lemma new_lookup_result:
  assumes m: "mem_ok m" and q: "pools m q = Some t" and tmp: "a_tmp a \<noteq> 0" "bufs m (a_tmp a) = None" and l: "length data < 2 ^ 64"
  shows "(new_lookup a data st q m = Ok 0 m \<and> (\<forall>x. x \<in># items t \<longrightarrow> contents_at (bufs m) x = Some data \<longrightarrow> upgradable st m x)) \<or>
    (\<exists>p b. new_lookup a data st q m = Ok p (with_refs p b (CRYPTO_refcount_inc (cb_references b)) m) \<and> p \<noteq> 0 \<and> p \<in># items t \<and>
       bufs m p = Some b \<and> cb_data b = data \<and> cb_pool b = q \<and> (st \<longrightarrow> cb_static b))"
proof -
  let ?tmp = "\<lparr>cb_pool = 0, cb_data = data, cb_len = of_nat (length data), cb_references = 0, cb_static = False\<rparr>"
  let ?m = "m\<lparr>bufs := (bufs m)(a_tmp a \<mapsto> ?tmp)\<rparr>"
  have ln: "length (cb_data ?tmp) = unat (cb_len ?tmp)" using l by (simp add: unat_of_nat take_bit_nat_eq_self)
  have m': "mem_ok ?m" by (rule mem_ok_object[OF m tmp(2,1) ln]) simp
  have t: "table_ok ?m q t" "pools ?m q = Some t" and sh: "sound_heap (bufs ?m)" using m' q by (auto simp: mem_ok_def)
  have ne: "x \<noteq> a_tmp a" if "x \<in># items t" for x using m q that tmp(2) by (fastforce simp: mem_ok_def table_ok_def)
  have key: "contents_at (bufs ?m) (a_tmp a) = Some data" by (simp add: contents_at_def)
  obtain p where p: "find_duplicate st q (a_tmp a) ?m = Ok p ?m"
    "if p = 0 then \<forall>x. x \<in># items t \<longrightarrow> contents_at (bufs ?m) x = Some data \<longrightarrow> upgradable st ?m x
     else p \<in># items t \<and> (\<exists>b. bufs ?m p = Some b \<and> cb_data b = data \<and> cb_pool b = q \<and> (st \<longrightarrow> cb_static b))"
    using find_duplicate_result[OF t(2,1) sh, of st "a_tmp a"] unfolding key option.inject by blast
  show ?thesis
  proof (cases "p = 0")
    case True
    have "new_lookup a data st q m = Ok 0 m" using p(1) True by (simp add: new_lookup_def Let_def)
    moreover have "upgradable st m x" if "x \<in># items t" "contents_at (bufs m) x = Some data" for x
      using p(2) True that ne[OF that(1)] by (auto simp: contents_at_def upgradable_def)
    ultimately show ?thesis by blast
  next
    case False
    then have i: "p \<in># items t" using p(2) by simp
    then obtain b where b: "bufs m p = Some b" "cb_data b = data" "cb_pool b = q" "st \<longrightarrow> cb_static b"
      using p(2) False ne[OF i] by auto
    have "new_lookup a data st q m = Ok p (with_refs p b (CRYPTO_refcount_inc (cb_references b)) m)"
      using p(1) False b(1) by (simp add: new_lookup_def Let_def inc_references_def set_references_def load_def with_refs_def)
    then show ?thesis using False i b by blast
  qed
qed

lemma hash_cmp_with_refs:
  assumes "bufs m p = Some b"
  shows "hash_at (bufs (with_refs p b c m)) = hash_at (bufs m)" "cmp_at (bufs (with_refs p b c m)) = cmp_at (bufs m)"
  using assms by (auto simp: hash_at_def cmp_at_def with_refs_def CRYPTO_BUFFER_hash_def CRYPTO_BUFFER_cmp_def intro!: ext split: option.splits)

lemma set_table_same: "pools m q = Some t \<Longrightarrow> set_table q (Some t) m = m"
  by (cases m) (auto simp: set_table_def)

lemma new_insert_result:
  assumes m: "mem_ok m" and q: "pools m q = Some t" and b: "bufs m p = Some b" "cb_pool b = q" and p: "p \<notin># items t"
  shows "(\<exists>d c. new_insert a st q p m = Ok d (without p (with_refs d c (CRYPTO_refcount_inc (cb_references c)) m)) \<and> d \<noteq> p \<and> d \<noteq> 0 \<and>
      d \<in># items t \<and> bufs m d = Some c \<and> cb_data c = cb_data b \<and> cb_pool c = q \<and> (st \<longrightarrow> cb_static c)) \<or>
    (\<exists>t'. new_insert a st q p m = Ok p (set_table q (Some t') m) \<and> table_ok m q t' \<and> p \<in># items t' \<and>
      (\<forall>x. x \<in># items t' \<longrightarrow> x = p \<or> x \<in># items t) \<and>
      (\<forall>x. x \<in># items t \<longrightarrow> x \<notin># items t' \<longrightarrow> upgradable st m x \<and> contents_at (bufs m) x = Some (cb_data b))) \<or>
    (new_insert a st q p m = Ok 0 (without p m) \<and> \<not> a_item a)"
proof -
  have t: "table_ok m q t" and h: "sound_heap (bufs m)" using m q by (auto simp: mem_ok_def)
  have key: "contents_at (bufs m) p = Some (cb_data b)" using b by (simp add: contents_at_def)
  obtain d where d: "find_duplicate st q p m = Ok d m"
    "if d = 0 then \<forall>x. x \<in># items t \<longrightarrow> contents_at (bufs m) x = Some (cb_data b) \<longrightarrow> upgradable st m x
     else d \<in># items t \<and> (\<exists>c. bufs m d = Some c \<and> cb_data c = cb_data b \<and> cb_pool c = q \<and> (st \<longrightarrow> cb_static c))"
    using find_duplicate_result[OF q t h, of st p] unfolding key option.inject by blast
  show ?thesis
  proof (cases "d = 0")
    case False
    then obtain c where c: "d \<in># items t" "bufs m d = Some c" "cb_data c = cb_data b" "cb_pool c = q" "st \<longrightarrow> cb_static c"
      using d(2) by auto
    have "d \<noteq> p" using c(1) p by blast
    then have "new_insert a st q p m = Ok d (without p (with_refs d c (CRYPTO_refcount_inc (cb_references c)) m))"
      using d(1) False c(2) b(1)
      by (simp add: new_insert_def inc_references_def set_references_def load_def with_refs_def crypto_buffer_free_object_def without_def)
    then show ?thesis using False \<open>d \<noteq> p\<close> c by blast
  next
    case True
    obtain t' old ins where i: "OPENSSL_lh_insert (hash_at (bufs m)) (cmp_at (bufs m)) (a_item a) (a_table a) t p = (t', old, ins)"
      by (cases "OPENSSL_lh_insert (hash_at (bufs m)) (cmp_at (bufs m)) (a_item a) (a_table a) t p") auto
    note ok = t[unfolded table_ok_def]
  note r = insert_items[OF ok[THEN conjunct1] i]
    have run: "new_insert a st q p m = (let m' = set_table q (Some t') m
        in if \<not> ins then bindo (crypto_buffer_free_object p m') (\<lambda>_. Ok 0) else Ok p m')"
      using d(1) True q by (simp add: new_insert_def i)
    show ?thesis
    proof (cases ins)
      case no: False
      then have "t' = t" "\<not> a_item a" using r unfolding if_not_P[OF no] by blast+
      then have "new_insert a st q p m = Ok 0 (without p m)"
        using run no b(1) set_table_same[OF q] by (simp add: crypto_buffer_free_object_def load_def without_def)
      then show ?thesis using \<open>\<not> a_item a\<close> by blast
    next
      case yes: True
      have up: "upgradable st m x" if "x \<in># items t" "contents_at (bufs m) x = Some (cb_data b)" for x using d(2) True that by simp
      have it: "lhash_ok (hash_at (bufs m)) (cmp_at (bufs m)) t'"
        "if \<exists>x. x \<in># items t \<and> cmp_at (bufs m) x p = 0
         then \<exists>M. items t = add_mset old M \<and> items t' = add_mset p M \<and> cmp_at (bufs m) old p = 0 else items t' = add_mset p (items t)"
        using r unfolding if_P[OF yes] by blast+
      obtain M where M: "items t' = add_mset p M" "items t = M \<or> (items t = add_mset old M \<and> contents_at (bufs m) old = Some (cb_data b))"
        using it(2) cmp_at_0[OF h] key by (auto split: if_splits)
      have "table_ok m q t'" using it(1) ok M b unfolding table_ok_def by (auto split: if_splits)
      moreover have "\<forall>x. x \<in># items t' \<longrightarrow> x = p \<or> x \<in># items t" using M by auto
      moreover have "\<forall>x. x \<in># items t \<longrightarrow> x \<notin># items t' \<longrightarrow> upgradable st m x \<and> contents_at (bufs m) x = Some (cb_data b)"
        using M up by auto
      moreover have "new_insert a st q p m = Ok p (set_table q (Some t') m)" "p \<in># items t'" using run yes M(1) by simp_all
      ultimately show ?thesis by blast
    qed
  qed
qed

lemma remove_from_pool_result:
  assumes m: "mem_ok m" and b: "bufs m p = Some b" and q: "pools m (cb_pool b) = Some t"
  shows "\<exists>t'. remove_from_pool a (cb_pool b) p m = Ok () (set_table (cb_pool b) (Some t') m) \<and> table_ok m (cb_pool b) t' \<and>
    p \<notin># items t' \<and> items t' \<subseteq># items t \<and> (p \<notin># items t \<longrightarrow> t' = t)"
proof -
  have t: "table_ok m (cb_pool b) t" and h: "sound_heap (bufs m)" using m q by (auto simp: mem_ok_def)
  note ok = t[unfolded table_ok_def]
  let ?r = "OPENSSL_lh_retrieve (hash_at (bufs m)) (cmp_at (bufs m)) t p"
  have found: "?r = p" if "p \<in># items t" using retrieve_found[of "hash_at (bufs m)" "cmp_at (bufs m)" t p p] ok that h by (simp add: cmp_at_0)
  show ?thesis
  proof (cases "?r = p")
    case False
    then have "remove_from_pool a (cb_pool b) p m = Ok () (set_table (cb_pool b) (Some t) m)"
      using q set_table_same[OF q] by (simp add: remove_from_pool_def)
    then show ?thesis using found False t by blast
  next
    case True
    have "p \<noteq> 0" using h b unfolding sound_heap_def by blast
    then have pi: "p \<in># items t" using retrieve_at[OF t h, of p] True by (auto split: if_splits)
    obtain t' old where x: "OPENSSL_lh_delete (hash_at (bufs m)) (cmp_at (bufs m)) (a_table a) t p = (t', old)"
      by (cases "OPENSSL_lh_delete (hash_at (bufs m)) (cmp_at (bufs m)) (a_table a) t p")
    note d = delete_items[OF _ x]
    have e: "\<exists>x. x \<in># items t \<and> cmp_at (bufs m) x p = 0" using pi cmp_at_0[OF h] by blast
    have it: "old = p" "items t = add_mset p (items t')" "lhash_ok (hash_at (bufs m)) (cmp_at (bufs m)) t'" using d ok e True by auto
    have "p \<notin># items t'"
    proof
      assume "p \<in># items t'"
      then obtain M where "items t = add_mset p (add_mset p M)" using it(2) by (metis insert_DiffM)
      moreover have "size (filter_mset (\<lambda>x. cmp_at (bufs m) x p = 0) (items t)) \<le> 1" using ok by (simp add: lhash_ok_def)
      ultimately show False using cmp_at_0[OF h, of p p] by simp
    qed
    moreover have "table_ok m (cb_pool b) t'" using it ok unfolding table_ok_def by auto
    moreover have "remove_from_pool a (cb_pool b) p m = Ok () (set_table (cb_pool b) (Some t') m)"
      using q True x it(1) by (simp add: remove_from_pool_def)
    ultimately show ?thesis using it(2) pi by auto
  qed
qed

lemma not_in_other_tables:
  assumes "mem_ok m" and "bufs m p = Some b" and "pools m q = Some t" and "p \<in># items t"
  shows "cb_pool b = q"
proof -
  have "table_ok m q t" using assms(1,3) by (simp add: mem_ok_def)
  then obtain b' where "bufs m p = Some b'" "cb_pool b' = q" using assms(4) unfolding table_ok_def by blast
  then show ?thesis using assms(2) by simp
qed

lemma free_result:
  assumes m: "mem_ok m" and b: "bufs m p = Some b" and r: "cb_references b \<noteq> 0"
  shows "if cb_references b = CRYPTO_REFCOUNT_MAX then CRYPTO_BUFFER_free a p m = Ok () (with_refs p b (cb_references b) m)
    else if cb_references b \<noteq> 1 then CRYPTO_BUFFER_free a p m = Ok () (with_refs p b (cb_references b - 1) m)
    else \<exists>m'. CRYPTO_BUFFER_free a p m = Ok () m' \<and> mem_ok m' \<and> bufs m' = (bufs m)(p := None) \<and>
      (\<forall>q. pools m' q = None \<longleftrightarrow> pools m q = None) \<and>
      (\<forall>q t'. pools m' q = Some t' \<longrightarrow> p \<notin># items t' \<and> (\<exists>t. pools m q = Some t \<and> items t' \<subseteq># items t \<and> (p \<notin># items t \<longrightarrow> t' = t)))"
proof -
  have p0: "p \<noteq> 0" using m b unfolding mem_ok_def sound_heap_def by blast
  have set: "set_references p c m = Ok () (with_refs p b c m)" for c using b by (simp add: set_references_def load_def with_refs_def)
  have m1: "c - 1 = 0 \<longleftrightarrow> c = 1" for c :: u32 by auto
  show ?thesis
  proof (cases "cb_references b = 1")
    case False
    then show ?thesis using p0 b r set m1 by (auto simp: CRYPTO_BUFFER_free_def load_def CRYPTO_refcount_dec_and_test_zero_def Let_def)
  next
    case True
    let ?m = "with_refs p b 0 m" and ?b = "b\<lparr>cb_references := 0\<rparr>"
    have m': "mem_ok ?m" by (rule mem_ok_with_refs[OF m b])
    have b': "bufs ?m p = Some ?b" "pools ?m = pools m" by (simp_all add: with_refs_def)
    have run: "CRYPTO_BUFFER_free a p m =
        (if cb_pool b = 0 then crypto_buffer_free_object p ?m else bindo (remove_from_pool a (cb_pool b) p ?m) (\<lambda>_. crypto_buffer_free_object p))"
      using p0 b True set by (simp add: CRYPTO_BUFFER_free_def load_def CRYPTO_refcount_dec_and_test_zero_def Let_def)
    have free: "crypto_buffer_free_object p k = Ok () (without p k)" if "bufs k p = Some ?b" for k
      using that by (simp add: crypto_buffer_free_object_def load_def without_def)
    show ?thesis
    proof (cases "cb_pool b = 0")
      case z: True
      have no: "p \<notin># items t" if "pools m q = Some t" for q t
      proof
        assume "p \<in># items t"
        then have "q = 0" using not_in_other_tables[OF m b that] z by simp
        then show False using m that unfolding mem_ok_def by blast
      qed
      have "mem_ok (without p ?m)" by (rule mem_ok_without[OF m']) (use no b'(2) in simp)
      then show ?thesis using run z free[OF b'(1)] no True by (auto simp: without_def with_refs_def)
    next
      case nz: False
      then obtain t where t: "pools m (cb_pool b) = Some t" using m b unfolding mem_ok_def by blast
      obtain t' where t': "remove_from_pool a (cb_pool b) p ?m = Ok () (set_table (cb_pool b) (Some t') ?m)" "table_ok ?m (cb_pool b) t'"
        "p \<notin># items t'" "items t' \<subseteq># items t" "p \<notin># items t \<longrightarrow> t' = t"
        using remove_from_pool_result[OF m' b'(1), of t a] t b'(2) by auto
      let ?k = "set_table (cb_pool b) (Some t') ?m"
      have k: "mem_ok ?k" by (rule mem_ok_table[OF m' nz t'(2)])
      have no: "p \<notin># items s" if "pools ?k q = Some s" for q s
        using that not_in_other_tables[OF k, of p ?b q s] t'(3) b'(1) by (auto simp: set_table_def split: if_splits)
      have "CRYPTO_BUFFER_free a p m = Ok () (without p ?k)"
        using run nz t'(1) free[of ?k] b'(1) by (simp add: set_table_def)
      moreover have "mem_ok (without p ?k)" by (rule mem_ok_without[OF k no])
      moreover have "bufs (without p ?k) = (bufs m)(p := None)" by (simp add: without_def set_table_def with_refs_def)
      moreover have pk: "pools (without p ?k) = (pools m)(cb_pool b \<mapsto> t')" "pools ?k = (pools m)(cb_pool b \<mapsto> t')"
        by (simp_all add: without_def set_table_def with_refs_def)
      have "p \<notin># items s \<and> (\<exists>t. pools m q = Some t \<and> items s \<subseteq># items t \<and> (p \<notin># items t \<longrightarrow> s = t))" if "pools (without p ?k) q = Some s" for q s
      proof -
        have "pools ?k q = Some s" using that by (simp only: pk)
        from no[OF this] that show ?thesis using t t'(4,5) unfolding pk by (cases "q = cb_pool b") auto
      qed
      moreover have "pools (without p ?k) q = None \<longleftrightarrow> pools m q = None" for q using t by (simp add: pk)
      ultimately have "\<exists>m'. CRYPTO_BUFFER_free a p m = Ok () m' \<and> mem_ok m' \<and> bufs m' = (bufs m)(p := None) \<and>
          (\<forall>q. pools m' q = None \<longleftrightarrow> pools m q = None) \<and>
          (\<forall>q s. pools m' q = Some s \<longrightarrow> p \<notin># items s \<and> (\<exists>t. pools m q = Some t \<and> items s \<subseteq># items t \<and> (p \<notin># items t \<longrightarrow> s = t)))"
        by (intro exI[of _ "without p ?k"]) blast
      moreover have "cb_references b \<noteq> CRYPTO_REFCOUNT_MAX" "\<not> cb_references b \<noteq> 1" using True by simp_all
      ultimately show ?thesis by (simp only: if_False)
    qed
  qed
qed

end
