(* ===== verification/Pool_Threads.thy ===== *)
theory Pool_Threads
  imports Pool
begin

text \<open>
  The pools of Pool under interleaved threads (src/crypto/pool/pool.c): the steps, the invariant that
  every step keeps, and what it means for the clients.
\<close>

section \<open>Threads\<close>

text \<open>
  One step of some thread. A client passes on only references that it holds, data that fit in
  memory, pools that exist, and it frees a pool only after its last buffer.
\<close>

inductive pool_step :: "world \<Rightarrow> world \<Rightarrow> bool" where
  look_up: "pool \<noteq> 0 \<Longrightarrow> pools (w_mem w) pool \<noteq> None \<Longrightarrow> length data < 2 ^ 64 \<Longrightarrow> a_tmp a \<noteq> 0 \<Longrightarrow> bufs (w_mem w) (a_tmp a) = None \<Longrightarrow>
    new_lookup a data st pool (w_mem w) = Ok p m \<Longrightarrow>
    pool_step w (w\<lparr>w_mem := m, w_held := (if p = 0 then w_held w else add_mset p (w_held w))\<rparr>)"
| make: "pool = 0 \<or> pools (w_mem w) pool \<noteq> None \<Longrightarrow> length data < 2 ^ 64 \<Longrightarrow> bufs (w_mem w) (a_new a) = None \<Longrightarrow>
    new_object a data st pool (w_mem w) = Ok p m \<Longrightarrow>
    pool_step w (if p = 0 then w\<lparr>w_mem := m\<rparr> else if pool = 0 then w\<lparr>w_mem := m, w_held := add_mset p (w_held w)\<rparr>
      else w\<lparr>w_mem := m, w_built := insert p (w_built w)\<rparr>)"
| publish: "p \<in> w_built w \<Longrightarrow> bufs (w_mem w) p = Some b \<Longrightarrow> new_insert a (cb_static b) (cb_pool b) p (w_mem w) = Ok d m \<Longrightarrow>
    pool_step w (w\<lparr>w_mem := m, w_held := (if d = 0 then w_held w else add_mset d (w_held w)), w_built := w_built w - {p}\<rparr>)"
| alloc: "unat len \<le> length block \<Longrightarrow> bufs (w_mem w) (a_new a) = None \<Longrightarrow> CRYPTO_BUFFER_alloc a block len (w_mem w) = Ok p m \<Longrightarrow>
    pool_step w (w\<lparr>w_mem := m, w_held := (if p = 0 then w_held w else add_mset p (w_held w))\<rparr>)"
| up_ref: "p \<in># w_held w \<Longrightarrow> CRYPTO_BUFFER_up_ref p (w_mem w) = Ok () m \<Longrightarrow>
    pool_step w (w\<lparr>w_mem := m, w_held := add_mset p (w_held w)\<rparr>)"
| release: "p \<in># w_held w \<Longrightarrow> CRYPTO_BUFFER_free a p (w_mem w) = Ok () m \<Longrightarrow>
    pool_step w (w\<lparr>w_mem := m, w_held := w_held w - {#p#}\<rparr>)"
| pool_new: "pools (w_mem w) (a_new a) = None \<Longrightarrow> CRYPTO_BUFFER_POOL_new a (w_mem w) = Ok p m \<Longrightarrow> pool_step w (w\<lparr>w_mem := m\<rparr>)"
| pool_free: "\<forall>p b. bufs (w_mem w) p = Some b \<longrightarrow> cb_pool b \<noteq> pool \<Longrightarrow> CRYPTO_BUFFER_POOL_free pool (w_mem w) = Ok () m \<Longrightarrow>
    pool_step w (w\<lparr>w_mem := m\<rparr>)"

definition pool_start :: world where
  "pool_start = \<lparr>w_mem = \<lparr>bufs = (\<lambda>_. None), pools = (\<lambda>_. None)\<rparr>, w_held = {#}, w_built = {}\<rparr>"

inductive reached :: "world \<Rightarrow> bool" where
  start: "reached pool_start"
| step: "reached w \<Longrightarrow> pool_step w w' \<Longrightarrow> reached w'"

section \<open>Every step keeps the invariant\<close>

lemma pool_invD:
  assumes "pool_inv w"
  shows "mem_ok (w_mem w)" "bufs (w_mem w) p = Some b \<Longrightarrow> counted w p b" "0 < refs_to w p \<Longrightarrow> bufs (w_mem w) p \<noteq> None"
    "p \<in> w_built w \<Longrightarrow> bufs (w_mem w) p = Some b \<Longrightarrow> p \<notin># w_held w \<and> cb_references b = 1 \<and> cb_pool b \<noteq> 0"
    "p \<in> w_built w \<Longrightarrow> pools (w_mem w) q = Some t \<Longrightarrow> p \<notin># items t"
proof -
  show "p \<in> w_built w \<Longrightarrow> pools (w_mem w) q = Some t \<Longrightarrow> p \<notin># items t"
    using assms unfolding pool_inv_def refs_to_def by (metis add_gr_0 option.exhaust zero_less_one)
qed (use assms in \<open>auto simp: pool_inv_def\<close>)

lemma held_buffer:
  assumes "pool_inv w" and "p \<in># w_held w"
  shows "\<exists>b. bufs (w_mem w) p = Some b \<and> counted w p b \<and> p \<notin> w_built w"
proof -
  have "0 < refs_to w p" using assms(2) by (simp add: refs_to_def)
  then obtain b where "bufs (w_mem w) p = Some b" using pool_invD(3)[OF assms(1)] by blast
  then show ?thesis using pool_invD(2,4)[OF assms(1)] assms(2) by blast
qed

lemma inc_unat: "c \<noteq> CRYPTO_REFCOUNT_MAX \<Longrightarrow> unat (c + 1) = unat c + 1"
proof -
  assume "c \<noteq> CRYPTO_REFCOUNT_MAX"
  then have "unat c \<noteq> 0xffffffff" by (simp add: word_unat_eq_iff)
  moreover have "unat c < 2 ^ 32" using unsigned_less[of c] by simp
  ultimately show ?thesis by (simp add: unat_word_ariths)
qed

lemma counted_inc: "counted w p b \<Longrightarrow> refs_to w' p = refs_to w p + 1 \<Longrightarrow>
    counted w' p (b\<lparr>cb_references := CRYPTO_refcount_inc (cb_references b)\<rparr>)"
  using inc_unat[of "cb_references b"] by (auto simp: counted_def CRYPTO_refcount_inc_def word_unat_eq_iff[of _ 0])

lemma counted_same: "counted w p b \<Longrightarrow> refs_to w' p = refs_to w p \<Longrightarrow> counted w' p b"
  by (simp add: counted_def)

lemma inv_inc:
  assumes w: "pool_inv w" and b: "bufs (w_mem w) p = Some b" and p: "p \<notin> w_built w"
  shows "pool_inv (w\<lparr>w_mem := with_refs p b (CRYPTO_refcount_inc (cb_references b)) (w_mem w), w_held := add_mset p (w_held w)\<rparr>)"
    (is "pool_inv ?w")
proof -
  have r: "refs_to ?w x = (if x = p then refs_to w x + 1 else refs_to w x)" for x by (simp add: refs_to_def)
  have "mem_ok (w_mem ?w)" using mem_ok_with_refs[OF pool_invD(1)[OF w] b] by simp
  moreover have "counted ?w x c" if "bufs (w_mem ?w) x = Some c" for x c
  proof (cases "x = p")
    case True
    then show ?thesis using that counted_inc[OF pool_invD(2)[OF w b], of ?w] r by (auto simp: with_refs_def)
  next
    case False
    then show ?thesis using that counted_same[OF pool_invD(2)[OF w, of x c], of ?w] r by (simp add: with_refs_def)
  qed
  moreover have "bufs (w_mem ?w) x \<noteq> None" if "0 < refs_to ?w x" for x
    using that pool_invD(3)[OF w, of x] r by (auto simp: with_refs_def split: if_splits)
  moreover have "x \<notin># w_held ?w \<and> cb_references c = 1 \<and> cb_pool c \<noteq> 0 \<and> (\<forall>q t. pools (w_mem ?w) q = Some t \<longrightarrow> x \<notin># items t)"
    if "x \<in> w_built ?w" "bufs (w_mem ?w) x = Some c" for x c
    using that p pool_invD(4,5)[OF w, of x] by (auto simp: with_refs_def split: if_splits)
  ultimately show ?thesis unfolding pool_inv_def by blast
qed

text \<open>An object that is not published is given up.\<close>

lemma inv_drop:
  assumes w: "pool_inv w" and p: "p \<in> w_built w"
  shows "pool_inv (w\<lparr>w_mem := without p (w_mem w), w_built := w_built w - {p}\<rparr>)" (is "pool_inv ?w")
proof -
  obtain b where b: "bufs (w_mem w) p = Some b" using pool_invD(3)[OF w, of p] p by (auto simp: refs_to_def)
  have h: "p \<notin># w_held w" using pool_invD(4)[OF w p b] by blast
  have r: "refs_to ?w x = (if x = p then 0 else refs_to w x)" for x using h by (simp add: refs_to_def not_in_iff)
  have "mem_ok (w_mem ?w)" using mem_ok_without[OF pool_invD(1)[OF w] pool_invD(5)[OF w p]] by simp
  moreover have "counted ?w x c" if "bufs (w_mem ?w) x = Some c" for x c
    using that counted_same[OF pool_invD(2)[OF w, of x c], of ?w] r by (simp add: without_def split: if_splits)
  moreover have "bufs (w_mem ?w) x \<noteq> None" if "0 < refs_to ?w x" for x
    using that pool_invD(3)[OF w, of x] r by (auto simp: without_def split: if_splits)
  moreover have "x \<notin># w_held ?w \<and> cb_references c = 1 \<and> cb_pool c \<noteq> 0 \<and> (\<forall>q t. pools (w_mem ?w) q = Some t \<longrightarrow> x \<notin># items t)"
    if "x \<in> w_built ?w" "bufs (w_mem ?w) x = Some c" for x c
    using that pool_invD(4,5)[OF w, of x] by (auto simp: without_def split: if_splits)
  ultimately show ?thesis unfolding pool_inv_def by blast
qed

text \<open>An object goes into its pool.\<close>

lemma inv_publish:
  assumes w: "pool_inv w" and p: "p \<in> w_built w" and b: "bufs (w_mem w) p = Some b" and q: "pools (w_mem w) (cb_pool b) = Some t"
    and t': "table_ok (w_mem w) (cb_pool b) t'" "\<And>x. x \<in># items t' \<Longrightarrow> x = p \<or> x \<in># items t"
  shows "pool_inv (w\<lparr>w_mem := set_table (cb_pool b) (Some t') (w_mem w), w_held := add_mset p (w_held w), w_built := w_built w - {p}\<rparr>)"
    (is "pool_inv ?w")
proof -
  have r: "refs_to ?w x = refs_to w x" for x using p by (cases "x = p") (simp_all add: refs_to_def)
  have "cb_pool b \<noteq> 0" using pool_invD(4)[OF w p b] by blast
  then have "mem_ok (w_mem ?w)" using mem_ok_table[OF pool_invD(1)[OF w] _ t'(1)] by simp
  moreover have "counted ?w x c" if "bufs (w_mem ?w) x = Some c" for x c
    using that counted_same[OF pool_invD(2)[OF w, of x c], of ?w] r by (simp add: set_table_def)
  moreover have "bufs (w_mem ?w) x \<noteq> None" if "0 < refs_to ?w x" for x
    using that pool_invD(3)[OF w, of x] r by (simp add: set_table_def)
  moreover have "x \<notin># w_held ?w \<and> cb_references c = 1 \<and> cb_pool c \<noteq> 0 \<and> (\<forall>q t. pools (w_mem ?w) q = Some t \<longrightarrow> x \<notin># items t)"
    if "x \<in> w_built ?w" "bufs (w_mem ?w) x = Some c" for x c
  proof -
    have "x \<noteq> p" "x \<in> w_built w" "bufs (w_mem w) x = Some c" using that by (auto simp: set_table_def)
    then show ?thesis using pool_invD(4,5)[OF w, of x] q t'(2) by (auto simp: set_table_def)
  qed
  ultimately show ?thesis unfolding pool_inv_def by blast
qed

text \<open>A new object.\<close>

lemma inv_object:
  assumes w: "pool_inv w" and p: "bufs (w_mem w) p = None" "p \<noteq> 0" and b: "length (cb_data b) = unat (cb_len b)" "cb_references b = 1"
    and q: "if cb_pool b = 0 then held = add_mset p (w_held w) \<and> built = w_built w
      else held = w_held w \<and> built = insert p (w_built w) \<and> pools (w_mem w) (cb_pool b) \<noteq> None"
  shows "pool_inv (w\<lparr>w_mem := (w_mem w)\<lparr>bufs := (bufs (w_mem w))(p \<mapsto> b)\<rparr>, w_held := held, w_built := built\<rparr>)" (is "pool_inv ?w")
proof -
  have "refs_to w p = 0" using pool_invD(3)[OF w, of p] p(1) by auto
  then have no: "p \<notin># w_held w" "p \<notin> w_built w" by (auto simp: refs_to_def not_in_iff split: if_splits)
  then have r: "refs_to ?w x = (if x = p then 1 else refs_to w x)" for x
    using q by (auto simp: refs_to_def not_in_iff split: if_splits)
  have "mem_ok (w_mem ?w)" using mem_ok_object[OF pool_invD(1)[OF w] p b(1)] q by (auto split: if_splits)
  moreover have "counted ?w x c" if "bufs (w_mem ?w) x = Some c" for x c
  proof (cases "x = p")
    case True
    then show ?thesis using that b(2) r[of p] by (simp add: counted_def)
  next
    case False
    then show ?thesis using that counted_same[OF pool_invD(2)[OF w, of x c], of ?w] r by simp
  qed
  moreover have "bufs (w_mem ?w) x \<noteq> None" if "0 < refs_to ?w x" for x
    using that pool_invD(3)[OF w, of x] r by (auto split: if_splits)
  moreover have "x \<notin># w_held ?w \<and> cb_references c = 1 \<and> cb_pool c \<noteq> 0 \<and> (\<forall>q t. pools (w_mem ?w) q = Some t \<longrightarrow> x \<notin># items t)"
    if x: "x \<in> w_built ?w" "bufs (w_mem ?w) x = Some c" for x c
  proof (cases "x = p")
    case True
    have "p \<notin># items t" if t: "pools (w_mem w) s = Some t" for s t
    proof
      assume "p \<in># items t"
      moreover have "table_ok (w_mem w) s t" using pool_invD(1)[OF w] t by (simp add: mem_ok_def)
      ultimately show False using p(1) unfolding table_ok_def by fastforce
    qed
    then show ?thesis using x True q b(2) no by (auto split: if_splits)
  next
    case False
    then show ?thesis using x q pool_invD(4,5)[OF w, of x] by (auto split: if_splits)
  qed
  ultimately show ?thesis unfolding pool_inv_def by blast
qed

text \<open>A reference is given back; the last one takes the buffer out of its pool and frees it.\<close>

lemma inv_release:
  assumes w: "pool_inv w" and p: "p \<in># w_held w"
  shows "\<exists>m. CRYPTO_BUFFER_free a p (w_mem w) = Ok () m \<and> pool_inv (w\<lparr>w_mem := m, w_held := w_held w - {#p#}\<rparr>)"
proof -
  obtain b where b: "bufs (w_mem w) p = Some b" "counted w p b" "p \<notin> w_built w" using held_buffer[OF assms] by blast
  let ?w = "\<lambda>m. w\<lparr>w_mem := m, w_held := w_held w - {#p#}\<rparr>"
  have r: "refs_to (?w m) x = (if x = p then refs_to w x - 1 else refs_to w x)" for m x using b(3) by (simp add: refs_to_def)
  have refs: "cb_references b \<noteq> 0" using b(2) by (simp add: counted_def)
  note f = free_result[OF pool_invD(1)[OF w] b(1) refs, of a]
  have built: "x \<in> w_built (?w m) \<Longrightarrow> x \<noteq> p" for x m using b(3) by auto
  show ?thesis
  proof (cases "cb_references b = 1")
    case False
    define c where "c = (if cb_references b = CRYPTO_REFCOUNT_MAX then cb_references b else cb_references b - 1)"
    let ?m = "with_refs p b c (w_mem w)"
    have run: "CRYPTO_BUFFER_free a p (w_mem w) = Ok () ?m" using f False by (auto simp: c_def split: if_splits)
    have "unat (cb_references b - 1) = unat (cb_references b) - 1" "cb_references b - 1 \<noteq> 0" using refs False by (simp_all add: unat_minus_one)
    then have cp: "counted (?w ?m) p (b\<lparr>cb_references := c\<rparr>)" using b(2) r[of ?m p] by (auto simp: counted_def c_def)
    have "mem_ok ?m" by (rule mem_ok_with_refs[OF pool_invD(1)[OF w] b(1)])
    moreover have "counted (?w ?m) x d" if "bufs ?m x = Some d" for x d
    proof (cases "x = p")
      case True
      then show ?thesis using that cp by (simp add: with_refs_def)
    next
      case False
      then show ?thesis using that counted_same[OF pool_invD(2)[OF w, of x d], of "?w ?m"] r by (simp add: with_refs_def)
    qed
    moreover have "bufs ?m x \<noteq> None" if "0 < refs_to (?w ?m) x" for x
      using that pool_invD(3)[OF w, of x] r by (auto simp: with_refs_def split: if_splits)
    moreover have "x \<notin># w_held (?w ?m) \<and> cb_references d = 1 \<and> cb_pool d \<noteq> 0 \<and> (\<forall>q t. pools ?m q = Some t \<longrightarrow> x \<notin># items t)"
      if "x \<in> w_built w" "bufs ?m x = Some d" for x d
      using that built pool_invD(4,5)[OF w, of x] by (auto simp: with_refs_def dest: in_diffD split: if_splits)
    ultimately have "pool_inv (?w ?m)" by (simp add: pool_inv_def)
    then show ?thesis using run by blast
  next
    case True
    then have "cb_references b \<noteq> CRYPTO_REFCOUNT_MAX" "\<not> cb_references b \<noteq> 1" by simp_all
    from f[unfolded if_not_P[OF this(1)] if_not_P[OF this(2)]]
    obtain m where m: "CRYPTO_BUFFER_free a p (w_mem w) = Ok () m" "mem_ok m" "bufs m = (bufs (w_mem w))(p := None)"
      and m4: "\<forall>q t'. pools m q = Some t' \<longrightarrow> p \<notin># items t' \<and> (\<exists>t. pools (w_mem w) q = Some t \<and> items t' \<subseteq># items t \<and> (p \<notin># items t \<longrightarrow> t' = t))"
      by blast
    have m4: "\<exists>t. pools (w_mem w) q = Some t \<and> items t' \<subseteq># items t" if "pools m q = Some t'" for q t' using m4 that by blast
    have "unat (cb_references b) = refs_to w p" using b(2) True by (simp add: counted_def)
    then have one: "refs_to w p = 1" using True by simp
    have "counted (?w m) x d" if "bufs m x = Some d" for x d
      using that counted_same[OF pool_invD(2)[OF w, of x d], of "?w m"] r m(3) by (auto split: if_splits)
    moreover have "bufs m x \<noteq> None" if "0 < refs_to (?w m) x" for x
      using that pool_invD(3)[OF w, of x] r one m(3) by (auto split: if_splits)
    moreover have "x \<notin># w_held (?w m) \<and> cb_references d = 1 \<and> cb_pool d \<noteq> 0 \<and> (\<forall>q t. pools m q = Some t \<longrightarrow> x \<notin># items t)"
      if x: "x \<in> w_built w" "bufs m x = Some d" for x d
    proof -
      have d: "x \<notin># w_held w" "cb_references d = 1" "cb_pool d \<noteq> 0" using x m(3) pool_invD(4)[OF w, of x d] by (auto split: if_splits)
      have "x \<notin># items t" if t: "pools m q = Some t" for q t
      proof -
        obtain t' where "pools (w_mem w) q = Some t'" "items t \<subseteq># items t'" using m4[OF t] by blast
        then show ?thesis using pool_invD(5)[OF w x(1)] mset_subset_eqD by fast
      qed
      then show ?thesis using d by (auto dest: in_diffD)
    qed
    ultimately have "pool_inv (?w m)" using m(2) by (simp add: pool_inv_def)
    then show ?thesis using m(1) by blast
  qed
qed

lemma inv_tables:
  assumes w: "pool_inv w" and m: "bufs m = bufs (w_mem w)" "mem_ok m"
    and t: "\<And>q t x. pools m q = Some t \<Longrightarrow> x \<in># items t \<Longrightarrow> \<exists>t'. pools (w_mem w) q = Some t' \<and> x \<in># items t'"
  shows "pool_inv (w\<lparr>w_mem := m\<rparr>)"
proof -
  have r: "refs_to (w\<lparr>w_mem := m\<rparr>) = refs_to w" by (auto simp: refs_to_def)
  have "x \<notin># items s" if "x \<in> w_built w" "pools m q = Some s" for x q s using t[OF that(2)] pool_invD(5)[OF w that(1)] by blast
  then show ?thesis
    using pool_invD(2-4)[OF w] m unfolding pool_inv_def by (simp add: counted_def r)
qed

lemma new_table_ok: "sound_heap (bufs m) \<Longrightarrow> OPENSSL_lh_new ok1 ok2 = Some t \<Longrightarrow> items t = {#} \<and> table_ok m q t"
  using empty_table_ok[OF buffers_eq_hash[of "bufs m"]]
  by (auto simp: OPENSSL_lh_new_def table_ok_def items_def empty_table_def kMinNumBuckets_def split: if_splits)

text \<open>The results of the operations, and that the invariant is kept, in one place for each.\<close>

lemma look_up_step:
  assumes w: "pool_inv w" and q: "pool \<noteq> 0" "pools (w_mem w) pool \<noteq> None"
    and a: "length data < 2 ^ 64" "a_tmp a \<noteq> 0" "bufs (w_mem w) (a_tmp a) = None"
  shows "\<exists>p m. new_lookup a data st pool (w_mem w) = Ok p m \<and>
    pool_inv (w\<lparr>w_mem := m, w_held := (if p = 0 then w_held w else add_mset p (w_held w))\<rparr>)"
proof -
  obtain t where t: "pools (w_mem w) pool = Some t" using q(2) by blast
  consider "new_lookup a data st pool (w_mem w) = Ok 0 (w_mem w)"
    | p b where "new_lookup a data st pool (w_mem w) = Ok p (with_refs p b (CRYPTO_refcount_inc (cb_references b)) (w_mem w))"
      "p \<noteq> 0" "p \<in># items t" "bufs (w_mem w) p = Some b"
    using new_lookup_result[OF pool_invD(1)[OF w] t a(2,3,1), of st] by blast
  then show ?thesis
  proof cases
    case 1
    then show ?thesis using w by simp
  next
    case 2
    have "p \<notin> w_built w" using pool_invD(5)[OF w _ t] 2(3) by blast
    from inv_inc[OF w 2(4) this] 2(1,2) show ?thesis by simp
  qed
qed

lemma publish_step:
  assumes w: "pool_inv w" and p: "p \<in> w_built w" and b: "bufs (w_mem w) p = Some b"
  shows "\<exists>d m. new_insert a (cb_static b) (cb_pool b) p (w_mem w) = Ok d m \<and>
    pool_inv (w\<lparr>w_mem := m, w_held := (if d = 0 then w_held w else add_mset d (w_held w)), w_built := w_built w - {p}\<rparr>)"
proof -
  have "cb_pool b \<noteq> 0" using pool_invD(4)[OF w p b] by blast
  then obtain t where t: "pools (w_mem w) (cb_pool b) = Some t" using pool_invD(1)[OF w] b unfolding mem_ok_def by blast
  have p0: "p \<noteq> 0" using pool_invD(1)[OF w] b unfolding mem_ok_def sound_heap_def by blast
  have pt: "p \<notin># items t" by (rule pool_invD(5)[OF w p t])
  let ?run = "new_insert a (cb_static b) (cb_pool b) p (w_mem w)"
  consider (dup) d c where "?run = Ok d (without p (with_refs d c (CRYPTO_refcount_inc (cb_references c)) (w_mem w)))"
      "d \<noteq> 0" "d \<in># items t" "bufs (w_mem w) d = Some c"
    | (new) t' where "?run = Ok p (set_table (cb_pool b) (Some t') (w_mem w))" "table_ok (w_mem w) (cb_pool b) t'"
      "\<And>x. x \<in># items t' \<Longrightarrow> x = p \<or> x \<in># items t"
    | (none) "?run = Ok 0 (without p (w_mem w))"
    using new_insert_result[OF pool_invD(1)[OF w] t b refl pt, of a "cb_static b"] by blast
  then show ?thesis
  proof cases
    case dup
    have "d \<notin> w_built w" using pool_invD(5)[OF w _ t] dup(3) by blast
    from inv_drop[OF inv_inc[OF w dup(4) this], of p] p dup(1,2) show ?thesis by (cases w) simp
  next
    case new
    from inv_publish[OF w p b t new(2,3)] new(1) p0 show ?thesis by simp
  next
    case none
    then show ?thesis using inv_drop[OF w p] by simp
  qed
qed

lemma make_step:
  assumes w: "pool_inv w" and q: "pool = 0 \<or> pools (w_mem w) pool \<noteq> None" and l: "length data < 2 ^ 64"
    and p: "bufs (w_mem w) (a_new a) = None"
  shows "\<exists>p m. new_object a data st pool (w_mem w) = Ok p m \<and>
    pool_inv (if p = 0 then w\<lparr>w_mem := m\<rparr> else if pool = 0 then w\<lparr>w_mem := m, w_held := add_mset p (w_held w)\<rparr>
      else w\<lparr>w_mem := m, w_built := insert p (w_built w)\<rparr>)"
proof (cases "a_new a = 0 \<or> (\<not> st \<and> data \<noteq> [] \<and> \<not> a_data a)")
  case True
  then have "new_object a data st pool (w_mem w) = Ok 0 (w_mem w)" by (auto simp: new_object_def)
  then show ?thesis using w by simp
next
  case False
  let ?b = "\<lparr>cb_pool = pool, cb_data = data, cb_len = of_nat (length data), cb_references = 1, cb_static = st\<rparr>"
  let ?m = "(w_mem w)\<lparr>bufs := (bufs (w_mem w))(a_new a \<mapsto> ?b)\<rparr>"
  have "length (cb_data ?b) = unat (cb_len ?b)" using l by (simp add: unat_of_nat take_bit_nat_eq_self)
  note o = inv_object[OF w p _ this, of "if pool = 0 then add_mset (a_new a) (w_held w) else w_held w"
      "if pool = 0 then w_built w else insert (a_new a) (w_built w)"]
  have "new_object a data st pool (w_mem w) = Ok (a_new a) ?m" using False by (auto simp: new_object_def)
  then show ?thesis using o q False by (cases w) (cases "pool = 0"; auto)
qed

lemma alloc_step:
  assumes w: "pool_inv w" and l: "unat len \<le> length block" and p: "bufs (w_mem w) (a_new a) = None"
  shows "\<exists>p m. CRYPTO_BUFFER_alloc a block len (w_mem w) = Ok p m \<and>
    pool_inv (w\<lparr>w_mem := m, w_held := (if p = 0 then w_held w else add_mset p (w_held w))\<rparr>)"
proof (cases "a_new a = 0 \<or> (len \<noteq> 0 \<and> \<not> a_data a)")
  case True
  then have "CRYPTO_BUFFER_alloc a block len (w_mem w) = Ok 0 (w_mem w)" by (auto simp: CRYPTO_BUFFER_alloc_def)
  then show ?thesis using w by simp
next
  case False
  let ?b = "\<lparr>cb_pool = 0, cb_data = take (unat len) block, cb_len = len, cb_references = 1, cb_static = False\<rparr>"
  have "length (cb_data ?b) = unat (cb_len ?b)" using l by simp
  from inv_object[OF w p _ this, of "add_mset (a_new a) (w_held w)" "w_built w"] show ?thesis
    using False by (cases w) (auto simp: CRYPTO_BUFFER_alloc_def)
qed

lemma up_ref_step:
  assumes w: "pool_inv w" and p: "p \<in># w_held w"
  shows "\<exists>m. CRYPTO_BUFFER_up_ref p (w_mem w) = Ok () m \<and> pool_inv (w\<lparr>w_mem := m, w_held := add_mset p (w_held w)\<rparr>)"
proof -
  obtain b where b: "bufs (w_mem w) p = Some b" "p \<notin> w_built w" using held_buffer[OF assms] by blast
  then have "CRYPTO_BUFFER_up_ref p (w_mem w) = Ok () (with_refs p b (CRYPTO_refcount_inc (cb_references b)) (w_mem w))"
    by (simp add: CRYPTO_BUFFER_up_ref_def inc_references_def set_references_def load_def with_refs_def)
  then show ?thesis using inv_inc[OF w b] by blast
qed

lemma pool_new_step:
  assumes w: "pool_inv w" and q: "pools (w_mem w) (a_new a) = None"
  shows "\<exists>p m. CRYPTO_BUFFER_POOL_new a (w_mem w) = Ok p m \<and> pool_inv (w\<lparr>w_mem := m\<rparr>)"
proof (cases "a_new a = 0 \<or> OPENSSL_lh_new (a_item a) (a_data a) = None")
  case True
  then have "CRYPTO_BUFFER_POOL_new a (w_mem w) = Ok 0 (w_mem w)" by (auto simp: CRYPTO_BUFFER_POOL_new_def)
  then show ?thesis using w by simp
next
  case False
  then obtain t where t: "OPENSSL_lh_new (a_item a) (a_data a) = Some t" by blast
  note m = pool_invD(1)[OF w]
  have n: "items t = {#}" "table_ok (w_mem w) (a_new a) t" using new_table_ok[OF _ t] m by (auto simp: mem_ok_def)
  have "pool_inv (w\<lparr>w_mem := set_table (a_new a) (Some t) (w_mem w)\<rparr>)"
    by (rule inv_tables[OF w _ mem_ok_table[OF m _ n(2)]]) (use False n(1) in \<open>auto simp: set_table_def split: if_splits\<close>)
  then show ?thesis using False t by (simp add: CRYPTO_BUFFER_POOL_new_def)
qed

text \<open>A pool without buffers has an empty table, so that the assertion of its release holds.\<close>

lemma pool_free_step:
  assumes w: "pool_inv w" and q: "pools (w_mem w) pool \<noteq> None" and none: "\<forall>p b. bufs (w_mem w) p = Some b \<longrightarrow> cb_pool b \<noteq> pool"
  shows "\<exists>m. CRYPTO_BUFFER_POOL_free pool (w_mem w) = Ok () m \<and> pool_inv (w\<lparr>w_mem := m\<rparr>)"
proof -
  obtain t where t: "pools (w_mem w) pool = Some t" using q by blast
  note m = pool_invD(1)[OF w]
  have ok: "table_ok (w_mem w) pool t" "pool \<noteq> 0" using m t by (auto simp: mem_ok_def)
  then have "items t = {#}" using none unfolding table_ok_def by (metis multiset_nonemptyE)
  then have "num_items t = 0" using ok by (simp add: table_ok_def lhash_ok_def)
  then have run: "CRYPTO_BUFFER_POOL_free pool (w_mem w) = Ok () (set_table pool None (w_mem w))"
    using ok t by (simp add: CRYPTO_BUFFER_POOL_free_def OPENSSL_lh_num_items_def)
  have "mem_ok (set_table pool None (w_mem w))" using m none by (auto simp: mem_ok_def set_table_def table_ok_def)
  then have "pool_inv (w\<lparr>w_mem := set_table pool None (w_mem w)\<rparr>)"
    by (intro inv_tables[OF w]) (auto simp: set_table_def split: if_splits)
  then show ?thesis using run by blast
qed

lemma step_inv: "pool_step w w' \<Longrightarrow> pool_inv w \<Longrightarrow> pool_inv w'"
proof (induction rule: pool_step.induct)
  case (look_up pool w data a st p m)
  then show ?case using look_up_step[of w pool data a st] by auto
next
  case (make pool w data a st p m)
  then show ?case using make_step[of w pool data a st] by auto
next
  case (publish p w b a d m)
  then show ?case using publish_step[of w p b a] by auto
next
  case (alloc len block w a p m)
  then show ?case using alloc_step[of w len block a] by auto
next
  case (up_ref p w m)
  then show ?case using up_ref_step[of w p] by auto
next
  case (release p w a m)
  then show ?case using inv_release[of w p a] by auto
next
  case (pool_new w a p m)
  then show ?case using pool_new_step[of w a] by auto
next
  case (pool_free w pool m)
  show ?case
  proof (cases "pool = 0")
    case True
    then have "w\<lparr>w_mem := m\<rparr> = w" using pool_free(2) by (cases w) (simp add: CRYPTO_BUFFER_POOL_free_def)
    then show ?thesis using pool_free(3) by simp
  next
    case False
    then have "pools (w_mem w) pool \<noteq> None" using pool_free(2) by (auto simp: CRYPTO_BUFFER_POOL_free_def split: option.splits)
    then show ?thesis using pool_free_step[of w pool] pool_free by auto
  qed
qed

lemma start_inv: "pool_inv pool_start"
  by (simp add: pool_inv_def pool_start_def mem_ok_def sound_heap_def refs_to_def)

lemma reached_inv: "reached w \<Longrightarrow> pool_inv w"
  by (induction rule: reached.induct) (auto intro: start_inv step_inv)

section \<open>The whole call\<close>

definition placed_in :: "memory \<Rightarrow> ptr \<Rightarrow> ptr \<Rightarrow> bool" where
  "placed_in m pool p \<longleftrightarrow> (\<exists>t. pools m pool = Some t \<and> p \<in># items t)"

text \<open>A new buffer in a pool, when no other thread comes between.\<close>

lemma new_in_pool:
  assumes w: "pool_inv w" and q: "pool \<noteq> 0" "pools (w_mem w) pool = Some t"
    and a: "length data < 2 ^ 64" "a_tmp a \<noteq> 0" "bufs (w_mem w) (a_tmp a) = None" "bufs (w_mem w) (a_new a) = None"
  shows "\<exists>p m. crypto_buffer_new a data st pool (w_mem w) = Ok p m \<and>
    (if \<exists>x. x \<in># items t \<and> contents_at (bufs (w_mem w)) x = Some data \<and> \<not> upgradable st (w_mem w) x
     then p \<in># items t \<and> (\<exists>b. bufs (w_mem w) p = Some b \<and> cb_data b = data \<and> m = with_refs p b (CRYPTO_refcount_inc (cb_references b)) (w_mem w))
     else if a_new a = 0 \<or> (\<not> st \<and> data \<noteq> [] \<and> \<not> a_data a) then p = 0 \<and> m = w_mem w
     else (p = a_new a \<and> placed_in m pool p \<and> bufs m = (bufs (w_mem w))(p \<mapsto>
             \<lparr>cb_pool = pool, cb_data = data, cb_len = of_nat (length data), cb_references = 1, cb_static = st\<rparr>)) \<or>
          (p = 0 \<and> \<not> a_item a \<and> m = w_mem w))"
proof -
  let ?m = "w_mem w" and ?new = "\<lparr>cb_pool = pool, cb_data = data, cb_len = of_nat (length data), cb_references = 1, cb_static = st\<rparr>"
  note m = pool_invD(1)[OF w]
  have tok: "table_ok ?m pool t" using m q(2) by (simp add: mem_ok_def)
  consider (hit) p b where "new_lookup a data st pool ?m = Ok p (with_refs p b (CRYPTO_refcount_inc (cb_references b)) ?m)" "p \<noteq> 0"
      "p \<in># items t" "bufs ?m p = Some b" "cb_data b = data" "st \<longrightarrow> cb_static b"
    | (miss) "new_lookup a data st pool ?m = Ok 0 ?m" "\<And>x. x \<in># items t \<Longrightarrow> contents_at (bufs ?m) x = Some data \<Longrightarrow> upgradable st ?m x"
    using new_lookup_result[OF m q(2) a(2,3,1), of st] by blast
  then show ?thesis
  proof cases
    case hit
    then have "crypto_buffer_new a data st pool ?m = Ok p (with_refs p b (CRYPTO_refcount_inc (cb_references b)) ?m)"
      using q(1) by (simp add: crypto_buffer_new_def)
    moreover have "\<exists>x. x \<in># items t \<and> contents_at (bufs ?m) x = Some data \<and> \<not> upgradable st ?m x"
      using hit by (intro exI[of _ p]) (auto simp: contents_at_def upgradable_def)
    ultimately show ?thesis using hit(3-5) by auto
  next
    case miss
    then have none: "\<not> (\<exists>x. x \<in># items t \<and> contents_at (bufs ?m) x = Some data \<and> \<not> upgradable st ?m x)" by blast
    show ?thesis
    proof (cases "a_new a = 0 \<or> (\<not> st \<and> data \<noteq> [] \<and> \<not> a_data a)")
      case True
      then have "crypto_buffer_new a data st pool ?m = Ok 0 ?m" using q(1) miss(1) by (auto simp: crypto_buffer_new_def new_object_def)
      then show ?thesis unfolding if_not_P[OF none] if_P[OF True] by simp
    next
      case False
      let ?m1 = "?m\<lparr>bufs := (bufs ?m)(a_new a \<mapsto> ?new)\<rparr>"
      have m1: "mem_ok ?m1"
        by (rule mem_ok_object[OF m a(4)]) (use False q a(1) in \<open>auto simp: unat_of_nat take_bit_nat_eq_self\<close>)
      have no: "a_new a \<notin># items t" using tok a(4) unfolding table_ok_def by fastforce
      have run: "crypto_buffer_new a data st pool ?m = new_insert a st pool (a_new a) ?m1"
        using q(1) miss(1) False by (auto simp: crypto_buffer_new_def new_object_def)
      have drop: "without (a_new a) ?m1 = ?m" using a(4) by (cases ?m) (auto simp: without_def)
      have old: "upgradable st ?m1 x" if "x \<in># items t" "contents_at (bufs ?m1) x = Some data" for x
        using miss(2)[OF that(1)] that no by (auto simp: contents_at_def upgradable_def)
      consider (dup) d c where "d \<in># items t" "bufs ?m1 d = Some c" "cb_data c = data" "st \<longrightarrow> cb_static c"
        | (new) t' where "new_insert a st pool (a_new a) ?m1 = Ok (a_new a) (set_table pool (Some t') ?m1)" "a_new a \<in># items t'"
        | (fail) "new_insert a st pool (a_new a) ?m1 = Ok 0 ?m" "\<not> a_item a"
        using new_insert_result[OF m1 _ _ _ no, of pool ?new a st] q(2) unfolding drop by auto
      then show ?thesis
      proof cases
        case dup
        then show ?thesis using old[of d] by (auto simp: contents_at_def upgradable_def)
      next
        case new
        then show ?thesis using run none False by (auto simp: placed_in_def set_table_def)
      next
        case fail
        then show ?thesis using run none False by auto
      qed
    qed
  qed
qed

section \<open>Giving everything back\<close>

fun release_all :: "answers \<Rightarrow> ptr list \<Rightarrow> unit pool_op" where
  "release_all a [] m = Ok () m"
| "release_all a (p # ps) m = bindo (CRYPTO_BUFFER_free a p m) (\<lambda>_. release_all a ps)"

definition unsaturated :: "memory \<Rightarrow> bool" where
  "unsaturated m \<longleftrightarrow> (\<forall>p b. bufs m p = Some b \<longrightarrow> cb_references b \<noteq> CRYPTO_REFCOUNT_MAX)"

lemma free_frame:
  assumes m: "mem_ok m" and b: "bufs m p = Some b" "cb_references b \<noteq> 0" and u: "unsaturated m" and f: "CRYPTO_BUFFER_free a p m = Ok () m'"
  shows "unsaturated m' \<and> (pools m' q = None \<longleftrightarrow> pools m q = None)"
proof -
  note r = free_result[OF m b, of a]
  have n: "cb_references b \<noteq> CRYPTO_REFCOUNT_MAX" using u b(1) by (auto simp: unsaturated_def)
  show ?thesis
  proof (cases "cb_references b = 1")
    case False
    have "unat (cb_references b) < 2 ^ 32" using unsigned_less[of "cb_references b"] by simp
    then have "unat (cb_references b - 1) \<noteq> 0xffffffff" using b(2) by (simp add: unat_minus_one)
    then have "cb_references b - 1 \<noteq> CRYPTO_REFCOUNT_MAX" by auto
    moreover have "m' = with_refs p b (cb_references b - 1) m" using r f n False by simp
    ultimately show ?thesis using u by (auto simp: unsaturated_def with_refs_def)
  next
    case True
    then have "bufs m' = (bufs m)(p := None)" "\<forall>q. pools m' q = None \<longleftrightarrow> pools m q = None" using r f n by auto
    then show ?thesis using u by (auto simp: unsaturated_def)
  qed
qed

lemma release_all_result:
  assumes "pool_inv w" and "w_held w = mset ps" and "w_built w = {}" and "unsaturated (w_mem w)"
  shows "\<exists>m. release_all a ps (w_mem w) = Ok () m \<and> pool_inv \<lparr>w_mem = m, w_held = {#}, w_built = {}\<rparr> \<and> unsaturated m \<and>
    (\<forall>q. pools m q = None \<longleftrightarrow> pools (w_mem w) q = None)"
  using assms
proof (induction ps arbitrary: w)
  case Nil
  then have "w = \<lparr>w_mem = w_mem w, w_held = {#}, w_built = {}\<rparr>" by (cases w) simp
  then show ?case using Nil.prems(1,4) by auto
next
  case (Cons p ps)
  have h: "p \<in># w_held w" using Cons.prems(2) by simp
  obtain b where b: "bufs (w_mem w) p = Some b" "counted w p b" using held_buffer[OF Cons.prems(1) h] by blast
  obtain m where m: "CRYPTO_BUFFER_free a p (w_mem w) = Ok () m" "pool_inv (w\<lparr>w_mem := m, w_held := w_held w - {#p#}\<rparr>)"
    using inv_release[OF Cons.prems(1) h] by blast
  have f: "unsaturated m" "\<And>q. pools m q = None \<longleftrightarrow> pools (w_mem w) q = None"
    using free_frame[OF pool_invD(1)[OF Cons.prems(1)] b(1) _ Cons.prems(4) m(1)] b(2) by (auto simp: counted_def)
  from Cons.IH[OF m(2)] Cons.prems(2,3) f show ?case using m(1) by simp
qed

section \<open>A run\<close>

text \<open>A pool at 8 and one buffer in it at 16, to which a client has a reference.\<close>

definition answering :: "ptr \<Rightarrow> answers" where
  "answering p = \<lparr>a_new = p, a_data = True, a_item = True, a_table = (\<lambda>_. True), a_tmp = 24\<rparr>"

lemma publish_first:
  assumes m: "mem_ok m" and q: "pools m q = Some t" and b: "bufs m p = Some b" "cb_pool b = q" and t: "items t = {#}" and a: "a_item a"
  shows "\<exists>t'. new_insert a st q p m = Ok p (set_table q (Some t') m) \<and> p \<in># items t' \<and> (\<forall>x. x \<in># items t' \<longrightarrow> x = p)"
proof -
  have n: "x \<notin># items t" for x by (simp add: t)
  show ?thesis using new_insert_result[OF m q b n[of p], of a st] n a by blast
qed

lemma reached_example:
  "\<exists>w t. reached w \<and> w_held w = {#16#} \<and> w_built w = {} \<and> pools (w_mem w) 8 = Some t \<and> items t = {#16#} \<and>
    bufs (w_mem w) = [16 \<mapsto> \<lparr>cb_pool = 8, cb_data = [1, 2], cb_len = 2, cb_references = 1, cb_static = False\<rparr>]"
proof -
  obtain t0 where t0: "OPENSSL_lh_new True True = Some t0" by (simp add: OPENSSL_lh_new_def)
  let ?m1 = "\<lparr>bufs = \<lambda>_. None, pools = [8 \<mapsto> t0]\<rparr>"
  let ?w1 = "\<lparr>w_mem = ?m1, w_held = {#}, w_built = {}\<rparr>"
  have "CRYPTO_BUFFER_POOL_new (answering 8) (w_mem pool_start) = Ok 8 ?m1"
    by (simp add: CRYPTO_BUFFER_POOL_new_def answering_def t0 pool_start_def set_table_def)
  from pool_step.pool_new[OF _ this] have "pool_step pool_start ?w1" by (simp add: pool_start_def)
  then have r1: "reached ?w1" by (rule reached.step[OF reached.start])
  let ?b = "\<lparr>cb_pool = 8, cb_data = [1, 2], cb_len = 2, cb_references = 1, cb_static = False\<rparr>"
  let ?m2 = "\<lparr>bufs = [16 \<mapsto> ?b], pools = [8 \<mapsto> t0]\<rparr>"
  let ?w2 = "\<lparr>w_mem = ?m2, w_held = {#}, w_built = {16}\<rparr>"
  have "new_object (answering 16) [1, 2] False 8 (w_mem ?w1) = Ok 16 ?m2"
    by (simp add: new_object_def answering_def)
  from pool_step.make[OF _ _ _ this] have "pool_step ?w1 ?w2" by (simp add: answering_def)
  with r1 have r2: "reached ?w2" by (rule reached.step)
  note i2 = reached_inv[OF r2]
  have it0: "items t0 = {#}" using new_table_ok[OF _ t0, of "w_mem ?w2"] pool_invD(1)[OF i2] by (simp add: mem_ok_def)
  have at: "pools (w_mem ?w2) 8 = Some t0" "bufs (w_mem ?w2) 16 = Some ?b" "cb_pool ?b = 8" "16 \<notin># items t0" by (simp_all add: it0)
  have "a_item (answering 16)" by (simp add: answering_def)
  from publish_first[OF pool_invD(1)[OF i2] at(1-3) it0 this, where st = False]
  obtain t' where t': "new_insert (answering 16) False 8 16 (w_mem ?w2) = Ok 16 (set_table 8 (Some t') (w_mem ?w2))" "16 \<in># items t'"
    "\<forall>x. x \<in># items t' \<longrightarrow> x = 16" by (elim exE conjE)
  let ?w3 = "\<lparr>w_mem = set_table 8 (Some t') ?m2, w_held = {#16#}, w_built = {}\<rparr>"
  have "pool_step ?w2 ?w3" using pool_step.publish[of 16 ?w2 ?b "answering 16" 16 "set_table 8 (Some t') ?m2"] t'(1) by simp
  with r2 have r3: "reached ?w3" by (rule reached.step)
  have "table_ok (w_mem ?w3) 8 t'" using pool_invD(1)[OF reached_inv[OF r3]] by (simp add: mem_ok_def set_table_def)
  then have "size (filter_mset (\<lambda>x. cmp_at (bufs (w_mem ?w3)) x 16 = 0) (items t')) \<le> 1" by (simp add: table_ok_def lhash_ok_def)
  moreover have "filter_mset (\<lambda>x. cmp_at (bufs (w_mem ?w3)) x 16 = 0) (items t') = items t'"
    using t'(3) cmp_at_0[of "bufs (w_mem ?w3)" 16 16] pool_invD(1)[OF reached_inv[OF r3]]
    by (subst filter_mset_eq_conv) (auto simp: mem_ok_def)
  ultimately have "items t' = {#16#}" using t'(2) by (cases "items t'") (auto dest: multi_member_split)
  then show ?thesis using r3 by (intro exI[of _ ?w3] exI[of _ t']) (simp add: set_table_def)
qed

section \<open>Properties\<close>

text \<open>
  C12: However the threads interleave, every counter is the number of references that were given out
  (until it saturates), a reference never points to freed memory, and a pool holds only buffers of
  its own, each once and no two with the same contents.
\<close>

theorem pool_counts_exact:
  assumes "reached w"
  shows "(\<forall>p. p \<in># w_held w \<longrightarrow> bufs (w_mem w) p \<noteq> None) \<and>
    (\<forall>p b. bufs (w_mem w) p = Some b \<longrightarrow> cb_references b \<noteq> 0 \<and>
       (cb_references b = CRYPTO_REFCOUNT_MAX \<or> unat (cb_references b) = count (w_held w) p + (if p \<in> w_built w then 1 else 0))) \<and>
    (\<forall>q t p. pools (w_mem w) q = Some t \<longrightarrow> p \<in># items t \<longrightarrow> count (items t) p = 1 \<and>
       (\<exists>b. bufs (w_mem w) p = Some b \<and> cb_pool b = q \<and>
          (\<forall>p' b'. p' \<in># items t \<longrightarrow> bufs (w_mem w) p' = Some b' \<longrightarrow> cb_data b' = cb_data b \<longrightarrow> p' = p)))"
proof (intro conjI allI impI)
  note w = reached_inv[OF assms]
  show "bufs (w_mem w) p \<noteq> None" if "p \<in># w_held w" for p using held_buffer[OF w that] by auto
  show "cb_references b \<noteq> 0" if "bufs (w_mem w) p = Some b" for p b using pool_invD(2)[OF w that] by (simp add: counted_def)
  show "cb_references b = CRYPTO_REFCOUNT_MAX \<or> unat (cb_references b) = count (w_held w) p + (if p \<in> w_built w then 1 else 0)"
    if "bufs (w_mem w) p = Some b" for p b using pool_invD(2)[OF w that] by (simp add: counted_def refs_to_def)
  fix q t p assume t: "pools (w_mem w) q = Some t" and p: "p \<in># items t"
  have ok: "table_ok (w_mem w) q t" and h: "sound_heap (bufs (w_mem w))" using pool_invD(1)[OF w] t by (auto simp: mem_ok_def)
  then obtain b where b: "bufs (w_mem w) p = Some b" "cb_pool b = q" using p unfolding table_ok_def by blast
  have u: "size (filter_mset (\<lambda>x. cmp_at (bufs (w_mem w)) x p = 0) (items t)) \<le> 1" using ok by (simp add: table_ok_def lhash_ok_def)
  have "count (filter_mset (\<lambda>x. cmp_at (bufs (w_mem w)) x p = 0) (items t)) p = count (items t) p" using cmp_at_0[OF h, of p p] by simp
  then have "count (items t) p \<le> 1"
    using u count_le_size[of "filter_mset (\<lambda>x. cmp_at (bufs (w_mem w)) x p = 0) (items t)" p] by linarith
  moreover have "0 < count (items t) p" using p by simp
  ultimately show "count (items t) p = 1" by linarith
  have "p' = p" if "p' \<in># items t" "bufs (w_mem w) p' = Some b'" "cb_data b' = cb_data b" for p' b'
  proof (rule unique_item[OF u that(1) _ p])
    show "cmp_at (bufs (w_mem w)) p' p = 0" using that(2,3) b(1) cmp_at_0[OF h, of p' p] by (simp add: contents_at_def)
    show "cmp_at (bufs (w_mem w)) p p = 0" using cmp_at_0[OF h, of p p] by simp
  qed
  then show "\<exists>b. bufs (w_mem w) p = Some b \<and> cb_pool b = q \<and>
      (\<forall>p' b'. p' \<in># items t \<longrightarrow> bufs (w_mem w) p' = Some b' \<longrightarrow> cb_data b' = cb_data b \<longrightarrow> p' = p)" using b by blast
qed

theorem pool_counts_exact_witness: "\<exists>w t. reached w \<and> pools (w_mem w) 8 = Some t \<and> count (items t) 16 = 1"
proof -
  obtain w t where w: "reached w" "pools (w_mem w) 8 = Some t" "items t = {#16#}" using reached_example by blast
  have "count (items t) 16 = 1" using pool_counts_exact[OF w(1)] w(2,3) by (metis add_mset_add_single union_single_eq_member)
  then show ?thesis using w by blast
qed

text \<open>
  C13: No call of a client goes wrong, however the threads interleave: every operation on what a
  client holds, on an object that is to be published, or on a pool that exists comes back without
  touching freed memory, without freeing anything twice, and without the abort of a counter that is
  already 0; and the assertion that a released pool is empty holds when its last buffer is gone.
\<close>

theorem pool_calls_defined:
  assumes "reached w"
  shows "(\<forall>p a. p \<in># w_held w \<longrightarrow> (\<exists>m. CRYPTO_BUFFER_up_ref p (w_mem w) = Ok () m) \<and> (\<exists>m. CRYPTO_BUFFER_free a p (w_mem w) = Ok () m)) \<and>
    (\<forall>pool data a st. pool \<noteq> 0 \<longrightarrow> pools (w_mem w) pool \<noteq> None \<longrightarrow> length data < 2 ^ 64 \<longrightarrow> a_tmp a \<noteq> 0 \<longrightarrow> bufs (w_mem w) (a_tmp a) = None \<longrightarrow>
       (\<exists>p m. new_lookup a data st pool (w_mem w) = Ok p m)) \<and>
    (\<forall>p b a. p \<in> w_built w \<longrightarrow> bufs (w_mem w) p = Some b \<longrightarrow>
       (\<exists>d m. new_insert a (cb_static b) (cb_pool b) p (w_mem w) = Ok d m)) \<and>
    (\<forall>pool. pools (w_mem w) pool \<noteq> None \<longrightarrow> (\<forall>p b. bufs (w_mem w) p = Some b \<longrightarrow> cb_pool b \<noteq> pool) \<longrightarrow>
       (\<exists>m. CRYPTO_BUFFER_POOL_free pool (w_mem w) = Ok () m))"
proof (intro conjI allI impI)
  note w = reached_inv[OF assms]
  show "\<exists>m. CRYPTO_BUFFER_up_ref p (w_mem w) = Ok () m" if "p \<in># w_held w" for p using up_ref_step[OF w that] by blast
  show "\<exists>m. CRYPTO_BUFFER_free a p (w_mem w) = Ok () m" if "p \<in># w_held w" for p a using inv_release[OF w that] by blast
  show "\<exists>p m. new_lookup a data st pool (w_mem w) = Ok p m"
    if "pool \<noteq> 0" "pools (w_mem w) pool \<noteq> None" "length data < 2 ^ 64" "a_tmp a \<noteq> 0" "bufs (w_mem w) (a_tmp a) = None" for pool data a st
    using look_up_step[OF w that] by blast
  show "\<exists>d m. new_insert a (cb_static b) (cb_pool b) p (w_mem w) = Ok d m"
    if "p \<in> w_built w" "bufs (w_mem w) p = Some b" for p b a using publish_step[OF w that] by blast
  show "\<exists>m. CRYPTO_BUFFER_POOL_free pool (w_mem w) = Ok () m"
    if "pools (w_mem w) pool \<noteq> None" "\<forall>p b. bufs (w_mem w) p = Some b \<longrightarrow> cb_pool b \<noteq> pool" for pool
    using pool_free_step[OF w that] by blast
qed

theorem pool_calls_defined_witness: "\<exists>w m. reached w \<and> CRYPTO_BUFFER_free (answering 32) 16 (w_mem w) = Ok () m"
proof -
  obtain w where w: "reached w" "w_held w = {#16#}" using reached_example by blast
  then have "16 \<in># w_held w" by simp
  then show ?thesis using pool_calls_defined[OF w(1), THEN conjunct1] w(1) by blast
qed

text \<open>
  A call of crypto_buffer_new that no other thread interrupts returns the buffer of the pool with
  these contents, if there is one, and only counts it once more; a static buffer replaces one that is
  not. Otherwise a new buffer with one reference goes into the pool, or NULL comes back and nothing
  has changed, and this only when memory runs out.
\<close>

theorem pool_shares_buffers:
  assumes "reached w" and "pool \<noteq> 0" and "pools (w_mem w) pool = Some t" and "length data < 2 ^ 64"
    and "a_tmp a \<noteq> 0" and "bufs (w_mem w) (a_tmp a) = None" and "bufs (w_mem w) (a_new a) = None"
  shows "case crypto_buffer_new a data st pool (w_mem w) of
      Ok p m \<Rightarrow>
        if \<exists>x b. x \<in># items t \<and> bufs (w_mem w) x = Some b \<and> cb_data b = data \<and> (st \<longrightarrow> cb_static b)
        then p \<in># items t \<and> (\<exists>b. bufs (w_mem w) p = Some b \<and> cb_data b = data \<and>
          m = (w_mem w)\<lparr>bufs := (bufs (w_mem w))(p \<mapsto> b\<lparr>cb_references := CRYPTO_refcount_inc (cb_references b)\<rparr>)\<rparr>)
        else if p = 0 then m = w_mem w \<and> \<not> (a_new a \<noteq> 0 \<and> a_data a \<and> a_item a)
        else p = a_new a \<and> (\<exists>t'. pools m pool = Some t' \<and> p \<in># items t') \<and> bufs m = (bufs (w_mem w))(p \<mapsto>
          \<lparr>cb_pool = pool, cb_data = data, cb_len = of_nat (length data), cb_references = 1, cb_static = st\<rparr>)
    | _ \<Rightarrow> False"
proof -
  note w = reached_inv[OF assms(1)]
  have ok: "table_ok (w_mem w) pool t" using pool_invD(1)[OF w] assms(3) by (simp add: mem_ok_def)
  have c: "(\<exists>x. x \<in># items t \<and> contents_at (bufs (w_mem w)) x = Some data \<and> \<not> upgradable st (w_mem w) x) \<longleftrightarrow>
      (\<exists>x b. x \<in># items t \<and> bufs (w_mem w) x = Some b \<and> cb_data b = data \<and> (st \<longrightarrow> cb_static b))"
    by (auto simp: contents_at_def upgradable_def)
  from new_in_pool[OF w assms(2-7), of st] show ?thesis
    unfolding c by (elim exE conjE) (auto simp: with_refs_def placed_in_def split: if_splits)
qed

theorem pool_shares_buffers_witness: "\<exists>w m. reached w \<and> crypto_buffer_new (answering 32) [1, 2] False 8 (w_mem w) = Ok 16 m"
proof -
  obtain w t where w: "reached w" "pools (w_mem w) 8 = Some t" "items t = {#16#}"
    "bufs (w_mem w) = [16 \<mapsto> \<lparr>cb_pool = 8, cb_data = [1, 2], cb_len = 2, cb_references = 1, cb_static = False\<rparr>]"
    using reached_example by blast
  have "\<exists>m. crypto_buffer_new (answering 32) [1, 2] False 8 (w_mem w) = Ok 16 m"
    using pool_shares_buffers[OF w(1) _ w(2), of "[1, 2]" "answering 32" False] w(3,4)
    by (auto simp: answering_def split: outcome.splits)
  then show ?thesis using w(1) by blast
qed

text \<open>
  C25: What is given out comes back: once every client has released all its references, in any order,
  nothing is left. No buffer is allocated any more, every pool is empty, and the pools can be freed.
  A counter that has saturated keeps its buffer for good, which the hypothesis excludes.
\<close>

theorem pool_drains:
  assumes "reached w" and "w_built w = {}" and "mset ps = w_held w"
    and "\<forall>p b. bufs (w_mem w) p = Some b \<longrightarrow> cb_references b \<noteq> CRYPTO_REFCOUNT_MAX"
  shows "\<exists>m. release_all a ps (w_mem w) = Ok () m \<and> (\<forall>p. bufs m p = None) \<and>
    (\<forall>q t. pools m q = Some t \<longrightarrow> items t = {#} \<and> OPENSSL_lh_num_items t = 0 \<and> (\<exists>m'. CRYPTO_BUFFER_POOL_free q m = Ok () m')) \<and>
    (\<forall>q. pools m q = None \<longleftrightarrow> pools (w_mem w) q = None)"
proof -
  obtain m where m: "release_all a ps (w_mem w) = Ok () m" "pool_inv \<lparr>w_mem = m, w_held = {#}, w_built = {}\<rparr>"
    "unsaturated m" "\<forall>q. pools m q = None \<longleftrightarrow> pools (w_mem w) q = None"
    using release_all_result[OF reached_inv[OF assms(1)] assms(3)[symmetric] assms(2), of a] assms(4) unfolding unsaturated_def by blast
  let ?w = "\<lparr>w_mem = m, w_held = {#}, w_built = {}\<rparr>"
  have none: "bufs m p = None" for p
  proof (rule ccontr)
    assume "bufs m p \<noteq> None"
    then obtain b where b: "bufs m p = Some b" by blast
    then have "counted ?w p b" using pool_invD(2)[OF m(2)] by simp
    moreover have "cb_references b \<noteq> CRYPTO_REFCOUNT_MAX" using m(3) b by (simp add: unsaturated_def)
    ultimately show False by (simp add: counted_def refs_to_def unat_eq_zero)
  qed
  have empty: "items t = {#}" "num_items t = 0" if "pools m q = Some t" for q t
  proof -
    have ok: "table_ok m q t" using pool_invD(1)[OF m(2)] that by (simp add: mem_ok_def)
    then show "items t = {#}" using none unfolding table_ok_def by (metis multiset_nonemptyE option.distinct(1))
    then show "num_items t = 0" using ok by (simp add: table_ok_def lhash_ok_def)
  qed
  have "\<exists>m'. CRYPTO_BUFFER_POOL_free q m = Ok () m'" if "pools m q = Some t" for q t
    using pool_free_step[OF m(2), of q] that none by auto
  then show ?thesis using m(1,4) none empty by (simp add: OPENSSL_lh_num_items_def)
qed

theorem pool_drains_witness: "\<exists>w m. reached w \<and> release_all (answering 32) [16] (w_mem w) = Ok () m \<and> (\<forall>p. bufs m p = None)"
proof -
  obtain w where w: "reached w" "w_built w = {}" "w_held w = {#16#}"
    "bufs (w_mem w) = [16 \<mapsto> \<lparr>cb_pool = 8, cb_data = [1, 2], cb_len = 2, cb_references = 1, cb_static = False\<rparr>]"
    using reached_example by blast
  have "\<forall>p b. bufs (w_mem w) p = Some b \<longrightarrow> cb_references b \<noteq> CRYPTO_REFCOUNT_MAX" unfolding w(4) by auto
  from pool_drains[OF w(1,2) _ this, of "[16]" "answering 32"] w(3)
  obtain m where "release_all (answering 32) [16] (w_mem w) = Ok () m" "\<forall>p. bufs m p = None" by auto
  then show ?thesis using w(1) by blast
qed

end
