(* ===== verification/Unicode.thy ===== *)
theory Unicode
  imports Cbb_Der
begin

text \<open>
  The character encodings of src/crypto/bytestring/unicode.c: UTF-8, Latin-1, UCS-2 and UTF-32,
  each with a reader of one code point from a CBS and a writer to a CBB. The readers accept exactly
  the shortest encodings of the valid code points, which are what the writers write.
\<close>

section \<open>The code\<close>

definition is_valid_code_point :: "u32 \<Rightarrow> bool" where
  "is_valid_code_point v \<longleftrightarrow>
     \<not> (0x10ffff < v \<or> v AND 0xfffe = 0xfffe \<or> (0xfdd0 \<le> v \<and> v \<le> 0xfdef) \<or> (0xd800 \<le> v \<and> v \<le> 0xdfff))"

definition BOTTOM_BITS :: "nat \<Rightarrow> u8" where
  "BOTTOM_BITS n = ucast (push_bit n 1 - 1 :: u32)"

definition TOP_BITS :: "nat \<Rightarrow> u8" where
  "TOP_BITS n = NOT (BOTTOM_BITS (8 - n))"

text \<open>The loop over the \<open>len\<close> continuation bytes.\<close>

fun utf8_tail :: "nat \<Rightarrow> u32 \<Rightarrow> u32 reader" where
  "utf8_tail 0 v cbs = Ok v cbs"
| "utf8_tail (Suc len) v cbs =
     (case CBS_get_u8 cbs of
        Ok c cbs \<Rightarrow> if c AND TOP_BITS 2 \<noteq> TOP_BITS 1 then Fail cbs
                    else utf8_tail len (push_bit 6 v OR ucast (c AND BOTTOM_BITS 6)) cbs
      | Fail cbs \<Rightarrow> Fail cbs
      | NoResult \<Rightarrow> NoResult)"

definition cbs_get_utf8 :: "u32 reader" where
  "cbs_get_utf8 cbs = bindo (CBS_get_u8 cbs) (\<lambda>c cbs.
     if c \<le> 0x7f then Ok (ucast c) cbs
     else case (if c AND TOP_BITS 3 = TOP_BITS 2 then Some (c AND BOTTOM_BITS 5, 1, 0x80)
                else if c AND TOP_BITS 4 = TOP_BITS 3 then Some (c AND BOTTOM_BITS 4, 2, 0x800)
                else if c AND TOP_BITS 5 = TOP_BITS 4 then Some (c AND BOTTOM_BITS 3, 3, 0x10000)
                else None) of
            None \<Rightarrow> Fail cbs
          | Some (v, len, lower_bound) \<Rightarrow>
              bindo (utf8_tail len (ucast v) cbs) (\<lambda>v cbs.
                if \<not> is_valid_code_point v \<or> v < lower_bound then Fail cbs else Ok v cbs))"

definition cbs_get_latin1 :: "u32 reader" where
  "cbs_get_latin1 cbs = bindo (CBS_get_u8 cbs) (\<lambda>c cbs. Ok (ucast c) cbs)"

definition cbs_get_ucs2_be :: "u32 reader" where
  "cbs_get_ucs2_be cbs = bindo (CBS_get_u16 cbs) (\<lambda>c cbs.
     if \<not> is_valid_code_point (ucast c) then Fail cbs else Ok (ucast c) cbs)"

definition cbs_get_utf32_be :: "u32 reader" where
  "cbs_get_utf32_be cbs = bindo (CBS_get_u32 cbs) (\<lambda>c cbs. if is_valid_code_point c then Ok c cbs else Fail cbs)"

definition cbb_get_utf8_len :: "u32 \<Rightarrow> nat" where
  "cbb_get_utf8_len u = (if u \<le> 0x7f then 1 else if u \<le> 0x7ff then 2 else if u \<le> 0xffff then 3 else 4)"

definition cbb_add_utf8 :: "allocator \<Rightarrow> cbb_ptr \<Rightarrow> u32 \<Rightarrow> unit cbb_op" where
  "cbb_add_utf8 al p u cbb =
     (let add = (\<lambda>b. CBB_add_u8 al p b);
          top = (\<lambda>n k. TOP_BITS n OR ucast (drop_bit k u));
          cont = (\<lambda>k. TOP_BITS 1 OR ucast (drop_bit k u AND ucast (BOTTOM_BITS 6)))
      in if \<not> is_valid_code_point u then Fail cbb
         else if u \<le> 0x7f then add (ucast u) cbb
         else if u \<le> 0x7ff then bindo (add (top 2 6) cbb) (\<lambda>_. add (cont 0))
         else if u \<le> 0xffff then
           bindo (bindo (add (top 3 12) cbb) (\<lambda>_. add (cont 6))) (\<lambda>_. add (cont 0))
         else if u \<le> 0x10ffff then
           bindo (bindo (bindo (add (top 4 18) cbb) (\<lambda>_. add (cont 12))) (\<lambda>_. add (cont 6))) (\<lambda>_. add (cont 0))
         else Fail cbb)"

definition cbb_add_latin1 :: "allocator \<Rightarrow> cbb_ptr \<Rightarrow> u32 \<Rightarrow> unit cbb_op" where
  "cbb_add_latin1 al p u cbb = (if u \<le> 0xff then CBB_add_u8 al p (ucast u) cbb else Fail cbb)"

definition cbb_add_ucs2_be :: "allocator \<Rightarrow> cbb_ptr \<Rightarrow> u32 \<Rightarrow> unit cbb_op" where
  "cbb_add_ucs2_be al p u cbb =
     (if u \<le> 0xffff \<and> is_valid_code_point u then CBB_add_u16 al p (ucast u) cbb else Fail cbb)"

definition cbb_add_utf32_be :: "allocator \<Rightarrow> cbb_ptr \<Rightarrow> u32 \<Rightarrow> unit cbb_op" where
  "cbb_add_utf32_be al p u cbb = (if is_valid_code_point u then CBB_add_u32 al p u cbb else Fail cbb)"

section \<open>UTF-8 as arithmetic\<close>

text \<open>The shortest encoding of a number below 0x110000.\<close>

definition cont_byte :: "nat \<Rightarrow> u8" where
  "cont_byte n = of_nat (0x80 + n mod 64)"

definition utf8 :: "nat \<Rightarrow> bytes" where
  "utf8 n =
     (if n < 0x80 then [of_nat n]
      else if n < 0x800 then [of_nat (0xC0 + n div 64), cont_byte n]
      else if n < 0x10000 then [of_nat (0xE0 + n div 4096), cont_byte (n div 64), cont_byte n]
      else [of_nat (0xF0 + n div 262144), cont_byte (n div 4096), cont_byte (n div 64), cont_byte n])"

lemma top_bottom:
  "TOP_BITS (Suc 0) = 0x80" "TOP_BITS 2 = 0xC0" "TOP_BITS 3 = 0xE0" "TOP_BITS 4 = 0xF0" "TOP_BITS 5 = 0xF8"
  "BOTTOM_BITS 3 = mask 3" "BOTTOM_BITS 4 = mask 4" "BOTTOM_BITS 5 = mask 5" "BOTTOM_BITS 6 = mask 6"
  by (simp_all add: TOP_BITS_def BOTTOM_BITS_def mask_eq_exp_minus_1)

text \<open>The top bits of a byte are a range of its values.\<close>

lemma top_bits_iff:
  fixes c :: u8
  shows "c AND 0xC0 = 0x80 \<longleftrightarrow> 128 \<le> unat c \<and> unat c < 192"
    and "c AND 0xE0 = 0xC0 \<longleftrightarrow> 192 \<le> unat c \<and> unat c < 224"
    and "c AND 0xF0 = 0xE0 \<longleftrightarrow> 224 \<le> unat c \<and> unat c < 240"
    and "c AND 0xF8 = 0xF0 \<longleftrightarrow> 240 \<le> unat c \<and> unat c < 248"
proof -
  have top: "unat (c AND NOT (mask k)) = unat c div 2 ^ k * 2 ^ k" for k
  proof -
    have "c AND NOT (mask k) = push_bit k (drop_bit k c)" by (rule bit_word_eqI) (auto simp: bit_simps)
    also have "unat \<dots> = take_bit 8 (push_bit k (drop_bit k (unat c)))"
      by (simp only: unsigned_push_bit_eq unat_drop_bit_eq) simp
    also have "\<dots> = unat c div 2 ^ k * 2 ^ k"
    proof -
      have "unat c div 2 ^ k * 2 ^ k \<le> unat c" "unat c < 2 ^ 8" using unat_le_bound[of c] by simp_all
      then have "unat c div 2 ^ k * 2 ^ k < 2 ^ 8" by (rule le_less_trans)
      then show ?thesis unfolding push_bit_eq_mult drop_bit_eq_div by (rule take_bit_nat_eq_self)
    qed
    finally show ?thesis .
  qed
  have iff: "c AND NOT (mask k) = of_nat n \<longleftrightarrow> unat c div 2 ^ k * 2 ^ k = n" if "n < 256" for k n
    using that by (simp add: word_unat_eq_iff[of "c AND NOT (mask k)"] top unat_of_nat take_bit_nat_eq_self)
  have m: "(0xC0 :: u8) = NOT (mask 6)" "(0xE0 :: u8) = NOT (mask 5)" "(0xF0 :: u8) = NOT (mask 4)" "(0xF8 :: u8) = NOT (mask 3)"
    by (simp_all add: mask_eq_exp_minus_1)
  show "c AND 0xC0 = 0x80 \<longleftrightarrow> 128 \<le> unat c \<and> unat c < 192" using iff[of 128 6] unfolding m by auto
  show "c AND 0xE0 = 0xC0 \<longleftrightarrow> 192 \<le> unat c \<and> unat c < 224" using iff[of 192 5] unfolding m(2) by auto
  show "c AND 0xF0 = 0xE0 \<longleftrightarrow> 224 \<le> unat c \<and> unat c < 240" using iff[of 224 4] unfolding m(3) by auto
  show "c AND 0xF8 = 0xF0 \<longleftrightarrow> 240 \<le> unat c \<and> unat c < 248" using iff[of 240 3] unfolding m(4) by auto
qed

text \<open>Six more bits at the low end.\<close>

lemma unat_shift_in:
  fixes v :: u32 and c :: u8
  assumes "unat v < 2 ^ 26"
  shows "unat (push_bit 6 v OR ucast (c AND mask 6)) = unat v * 64 + unat c mod 64"
proof -
  let ?w = "ucast (c AND mask 6) :: u32"
  have lo: "unat ?w = unat c mod 64"
    by (simp add: unsigned_ucast_eq unsigned_take_bit_eq take_bit_eq_mod[of 6 "unat c"] take_bit_nat_eq_self flip: take_bit_eq_mask)
  have hi: "unat (push_bit 6 v) = unat v * 64"
    using assms unfolding push_bit_eq_mult by (subst unat_mult_lem[THEN iffD1]) auto
  have "push_bit 6 v AND ?w = 0" by (rule bit_word_eqI) (auto simp: bit_simps)
  then have "push_bit 6 v OR ?w = push_bit 6 v + ?w" by (simp add: disjunctive_add_eq_or)
  moreover have "unat (push_bit 6 v + ?w) = unat (push_bit 6 v) + unat ?w"
    using assms mod_less_divisor[of 64 "unat c"] by (subst unat_plus_simple[THEN iffD1]) (auto simp: no_olen_add_nat hi lo)
  ultimately show ?thesis using lo hi by simp
qed

section \<open>The reader\<close>

text \<open>The continuation bytes of a number: its last \<open>k\<close> groups of six bits.\<close>

fun conts :: "nat \<Rightarrow> nat \<Rightarrow> bytes" where
  "conts 0 n = []"
| "conts (Suc k) n = cont_byte (n div 64 ^ k) # conts k n"

lemma unat_cont_byte: "unat (cont_byte m) = 128 + m mod 64"
proof -
  have "128 + m mod 64 < 2 ^ 8" using mod_less_divisor[of 64 m] by simp
  then show ?thesis unfolding cont_byte_def by (simp add: unat_of_nat take_bit_nat_eq_self del: of_nat_add)
qed

lemma cont_byte_iff: "c = cont_byte m \<longleftrightarrow> 128 \<le> unat c \<and> unat c < 192 \<and> unat c mod 64 = m mod 64"
proof -
  have "x = 128 + m mod 64 \<longleftrightarrow> 128 \<le> x \<and> x < 192 \<and> x mod 64 = m mod 64" for x
  proof (intro iffI conjI; (elim conjE)?)
    assume x: "128 \<le> x" "x < 192" "x mod 64 = m mod 64"
    then have "x div 64 = 2" by (simp add: div_nat_eqI)
    then show "x = 128 + m mod 64" using x(3) div_mult_mod_eq[of x 64] by simp
  qed (use mod_less_divisor[of 64 m] in \<open>simp_all add: mod_add_eq[of 128 64, symmetric]\<close>)
  then show ?thesis by (simp add: word_unat_eq_iff unat_cont_byte)
qed

lemma split_64: "r < 64 \<Longrightarrow> (a :: nat) = v * 64 + r \<longleftrightarrow> a div 64 = v \<and> r = a mod 64"
  using div_mult_mod_eq[of a 64] by auto

lemma utf8_tail_exact:
  assumes "unat v < 2 ^ (32 - 6 * len)" and "len \<le> 3"
  shows "utf8_tail len v cbs = Ok w rest \<longleftrightarrow> unat w div 64 ^ len = unat v \<and> cbs = conts len (unat w) @ rest"
  using assms
proof (induction len arbitrary: v cbs)
  case 0
  then show ?case by (auto simp: word_unat_eq_iff)
next
  case (Suc len)
  show ?case
  proof (cases cbs)
    case Nil
    then show ?thesis by (simp add: CBS_get_u8_def cbs_get_def)
  next
    case (Cons c cs)
    let ?v = "push_bit 6 v OR ucast (c AND mask 6) :: u32"
    have v: "unat v < 2 ^ (26 - 6 * len)" using Suc.prems(1) by simp
    have p: "(2::nat) ^ (32 - 6 * len) = 64 * 2 ^ (26 - 6 * len)"
      using Suc.prems(2) power_add[of "2::nat" 6 "26 - 6 * len"] by (simp add: algebra_simps)
    have "(2::nat) ^ (26 - 6 * len) \<le> 2 ^ 26" by (rule power_increasing) auto
    then have uv: "unat ?v = unat v * 64 + unat c mod 64" using v by (intro unat_shift_in) linarith
    have "unat v * 64 + unat c mod 64 < 64 * 2 ^ (26 - 6 * len)" using v mod_less_divisor[of 64 "unat c"] by linarith
    then have "unat ?v < 2 ^ (32 - 6 * len)" using uv p by simp
    note IH = Suc.IH[OF this, of cs] Suc.prems(2)
    let ?m = "unat w div 64 ^ len"
    have m: "?m = unat v * 64 + unat c mod 64 \<longleftrightarrow> ?m div 64 = unat v \<and> unat c mod 64 = ?m mod 64"
      by (rule split_64) simp
    have d: "unat w div 64 ^ Suc len = ?m div 64" by (simp only: power_Suc2 div_mult2_eq)
    have step: "utf8_tail (Suc len) v cbs = Ok w rest \<longleftrightarrow> (128 \<le> unat c \<and> unat c < 192) \<and> utf8_tail len ?v cs = Ok w rest"
      unfolding Cons by (auto simp: CBS_get_u8_Cons top_bottom top_bits_iff)
    show ?thesis
      unfolding step d using IH by (auto simp: Cons uv m cont_byte_iff)
  qed
qed

lemma utf8_ranges:
  "n < 0x80 \<Longrightarrow> utf8 n = of_nat n # conts 0 n"
  "0x80 \<le> n \<Longrightarrow> n < 0x800 \<Longrightarrow> utf8 n = of_nat (192 + n div 64 ^ 1) # conts 1 n"
  "0x800 \<le> n \<Longrightarrow> n < 0x10000 \<Longrightarrow> utf8 n = of_nat (224 + n div 64 ^ 2) # conts 2 n"
  "0x10000 \<le> n \<Longrightarrow> utf8 n = of_nat (240 + n div 64 ^ 3) # conts 3 n"
  by (simp_all add: utf8_def numeral_2_eq_2 numeral_3_eq_3)

lemma unat_lead: "m < 256 \<Longrightarrow> unat (of_nat m :: u8) = m"
  by (simp add: unat_of_nat take_bit_nat_eq_self)

text \<open>The first byte shows how many continuation bytes follow.\<close>

lemma hd_utf8:
  assumes "n < 0x110000"
  shows "unat (hd (utf8 n)) =
    (if n < 0x80 then n else if n < 0x800 then 192 + n div 64
     else if n < 0x10000 then 224 + n div 4096 else 240 + n div 262144)"
proof -
  have "n < 0x800 \<Longrightarrow> n div 64 < 32" "n < 0x10000 \<Longrightarrow> n div 4096 < 16" "n div 262144 < 5" using assms by auto
  then show ?thesis by (auto simp: utf8_def unat_lead simp del: of_nat_add)
qed

lemma valid_range: "is_valid_code_point v \<Longrightarrow> unat v < 0x110000"
  by (simp add: is_valid_code_point_def word_less_nat_alt word_le_nat_alt)

lemma mod_range:
  assumes "B \<le> x" and "x < B + R" and "R dvd B"
  shows "x mod R = (q :: nat) \<longleftrightarrow> x = B + q"
proof -
  obtain k where k: "B = R * k" using assms(3) by (rule dvdE)
  have "x = (x - B) + R * k" using assms(1) k by simp
  then have "x mod R = (x - B) mod R" by (metis mod_mult_self2)
  then have "x mod R = x - B" using assms(1,2) by simp
  then show ?thesis using assms(1) by auto
qed

text \<open>A reader of a lead byte and \<open>k\<close> continuation bytes, on the numbers that have them.\<close>

lemma utf8_long_exact:
  assumes k: "k \<le> 3" and R: "R \<le> 2 ^ (32 - 6 * k)" "R dvd B" "B + R \<le> 256" and c: "B \<le> unat c" "unat c < B + R"
    and v: "unat (v0 :: u32) = unat c mod R"
    and enc: "\<And>n. n < 0x110000 \<Longrightarrow> low \<le> n \<Longrightarrow> n div 64 ^ k < R \<Longrightarrow> utf8 n = of_nat (B + n div 64 ^ k) # conts k n"
    and lead: "\<And>n. n < 0x110000 \<Longrightarrow> B \<le> unat (hd (utf8 n)) \<Longrightarrow> unat (hd (utf8 n)) < B + R \<Longrightarrow> low \<le> n \<and> n div 64 ^ k < R"
    and w: "is_valid_code_point w"
  shows "utf8_tail k v0 cs = Ok w rest \<and> low \<le> unat w \<longleftrightarrow> c # cs = utf8 (unat w) @ rest"
proof -
  have "unat v0 < R" using v c(1,2) by (metis add_less_cancel_left gr_zeroI less_le_trans mod_less_divisor nat_arith.rule0 not_le)
  then have t: "utf8_tail k v0 cs = Ok w rest \<longleftrightarrow> unat w div 64 ^ k = unat c mod R \<and> cs = conts k (unat w) @ rest"
    using utf8_tail_exact[of v0 k cs w rest] k R(1) v by simp
  have q: "unat c mod R = unat w div 64 ^ k \<longleftrightarrow> unat c = B + unat w div 64 ^ k" by (rule mod_range[OF c R(2)])
  note n = valid_range[OF w]
  show ?thesis
  proof
    assume "utf8_tail k v0 cs = Ok w rest \<and> low \<le> unat w"
    then have e: "unat c = B + unat w div 64 ^ k" "cs = conts k (unat w) @ rest" "low \<le> unat w" using t q by metis+
    then have "unat w div 64 ^ k < R" using c(2) by simp
    moreover have "c = of_nat (B + unat w div 64 ^ k)" unfolding e(1)[symmetric] by simp
    ultimately show "c # cs = utf8 (unat w) @ rest" using enc[OF n e(3)] e(2) by simp
  next
    assume u: "c # cs = utf8 (unat w) @ rest"
    moreover have "utf8 (unat w) \<noteq> []" by (simp add: utf8_def)
    ultimately have "c = hd (utf8 (unat w))" by (metis hd_append2 list.sel(1))
    then have l: "low \<le> unat w" "unat w div 64 ^ k < R" using lead[OF n] c by auto
    have "c # cs = of_nat (B + unat w div 64 ^ k) # conts k (unat w) @ rest" using u enc[OF n l] by simp
    moreover have "unat (of_nat (B + unat w div 64 ^ k) :: u8) = B + unat w div 64 ^ k"
      using l(2) R(3) by (intro unat_lead) linarith
    ultimately show "utf8_tail k v0 cs = Ok w rest \<and> low \<le> unat w" using t q l(1) by simp
  qed
qed

lemma utf8_lead_range:
  assumes "n < 0x110000"
  shows "192 \<le> unat (hd (utf8 n)) \<Longrightarrow> unat (hd (utf8 n)) < 192 + 32 \<Longrightarrow> 0x80 \<le> n \<and> n div 64 ^ 1 < 32"
    and "224 \<le> unat (hd (utf8 n)) \<Longrightarrow> unat (hd (utf8 n)) < 224 + 16 \<Longrightarrow> 0x800 \<le> n \<and> n div 64 ^ 2 < 16"
    and "240 \<le> unat (hd (utf8 n)) \<Longrightarrow> unat (hd (utf8 n)) < 240 + 8 \<Longrightarrow> 0x10000 \<le> n \<and> n div 64 ^ 3 < 8"
    and "unat (hd (utf8 n)) < 128 \<Longrightarrow> n < 0x80"
    and "128 \<le> unat (hd (utf8 n)) \<Longrightarrow> 192 \<le> unat (hd (utf8 n)) \<and> unat (hd (utf8 n)) < 248"
  using assms unfolding hd_utf8[OF assms] by (auto split: if_splits)

lemma ascii_valid: "unat v < 0x80 \<Longrightarrow> is_valid_code_point v"
proof -
  assume v: "unat v < 0x80"
  have "v AND 0xfffe \<le> v" by (rule word_and_le2)
  then have "v AND 0xfffe \<noteq> 0xfffe" using v by (auto simp: word_le_nat_alt)
  then show ?thesis using v by (simp add: is_valid_code_point_def word_less_nat_alt word_le_nat_alt)
qed

lemma unat_masked: "n \<le> 8 \<Longrightarrow> unat (ucast (c AND mask n) :: u32) = unat (c :: u8) mod 2 ^ n"
  by (simp add: unsigned_ucast_eq unsigned_take_bit_eq take_bit_eq_mod[of n "unat c"] min_absorb1 flip: take_bit_eq_mask)

lemma utf8_reader_exact: "cbs_get_utf8 cbs = Ok v rest \<longleftrightarrow> is_valid_code_point v \<and> cbs = utf8 (unat v) @ rest"
proof (cases cbs)
  case Nil
  then show ?thesis by (simp add: cbs_get_utf8_def CBS_get_u8_def cbs_get_def utf8_def)
next
  case (Cons c cs)
  have hd: "c = hd (utf8 (unat v))" if "c # cs = utf8 (unat v) @ rest"
    using that by (cases "utf8 (unat v)") (auto simp: utf8_def split: if_splits)
  have low: "v < 0x80 \<longleftrightarrow> unat v < 0x80" "v < 0x800 \<longleftrightarrow> unat v < 0x800" "v < 0x10000 \<longleftrightarrow> unat v < 0x10000"
    by (simp_all add: word_less_nat_alt)
  note defs = cbs_get_utf8_def CBS_get_u8_Cons top_bottom top_bits_iff word_le_nat_alt Cons
  consider "unat c < 128" | "128 \<le> unat c" "unat c < 192" | "192 \<le> unat c" "unat c < 224"
    | "224 \<le> unat c" "unat c < 240" | "240 \<le> unat c" "unat c < 248" | "248 \<le> unat c" by linarith
  then show ?thesis
  proof cases
    case 1
    then have "cbs_get_utf8 cbs = Ok v rest \<longleftrightarrow> v = ucast c \<and> cs = rest" by (auto simp: defs)
    also have "\<dots> \<longleftrightarrow> is_valid_code_point v \<and> cbs = utf8 (unat v) @ rest"
    proof
      assume v: "v = ucast c \<and> cs = rest"
      have "unat v = unat c" using v 1 by (simp add: unsigned_ucast_eq take_bit_nat_eq_self)
      then show "is_valid_code_point v \<and> cbs = utf8 (unat v) @ rest" using 1 v ascii_valid[of v] by (simp add: Cons utf8_def)
    next
      assume a: "is_valid_code_point v \<and> cbs = utf8 (unat v) @ rest"
      then have "unat v < 0x80" using utf8_lead_range(4)[OF valid_range] hd 1 unfolding Cons by blast
      moreover from this have "ucast (ucast v :: u8) = v"
        by (simp add: word_unat_eq_iff[of _ v] unsigned_ucast_eq unsigned_take_bit_eq take_bit_nat_eq_self)
      ultimately show "v = ucast c \<and> cs = rest" using a by (auto simp: Cons utf8_def)
    qed
    finally show ?thesis .
  next
    case 2
    then have "cbs_get_utf8 cbs \<noteq> Ok v rest" by (auto simp: defs)
    moreover have "\<not> (is_valid_code_point v \<and> cbs = utf8 (unat v) @ rest)"
      using utf8_lead_range(5)[OF valid_range, of v] hd 2 unfolding Cons by auto
    ultimately show ?thesis by blast
  next
    case 3
    have "utf8_tail 1 (ucast (c AND mask 5)) cs = Ok v rest \<and> 0x80 \<le> unat v \<longleftrightarrow> c # cs = utf8 (unat v) @ rest"
      if v: "is_valid_code_point v"
    proof (rule utf8_long_exact[where B = 192 and R = 32, OF _ _ _ _ _ _ _ _ _ v])
      show "utf8 n = of_nat (192 + n div 64 ^ 1) # conts 1 n" if "n < 0x110000" "0x80 \<le> n" "n div 64 ^ 1 < 32" for n
        using that by (intro utf8_ranges) auto
      show "0x80 \<le> n \<and> n div 64 ^ 1 < 32"
        if "n < 0x110000" "192 \<le> unat (hd (utf8 n))" "unat (hd (utf8 n)) < 192 + 32" for n
        using utf8_lead_range(1)[OF that] .
    qed (use 3 in \<open>simp_all add: unat_masked\<close>)
    then show ?thesis using 3 low by (auto simp: defs)
  next
    case 4
    have "utf8_tail 2 (ucast (c AND mask 4)) cs = Ok v rest \<and> 0x800 \<le> unat v \<longleftrightarrow> c # cs = utf8 (unat v) @ rest"
      if v: "is_valid_code_point v"
    proof (rule utf8_long_exact[where B = 224 and R = 16, OF _ _ _ _ _ _ _ _ _ v])
      show "utf8 n = of_nat (224 + n div 64 ^ 2) # conts 2 n" if "n < 0x110000" "0x800 \<le> n" "n div 64 ^ 2 < 16" for n
        using that by (intro utf8_ranges) auto
      show "0x800 \<le> n \<and> n div 64 ^ 2 < 16"
        if "n < 0x110000" "224 \<le> unat (hd (utf8 n))" "unat (hd (utf8 n)) < 224 + 16" for n
        using utf8_lead_range(2)[OF that] .
    qed (use 4 in \<open>simp_all add: unat_masked\<close>)
    then show ?thesis using 4 low by (auto simp: defs)
  next
    case 5
    have "utf8_tail 3 (ucast (c AND mask 3)) cs = Ok v rest \<and> 0x10000 \<le> unat v \<longleftrightarrow> c # cs = utf8 (unat v) @ rest"
      if v: "is_valid_code_point v"
    proof (rule utf8_long_exact[where B = 240 and R = 8, OF _ _ _ _ _ _ _ _ _ v])
      show "utf8 n = of_nat (240 + n div 64 ^ 3) # conts 3 n" if "n < 0x110000" "0x10000 \<le> n" "n div 64 ^ 3 < 8" for n
        using that by (intro utf8_ranges) auto
      show "0x10000 \<le> n \<and> n div 64 ^ 3 < 8"
        if "n < 0x110000" "240 \<le> unat (hd (utf8 n))" "unat (hd (utf8 n)) < 240 + 8" for n
        using utf8_lead_range(3)[OF that] .
    qed (use 5 in \<open>simp_all add: unat_masked\<close>)
    then show ?thesis using 5 low by (auto simp: defs)
  next
    case 6
    then have "cbs_get_utf8 cbs \<noteq> Ok v rest" by (auto simp: defs)
    moreover have "\<not> (is_valid_code_point v \<and> cbs = utf8 (unat v) @ rest)"
      using utf8_lead_range(5)[OF valid_range, of v] hd 6 unfolding Cons by auto
    ultimately show ?thesis by blast
  qed
qed

section \<open>The writer\<close>

text \<open>The writer sets the top bits of bytes whose low bits are those of the number.\<close>

lemma or_top:
  fixes x :: u8
  assumes "t AND mask k = 0" and "x = x AND mask k"
  shows "t OR x = t + x"
proof -
  have "t AND x = 0"
  proof (rule bit_word_eqI)
    fix n
    have "\<not> bit (t AND mask k) n" using assms(1) by simp
    moreover have "bit x n = bit (x AND mask k) n" using assms(2) by simp
    ultimately show "bit (t AND x) n = bit (0 :: u8) n" by (auto simp: bit_simps)
  qed
  then show ?thesis by (simp add: disjunctive_add_eq_or)
qed

lemma unat_eq_of_nat_u8: "unat (x :: u8) = n \<Longrightarrow> x = of_nat n"
  by auto

lemma unat_shift_down: "unat (drop_bit k u) = unat (u :: u32) div 2 ^ k"
  by (simp only: unat_drop_bit_eq drop_bit_eq_div[of k "unat u"])

lemma cont_bits:
  fixes u :: u32
  shows "0x80 OR ucast (drop_bit k u AND ucast (mask 6 :: u8)) = cont_byte (unat u div 2 ^ k)"
proof -
  let ?x = "ucast (drop_bit k u AND ucast (mask 6 :: u8)) :: u8"
  have m: "ucast (mask 6 :: u8) = (mask 6 :: u32)" by (simp add: mask_eq_exp_minus_1)
  have "?x = ?x AND mask 6" unfolding m by (rule bit_word_eqI) (auto simp: bit_simps)
  then have "0x80 OR ?x = 0x80 + ?x" by (intro or_top[where k = 6]) (simp_all add: mask_eq_exp_minus_1)
  moreover have "unat ?x = unat u div 2 ^ k mod 64"
  proof -
    have "drop_bit k u AND ucast (mask 6 :: u8) = take_bit 6 (drop_bit k u)" unfolding m by (simp only: take_bit_eq_mask)
    moreover have "unat (take_bit 6 (drop_bit k u)) = unat u div 2 ^ k mod 2 ^ 6"
      by (simp only: unsigned_take_bit_eq unat_shift_down take_bit_eq_mod[of 6 "_ :: nat"])
    moreover have "unat u div 2 ^ k mod 2 ^ 6 < 2 ^ 8" by (rule less_trans[OF mod_less_divisor]) simp_all
    ultimately show ?thesis by (simp add: unsigned_ucast_eq take_bit_nat_eq_self)
  qed
  then have "?x = of_nat (unat u div 2 ^ k mod 64)" by (metis unat_eq_of_nat_u8)
  ultimately show ?thesis by (simp add: cont_byte_def)
qed

lemma top_bits:
  fixes u :: u32
  assumes "unat u div 2 ^ k < 2 ^ l" and "(t :: u8) AND mask l = 0" and "l \<le> 8"
  shows "t OR ucast (drop_bit k u) = t + of_nat (unat u div 2 ^ k)"
proof -
  let ?x = "ucast (drop_bit k u) :: u8"
  have x: "unat ?x = unat u div 2 ^ k"
  proof -
    have "unat u div 2 ^ k < 2 ^ 8" using order.strict_trans2[OF assms(1) power_increasing[of l 8 "2::nat"]] assms(3) by simp
    moreover have "unat ?x = take_bit LENGTH(8) (unat u div 2 ^ k)" unfolding unat_shift_down[symmetric] by (rule unsigned_ucast_eq)
    ultimately show ?thesis by (simp add: take_bit_nat_eq_self)
  qed
  have "?x = ?x AND mask l"
    using x assms(1) by (simp add: word_unat_eq_iff[of ?x] unsigned_take_bit_eq take_bit_nat_eq_self flip: take_bit_eq_mask)
  then have "t OR ?x = t + ?x" by (rule or_top[OF assms(2)])
  moreover have "?x = of_nat (unat u div 2 ^ k)" unfolding x[symmetric] by simp
  ultimately show ?thesis by simp
qed

lemma add_utf8_appends:
  assumes al: "sized al" and v: "is_valid_code_point u"
  shows "appends al (cbb_add_utf8 al p u) p (utf8 (unat u)) True"
proof -
  let ?n = "unat u" and ?add = "\<lambda>b. CBB_add_u8 al p b"
  note u8 = u8_appends[OF al, of p]
  have n: "?n < 0x110000" using valid_range[OF v] .
  note defs = cbb_add_utf8_def Let_def v top_bottom cont_bits cont_bits[of 0 u, simplified] word_le_nat_alt
  consider "?n < 0x80" | "0x80 \<le> ?n" "?n < 0x800" | "0x800 \<le> ?n" "?n < 0x10000" | "0x10000 \<le> ?n" by linarith
  then show ?thesis
  proof cases
    case 1
    have "ucast u = (of_nat ?n :: u8)" by (simp add: word_unat_eq_iff unsigned_ucast_eq unat_of_nat)
    then show ?thesis using 1 by (intro appends_cong[OF u8]) (simp_all add: defs utf8_def)
  next
    case 2
    then have "0xC0 OR ucast (drop_bit 6 u) = (of_nat (0xC0 + ?n div 64) :: u8)"
      using top_bits[of u 6 5 "0xC0"] by (simp add: mask_eq_exp_minus_1)
    note e = this
    from appends_bindo[where g = "\<lambda>_. ?add (cont_byte ?n)", OF u8[of "of_nat (0xC0 + ?n div 64)"] u8]
    show ?thesis using 2 e by (elim appends_cong) (simp_all add: defs utf8_def)
  next
    case 3
    then have "0xE0 OR ucast (drop_bit 12 u) = (of_nat (0xE0 + ?n div 4096) :: u8)"
      using top_bits[of u 12 4 "0xE0"] by (simp add: mask_eq_exp_minus_1)
    note e = this
    from appends_bindo[where g = "\<lambda>_. ?add (cont_byte ?n)", OF
        appends_bindo[where g = "\<lambda>_. ?add (cont_byte (?n div 64))", OF u8[of "of_nat (0xE0 + ?n div 4096)"] u8] u8]
    show ?thesis using 3 e by (elim appends_cong) (simp_all add: defs utf8_def)
  next
    case 4
    then have "0xF0 OR ucast (drop_bit 18 u) = (of_nat (0xF0 + ?n div 262144) :: u8)"
      using top_bits[of u 18 3 "0xF0"] n by (simp add: mask_eq_exp_minus_1)
    note e = this
    from appends_bindo[where g = "\<lambda>_. ?add (cont_byte ?n)", OF
        appends_bindo[where g = "\<lambda>_. ?add (cont_byte (?n div 64))", OF
        appends_bindo[where g = "\<lambda>_. ?add (cont_byte (?n div 4096))", OF u8[of "of_nat (0xF0 + ?n div 262144)"] u8] u8] u8]
    show ?thesis using 4 e n by (elim appends_cong) (simp_all add: defs utf8_def)
  qed
qed

text \<open>Fixed-width numbers.\<close>

lemma get_u16_written: "CBS_get_u16 (rev (le_bytes 2 v)) = Ok v []"
proof -
  have "take_bit 16 (ucast v :: u64) = ucast v" by (rule bit_word_eqI) (auto simp: bit_simps dest: bit_imp_le_length)
  then have "cbs_get_u 2 (rev (le_bytes 2 v)) = Ok (ucast v) []" by (simp add: cbs_get_u_exact le_bytes_ucast del: le_bytes.simps)
  moreover have "ucast (ucast v :: u64) = v" by (rule bit_word_eqI) (auto simp: bit_simps)
  ultimately show ?thesis by (simp add: CBS_get_u16_def)
qed

lemma get_u32_written: "CBS_get_u32 (rev (le_bytes 4 v)) = Ok v []"
proof -
  have "take_bit 32 (ucast v :: u64) = ucast v" by (rule bit_word_eqI) (auto simp: bit_simps dest: bit_imp_le_length)
  then have "cbs_get_u 4 (rev (le_bytes 4 v)) = Ok (ucast v) []" by (simp add: cbs_get_u_exact le_bytes_ucast del: le_bytes.simps)
  moreover have "ucast (ucast v :: u64) = v" by (rule bit_word_eqI) (auto simp: bit_simps)
  ultimately show ?thesis by (simp add: CBS_get_u32_def)
qed

section \<open>Properties\<close>

text \<open>
  C23: cbs_get_utf8 accepts exactly the shortest UTF-8 encodings of the valid code points: it reads a
  code point from the front of the input exactly when the code point is valid and the input starts
  with the bytes that arithmetic gives for it. Overlong forms, surrogates, reserved values and cut
  sequences are refused.
\<close>

theorem utf8_exact: "cbs_get_utf8 cbs = Ok v rest \<longleftrightarrow> is_valid_code_point v \<and> cbs = utf8 (unat v) @ rest"
  by (rule utf8_reader_exact)

text \<open>
  C30: what the writers of UTF-8, UTF-32, UCS-2 and Latin-1 write for a code point into a new CBB is
  read back as the same code point, to its last byte, and cbb_get_utf8_len is the number of bytes in
  UTF-8. UCS-2 takes the valid code points of 16 bits, Latin-1 those of 8 bits.
\<close>

theorem code_point_roundtrip:
  assumes "sized al" and "never_fails al" and "is_valid_code_point u"
  shows "(\<exists>bs. build al cap (\<lambda>cbb. cbb_add_utf8 al None u cbb) = Some bs \<and> cbs_get_utf8 bs = Ok u [] \<and> length bs = cbb_get_utf8_len u) \<and>
    (\<exists>bs. build al cap (\<lambda>cbb. cbb_add_utf32_be al None u cbb) = Some bs \<and> cbs_get_utf32_be bs = Ok u []) \<and>
    (u \<le> 0xffff \<longrightarrow> (\<exists>bs. build al cap (\<lambda>cbb. cbb_add_ucs2_be al None u cbb) = Some bs \<and> cbs_get_ucs2_be bs = Ok u [])) \<and>
    (u \<le> 0xff \<longrightarrow> (\<exists>bs. build al cap (\<lambda>cbb. cbb_add_latin1 al None u cbb) = Some bs \<and> cbs_get_latin1 bs = Ok u []))"
proof (intro conjI impI)
  have "build al cap (\<lambda>cbb. cbb_add_utf8 al None u cbb) = Some (utf8 (unat u))"
    using build_appends[OF assms(1,2) add_utf8_appends[OF assms(1,3)]] by (simp add: utf8_def)
  moreover have "length (utf8 (unat u)) = cbb_get_utf8_len u"
    by (simp add: utf8_def cbb_get_utf8_len_def word_le_nat_alt)
  ultimately show "\<exists>bs. build al cap (\<lambda>cbb. cbb_add_utf8 al None u cbb) = Some bs \<and> cbs_get_utf8 bs = Ok u [] \<and> length bs = cbb_get_utf8_len u"
    using assms(3) by (simp add: utf8_reader_exact)
next
  show "\<exists>bs. build al cap (\<lambda>cbb. cbb_add_utf32_be al None u cbb) = Some bs \<and> cbs_get_utf32_be bs = Ok u []"
    using assms(3) build_appends[OF assms(1,2) appends_cong[where g = "\<lambda>cbb. cbb_add_utf32_be al None u cbb", OF u32_appends[OF assms(1), of None u]]]
    by (simp add: cbb_add_utf32_be_def cbs_get_utf32_be_def get_u32_written del: le_bytes.simps)
next
  assume u: "u \<le> 0xffff"
  then have uu: "ucast (ucast u :: u16) = u"
    by (simp add: word_le_nat_alt word_unat_eq_iff[of _ u] unsigned_ucast_eq unsigned_take_bit_eq take_bit_nat_eq_self)
  show "\<exists>bs. build al cap (\<lambda>cbb. cbb_add_ucs2_be al None u cbb) = Some bs \<and> cbs_get_ucs2_be bs = Ok u []"
    using u uu assms(3) build_appends[OF assms(1,2) appends_cong[where g = "\<lambda>cbb. cbb_add_ucs2_be al None u cbb", OF u16_appends[OF assms(1), of None "ucast u"]]]
    by (simp add: cbb_add_ucs2_be_def cbs_get_ucs2_be_def get_u16_written del: le_bytes.simps)
next
  assume u: "u \<le> 0xff"
  then have uu: "ucast (ucast u :: u8) = u"
    by (simp add: word_le_nat_alt word_unat_eq_iff[of _ u] unsigned_ucast_eq unsigned_take_bit_eq take_bit_nat_eq_self)
  show "\<exists>bs. build al cap (\<lambda>cbb. cbb_add_latin1 al None u cbb) = Some bs \<and> cbs_get_latin1 bs = Ok u []"
    using u uu build_appends[OF assms(1,2) appends_cong[where g = "\<lambda>cbb. cbb_add_latin1 al None u cbb", OF u8_appends[OF assms(1), of None "ucast u"]]]
    by (simp add: cbb_add_latin1_def cbs_get_latin1_def CBS_get_u8_Cons)
qed

theorem code_point_roundtrip_witness:
  "\<exists>bs. build (\<lambda>n. Some (replicate (unat n) 0)) 0 (\<lambda>cbb. cbb_add_utf8 (\<lambda>n. Some (replicate (unat n) 0)) None 0x20ac cbb) = Some bs \<and>
    cbs_get_utf8 bs = Ok 0x20ac [] \<and> length bs = cbb_get_utf8_len 0x20ac"
  using code_point_roundtrip[of "\<lambda>n. Some (replicate (unat n) 0)" "0x20ac" 0]
  by (simp add: sized_def never_fails_def is_valid_code_point_def)

end
