(* ===== verification/Ber.thy ===== *)
theory Ber
  imports Set_Of
begin

text \<open>
  The conversion of BER to DER (src/crypto/bytestring/ber.c). Elements of indefinite length get
  their length, lengths their shortest form, and constructed strings are joined to one primitive
  string, at any depth up to 2048.
\<close>

section \<open>The code\<close>

definition kMaxDepth :: nat where
  "kMaxDepth = 2048"

text \<open>The tag without the constructed bit.\<close>

definition primitive_tag :: "u32 \<Rightarrow> u32" where
  "primitive_tag tag = tag AND NOT CBS_ASN1_CONSTRUCTED"

text \<open>Octet, UTF-8, numeric, printable, T61, videotex, IA5, graphic, visible, general, universal and BMP strings.\<close>

definition is_string_type :: "u32 \<Rightarrow> bool" where
  "is_string_type tag \<longleftrightarrow>
     primitive_tag tag \<in> set [CBS_ASN1_OCTETSTRING, 0xc, 0x12, 0x13, 0x14, 0x15, 0x16, 0x19, 0x1a, 0x1b, 0x1c, 0x1e]"

definition constructed :: "u32 \<Rightarrow> bool" where
  "constructed tag \<longleftrightarrow> tag AND CBS_ASN1_CONSTRUCTED \<noteq> 0"

lemma ber_element_progress: "CBS_get_any_ber_asn1_element cbs = Ok (out, tag, hl, ber) rest \<Longrightarrow> cbs = out @ rest \<and> out \<noteq> []"
  unfolding CBS_get_any_ber_asn1_element_def by (rule element_progress)

text \<open>
  The walk that looks for BER, at a depth of at most \<open>kMaxDepth\<close>; its second argument is the value
  of \<open>*ber_found\<close>, which every call of the parser sets anew. None is the error.
\<close>

function find_ber_loop :: "CBS \<Rightarrow> bool \<Rightarrow> nat \<Rightarrow> bool option" where
  "find_ber_loop inp found depth =
     (if CBS_len inp = 0 then Some found
      else case CBS_get_any_ber_asn1_element inp of
             Ok (contents, tag, header_len, found) inp \<Rightarrow>
               if found then Some True
               else if constructed tag then
                 if is_string_type tag then Some True
                 else (case CBS_skip header_len contents of
                         Ok _ contents \<Rightarrow>
                           (case (if kMaxDepth < depth + 1 then None else find_ber_loop contents False (depth + 1)) of
                              Some found \<Rightarrow> find_ber_loop inp found depth
                            | None \<Rightarrow> None)
                       | Fail _ \<Rightarrow> None
                       | NoResult \<Rightarrow> None)
               else find_ber_loop inp found depth
           | Fail _ \<Rightarrow> None
           | NoResult \<Rightarrow> None)"
  by pat_completeness auto

termination
  by (relation "inv_image (less_than <*lex*> measure length) (\<lambda>(inp, found, depth). (Suc kMaxDepth - depth, inp))")
    (auto dest!: ber_element_progress)

declare find_ber_loop.simps [simp del]

definition cbs_find_ber :: "CBS \<Rightarrow> nat \<Rightarrow> bool option" where
  "cbs_find_ber orig_in depth = (if kMaxDepth < depth then None else find_ber_loop orig_in False depth)"

definition is_eoc :: "u64 \<Rightarrow> CBS \<Rightarrow> bool" where
  "is_eoc header_len contents \<longleftrightarrow> header_len = 2 \<and> CBS_len contents = 2 \<and> memcmp contents [0, 0] 2 = 0"

text \<open>The state of the conversion is the input and the output; an operation may be on one of them only.\<close>

type_synonym 'v ber_op = "CBS \<times> CBB \<Rightarrow> ('v, CBS \<times> CBB) outcome"

fun on_cbb :: "'v cbb_op \<Rightarrow> 'v ber_op" where
  "on_cbb f (inp, cbb) =
     (case f cbb of Ok v cbb \<Rightarrow> Ok v (inp, cbb) | Fail cbb \<Rightarrow> Fail (inp, cbb) | NoResult \<Rightarrow> NoResult)"

fun on_contents :: "CBS \<Rightarrow> 'v ber_op \<Rightarrow> 'v ber_op" where
  "on_contents contents f (inp, cbb) =
     (case f (contents, cbb) of
        Ok v (_, cbb) \<Rightarrow> Ok v (inp, cbb) | Fail (_, cbb) \<Rightarrow> Fail (inp, cbb) | NoResult \<Rightarrow> NoResult)"

text \<open>
  Where the contents of an element go, and the string tag for its children: inside a constructed
  string to \<open>out\<close> itself, otherwise to a new child.
\<close>

definition begin_element :: "allocator \<Rightarrow> cbb_ptr \<Rightarrow> u32 \<Rightarrow> u32 \<Rightarrow> (cbb_ptr \<times> u32) cbb_op" where
  "begin_element al out string_tag tag cbb =
     (if string_tag \<noteq> 0 then if primitive_tag tag \<noteq> string_tag then Fail cbb else Ok (out, string_tag) cbb
      else let string = constructed tag \<and> is_string_type tag;
               out_tag = (if string then primitive_tag tag else tag);
               child_string_tag = (if string then out_tag else string_tag);
               child = local_ptr cbb
           in bindo (CBB_add_asn1 al out child out_tag cbb) (\<lambda>_. Ok (Some child, child_string_tag)))"

text \<open>The first argument bounds the number of nested calls and rounds of the loop.\<close>

fun cbs_convert_ber :: "nat \<Rightarrow> allocator \<Rightarrow> cbb_ptr \<Rightarrow> u32 \<Rightarrow> bool \<Rightarrow> nat \<Rightarrow> unit ber_op" where
  "cbs_convert_ber 0 al out string_tag looking_for_eoc depth s = NoResult"
| "cbs_convert_ber (Suc n) al out string_tag looking_for_eoc depth (inp, cbb) =
     (if kMaxDepth < depth then Fail (inp, cbb)
      else if CBS_len inp = 0 then if looking_for_eoc then Fail (inp, cbb) else Ok () (inp, cbb)
      else case CBS_get_any_ber_asn1_element inp of
             Fail inp \<Rightarrow> Fail (inp, cbb)
           | NoResult \<Rightarrow> NoResult
           | Ok (contents, tag, header_len, ber_found) inp \<Rightarrow>
               if is_eoc header_len contents then if looking_for_eoc then Ok () (inp, cbb) else Fail (inp, cbb)
               else bindo (on_cbb (begin_element al out string_tag tag) (inp, cbb)) (\<lambda>(out_contents, child_string_tag) s.
                 bindo (if CBS_len contents = header_len \<and> 0 < header_len \<and> contents ! unat (header_len - 1) = 0x80
                        then cbs_convert_ber n al out_contents child_string_tag True (depth + 1) s
                        else case CBS_skip header_len contents of
                               Fail _ \<Rightarrow> Fail s
                             | NoResult \<Rightarrow> NoResult
                             | Ok _ contents \<Rightarrow>
                                 if constructed tag
                                 then on_contents contents (\<lambda>s. cbs_convert_ber n al out_contents child_string_tag False (depth + 1) s) s
                                 else on_cbb (CBB_add_bytes al out_contents contents) s) (\<lambda>_ s.
                 bindo (on_cbb (CBB_flush al out) s) (\<lambda>_ s.
                   cbs_convert_ber n al out string_tag looking_for_eoc depth s))))"

text \<open>The output, and the storage it is in when that is not the input.\<close>

definition CBS_asn1_ber_to_der :: "allocator \<Rightarrow> bool \<Rightarrow> (CBS \<times> bytes option) reader" where
  "CBS_asn1_ber_to_der al ok inp =
     (case cbs_find_ber inp 0 of
        None \<Rightarrow> Fail inp
      | Some conversion_needed \<Rightarrow>
          if \<not> conversion_needed
          then bindo (CBS_get_any_asn1_element inp) (\<lambda>(out, _, _). Ok (out, None))
          else (case CBB_init al ok (CBS_len inp) of
                  Ok _ cbb \<Rightarrow>
                    (case cbs_convert_ber (Suc (length inp)) al None 0 False 0 (inp, cbb) of
                       Ok _ (inp, cbb) \<Rightarrow>
                         (case CBB_finish al None cbb of
                            Ok (storage, len) _ \<Rightarrow> Ok (take (unat len) storage, Some storage) inp
                          | Fail _ \<Rightarrow> Fail inp
                          | NoResult \<Rightarrow> NoResult)
                     | Fail (inp, _) \<Rightarrow> Fail inp
                     | NoResult \<Rightarrow> NoResult)
                | Fail _ \<Rightarrow> Fail inp
                | NoResult \<Rightarrow> NoResult))"

lemma get_asn1_progress: "CBS_get_asn1 tag cbs = Ok c rest \<Longrightarrow> length rest < length cbs"
  unfolding CBS_get_asn1_def cbs_get_asn1_def by (auto dest!: der_element_progress split: if_splits option.splits)

text \<open>The loop of CBS_get_asn1_implicit_string over the chunks.\<close>

function join_chunks :: "allocator \<Rightarrow> u32 \<Rightarrow> CBS \<Rightarrow> unit cbb_op" where
  "join_chunks al inner_tag child cbb =
     (if CBS_len child = 0 then Ok () cbb
      else case CBS_get_asn1 inner_tag child of
             Ok chunk child \<Rightarrow> bindo (CBB_add_bytes al None chunk cbb) (\<lambda>_. join_chunks al inner_tag child)
           | Fail _ \<Rightarrow> Fail cbb
           | NoResult \<Rightarrow> NoResult)"
  by pat_completeness auto

termination
  by (relation "measure (\<lambda>(al, t, child, cbb). length child)") (auto dest: get_asn1_progress)

declare join_chunks.simps [simp del]

definition CBS_get_asn1_implicit_string :: "allocator \<Rightarrow> bool \<Rightarrow> u32 \<Rightarrow> u32 \<Rightarrow> (CBS \<times> bytes option) reader" where
  "CBS_get_asn1_implicit_string al ok outer_tag inner_tag inp =
     (if CBS_peek_asn1_tag inp outer_tag
      then bindo (CBS_get_asn1 outer_tag inp) (\<lambda>out. Ok (out, None))
      else case CBB_init al ok (CBS_len inp) of
             Fail _ \<Rightarrow> Fail inp
           | NoResult \<Rightarrow> NoResult
           | Ok _ result \<Rightarrow>
               bindo (CBS_get_asn1 (outer_tag OR CBS_ASN1_CONSTRUCTED) inp) (\<lambda>child inp.
                 case bindo (join_chunks al inner_tag child result) (\<lambda>_. CBB_finish al None) of
                   Ok (data, len) _ \<Rightarrow> Ok (take (unat len) data, Some data) inp
                 | Fail _ \<Rightarrow> Fail inp
                 | NoResult \<Rightarrow> NoResult))"

section \<open>What the conversion does\<close>

text \<open>
  From the elements of BER at depth \<open>d\<close> to those of DER. Inside a constructed string of the type
  \<open>st\<close> only the contents count; \<open>st\<close> is 0 elsewhere.
\<close>

definition joined :: "u32 \<Rightarrow> bool" where
  "joined tag \<longleftrightarrow> constructed tag \<and> is_string_type tag"

definition child_tag :: "u32 \<Rightarrow> u32 \<Rightarrow> u32" where
  "child_tag st tag = (if st \<noteq> 0 then st else if joined tag then primitive_tag tag else 0)"

definition wrap :: "u32 \<Rightarrow> u32 \<Rightarrow> bytes \<Rightarrow> bytes" where
  "wrap st tag c = (if st \<noteq> 0 then c else der_element (if joined tag then primitive_tag tag else tag) c)"

definition fitting :: "u32 \<Rightarrow> u32 \<Rightarrow> bytes \<Rightarrow> bool" where
  "fitting st tag c \<longleftrightarrow> (if st \<noteq> 0 then primitive_tag tag = st else length c \<le> 0xfffffffe)"

inductive ber_der :: "nat \<Rightarrow> u32 \<Rightarrow> bytes \<Rightarrow> bytes \<Rightarrow> bool" where
  nil: "d \<le> kMaxDepth \<Longrightarrow> ber_der d st [] []"
| primitive: "d \<le> kMaxDepth \<Longrightarrow> \<not> constructed tag \<Longrightarrow> ber_length (length c) lb \<Longrightarrow> der_tag tag @ lb @ c \<noteq> [0, 0] \<Longrightarrow>
    fitting st tag c \<Longrightarrow> ber_der d st rest out \<Longrightarrow> ber_der d st (der_tag tag @ lb @ c @ rest) (wrap st tag c @ out)"
| definite: "d \<le> kMaxDepth \<Longrightarrow> constructed tag \<Longrightarrow> ber_length (length body) lb \<Longrightarrow> ber_der (Suc d) (child_tag st tag) body inner \<Longrightarrow>
    fitting st tag inner \<Longrightarrow> ber_der d st rest out \<Longrightarrow> ber_der d st (der_tag tag @ lb @ body @ rest) (wrap st tag inner @ out)"
| indefinite: "d \<le> kMaxDepth \<Longrightarrow> constructed tag \<Longrightarrow> ber_der (Suc d) (child_tag st tag) body inner \<Longrightarrow>
    fitting st tag inner \<Longrightarrow> ber_der d st rest out \<Longrightarrow>
    ber_der d st (der_tag tag @ 0x80 # body @ 0 # 0 # rest) (wrap st tag inner @ out)"

section \<open>Soundness\<close>

lemma cmakes_Ok: "cmakes al f b cs v d cs' q \<Longrightarrow> f \<lparr>cb_base = Some b, cb_children = cs\<rparr> = Ok w cbb \<Longrightarrow>
    q \<and> w = v \<and> (\<exists>b'. cbb = \<lparr>cb_base = Some b', cb_children = cs'\<rparr> \<and> becomes al b d b')"
  by (simp add: cmakes_def)

lemma cmakes_NoResult: "cmakes al f b cs v d cs' q \<Longrightarrow> f \<lparr>cb_base = Some b, cb_children = cs\<rparr> \<noteq> NoResult"
  by (auto simp: cmakes_def)

text \<open>After an element was begun, its contents go to a CBB whose flush makes the element.\<close>

definition opens :: "allocator \<Rightarrow> cbb_ptr \<Rightarrow> u32 \<Rightarrow> u32 \<Rightarrow> cbb_buffer_st \<Rightarrow> cbb_child list \<Rightarrow> cbb_ptr \<Rightarrow> cbb_buffer_st \<Rightarrow> cbb_child list \<Rightarrow> bool" where
  "opens al p st tag b cs oc b1 cs1 \<longleftrightarrow> live b1 cs1 \<and> split_children oc cs1 = Some (cs1, []) \<and>
     length (buf_data b1) \<le> length (buf_data b) + 12 \<and>
     (\<forall>c b2. becomes al b1 (buf_data b1 @ c) b2 \<longrightarrow>
       cmakes al (CBB_flush al p) b2 cs1 () (buf_data b @ wrap st tag c) cs (st = 0 \<longrightarrow> length c \<le> 0xfffffffe) \<and> limit al b \<le> limit al b2)"

lemma begin_element_opens:
  assumes al: "sized al" and b: "live b cs" and p: "split_children p cs = Some (cs, [])"
  shows "case begin_element al p st tag \<lparr>cb_base = Some b, cb_children = cs\<rparr> of
      Ok (oc, ct) cbb \<Rightarrow> ct = child_tag st tag \<and> (st \<noteq> 0 \<longrightarrow> primitive_tag tag = st) \<and>
        (\<exists>b1 cs1. cbb = \<lparr>cb_base = Some b1, cb_children = cs1\<rparr> \<and> opens al p st tag b cs oc b1 cs1)
    | Fail _ \<Rightarrow> \<not> ((st \<noteq> 0 \<longrightarrow> primitive_tag tag = st) \<and> length (buf_data b) + 12 \<le> limit al b)
    | NoResult \<Rightarrow> False"
proof (cases "st = 0")
  case False
  have "cmakes al (CBB_flush al p) b2 cs () (buf_data b @ c) cs True \<and> limit al b \<le> limit al b2"
    if "becomes al b (buf_data b @ c) b2" for c b2
  proof -
    have "start_of cs \<le> length (buf_data b @ c)" using start_le_flushed[of b cs "[]"] b by simp
    then have l: "live b2 cs" using live_becomes[of b cs "[]", OF _ that] b by simp
    show ?thesis using flush_cmakes[OF al l p] that by (simp add: becomes_def)
  qed
  then have "opens al p st tag b cs p b cs" using b p False by (simp add: opens_def wrap_def)
  then show ?thesis using False by (auto simp: begin_element_def child_tag_def)
next
  case True
  let ?cbb = "\<lparr>cb_base = Some b, cb_children = cs\<rparr>"
  let ?t = "if joined tag then primitive_tag tag else tag" and ?child = "local_ptr ?cbb"
  let ?d = "buf_data b @ der_tag ?t"
  have child: "?child \<notin> ch_ptr ` set cs" using local_ptr_fresh[of ?cbb] by simp
  have be: "begin_element al p st tag ?cbb =
      bindo (CBB_add_asn1 al p ?child ?t ?cbb) (\<lambda>_. Ok (Some ?child, child_tag st tag))"
    using True by (simp add: begin_element_def child_tag_def joined_def Let_def)
  have add: "cmakes al (CBB_add_asn1 al p ?child ?t) b cs () (?d @ [0]) (cs @ [asn1_child ?child (length ?d)]) True"
    using add_asn1_cmakes[OF al b p, of ?child ?t] by simp
  have d: "?d = flushed (buf_data b) cs [] @ der_tag ?t" by simp
  have op: "opens al p st tag b cs (Some ?child) b1 (cs @ [asn1_child ?child (length ?d)])" if b1: "becomes al b (?d @ [0]) b1" for b1
    unfolding opens_def
  proof (intro conjI allI impI)
    note o = opened_child[OF b p child d b1]
    show "live b1 (cs @ [asn1_child ?child (length ?d)])"
      "split_children (Some ?child) (cs @ [asn1_child ?child (length ?d)]) = Some (cs @ [asn1_child ?child (length ?d)], [])"
      using o(4,5) by auto
    show "length (buf_data b1) \<le> length (buf_data b) + 12" using b1 length_der_tag(2)[of ?t] by (simp add: becomes_def)
    fix c b2 assume b2: "becomes al b1 (buf_data b1 @ c) b2"
    then have b2': "becomes al b1 (?d @ [0] @ c) b2" using b1 by (simp add: becomes_def)
    show "limit al b \<le> limit al b2" using b1 b2 by (simp add: becomes_def)
    have "?d @ der_length (length c) @ c = buf_data b @ wrap st tag c"
      using True by (simp add: wrap_def der_element_def der_header_def)
    then show "cmakes al (CBB_flush al p) b2 (cs @ [asn1_child ?child (length ?d)]) () (buf_data b @ wrap st tag c) cs
        (st = 0 \<longrightarrow> length c \<le> 0xfffffffe)"
      using closed_child[OF al b p child d b1 b2'] True by simp
  qed
  show ?thesis
  proof (cases "CBB_add_asn1 al p ?child ?t ?cbb")
    case (Ok w cbb)
    then obtain b1 where b1: "cbb = \<lparr>cb_base = Some b1, cb_children = cs @ [asn1_child ?child (length ?d)]\<rparr>" "becomes al b (?d @ [0]) b1"
      using cmakes_Ok[OF add] by blast
    have "begin_element al p st tag ?cbb = Ok (Some ?child, child_tag st tag) cbb" unfolding be Ok by simp
    then show ?thesis using op[OF b1(2)] True b1(1) by auto
  next
    case (Fail cbb)
    have "\<not> length (?d @ [0]) \<le> limit al b" using add Fail by (simp add: cmakes_def)
    then show ?thesis using length_der_tag(2)[of ?t] by (simp add: be Fail)
  next
    case NoResult
    then show ?thesis using cmakes_NoResult[OF add] by simp
  qed
qed

text \<open>The elements that the parser finds.\<close>

lemma eoc_iff: "length contents < 2 ^ 63 \<Longrightarrow> is_eoc hl contents \<longleftrightarrow> hl = 2 \<and> contents = [0, 0]"
proof -
  assume l: "length contents < 2 ^ 63"
  have "CBS_len contents = 2 \<longleftrightarrow> length contents = 2"
    using l unat_of_nat[of "length contents", where 'a = 64] by (auto simp: CBS_len_def take_bit_nat_eq_self)
  moreover have "length contents = 2 \<and> memcmp contents [0, 0] 2 = 0 \<longleftrightarrow> contents = [0, 0]"
    by (auto simp: numeral_2_eq_2 length_Suc_conv unsigned_eq_0_iff split: if_splits)
  ultimately show ?thesis unfolding is_eoc_def by blast
qed

lemma le_bytes_0: "le_bytes k 0 = replicate k 0"
  by (induction k) simp_all

lemma last_ber_length: "ber_length 0 lb \<Longrightarrow> last lb = 0 \<and> lb \<noteq> []"
  by (auto simp: ber_length_def le_bytes_0 last_replicate)

definition indefinite_header :: "u64 \<Rightarrow> CBS \<Rightarrow> bool" where
  "indefinite_header header_len contents \<longleftrightarrow> CBS_len contents = header_len \<and> 0 < header_len \<and> contents ! unat (header_len - 1) = 0x80"

lemma element_forms:
  assumes l: "length inp < 2 ^ 63" and parse: "CBS_get_any_ber_asn1_element inp = Ok (contents, tag, hl, ber) inp1"
  shows "inp = contents @ inp1" and "contents \<noteq> []"
    and "if indefinite_header hl contents then constructed tag \<and> contents = der_tag tag @ [0x80]
      else \<exists>lb c. ber_length (length c) lb \<and> contents = der_tag tag @ lb @ c \<and> CBS_skip hl contents = Ok () c \<and> length c < length contents \<and>
        hl = of_nat (length (der_tag tag @ lb))"
proof -
  note p = ber_element_sound[OF l parse[unfolded CBS_get_any_ber_asn1_element_def]]
  show inp: "inp = contents @ inp1" and ne: "contents \<noteq> []" using ber_element_progress[OF parse] by auto
  have lc: "length contents < 2 ^ 63" using l unfolding inp by simp
  have small: "unat (of_nat n :: u64) = n" if "n \<le> length contents" for n
    using that lc by (simp add: unat_of_nat take_bit_nat_eq_self)
  have last: "contents ! unat (hl - 1) = last contents" if h: "hl = of_nat (length contents)"
  proof -
    have "unat (hl - 1) = length contents - 1"
      using small[of "length contents"] ne unfolding h by (simp add: unat_sub_if' Suc_le_eq)
    then show ?thesis using ne by (simp add: last_conv_nth)
  qed
  have pos: "0 < (of_nat n :: u64)" if "0 < n" "n \<le> length contents" for n
    using small[OF that(2)] that(1) by (simp add: word_less_nat_alt)
  consider (def) lb c where "ber_length (length c) lb" "contents = der_tag tag @ lb @ c" "hl = of_nat (length (der_tag tag @ lb))"
    | (indef) "tag AND CBS_ASN1_CONSTRUCTED \<noteq> 0" "contents = der_tag tag @ [0x80]" "hl = of_nat (length contents)"
    using p by blast
  then show "if indefinite_header hl contents then constructed tag \<and> contents = der_tag tag @ [0x80]
      else \<exists>lb c. ber_length (length c) lb \<and> contents = der_tag tag @ lb @ c \<and> CBS_skip hl contents = Ok () c \<and> length c < length contents \<and>
        hl = of_nat (length (der_tag tag @ lb))"
  proof cases
    case def
    have "\<not> indefinite_header hl contents"
    proof
      assume i: "indefinite_header hl contents"
      then have "(of_nat (length contents) :: u64) = of_nat (length (der_tag tag @ lb))"
        unfolding indefinite_header_def CBS_len_def def(3) by simp
      then have "unat (of_nat (length contents) :: u64) = unat (of_nat (length (der_tag tag @ lb)) :: u64)" by (rule arg_cong)
      moreover have "length (der_tag tag @ lb) \<le> length contents" using def(2) by simp
      ultimately have len: "length contents = length (der_tag tag @ lb)" using small by (simp only: order_refl)
      then have c: "c = []" using def(2) by simp
      then have "last contents = 0" using last_ber_length[of lb] def(1,2) by simp
      moreover have "contents ! unat (hl - 1) = last contents" using last len def(3) by simp
      ultimately show False using i by (simp add: indefinite_header_def)
    qed
    moreover have "CBS_skip hl contents = Ok () c"
      using small[of "length (der_tag tag @ lb)"] def(2,3) by (simp add: CBS_skip_def cbs_get_def)
    moreover have "length contents = length (der_tag tag) + length lb + length c" using def(2) by simp
    then have "length c < length contents" using length_der_tag(1)[of tag] by linarith
    ultimately show ?thesis using def by auto
  next
    case indef
    have "indefinite_header hl contents"
      using last[OF indef(3)] pos[of "length contents"] ne indef by (simp add: indefinite_header_def CBS_len_def)
    then show ?thesis using indef by (simp add: constructed_def)
  qed
qed

lemma bindo_is_NoResult: "bindo x g = NoResult \<longleftrightarrow> x = NoResult \<or> (\<exists>v s. x = Ok v s \<and> g v s = NoResult)"
  by (cases x) auto

lemma element_parser_total: "cbs_get_any_asn1_element ber_ok inp \<noteq> NoResult"
proof -
  have u: "cbs_get_u n h \<noteq> NoResult" "CBS_get_bytes n h \<noteq> NoResult" "CBS_get_u8 h \<noteq> NoResult" for n h
    by (simp_all add: cbs_get_u_def cbs_get_def CBS_get_bytes_def CBS_get_u8_def)
  have "base128_loop v h \<noteq> NoResult" for v h by (induction v h rule: base128_loop.induct) (auto simp: Let_def)
  then have "parse_asn1_tag inp \<noteq> NoResult"
    using u by (auto simp: parse_asn1_tag_def parse_base128_integer_def Let_def bindo_is_NoResult split: if_splits)
  then show ?thesis
    using u unfolding cbs_get_any_asn1_element_def Let_def
    by (auto simp: bindo_is_NoResult split: outcome.splits)
qed

lemma ber_parser_total: "CBS_get_any_ber_asn1_element inp \<noteq> NoResult" "CBS_get_any_asn1_element inp \<noteq> NoResult"
  using element_parser_total by (auto simp: CBS_get_any_ber_asn1_element_def CBS_get_any_asn1_element_def bindo_is_NoResult)

definition converts :: "allocator \<Rightarrow> nat \<Rightarrow> u32 \<Rightarrow> bool \<Rightarrow> CBS \<Rightarrow> cbb_buffer_st \<Rightarrow> cbb_child list \<Rightarrow> nat \<Rightarrow> (unit, CBS \<times> CBB) outcome \<Rightarrow> bool" where
  "converts al d st eoc inp b cs n r \<longleftrightarrow>
     (case r of
        Ok _ (inp', cbb) \<Rightarrow> \<exists>body out b'. inp = body @ (if eoc then [0, 0] @ inp' else []) \<and> (\<not> eoc \<longrightarrow> inp' = []) \<and>
          ber_der d st body out \<and> cbb = \<lparr>cb_base = Some b', cb_children = cs\<rparr> \<and> becomes al b (buf_data b @ out) b'
      | Fail _ \<Rightarrow> True
      | NoResult \<Rightarrow> n \<le> length inp)"

text \<open>The contents of one element: what they are in the input and in the output.\<close>

definition contents_run :: "nat \<Rightarrow> allocator \<Rightarrow> u32 \<Rightarrow> nat \<Rightarrow> CBS \<Rightarrow> u64 \<Rightarrow> u32 \<Rightarrow> cbb_ptr \<Rightarrow> unit ber_op" where
  "contents_run n al ct d contents hl tag oc s =
     (if indefinite_header hl contents then cbs_convert_ber n al oc ct True (d + 1) s
      else case CBS_skip hl contents of
             Fail _ \<Rightarrow> Fail s
           | NoResult \<Rightarrow> NoResult
           | Ok _ contents \<Rightarrow>
               if constructed tag then on_contents contents (\<lambda>s. cbs_convert_ber n al oc ct False (d + 1) s) s
               else on_cbb (CBB_add_bytes al oc contents) s)"

definition element_done :: "allocator \<Rightarrow> nat \<Rightarrow> u32 \<Rightarrow> u32 \<Rightarrow> CBS \<Rightarrow> cbb_buffer_st \<Rightarrow> cbb_child list \<Rightarrow> CBS \<Rightarrow> CBB \<Rightarrow> bool" where
  "element_done al d st tag inp b1 cs1 inp2 cbb \<longleftrightarrow>
     (\<exists>c b2. cbb = \<lparr>cb_base = Some b2, cb_children = cs1\<rparr> \<and> becomes al b1 (buf_data b1 @ c) b2 \<and>
        (fitting st tag c \<longrightarrow> (\<forall>rest out tail. ber_der d st rest out \<longrightarrow> inp2 = rest @ tail \<longrightarrow>
           (\<exists>body. inp = body @ tail \<and> ber_der d st body (wrap st tag c @ out)))))"

lemma contents_run_sound:
  assumes IH: "\<And>p st eoc d inp b cs. live b cs \<Longrightarrow> split_children p cs = Some (cs, []) \<Longrightarrow> length inp < 2 ^ 63 \<Longrightarrow>
      converts al d st eoc inp b cs n (cbs_convert_ber n al p st eoc d (inp, \<lparr>cb_base = Some b, cb_children = cs\<rparr>))"
    and al: "sized al" and l: "length inp < 2 ^ 63" and d: "d \<le> kMaxDepth"
    and parse: "CBS_get_any_ber_asn1_element inp = Ok (contents, tag, hl, ber) inp1" and eoc: "\<not> is_eoc hl contents"
    and live: "live b1 cs1" "split_children oc cs1 = Some (cs1, [])"
  shows "case contents_run n al (child_tag st tag) d contents hl tag oc (inp1, \<lparr>cb_base = Some b1, cb_children = cs1\<rparr>) of
      Ok _ (inp2, cbb) \<Rightarrow> length inp2 \<le> length inp1 \<and> element_done al d st tag inp b1 cs1 inp2 cbb
    | Fail _ \<Rightarrow> True
    | NoResult \<Rightarrow> n < length inp"
proof -
  note f = element_forms[OF l parse]
  let ?cbb1 = "\<lparr>cb_base = Some b1, cb_children = cs1\<rparr>"
  have l1: "length inp1 < 2 ^ 63" and less: "length inp1 < length inp" using f(1,2) l by auto
  show ?thesis
  proof (cases "indefinite_header hl contents")
    case True
    then have c: "constructed tag" "contents = der_tag tag @ [0x80]" using f(3) by auto
    let ?r = "cbs_convert_ber n al oc (child_tag st tag) True (d + 1) (inp1, ?cbb1)"
    have run: "contents_run n al (child_tag st tag) d contents hl tag oc (inp1, ?cbb1) = ?r"
      using True by (simp add: contents_run_def)
    have cv: "converts al (Suc d) (child_tag st tag) True inp1 b1 cs1 n ?r" using IH[OF live l1, of "Suc d"] by simp
    show ?thesis
    proof (cases ?r)
      case (Ok u s)
      obtain inp2 cbb where s: "s = (inp2, cbb)" by (cases s)
      obtain body inner b2 where o: "inp1 = body @ [0, 0] @ inp2" "ber_der (Suc d) (child_tag st tag) body inner"
        "cbb = \<lparr>cb_base = Some b2, cb_children = cs1\<rparr>" "becomes al b1 (buf_data b1 @ inner) b2"
        using cv unfolding converts_def Ok s by auto
      have "\<exists>body. inp = body @ tail \<and> ber_der d st body (wrap st tag inner @ out)"
        if "fitting st tag inner" "ber_der d st rest out" "inp2 = rest @ tail" for rest out tail
        using ber_der.indefinite[OF d c(1) o(2) that(1,2)] f(1) c(2) o(1) that(3)
        by (intro exI[of _ "der_tag tag @ 0x80 # body @ 0 # 0 # rest"]) simp
      then have "element_done al d st tag inp b1 cs1 inp2 cbb" using o(3,4) unfolding element_done_def by blast
      then show ?thesis using o(1) unfolding run Ok s by simp
    next
      case NoResult
      then show ?thesis using cv less unfolding run by (simp add: converts_def)
    qed (simp add: run)
  next
    case False
    then obtain lb c where c: "ber_length (length c) lb" "contents = der_tag tag @ lb @ c" "CBS_skip hl contents = Ok () c"
      "length c < length contents" "hl = of_nat (length (der_tag tag @ lb))" using f(3) by auto
    have lc: "length c < 2 ^ 63" "length c < length inp" using c(4) f(1) l by auto
    show ?thesis
    proof (cases "constructed tag")
      case con: True
      let ?r = "cbs_convert_ber n al oc (child_tag st tag) False (d + 1) (c, ?cbb1)"
      have run: "contents_run n al (child_tag st tag) d contents hl tag oc (inp1, ?cbb1) =
          (case ?r of Ok v (_, cbb) \<Rightarrow> Ok v (inp1, cbb) | Fail (_, cbb) \<Rightarrow> Fail (inp1, cbb) | NoResult \<Rightarrow> NoResult)"
        using False c(3) con by (simp add: contents_run_def)
      have cv: "converts al (Suc d) (child_tag st tag) False c b1 cs1 n ?r" using IH[OF live lc(1), of "Suc d"] by simp
      show ?thesis
      proof (cases ?r)
        case (Ok u s)
        obtain inp2 cbb where s: "s = (inp2, cbb)" by (cases s)
        obtain inner b2 where o: "ber_der (Suc d) (child_tag st tag) c inner"
          "cbb = \<lparr>cb_base = Some b2, cb_children = cs1\<rparr>" "becomes al b1 (buf_data b1 @ inner) b2"
          using cv unfolding converts_def Ok s by auto
        have "\<exists>body. inp = body @ tail \<and> ber_der d st body (wrap st tag inner @ out)"
          if "fitting st tag inner" "ber_der d st rest out" "inp1 = rest @ tail" for rest out tail
          using ber_der.definite[OF d con c(1) o(1) that(1,2)] f(1) c(2) that(3)
          by (intro exI[of _ "der_tag tag @ lb @ c @ rest"]) simp
        then have "element_done al d st tag inp b1 cs1 inp1 cbb" using o(2,3) unfolding element_done_def by blast
        then show ?thesis unfolding run Ok s by simp
      next
        case (Fail s)
        then show ?thesis unfolding run by (cases s) simp
      next
        case NoResult
        then show ?thesis using cv lc(2) unfolding run by (simp add: converts_def)
      qed
    next
      case prim: False
      have run: "contents_run n al (child_tag st tag) d contents hl tag oc (inp1, ?cbb1) =
          (case CBB_add_bytes al oc c ?cbb1 of Ok v cbb \<Rightarrow> Ok v (inp1, cbb) | Fail cbb \<Rightarrow> Fail (inp1, cbb) | NoResult \<Rightarrow> NoResult)"
        using False c(3) prim by (simp add: contents_run_def)
      have add: "cmakes al (CBB_add_bytes al oc c) b1 cs1 () (buf_data b1 @ c) cs1 True"
        using appendsD[OF bytes_appends[OF al, of c oc] live] lc(1) by simp
      have ne: "der_tag tag @ lb @ c \<noteq> [0, 0]"
      proof
        assume z: "der_tag tag @ lb @ c = [0, 0]"
        have "lb \<noteq> []" using c(1) by (auto simp: ber_length_def)
        then have "c = []" "length (der_tag tag @ lb) = 2"
          using z length_der_tag(1)[of tag] by (auto simp: append_eq_Cons_conv)
        then show False using eoc z c(2,5) f(1) l by (simp add: eoc_iff)
      qed
      show ?thesis
      proof (cases "CBB_add_bytes al oc c ?cbb1")
        case (Ok u cbb)
        then obtain b2 where o: "cbb = \<lparr>cb_base = Some b2, cb_children = cs1\<rparr>" "becomes al b1 (buf_data b1 @ c) b2"
          using cmakes_Ok[OF add] by blast
        have "\<exists>body. inp = body @ tail \<and> ber_der d st body (wrap st tag c @ out)"
          if "fitting st tag c" "ber_der d st rest out" "inp1 = rest @ tail" for rest out tail
          using ber_der.primitive[OF d prim c(1) ne that(1,2)] f(1) c(2) that(3)
          by (intro exI[of _ "der_tag tag @ lb @ c @ rest"]) simp
        then have "element_done al d st tag inp b1 cs1 inp1 cbb" using o unfolding element_done_def by blast
        then show ?thesis unfolding run Ok by simp
      next
        case NoResult
        then show ?thesis using cmakes_NoResult[OF add] by simp
      qed (simp add: run)
    qed
  qed
qed

lemma convert_round:
  assumes "\<not> kMaxDepth < depth" and "CBS_len inp \<noteq> 0" and "CBS_get_any_ber_asn1_element inp = Ok (contents, tag, hl, ber) inp1"
    and "\<not> is_eoc hl contents"
  shows "cbs_convert_ber (Suc n) al out st eoc depth (inp, cbb) =
    bindo (on_cbb (begin_element al out st tag) (inp1, cbb)) (\<lambda>(oc, ct) s.
      bindo (contents_run n al ct depth contents hl tag oc s) (\<lambda>_ s.
        bindo (on_cbb (CBB_flush al out) s) (\<lambda>_ s. cbs_convert_ber n al out st eoc depth s)))"
  using assms by (simp add: contents_run_def indefinite_header_def[symmetric] cong: if_cong)

lemma convert_sound:
  assumes al: "sized al"
  shows "live b cs \<Longrightarrow> split_children p cs = Some (cs, []) \<Longrightarrow> length inp < 2 ^ 63 \<Longrightarrow>
    converts al d st eoc inp b cs n (cbs_convert_ber n al p st eoc d (inp, \<lparr>cb_base = Some b, cb_children = cs\<rparr>))"
proof (induction n arbitrary: p st eoc d inp b cs)
  case 0
  then show ?case by (simp add: converts_def)
next
  case (Suc n)
  let ?cbb = "\<lparr>cb_base = Some b, cb_children = cs\<rparr>"
  let ?r = "cbs_convert_ber (Suc n) al p st eoc d (inp, ?cbb)"
  note live = Suc.prems(1,2) and l = Suc.prems(3)
  have wf: "becomes al b (buf_data b @ []) b" using live(1) becomes_refl[of b al] by (simp add: live_def)
  consider (deep) "kMaxDepth < d" | (stop) "\<not> kMaxDepth < d" "CBS_len inp = 0"
    | (no) s where "\<not> kMaxDepth < d" "CBS_len inp \<noteq> 0" "CBS_get_any_ber_asn1_element inp = Fail s"
    | (element) contents tag hl ber inp1 where "\<not> kMaxDepth < d" "CBS_len inp \<noteq> 0"
        "CBS_get_any_ber_asn1_element inp = Ok (contents, tag, hl, ber) inp1"
    using ber_parser_total(1)[of inp] by (cases "CBS_get_any_ber_asn1_element inp") auto
  then show ?case
  proof cases
    case deep
    then show ?thesis by (simp add: converts_def)
  next
    case stop
    then have "inp = []" using CBS_len_0[of inp] l by simp
    then show ?thesis using stop wf ber_der.nil[of d st] by (auto simp: converts_def not_less)
  next
    case no
    then show ?thesis by (simp add: converts_def)
  next
    case element
    note f = element_forms[OF l element(3)]
    have d: "d \<le> kMaxDepth" using element(1) by simp
    show ?thesis
    proof (cases "is_eoc hl contents")
      case True
      then have "contents = [0, 0]" using eoc_iff f(1) l by simp
      then show ?thesis using True element f(1) wf ber_der.nil[OF d, of st] by (auto simp: converts_def)
    next
      case eoc: False
      note run = convert_round[OF element eoc, of n al p st eoc ?cbb]
      show ?thesis
      proof (cases "begin_element al p st tag ?cbb")
        case (Fail s)
        then show ?thesis unfolding run by (simp add: converts_def)
      next
        case NoResult
        then show ?thesis using begin_element_opens[OF al live, of st tag] by simp
      next
        case bgn: (Ok oct cbb1)
        obtain oc ct where oct: "oct = (oc, ct)" by (cases oct)
        obtain b1 cs1 where o: "ct = child_tag st tag" "st \<noteq> 0 \<Longrightarrow> primitive_tag tag = st"
          "cbb1 = \<lparr>cb_base = Some b1, cb_children = cs1\<rparr>" "opens al p st tag b cs oc b1 cs1"
          using begin_element_opens[OF al live, of st tag] unfolding bgn oct by auto
        have live1: "live b1 cs1" "split_children oc cs1 = Some (cs1, [])" using o(4) by (simp_all add: opens_def)
        note c = contents_run_sound[where st = st, OF Suc.IH al l d element(3) eoc live1, folded o(1,3)]
        let ?c = "contents_run n al ct d contents hl tag oc (inp1, cbb1)"
        have r1: "?r = bindo ?c (\<lambda>_ s. bindo (on_cbb (CBB_flush al p) s) (\<lambda>_ s. cbs_convert_ber n al p st eoc d s))"
          unfolding run by (simp add: bgn oct)
        show ?thesis
        proof (cases ?c)
          case (Fail s)
          then show ?thesis unfolding r1 by (simp add: converts_def)
        next
          case NoResult
          then show ?thesis using c unfolding r1 by (simp add: converts_def)
        next
          case mid: (Ok u s)
          obtain inp2 cbb2 where s: "s = (inp2, cbb2)" by (cases s)
          have inp2: "length inp2 \<le> length inp1" and elt: "element_done al d st tag inp b1 cs1 inp2 cbb2"
            using c unfolding mid s by auto
          obtain x b2 where b2: "cbb2 = \<lparr>cb_base = Some b2, cb_children = cs1\<rparr>" "becomes al b1 (buf_data b1 @ x) b2"
            and tail: "\<And>rest out tail. fitting st tag x \<Longrightarrow> ber_der d st rest out \<Longrightarrow> inp2 = rest @ tail \<Longrightarrow>
              \<exists>body. inp = body @ tail \<and> ber_der d st body (wrap st tag x @ out)"
            using elt unfolding element_done_def by blast
          have fl: "cmakes al (CBB_flush al p) b2 cs1 () (buf_data b @ wrap st tag x) cs (st = 0 \<longrightarrow> length x \<le> 0xfffffffe)"
            and lim: "limit al b \<le> limit al b2" using o(4) b2(2) by (simp_all add: opens_def)
          let ?f = "CBB_flush al p \<lparr>cb_base = Some b2, cb_children = cs1\<rparr>"
          show ?thesis
          proof (cases ?f)
            case (Fail t)
            then show ?thesis unfolding r1 mid s b2(1) by (simp add: converts_def)
          next
            case NoResult
            then show ?thesis using cmakes_NoResult[OF fl] by simp
          next
            case flush: (Ok v cbb3)
            obtain b3 where b3: "st = 0 \<longrightarrow> length x \<le> 0xfffffffe" "cbb3 = \<lparr>cb_base = Some b3, cb_children = cs\<rparr>"
              "becomes al b2 (buf_data b @ wrap st tag x) b3" using cmakes_Ok[OF fl flush] by blast
            have fit: "fitting st tag x" using b3(1) o(2) by (simp add: fitting_def)
            have err: "bf_error b2 = bf_error b" using live1(1) live(1) b2(2) by (simp add: live_def becomes_def)
            have b3': "becomes al b (buf_data b @ wrap st tag x) b3" using b3(3) lim err by (auto simp: becomes_def)
            have "start_of cs \<le> length (buf_data b @ wrap st tag x)" using start_le_flushed[of b cs "[]"] live(1) by simp
            then have l3: "live b3 cs" using live_becomes[of b cs "[]", OF _ b3'] live(1) by simp
            have "length inp = length contents + length inp1" "0 < length contents" using f(1,2) by simp_all
            then have linp2: "length inp2 < 2 ^ 63" "length inp2 < length inp" using inp2 l by linarith+
            let ?q = "cbs_convert_ber n al p st eoc d (inp2, cbb3)"
            have rr: "?r = ?q" unfolding r1 mid s b2(1) by (simp add: flush)
            have "converts al d st eoc inp2 b3 cs n ?q" unfolding b3(2) by (rule Suc.IH[OF l3 live(2) linp2(1)])
            then show ?thesis
            proof (cases ?q)
              case (Ok w t)
              obtain inp' cbb' where t: "t = (inp', cbb')" by (cases t)
              obtain body out b' where e: "inp2 = body @ (if eoc then [0, 0] @ inp' else [])" "\<not> eoc \<longrightarrow> inp' = []"
                "ber_der d st body out" "cbb' = \<lparr>cb_base = Some b', cb_children = cs\<rparr>" "becomes al b3 (buf_data b3 @ out) b'"
                using \<open>converts al d st eoc inp2 b3 cs n ?q\<close> unfolding converts_def Ok t by auto
              obtain body' where body': "inp = body' @ (if eoc then [0, 0] @ inp' else [])" "ber_der d st body' (wrap st tag x @ out)"
                using tail[OF fit e(3,1)] by blast
              have "becomes al b (buf_data b @ wrap st tag x @ out) b'"
                using becomes_trans[OF b3' e(5)] b3' by (simp add: becomes_def)
              then show ?thesis using body' e(2,4) unfolding rr Ok t converts_def by auto
            next
              case NoResult
              then show ?thesis using \<open>converts al d st eoc inp2 b3 cs n ?q\<close> linp2(2) unfolding rr by (simp add: converts_def)
            next
              case (Fail t)
              then show ?thesis unfolding rr by (simp add: converts_def)
            qed
          qed
        qed
      qed
    qed
  qed
qed

section \<open>The output is DER\<close>

lemma primitive_not_constructed: "\<not> constructed (primitive_tag tag)"
proof -
  have "(t AND NOT x) AND x = 0" for t x :: u32 by (rule bit_word_eqI) (auto simp: bit_simps)
  then show ?thesis unfolding constructed_def primitive_tag_def by blast
qed

lemma parse_der:
  assumes "length (der_element t c @ rest) < 2 ^ 63" and "length c < 2 ^ 32"
  shows "\<exists>hl. CBS_get_any_ber_asn1_element (der_element t c @ rest) = Ok (der_element t c, t, hl, False) rest \<and> CBS_skip hl (der_element t c) = Ok () c"
proof -
  let ?hl = "of_nat (length (der_header t (length c))) :: u64"
  have "CBS_get_any_asn1_element (der_element t c @ rest) = Ok (der_element t c, t, ?hl) rest"
    using assms(2) unfolding der_element_iff[OF assms(1)] by (intro exI[of _ c]) simp
  then have "CBS_get_any_ber_asn1_element (der_element t c @ rest) = Ok (der_element t c, t, ?hl, False) rest"
    unfolding CBS_get_any_asn1_element_def CBS_get_any_ber_asn1_element_def bindo_eq_Ok using ber_flag by fastforce
  moreover have "unat ?hl = length (der_header t (length c))"
    using assms(1) by (simp add: der_element_def unat_of_nat take_bit_nat_eq_self)
  then have "CBS_skip ?hl (der_element t c) = Ok () c" by (simp add: CBS_skip_def cbs_get_def der_element_def)
  ultimately show ?thesis by blast
qed

lemma ber_der_depth: "ber_der d st body out \<Longrightarrow> d \<le> kMaxDepth"
  by (cases rule: ber_der.cases) auto

lemma find_ber_element:
  assumes "length (der_element t c @ rest) < 2 ^ 63" and "length c \<le> 0xfffffffe"
    and "constructed t \<Longrightarrow> \<not> is_string_type t \<and> d + 1 \<le> kMaxDepth \<and> find_ber_loop c False (d + 1) = Some False"
  shows "find_ber_loop (der_element t c @ rest) found d = find_ber_loop rest False d"
proof -
  obtain hl where p: "CBS_get_any_ber_asn1_element (der_element t c @ rest) = Ok (der_element t c, t, hl, False) rest"
    "CBS_skip hl (der_element t c) = Ok () c" using parse_der[OF assms(1)] assms(2) by fastforce
  have "der_element t c @ rest \<noteq> []" using ber_element_progress[OF p(1)] by simp
  then have "CBS_len (der_element t c @ rest) \<noteq> 0" using CBS_len_0[of "der_element t c @ rest"] assms(1) by simp
  then show ?thesis using assms(3) p by (subst find_ber_loop.simps) (auto simp: not_less)
qed

lemma output_der:
  assumes "ber_der d st body out" and "st = 0" and "length out < 2 ^ 63"
  shows "find_ber_loop out False d = Some False"
  using assms
proof (induction rule: ber_der.induct)
  case (nil d st)
  then show ?case by (simp add: find_ber_loop.simps CBS_len_def)
next
  case (primitive d tag c lb st rest out)
  then have "length (der_element tag c @ out) < 2 ^ 63" by (simp add: wrap_def joined_def)
  from find_ber_element[OF this, of d False] show ?case using primitive by (simp add: wrap_def joined_def fitting_def)
next
  case (definite d tag body lb st inner rest out)
  have l: "length (der_element (if joined tag then primitive_tag tag else tag) inner @ out) < 2 ^ 63"
    using definite.prems by (simp add: wrap_def)
  from find_ber_element[OF l, of d False] show ?case
    using definite ber_der_depth[OF definite.hyps(4)]
    by (auto simp: wrap_def fitting_def child_tag_def primitive_not_constructed joined_def der_element_def split: if_splits)
next
  case (indefinite d tag st body inner rest out)
  have l: "length (der_element (if joined tag then primitive_tag tag else tag) inner @ out) < 2 ^ 63"
    using indefinite.prems by (simp add: wrap_def)
  from find_ber_element[OF l, of d False] show ?case
    using indefinite ber_der_depth[OF indefinite.hyps(3)]
    by (auto simp: wrap_def fitting_def child_tag_def primitive_not_constructed joined_def der_element_def split: if_splits)
qed

lemma length_der_length_5: "n \<le> 0xfffffffe \<Longrightarrow> length (der_length n) \<le> 5"
  using byte_len_small[of n] by (cases "n = 0") (auto simp: der_length_def)

lemma length_wrap: "fitting st tag c \<Longrightarrow> length (wrap st tag c) \<le> 16 + length c"
  using length_der_tag(2)[of "if joined tag then primitive_tag tag else tag"] length_der_length_5[of "length c"]
  by (auto simp: wrap_def fitting_def der_element_def der_header_def)

lemma output_length: "ber_der d st body out \<Longrightarrow> length out \<le> 8 * length body"
proof (induction rule: ber_der.induct)
  case (primitive d tag c lb st rest out)
  have "lb \<noteq> []" using primitive.hyps(3) by (auto simp: ber_length_def)
  then have "2 \<le> length (der_tag tag) + length lb" using length_der_tag(1)[of tag] by (cases lb) auto
  then show ?case using length_wrap[OF primitive.hyps(5)] primitive.IH by simp
next
  case (definite d tag body lb st inner rest out)
  have "lb \<noteq> []" using definite.hyps(3) by (auto simp: ber_length_def)
  then have "2 \<le> length (der_tag tag) + length lb" using length_der_tag(1)[of tag] by (cases lb) auto
  then show ?case using length_wrap[OF definite.hyps(5)] definite.IH by simp
next
  case (indefinite d tag st body inner rest out)
  then show ?case using length_wrap[OF indefinite.hyps(4)] length_der_tag(1)[of tag] by simp
qed simp

end
