(* ===== verification/Ber_Exact.thy ===== *)
theory Ber_Exact
  imports Ber
begin

text \<open>
  What CBS_asn1_ber_to_der and CBS_get_asn1_implicit_string return (src/crypto/bytestring/ber.c):
  the conversion succeeds on exactly the inputs that the rules of ber_der take, and its output is
  the one that they give.
\<close>

section \<open>Every input of the rules is converted\<close>

lemma not_80: "ber_length (length c) lb \<Longrightarrow> lb @ c \<noteq> [0x80]"
proof
  assume l: "ber_length (length c) lb" and e: "lb @ c = [0x80]"
  have "lb \<noteq> []" using l by (auto simp: ber_length_def)
  then have "c = []" "lb = [0x80]" using e by (auto simp: append_eq_Cons_conv)
  then show False using l last_ber_length[of lb] by simp
qed

lemma constructed_first: "constructed tag \<Longrightarrow> der_tag tag @ xs \<noteq> [0, 0]"
proof
  assume c: "constructed tag" and e: "der_tag tag @ xs = [0, 0]"
  have "tag_class tag = 0" using e by (auto simp: der_tag_def or_eq_0_iff split: if_splits)
  then have "\<not> bit (tag_class tag) 5" by simp
  then have "\<not> bit tag 29" by (simp add: tag_class_def bit_simps const_bits)
  moreover have "bit CBS_ASN1_CONSTRUCTED n \<longleftrightarrow> n = 29" for n
    using bit_push_bit_iff[of 29 "1 :: u32" n] by (auto simp: bit_1_iff)
  ultimately have "tag AND CBS_ASN1_CONSTRUCTED = 0" by (intro bit_word_eqI) (auto simp: bit_simps)
  then show False using c by (simp add: constructed_def)
qed

lemma definite_parse:
  assumes l: "length (der_tag tag @ lb @ c @ rest) < 2 ^ 63" and lb: "ber_length (length c) lb" and ne: "der_tag tag @ lb @ c \<noteq> [0, 0]"
  shows "\<exists>contents hl ber. CBS_get_any_ber_asn1_element (der_tag tag @ lb @ c @ rest) = Ok (contents, tag, hl, ber) rest \<and>
    \<not> is_eoc hl contents \<and> \<not> indefinite_header hl contents \<and> CBS_skip hl contents = Ok () c"
proof -
  let ?o = "der_tag tag @ lb @ c" and ?hl = "of_nat (length (der_tag tag @ lb)) :: u64"
  obtain ber where p: "CBS_get_any_ber_asn1_element (?o @ rest) = Ok (?o, tag, ?hl, ber) rest"
    using ber_element_complete[OF l lb] unfolding CBS_get_any_ber_asn1_element_def by auto
  have "\<not> is_eoc ?hl ?o" using eoc_iff[of ?o] l ne by simp
  moreover have "\<not> indefinite_header ?hl ?o" using element_forms(3)[OF _ p] l not_80[OF lb] by auto
  moreover have "length (der_tag tag @ lb) < 2 ^ 64" using l by simp
  then have "unat ?hl = length (der_tag tag @ lb)" by (simp add: unat_of_nat take_bit_nat_eq_self del: of_nat_add length_append)
  then have "CBS_skip ?hl ?o = Ok () c" by (simp add: CBS_skip_def cbs_get_def)
  ultimately show ?thesis using p by auto
qed

lemma indefinite_parse:
  assumes l: "length (der_tag tag @ 0x80 # rest) < 2 ^ 63" and c: "constructed tag"
  shows "\<exists>contents hl ber. CBS_get_any_ber_asn1_element (der_tag tag @ 0x80 # rest) = Ok (contents, tag, hl, ber) rest \<and>
    \<not> is_eoc hl contents \<and> indefinite_header hl contents"
proof -
  let ?o = "der_tag tag @ [0x80]" and ?hl = "of_nat (length (der_tag tag @ [0x80])) :: u64"
  have p: "CBS_get_any_ber_asn1_element (der_tag tag @ 0x80 # rest) = Ok (?o, tag, ?hl, True) rest"
    using indefinite_complete[of tag rest] c unfolding CBS_get_any_ber_asn1_element_def constructed_def by simp
  have "\<not> is_eoc ?hl ?o" using eoc_iff[of ?o] l constructed_first[OF c, of "[0x80]"] by simp
  moreover have "indefinite_header ?hl ?o" using element_forms(3)[OF l p] not_80 by (metis same_append_eq)
  ultimately show ?thesis using p by blast
qed

lemma eoc_parse:
  assumes "length (0 # 0 # rest :: bytes) < 2 ^ 63"
  shows "\<exists>contents tag hl ber. CBS_get_any_ber_asn1_element (0 # 0 # rest) = Ok (contents, tag, hl, ber) rest \<and> is_eoc hl contents"
proof -
  have "der_tag 0 = [0]" "ber_length 0 [0]" by (simp_all add: der_tag_def tag_number_def tag_class_def ber_length_def)
  then obtain ber where "CBS_get_any_ber_asn1_element (0 # 0 # rest) = Ok ([0, 0], 0, 2, ber) rest"
    using ber_element_complete[of 0 "[0]" "[]" rest] assms unfolding CBS_get_any_ber_asn1_element_def by auto
  then show ?thesis using eoc_iff[of "[0, 0]" 2] by auto
qed

text \<open>What a call that succeeds returns.\<close>

definition converted :: "allocator \<Rightarrow> cbb_buffer_st \<Rightarrow> cbb_child list \<Rightarrow> bytes \<Rightarrow> CBS \<Rightarrow> (unit, CBS \<times> CBB) outcome \<Rightarrow> bool" where
  "converted al b cs out inp r \<longleftrightarrow>
     (\<exists>b'. r = Ok () (inp, \<lparr>cb_base = Some b', cb_children = cs\<rparr>) \<and> becomes al b (buf_data b @ out) b')"

lemma round_completes:
  assumes al: "sized al" and live: "live b cs" "split_children p cs = Some (cs, [])" and d: "d \<le> kMaxDepth"
    and l: "length inp < 2 ^ 63" and inp: "CBS_get_any_ber_asn1_element inp = Ok (contents, tag, hl, ber) inp1" "\<not> is_eoc hl contents"
    and fit: "fitting st tag x" and room: "length (buf_data b) + 12 \<le> limit al b" "length (buf_data b @ wrap st tag x) \<le> limit al b"
    and run: "\<And>oc b1 cs1. live b1 cs1 \<Longrightarrow> split_children oc cs1 = Some (cs1, []) \<Longrightarrow> limit al b \<le> limit al b1 \<Longrightarrow>
      length (buf_data b1) \<le> length (buf_data b) + 12 \<Longrightarrow>
      converted al b1 cs1 x inp2 (contents_run n al (child_tag st tag) d contents hl tag oc (inp1, \<lparr>cb_base = Some b1, cb_children = cs1\<rparr>))"
    and rest: "\<And>b3. live b3 cs \<Longrightarrow> limit al b \<le> limit al b3 \<Longrightarrow> buf_data b3 = buf_data b @ wrap st tag x \<Longrightarrow>
      converted al b3 cs out inp' (cbs_convert_ber n al p st eoc d (inp2, \<lparr>cb_base = Some b3, cb_children = cs\<rparr>))"
  shows "converted al b cs (wrap st tag x @ out) inp' (cbs_convert_ber (Suc n) al p st eoc d (inp, \<lparr>cb_base = Some b, cb_children = cs\<rparr>))"
proof -
  let ?cbb = "\<lparr>cb_base = Some b, cb_children = cs\<rparr>"
  have "inp \<noteq> []" using ber_element_progress[OF inp(1)] by auto
  then have "\<not> kMaxDepth < d" "CBS_len inp \<noteq> 0" using d CBS_len_0[of inp] l by auto
  note round = convert_round[OF this inp, of n al p st eoc ?cbb]
  have "st \<noteq> 0 \<longrightarrow> primitive_tag tag = st" using fit by (simp add: fitting_def)
  then obtain oc b1 cs1 where bgn: "begin_element al p st tag ?cbb = Ok (oc, child_tag st tag) \<lparr>cb_base = Some b1, cb_children = cs1\<rparr>"
    and o: "opens al p st tag b cs oc b1 cs1"
    using begin_element_opens[OF al live, of st tag] room(1) by (auto split: outcome.splits)
  have b1: "live b1 cs1" "split_children oc cs1 = Some (cs1, [])" "length (buf_data b1) \<le> length (buf_data b) + 12"
    using o by (simp_all add: opens_def)
  have "becomes al b1 (buf_data b1 @ []) b1" using b1(1) becomes_refl[of b1 al] by (simp add: live_def)
  then have lim1: "limit al b \<le> limit al b1" using o unfolding opens_def by blast
  obtain b2 where b2: "contents_run n al (child_tag st tag) d contents hl tag oc (inp1, \<lparr>cb_base = Some b1, cb_children = cs1\<rparr>) =
      Ok () (inp2, \<lparr>cb_base = Some b2, cb_children = cs1\<rparr>)" "becomes al b1 (buf_data b1 @ x) b2"
    using run[OF b1(1,2) lim1 b1(3)] by (auto simp: converted_def)
  have fl: "cmakes al (CBB_flush al p) b2 cs1 () (buf_data b @ wrap st tag x) cs (st = 0 \<longrightarrow> length x \<le> 0xfffffffe)"
    and lim2: "limit al b \<le> limit al b2" using o b2(2) by (simp_all add: opens_def)
  have ok: "st = 0 \<longrightarrow> length x \<le> 0xfffffffe" "length (buf_data b @ wrap st tag x) \<le> limit al b2"
    using fit room(2) lim2 by (simp_all add: fitting_def)
  obtain b3 where b3: "CBB_flush al p \<lparr>cb_base = Some b2, cb_children = cs1\<rparr> = Ok () \<lparr>cb_base = Some b3, cb_children = cs\<rparr>"
    "becomes al b2 (buf_data b @ wrap st tag x) b3"
    using fl ok by (auto simp: cmakes_def split: outcome.splits)
  have "bf_error b2 = bf_error b" using b1(1) live(1) b2(2) by (simp add: live_def becomes_def)
  then have b3': "becomes al b (buf_data b @ wrap st tag x) b3" using b3(2) lim2 by (auto simp: becomes_def)
  have "start_of cs \<le> length (buf_data b @ wrap st tag x)" using start_le_flushed[of b cs "[]"] live(1) by simp
  then have "live b3 cs" using live_becomes[of b cs "[]", OF _ b3'] live(1) by simp
  then obtain b' where "cbs_convert_ber n al p st eoc d (inp2, \<lparr>cb_base = Some b3, cb_children = cs\<rparr>) =
      Ok () (inp', \<lparr>cb_base = Some b', cb_children = cs\<rparr>)" "becomes al b3 (buf_data b3 @ out) b'"
    using rest[of b3] b3' by (auto simp: converted_def becomes_def)
  moreover from this have "becomes al b (buf_data b @ wrap st tag x @ out) b'"
    using becomes_trans[OF b3'] b3' by (auto simp: becomes_def)
  ultimately show ?thesis unfolding converted_def round by (simp add: bgn b2(1) b3(1))
qed

lemma header_two: "ber_length n lb \<Longrightarrow> 2 \<le> length (der_tag tag) + length lb"
  using length_der_tag(1)[of tag] by (cases lb) (auto simp: ber_length_def)

lemma limit_full: "2 ^ 64 - 1 \<le> limit al b \<longleftrightarrow> limit al b = 2 ^ 64 - 1"
  using unat_le_bound[of "bf_cap b"] by (auto simp: limit_def)

lemma convert_complete:
  assumes al: "sized al"
  shows "ber_der d st body out \<Longrightarrow> live b cs \<Longrightarrow> split_children p cs = Some (cs, []) \<Longrightarrow> limit al b = 2 ^ 64 - 1 \<Longrightarrow>
    length (buf_data b) + 8 * length body < 2 ^ 63 \<Longrightarrow> inp = body @ (if eoc then 0 # 0 # rest else []) \<Longrightarrow> (\<not> eoc \<longrightarrow> rest = []) \<Longrightarrow>
    length inp < n \<Longrightarrow> length inp < 2 ^ 63 \<Longrightarrow>
    converted al b cs out rest (cbs_convert_ber n al p st eoc d (inp, \<lparr>cb_base = Some b, cb_children = cs\<rparr>))"
proof (induction arbitrary: b cs p inp eoc rest n rule: ber_der.induct)
  case (nil d st)
  obtain m where n: "n = Suc m" using nil.prems(7) by (cases n) auto
  have b: "becomes al b (buf_data b @ []) b" using nil.prems(1) becomes_refl[of b al] by (simp add: live_def)
  show ?case
  proof (cases eoc)
    case True
    then have inp: "inp = 0 # 0 # rest" using nil.prems(5) by simp
    obtain contents tag hl ber where e: "CBS_get_any_ber_asn1_element inp = Ok (contents, tag, hl, ber) rest" "is_eoc hl contents"
      using eoc_parse[of rest] nil.prems(8) unfolding inp by blast
    have "CBS_len inp \<noteq> 0" using CBS_len_0[of inp] nil.prems(8) inp by simp
    then show ?thesis using nil.hyps e b True n by (auto simp: converted_def not_less)
  next
    case False
    then show ?thesis using nil.hyps nil.prems(5,6) b n by (auto simp: converted_def not_less CBS_len_def)
  qed
next
  case (primitive d tag c lb st body out)
  obtain m where n: "n = Suc m" using primitive.prems(7) by (cases n) auto
  let ?tail = "if eoc then 0 # 0 # rest else []"
  have inp: "inp = der_tag tag @ lb @ c @ (body @ ?tail)" using primitive.prems(5) by simp
  have two: "2 \<le> length (der_tag tag) + length lb" by (rule header_two[OF primitive.hyps(3)])
  obtain contents hl ber where e: "CBS_get_any_ber_asn1_element inp = Ok (contents, tag, hl, ber) (body @ ?tail)"
    "\<not> is_eoc hl contents" "\<not> indefinite_header hl contents" "CBS_skip hl contents = Ok () c"
    using definite_parse[OF primitive.prems(8)[unfolded inp] primitive.hyps(3,4)] unfolding inp by blast
  note w = length_wrap[OF primitive.hyps(5)]
  show ?case unfolding n
  proof (rule round_completes[OF al primitive.prems(1,2) primitive.hyps(1) primitive.prems(8) e(1,2) primitive.hyps(5)])
    show "length (buf_data b) + 12 \<le> limit al b" "length (buf_data b @ wrap st tag c) \<le> limit al b"
      using primitive.prems(3,4) w two by simp_all
  next
    fix oc b1 cs1 assume o: "live b1 cs1" "split_children oc cs1 = Some (cs1, [])" "limit al b \<le> limit al b1" "length (buf_data b1) \<le> length (buf_data b) + 12"
    have lc: "length c < 2 ^ 64" "length (buf_data b1 @ c) \<le> limit al b1" using primitive.prems(3,4) o(3,4) two by simp_all
    have "cmakes al (CBB_add_bytes al oc c) b1 cs1 () (buf_data b1 @ c) cs1 True" using appendsD[OF bytes_appends[OF al lc(1), of oc] o(1,2)] by simp
    then show "converted al b1 cs1 c (body @ ?tail)
        (contents_run m al (child_tag st tag) d contents hl tag oc (body @ ?tail, \<lparr>cb_base = Some b1, cb_children = cs1\<rparr>))"
      using lc(2) e(3,4) primitive.hyps(2) by (auto simp: contents_run_def converted_def cmakes_def split: outcome.splits)
  next
    fix b3 assume "live b3 cs" "limit al b \<le> limit al b3" "buf_data b3 = buf_data b @ wrap st tag c"
    then show "converted al b3 cs out rest (cbs_convert_ber m al p st eoc d (body @ ?tail, \<lparr>cb_base = Some b3, cb_children = cs\<rparr>))"
      using primitive.prems(2-8) w two limit_full[of al b3] unfolding n inp
      by (intro primitive.IH) (auto simp: limit_def)
  qed
next
  case (definite d tag body lb st inner body' out)
  obtain m where n: "n = Suc m" using definite.prems(7) by (cases n) auto
  let ?tail = "if eoc then 0 # 0 # rest else []"
  have inp: "inp = der_tag tag @ lb @ body @ (body' @ ?tail)" using definite.prems(5) by simp
  have two: "2 \<le> length (der_tag tag) + length lb" by (rule header_two[OF definite.hyps(3)])
  obtain contents hl ber where e: "CBS_get_any_ber_asn1_element inp = Ok (contents, tag, hl, ber) (body' @ ?tail)"
    "\<not> is_eoc hl contents" "\<not> indefinite_header hl contents" "CBS_skip hl contents = Ok () body"
    using definite_parse[OF definite.prems(8)[unfolded inp] definite.hyps(3) constructed_first[OF definite.hyps(2)]] unfolding inp by blast
  note w = length_wrap[OF definite.hyps(5)] and i = output_length[OF definite.hyps(4)]
  show ?case unfolding n
  proof (rule round_completes[OF al definite.prems(1,2) definite.hyps(1) definite.prems(8) e(1,2) definite.hyps(5)])
    show "length (buf_data b) + 12 \<le> limit al b" "length (buf_data b @ wrap st tag inner) \<le> limit al b"
      using definite.prems(3,4) w i two by simp_all
  next
    fix oc b1 cs1 assume o: "live b1 cs1" "split_children oc cs1 = Some (cs1, [])" "limit al b \<le> limit al b1" "length (buf_data b1) \<le> length (buf_data b) + 12"
    have "converted al b1 cs1 inner [] (cbs_convert_ber m al oc (child_tag st tag) False (Suc d) (body, \<lparr>cb_base = Some b1, cb_children = cs1\<rparr>))"
      using definite.prems(3,4,7,8) o two limit_full[of al b1] unfolding n inp by (intro definite.IH(1)) (auto simp: limit_def)
    then show "converted al b1 cs1 inner (body' @ ?tail)
        (contents_run m al (child_tag st tag) d contents hl tag oc (body' @ ?tail, \<lparr>cb_base = Some b1, cb_children = cs1\<rparr>))"
      using e(3,4) definite.hyps(2) by (auto simp: contents_run_def converted_def)
  next
    fix b3 assume "live b3 cs" "limit al b \<le> limit al b3" "buf_data b3 = buf_data b @ wrap st tag inner"
    then show "converted al b3 cs out rest (cbs_convert_ber m al p st eoc d (body' @ ?tail, \<lparr>cb_base = Some b3, cb_children = cs\<rparr>))"
      using definite.prems(2-8) w i two limit_full[of al b3] unfolding n inp
      by (intro definite.IH(2)) (auto simp: limit_def)
  qed
next
  case (indefinite d tag st body inner body' out)
  obtain m where n: "n = Suc m" using indefinite.prems(7) by (cases n) auto
  let ?tail = "if eoc then 0 # 0 # rest else []"
  let ?in1 = "body @ 0 # 0 # (body' @ ?tail)"
  have inp: "inp = der_tag tag @ 0x80 # ?in1" using indefinite.prems(5) by simp
  note one = length_der_tag(1)[of tag]
  obtain contents hl ber where e: "CBS_get_any_ber_asn1_element inp = Ok (contents, tag, hl, ber) ?in1"
    "\<not> is_eoc hl contents" "indefinite_header hl contents"
    using indefinite_parse[OF indefinite.prems(8)[unfolded inp] indefinite.hyps(2)] unfolding inp by blast
  note w = length_wrap[OF indefinite.hyps(4)] and i = output_length[OF indefinite.hyps(3)]
  show ?case unfolding n
  proof (rule round_completes[OF al indefinite.prems(1,2) indefinite.hyps(1) indefinite.prems(8) e(1,2) indefinite.hyps(4)])
    show "length (buf_data b) + 12 \<le> limit al b" "length (buf_data b @ wrap st tag inner) \<le> limit al b"
      using indefinite.prems(3,4) w i one by simp_all
  next
    fix oc b1 cs1 assume o: "live b1 cs1" "split_children oc cs1 = Some (cs1, [])" "limit al b \<le> limit al b1" "length (buf_data b1) \<le> length (buf_data b) + 12"
    have "converted al b1 cs1 inner (body' @ ?tail) (cbs_convert_ber m al oc (child_tag st tag) True (Suc d) (?in1, \<lparr>cb_base = Some b1, cb_children = cs1\<rparr>))"
      using indefinite.prems(3,4,7,8) o one limit_full[of al b1] unfolding n inp by (intro indefinite.IH(1)) (auto simp: limit_def)
    then show "converted al b1 cs1 inner (body' @ ?tail)
        (contents_run m al (child_tag st tag) d contents hl tag oc (?in1, \<lparr>cb_base = Some b1, cb_children = cs1\<rparr>))"
      using e(3) by (simp add: contents_run_def)
  next
    fix b3 assume "live b3 cs" "limit al b \<le> limit al b3" "buf_data b3 = buf_data b @ wrap st tag inner"
    then show "converted al b3 cs out rest (cbs_convert_ber m al p st eoc d (body' @ ?tail, \<lparr>cb_base = Some b3, cb_children = cs\<rparr>))"
      using indefinite.prems(2-8) w i one limit_full[of al b3] unfolding n inp
      by (intro indefinite.IH(2)) (auto simp: limit_def)
  qed
qed

section \<open>The output buffer\<close>

text \<open>A new output buffer.\<close>

lemma init_total: "CBB_init al ok cap \<noteq> NoResult"
  by (simp add: CBB_init_def cbb_init_def Let_def)

lemma init_Ok:
  assumes "CBB_init al ok cap = Ok u cbb" and "sized al"
  shows "\<exists>b. cbb = \<lparr>cb_base = Some b, cb_children = []\<rparr> \<and> live b [] \<and> buf_data b = []"
proof -
  obtain buf where buf: "buf = (case al cap of None \<Rightarrow> [] | Some m \<Rightarrow> m)" by blast
  have init: "CBB_init al ok cap = (if 0 < cap \<and> al cap = None then Fail CBB_zero else cbb_init ok buf cap CBB_zero)"
    by (simp only: CBB_init_def Let_def buf)
  have len: "\<not> (0 < cap \<and> al cap = None)"
  proof
    assume "0 < cap \<and> al cap = None"
    then show False using assms(1) unfolding init by simp
  qed
  then have "length buf = unat cap" using assms(2) unfolding buf sized_def by (cases "al cap") (auto simp: word_gt_0)
  moreover have "cbb = \<lparr>cb_base = Some \<lparr>bf_buf = buf, bf_len = 0, bf_cap = cap, bf_can_resize = True, bf_error = False\<rparr>, cb_children = []\<rparr>"
    using assms(1) len unfolding init cbb_init_def CBB_zero_def by (cases ok) simp_all
  ultimately show ?thesis by (simp add: live_def wf_buf_def buf_data_def)
qed

lemma ber_converted:
  assumes al: "sized al" and n: "length inp < 2 ^ 59" and ber: "cbs_find_ber inp 0 = Some True"
  shows "case CBS_asn1_ber_to_der al ok inp of
      Ok (out, None) rest \<Rightarrow> False
    | Ok (out, Some storage) rest \<Rightarrow> rest = [] \<and> ber_der 0 0 inp out \<and> cbs_find_ber out 0 = Some False
    | Fail _ \<Rightarrow> True
    | NoResult \<Rightarrow> False"
proof (cases "CBB_init al ok (CBS_len inp)")
  case (Ok u cbb)
  have "\<exists>b. cbb = \<lparr>cb_base = Some b, cb_children = []\<rparr> \<and> live b [] \<and> buf_data b = []"
    using init_Ok[OF Ok al] .
  then obtain b where b: "cbb = \<lparr>cb_base = Some b, cb_children = []\<rparr>" "live b []" "buf_data b = []" by blast
  let ?c = "cbs_convert_ber (Suc (length inp)) al None 0 False 0 (inp, cbb)"
  have l: "length inp < 2 ^ 63" using n by simp
  have cv: "converts al 0 0 False inp b [] (Suc (length inp)) ?c"
    unfolding b(1) by (rule convert_sound[OF al b(2) _ l]) simp
  show ?thesis
  proof (cases ?c)
    case conv: (Ok v s)
    obtain rest cbb' where s: "s = (rest, cbb')" by (cases s)
    obtain out b' where o: "rest = []" "ber_der 0 0 inp out" "cbb' = \<lparr>cb_base = Some b', cb_children = []\<rparr>" "becomes al b out b'"
      using cv b(3) unfolding converts_def conv s by auto
    have fin: "CBB_finish al None cbb' = Ok (bf_buf b', bf_len b') (CBB_cleanup None cbb')"
      using o(3,4) b(2) by (simp add: CBB_finish_def CBB_flush_def becomes_def live_def)
    have out: "take (unat (bf_len b')) (bf_buf b') = out" using o(4) by (simp add: becomes_def buf_data_def)
    have "length out < 2 ^ 63" using output_length[OF o(2)] n by simp
    then have "cbs_find_ber out 0 = Some False" using output_der[OF o(2)] by (simp add: cbs_find_ber_def)
    then show ?thesis using o fin out conv s Ok ber by (simp add: CBS_asn1_ber_to_der_def)
  next
    case (Fail s)
    then show ?thesis using Ok ber by (cases s) (simp add: CBS_asn1_ber_to_der_def)
  next
    case NoResult
    then show ?thesis using cv by (simp add: converts_def)
  qed
next
  case (Fail s)
  then show ?thesis using ber by (simp add: CBS_asn1_ber_to_der_def)
next
  case NoResult
  then show ?thesis by (simp add: init_total)
qed

lemma ber_converted_complete:
  assumes al: "sized al" "never_fails al" and n: "length inp < 2 ^ 59" and ber: "cbs_find_ber inp 0 = Some True"
    and out: "ber_der 0 0 inp out"
  shows "\<exists>storage. CBS_asn1_ber_to_der al True inp = Ok (out, Some storage) []"
proof -
  obtain b where b: "CBB_init al True (CBS_len inp) = Ok () \<lparr>cb_base = Some b, cb_children = []\<rparr>" "live b []" "buf_data b = []"
    "limit al b = 2 ^ 64 - 1" using init_live[OF al] by blast
  have sp: "split_children None [] = Some ([], [])" by simp
  have "converted al b [] out [] (cbs_convert_ber (Suc (length inp)) al None 0 False 0 (inp, \<lparr>cb_base = Some b, cb_children = []\<rparr>))"
    by (rule convert_complete[OF al(1) out b(2) sp b(4), where eoc = False]) (use n b(3) in auto)
  then obtain b' where c: "cbs_convert_ber (Suc (length inp)) al None 0 False 0 (inp, \<lparr>cb_base = Some b, cb_children = []\<rparr>) =
      Ok () ([], \<lparr>cb_base = Some b', cb_children = []\<rparr>)" "becomes al b out b'" using b(3) by (auto simp: converted_def)
  have "CBB_finish al None \<lparr>cb_base = Some b', cb_children = []\<rparr> = Ok (bf_buf b', bf_len b') (CBB_cleanup None \<lparr>cb_base = Some b', cb_children = []\<rparr>)"
    using c(2) b(2) by (simp add: CBB_finish_def CBB_flush_def becomes_def live_def)
  moreover have "take (unat (bf_len b')) (bf_buf b') = out" using c(2) by (simp add: becomes_def buf_data_def)
  ultimately show ?thesis using ber b(1) c(1) by (simp add: CBS_asn1_ber_to_der_def del: cbs_convert_ber.simps)
qed

section \<open>The walk that looks for BER\<close>

text \<open>
  \<open>ber_walk d inp found\<close>: the walk over the elements of \<open>inp\<close>, at depth \<open>d\<close>, comes to its
  end with the answer \<open>found\<close>. It stops at the first length that is not the shortest, element of
  indefinite length or constructed string, and looks at nothing behind it. An element of DER passes,
  and the contents of a constructed one are walked first; what they gave counts only if nothing
  follows the element.
\<close>

inductive ber_walk :: "nat \<Rightarrow> bytes \<Rightarrow> bool \<Rightarrow> bool" where
  nothing: "d \<le> kMaxDepth \<Longrightarrow> ber_walk d [] False"
| longer: "d \<le> kMaxDepth \<Longrightarrow> ber_length (length c) lb \<Longrightarrow> lb \<noteq> der_length (length c) \<Longrightarrow> ber_walk d (der_tag tag @ lb @ c @ rest) True"
| indefinite: "d \<le> kMaxDepth \<Longrightarrow> constructed tag \<Longrightarrow> ber_walk d (der_tag tag @ 0x80 # rest) True"
| string: "d \<le> kMaxDepth \<Longrightarrow> length c < 2 ^ 32 \<Longrightarrow> joined tag \<Longrightarrow> ber_walk d (der_element tag c @ rest) True"
| primitive: "d \<le> kMaxDepth \<Longrightarrow> length c < 2 ^ 32 \<Longrightarrow> \<not> constructed tag \<Longrightarrow> ber_walk d rest found \<Longrightarrow> ber_walk d (der_element tag c @ rest) found"
| nested: "d \<le> kMaxDepth \<Longrightarrow> length c < 2 ^ 32 \<Longrightarrow> constructed tag \<Longrightarrow> \<not> is_string_type tag \<Longrightarrow> ber_walk (Suc d) c inside \<Longrightarrow>
    ber_walk d rest found \<Longrightarrow> ber_walk d (der_element tag c @ rest) (if rest = [] then inside else found)"

lemma ber_length_bound: "ber_length n lb \<Longrightarrow> n < 2 ^ 32"
proof -
  assume "ber_length n lb"
  then have "n < 128 \<or> (\<exists>k\<le>4. n < 256 ^ k)" by (auto simp: ber_length_def)
  moreover have "(256 :: nat) ^ k \<le> 256 ^ 4" if "k \<le> 4" for k using that by (intro power_increasing) auto
  ultimately show ?thesis by fastforce
qed

lemma no_empty_tag: "der_tag tag \<noteq> []"
  using length_der_tag(1)[of tag] by auto

lemma walk_nil: "ber_walk d [] found \<longleftrightarrow> d \<le> kMaxDepth \<and> \<not> found"
  by (auto intro: ber_walk.nothing elim: ber_walk.cases simp: der_element_def der_header_def no_empty_tag)

text \<open>The flag of the parser: False exactly on an element of DER.\<close>

lemma unflagged_element:
  assumes l: "length inp < 2 ^ 63" and parse: "CBS_get_any_ber_asn1_element inp = Ok (contents, tag, hl, False) rest"
  shows "\<exists>c. length c < 2 ^ 32 \<and> contents = der_element tag c \<and> inp = contents @ rest \<and>
    hl = of_nat (length (der_header tag (length c))) \<and> CBS_skip hl contents = Ok () c"
proof -
  have "cbs_get_any_asn1_element False inp = Ok (contents, tag, hl, False) rest"
    using parse ber_flag[of inp contents tag hl False rest] by (simp add: CBS_get_any_ber_asn1_element_def)
  then have "CBS_get_any_asn1_element inp = Ok (contents, tag, hl) rest" by (simp add: CBS_get_any_asn1_element_def)
  then obtain c where c: "length c < 2 ^ 32" "contents = der_element tag c" "inp = contents @ rest"
    "hl = of_nat (length (der_header tag (length c)))" using der_element_iff[OF l] by blast
  then show ?thesis using parse_der[of tag c rest] l parse by auto
qed

lemma flagged_element:
  assumes l: "length inp < 2 ^ 63" and parse: "CBS_get_any_ber_asn1_element inp = Ok (contents, tag, hl, True) rest" and d: "d \<le> kMaxDepth"
  shows "ber_walk d inp True"
proof -
  note f = element_forms[OF l parse]
  show ?thesis
  proof (cases "indefinite_header hl contents")
    case True
    then show ?thesis using ber_walk.indefinite[OF d, of tag rest] f by simp
  next
    case False
    then obtain lb c where c: "ber_length (length c) lb" "contents = der_tag tag @ lb @ c" using f(3) by auto
    have "lb \<noteq> der_length (length c)"
    proof
      assume "lb = der_length (length c)"
      then have "inp = der_element tag c @ rest" using c(2) f(1) by (simp add: der_element_def der_header_def)
      moreover have "length c < 2 ^ 32" using ber_length_bound[OF c(1)] .
      ultimately show False using parse_der[of tag c rest] l parse by auto
    qed
    then show ?thesis using ber_walk.longer[OF d c(1), of tag rest] c(2) f(1) by simp
  qed
qed

lemma longer_flagged:
  assumes l: "length (der_tag tag @ lb @ c @ rest) < 2 ^ 63" and lb: "ber_length (length c) lb" "lb \<noteq> der_length (length c)"
  shows "\<exists>contents tag' hl rest'. CBS_get_any_ber_asn1_element (der_tag tag @ lb @ c @ rest) = Ok (contents, tag', hl, True) rest'"
proof -
  let ?hdr = "der_tag tag @ lb"
  obtain ber where p: "CBS_get_any_ber_asn1_element (der_tag tag @ lb @ c @ rest) =
      Ok (der_tag tag @ lb @ c, tag, of_nat (length ?hdr), ber) rest"
    using ber_element_complete[OF l lb(1)] unfolding CBS_get_any_ber_asn1_element_def by auto
  have ber
  proof (rule ccontr)
    assume "\<not> ber"
    then obtain c' where c': "der_tag tag @ lb @ c = der_element tag c'"
      "(of_nat (length ?hdr) :: u64) = of_nat (length (der_header tag (length c')))"
      using unflagged_element[OF l] p by fastforce
    have small: "unat (of_nat n :: u64) = n" if "n \<le> length (der_tag tag @ lb @ c @ rest)" for n
      using that l by (simp add: unat_of_nat take_bit_nat_eq_self)
    have "length (der_header tag (length c')) \<le> length (der_element tag c')" by (simp add: der_element_def)
    then have "length (der_header tag (length c')) \<le> length (der_tag tag @ lb @ c @ rest)" unfolding c'(1)[symmetric] by simp
    then have "length ?hdr = length (der_header tag (length c'))"
      using arg_cong[OF c'(2), of unat] small[of "length ?hdr"] small by simp
    moreover have "?hdr @ c = der_header tag (length c') @ c'" using c'(1) by (simp add: der_element_def)
    ultimately have "?hdr = der_header tag (length c')" "c = c'" by (metis append_eq_append_conv)+
    then show False using lb(2) by (simp add: der_header_def)
  qed
  then have "ber = True" by simp
  then show ?thesis using p unfolding \<open>ber = True\<close> by blast
qed

lemma walk_found:
  assumes "ber_walk d inp found" and "length inp < 2 ^ 63"
  shows "find_ber_loop inp seen d = Some (if inp = [] then seen else found)"
  using assms
proof (induction arbitrary: seen rule: ber_walk.induct)
  case (nothing d)
  then show ?case by (simp add: find_ber_loop.simps CBS_len_def)
next
  case (longer d c lb tag rest)
  let ?inp = "der_tag tag @ lb @ c @ rest"
  have "CBS_len ?inp \<noteq> 0" using CBS_len_0[of ?inp] longer.prems length_der_tag(1)[of tag] by auto
  then show ?case using longer_flagged[OF longer.prems longer.hyps(2,3)] length_der_tag(1)[of tag]
    by (subst find_ber_loop.simps) auto
next
  case (indefinite d tag rest)
  let ?inp = "der_tag tag @ 0x80 # rest"
  have "CBS_len ?inp \<noteq> 0" using CBS_len_0[of ?inp] indefinite.prems by simp
  moreover have "CBS_get_any_ber_asn1_element ?inp = Ok (der_tag tag @ [0x80], tag, of_nat (length (der_tag tag @ [0x80])), True) rest"
    using indefinite_complete[of tag rest] indefinite.hyps(2) by (simp add: CBS_get_any_ber_asn1_element_def constructed_def)
  ultimately show ?case by (subst find_ber_loop.simps) simp
next
  case (string d c tag rest)
  obtain hl where p: "CBS_get_any_ber_asn1_element (der_element tag c @ rest) = Ok (der_element tag c, tag, hl, False) rest"
    using parse_der[OF string.prems string.hyps(2)] by blast
  have ne: "der_element tag c \<noteq> []" using ber_element_progress[OF p] by simp
  then have "CBS_len (der_element tag c @ rest) \<noteq> 0" using CBS_len_0[of "der_element tag c @ rest"] string.prems by simp
  then show ?case using p ne string.hyps(3) by (subst find_ber_loop.simps) (simp add: joined_def)
next
  case (primitive d c tag rest found)
  obtain hl where p: "CBS_get_any_ber_asn1_element (der_element tag c @ rest) = Ok (der_element tag c, tag, hl, False) rest"
    using parse_der[OF primitive.prems primitive.hyps(2)] by blast
  have ne: "der_element tag c \<noteq> []" using ber_element_progress[OF p] by simp
  then have "CBS_len (der_element tag c @ rest) \<noteq> 0" using CBS_len_0[of "der_element tag c @ rest"] primitive.prems by simp
  moreover have "rest = [] \<Longrightarrow> \<not> found" using primitive.hyps(4) walk_nil by auto
  ultimately show ?case using p ne primitive.hyps(3) primitive.IH[of False] primitive.prems by (subst find_ber_loop.simps) auto
next
  case (nested d c tag inside rest found)
  obtain hl where p: "CBS_get_any_ber_asn1_element (der_element tag c @ rest) = Ok (der_element tag c, tag, hl, False) rest"
    "CBS_skip hl (der_element tag c) = Ok () c" using parse_der[OF nested.prems nested.hyps(2)] by blast
  have ne: "der_element tag c \<noteq> []" using ber_element_progress[OF p(1)] by simp
  then have "CBS_len (der_element tag c @ rest) \<noteq> 0" using CBS_len_0[of "der_element tag c @ rest"] nested.prems by simp
  moreover have "length c < 2 ^ 63" using nested.prems by (simp add: der_element_def)
  then have "find_ber_loop c False (d + 1) = Some inside" using nested.IH(1)[of False] nested.hyps(5) walk_nil by auto
  moreover have "Suc d \<le> kMaxDepth" using nested.hyps(5) by (auto elim: ber_walk.cases)
  ultimately show ?case using p ne nested.hyps(3,4) nested.IH(2)[of inside] nested.prems
    by (subst find_ber_loop.simps) auto
qed

lemma loop_walk:
  assumes "find_ber_loop inp seen d = Some found" and "d \<le> kMaxDepth" and "length inp < 2 ^ 63"
  shows "if inp = [] then found = seen else ber_walk d inp found"
  using assms
proof (induction "length inp" arbitrary: inp seen d found rule: less_induct)
  case less
  note d = less.prems(2) and l = less.prems(3)
  show ?case
  proof (cases "inp = []")
    case True
    then show ?thesis using less.prems(1) by (simp add: find_ber_loop.simps CBS_len_def)
  next
    case False
    then have n: "CBS_len inp \<noteq> 0" using CBS_len_0[of inp] l by simp
    note run = less.prems(1)[unfolded find_ber_loop.simps[of inp seen d] if_not_P[OF n]]
    obtain contents tag hl flag rest where p: "CBS_get_any_ber_asn1_element inp = Ok (contents, tag, hl, flag) rest"
      using run by (cases "CBS_get_any_ber_asn1_element inp") auto
    show ?thesis
    proof (cases flag)
      case True
      then show ?thesis using flagged_element[OF l _ d] p run False by auto
    next
      case False
      then obtain c where c: "length c < 2 ^ 32" "contents = der_element tag c" "inp = contents @ rest" "CBS_skip hl contents = Ok () c"
        using unflagged_element[OF l, of contents tag hl rest] p by auto
      have ne: "der_element tag c \<noteq> []" by (simp add: der_element_def der_header_def no_empty_tag)
      then have r: "length rest < length inp" "length rest < 2 ^ 63" using c(2,3) l by auto
      have lc: "length c < length inp" "length c < 2 ^ 63" using c(2,3) l no_empty_tag[of tag] by (simp_all add: der_element_def der_header_def)
      note run = run[unfolded p outcome.case prod.case, simplified False if_False]
      consider (string) "joined tag" | (nested) "constructed tag" "\<not> is_string_type tag" | (primitive) "\<not> constructed tag"
        by (auto simp: joined_def)
      then show ?thesis
      proof cases
        case string
        then show ?thesis using run ber_walk.string[OF d c(1) string, of rest] c(2,3) ne by (simp add: joined_def)
      next
        case nested
        then obtain inside where i: "\<not> kMaxDepth < d + 1" "find_ber_loop c False (d + 1) = Some inside" "find_ber_loop rest inside d = Some found"
          using run c(4) by (auto split: option.splits if_splits)
        then have "ber_walk (Suc d) c inside" using less.hyps[OF lc(1), of False "d + 1" inside] lc(2) walk_nil by (auto split: if_splits)
        moreover have "if rest = [] then found = inside else ber_walk d rest found" using less.hyps[OF r(1) i(3) d r(2)] .
        ultimately show ?thesis
          using ber_walk.nested[OF d c(1) nested, of inside rest "if rest = [] then False else found"] c(2,3) ne ber_walk.nothing[OF d]
          by (auto split: if_splits)
      next
        case primitive
        then have "find_ber_loop rest False d = Some found" using run by simp
        from less.hyps[OF r(1) this d r(2)] have "ber_walk d rest found" using ber_walk.nothing[OF d] by (auto split: if_splits)
        then show ?thesis using ber_walk.primitive[OF d c(1) primitive] c(2,3) ne by simp
      qed
    qed
  qed
qed

lemma find_ber_walk:
  "length inp < 2 ^ 63 \<Longrightarrow> cbs_find_ber inp d = Some found \<longleftrightarrow> ber_walk d inp found"
proof
  assume l: "length inp < 2 ^ 63"
  show "ber_walk d inp found" if "cbs_find_ber inp d = Some found"
    using that loop_walk[of inp False d found] l walk_nil by (auto simp: cbs_find_ber_def split: if_splits)
  show "cbs_find_ber inp d = Some found" if w: "ber_walk d inp found"
  proof -
    have "d \<le> kMaxDepth" using w by (auto elim: ber_walk.cases)
    then show ?thesis using walk_found[OF w l, of False] w walk_nil by (auto simp: cbs_find_ber_def)
  qed
qed

text \<open>The walk comes to an end on whatever can be converted.\<close>

lemma der_bytes: "der_tag tag @ der_length (length c) @ c @ rest = der_element tag c @ rest"
  by (simp add: der_element_def der_header_def)

lemma convertible_walk: "ber_der d st body out \<Longrightarrow> \<exists>found. ber_walk d body found"
proof (induction rule: ber_der.induct)
  case (nil d st)
  then show ?case using ber_walk.nothing by blast
next
  case (primitive d tag c lb st rest out)
  show ?case
  proof (cases "lb = der_length (length c)")
    case True
    then show ?thesis using ber_walk.primitive[OF primitive.hyps(1) ber_length_bound[OF primitive.hyps(3)] primitive.hyps(2)] primitive.IH
      by (auto simp: der_bytes)
  qed (use ber_walk.longer primitive.hyps in blast)
next
  case (definite d tag body lb st inner rest out)
  show ?case
  proof (cases "lb = der_length (length body)")
    case True
    note l = ber_length_bound[OF definite.hyps(3)]
    show ?thesis
    proof (cases "is_string_type tag")
      case False
      then show ?thesis using ber_walk.nested[OF definite.hyps(1) l definite.hyps(2)] definite.IH unfolding True der_bytes by blast
    next
      case string: True
      then show ?thesis using ber_walk.string[OF definite.hyps(1) l, of tag rest] definite.hyps(2) unfolding True der_bytes by (auto simp: joined_def)
    qed
  qed (use ber_walk.longer definite.hyps in blast)
next
  case (indefinite d tag st body inner rest out)
  then show ?case using ber_walk.indefinite by blast
qed

section \<open>Properties\<close>

text \<open>
  C16: CBS_asn1_ber_to_der always comes back, within the bound on the rounds, and never leaves its
  buffers. It does not convert when the walk finds nothing that only BER allows, and then the output
  is the DER element that the input starts with. It converts when the walk finds something: then it
  takes the whole input, the output is the input with every length made definite and shortest and
  every constructed string joined, as the rules of ber_der say, and a second walk finds nothing in
  it that only BER allows. While memory can be had, it succeeds on every input but the empty one that
  the walk gets through without finding anything or that the rules of ber_der convert.
\<close>

theorem ber_to_der_exact:
  assumes "sized al" and "length inp < 2 ^ 59"
  shows "case CBS_asn1_ber_to_der al ok inp of
      Ok (out, None) rest \<Rightarrow> ber_walk 0 inp False \<and> inp = out @ rest \<and> is_der out
    | Ok (out, Some storage) rest \<Rightarrow> ber_walk 0 inp True \<and> rest = [] \<and> ber_der 0 0 inp out \<and> cbs_find_ber out 0 = Some False
    | Fail _ \<Rightarrow> ok \<and> never_fails al \<longrightarrow> inp = [] \<or> (\<not> ber_walk 0 inp False \<and> \<not> (\<exists>out. ber_der 0 0 inp out))
    | NoResult \<Rightarrow> False"
proof -
  have l: "length inp < 2 ^ 63" using assms(2) by simp
  have no: "\<not> (\<exists>out. ber_der 0 0 inp out)" if "\<not> (\<exists>found. ber_walk 0 inp found)" using that convertible_walk by blast
  have one: "found = found'" if "ber_walk 0 inp found" "ber_walk 0 inp found'" for found found'
    using that by (simp flip: find_ber_walk[OF l])
  consider (err) "cbs_find_ber inp 0 = None" | (der) "cbs_find_ber inp 0 = Some False" | (ber) "cbs_find_ber inp 0 = Some True"
    by (cases "cbs_find_ber inp 0") auto
  then show ?thesis
  proof cases
    case err
    then have "\<not> ber_walk 0 inp found" for found by (simp flip: find_ber_walk[OF l])
    then show ?thesis using no by (simp add: CBS_asn1_ber_to_der_def err)
  next
    case der
    then have w: "ber_walk 0 inp False" by (simp add: find_ber_walk[OF l])
    have run: "CBS_asn1_ber_to_der al ok inp = bindo (CBS_get_any_asn1_element inp) (\<lambda>(out, _, _). Ok (out, None))"
      using der by (simp add: CBS_asn1_ber_to_der_def)
    show ?thesis
    proof (cases "CBS_get_any_asn1_element inp")
      case (Ok t rest)
      obtain out tag hl where t: "t = (out, tag, hl)" by (cases t)
      then have "inp = out @ rest \<and> is_der out" using Ok der_element_iff[OF l] by (auto simp: is_der_def)
      then show ?thesis unfolding run Ok t using w by simp
    next
      case (Fail rest)
      have "inp = []"
      proof (rule ccontr)
        assume ne: "inp \<noteq> []"
        obtain tag c s where e: "inp = der_element tag c @ s" "length c < 2 ^ 32"
          using w ne by (cases rule: ber_walk.cases) auto
        have "CBS_get_any_asn1_element inp = Ok (der_element tag c, tag, of_nat (length (der_header tag (length c)))) s"
          unfolding der_element_iff[OF l] using e by (intro exI[of _ c]) simp
        then show False using Fail by simp
      qed
      then show ?thesis unfolding run Fail by simp
    next
      case NoResult
      then show ?thesis using ber_parser_total(2)[of inp] by simp
    qed
  next
    case ber
    then have w: "ber_walk 0 inp True" by (simp add: find_ber_walk[OF l])
    then have nf: "\<not> ber_walk 0 inp False" using one by blast
    have "\<not> (\<exists>out. ber_der 0 0 inp out)" if "CBS_asn1_ber_to_der al ok inp = Fail s" "ok" "never_fails al" for s
      using ber_converted_complete[OF assms(1) that(3) assms(2) ber] that(1,2) by auto
    then show ?thesis using ber_converted[OF assms ber, of ok] w nf by (auto simp: ber split: outcome.splits option.splits)
  qed
qed

text \<open>
  C17: cbs_find_ber misses what it has to find. When the walk of some contents on their own finds
  BER, an element of indefinite length say, they are put in a constructed element, and that in
  another, the walk finds it; but it is forgotten as soon as DER siblings follow the inner element,
  because the next call of the parser clears the flag. CBS_asn1_ber_to_der then returns its input
  unchanged, with the BER in it.
\<close>

theorem nested_ber_missed:
  assumes "constructed outer" and "\<not> is_string_type outer" and "constructed inner" and "\<not> is_string_type inner"
    and "cbs_find_ber c 2 = Some True" and "cbs_find_ber siblings 1 = Some False" and "siblings \<noteq> []"
    and "length (der_element outer (der_element inner c @ siblings)) < 2 ^ 32"
  shows "CBS_asn1_ber_to_der al ok (der_element outer (der_element inner c @ siblings)) =
      Ok (der_element outer (der_element inner c @ siblings), None) [] \<and>
    cbs_find_ber (der_element outer (der_element inner c)) 0 = Some True"
proof -
  let ?inp = "der_element outer (der_element inner c @ siblings)"
  have l: "length ?inp < 2 ^ 63" "length (der_element inner c @ siblings) < 2 ^ 32" "length (der_element inner c) < 2 ^ 32" "length c < 2 ^ 32"
    "length siblings < 2 ^ 63" "length c < 2 ^ 63" using assms(8) by (simp_all add: der_element_def)
  have "length (der_element inner c) \<le> 0xfffffffe"
    using assms(8) length_der_tag(1)[of outer] by (simp add: der_element_def[of outer] der_header_def[of outer])
  then have l': "length (der_element outer (der_element inner c)) < 2 ^ 63"
    using length_der_length_5[of "length (der_element inner c)"] length_der_tag(2)[of outer]
    by (simp add: der_element_def[of outer] der_header_def[of outer])
  have w: "ber_walk (Suc (Suc 0)) c True" "ber_walk (Suc 0) siblings False"
    using assms(5,6) l by (simp_all add: find_ber_walk numeral_2_eq_2)
  have d: "0 \<le> kMaxDepth" "Suc 0 \<le> kMaxDepth" by (simp_all add: kMaxDepth_def)
  have "ber_walk (Suc 0) (der_element inner c @ siblings) False"
    using ber_walk.nested[OF d(2) l(4) assms(3,4) w] assms(7) by simp
  from ber_walk.nested[OF d(1) l(2) assms(1,2) this, of "[]" False] have "ber_walk 0 ?inp False"
    by (simp add: walk_nil d)
  then have "cbs_find_ber ?inp 0 = Some False" by (simp add: find_ber_walk[OF l(1)])
  moreover have "CBS_get_any_asn1_element ?inp =
      Ok (?inp, outer, of_nat (length (der_header outer (length (der_element inner c @ siblings))))) []"
    unfolding der_element_iff[OF l(1)] using l(2) by (intro exI[of _ "der_element inner c @ siblings"]) simp
  ultimately have "CBS_asn1_ber_to_der al ok ?inp = Ok (?inp, None) []" by (simp add: CBS_asn1_ber_to_der_def)
  moreover have "ber_walk (Suc 0) (der_element inner c) True"
    using ber_walk.nested[OF d(2) l(4) assms(3,4) w(1), of "[]" False] by (simp add: walk_nil d)
  from ber_walk.nested[OF d(1) l(3) assms(1,2) this, of "[]" False] have "cbs_find_ber (der_element outer (der_element inner c)) 0 = Some True"
    by (simp add: walk_nil d find_ber_walk[OF l'])
  ultimately show ?thesis by blast
qed

text \<open>A SEQUENCE of indefinite length, in a SEQUENCE that a NULL follows.\<close>

theorem nested_ber_missed_witness:
  "CBS_asn1_ber_to_der (\<lambda>n. None) True [0x30, 8, 0x30, 4, 0x30, 0x80, 0, 0, 5, 0] =
    Ok ([0x30, 8, 0x30, 4, 0x30, 0x80, 0, 0, 5, 0], None) []"
proof -
  have e: "der_element 0x20000010 (der_element 0x20000010 [0x30, 0x80, 0, 0] @ [5, 0]) = [0x30, 8, 0x30, 4, 0x30, 0x80, 0, 0, 5, 0]" by code_simp
  have t: "constructed 0x20000010" "\<not> is_string_type 0x20000010" by code_simp+
  have f: "cbs_find_ber [0x30, 0x80, 0, 0] 2 = Some True" "cbs_find_ber [5, 0] 1 = Some False" by code_simp+
  show ?thesis using nested_ber_missed[OF t t f, of "\<lambda>n. None" True] unfolding e by simp
qed

text \<open>A SEQUENCE of indefinite length that holds a NULL, and a NULL that no element follows.\<close>

theorem ber_to_der_exact_witness:
  "ber_der 0 0 [0x30, 0x80, 5, 0, 0, 0] [0x30, 2, 5, 0] \<and> \<not> ber_walk 0 [5, 0, 0xff] False"
proof -
  let ?al = "\<lambda>n. Some (replicate (unat n) 0)" and ?in = "[0x30, 0x80, 5, 0, 0, 0]"
  have "CBS_asn1_ber_to_der ?al True ?in = Ok ([0x30, 2, 5, 0], Some [0x30, 2, 5, 0, 0, 0]) []" by code_simp
  moreover have "sized ?al" by (rule zero_allocator(1))
  moreover have "never_fails ?al" by (rule zero_allocator(2))
  moreover have "CBS_asn1_ber_to_der ?al True [5, 0, 0xff] = Fail [5, 0, 0xff]" by code_simp
  ultimately show ?thesis using ber_to_der_exact[of ?al ?in True] ber_to_der_exact[of ?al "[5, 0, 0xff]" True] by simp
qed

section \<open>Implicitly tagged strings\<close>

lemma get_asn1_total: "CBS_get_asn1 tag cbs \<noteq> NoResult"
  using ber_parser_total(2)[of cbs] by (auto simp: CBS_get_asn1_def cbs_get_asn1_def bindo_is_NoResult split: if_splits option.splits)

lemma join_chunks_sound:
  assumes al: "sized al"
  shows "live b [] \<Longrightarrow> length child < 2 ^ 63 \<Longrightarrow>
    case join_chunks al tag child \<lparr>cb_base = Some b, cb_children = []\<rparr> of
      Ok _ cbb \<Rightarrow> \<exists>chunks b'. child = concat (map (der_element tag) chunks) \<and> cbb = \<lparr>cb_base = Some b', cb_children = []\<rparr> \<and>
        becomes al b (buf_data b @ concat chunks) b'
    | Fail _ \<Rightarrow> True
    | NoResult \<Rightarrow> False"
proof (induction "length child" arbitrary: child b rule: less_induct)
  case less
  let ?cbb = "\<lparr>cb_base = Some b, cb_children = []\<rparr>"
  note l = less.prems(2)
  show ?case
  proof (cases "CBS_len child = 0")
    case True
    then have "child = []" using CBS_len_0[of child] l by simp
    then show ?thesis using True becomes_refl[of b al] less.prems(1)
      by (auto simp: join_chunks.simps live_def intro!: exI[of _ "[]"])
  next
    case nonempty: False
    show ?thesis
    proof (cases "CBS_get_asn1 tag child")
      case (Fail s)
      then show ?thesis using nonempty by (simp add: join_chunks.simps)
    next
      case NoResult
      then show ?thesis using get_asn1_total by simp
    next
      case chunk: (Ok c rest)
      have c: "child = der_element tag c @ rest" using chunk asn1_exact[OF l] by simp
      have add: "cmakes al (CBB_add_bytes al None c) b [] () (buf_data b @ c) [] True"
        using appendsD[OF bytes_appends[OF al, of c None] less.prems(1)] l c by (simp add: der_element_def)
      have run: "join_chunks al tag child ?cbb = bindo (CBB_add_bytes al None c ?cbb) (\<lambda>_. join_chunks al tag rest)"
        using nonempty chunk by (simp add: join_chunks.simps[of al tag child])
      show ?thesis
      proof (cases "CBB_add_bytes al None c ?cbb")
        case (Fail s)
        then show ?thesis unfolding run by simp
      next
        case NoResult
        then show ?thesis using cmakes_NoResult[OF add] by simp
      next
        case (Ok u cbb1)
        obtain b1 where b1: "cbb1 = \<lparr>cb_base = Some b1, cb_children = []\<rparr>" "becomes al b (buf_data b @ c) b1"
          using cmakes_Ok[OF add Ok] by blast
        have "live b1 []" using live_becomes[of b "[]" "[]", OF _ b1(2)] less.prems(1) by (simp add: start_of_def)
        moreover have "length rest < length child" using get_asn1_progress[OF chunk] .
        ultimately have IH: "case join_chunks al tag rest cbb1 of
            Ok _ cbb \<Rightarrow> \<exists>chunks b'. rest = concat (map (der_element tag) chunks) \<and> cbb = \<lparr>cb_base = Some b', cb_children = []\<rparr> \<and>
              becomes al b1 (buf_data b1 @ concat chunks) b'
          | Fail _ \<Rightarrow> True | NoResult \<Rightarrow> False"
          unfolding b1(1) using l by (intro less.hyps) auto
        show ?thesis
        proof (cases "join_chunks al tag rest cbb1")
          case rest: (Ok v cbb2)
          obtain chunks b' where e: "rest = concat (map (der_element tag) chunks)" "cbb2 = \<lparr>cb_base = Some b', cb_children = []\<rparr>"
            "becomes al b1 (buf_data b1 @ concat chunks) b'" using IH unfolding rest by auto
          have "becomes al b (buf_data b @ concat (c # chunks)) b'"
            using becomes_trans[OF b1(2) e(3)] b1(2) by (simp add: becomes_def)
          moreover have "child = concat (map (der_element tag) (c # chunks))" using c e(1) by simp
          moreover have "join_chunks al tag child ?cbb = Ok v cbb2" unfolding run Ok by (simp add: rest)
          ultimately show ?thesis using e(2) by (auto intro!: exI[of _ "c # chunks"])
        next
          case (Fail s)
          then show ?thesis unfolding run Ok by simp
        next
          case NoResult
          then show ?thesis using IH by simp
        qed
      qed
    qed
  qed
qed

text \<open>
  CBS_get_asn1_implicit_string returns the contents of a primitive string as they are in the input,
  or the joined contents of the chunks of a constructed one.
\<close>

theorem implicit_string_sound:
  assumes "sized al" and "length inp < 2 ^ 63"
  shows "case CBS_get_asn1_implicit_string al ok outer_tag inner_tag inp of
      Ok (out, None) rest \<Rightarrow> inp = der_element outer_tag out @ rest
    | Ok (out, Some storage) rest \<Rightarrow> \<exists>chunks. out = concat chunks \<and>
        inp = der_element (outer_tag OR CBS_ASN1_CONSTRUCTED) (concat (map (der_element inner_tag) chunks)) @ rest
    | Fail _ \<Rightarrow> True
    | NoResult \<Rightarrow> False"
proof (cases "CBS_peek_asn1_tag inp outer_tag")
  case True
  show ?thesis
  proof (cases "CBS_get_asn1 outer_tag inp")
    case (Ok out rest)
    moreover from this have "inp = der_element outer_tag out @ rest" using asn1_exact[OF assms(2)] by simp
    ultimately show ?thesis unfolding CBS_get_asn1_implicit_string_def using True by simp
  next
    case (Fail s)
    then show ?thesis using True by (simp add: CBS_get_asn1_implicit_string_def)
  next
    case NoResult
    then show ?thesis using get_asn1_total by simp
  qed
next
  case False
  show ?thesis
  proof (cases "CBB_init al ok (CBS_len inp)")
    case init: (Ok u cbb)
    obtain b where b: "cbb = \<lparr>cb_base = Some b, cb_children = []\<rparr>" "live b []" "buf_data b = []"
      using init_Ok[OF init assms(1)] by blast
    let ?t = "outer_tag OR CBS_ASN1_CONSTRUCTED"
    show ?thesis
    proof (cases "CBS_get_asn1 ?t inp")
      case outer: (Ok child rest)
      have inp: "inp = der_element ?t child @ rest" using outer asn1_exact[OF assms(2)] by simp
      then have "length child < 2 ^ 63" using assms(2) by (simp add: der_element_def)
      note j = join_chunks_sound[OF assms(1) b(2) this, of inner_tag, folded b(1)]
      show ?thesis
      proof (cases "join_chunks al inner_tag child cbb")
        case joined: (Ok v cbb')
        obtain chunks b' where e: "child = concat (map (der_element inner_tag) chunks)"
          "cbb' = \<lparr>cb_base = Some b', cb_children = []\<rparr>" "becomes al b (concat chunks) b'"
          using j b(3) unfolding joined by auto
        have "CBB_finish al None cbb' = Ok (bf_buf b', bf_len b') (CBB_cleanup None cbb')"
          using e(2,3) b(2) by (simp add: CBB_finish_def CBB_flush_def becomes_def live_def)
        moreover have "take (unat (bf_len b')) (bf_buf b') = concat chunks" using e(3) by (simp add: becomes_def buf_data_def)
        ultimately show ?thesis
          using False init outer joined inp e(1) by (auto simp: CBS_get_asn1_implicit_string_def)
      next
        case (Fail s)
        then show ?thesis using False init outer by (simp add: CBS_get_asn1_implicit_string_def)
      next
        case NoResult
        then show ?thesis using j by simp
      qed
    next
      case (Fail s)
      then show ?thesis using False init by (simp add: CBS_get_asn1_implicit_string_def)
    next
      case NoResult
      then show ?thesis using get_asn1_total by simp
    qed
  next
    case (Fail s)
    then show ?thesis using False by (simp add: CBS_get_asn1_implicit_string_def)
  next
    case NoResult
    then show ?thesis by (simp add: init_total)
  qed
qed

end
