(* ===== verification/Chacha.thy ===== *)
theory Chacha
  imports Prelude
begin

text \<open>
  ChaCha20 (src/crypto/chacha/chacha.c) as the app compiles it, without assembly. The cipher works on
  memory, so that encryption in place and into another buffer are the same function; the lemmas show
  that both write the exclusive or of the input with one stream of key bytes, which is given by
  position.
\<close>

section \<open>The code\<close>

definition buffers_alias :: "u64 \<Rightarrow> u64 \<Rightarrow> u64 \<Rightarrow> u64 \<Rightarrow> bool" where
  "buffers_alias a a_len b b_len \<longleftrightarrow> b < a + a_len \<and> a < b + b_len"

definition CRYPTO_rotl_u32 :: "u32 \<Rightarrow> nat \<Rightarrow> u32" where
  "CRYPTO_rotl_u32 v n = push_bit n v OR drop_bit ((32 - n) mod 32) v"

text \<open>The ASCII string "expand 32-byte k".\<close>

definition sigma :: bytes where
  "sigma = [0x65, 0x78, 0x70, 0x61, 0x6e, 0x64, 0x20, 0x33, 0x32, 0x2d, 0x62, 0x79, 0x74, 0x65, 0x20, 0x6b]"

text \<open>A quarter round is four such steps, and two rounds are eight quarter rounds.\<close>

definition round_step :: "nat \<times> nat \<times> nat \<times> nat \<Rightarrow> u32 list \<Rightarrow> u32 list" where
  "round_step = (\<lambda>(a, b, d, n) x. let v = x ! a + x ! b in x[a := v, d := CRYPTO_rotl_u32 (x ! d XOR v) n])"

definition QUARTERROUND :: "nat \<times> nat \<times> nat \<times> nat \<Rightarrow> u32 list \<Rightarrow> u32 list" where
  "QUARTERROUND = (\<lambda>(a, b, c, d). fold round_step [(a, b, d, 16), (c, d, b, 12), (a, b, d, 8), (c, d, b, 7)])"

definition double_round :: "u32 list \<Rightarrow> u32 list" where
  "double_round = fold QUARTERROUND
     [(0, 4, 8, 12), (1, 5, 9, 13), (2, 6, 10, 14), (3, 7, 11, 15), (0, 5, 10, 15), (1, 6, 11, 12), (2, 7, 8, 13), (3, 4, 9, 14)]"

text \<open>Words are loaded from and stored to bytes in little-endian order.\<close>

fun load_words :: "bytes \<Rightarrow> u32 list" where
  "load_words (a # b # c # d # bs) = le_word [a, b, c, d] # load_words bs"
| "load_words bs = []"

definition store_words :: "u32 list \<Rightarrow> bytes" where
  "store_words ws = concat (map (le_bytes 4) ws)"

definition CRYPTO_hchacha20 :: "bytes \<Rightarrow> bytes \<Rightarrow> bytes" where
  "CRYPTO_hchacha20 key nonce =
     (let x = load_words (sigma @ key @ nonce); x = (double_round ^^ 10) x
      in store_words (take 4 x) @ store_words (take 4 (drop 12 x)))"

definition chacha_core :: "u32 list \<Rightarrow> bytes" where
  "chacha_core inp = (let x = (double_round ^^ 10) inp in store_words (map2 (+) x inp))"

text \<open>The bytes of a block are combined with the input one after the other.\<close>

fun xor_bytes :: "u64 \<Rightarrow> u64 \<Rightarrow> bytes \<Rightarrow> mem \<Rightarrow> mem" where
  "xor_bytes out inp [] m = m"
| "xor_bytes out inp (b # buf) m = xor_bytes (out + 1) (inp + 1) buf (m(out := m inp XOR b))"

function chacha_loop :: "u64 \<Rightarrow> u64 \<Rightarrow> nat \<Rightarrow> u32 list \<Rightarrow> mem \<Rightarrow> mem" where
  "chacha_loop out inp in_len input m =
     (if in_len = 0 then m
      else let todo = (if in_len < 64 then in_len else 64); buf = chacha_core input; m = xor_bytes out inp (take todo buf) m
           in chacha_loop (out + of_nat todo) (inp + of_nat todo) (in_len - todo) (input[12 := input ! 12 + 1]) m)"
  by pat_completeness auto

termination
  by (relation "measure (\<lambda>(out, inp, in_len, input, m). in_len)") auto

declare chacha_loop.simps [simp del]

definition chacha_input :: "bytes \<Rightarrow> bytes \<Rightarrow> u32 \<Rightarrow> u32 list" where
  "chacha_input key nonce counter = load_words sigma @ load_words key @ [counter] @ load_words nonce"

text \<open>The buffers must be the same or apart; that is asserted.\<close>

definition CRYPTO_chacha_20 :: "u64 \<Rightarrow> u64 \<Rightarrow> u64 \<Rightarrow> bytes \<Rightarrow> bytes \<Rightarrow> u32 \<Rightarrow> mem \<Rightarrow> (unit, mem) outcome" where
  "CRYPTO_chacha_20 out inp in_len key nonce counter m =
     (if \<not> buffers_alias out in_len inp in_len \<or> inp = out
      then Ok () (chacha_loop out inp (unat in_len) (chacha_input key nonce counter) m) else NoResult)"

section \<open>The key stream\<close>

text \<open>The byte at a position of the stream, and a piece of the stream from a position on.\<close>

definition key_byte :: "bytes \<Rightarrow> bytes \<Rightarrow> u32 \<Rightarrow> nat \<Rightarrow> u8" where
  "key_byte key nonce counter i = chacha_core (chacha_input key nonce (counter + of_nat (i div 64))) ! (i mod 64)"

definition keystream :: "bytes \<Rightarrow> bytes \<Rightarrow> u32 \<Rightarrow> nat \<Rightarrow> nat \<Rightarrow> bytes" where
  "keystream key nonce counter i n = map (key_byte key nonce counter) [i..<i + n]"

definition xor_list :: "bytes \<Rightarrow> bytes \<Rightarrow> bytes" where
  "xor_list xs ys = map2 (XOR) xs ys"

text \<open>A key and a nonce of the right lengths.\<close>

lemma length_load_words: "length (load_words bs) = length bs div 4"
  by (induction bs rule: load_words.induct) simp_all

lemma length_chacha_input [simp]: "length key = 32 \<Longrightarrow> length nonce = 12 \<Longrightarrow> length (chacha_input key nonce c) = 16"
  by (simp add: chacha_input_def length_load_words sigma_def)

lemma length_round_step [simp]: "length (round_step q x) = length x"
  by (simp add: round_step_def Let_def split: prod.split)

lemma length_QUARTERROUND [simp]: "length (QUARTERROUND q x) = length x"
  by (simp add: QUARTERROUND_def split: prod.split)

lemma length_double_round [simp]: "length (double_round x) = length x"
  by (simp add: double_round_def)

lemma length_rounds [simp]: "length ((double_round ^^ n) x) = length x"
  by (induction n) simp_all

lemma length_store_words [simp]: "length (store_words ws) = 4 * length ws"
  by (induction ws) (simp_all add: store_words_def)

lemma length_chacha_core [simp]: "length (chacha_core x) = 4 * length x"
  by (simp add: chacha_core_def Let_def)

lemma bump_counter: "length key = 32 \<Longrightarrow> (chacha_input key nonce c)[12 := chacha_input key nonce c ! 12 + 1] = chacha_input key nonce (c + 1)"
proof -
  assume "length key = 32"
  then have l: "length (load_words sigma @ load_words key) = 12" by (simp add: length_load_words sigma_def)
  have e: "chacha_input key nonce c = (load_words sigma @ load_words key) @ c # load_words nonce" for c by (simp add: chacha_input_def)
  show ?thesis unfolding e l[symmetric] by (simp only: nth_append_length list_update_length)
qed

lemma length_keystream [simp]: "length (keystream key nonce c i n) = n"
  by (simp add: keystream_def)

lemma keystream_nth: "j < n \<Longrightarrow> keystream key nonce c i n ! j = key_byte key nonce c (i + j)"
  by (simp add: keystream_def)

lemma keystream_append: "keystream key nonce c i (n + k) = keystream key nonce c i n @ keystream key nonce c (i + n) k"
  using upt_add_eq_append[of i "i + n" k] by (simp add: keystream_def add.assoc)

lemma keystream_block:
  assumes "length key = 32" "length nonce = 12" "n \<le> 64" and "b = chacha_core (chacha_input key nonce c)"
  shows "keystream key nonce c 0 n = take n b" and "keystream key nonce c 64 k = keystream key nonce (c + 1) 0 k"
proof -
  show "keystream key nonce c 0 n = take n b"
    by (rule nth_equalityI) (use assms in \<open>simp_all add: keystream_def key_byte_def\<close>)
  have "key_byte key nonce c (64 + i) = key_byte key nonce (c + 1) i" for i
    using div_add_self1[of 64 i] by (simp add: key_byte_def add.assoc del: div_add_self1)
  then show "keystream key nonce c 64 k = keystream key nonce (c + 1) 0 k"
    by (intro nth_equalityI) (simp_all add: keystream_def)
qed

lemma length_xor_list [simp]: "length (xor_list xs ys) = min (length xs) (length ys)"
  by (simp add: xor_list_def)

lemma xor_list_twice: "length xs \<le> length ys \<Longrightarrow> xor_list (xor_list xs ys) ys = xs"
  by (rule nth_equalityI) (simp_all add: xor_list_def xor.assoc)

lemma xor_list_append: "length xs = length ys \<Longrightarrow> xor_list (xs @ xs') (ys @ ys') = xor_list xs ys @ xor_list xs' ys'"
  by (simp add: xor_list_def)

section \<open>Memory\<close>

text \<open>Two buffers have no address in common; the test by pointers says so for buffers that do not wrap.\<close>

definition apart :: "u64 \<Rightarrow> nat \<Rightarrow> u64 \<Rightarrow> nat \<Rightarrow> bool" where
  "apart a n b k \<longleftrightarrow> (\<forall>i<n. \<forall>j<k. a + of_nat i \<noteq> b + of_nat j)"

definition fits :: "u64 \<Rightarrow> nat \<Rightarrow> bool" where
  "fits a n \<longleftrightarrow> unat a + n < 2 ^ 64"

lemma apartI: "(\<And>i j. i < n \<Longrightarrow> j < k \<Longrightarrow> a + of_nat i \<noteq> b + of_nat j) \<Longrightarrow> apart a n b k"
  by (simp add: apart_def)

lemma apartD: "apart a n b k \<Longrightarrow> i < n \<Longrightarrow> j < k \<Longrightarrow> a + of_nat i \<noteq> b + of_nat j"
  by (simp add: apart_def)

lemma fits_add:
  assumes "fits a n" and "i \<le> n"
  shows "unat (a + of_nat i) = unat a + i"
proof -
  have "i < 2 ^ 64" "unat a + i < 2 ^ 64" using assms by (simp_all add: fits_def)
  then have "unat (of_nat i :: u64) = i" by (simp add: unat_of_nat take_bit_nat_eq_self)
  then show ?thesis using \<open>unat a + i < 2 ^ 64\<close> by (simp add: unat_word_ariths)
qed

lemma fits_less: "fits a n \<Longrightarrow> n < 2 ^ 64"
  by (simp add: fits_def)

lemma fits_mono: "fits a n \<Longrightarrow> k \<le> n \<Longrightarrow> fits a k"
  by (simp add: fits_def)

lemma buffers_alias_iff:
  "fits a (unat n) \<Longrightarrow> fits b (unat k) \<Longrightarrow> buffers_alias a n b k \<longleftrightarrow> unat b < unat a + unat n \<and> unat a < unat b + unat k"
  using fits_add[of a "unat n" "unat n"] fits_add[of b "unat k" "unat k"] by (simp add: buffers_alias_def word_less_nat_alt)

lemma not_alias_apart:
  assumes "fits a n" "fits b k" "\<not> (unat b < unat a + n \<and> unat a < unat b + k)"
  shows "apart a n b k"
proof (rule apartI, rule notI)
  fix i j assume ij: "i < n" "j < k" "a + of_nat i = b + of_nat j"
  then have "unat a + i = unat b + j" using fits_add[OF assms(1), of i] fits_add[OF assms(2), of j] by simp
  then show False using assms(3) ij(1,2) by linarith
qed

lemma apart_sym: "apart a n b k \<Longrightarrow> apart b k a n"
  by (rule apartI) (metis apartD)

lemma apart_sub:
  assumes "apart a n b k" "i + n' \<le> n" "j + k' \<le> k"
  shows "apart (a + of_nat i) n' (b + of_nat j) k'"
proof (rule apartI)
  fix x y assume "x < n'" "y < k'"
  then have "a + of_nat (i + x) \<noteq> b + of_nat (j + y)" using assms(2,3) by (intro apartD[OF assms(1)]) simp_all
  then show "a + of_nat i + of_nat x \<noteq> b + of_nat j + of_nat y" by (simp add: add.assoc)
qed

lemma mem_read_apart: "apart a (length bs) b n \<Longrightarrow> mem_read (mem_write m a bs) b n = mem_read m b n"
  by (rule mem_read_cong) (auto simp: apart_def intro: mem_write_other)

text \<open>Combining bytes in place or into a buffer that is apart.\<close>

lemma xor_bytes_eq:
  "length bs < 2 ^ 64 \<Longrightarrow> inp = out \<or> apart out (length bs) inp (length bs) \<Longrightarrow>
    xor_bytes out inp bs m = mem_write m out (xor_list (mem_read m inp (length bs)) bs)"
proof (induction bs arbitrary: out inp m)
  case (Cons b bs)
  let ?m = "m(out := m inp XOR b)"
  have i: "inp + 1 = out + 1 \<or> apart (out + 1) (length bs) (inp + 1) (length bs)"
    using Cons.prems(2) apart_sub[of out "Suc (length bs)" inp "Suc (length bs)" 1 "length bs" 1 "length bs"] by auto
  have "mem_read ?m (inp + 1) (length bs) = mem_read m (inp + 1) (length bs)"
  proof (rule mem_read_cong)
    fix j assume j: "j < length bs"
    have "out + of_nat 0 \<noteq> inp + of_nat (Suc j)"
    proof (cases "inp = out")
      case True
      then show ?thesis using Cons.prems(1) j by (simp only:) (rule word_offset_neq; simp)
    next
      case False
      then show ?thesis using apartD[of out "Suc (length bs)" inp "Suc (length bs)" 0 "Suc j"] Cons.prems(2) j by simp
    qed
    then show "?m (inp + 1 + of_nat j) = m (inp + 1 + of_nat j)" by (simp add: add.assoc)
  qed
  then show ?case using Cons.IH[OF _ i, of ?m] Cons.prems(1) by (simp add: xor_list_def del: fun_upd_apply)
qed (simp add: xor_list_def)

lemma apart_next: "n < 2 ^ 64 \<Longrightarrow> k \<le> n \<Longrightarrow> apart a k (a + of_nat k) (n - k)"
proof (rule apartI)
  fix i j assume "n < 2 ^ 64" "k \<le> n" "i < k" "j < n - k"
  then have "a + of_nat i \<noteq> a + of_nat (k + j)" by (intro word_offset_neq) auto
  then show "a + of_nat i \<noteq> a + of_nat k + of_nat j" by (simp add: add.assoc)
qed

lemma chacha_loop_eq:
  assumes "length key = 32" and "length nonce = 12"
  shows "n < 2 ^ 64 \<Longrightarrow> inp = out \<or> apart out n inp n \<Longrightarrow>
    chacha_loop out inp n (chacha_input key nonce c) m = mem_write m out (xor_list (mem_read m inp n) (keystream key nonce c 0 n))"
proof (induction n arbitrary: out inp c m rule: less_induct)
  case (less n)
  note block = keystream_block[OF assms, where c = c, OF _ refl]
  show ?case
  proof (cases "n \<le> 64")
    case True
    then show ?thesis using block(1)[of n] xor_bytes_eq[of "keystream key nonce c 0 n" inp out m] less.prems assms
      by (subst chacha_loop.simps) (cases "n = 64"; auto simp: Let_def chacha_loop.simps xor_list_def keystream_def)
  next
    case False
    let ?x = "xor_list (mem_read m inp 64) (keystream key nonce c 0 64)"
    let ?m = "mem_write m out ?x"
    have first: "xor_bytes out inp (chacha_core (chacha_input key nonce c)) m = ?m"
      using xor_bytes_eq[of "keystream key nonce c 0 64" inp out m] block(1)[of 64] False less.prems assms
        apart_sub[of out n inp n 0 64 0 64] by auto
    have "apart out 64 (inp + 64) (n - 64)"
      using less.prems False apart_next[of n 64 out] apart_sub[of out n inp n 0 64 64 "n - 64"] by auto
    then have rest: "mem_read ?m (inp + 64) (n - 64) = mem_read m (inp + 64) (n - 64)" using mem_read_apart[of out ?x] by simp
    have "inp + 64 = out + 64 \<or> apart (out + 64) (n - 64) (inp + 64) (n - 64)"
      using less.prems False apart_sub[of out n inp n 64 "n - 64" 64 "n - 64"] by auto
    then have "chacha_loop (out + 64) (inp + 64) (n - 64) (chacha_input key nonce (c + 1)) ?m =
        mem_write ?m (out + 64) (xor_list (mem_read m (inp + 64) (n - 64)) (keystream key nonce (c + 1) 0 (n - 64)))"
      using less.IH[of "n - 64"] less.prems(1) False rest by simp
    moreover have "mem_read m inp n = mem_read m inp 64 @ mem_read m (inp + 64) (n - 64)"
      using mem_read_add[of m inp 64 "n - 64"] False by simp
    moreover have "keystream key nonce c 0 n = keystream key nonce c 0 64 @ keystream key nonce (c + 1) 0 (n - 64)"
      using keystream_append[of key nonce c 0 64 "n - 64"] block(2)[of 0 "n - 64"] False by simp
    ultimately show ?thesis using False assms
      by (subst chacha_loop.simps) (simp add: Let_def first bump_counter xor_list_append mem_write_append)
  qed
qed

lemma chacha_20_eq:
  assumes "length key = 32" "length nonce = 12" "inp = out \<or> \<not> buffers_alias out n inp n \<and> fits out (unat n) \<and> fits inp (unat n)"
  shows "CRYPTO_chacha_20 out inp n key nonce c m =
    Ok () (mem_write m out (xor_list (mem_read m inp (unat n)) (keystream key nonce c 0 (unat n))))"
proof -
  have "inp = out \<or> apart out (unat n) inp (unat n)"
    using assms(3) not_alias_apart[of out "unat n" inp "unat n"] buffers_alias_iff[of out n inp n] by auto
  moreover have "unat n < 2 ^ 64" using unat_le_bound[of n] by simp
  ultimately show ?thesis using assms chacha_loop_eq by (auto simp: CRYPTO_chacha_20_def)
qed

text \<open>The example of RFC 8439, section 2.2.1.\<close>

lemma quarter_round_example:
  "QUARTERROUND (2, 7, 8, 13)
      [0x879531e0, 0xc5ecf37d, 0x516461b1, 0xc9a62f8a, 0x44c20ef3, 0x3390af7f, 0xd9fc690b, 0x2a5f714c,
       0x53372767, 0xb00a5631, 0x974c541a, 0x359e9963, 0x5c971061, 0x3d631689, 0x2098d9d6, 0x91dbd320] =
    [0x879531e0, 0xc5ecf37d, 0xbdb886dc, 0xc9a62f8a, 0x44c20ef3, 0x3390af7f, 0xd9fc690b, 0xcfacafd2,
     0xe46bea80, 0xb00a5631, 0x974c541a, 0x359e9963, 0x5c971061, 0xccc07c79, 0x2098d9d6, 0x91dbd320]"
  by code_simp

end
