(* ===== verification/Poly1305.thy ===== *)
theory Poly1305
  imports Prelude
begin

text \<open>
  The portable Poly1305 of BoringSSL (src/crypto/poly1305/poly1305.c), which authenticates the
  records of ChaCha20-Poly1305 on every processor but x86-64 (the variant for 32-bit ARM with NEON is
  in another file). A number below 2^130 is kept in five limbs of 26 bits, in 32-bit words that may
  hold a little more. The specification is the authenticator of RFC 8439 on natural numbers. The
  lemmas here are those of one block: adding it loses no carry, and the multiplication is that modulo
  2^130 - 5. The state is a record; that its pointer is aligned within the caller's memory is not
  modelled.
\<close>

section \<open>The code\<close>

record poly1305_state_st =
  r0 :: u32
  r1 :: u32
  r2 :: u32
  r3 :: u32
  r4 :: u32
  s1 :: u32
  s2 :: u32
  s3 :: u32
  s4 :: u32
  h0 :: u32
  h1 :: u32
  h2 :: u32
  h3 :: u32
  h4 :: u32
  buf :: bytes
  buf_used :: nat
  mac_key :: bytes

definition U8TO32_LE :: "bytes \<Rightarrow> u32" where
  "U8TO32_LE m = le_word (take 4 m)"

definition U32TO8_LE :: "u64 \<Rightarrow> bytes" where
  "U32TO8_LE v = le_bytes 4 (ucast v :: u32)"

definition mul32x32_64 :: "u32 \<Rightarrow> u32 \<Rightarrow> u64" where
  "mul32x32_64 a b = ucast a * ucast b"

text \<open>A block of 16 bytes is added to the limbs; \<open>hibit\<close> is the bit above it.\<close>

definition add_block :: "u32 \<Rightarrow> bytes \<Rightarrow> poly1305_state_st \<Rightarrow> poly1305_state_st" where
  "add_block hibit m st =
     (let t0 = U8TO32_LE m; t1 = U8TO32_LE (drop 4 m); t2 = U8TO32_LE (drop 8 m); t3 = U8TO32_LE (drop 12 m)
      in st\<lparr>h0 := h0 st + (t0 AND 0x3ffffff),
            h1 := ucast (ucast (h1 st) + (drop_bit 26 (push_bit 32 (ucast t1) OR ucast t0 :: u64) AND 0x3ffffff)),
            h2 := ucast (ucast (h2 st) + (drop_bit 20 (push_bit 32 (ucast t2) OR ucast t1 :: u64) AND 0x3ffffff)),
            h3 := ucast (ucast (h3 st) + (drop_bit 14 (push_bit 32 (ucast t3) OR ucast t2 :: u64) AND 0x3ffffff)),
            h4 := h4 st + (drop_bit 8 t3 OR hibit)\<rparr>)"

text \<open>The multiplication by \<open>r\<close> and one pass of carries.\<close>

definition donna_mul :: "poly1305_state_st \<Rightarrow> poly1305_state_st" where
  "donna_mul st =
     (let t0 = mul32x32_64 (h0 st) (r0 st) + mul32x32_64 (h1 st) (s4 st) + mul32x32_64 (h2 st) (s3 st) +
               mul32x32_64 (h3 st) (s2 st) + mul32x32_64 (h4 st) (s1 st);
          t1 = mul32x32_64 (h0 st) (r1 st) + mul32x32_64 (h1 st) (r0 st) + mul32x32_64 (h2 st) (s4 st) +
               mul32x32_64 (h3 st) (s3 st) + mul32x32_64 (h4 st) (s2 st);
          t2 = mul32x32_64 (h0 st) (r2 st) + mul32x32_64 (h1 st) (r1 st) + mul32x32_64 (h2 st) (r0 st) +
               mul32x32_64 (h3 st) (s4 st) + mul32x32_64 (h4 st) (s3 st);
          t3 = mul32x32_64 (h0 st) (r3 st) + mul32x32_64 (h1 st) (r2 st) + mul32x32_64 (h2 st) (r1 st) +
               mul32x32_64 (h3 st) (r0 st) + mul32x32_64 (h4 st) (s4 st);
          t4 = mul32x32_64 (h0 st) (r4 st) + mul32x32_64 (h1 st) (r3 st) + mul32x32_64 (h2 st) (r2 st) +
               mul32x32_64 (h3 st) (r1 st) + mul32x32_64 (h4 st) (r0 st);
          c = drop_bit 26 t0;
          t1 = t1 + c; b1 = ucast (drop_bit 26 t1) :: u32;
          t2 = t2 + ucast b1; b2 = ucast (drop_bit 26 t2) :: u32;
          t3 = t3 + ucast b2; b3 = ucast (drop_bit 26 t3) :: u32;
          t4 = t4 + ucast b3; b4 = ucast (drop_bit 26 t4) :: u32
      in st\<lparr>h0 := (ucast t0 AND 0x3ffffff) + b4 * 5, h1 := ucast t1 AND 0x3ffffff, h2 := ucast t2 AND 0x3ffffff,
            h3 := ucast t3 AND 0x3ffffff, h4 := ucast t4 AND 0x3ffffff\<rparr>)"

text \<open>The blocks of the input, the last of which may be shorter and is then padded.\<close>

function poly1305_update :: "poly1305_state_st \<Rightarrow> bytes \<Rightarrow> poly1305_state_st" where
  "poly1305_update st inp =
     (if 16 \<le> length inp then poly1305_update (donna_mul (add_block (push_bit 24 1) (take 16 inp) st)) (drop 16 inp)
      else if length inp = 0 then st
      else let mp = inp @ 1 # replicate (15 - length inp) 0 in donna_mul (add_block 0 mp st))"
  by pat_completeness auto

termination
  by (relation "measure (\<lambda>(st, inp). length inp)") auto

declare poly1305_update.simps [simp del]

text \<open>
  The key of 32 bytes: \<open>r\<close> in the first half, without the bits that are masked out, then the pad.
  The buffer keeps what its memory held.
\<close>

definition CRYPTO_poly1305_init :: "bytes \<Rightarrow> bytes \<Rightarrow> poly1305_state_st" where
  "CRYPTO_poly1305_init memory key =
     (let t0 = U8TO32_LE key; t1 = U8TO32_LE (drop 4 key); t2 = U8TO32_LE (drop 8 key); t3 = U8TO32_LE (drop 12 key);
          r0 = t0 AND 0x3ffffff;
          t0 = drop_bit 26 t0; t0 = t0 OR push_bit 6 t1;
          r1 = t0 AND 0x3ffff03;
          t1 = drop_bit 20 t1; t1 = t1 OR push_bit 12 t2;
          r2 = t1 AND 0x3ffc0ff;
          t2 = drop_bit 14 t2; t2 = t2 OR push_bit 18 t3;
          r3 = t2 AND 0x3f03fff;
          t3 = drop_bit 8 t3;
          r4 = t3 AND 0x00fffff
      in \<lparr>r0 = r0, r1 = r1, r2 = r2, r3 = r3, r4 = r4, s1 = r1 * 5, s2 = r2 * 5, s3 = r3 * 5, s4 = r4 * 5,
          h0 = 0, h1 = 0, h2 = 0, h3 = 0, h4 = 0, buf = memory, buf_used = 0, mac_key = take 16 (drop 16 key)\<rparr>)"

text \<open>Input is collected in the buffer until there are 16 bytes; whole blocks bypass it.\<close>

definition CRYPTO_poly1305_update :: "poly1305_state_st \<Rightarrow> bytes \<Rightarrow> poly1305_state_st" where
  "CRYPTO_poly1305_update st inp =
     (let (st, inp) =
        (if buf_used st \<noteq> 0 then
           let todo = 16 - buf_used st; todo = (if length inp < todo then length inp else todo);
               st = st\<lparr>buf := take (buf_used st) (buf st) @ take todo inp @ drop (buf_used st + todo) (buf st)\<rparr>;
               st = st\<lparr>buf_used := buf_used st + todo\<rparr>;
               inp = drop todo inp
           in if buf_used st = 16 then ((poly1305_update st (buf st))\<lparr>buf_used := 0\<rparr>, inp) else (st, inp)
         else (st, inp));
      (st, inp) =
        (if 16 \<le> length inp then
           let todo = 16 * (length inp div 16) in (poly1305_update st (take todo inp), drop todo inp)
         else (st, inp))
      in if length inp \<noteq> 0 then st\<lparr>buf := inp @ drop (length inp) (buf st), buf_used := length inp\<rparr> else st)"

text \<open>The last block, the carries, the reduction below 2^130 - 5 and the addition of the pad: the tag, and the state it leaves.\<close>

definition CRYPTO_poly1305_finish :: "poly1305_state_st \<Rightarrow> bytes \<times> poly1305_state_st" where
  "CRYPTO_poly1305_finish st =
     (let st = (if buf_used st \<noteq> 0 then poly1305_update st (take (buf_used st) (buf st)) else st);
          b = drop_bit 26 (h0 st); h0' = h0 st AND 0x3ffffff;
          h1' = h1 st + b; b = drop_bit 26 h1'; h1' = h1' AND 0x3ffffff;
          h2' = h2 st + b; b = drop_bit 26 h2'; h2' = h2' AND 0x3ffffff;
          h3' = h3 st + b; b = drop_bit 26 h3'; h3' = h3' AND 0x3ffffff;
          h4' = h4 st + b; b = drop_bit 26 h4'; h4' = h4' AND 0x3ffffff;
          h0' = h0' + b * 5;
          g0 = h0' + 5; b = drop_bit 26 g0; g0 = g0 AND 0x3ffffff;
          g1 = h1' + b; b = drop_bit 26 g1; g1 = g1 AND 0x3ffffff;
          g2 = h2' + b; b = drop_bit 26 g2; g2 = g2 AND 0x3ffffff;
          g3 = h3' + b; b = drop_bit 26 g3; g3 = g3 AND 0x3ffffff;
          g4 = h4' + b - push_bit 26 1;
          b = drop_bit 31 g4 - 1;
          nb = NOT b;
          h0' = (h0' AND nb) OR (g0 AND b);
          h1' = (h1' AND nb) OR (g1 AND b);
          h2' = (h2' AND nb) OR (g2 AND b);
          h3' = (h3' AND nb) OR (g3 AND b);
          h4' = (h4' AND nb) OR (g4 AND b);
          f0 = ucast (h0' OR push_bit 26 h1') + ucast (U8TO32_LE (mac_key st)) :: u64;
          f1 = ucast (drop_bit 6 h1' OR push_bit 20 h2') + ucast (U8TO32_LE (drop 4 (mac_key st))) :: u64;
          f2 = ucast (drop_bit 12 h2' OR push_bit 14 h3') + ucast (U8TO32_LE (drop 8 (mac_key st))) :: u64;
          f3 = ucast (drop_bit 18 h3' OR push_bit 8 h4') + ucast (U8TO32_LE (drop 12 (mac_key st))) :: u64;
          f1 = f1 + drop_bit 32 f0;
          f2 = f2 + drop_bit 32 f1;
          f3 = f3 + drop_bit 32 f2
      in (U32TO8_LE f0 @ U32TO8_LE f1 @ U32TO8_LE f2 @ U32TO8_LE f3, st\<lparr>h0 := h0', h1 := h1', h2 := h2', h3 := h3', h4 := h4'\<rparr>))"

text \<open>The tag of a message that comes in pieces.\<close>

definition poly1305 :: "bytes \<Rightarrow> bytes \<Rightarrow> bytes list \<Rightarrow> bytes" where
  "poly1305 memory key chunks = fst (CRYPTO_poly1305_finish (foldl CRYPTO_poly1305_update (CRYPTO_poly1305_init memory key) chunks))"

section \<open>The authenticator of RFC 8439\<close>

fun le_nat :: "bytes \<Rightarrow> nat" where
  "le_nat [] = 0"
| "le_nat (b # bs) = unat b + 256 * le_nat bs"

definition P1305 :: nat where
  "P1305 = 2 ^ 130 - 5"

definition clamped :: "bytes \<Rightarrow> nat" where
  "clamped key = (le_nat (take 16 key) AND 0x0ffffffc0ffffffc0ffffffc0fffffff)"

function poly_eval :: "nat \<Rightarrow> nat \<Rightarrow> bytes \<Rightarrow> nat" where
  "poly_eval r a msg = (if msg = [] then a else poly_eval r ((a + le_nat (take 16 msg @ [1])) * r mod P1305) (drop 16 msg))"
  by pat_completeness auto

termination
  by (relation "measure (\<lambda>(r, a, msg). length msg)") auto

declare poly_eval.simps [simp del]

definition rfc_tag :: "bytes \<Rightarrow> bytes \<Rightarrow> nat" where
  "rfc_tag key msg = (poly_eval (clamped key) 0 msg + le_nat (take 16 (drop 16 key))) mod 2 ^ 128"

section \<open>Limbs\<close>

definition limbs :: "nat \<Rightarrow> nat \<Rightarrow> nat \<Rightarrow> nat \<Rightarrow> nat \<Rightarrow> nat" where
  "limbs a0 a1 a2 a3 a4 = a0 + 2 ^ 26 * a1 + 2 ^ 52 * a2 + 2 ^ 78 * a3 + 2 ^ 104 * a4"

text \<open>The product of two numbers in limbs, with what is above 2^130 folded down.\<close>

lemma limbs_mult:
  "limbs a0 a1 a2 a3 a4 * limbs c0 c1 c2 c3 c4 =
    limbs (a0 * c0 + a1 * (5 * c4) + a2 * (5 * c3) + a3 * (5 * c2) + a4 * (5 * c1))
      (a0 * c1 + a1 * c0 + a2 * (5 * c4) + a3 * (5 * c3) + a4 * (5 * c2))
      (a0 * c2 + a1 * c1 + a2 * c0 + a3 * (5 * c4) + a4 * (5 * c3))
      (a0 * c3 + a1 * c2 + a2 * c1 + a3 * c0 + a4 * (5 * c4))
      (a0 * c4 + a1 * c3 + a2 * c2 + a3 * c1 + a4 * c0) +
    P1305 * limbs (a1 * c4 + a2 * c3 + a3 * c2 + a4 * c1) (a2 * c4 + a3 * c3 + a4 * c2) (a3 * c4 + a4 * c3) (a4 * c4) 0"
  unfolding limbs_def P1305_def by (simp add: algebra_simps)

text \<open>One pass of carries over limbs.\<close>

lemma limbs_carry_eq:
  assumes "t0 = m0 + 2 ^ 26 * q0" "t1 + q0 = m1 + 2 ^ 26 * q1" "t2 + q1 = m2 + 2 ^ 26 * q2" "t3 + q2 = m3 + 2 ^ 26 * q3" "t4 + q3 = m4 + 2 ^ 26 * q4"
  shows "limbs t0 t1 t2 t3 t4 = limbs (m0 + 5 * q4) m1 m2 m3 m4 + P1305 * q4"
  using assms unfolding limbs_def P1305_def by simp

lemma limbs_carry:
  fixes t0 t1 t2 t3 t4 :: nat
  defines "u1 \<equiv> t1 + t0 div 2 ^ 26"
  defines "u2 \<equiv> t2 + u1 div 2 ^ 26"
  defines "u3 \<equiv> t3 + u2 div 2 ^ 26"
  defines "u4 \<equiv> t4 + u3 div 2 ^ 26"
  shows "limbs t0 t1 t2 t3 t4 =
    limbs (t0 mod 2 ^ 26 + 5 * (u4 div 2 ^ 26)) (u1 mod 2 ^ 26) (u2 mod 2 ^ 26) (u3 mod 2 ^ 26) (u4 mod 2 ^ 26) + P1305 * (u4 div 2 ^ 26)"
  by (rule limbs_carry_eq) (simp_all add: u1_def u2_def u3_def u4_def del: power_numeral)

text \<open>A 128-bit number from its bytes, in four words and in limbs.\<close>

lemma le_nat_append: "le_nat (xs @ ys) = le_nat xs + 256 ^ length xs * le_nat ys"
  by (induction xs) (simp_all add: algebra_simps)

lemma le_nat_less: "le_nat bs < 256 ^ length bs"
proof (induction bs)
  case (Cons b bs)
  have "unat b < 256" using unsigned_less[of b] by simp
  then show ?case using Cons by simp
qed simp

lemma or_shifted: "x < 2 ^ k \<Longrightarrow> x OR push_bit k y = x + 2 ^ k * (y :: nat)"
proof -
  assume "x < 2 ^ k"
  then have t: "take_bit k x = x" by (rule take_bit_nat_eq_self)
  have "k \<le> n \<Longrightarrow> \<not> bit x n" for n by (subst t[symmetric]) (simp add: bit_take_bit_iff)
  then have "x AND push_bit k y = 0" by (intro bit_eqI) (auto simp: bit_and_iff bit_push_bit_iff)
  then have "x + push_bit k y = x OR push_bit k y" by (rule disjunctive_add_eq_or)
  then show ?thesis by (simp add: push_bit_eq_mult mult.commute)
qed

lemma unat_or_shifted:
  fixes a b :: "'a::len word"
  assumes "unat a < 2 ^ k" and "2 ^ k * unat b < 2 ^ LENGTH('a)"
  shows "unat (a OR push_bit k b) = unat a + 2 ^ k * unat b"
proof -
  have "unat (push_bit k b) = push_bit k (unat b)"
    using assms(2) by (subst unsigned_push_bit_eq) (simp add: take_bit_nat_eq_self push_bit_eq_mult mult.commute)
  then show ?thesis using or_shifted[OF assms(1)] by (simp add: unsigned_or_eq)
qed

lemma unat_widen: "LENGTH('a) \<le> LENGTH('b) \<Longrightarrow> unat (ucast (w :: 'a::len word) :: 'b::len word) = unat w"
  by (simp add: unsigned_ucast_eq take_bit_nat_eq_self order_less_le_trans[OF unsigned_less])

lemma unat_le_word: "8 * length bs \<le> LENGTH('a) \<Longrightarrow> unat (le_word bs :: 'a::len word) = le_nat bs"
proof (induction bs)
  case (Cons b bs)
  let ?w = "le_word bs :: 'a word"
  have l: "8 \<le> LENGTH('a)" "8 * length bs \<le> LENGTH('a)" using Cons.prems by simp_all
  have w: "unat ?w = le_nat bs" using Cons.IH l by simp
  have b: "unat (ucast b :: 'a word) = unat b" using l(1) by (simp add: unat_widen)
  have "256 * le_nat bs < 256 * 256 ^ length bs" using le_nat_less[of bs] by simp
  also have "\<dots> = 2 ^ (8 * length (b # bs))" by (simp add: power_mult power_add)
  also have "\<dots> \<le> 2 ^ LENGTH('a)" using Cons.prems by (intro power_increasing) auto
  finally have "2 ^ 8 * unat ?w < 2 ^ LENGTH('a)" using w by simp
  moreover have "unat (ucast b :: 'a word) < 2 ^ 8" using b unsigned_less[of b] by simp
  ultimately show ?case using unat_or_shifted[of "ucast b" 8 ?w] b w by simp
qed simp

lemma unat_U8TO32: "4 \<le> length m \<Longrightarrow> unat (U8TO32_LE m) = le_nat (take 4 m)"
  by (simp add: U8TO32_LE_def unat_le_word)

lemma le_nat_16:
  assumes "length m = 16"
  shows "le_nat m = unat (U8TO32_LE m) + 2 ^ 32 * unat (U8TO32_LE (drop 4 m)) + 2 ^ 64 * unat (U8TO32_LE (drop 8 m)) +
    2 ^ 96 * unat (U8TO32_LE (drop 12 m))"
proof -
  have split: "le_nat xs = le_nat (take 4 xs) + 2 ^ 32 * le_nat (drop 4 xs)" if "4 \<le> length xs" for xs
    using le_nat_append[of "take 4 xs" "drop 4 xs"] that by (simp add: min_def)
  have "take 4 (drop 12 m) = drop 12 m" using assms by simp
  then show ?thesis using split[of m] split[of "drop 4 m"] split[of "drop 8 m"] assms by (simp add: unat_U8TO32)
qed

lemma window:
  fixes d e b x y :: nat
  assumes "x < d * e" and "0 < d"
  shows "(d * e * y + x) div d mod (e * b) = e * (y mod b) + x div d"
proof -
  have q: "x div d < e" using assms by (simp add: div_less_iff_less_mult mult.commute)
  have "(d * e * y + x) div d = e * y + x div d" using assms(2) by (simp add: mult.assoc)
  moreover have "(e * y + x div d) div e = y" "(e * y + x div d) mod e = x div d" using q by simp_all
  ultimately show ?thesis by (simp only: mod_mult2_eq)
qed

lemma message_limbs_eq:
  assumes "t0 = m0 + 2 ^ 26 * q0" "t1 = m1 + 2 ^ 20 * q1" "t2 = m2 + 2 ^ 14 * q2" "t3 = m3 + 2 ^ 8 * q3"
  shows "limbs m0 (2 ^ 6 * m1 + q0) (2 ^ 12 * m2 + q1) (2 ^ 18 * m3 + q2) q3 = t0 + 2 ^ 32 * t1 + 2 ^ 64 * t2 + 2 ^ 96 * t3"
  using assms unfolding limbs_def by simp

lemma message_limbs:
  fixes t0 t1 t2 t3 :: nat
  assumes "t0 < 2 ^ 32" "t1 < 2 ^ 32" "t2 < 2 ^ 32"
  shows "limbs (t0 mod 2 ^ 26) ((2 ^ 32 * t1 + t0) div 2 ^ 26 mod 2 ^ 26) ((2 ^ 32 * t2 + t1) div 2 ^ 20 mod 2 ^ 26)
    ((2 ^ 32 * t3 + t2) div 2 ^ 14 mod 2 ^ 26) (t3 div 2 ^ 8) = t0 + 2 ^ 32 * t1 + 2 ^ 64 * t2 + 2 ^ 96 * t3"
proof -
  have p: "(2 :: nat) ^ 26 * 2 ^ 6 = 2 ^ 32" "(2 :: nat) ^ 6 * 2 ^ 20 = 2 ^ 26" "(2 :: nat) ^ 20 * 2 ^ 12 = 2 ^ 32"
    "(2 :: nat) ^ 12 * 2 ^ 14 = 2 ^ 26" "(2 :: nat) ^ 14 * 2 ^ 18 = 2 ^ 32" "(2 :: nat) ^ 18 * 2 ^ 8 = 2 ^ 26" by simp_all
  have "(2 ^ 32 * t1 + t0) div 2 ^ 26 mod 2 ^ 26 = 2 ^ 6 * (t1 mod 2 ^ 20) + t0 div 2 ^ 26"
    by (rule window[of t0 "2 ^ 26" "2 ^ 6" t1 "2 ^ 20", unfolded p, OF assms(1)]) simp
  moreover have "(2 ^ 32 * t2 + t1) div 2 ^ 20 mod 2 ^ 26 = 2 ^ 12 * (t2 mod 2 ^ 14) + t1 div 2 ^ 20"
    by (rule window[of t1 "2 ^ 20" "2 ^ 12" t2 "2 ^ 14", unfolded p, OF assms(2)]) simp
  moreover have "(2 ^ 32 * t3 + t2) div 2 ^ 14 mod 2 ^ 26 = 2 ^ 18 * (t3 mod 2 ^ 8) + t2 div 2 ^ 14"
    by (rule window[of t2 "2 ^ 14" "2 ^ 18" t3 "2 ^ 8", unfolded p, OF assms(3)]) simp
  ultimately show ?thesis
    by (simp only:) (rule message_limbs_eq[OF mod_mult_div_eq[symmetric] mod_mult_div_eq[symmetric] mod_mult_div_eq[symmetric] mod_mult_div_eq[symmetric]])
qed

section \<open>The limbs of a state\<close>

definition hval :: "poly1305_state_st \<Rightarrow> nat" where
  "hval st = limbs (unat (h0 st)) (unat (h1 st)) (unat (h2 st)) (unat (h3 st)) (unat (h4 st))"

definition rval :: "poly1305_state_st \<Rightarrow> nat" where
  "rval st = limbs (unat (r0 st)) (unat (r1 st)) (unat (r2 st)) (unat (r3 st)) (unat (r4 st))"

text \<open>
  The bounds between two blocks, and with a block added. The lowest limb takes what is folded down
  and gets to 43 times 2^26; with more, a carry of the next block would not fit in 32 bits.
\<close>

definition carried :: "poly1305_state_st \<Rightarrow> bool" where
  "carried st \<longleftrightarrow> unat (h0 st) < 43 * 2 ^ 26 \<and> unat (h1 st) < 2 ^ 26 \<and> unat (h2 st) < 2 ^ 26 \<and> unat (h3 st) < 2 ^ 26 \<and> unat (h4 st) < 2 ^ 26"

definition added :: "poly1305_state_st \<Rightarrow> bool" where
  "added st \<longleftrightarrow> unat (h0 st) < 44 * 2 ^ 26 \<and> unat (h1 st) < 2 ^ 27 \<and> unat (h2 st) < 2 ^ 27 \<and> unat (h3 st) < 2 ^ 27 \<and>
     2 * unat (h4 st) < 3 * 2 ^ 26"

definition keyed :: "poly1305_state_st \<Rightarrow> bool" where
  "keyed st \<longleftrightarrow> unat (r0 st) < 2 ^ 26 \<and> unat (r1 st) < 2 ^ 26 \<and> unat (r2 st) \<le> 0x3ffc0ff \<and> unat (r3 st) \<le> 0x3f03fff \<and> unat (r4 st) < 2 ^ 20 \<and>
     s1 st = r1 st * 5 \<and> s2 st = r2 st * 5 \<and> s3 st = r3 st * 5 \<and> s4 st = r4 st * 5"

lemma unat_and_mask: "unat (w AND mask k) = unat w mod 2 ^ k"
  unfolding take_bit_eq_mask[symmetric] unsigned_take_bit_eq by (rule take_bit_eq_mod)

lemma unat_limb: "unat ((w :: u32) AND 0x3ffffff) = unat w mod 2 ^ 26" "unat ((v :: u64) AND 0x3ffffff) = unat v mod 2 ^ 26"
  using unat_and_mask[of w 26] unat_and_mask[of v 26] by (simp_all add: mask_eq_exp_minus_1)

lemma unat_window:
  fixes x y :: u32
  shows "unat (drop_bit k (push_bit 32 (ucast y) OR ucast x :: u64) AND 0x3ffffff) = (2 ^ 32 * unat y + unat x) div 2 ^ k mod 2 ^ 26"
proof -
  have "unat (ucast x :: u64) = unat x" "unat (ucast y :: u64) = unat y" by (simp_all add: unat_widen)
  then have "unat (ucast x OR push_bit 32 (ucast y) :: u64) = unat x + 2 ^ 32 * unat y"
    using unsigned_less[of x] unsigned_less[of y] unat_or_shifted[of "ucast x :: u64" 32 "ucast y"] by simp
  then show ?thesis by (simp only: unat_limb unat_drop_bit or.commute add.commute)
qed

lemma unat_plus_len: "unat a + unat b < 2 ^ LENGTH('a) \<Longrightarrow> unat (a + b) = unat a + unat (b :: 'a::len word)"
  by (simp add: unat_word_ariths)

lemma unat_narrow: "unat w < 2 ^ LENGTH('b) \<Longrightarrow> unat (ucast (w :: 'a::len word) :: 'b::len word) = unat w"
  by (simp add: unsigned_ucast_eq take_bit_nat_eq_self)

lemma unat_mul32x32: "unat (mul32x32_64 a b) = unat a * unat b"
proof -
  have "unat a * unat b < 2 ^ 32 * 2 ^ 32" using unsigned_less[of a] unsigned_less[of b] by (intro mult_strict_mono) simp_all
  then show ?thesis by (simp add: mul32x32_64_def unat_word_ariths unat_widen)
qed

lemma u32_less: "unat (w :: u32) < 2 ^ 32"
proof -
  have "unat w < 2 ^ LENGTH(32)" by (rule unsigned_less)
  then show ?thesis by simp
qed

lemma limbs_plus: "limbs (a0 + c0) (a1 + c1) (a2 + c2) (a3 + c3) (a4 + c4) = limbs a0 a1 a2 a3 a4 + limbs c0 c1 c2 c3 c4"
  by (simp add: limbs_def algebra_simps)

text \<open>A block is added without a carry lost.\<close>

lemma add_block_limbs:
  assumes "length m = 16" and "carried st" and "unat k \<le> 1"
  shows "added (add_block (push_bit 24 k) m st)" and "hval (add_block (push_bit 24 k) m st) = hval st + (le_nat m + 2 ^ 128 * unat k)"
proof -
  let ?s = "add_block (push_bit 24 k) m st"
  define t0 t1 t2 t3 where t: "t0 = U8TO32_LE m" "t1 = U8TO32_LE (drop 4 m)" "t2 = U8TO32_LE (drop 8 m)" "t3 = U8TO32_LE (drop 12 m)"
  define w where "w j x y = (2 ^ 32 * unat y + unat x) div 2 ^ j mod 2 ^ 26" for j and x y :: u32
  have w: "w j x y < 2 ^ 26" for j x y by (simp add: w_def)
  have mid: "unat (ucast (ucast h + (drop_bit j (push_bit 32 (ucast y) OR ucast x :: u64) AND 0x3ffffff)) :: u32) = unat h + w j x y"
    if "unat h < 2 ^ 26" for h x y :: u32 and j
  proof -
    let ?w = "drop_bit j (push_bit 32 (ucast y) OR ucast x :: u64) AND 0x3ffffff"
    have u: "unat ?w = w j x y" by (simp only: unat_window w_def)
    have "unat (ucast h + ?w :: u64) = unat (ucast h :: u64) + unat ?w"
      by (rule unat_plus_len) (use that w[of j x y] in \<open>simp add: u unat_widen del: drop_bit_or\<close>)
    then have "unat (ucast h + ?w :: u64) = unat h + w j x y" by (simp only: u) (simp add: unat_widen)
    then show ?thesis using that w[of j x y] by (subst unat_narrow) simp_all
  qed
  have h: "unat (h0 st) < 43 * 2 ^ 26" "unat (h1 st) < 2 ^ 26" "unat (h2 st) < 2 ^ 26" "unat (h3 st) < 2 ^ 26" "unat (h4 st) < 2 ^ 26"
    using assms(2) by (simp_all add: carried_def)
  have n0: "unat (h0 ?s) = unat (h0 st) + unat t0 mod 2 ^ 26"
    using h(1) by (simp add: add_block_def Let_def t(1)[symmetric] unat_plus_len unat_limb)
  have n: "unat (h1 ?s) = unat (h1 st) + w 26 t0 t1" "unat (h2 ?s) = unat (h2 st) + w 20 t1 t2" "unat (h3 ?s) = unat (h3 st) + w 14 t2 t3"
    using h mid by (simp_all add: add_block_def Let_def t[symmetric])
  have d: "unat (drop_bit 8 t3) < 2 ^ 24" using u32_less[of t3] by (simp add: unat_drop_bit)
  then have "unat (drop_bit 8 t3 OR push_bit 24 k) = unat t3 div 2 ^ 8 + 2 ^ 24 * unat k"
    using assms(3) by (subst unat_or_shifted) (simp_all add: unat_drop_bit)
  moreover have q: "unat t3 div 2 ^ 8 < 2 ^ 24" using d by (simp add: unat_drop_bit)
  ultimately have n4: "unat (h4 ?s) = unat (h4 st) + (unat t3 div 2 ^ 8 + 2 ^ 24 * unat k)"
    using h(5) assms(3) by (simp add: add_block_def Let_def t(4)[symmetric] unat_plus_len)
  show "added ?s" unfolding added_def n0 n n4 using h w[of 26 t0 t1] w[of 20 t1 t2] w[of 14 t2 t3] q assms(3) by simp
  have "hval ?s = hval st + limbs (unat t0 mod 2 ^ 26) (w 26 t0 t1) (w 20 t1 t2) (w 14 t2 t3) (unat t3 div 2 ^ 8 + 2 ^ 24 * unat k)"
    unfolding hval_def n0 n n4 by (rule limbs_plus)
  also have "\<dots> = hval st + (limbs (unat t0 mod 2 ^ 26) (w 26 t0 t1) (w 20 t1 t2) (w 14 t2 t3) (unat t3 div 2 ^ 8) + 2 ^ 128 * unat k)"
    by (simp add: limbs_def)
  also have "\<dots> = hval st + (le_nat m + 2 ^ 128 * unat k)"
    using message_limbs[of "unat t0" "unat t1" "unat t2" "unat t3"] u32_less[of t0] u32_less[of t1] u32_less[of t2]
      le_nat_16[OF assms(1)] by (simp add: w_def t[symmetric])
  finally show "hval ?s = hval st + (le_nat m + 2 ^ 128 * unat k)" .
qed

text \<open>The carries of the multiplication, in words that do not overflow.\<close>

lemma carry_words:
  fixes t0 t1 t2 t3 t4 :: u64
  assumes "unat t0 < 72 * 2 ^ 52" "unat t1 + 2 ^ 33 < 2 ^ 58" "unat t2 + 2 ^ 32 < 2 ^ 58" "unat t3 + 2 ^ 32 < 2 ^ 58" "unat t4 + 2 ^ 32 < 33 * 2 ^ 50"
  defines "u1 \<equiv> t1 + drop_bit 26 t0"
  defines "u2 \<equiv> t2 + ucast (ucast (drop_bit 26 u1) :: u32)"
  defines "u3 \<equiv> t3 + ucast (ucast (drop_bit 26 u2) :: u32)"
  defines "u4 \<equiv> t4 + ucast (ucast (drop_bit 26 u3) :: u32)"
  defines "z0 \<equiv> (ucast t0 AND 0x3ffffff) + ucast (drop_bit 26 u4) * 5 :: u32"
  shows "limbs (unat t0) (unat t1) (unat t2) (unat t3) (unat t4) =
      limbs (unat z0) (unat u1 mod 2 ^ 26) (unat u2 mod 2 ^ 26) (unat u3 mod 2 ^ 26) (unat u4 mod 2 ^ 26) + P1305 * (unat u4 div 2 ^ 26)"
    and "unat z0 < 43 * 2 ^ 26"
proof -
  have step: "unat (t + ucast (ucast (drop_bit 26 u) :: u32) :: u64) = unat t + unat u div 2 ^ 26"
    if "unat u < 2 ^ 58" "unat t + 2 ^ 32 < 2 ^ 58" for t u :: u64
  proof -
    have q: "unat u div 2 ^ 26 < 2 ^ 32" using that(1) by (simp add: less_mult_imp_div_less)
    then have "unat (ucast (ucast (drop_bit 26 u) :: u32) :: u64) = unat u div 2 ^ 26"
      by (simp add: unat_widen unat_narrow unat_drop_bit)
    then show ?thesis using q that(2) by (subst unat_plus_len) simp_all
  qed
  have q0: "unat t0 div 2 ^ 26 < 2 ^ 33" using assms(1) by (simp add: less_mult_imp_div_less)
  then have u1: "unat u1 = unat t1 + unat t0 div 2 ^ 26"
    using assms(2) unfolding u1_def by (subst unat_plus_len) (simp_all add: unat_drop_bit)
  then have b1: "unat u1 < 2 ^ 58" using q0 assms(2) by simp
  then have u2: "unat u2 = unat t2 + unat u1 div 2 ^ 26" unfolding u2_def by (rule step) (rule assms(3))
  then have b2: "unat u2 < 2 ^ 58" using b1 assms(3) less_mult_imp_div_less[of "unat u1" "2 ^ 32" "2 ^ 26"] by simp
  then have u3: "unat u3 = unat t3 + unat u2 div 2 ^ 26" unfolding u3_def by (rule step) (rule assms(4))
  then have b3: "unat u3 < 2 ^ 58" using b2 assms(4) less_mult_imp_div_less[of "unat u2" "2 ^ 32" "2 ^ 26"] by simp
  then have u4: "unat u4 = unat t4 + unat u3 div 2 ^ 26" unfolding u4_def by (rule step) (use assms(5) in simp)
  then have "unat u4 < 33 * 2 ^ 50" using b3 assms(5) less_mult_imp_div_less[of "unat u3" "2 ^ 32" "2 ^ 26"] by simp
  then have q4: "unat u4 div 2 ^ 26 < 33 * 2 ^ 24" by (simp add: less_mult_imp_div_less)
  have "unat (ucast (drop_bit 26 u4) :: u32) = unat u4 div 2 ^ 26" using q4 by (simp add: unat_narrow unat_drop_bit)
  then have p: "unat (ucast (drop_bit 26 u4) * 5 :: u32) = unat u4 div 2 ^ 26 * 5" using q4 by (simp add: unat_word_ariths)
  have m: "unat (ucast t0 AND 0x3ffffff :: u32) = unat t0 mod 2 ^ 26"
    by (simp add: unat_limb unsigned_ucast_eq take_bit_eq_mod mod_mod_cancel)
  have z: "unat z0 = unat t0 mod 2 ^ 26 + 5 * (unat u4 div 2 ^ 26)"
    unfolding z0_def using q4 by (subst unat_plus_len) (simp_all add: p m)
  show "unat z0 < 43 * 2 ^ 26" using q4 z by simp
  show "limbs (unat t0) (unat t1) (unat t2) (unat t3) (unat t4) =
      limbs (unat z0) (unat u1 mod 2 ^ 26) (unat u2 mod 2 ^ 26) (unat u3 mod 2 ^ 26) (unat u4 mod 2 ^ 26) + P1305 * (unat u4 div 2 ^ 26)"
    unfolding z u4 u3 u2 u1 by (rule limbs_carry)
qed

lemma unat_sum5:
  assumes "a0 \<le> A0" "a1 \<le> A1" "a2 \<le> A2" "a3 \<le> A3" "a4 \<le> A4" "c0 \<le> C0" "c1 \<le> C1" "c2 \<le> C2" "c3 \<le> C3" "c4 \<le> C4"
    and "A0 * C0 + A1 * C1 + A2 * C2 + A3 * C3 + A4 * C4 < (2 ^ 64 :: nat)"
    and "unat x0 = a0" "unat x1 = a1" "unat x2 = a2" "unat x3 = a3" "unat x4 = a4" "unat y0 = c0" "unat y1 = c1" "unat y2 = c2" "unat y3 = c3" "unat y4 = c4"
  defines "s \<equiv> mul32x32_64 x0 y0 + mul32x32_64 x1 y1 + mul32x32_64 x2 y2 + mul32x32_64 x3 y3 + mul32x32_64 x4 y4"
  shows "unat s = a0 * c0 + a1 * c1 + a2 * c2 + a3 * c3 + a4 * c4" and "unat s \<le> A0 * C0 + A1 * C1 + A2 * C2 + A3 * C3 + A4 * C4"
proof -
  have le: "a0 * c0 + a1 * c1 + a2 * c2 + a3 * c3 + a4 * c4 \<le> A0 * C0 + A1 * C1 + A2 * C2 + A3 * C3 + A4 * C4"
    by (intro add_mono mult_le_mono assms)
  then have "a0 * c0 + a1 * c1 + a2 * c2 + a3 * c3 + a4 * c4 < 2 ^ 64" using assms(11) by simp
  then show "unat s = a0 * c0 + a1 * c1 + a2 * c2 + a3 * c3 + a4 * c4"
    unfolding s_def using assms(12-21) by (simp add: unat_plus_len unat_mul32x32)
  then show "unat s \<le> A0 * C0 + A1 * C1 + A2 * C2 + A3 * C3 + A4 * C4" using le by simp
qed

text \<open>The multiplication, modulo 2^130 - 5.\<close>

lemma donna_mul_limbs:
  assumes "added st" and "keyed st"
  shows "carried (donna_mul st)" and "hval (donna_mul st) mod P1305 = hval st * rval st mod P1305"
proof -
  let ?h0 = "unat (h0 st)" and ?h1 = "unat (h1 st)" and ?h2 = "unat (h2 st)" and ?h3 = "unat (h3 st)" and ?h4 = "unat (h4 st)"
  let ?r0 = "unat (r0 st)" and ?r1 = "unat (r1 st)" and ?r2 = "unat (r2 st)" and ?r3 = "unat (r3 st)" and ?r4 = "unat (r4 st)"
  have h: "?h0 \<le> 44 * 2 ^ 26" "?h1 \<le> 2 ^ 27" "?h2 \<le> 2 ^ 27" "?h3 \<le> 2 ^ 27" "?h4 \<le> 3 * 2 ^ 25"
    using assms(1) by (simp_all add: added_def)
  have r: "?r0 \<le> 2 ^ 26" "?r1 \<le> 2 ^ 26" "?r2 \<le> 2 ^ 26" "?r3 \<le> 0x3f03fff" "?r4 \<le> 2 ^ 20"
    using assms(2) by (simp_all add: keyed_def)
  have s: "5 * ?r1 \<le> 5 * 2 ^ 26" "5 * ?r2 \<le> 5 * 2 ^ 26" "5 * ?r3 \<le> 5 * 0x3f03fff" "5 * ?r4 \<le> 5 * 2 ^ 20" using r by simp_all
  have u: "unat (s1 st) = 5 * ?r1" "unat (s2 st) = 5 * ?r2" "unat (s3 st) = 5 * ?r3" "unat (s4 st) = 5 * ?r4"
    using assms(2) by (simp_all add: keyed_def unat_word_ariths)
  define t0 where "t0 = mul32x32_64 (h0 st) (r0 st) + mul32x32_64 (h1 st) (s4 st) + mul32x32_64 (h2 st) (s3 st) +
               mul32x32_64 (h3 st) (s2 st) + mul32x32_64 (h4 st) (s1 st)"
  define t1 where "t1 = mul32x32_64 (h0 st) (r1 st) + mul32x32_64 (h1 st) (r0 st) + mul32x32_64 (h2 st) (s4 st) +
               mul32x32_64 (h3 st) (s3 st) + mul32x32_64 (h4 st) (s2 st)"
  define t2 where "t2 = mul32x32_64 (h0 st) (r2 st) + mul32x32_64 (h1 st) (r1 st) + mul32x32_64 (h2 st) (r0 st) +
               mul32x32_64 (h3 st) (s4 st) + mul32x32_64 (h4 st) (s3 st)"
  define t3 where "t3 = mul32x32_64 (h0 st) (r3 st) + mul32x32_64 (h1 st) (r2 st) + mul32x32_64 (h2 st) (r1 st) +
               mul32x32_64 (h3 st) (r0 st) + mul32x32_64 (h4 st) (s4 st)"
  define t4 where "t4 = mul32x32_64 (h0 st) (r4 st) + mul32x32_64 (h1 st) (r3 st) + mul32x32_64 (h2 st) (r2 st) +
               mul32x32_64 (h3 st) (r1 st) + mul32x32_64 (h4 st) (r0 st)"
  note T0 = unat_sum5[OF h r(1) s(4,3,2,1) _ refl refl refl refl refl refl u(4,3,2,1), folded t0_def]
  note T1 = unat_sum5[OF h r(2,1) s(4,3,2) _ refl refl refl refl refl refl refl u(4,3,2), folded t1_def]
  note T2 = unat_sum5[OF h r(3,2,1) s(4,3) _ refl refl refl refl refl refl refl refl u(4,3), folded t2_def]
  note T3 = unat_sum5[OF h r(4,3,2,1) s(4) _ refl refl refl refl refl refl refl refl refl u(4), folded t3_def]
  note T4 = unat_sum5[OF h r(5,4,3,2,1) _ refl refl refl refl refl refl refl refl refl refl, folded t4_def]
  define u1 where "u1 = t1 + drop_bit 26 t0"
  define u2 where "u2 = t2 + ucast (ucast (drop_bit 26 u1) :: u32)"
  define u3 where "u3 = t3 + ucast (ucast (drop_bit 26 u2) :: u32)"
  define u4 where "u4 = t4 + ucast (ucast (drop_bit 26 u3) :: u32)"
  define z0 :: u32 where "z0 = (ucast t0 AND 0x3ffffff) + ucast (drop_bit 26 u4) * 5"
  have b: "unat t0 < 72 * 2 ^ 52" "unat t1 + 2 ^ 33 < 2 ^ 58" "unat t2 + 2 ^ 32 < 2 ^ 58" "unat t3 + 2 ^ 32 < 2 ^ 58" "unat t4 + 2 ^ 32 < 33 * 2 ^ 50"
    using T0(2) T1(2) T2(2) T3(2) T4(2) by simp_all
  note C = carry_words[OF b, folded u1_def, folded u2_def, folded u3_def, folded u4_def, folded z0_def]
  have d: "donna_mul st = st\<lparr>h0 := z0, h1 := ucast u1 AND 0x3ffffff, h2 := ucast u2 AND 0x3ffffff, h3 := ucast u3 AND 0x3ffffff,
      h4 := ucast u4 AND 0x3ffffff\<rparr>"
    unfolding z0_def u4_def u3_def u2_def u1_def t0_def t1_def t2_def t3_def t4_def donna_mul_def Let_def ..
  have m: "unat (ucast x AND 0x3ffffff :: u32) = unat x mod 2 ^ 26" for x :: u64
    by (simp add: unat_limb unsigned_ucast_eq take_bit_eq_mod mod_mod_cancel)
  show "carried (donna_mul st)" unfolding d carried_def using C(2) by (simp add: m)
  have v: "hval (donna_mul st) + P1305 * (unat u4 div 2 ^ 26) = limbs (unat t0) (unat t1) (unat t2) (unat t3) (unat t4)"
    unfolding C(1) d hval_def by (simp add: m)
  define q where "q = limbs (?h1 * ?r4 + ?h2 * ?r3 + ?h3 * ?r2 + ?h4 * ?r1) (?h2 * ?r4 + ?h3 * ?r3 + ?h4 * ?r2) (?h3 * ?r4 + ?h4 * ?r3) (?h4 * ?r4) 0"
  have "hval st * rval st = limbs (unat t0) (unat t1) (unat t2) (unat t3) (unat t4) + P1305 * q"
    unfolding hval_def rval_def q_def limbs_mult using T0(1) T1(1) T2(1) T3(1) T4(1) by simp
  then have "hval st * rval st = hval (donna_mul st) + P1305 * (unat u4 div 2 ^ 26) + P1305 * q" by (simp only: v)
  then show "hval (donna_mul st) mod P1305 = hval st * rval st mod P1305" by simp
qed

end
