(* ===== verification/Poly1305_Tag.thy ===== *)
theory Poly1305_Tag
  imports Poly1305
begin

text \<open>
  Poly1305 from the blocks to the tag: what a state holds after its input, however the input was cut,
  and what the last step makes of it.
\<close>

section \<open>The blocks\<close>

lemma key_kept:
  "keyed (add_block k m st) = keyed st" "keyed (donna_mul st) = keyed st"
  "rval (add_block k m st) = rval st" "rval (donna_mul st) = rval st"
  "mac_key (add_block k m st) = mac_key st" "mac_key (donna_mul st) = mac_key st"
  by (simp_all add: keyed_def rval_def add_block_def donna_mul_def Let_def)

lemma update_key: "keyed (poly1305_update st inp) = keyed st \<and> rval (poly1305_update st inp) = rval st \<and> mac_key (poly1305_update st inp) = mac_key st"
proof (induction st inp rule: poly1305_update.induct)
  case (1 st inp)
  then show ?case by (subst (1 2 3) poly1305_update.simps) (simp add: key_kept Let_def)
qed

lemma block_step:
  assumes "carried st" and "keyed st" and "length m = 16" and "unat k \<le> 1"
  shows "carried (donna_mul (add_block (push_bit 24 k) m st))"
    and "hval (donna_mul (add_block (push_bit 24 k) m st)) mod P1305 = (hval st + (le_nat m + 2 ^ 128 * unat k)) * rval st mod P1305"
  using donna_mul_limbs[of "add_block (push_bit 24 k) m st"] add_block_limbs[OF assms(3,1,4)] assms(2) by (simp_all add: key_kept)

lemma poly_eval_mod: "poly_eval r (a mod P1305) msg mod P1305 = poly_eval r a msg mod P1305"
proof (cases "msg = []")
  case False
  have "(a mod P1305 + x) * r mod P1305 = (a + x) * r mod P1305" for x by (metis mod_add_left_eq mod_mult_left_eq)
  then show ?thesis using False by (subst (1 2) poly_eval.simps) simp
qed (simp add: poly_eval.simps)

lemma poly_eval_cong: "a mod P1305 = c mod P1305 \<Longrightarrow> poly_eval r a msg mod P1305 = poly_eval r c msg mod P1305"
  by (metis poly_eval_mod)

lemma le_nat_zeros: "le_nat (replicate n 0) = 0"
  by (induction n) simp_all

lemma update_eval:
  "carried st \<Longrightarrow> keyed st \<Longrightarrow>
    carried (poly1305_update st inp) \<and> hval (poly1305_update st inp) mod P1305 = poly_eval (rval st) (hval st) inp mod P1305"
proof (induction st inp rule: poly1305_update.induct)
  case (1 st inp)
  consider "16 \<le> length inp" | "inp = []" | "inp \<noteq> []" "length inp < 16" by fastforce
  then show ?case
  proof cases
    case 1
    let ?st = "donna_mul (add_block (push_bit 24 1) (take 16 inp) st)"
    have s: "carried ?st" "hval ?st mod P1305 = (hval st + (le_nat (take 16 inp) + 2 ^ 128)) * rval st mod P1305"
      using block_step[OF "1.prems", of "take 16 inp" 1] 1 by simp_all
    have "le_nat (take 16 inp @ [1]) = le_nat (take 16 inp) + 2 ^ 128" using 1 by (simp add: le_nat_append)
    then have "poly_eval (rval st) (hval st) inp = poly_eval (rval st) (hval ?st mod P1305) (drop 16 inp)"
      using 1 s(2) by (subst poly_eval.simps) auto
    then show ?thesis using "1.IH"[OF 1 s(1)] "1.prems" 1 by (subst (1 2) poly1305_update.simps) (simp add: key_kept poly_eval_mod)
  next
    case 2
    then show ?thesis using "1.prems" by (simp add: poly1305_update.simps poly_eval.simps)
  next
    case 3
    let ?mp = "inp @ 1 # replicate (15 - length inp) 0"
    have "le_nat ?mp = le_nat (inp @ [1])" by (simp add: le_nat_append le_nat_zeros)
    then show ?thesis using block_step[OF "1.prems", of ?mp 0] 3 by (simp add: poly1305_update.simps poly_eval.simps Let_def)
  qed
qed

section \<open>The key\<close>

lemma or_shifted_out:
  fixes x y :: u32
  assumes "unat x < 2 ^ k" and "k \<le> 32"
  shows "unat (x OR push_bit k y) = unat x + 2 ^ k * (unat y mod 2 ^ (32 - k))"
proof -
  have "unat (push_bit k y) = push_bit k (unat y mod 2 ^ (32 - k))"
    using assms(2) by (simp add: unsigned_push_bit_eq take_bit_push_bit flip: take_bit_eq_mod)
  then show ?thesis using or_shifted[OF assms(1)] by (simp add: unsigned_or_eq)
qed

lemma and_digit: "a < 2 ^ 26 \<Longrightarrow> c < 2 ^ 26 \<Longrightarrow> (a + 2 ^ 26 * b) AND (c + 2 ^ 26 * d) = (a AND c) + 2 ^ 26 * (b AND (d :: nat))"
proof -
  assume l: "a < 2 ^ 26" "c < 2 ^ 26"
  have low: "\<not> bit a n" "\<not> bit c n" if "26 \<le> n" for n
    using l that by (metis bit_take_bit_iff leD take_bit_nat_eq_self)+
  have "a AND c < 2 ^ 26" using l by (metis take_bit_and take_bit_nat_eq_self take_bit_nat_less_exp)
  moreover have "(a OR push_bit 26 b) AND (c OR push_bit 26 d) = (a AND c) OR push_bit 26 (b AND d)"
    by (rule bit_eqI) (use low in \<open>auto simp: bit_and_iff bit_or_iff bit_push_bit_iff\<close>)
  ultimately show ?thesis using l by (simp only: or_shifted)
qed

lemma limbs_and:
  assumes "a0 < 2 ^ 26" "a1 < 2 ^ 26" "a2 < 2 ^ 26" "a3 < 2 ^ 26" "c0 < 2 ^ 26" "c1 < 2 ^ 26" "c2 < 2 ^ 26" "c3 < 2 ^ 26"
  shows "limbs a0 a1 a2 a3 a4 AND limbs c0 c1 c2 c3 c4 = limbs (a0 AND c0) (a1 AND c1) (a2 AND c2) (a3 AND c3) (a4 AND c4)"
proof -
  have h: "limbs x0 x1 x2 x3 x4 = x0 + 2 ^ 26 * (x1 + 2 ^ 26 * (x2 + 2 ^ 26 * (x3 + 2 ^ 26 * x4)))" for x0 x1 x2 x3 x4
    by (simp add: limbs_def)
  show ?thesis unfolding h using assms by (simp only: and_digit)
qed

lemma and_small: "m < 2 ^ k \<Longrightarrow> x AND m = x mod 2 ^ k AND (m :: nat)"
  by (metis take_bit_and take_bit_eq_mod take_bit_nat_eq_self and.assoc and.commute take_bit_eq_mask)

lemma keyed_init:
  assumes "length key = 32"
  shows "keyed (CRYPTO_poly1305_init memory key)" and "rval (CRYPTO_poly1305_init memory key) = clamped key"
proof -
  define t0 t1 t2 t3 where t: "t0 = U8TO32_LE key" "t1 = U8TO32_LE (drop 4 key)" "t2 = U8TO32_LE (drop 8 key)" "t3 = U8TO32_LE (drop 12 key)"
  let ?st = "CRYPTO_poly1305_init memory key"
  have st: "r0 ?st = t0 AND 0x3ffffff" "r1 ?st = (drop_bit 26 t0 OR push_bit 6 t1) AND 0x3ffff03"
    "r2 ?st = (drop_bit 20 t1 OR push_bit 12 t2) AND 0x3ffc0ff" "r3 ?st = (drop_bit 14 t2 OR push_bit 18 t3) AND 0x3f03fff"
    "r4 ?st = drop_bit 8 t3 AND 0x00fffff"
    "s1 ?st = r1 ?st * 5" "s2 ?st = r2 ?st * 5" "s3 ?st = r3 ?st * 5" "s4 ?st = r4 ?st * 5"
    by (simp_all add: CRYPTO_poly1305_init_def Let_def t del: drop_bit_or)
  have le: "unat (x AND m) \<le> unat m" for x m :: u32 using word_and_le1[of x m] by (simp add: word_le_nat_alt)
  then have lt: "unat m < n \<Longrightarrow> unat (x AND m) < n" for x m :: u32 and n by (meson order_le_less_trans)
  show "keyed ?st" unfolding keyed_def st
    using le[of _ "0x3ffc0ff"] le[of _ "0x3f03fff"] by (simp add: lt del: drop_bit_or)
  have d: "unat (drop_bit j x) = unat x div 2 ^ j" "unat x div 2 ^ j < 2 ^ (32 - j)" if "j \<le> 32" for j and x :: u32
    using u32_less[of x] that by (simp_all add: unat_drop_bit less_mult_imp_div_less flip: power_add)
  have mid: "unat ((drop_bit j x OR push_bit k y) AND m) = (2 ^ k * (unat y mod 2 ^ (26 - k)) + unat x div 2 ^ j) AND unat m"
    if "j + k = 32" "k \<le> 26" "unat m < 2 ^ 26" for x y m :: u32 and j k
  proof -
    have j: "j = 32 - k" "k \<le> 32" using that by simp_all
    then have q: "unat x div 2 ^ j < 2 ^ k" using d(2)[of j x] by simp
    have e: "2 ^ 26 = (2 ^ k * 2 ^ (26 - k) :: nat)" using that(2) by (simp flip: power_add)
    have "unat (drop_bit j x OR push_bit k y) = unat x div 2 ^ j + 2 ^ k * (unat y mod 2 ^ (32 - k))"
      using d(1)[of j x] that q j(2) by (subst or_shifted_out) simp_all
    then have "unat (drop_bit j x OR push_bit k y) mod 2 ^ 26 = 2 ^ k * (unat y mod 2 ^ (32 - k) mod 2 ^ (26 - k)) + unat x div 2 ^ j"
      using window[of "unat x div 2 ^ j" 1 "2 ^ k" "unat y mod 2 ^ (32 - k)" "2 ^ (26 - k)"] q by (simp only: e) (simp add: add.commute)
    also have "unat y mod 2 ^ (32 - k) mod 2 ^ (26 - k) = unat y mod 2 ^ (26 - k)"
      by (rule mod_mod_cancel) (simp add: le_imp_power_dvd)
    finally show ?thesis using and_small[OF that(3), of "unat (drop_bit j x OR push_bit k y)"] by (simp only: unsigned_and_eq)
  qed
  have r: "rval ?st = limbs (unat t0 mod 2 ^ 26 AND 0x3ffffff) ((2 ^ 6 * (unat t1 mod 2 ^ 20) + unat t0 div 2 ^ 26) AND 0x3ffff03)
      ((2 ^ 12 * (unat t2 mod 2 ^ 14) + unat t1 div 2 ^ 20) AND 0x3ffc0ff) ((2 ^ 18 * (unat t3 mod 2 ^ 8) + unat t2 div 2 ^ 14) AND 0x3f03fff)
      (unat t3 div 2 ^ 8 AND 0x00fffff)"
    unfolding rval_def st using mid[of 26 6 "0x3ffff03"] mid[of 20 12 "0x3ffc0ff"] mid[of 14 18 "0x3f03fff"] and_small[of "0x3ffffff" 26]
    by (simp add: unsigned_and_eq unat_drop_bit del: drop_bit_or)
  have m: "(0x0ffffffc0ffffffc0ffffffc0fffffff :: nat) = limbs 0x3ffffff 0x3ffff03 0x3ffc0ff 0x3f03fff 0x00fffff" by (simp add: limbs_def)
  have n: "le_nat (take 16 key) = limbs (unat t0 mod 2 ^ 26) (2 ^ 6 * (unat t1 mod 2 ^ 20) + unat t0 div 2 ^ 26)
      (2 ^ 12 * (unat t2 mod 2 ^ 14) + unat t1 div 2 ^ 20) (2 ^ 18 * (unat t3 mod 2 ^ 8) + unat t2 div 2 ^ 14) (unat t3 div 2 ^ 8)"
  proof -
    have "length (take 16 key) = 16" using assms by simp
    then have "le_nat (take 16 key) = unat t0 + 2 ^ 32 * unat t1 + 2 ^ 64 * unat t2 + 2 ^ 96 * unat t3"
      using le_nat_16[of "take 16 key"] by (simp add: t U8TO32_LE_def drop_take)
    also have "\<dots> = limbs (unat t0 mod 2 ^ 26) (2 ^ 6 * (unat t1 mod 2 ^ 20) + unat t0 div 2 ^ 26)
        (2 ^ 12 * (unat t2 mod 2 ^ 14) + unat t1 div 2 ^ 20) (2 ^ 18 * (unat t3 mod 2 ^ 8) + unat t2 div 2 ^ 14) (unat t3 div 2 ^ 8)"
      by (rule message_limbs_eq[OF mod_mult_div_eq[symmetric] mod_mult_div_eq[symmetric] mod_mult_div_eq[symmetric] mod_mult_div_eq[symmetric], symmetric])
    finally show ?thesis .
  qed
  have small: "2 ^ k * (y mod 2 ^ (26 - k)) + unat x div 2 ^ j < (2 ^ 26 :: nat)" if "j + k = 32" "k \<le> 26" for j k y and x :: u32
  proof -
    have "j = 32 - k" using that by simp
    then have "unat x div 2 ^ j < 2 ^ k" using d(2)[of j x] that by simp
    moreover have "Suc (y mod 2 ^ (26 - k)) \<le> 2 ^ (26 - k)" by (simp add: Suc_leI)
    then have "2 ^ k * Suc (y mod 2 ^ (26 - k)) \<le> 2 ^ k * 2 ^ (26 - k)" by (rule mult_le_mono2)
    moreover have "(2 ^ k * 2 ^ (26 - k) :: nat) = 2 ^ 26" using that(2) by (simp flip: power_add)
    ultimately show ?thesis by simp
  qed
  show "rval ?st = clamped key" unfolding clamped_def m n r
    by (rule limbs_and[symmetric]) (use small[of 26 6 _ t0] small[of 20 12 _ t1] small[of 14 18 _ t2] in simp_all)
qed

section \<open>The input in pieces\<close>

text \<open>The limbs do not depend on the buffer.\<close>

definition buffered :: "bytes \<Rightarrow> nat \<Rightarrow> poly1305_state_st \<Rightarrow> poly1305_state_st" where
  "buffered b n st = st\<lparr>buf := b, buf_used := n\<rparr>"

lemma buffered_sel [simp]: "buf (buffered b n st) = b" "buf_used (buffered b n st) = n" "mac_key (buffered b n st) = mac_key st"
  "(buffered b n st)\<lparr>buf := c\<rparr> = buffered c n st" "(buffered b n st)\<lparr>buf_used := m\<rparr> = buffered b m st"
  "buffered c m (buffered b n st) = buffered c m st" "buffered (buf st) (buf_used st) st = st"
  by (simp_all add: buffered_def)

lemma update_buffered: "poly1305_update (buffered b n st) inp = buffered b n (poly1305_update st inp)"
proof (induction st inp rule: poly1305_update.induct)
  case (1 st inp)
  have c: "donna_mul (add_block k m (buffered b n st)) = buffered b n (donna_mul (add_block k m st))" for k m
    by (simp add: donna_mul_def add_block_def buffered_def Let_def)
  show ?case using "1" by (subst (1 2) poly1305_update.simps) (simp add: c Let_def)
qed

lemma update_append: "16 dvd length xs \<Longrightarrow> poly1305_update st (xs @ ys) = poly1305_update (poly1305_update st xs) ys"
proof (induction st xs rule: poly1305_update.induct)
  case (1 st xs)
  show ?case
  proof (cases "16 \<le> length xs")
    case True
    then have "poly1305_update st (xs @ ys) = poly1305_update (donna_mul (add_block (push_bit 24 1) (take 16 xs) st)) (drop 16 xs @ ys)"
      "poly1305_update st xs = poly1305_update (donna_mul (add_block (push_bit 24 1) (take 16 xs) st)) (drop 16 xs)"
      using poly1305_update.simps[of st "xs @ ys"] poly1305_update.simps[of st xs] by simp_all
    then show ?thesis using "1" True by (simp add: dvd_minus_self)
  next
    case False
    then have "xs = []" using "1.prems" by (auto dest: dvd_imp_le)
    then show ?thesis by (simp add: poly1305_update.simps[of st "[]"])
  qed
qed

text \<open>After \<open>msg\<close>, the whole blocks are in the limbs and the rest is in the buffer.\<close>

definition consumed :: "poly1305_state_st \<Rightarrow> bytes \<Rightarrow> poly1305_state_st \<Rightarrow> bool" where
  "consumed st0 msg st \<longleftrightarrow> (\<exists>blocks rest b. msg = blocks @ rest \<and> 16 dvd length blocks \<and> length rest < 16 \<and> length b = 16 \<and>
     take (length rest) b = rest \<and> st = buffered b (length rest) (poly1305_update st0 blocks))"

lemma consumedI: "16 dvd length blocks \<Longrightarrow> length rest < 16 \<Longrightarrow> length b = 16 \<Longrightarrow> take (length rest) b = rest \<Longrightarrow>
    consumed st0 (blocks @ rest) (buffered b (length rest) (poly1305_update st0 blocks))"
  unfolding consumed_def by blast

lemma consumed_blocks:
  fixes st0 :: poly1305_state_st
  assumes "length b = 16" and "16 dvd length blocks"
  defines "st \<equiv> buffered b 0 (poly1305_update st0 blocks)"
  shows "consumed st0 (blocks @ inp)
    (let (st, inp) =
        (if 16 \<le> length inp then
           let todo = 16 * (length inp div 16) in (poly1305_update st (take todo inp), drop todo inp)
         else (st, inp))
      in if length inp \<noteq> 0 then st\<lparr>buf := inp @ drop (length inp) (buf st), buf_used := length inp\<rparr> else st)"
proof -
  let ?n = "16 * (length inp div 16)"
  let ?S = "poly1305_update st0 (blocks @ take ?n inp)"
  have l: "length (drop ?n inp) < 16" "?n \<le> length inp" by (simp_all add: minus_mult_div_eq_mod)
  have "(if 16 \<le> length inp then let todo = ?n in (poly1305_update st (take todo inp), drop todo inp) else (st, inp)) =
      (buffered b 0 ?S, drop ?n inp)"
    using assms(2) by (simp add: st_def update_buffered update_append Let_def poly1305_update.simps[of _ "[]"])
  moreover have "consumed st0 (blocks @ inp) (buffered (drop ?n inp @ drop (length (drop ?n inp)) b) (length (drop ?n inp)) ?S)"
    using consumedI[of "blocks @ take ?n inp" "drop ?n inp" "drop ?n inp @ drop (length (drop ?n inp)) b" st0] l assms(1,2) by simp
  ultimately show ?thesis by (cases "length inp \<le> ?n") (auto simp: Let_def)
qed

lemma consumed_update: "consumed st0 msg st \<Longrightarrow> consumed st0 (msg @ inp) (CRYPTO_poly1305_update st inp)"
proof -
  assume "consumed st0 msg st"
  then obtain blocks rest b where c: "msg = blocks @ rest" "16 dvd length blocks" "length rest < 16" "length b = 16"
    "take (length rest) b = rest" "st = buffered b (length rest) (poly1305_update st0 blocks)" unfolding consumed_def by blast
  consider "rest = []" | "rest \<noteq> []" "length rest + length inp < 16" | "rest \<noteq> []" "16 \<le> length rest + length inp" by fastforce
  then show ?thesis
  proof cases
    case 1
    then show ?thesis using consumed_blocks[of b blocks st0 inp] c by (simp add: CRYPTO_poly1305_update_def)
  next
    case 2
    have l: "length inp < 16 - length rest" "length rest + length inp \<noteq> 16" "\<not> 16 \<le> length inp" using 2 by simp_all
    have "(if buf_used st \<noteq> 0 then
           let todo = 16 - buf_used st; todo = (if length inp < todo then length inp else todo);
               st = st\<lparr>buf := take (buf_used st) (buf st) @ take todo inp @ drop (buf_used st + todo) (buf st)\<rparr>;
               st = st\<lparr>buf_used := buf_used st + todo\<rparr>;
               inp = drop todo inp
           in if buf_used st = 16 then ((poly1305_update st (buf st))\<lparr>buf_used := 0\<rparr>, inp) else (st, inp)
         else (st, inp)) =
        (buffered (rest @ inp @ drop (length rest + length inp) b) (length rest + length inp) (poly1305_update st0 blocks), [])"
      using 2(1) l(1,2) c(5) by (simp add: c(6) Let_def)
    then have "CRYPTO_poly1305_update st inp =
        buffered (rest @ inp @ drop (length rest + length inp) b) (length rest + length inp) (poly1305_update st0 blocks)"
      by (simp add: CRYPTO_poly1305_update_def)
    then show ?thesis using consumedI[of blocks "rest @ inp" "rest @ inp @ drop (length rest + length inp) b" st0] 2 c(1-4) by simp
  next
    case 3
    let ?n = "16 - length rest"
    let ?b = "rest @ take ?n inp"
    have "16 dvd length (blocks @ ?b)" "length ?b = 16" using 3 c(2,3) by simp_all
    note t = consumed_blocks[OF this(2,1), of st0 "drop ?n inp"]
    have "(if buf_used st \<noteq> 0 then
           let todo = 16 - buf_used st; todo = (if length inp < todo then length inp else todo);
               st = st\<lparr>buf := take (buf_used st) (buf st) @ take todo inp @ drop (buf_used st + todo) (buf st)\<rparr>;
               st = st\<lparr>buf_used := buf_used st + todo\<rparr>;
               inp = drop todo inp
           in if buf_used st = 16 then ((poly1305_update st (buf st))\<lparr>buf_used := 0\<rparr>, inp) else (st, inp)
         else (st, inp)) = (buffered ?b 0 (poly1305_update st0 (blocks @ ?b)), drop ?n inp)"
      using 3 c(2-5) by (auto simp: c(6) Let_def update_buffered update_append)
    then show ?thesis using t by (simp add: CRYPTO_poly1305_update_def c(1))
  qed
qed

lemma consumed_pieces: "consumed st0 msg st \<Longrightarrow> consumed st0 (msg @ concat chunks) (foldl CRYPTO_poly1305_update st chunks)"
proof (induction chunks arbitrary: st msg)
  case (Cons c chunks)
  then show ?case using consumed_update[of st0 msg st c] Cons.IH[of "msg @ c"] by simp
qed simp

section \<open>The last step\<close>

text \<open>The first pass of carries; where it leaves too much in the lowest limb, the number is small.\<close>

lemma limbs_less: "a0 < 2 ^ 26 \<Longrightarrow> a1 < 2 ^ 26 \<Longrightarrow> a2 < 2 ^ 26 \<Longrightarrow> a3 < 2 ^ 26 \<Longrightarrow> a4 < 2 ^ 26 \<Longrightarrow> limbs a0 a1 a2 a3 a4 < 2 ^ 130"
  by (simp add: limbs_def)

lemma limbs_low: "limbs a0 a1 a2 a3 a4 mod 2 ^ 26 = a0 mod 2 ^ 26"
proof -
  have "limbs a0 a1 a2 a3 a4 = a0 + 2 ^ 26 * (a1 + 2 ^ 26 * a2 + 2 ^ 52 * a3 + 2 ^ 78 * a4)" by (simp add: limbs_def)
  then show ?thesis by (simp only: mod_mult_self2)
qed

lemma finish_carry:
  fixes a0 a1 a2 a3 a4 :: u32
  assumes "unat a0 < 43 * 2 ^ 26" "unat a1 < 2 ^ 26" "unat a2 < 2 ^ 26" "unat a3 < 2 ^ 26" "unat a4 < 2 ^ 26"
  defines "u1 \<equiv> a1 + drop_bit 26 a0"
  defines "u2 \<equiv> a2 + drop_bit 26 u1"
  defines "u3 \<equiv> a3 + drop_bit 26 u2"
  defines "u4 \<equiv> a4 + drop_bit 26 u3"
  defines "z0 \<equiv> (a0 AND 0x3ffffff) + drop_bit 26 u4 * 5"
  shows "limbs (unat a0) (unat a1) (unat a2) (unat a3) (unat a4) =
      limbs (unat z0) (unat u1 mod 2 ^ 26) (unat u2 mod 2 ^ 26) (unat u3 mod 2 ^ 26) (unat u4 mod 2 ^ 26) + P1305 * (unat u4 div 2 ^ 26)"
    and "2 ^ 26 \<le> unat z0 \<Longrightarrow> unat z0 < 2 ^ 26 + 5 \<and> unat u1 mod 2 ^ 26 < 43 \<and> unat u2 mod 2 ^ 26 = 0 \<and> unat u3 mod 2 ^ 26 = 0 \<and> unat u4 mod 2 ^ 26 = 0"
    and "2 ^ 26 \<le> unat z0 \<longleftrightarrow> 2 ^ 130 \<le> limbs (unat a0) (unat a1) (unat a2) (unat a3) (unat a4) \<and>
      2 ^ 26 - 5 \<le> limbs (unat a0) (unat a1) (unat a2) (unat a3) (unat a4) mod 2 ^ 26"
proof -
  have q0: "unat a0 div 2 ^ 26 < 43" using assms(1) by (simp add: less_mult_imp_div_less)
  then have u1: "unat u1 = unat a1 + unat a0 div 2 ^ 26"
    using assms(2) unfolding u1_def by (subst unat_plus_len) (simp_all add: unat_drop_bit)
  have q1: "unat u1 div 2 ^ 26 \<le> 1" using q0 assms(2) u1 by simp
  then have u2: "unat u2 = unat a2 + unat u1 div 2 ^ 26"
    using assms(3) unfolding u2_def by (subst unat_plus_len) (simp_all add: unat_drop_bit)
  have q2: "unat u2 div 2 ^ 26 \<le> 1" using q1 assms(3) u2 by simp
  then have u3: "unat u3 = unat a3 + unat u2 div 2 ^ 26"
    using assms(4) unfolding u3_def by (subst unat_plus_len) (simp_all add: unat_drop_bit)
  have q3: "unat u3 div 2 ^ 26 \<le> 1" using q2 assms(4) u3 by simp
  then have u4: "unat u4 = unat a4 + unat u3 div 2 ^ 26"
    using assms(5) unfolding u4_def by (subst unat_plus_len) (simp_all add: unat_drop_bit)
  have q4: "unat u4 div 2 ^ 26 \<le> 1" using q3 assms(5) u4 by simp
  then have z0: "unat z0 = unat a0 mod 2 ^ 26 + 5 * (unat u4 div 2 ^ 26)"
    unfolding z0_def by (subst unat_plus_len) (simp_all add: unat_limb unat_word_ariths unat_drop_bit)
  show e: "limbs (unat a0) (unat a1) (unat a2) (unat a3) (unat a4) =
      limbs (unat z0) (unat u1 mod 2 ^ 26) (unat u2 mod 2 ^ 26) (unat u3 mod 2 ^ 26) (unat u4 mod 2 ^ 26) + P1305 * (unat u4 div 2 ^ 26)"
    unfolding z0 u4 u3 u2 u1 by (rule limbs_carry)
  let ?low = "limbs (unat a0 mod 2 ^ 26) (unat u1 mod 2 ^ 26) (unat u2 mod 2 ^ 26) (unat u3 mod 2 ^ 26) (unat u4 mod 2 ^ 26)"
  have top: "limbs (unat a0) (unat a1) (unat a2) (unat a3) (unat a4) = ?low + 2 ^ 130 * (unat u4 div 2 ^ 26)"
    unfolding e z0 by (simp add: limbs_def P1305_def)
  have low: "limbs (unat a0) (unat a1) (unat a2) (unat a3) (unat a4) mod 2 ^ 26 = unat a0 mod 2 ^ 26" by (rule limbs_low)
  have "?low < 2 ^ 130" by (rule limbs_less) simp_all
  then have "2 ^ 130 \<le> limbs (unat a0) (unat a1) (unat a2) (unat a3) (unat a4) \<longleftrightarrow> unat u4 div 2 ^ 26 = 1"
    unfolding top using q4 by (cases "unat u4 div 2 ^ 26 = 0") simp_all
  then show "2 ^ 26 \<le> unat z0 \<longleftrightarrow> 2 ^ 130 \<le> limbs (unat a0) (unat a1) (unat a2) (unat a3) (unat a4) \<and>
      2 ^ 26 - 5 \<le> limbs (unat a0) (unat a1) (unat a2) (unat a3) (unat a4) mod 2 ^ 26"
    unfolding low z0 using q4 by (cases "unat u4 div 2 ^ 26 = 0") auto
  have full: "x div 2 ^ 26 = 1 \<and> y = (2 ^ 26 :: nat)" if "y div 2 ^ 26 = 1" "y = h + x div 2 ^ 26" "h < 2 ^ 26" "x div 2 ^ 26 \<le> 1" for x y h
    using that by (cases "x div 2 ^ 26 = 0") auto
  assume "2 ^ 26 \<le> unat z0"
  then have c4: "unat u4 div 2 ^ 26 = 1" using z0 q4 by (cases "unat u4 div 2 ^ 26 = 0") simp_all
  have f4: "unat u3 div 2 ^ 26 = 1 \<and> unat u4 = 2 ^ 26" by (rule full[OF c4 u4 assms(5) q3])
  have f3: "unat u2 div 2 ^ 26 = 1 \<and> unat u3 = 2 ^ 26" by (rule full[OF f4[THEN conjunct1] u3 assms(4) q2])
  have f2: "unat u1 div 2 ^ 26 = 1 \<and> unat u2 = 2 ^ 26" by (rule full[OF f3[THEN conjunct1] u2 assms(3) q1])
  have "unat u1 = 2 ^ 26 + unat u1 mod 2 ^ 26" using f2 mult_div_mod_eq[of "2 ^ 26" "unat u1"] by simp
  then have "unat u1 mod 2 ^ 26 < 43" using u1 q0 assms(2) by linarith
  moreover have "unat z0 < 2 ^ 26 + 5" using z0 c4 by simp
  ultimately show "unat z0 < 2 ^ 26 + 5 \<and> unat u1 mod 2 ^ 26 < 43 \<and> unat u2 mod 2 ^ 26 = 0 \<and> unat u3 mod 2 ^ 26 = 0 \<and> unat u4 mod 2 ^ 26 = 0"
    using f4 f3 f2 by simp
qed

text \<open>2^130 - 5 is subtracted, without a branch, where the number is not below it.\<close>

lemma limbs_carry_top:
  assumes "t0 = m0 + 2 ^ 26 * q0" "t1 + q0 = m1 + 2 ^ 26 * q1" "t2 + q1 = m2 + 2 ^ 26 * q2" "t3 + q2 = m3 + 2 ^ 26 * q3" "t4 + q3 = m4"
  shows "limbs t0 t1 t2 t3 t4 = limbs m0 m1 m2 m3 m4"
  using assms unfolding limbs_def by simp

lemma finish_reduce:
  fixes x0 x1 x2 x3 x4 :: u32
  assumes "unat x0 < 2 ^ 26" "unat x1 < 2 ^ 26" "unat x2 < 2 ^ 26" "unat x3 < 2 ^ 26" "unat x4 < 2 ^ 26"
  defines "v0 \<equiv> x0 + 5"
  defines "v1 \<equiv> x1 + drop_bit 26 v0"
  defines "v2 \<equiv> x2 + drop_bit 26 v1"
  defines "v3 \<equiv> x3 + drop_bit 26 v2"
  defines "g4 \<equiv> x4 + drop_bit 26 v3 - push_bit 26 1"
  defines "b \<equiv> drop_bit 31 g4 - 1"
  defines "y \<equiv> \<lambda>x g. (x AND NOT b) OR (g AND b)"
  shows "limbs (unat (y x0 (v0 AND 0x3ffffff))) (unat (y x1 (v1 AND 0x3ffffff))) (unat (y x2 (v2 AND 0x3ffffff)))
      (unat (y x3 (v3 AND 0x3ffffff))) (unat (y x4 g4)) = limbs (unat x0) (unat x1) (unat x2) (unat x3) (unat x4) mod P1305 \<and>
      unat (y x0 (v0 AND 0x3ffffff)) < 2 ^ 26 \<and> unat (y x1 (v1 AND 0x3ffffff)) < 2 ^ 26 \<and> unat (y x2 (v2 AND 0x3ffffff)) < 2 ^ 26 \<and>
      unat (y x3 (v3 AND 0x3ffffff)) < 2 ^ 26 \<and> unat (y x4 g4) < 2 ^ 26"
proof -
  let ?X = "limbs (unat x0) (unat x1) (unat x2) (unat x3) (unat x4)"
  have step: "unat (x + drop_bit 26 v) = unat x + unat v div 2 ^ 26" "unat v div 2 ^ 26 \<le> 1 \<Longrightarrow> unat (x + drop_bit 26 v) div 2 ^ 26 \<le> 1"
    if "unat x < 2 ^ 26" for x v :: u32
  proof -
    have "unat v div 2 ^ 26 < 2 ^ 6" using u32_less[of v] by (simp add: less_mult_imp_div_less)
    then show u: "unat (x + drop_bit 26 v) = unat x + unat v div 2 ^ 26" using that by (subst unat_plus_len) (simp_all add: unat_drop_bit)
    show "unat v div 2 ^ 26 \<le> 1 \<Longrightarrow> unat (x + drop_bit 26 v) div 2 ^ 26 \<le> 1" unfolding u using that by simp
  qed
  have v0: "unat v0 = unat x0 + 5" "unat v0 div 2 ^ 26 \<le> 1" unfolding v0_def using assms(1) by (subst unat_plus_len; simp)+
  note v1 = step[OF assms(2), of v0, folded v1_def] and v2 = step[OF assms(3), of v1, folded v2_def] and v3 = step[OF assms(4), of v2, folded v3_def]
  define v4 where "v4 = x4 + drop_bit 26 v3"
  note v4 = step[OF assms(5), of v3, folded v4_def]
  define G where "G = limbs (unat v0 mod 2 ^ 26) (unat v1 mod 2 ^ 26) (unat v2 mod 2 ^ 26) (unat v3 mod 2 ^ 26) (unat v4)"
  have "?X + 5 = limbs (unat x0 + 5) (unat x1) (unat x2) (unat x3) (unat x4)" by (simp add: limbs_def)
  also have "\<dots> = G" unfolding G_def
    by (rule limbs_carry_top[where ?q0.0 = "unat v0 div 2 ^ 26" and ?q1.0 = "unat v1 div 2 ^ 26" and ?q2.0 = "unat v2 div 2 ^ 26" and ?q3.0 = "unat v3 div 2 ^ 26"])
      (simp_all add: v0(1)[symmetric] v1(1)[symmetric] v2(1)[symmetric] v3(1)[symmetric] v4(1)[symmetric] del: power_numeral)
  finally have G: "?X + 5 = G" .
  have X: "?X < 2 ^ 130" by (rule limbs_less) (rule assms)+
  have "unat v4 \<le> 2 ^ 26" using v0 v1(2) v2(2) v3(2) v4(1) assms(5) by simp
  then consider "unat v4 < 2 ^ 26" | "unat v4 = 2 ^ 26" by linarith
  then show "limbs (unat (y x0 (v0 AND 0x3ffffff))) (unat (y x1 (v1 AND 0x3ffffff))) (unat (y x2 (v2 AND 0x3ffffff)))
      (unat (y x3 (v3 AND 0x3ffffff))) (unat (y x4 g4)) = ?X mod P1305 \<and> unat (y x0 (v0 AND 0x3ffffff)) < 2 ^ 26 \<and>
      unat (y x1 (v1 AND 0x3ffffff)) < 2 ^ 26 \<and> unat (y x2 (v2 AND 0x3ffffff)) < 2 ^ 26 \<and> unat (y x3 (v3 AND 0x3ffffff)) < 2 ^ 26 \<and> unat (y x4 g4) < 2 ^ 26"
  proof cases
    case 1
    have "unat g4 = unat v4 + (2 ^ 32 - 2 ^ 26)" using 1 by (simp add: g4_def flip: v4_def) (simp add: unat_sub_if' word_le_nat_alt)
    then have "unat g4 div 2 ^ 31 = 1" using 1 by simp
    then have "drop_bit 31 g4 = 1" by (intro word_unat_eq_iff[THEN iffD2]) (simp add: unat_drop_bit)
    then have "y x g = x" for x g by (simp add: y_def b_def)
    moreover have "G < 2 ^ 130" unfolding G_def by (rule limbs_less) (use 1 in simp_all)
    then have "?X < P1305" using G by (simp add: P1305_def)
    ultimately show ?thesis using assms(1-5) by simp
  next
    case 2
    then have "v4 = 2 ^ 26" by (intro word_unat_eq_iff[THEN iffD2]) simp
    then have g: "g4 = 0" by (simp add: g4_def flip: v4_def)
    then have s: "y x g = g" for x g by (simp add: y_def b_def)
    have "?X = P1305 + limbs (unat v0 mod 2 ^ 26) (unat v1 mod 2 ^ 26) (unat v2 mod 2 ^ 26) (unat v3 mod 2 ^ 26) 0"
      using G unfolding G_def 2 by (simp add: limbs_def P1305_def)
    moreover have "?X < 2 * P1305" using X by (simp add: P1305_def)
    ultimately have "?X mod P1305 = limbs (unat v0 mod 2 ^ 26) (unat v1 mod 2 ^ 26) (unat v2 mod 2 ^ 26) (unat v3 mod 2 ^ 26) 0"
      by (simp only: mod_add_self1 mod_less)
    then show ?thesis using g s by (simp add: unat_limb)
  qed
qed

text \<open>The limbs become four words, to which the pad is added with its carries.\<close>

lemma le_nat_U32TO8: "le_nat (U32TO8_LE v) = unat v mod 2 ^ 32" "length (U32TO8_LE v) = 4"
proof -
  have "le_nat (U32TO8_LE v) = unat (le_word (U32TO8_LE v) :: u32)" by (subst unat_le_word) (simp_all add: U32TO8_LE_def)
  also have "\<dots> = unat (ucast v :: u32)" by (simp add: U32TO8_LE_def le_word_le_bytes take_bit_word_eq_self)
  finally show "le_nat (U32TO8_LE v) = unat v mod 2 ^ 32" by (simp add: unsigned_ucast_eq take_bit_eq_mod)
  show "length (U32TO8_LE v) = 4" by (simp add: U32TO8_LE_def)
qed

lemma length_finish: "length (fst (CRYPTO_poly1305_finish st)) = 16"
proof -
  have "length (U32TO8_LE a @ U32TO8_LE b @ U32TO8_LE c @ U32TO8_LE d) = 16" for a b c d by (simp add: le_nat_U32TO8)
  then show ?thesis by (simp only: CRYPTO_poly1305_finish_def Let_def fst_conv)
qed

lemma words_sum:
  fixes w0 w1 w2 w3 p0 p1 p2 p3 :: nat
  assumes "w0 + p0 = m0 + 2 ^ 32 * q0" "w1 + p1 + q0 = m1 + 2 ^ 32 * q1" "w2 + p2 + q1 = m2 + 2 ^ 32 * q2" "w3 + p3 + q2 = m3 + 2 ^ 32 * q3"
    and "m0 < 2 ^ 32" "m1 < 2 ^ 32" "m2 < 2 ^ 32" "m3 < 2 ^ 32"
  shows "m0 + 2 ^ 32 * m1 + 2 ^ 64 * m2 + 2 ^ 96 * m3 =
    (w0 + 2 ^ 32 * w1 + 2 ^ 64 * w2 + 2 ^ 96 * w3 + (p0 + 2 ^ 32 * p1 + 2 ^ 64 * p2 + 2 ^ 96 * p3)) mod 2 ^ 128"
proof -
  let ?m = "m0 + 2 ^ 32 * m1 + 2 ^ 64 * m2 + 2 ^ 96 * m3"
  have "w0 + 2 ^ 32 * w1 + 2 ^ 64 * w2 + 2 ^ 96 * w3 + (p0 + 2 ^ 32 * p1 + 2 ^ 64 * p2 + 2 ^ 96 * p3) = 2 ^ 128 * q3 + ?m"
    using assms(1-4) by simp
  moreover have "?m < 2 ^ 128" using assms(5-8) by simp
  ultimately show ?thesis by (simp only: mod_mult_self4 mod_less)
qed

lemma limbs_words:
  assumes "y1 = c1 + 2 ^ 6 * d1" "y2 = c2 + 2 ^ 12 * d2" "y3 = c3 + 2 ^ 18 * d3" "y4 = c4 + 2 ^ 24 * d4"
  shows "limbs y0 y1 y2 y3 y4 = (y0 + 2 ^ 26 * c1) + 2 ^ 32 * (d1 + 2 ^ 20 * c2) + 2 ^ 64 * (d2 + 2 ^ 14 * c3) + 2 ^ 96 * (d3 + 2 ^ 8 * c4) + 2 ^ 128 * d4"
  using assms unfolding limbs_def by simp

lemma above: "(a + 2 ^ 128 * q + b) mod 2 ^ 128 = (a + b) mod (2 ^ 128 :: nat)"
proof -
  have "a + 2 ^ 128 * q + b = a + b + 2 ^ 128 * q" by simp
  then show ?thesis by (simp only: mod_mult_self2)
qed

lemma finish_words:
  fixes y0 y1 y2 y3 y4 p0 p1 p2 p3 :: u32
  assumes "unat y1 < 2 ^ 26" "unat y2 < 2 ^ 26" "unat y3 < 2 ^ 26" "unat y4 < 2 ^ 26"
  defines "f0 \<equiv> ucast (y0 OR push_bit 26 y1) + ucast p0 :: u64"
  defines "f1 \<equiv> ucast (drop_bit 6 y1 OR push_bit 20 y2) + ucast p1 + drop_bit 32 f0 :: u64"
  defines "f2 \<equiv> ucast (drop_bit 12 y2 OR push_bit 14 y3) + ucast p2 + drop_bit 32 f1 :: u64"
  defines "f3 \<equiv> ucast (drop_bit 18 y3 OR push_bit 8 y4) + ucast p3 + drop_bit 32 f2 :: u64"
  shows "le_nat (U32TO8_LE f0 @ U32TO8_LE f1 @ U32TO8_LE f2 @ U32TO8_LE f3) =
    (limbs (unat (y0 OR push_bit 26 y1)) (2 ^ 6 * (unat y1 div 2 ^ 6)) (unat y2) (unat y3) (unat y4) + (unat p0 + 2 ^ 32 * unat p1 + 2 ^ 64 * unat p2 + 2 ^ 96 * unat p3)) mod 2 ^ 128"
proof -
  have word: "unat (drop_bit j a OR push_bit k c) = unat a div 2 ^ j + 2 ^ k * (unat c mod 2 ^ (32 - k))"
    if "unat a < 2 ^ 26" "j + k = 26" for a c :: u32 and j k
  proof -
    have "(2 ^ 26 :: nat) = 2 ^ k * 2 ^ j" using that(2) by (simp add: add.commute flip: power_add)
    then have "unat a div 2 ^ j < 2 ^ k" using that(1) by (simp only: less_mult_imp_div_less)
    then show ?thesis using that(2) by (subst or_shifted_out) (simp_all add: unat_drop_bit)
  qed
  have sum: "unat (ucast a + ucast p + drop_bit 32 f :: u64) = unat a + unat p + unat f div 2 ^ 32" for a p :: u32 and f :: u64
  proof -
    have "unat f < 2 ^ LENGTH(64)" by (rule unsigned_less)
    then have "unat f div 2 ^ 32 < 2 ^ 32" by (simp add: less_mult_imp_div_less)
    then show ?thesis using u32_less[of a] u32_less[of p] by (simp add: unat_plus_len unat_widen unat_drop_bit)
  qed
  have s0: "unat f0 = unat (y0 OR push_bit 26 y1) + unat p0"
    using sum[of "y0 OR push_bit 26 y1" p0 0] by (simp add: f0_def)
  have L: "limbs (unat (y0 OR push_bit 26 y1)) (2 ^ 6 * (unat y1 div 2 ^ 6)) (unat y2) (unat y3) (unat y4) = unat (y0 OR push_bit 26 y1) + 2 ^ 32 * unat (drop_bit 6 y1 OR push_bit 20 y2) +
      2 ^ 64 * unat (drop_bit 12 y2 OR push_bit 14 y3) + 2 ^ 96 * unat (drop_bit 18 y3 OR push_bit 8 y4) + 2 ^ 128 * (unat y4 div 2 ^ 24)"
    using word[of y1 6 20 y2] word[of y2 12 14 y3] word[of y3 18 8 y4] assms(1-3)
      limbs_words[of "2 ^ 6 * (unat y1 div 2 ^ 6)" 0 "unat y1 div 2 ^ 6", OF _ mod_mult_div_eq[symmetric] mod_mult_div_eq[symmetric] mod_mult_div_eq[symmetric],
        of "unat (y0 OR push_bit 26 y1)" "unat y2" "unat y3" "unat y4"]
    by (simp del: drop_bit_or)
  have "le_nat (U32TO8_LE f0 @ U32TO8_LE f1 @ U32TO8_LE f2 @ U32TO8_LE f3) =
      unat f0 mod 2 ^ 32 + 2 ^ 32 * (unat f1 mod 2 ^ 32) + 2 ^ 64 * (unat f2 mod 2 ^ 32) + 2 ^ 96 * (unat f3 mod 2 ^ 32)"
    by (simp add: le_nat_append le_nat_U32TO8)
  also have "\<dots> = (unat (y0 OR push_bit 26 y1) + 2 ^ 32 * unat (drop_bit 6 y1 OR push_bit 20 y2) + 2 ^ 64 * unat (drop_bit 12 y2 OR push_bit 14 y3) +
      2 ^ 96 * unat (drop_bit 18 y3 OR push_bit 8 y4) + (unat p0 + 2 ^ 32 * unat p1 + 2 ^ 64 * unat p2 + 2 ^ 96 * unat p3)) mod 2 ^ 128"
    by (rule words_sum[where ?q0.0 = "unat f0 div 2 ^ 32" and ?q1.0 = "unat f1 div 2 ^ 32" and ?q2.0 = "unat f2 div 2 ^ 32" and ?q3.0 = "unat f3 div 2 ^ 32"])
      (simp_all only: s0[symmetric] sum[symmetric] f1_def[symmetric] f2_def[symmetric] f3_def[symmetric] mod_mult_div_eq mod_less_divisor zero_less_numeral zero_less_power)
  also have "\<dots> = (limbs (unat (y0 OR push_bit 26 y1)) (2 ^ 6 * (unat y1 div 2 ^ 6)) (unat y2) (unat y3) (unat y4) + (unat p0 + 2 ^ 32 * unat p1 + 2 ^ 64 * unat p2 + 2 ^ 96 * unat p3)) mod 2 ^ 128"
    unfolding L by (rule above[symmetric])
  finally show ?thesis .
qed

text \<open>The lowest limb, joined to the next: an addition if it has 26 bits, and if it has 27 and the next is even.\<close>

lemma joined_limbs:
  fixes y0 y1 :: u32
  assumes "unat y0 < 2 ^ 26"
  shows "limbs (unat (y0 OR push_bit 26 y1)) (2 ^ 6 * (unat y1 div 2 ^ 6)) a2 a3 a4 = limbs (unat y0) (unat y1) a2 a3 a4"
proof -
  have "2 ^ 26 * (unat y1 mod 2 ^ 6) + 2 ^ 26 * (2 ^ 6 * (unat y1 div 2 ^ 6)) = 2 ^ 26 * unat y1"
    by (simp only: distrib_left[symmetric] mod_mult_div_eq)
  then show ?thesis using or_shifted_out[OF assms, of y1] by (simp add: limbs_def)
qed

lemma joined_27:
  fixes y0 y1 :: u32
  assumes "2 ^ 26 \<le> unat y0" and "unat y0 < 2 ^ 27" and "unat y1 < 43"
  shows "unat (y0 OR push_bit 26 y1) = unat y0 + 2 ^ 26 * unat y1 - (if odd (unat y1) then 2 ^ 26 else 0)"
proof -
  define e where "e = y0 - 2 ^ 26"
  have "2 ^ 26 \<le> y0" using assms(1) by (simp add: word_le_nat_alt)
  then have e: "unat e = unat y0 - 2 ^ 26" "unat e < 2 ^ 26" using assms(2) by (simp_all add: e_def unat_sub)
  have "unat (e OR push_bit 26 1) = unat y0" using or_shifted_out[OF e(2), of 1] e(1) assms(1) by simp
  then have y0: "y0 = e OR push_bit 26 1" by (simp add: word_unat_eq_iff)
  have o: "unat (1 OR y1) = unat y1 + of_bool (even (unat y1))"
    using arg_cong[OF one_or_eq[of "unat y1"], of id] by (simp add: unsigned_or_eq)
  have "push_bit 26 1 OR push_bit 26 y1 = push_bit 26 (1 OR y1)" by (simp add: push_bit_or)
  then have "unat (y0 OR push_bit 26 y1) = unat (e OR push_bit 26 (1 OR y1))" unfolding y0 by (simp only: or.assoc)
  also have "\<dots> = unat e + 2 ^ 26 * (unat y1 + of_bool (even (unat y1)))" using or_shifted_out[OF e(2), of "1 OR y1"] o assms(3) by simp
  finally show ?thesis using e(1) assms(1) by (simp add: diff_mult_distrib2 algebra_simps)
qed

text \<open>Nothing is subtracted when the limbs are small, even if the lowest has 27 bits.\<close>

lemma finish_reduce_small:
  fixes x0 x1 x2 x3 x4 :: u32
  assumes "2 ^ 26 \<le> unat x0" "unat x0 < 2 ^ 26 + 5" "unat x1 < 43" "x2 = 0" "x3 = 0" "x4 = 0"
  defines "v0 \<equiv> x0 + 5"
  defines "v1 \<equiv> x1 + drop_bit 26 v0"
  defines "v2 \<equiv> x2 + drop_bit 26 v1"
  defines "v3 \<equiv> x3 + drop_bit 26 v2"
  defines "g4 \<equiv> x4 + drop_bit 26 v3 - push_bit 26 1"
  defines "b \<equiv> drop_bit 31 g4 - 1"
  shows "b = 0"
proof -
  have "unat v0 = unat x0 + 5" unfolding v0_def using assms(2) by (subst unat_plus_len) simp_all
  then have "unat v0 div 2 ^ 26 = 1" using assms(1,2) by simp
  then have "drop_bit 26 v0 = 1" by (intro word_unat_eq_iff[THEN iffD2]) (simp add: unat_drop_bit)
  then have "unat v1 = unat x1 + 1" unfolding v1_def using assms(3) by (subst unat_plus_len) simp_all
  then have "drop_bit 26 v1 = 0" using assms(3) by (intro word_unat_eq_iff[THEN iffD2]) (simp add: unat_drop_bit)
  then have "v3 = 0" by (simp add: v3_def v2_def assms(4,5))
  then show ?thesis by (simp add: b_def g4_def assms(6))
qed

text \<open>
  The tag of a state, whose accumulator is fully reduced. It is 2^26 too small when the lowest limb
  is left with 27 bits and the next is odd: \<open>short_tag\<close> says when that is, of the accumulator's value.
\<close>

definition short_tag :: "nat \<Rightarrow> bool" where
  "short_tag h \<longleftrightarrow> 2 ^ 130 \<le> h \<and> 2 ^ 26 - 5 \<le> h mod 2 ^ 26 \<and> even (h mod P1305 div 2 ^ 26)"

lemma finish_tag:
  assumes "carried st" and "buf_used st = 0" and "length (mac_key st) = 16"
  shows "le_nat (fst (CRYPTO_poly1305_finish st)) =
      (hval st mod P1305 - (if short_tag (hval st) then 2 ^ 26 else 0) + le_nat (mac_key st)) mod 2 ^ 128"
    and "short_tag (hval st) \<Longrightarrow> 2 ^ 26 \<le> hval st mod P1305 \<and> hval st mod P1305 < 2 ^ 32 \<and> hval st mod P1305 mod 2 ^ 26 < 5"
proof -
  define u1 where "u1 = h1 st + drop_bit 26 (h0 st)"
  define u2 where "u2 = h2 st + drop_bit 26 u1"
  define u3 where "u3 = h3 st + drop_bit 26 u2"
  define u4 where "u4 = h4 st + drop_bit 26 u3"
  define z0 where "z0 = (h0 st AND 0x3ffffff) + drop_bit 26 u4 * 5"
  define z1 z2 z3 z4 where z: "z1 = u1 AND 0x3ffffff" "z2 = u2 AND 0x3ffffff" "z3 = u3 AND 0x3ffffff" "z4 = u4 AND 0x3ffffff"
  define v0 where "v0 = z0 + 5"
  define v1 where "v1 = z1 + drop_bit 26 v0"
  define v2 where "v2 = z2 + drop_bit 26 v1"
  define v3 where "v3 = z3 + drop_bit 26 v2"
  define g4 where "g4 = z4 + drop_bit 26 v3 - push_bit 26 1"
  define b where "b = drop_bit 31 g4 - 1"
  define y0 y1 y2 y3 y4 where y: "y0 = (z0 AND NOT b) OR ((v0 AND 0x3ffffff) AND b)" "y1 = (z1 AND NOT b) OR ((v1 AND 0x3ffffff) AND b)"
    "y2 = (z2 AND NOT b) OR ((v2 AND 0x3ffffff) AND b)" "y3 = (z3 AND NOT b) OR ((v3 AND 0x3ffffff) AND b)" "y4 = (z4 AND NOT b) OR (g4 AND b)"
  define f0 :: u64 where "f0 = ucast (y0 OR push_bit 26 y1) + ucast (U8TO32_LE (mac_key st))"
  define f1 :: u64 where "f1 = ucast (drop_bit 6 y1 OR push_bit 20 y2) + ucast (U8TO32_LE (drop 4 (mac_key st))) + drop_bit 32 f0"
  define f2 :: u64 where "f2 = ucast (drop_bit 12 y2 OR push_bit 14 y3) + ucast (U8TO32_LE (drop 8 (mac_key st))) + drop_bit 32 f1"
  define f3 :: u64 where "f3 = ucast (drop_bit 18 y3 OR push_bit 8 y4) + ucast (U8TO32_LE (drop 12 (mac_key st))) + drop_bit 32 f2"
  have code: "fst (CRYPTO_poly1305_finish st) = U32TO8_LE f0 @ U32TO8_LE f1 @ U32TO8_LE f2 @ U32TO8_LE f3"
    unfolding f3_def f2_def f1_def f0_def y b_def g4_def v3_def v2_def v1_def v0_def z z0_def u4_def u3_def u2_def u1_def
    by (simp only: CRYPTO_poly1305_finish_def Let_def assms(2) simp_thms if_False fst_conv)
  have m: "unat z1 = unat u1 mod 2 ^ 26" "unat z2 = unat u2 mod 2 ^ 26" "unat z3 = unat u3 mod 2 ^ 26" "unat z4 = unat u4 mod 2 ^ 26"
    by (simp_all only: z unat_limb)
  then have l: "unat z1 < 2 ^ 26" "unat z2 < 2 ^ 26" "unat z3 < 2 ^ 26" "unat z4 < 2 ^ 26" by simp_all
  let ?Z = "limbs (unat z0) (unat z1) (unat z2) (unat z3) (unat z4)"
  note carry = finish_carry[of "h0 st" "h1 st" "h2 st" "h3 st" "h4 st", folded u1_def, folded u2_def, folded u3_def, folded u4_def, folded z0_def, folded m]
  have Z: "hval st mod P1305 = ?Z mod P1305" using carry(1) assms(1) by (simp add: hval_def carried_def)
  have H: "limbs (unat (h0 st)) (unat (h1 st)) (unat (h2 st)) (unat (h3 st)) (unat (h4 st)) = hval st" by (simp add: hval_def)
  have c3: "2 ^ 26 \<le> unat z0 \<longleftrightarrow> 2 ^ 130 \<le> hval st \<and> 2 ^ 26 - 5 \<le> hval st mod 2 ^ 26"
    using carry(3) assms(1) unfolding H by (simp add: carried_def)
  have words: "le_nat (fst (CRYPTO_poly1305_finish st)) =
      (limbs (unat (y0 OR push_bit 26 y1)) (2 ^ 6 * (unat y1 div 2 ^ 6)) (unat y2) (unat y3) (unat y4) + le_nat (mac_key st)) mod 2 ^ 128"
    if "unat y1 < 2 ^ 26" "unat y2 < 2 ^ 26" "unat y3 < 2 ^ 26" "unat y4 < 2 ^ 26"
    unfolding code using finish_words[OF that, of y0 "U8TO32_LE (mac_key st)" "U8TO32_LE (drop 4 (mac_key st))" "U8TO32_LE (drop 8 (mac_key st))"
      "U8TO32_LE (drop 12 (mac_key st))", folded f0_def, folded f1_def, folded f2_def, folded f3_def] le_nat_16[OF assms(3)] by simp
  have small: "unat z0 < 2 ^ 26 + 5 \<and> unat z1 < 43 \<and> z2 = 0 \<and> z3 = 0 \<and> z4 = 0 \<and> hval st mod P1305 = unat z0 + 2 ^ 26 * unat z1"
    if "2 ^ 26 \<le> unat z0"
  proof -
    have c: "unat z0 < 2 ^ 26 + 5" "unat z1 < 43" "unat z2 = 0" "unat z3 = 0" "unat z4 = 0"
      using carry(2) assms(1) that by (simp_all add: carried_def)
    then have "?Z = unat z0 + 2 ^ 26 * unat z1" "?Z < P1305" by (simp_all add: limbs_def P1305_def)
    then show ?thesis using c Z by (simp add: unat_eq_zero)
  qed
  have half: "(unat z0 + 2 ^ 26 * unat z1) div 2 ^ 26 = Suc (unat z1)" "(unat z0 + 2 ^ 26 * unat z1) mod 2 ^ 26 < 5" if "2 ^ 26 \<le> unat z0"
  proof -
    define e where "e = unat z0 - 2 ^ 26"
    then have e: "unat z0 = 2 ^ 26 + e" using that by simp
    have e5: "e < 5" using small[OF that] e by simp
    have eq: "unat z0 + 2 ^ 26 * unat z1 = e + 2 ^ 26 * Suc (unat z1)" using e by simp
    have "(e + 2 ^ 26 * Suc n) div 2 ^ 26 = Suc n" for n using e5 by (subst div_mult_self2) simp_all
    then show "(unat z0 + 2 ^ 26 * unat z1) div 2 ^ 26 = Suc (unat z1)" unfolding eq .
    have "(e + 2 ^ 26 * Suc n) mod 2 ^ 26 = e" for n using e5 by (subst mod_mult_self2) simp
    then show "(unat z0 + 2 ^ 26 * unat z1) mod 2 ^ 26 < 5" unfolding eq using e5 by simp
  qed
  show "2 ^ 26 \<le> hval st mod P1305 \<and> hval st mod P1305 < 2 ^ 32 \<and> hval st mod P1305 mod 2 ^ 26 < 5" if "short_tag (hval st)"
  proof -
    have z: "2 ^ 26 \<le> unat z0" using c3 that by (simp only: short_tag_def)
    note s = small[OF z]
    have "unat z0 + 2 ^ 26 * unat z1 < 2 ^ 32" using s by simp
    then show ?thesis using s z half(2)[OF z] by (simp only: trans_le_add1)
  qed
  show "le_nat (fst (CRYPTO_poly1305_finish st)) =
      (hval st mod P1305 - (if short_tag (hval st) then 2 ^ 26 else 0) + le_nat (mac_key st)) mod 2 ^ 128"
  proof (cases "2 ^ 26 \<le> unat z0")
    case True
    note s = small[OF True]
    have "b = 0"
      using finish_reduce_small[of z0 z1 z2 z3 z4, folded v0_def, folded v1_def, folded v2_def, folded v3_def, folded g4_def, folded b_def] True s by blast
    then have y: "y0 = z0" "y1 = z1" "y2 = z2" "y3 = z3" "y4 = z4" by (simp_all add: y)
    have d: "2 ^ 6 * (unat z1 div 2 ^ 6) = 0" using s by simp
    have "short_tag (hval st) \<longleftrightarrow> odd (unat z1)" using c3 True s half(1)[OF True] by (simp add: short_tag_def)
    then have "unat (z0 OR push_bit 26 z1) = hval st mod P1305 - (if short_tag (hval st) then 2 ^ 26 else 0)"
      using joined_27[OF True, of z1] s by simp
    then show ?thesis using words l s unfolding y d by (simp add: limbs_def)
  next
    case False
    then have "unat z0 < 2 ^ 26" by simp
    note red = finish_reduce[OF this l, folded v0_def, folded v1_def, folded v2_def, folded v3_def, folded g4_def, folded b_def, folded y]
    have "\<not> short_tag (hval st)" using c3 False unfolding short_tag_def by blast
    then show ?thesis using words red joined_limbs[of y0 y1] by (simp add: Z)
  qed
qed

lemma finish_buffered:
  "fst (CRYPTO_poly1305_finish st) =
    fst (CRYPTO_poly1305_finish (buffered [] 0 (if buf_used st \<noteq> 0 then poly1305_update st (take (buf_used st) (buf st)) else st)))"
proof -
  define S where "S = (if buf_used st \<noteq> 0 then poly1305_update st (take (buf_used st) (buf st)) else st)"
  have "h0 (buffered [] 0 S) = h0 S" "h1 (buffered [] 0 S) = h1 S" "h2 (buffered [] 0 S) = h2 S" "h3 (buffered [] 0 S) = h3 S" "h4 (buffered [] 0 S) = h4 S"
    by (simp_all add: buffered_def)
  then show ?thesis unfolding S_def[symmetric] CRYPTO_poly1305_finish_def by (simp only: buffered_sel simp_thms if_False Let_def fst_conv)
qed

lemma consumed_finish: "consumed st0 msg st \<Longrightarrow>
    fst (CRYPTO_poly1305_finish st) = fst (CRYPTO_poly1305_finish (buffered [] 0 (poly1305_update st0 msg)))"
proof -
  assume "consumed st0 msg st"
  then obtain blocks rest b where c: "msg = blocks @ rest" "16 dvd length blocks" "take (length rest) b = rest"
    "st = buffered b (length rest) (poly1305_update st0 blocks)" unfolding consumed_def by blast
  then show ?thesis
    by (subst finish_buffered) (cases "rest = []"; simp add: update_buffered update_append)
qed

lemma consumed_init: "length memory = 16 \<Longrightarrow> consumed (CRYPTO_poly1305_init memory key) [] (CRYPTO_poly1305_init memory key)"
  using consumedI[of "[]" "[]" memory "CRYPTO_poly1305_init memory key"] poly1305_update.simps[of "CRYPTO_poly1305_init memory key" "[]"]
  by (simp add: buffered_def CRYPTO_poly1305_init_def Let_def)

lemma consumed_chunks: "length memory = 16 \<Longrightarrow>
    consumed (CRYPTO_poly1305_init memory key) (concat chunks) (foldl CRYPTO_poly1305_update (CRYPTO_poly1305_init memory key) chunks)"
  using consumed_pieces[OF consumed_init] by simp

lemma poly1305_once: "length memory = 16 \<Longrightarrow>
    poly1305 memory key chunks = fst (CRYPTO_poly1305_finish (buffered [] 0 (poly1305_update (CRYPTO_poly1305_init memory key) (concat chunks))))"
  by (simp add: poly1305_def consumed_finish[OF consumed_chunks])

lemma init_buffered: "CRYPTO_poly1305_init memory key = buffered memory 0 (CRYPTO_poly1305_init [] key)"
  by (simp add: CRYPTO_poly1305_init_def buffered_def Let_def)

lemma carried_init: "carried (CRYPTO_poly1305_init memory key)" "hval (CRYPTO_poly1305_init memory key) = 0"
  "mac_key (CRYPTO_poly1305_init memory key) = take 16 (drop 16 key)"
  by (simp_all add: carried_def hval_def limbs_def CRYPTO_poly1305_init_def Let_def)

lemma poly_eval_less: "a < P1305 \<Longrightarrow> poly_eval r a msg < P1305"
proof (induction r a msg rule: poly_eval.induct)
  case (1 r a msg)
  then show ?case by (subst poly_eval.simps) (simp add: P1305_def)
qed

lemma carried_buffered [simp]: "carried (buffered b n st) = carried st" "hval (buffered b n st) = hval st" "keyed (buffered b n st) = keyed st" "rval (buffered b n st) = rval st"
  by (simp_all add: carried_def hval_def keyed_def rval_def buffered_def)

section \<open>Properties\<close>

text \<open>
  C18: after any input, in any pieces, the accumulator is the polynomial of the whole blocks so far, its
  limbs within the bounds for which no product and no carry overflows its word; the multiplier and the
  pad are as \<open>CRYPTO_poly1305_init\<close> left them, and the buffer holds the input after the whole blocks.
\<close>

theorem poly1305_well_formed:
  fixes chunks :: "bytes list"
  assumes "length key = 32" and "length memory = 16"
  defines "st \<equiv> foldl CRYPTO_poly1305_update (CRYPTO_poly1305_init memory key) chunks"
    and "whole \<equiv> 16 * (length (concat chunks) div 16)"
  shows "carried st \<and> hval st mod P1305 = poly_eval (clamped key) 0 (take whole (concat chunks)) \<and>
    keyed st \<and> rval st = clamped key \<and> mac_key st = drop 16 key \<and>
    length (buf st) = 16 \<and> buf_used st = length (concat chunks) mod 16 \<and> take (buf_used st) (buf st) = drop whole (concat chunks)"
proof -
  let ?init = "CRYPTO_poly1305_init memory key"
  obtain blocks rest b where c: "concat chunks = blocks @ rest" "16 dvd length blocks" "length rest < 16" "length b = 16"
    "st = buffered b (length rest) (poly1305_update ?init blocks)" and b: "take (length rest) b = rest"
    using consumed_chunks[OF assms(2), of key chunks] unfolding consumed_def st_def by blast
  obtain n where n: "length blocks = 16 * n" using c(2) by blast
  then have w: "whole = length blocks" using c(1,3) by (simp add: whole_def)
  have "length (concat chunks) mod 16 = length rest" using c(1-3) by auto
  moreover have "hval (poly1305_update ?init blocks) mod P1305 = poly_eval (clamped key) 0 blocks"
    using update_eval[OF carried_init(1) keyed_init(1)[OF assms(1)], of memory blocks] keyed_init(2)[OF assms(1), of memory]
      poly_eval_less[of 0 "clamped key" blocks] by (simp add: carried_init P1305_def)
  ultimately show ?thesis
    using update_eval[OF carried_init(1) keyed_init(1)[OF assms(1)], of memory blocks] update_key[of ?init blocks]
      keyed_init[OF assms(1), of memory] c(1,4) b w assms(1) unfolding c(5) by (simp add: carried_init)
qed

theorem poly1305_well_formed_witness:
  "let st = foldl CRYPTO_poly1305_update (CRYPTO_poly1305_init (replicate 16 0) (replicate 32 0xff)) [replicate 40 7, [1, 2, 3]] in
    carried st \<and> keyed st \<and> rval st = clamped (replicate 32 0xff) \<and> take (buf_used st) (buf st) = replicate 8 7 @ [1, 2, 3]"
proof -
  let ?chunks = "[replicate 40 7, [1, 2, 3]] :: bytes list"
  have "drop (16 * (length (concat ?chunks) div 16)) (concat ?chunks) = replicate 8 7 @ [1, 2, 3]" by code_simp
  then show ?thesis
    using poly1305_well_formed[OF length_replicate[of 32 "0xff :: u8"] length_replicate[of 16 "0 :: u8"], of ?chunks] unfolding Let_def by metis
qed

text \<open>
  C9: the tag is that of RFC 8439 for the whole message: the polynomial of its blocks at the clamped
  key, modulo 2^130 - 5, plus the pad. It is so unless the polynomial's value is below 2^32 with less
  than 5 in its low 26 bits, which is where the last carries are not enough.
\<close>

theorem poly1305_exact:
  assumes "length key = 32" and "length memory = 16"
    and "poly_eval (clamped key) 0 (concat chunks) < 2 ^ 32 \<Longrightarrow> 5 \<le> poly_eval (clamped key) 0 (concat chunks) mod 2 ^ 26"
  shows "le_nat (poly1305 memory key chunks) = rfc_tag key (concat chunks) \<and> length (poly1305 memory key chunks) = 16"
proof -
  let ?st = "buffered [] 0 (poly1305_update (CRYPTO_poly1305_init memory key) (concat chunks))"
  have e: "carried ?st" "hval ?st mod P1305 = poly_eval (clamped key) 0 (concat chunks)"
    using update_eval[OF carried_init(1) keyed_init(1)[OF assms(1)], of memory "concat chunks"] keyed_init(2)[OF assms(1), of memory]
      poly_eval_less[of 0 "clamped key" "concat chunks"] by (simp_all add: carried_init P1305_def)
  have k: "mac_key ?st = take 16 (drop 16 key)" using update_key[of "CRYPTO_poly1305_init memory key" "concat chunks"] by (simp add: carried_init)
  have "le_nat (fst (CRYPTO_poly1305_finish ?st)) = (poly_eval (clamped key) 0 (concat chunks) + le_nat (take 16 (drop 16 key))) mod 2 ^ 128"
    using finish_tag[OF e(1), unfolded e(2) k] assms(1,3) by fastforce
  then show ?thesis by (simp add: poly1305_once[OF assms(2)] rfc_tag_def length_finish)
qed

theorem poly1305_exact_witness:
  "let key = [0x85, 0xd6, 0xbe, 0x78, 0x57, 0x55, 0x6d, 0x33, 0x7f, 0x44, 0x52, 0xfe, 0x42, 0xd5, 0x06, 0xa8] @
         [0x01, 0x03, 0x80, 0x8a, 0xfb, 0x0d, 0xb2, 0xfd, 0x4a, 0xbf, 0xf6, 0xaf, 0x41, 0x49, 0xf5, 0x1b];
       chunks = [[0x43, 0x72, 0x79, 0x70, 0x74, 0x6f, 0x67, 0x72, 0x61, 0x70],
         [0x68, 0x69, 0x63, 0x20, 0x46, 0x6f, 0x72, 0x75, 0x6d, 0x20, 0x52, 0x65, 0x73, 0x65, 0x61, 0x72, 0x63, 0x68, 0x20, 0x47, 0x72, 0x6f, 0x75, 0x70]]
   in le_nat (poly1305 (replicate 16 0) key chunks) = rfc_tag key (concat chunks) \<and> length (poly1305 (replicate 16 0) key chunks) = 16 \<and>
     rfc_tag key (concat chunks) = 0xa927010caf8b2bc2c6365130c11d06a8"
proof -
  let ?key = "[0x85, 0xd6, 0xbe, 0x78, 0x57, 0x55, 0x6d, 0x33, 0x7f, 0x44, 0x52, 0xfe, 0x42, 0xd5, 0x06, 0xa8] @
         [0x01, 0x03, 0x80, 0x8a, 0xfb, 0x0d, 0xb2, 0xfd, 0x4a, 0xbf, 0xf6, 0xaf, 0x41, 0x49, 0xf5, 0x1b]"
  let ?chunks = "[[0x43, 0x72, 0x79, 0x70, 0x74, 0x6f, 0x67, 0x72, 0x61, 0x70],
         [0x68, 0x69, 0x63, 0x20, 0x46, 0x6f, 0x72, 0x75, 0x6d, 0x20, 0x52, 0x65, 0x73, 0x65, 0x61, 0x72, 0x63, 0x68, 0x20, 0x47, 0x72, 0x6f, 0x75, 0x70]]"
  have "2 ^ 32 \<le> poly_eval (clamped ?key) 0 (concat ?chunks)" by (simp add: rfc_tag_def clamped_def poly_eval.simps P1305_def le_nat_zeros)
  moreover have "rfc_tag ?key (concat ?chunks) = 0xa927010caf8b2bc2c6365130c11d06a8" by (simp add: rfc_tag_def clamped_def poly_eval.simps P1305_def le_nat_zeros)
  ultimately show ?thesis using poly1305_exact[of ?key "replicate 16 0" ?chunks] unfolding Let_def by simp
qed

text \<open>The tag does not depend on how the message is cut into pieces, nor on what the buffer's memory held.\<close>

theorem poly1305_chunks:
  assumes "length memory = 16" and "length memory' = 16" and "concat chunks = concat chunks'"
  shows "poly1305 memory key chunks = poly1305 memory' key chunks'"
  by (simp add: poly1305_once assms init_buffered[of memory] init_buffered[of memory'] update_buffered)

theorem poly1305_chunks_witness:
  "poly1305 (replicate 16 0) (replicate 32 7) [replicate 5 1, replicate 30 1] = poly1305 (replicate 16 9) (replicate 32 7) [replicate 35 1]"
  by (rule poly1305_chunks) (simp_all flip: replicate_add)

text \<open>
  C22: where the tag is not that of RFC 8439, and by how much. The tag is wrong exactly when the value
  of the accumulator, as the limbs hold it before the last step, is 2^130 or more with at least
  2^26 - 5 in its low 26 bits, and its residue modulo 2^130 - 5 has an even second limb: then the lowest
  limb keeps 27 bits, the word of the lowest limb is joined to the next, whose lowest bit is set
  already, and the tag is 2^26 too small.
\<close>

theorem poly1305_wrong_tag:
  fixes chunks :: "bytes list"
  assumes "length key = 32" and "length memory = 16"
  defines "h \<equiv> hval (poly1305_update (CRYPTO_poly1305_init memory key) (concat chunks))"
  shows "h mod P1305 = poly_eval (clamped key) 0 (concat chunks) \<and>
    (le_nat (poly1305 memory key chunks) + (if short_tag h then 2 ^ 26 else 0)) mod 2 ^ 128 = rfc_tag key (concat chunks) \<and>
    (le_nat (poly1305 memory key chunks) \<noteq> rfc_tag key (concat chunks) \<longleftrightarrow> short_tag h)"
proof -
  let ?st = "buffered [] 0 (poly1305_update (CRYPTO_poly1305_init memory key) (concat chunks))"
  have e: "carried ?st" "hval ?st = h" "h mod P1305 = poly_eval (clamped key) 0 (concat chunks)"
    using update_eval[OF carried_init(1) keyed_init(1)[OF assms(1)], of memory "concat chunks"] keyed_init(2)[OF assms(1), of memory]
      poly_eval_less[of 0 "clamped key" "concat chunks"] by (simp_all add: carried_init P1305_def h_def)
  have k: "mac_key ?st = take 16 (drop 16 key)" using update_key[of "CRYPTO_poly1305_init memory key" "concat chunks"] by (simp add: carried_init)
  let ?d = "if short_tag h then 2 ^ 26 else 0 :: nat" and ?pad = "le_nat (take 16 (drop 16 key))"
  have tag: "le_nat (poly1305 memory key chunks) = (h mod P1305 - ?d + ?pad) mod 2 ^ 128"
    using finish_tag(1)[OF e(1), unfolded e(2) k] assms(1) by (simp add: poly1305_once[OF assms(2)])
  have le: "?d \<le> h mod P1305" using finish_tag(2)[OF e(1), unfolded e(2) k] assms(1) by simp
  have rfc: "rfc_tag key (concat chunks) = (h mod P1305 + ?pad) mod 2 ^ 128" by (simp add: rfc_tag_def e(3))
  have "(h mod P1305 - ?d + ?pad) mod 2 ^ 128 + ?d = (h mod P1305 - ?d + ?pad) mod 2 ^ 128 + ?d" ..
  then have sum: "(le_nat (poly1305 memory key chunks) + ?d) mod 2 ^ 128 = rfc_tag key (concat chunks)"
    unfolding tag rfc using le by (simp only: mod_add_left_eq) simp
  have "le_nat (poly1305 memory key chunks) < 2 ^ 128" unfolding tag by simp
  then have "(le_nat (poly1305 memory key chunks) + 2 ^ 26) mod 2 ^ 128 \<noteq> le_nat (poly1305 memory key chunks)"
    by (cases "le_nat (poly1305 memory key chunks) + 2 ^ 26 < 2 ^ 128") (simp_all add: le_mod_geq)
  then have "le_nat (poly1305 memory key chunks) \<noteq> rfc_tag key (concat chunks) \<longleftrightarrow> short_tag h"
    using sum \<open>le_nat (poly1305 memory key chunks) < 2 ^ 128\<close> by (auto split: if_splits)
  then show ?thesis using e(3) sum by blast
qed

text \<open>For this key and this message of one block the tag is wrong.\<close>

definition short_key :: bytes where
  "short_key = [0xf5, 0xfb, 0x11, 0xbc, 0x9c, 0x73, 0xff, 0x3a, 0x00, 0x6d, 0x01, 0x1e, 0xa7, 0x93, 0x44, 0xfd] @ replicate 16 0"

definition short_msg :: bytes where
  "short_msg = [0x53, 0x12, 0xec, 0x4a, 0x01, 0xeb, 0xd9, 0x00, 0x48, 0xb2, 0x8c, 0x26, 0x4f, 0xee, 0x2b, 0x7d]"

theorem poly1305_wrong_tag_witness:
  "poly1305 (replicate 16 0) short_key [short_msg] = [0, 0, 0, 0x14] @ replicate 12 0 \<and>
    rfc_tag short_key short_msg = le_nat ([0, 0, 0, 0x18] @ replicate 12 0) \<and>
    short_tag (hval (poly1305_update (CRYPTO_poly1305_init (replicate 16 0) short_key) short_msg))"
proof -
  have tag: "poly1305 (replicate 16 0) short_key [short_msg] = [0, 0, 0, 0x14] @ replicate 12 0" by code_simp
  have rfc: "rfc_tag short_key short_msg = le_nat ([0, 0, 0, 0x18] @ replicate 12 0)"
    by (simp add: rfc_tag_def clamped_def poly_eval.simps P1305_def le_nat_zeros short_key_def short_msg_def)
  have "length short_key = 32" by (simp add: short_key_def)
  from poly1305_wrong_tag[OF this, of "replicate 16 0" "[short_msg]"] show ?thesis
    using tag rfc by (simp add: le_nat_zeros)
qed

end
