(* ===== verification/Aead.thy ===== *)
theory Aead
  imports Chacha Poly1305_Tag Cbs
begin

text \<open>
  Authenticated encryption: the interface of src/crypto/fipsmodule/cipher/aead.c and the two
  algorithms of src/crypto/cipher_extra/e_chacha20poly1305.c, which combine ChaCha20 and Poly1305.
  Input, output, nonce and additional data are pointers into one memory, so that what is encrypted in
  place, and which buffers may overlap, is part of the model. Keys are bytes of the context.
\<close>

section \<open>The table of an algorithm\<close>

text \<open>
  The state of a context is the key and the length of the tag; a NULL function pointer is \<open>None\<close>. The
  functions of the table get the state of the context, from which they read nothing else.
\<close>

record evp_aead_ctx_st_state =
  ctx_key :: bytes
  tag_len :: u8

record EVP_AEAD =
  key_len :: u8
  nonce_len :: u8
  overhead :: u8
  max_tag_len :: u8
  seal_scatter_supports_extra_in :: bool
  aead_init :: "(evp_aead_ctx_st_state \<Rightarrow> bytes \<Rightarrow> u64 \<Rightarrow> bool \<times> evp_aead_ctx_st_state) option"
  aead_init_with_direction :: "(evp_aead_ctx_st_state \<Rightarrow> bytes \<Rightarrow> u64 \<Rightarrow> bool \<Rightarrow> bool \<times> evp_aead_ctx_st_state) option"
  aead_cleanup :: "evp_aead_ctx_st_state \<Rightarrow> evp_aead_ctx_st_state"
  aead_open :: "(evp_aead_ctx_st_state \<Rightarrow> u64 \<Rightarrow> u64 \<Rightarrow> u64 \<Rightarrow> u64 \<Rightarrow> u64 \<Rightarrow> u64 \<Rightarrow> u64 \<Rightarrow> u64 \<Rightarrow> mem \<Rightarrow> (u64, mem) outcome) option"
  aead_seal_scatter :: "evp_aead_ctx_st_state \<Rightarrow> u64 \<Rightarrow> u64 \<Rightarrow> u64 \<Rightarrow> u64 \<Rightarrow> u64 \<Rightarrow> u64 \<Rightarrow> u64 \<Rightarrow> u64 \<Rightarrow> u64 \<Rightarrow> u64 \<Rightarrow> u64 \<Rightarrow> mem \<Rightarrow> (u64, mem) outcome"
  aead_open_gather :: "(evp_aead_ctx_st_state \<Rightarrow> u64 \<Rightarrow> u64 \<Rightarrow> u64 \<Rightarrow> u64 \<Rightarrow> u64 \<Rightarrow> u64 \<Rightarrow> u64 \<Rightarrow> u64 \<Rightarrow> u64 \<Rightarrow> mem \<Rightarrow> (unit, mem) outcome) option"
  aead_get_iv :: "(evp_aead_ctx_st_state \<Rightarrow> bytes option) option"
  aead_tag_len :: "(evp_aead_ctx_st_state \<Rightarrow> u64 \<Rightarrow> u64 \<Rightarrow> u64) option"

record EVP_AEAD_CTX =
  ctx_aead :: "EVP_AEAD option"
  ctx_state :: evp_aead_ctx_st_state

section \<open>ChaCha20-Poly1305\<close>

definition aead_chacha20_poly1305_init :: "evp_aead_ctx_st_state \<Rightarrow> bytes \<Rightarrow> u64 \<Rightarrow> bool \<times> evp_aead_ctx_st_state" where
  "aead_chacha20_poly1305_init st key tag_length =
     (let tag_length = (if tag_length = 0 then 16 else tag_length)
      in if 16 < tag_length then (False, st)
         else if length key \<noteq> 32 then (False, st)
         else (True, st\<lparr>ctx_key := key, tag_len := ucast tag_length\<rparr>))"

definition aead_chacha20_poly1305_cleanup :: "evp_aead_ctx_st_state \<Rightarrow> evp_aead_ctx_st_state" where
  "aead_chacha20_poly1305_cleanup st = st"

definition poly1305_update_length :: "poly1305_state_st \<Rightarrow> u64 \<Rightarrow> poly1305_state_st" where
  "poly1305_update_length ctx data_len = CRYPTO_poly1305_update ctx (le_bytes 8 data_len)"

text \<open>
  A nonce is given by what its pointer reads in a memory, so that it can be a local array of the
  caller. The arrays that \<open>calc_tag\<close> declares are in a memory of their own; the state of Poly1305 is
  taken to start with zeros there, and \<open>poly1305_chunks\<close> shows that its contents do not matter.
\<close>

definition padding :: "u64 \<Rightarrow> bytes" where
  "padding n = replicate (unat (16 - n mod 16)) 0"

definition calc_tag :: "bytes \<Rightarrow> (mem \<Rightarrow> bytes) \<Rightarrow> u64 \<Rightarrow> u64 \<Rightarrow> u64 \<Rightarrow> u64 \<Rightarrow> u64 \<Rightarrow> u64 \<Rightarrow> mem \<Rightarrow> (bytes, mem) outcome" where
  "calc_tag key nonce ad ad_len ciphertext ciphertext_len ciphertext_extra ciphertext_extra_len m =
     bindo (CRYPTO_chacha_20 0 0 32 key (nonce m) 0 (\<lambda>_. 0)) (\<lambda>_ local.
       let ctx = CRYPTO_poly1305_init (replicate 16 0) (mem_read local 0 32);
           ctx = CRYPTO_poly1305_update ctx (mem_read m ad (unat ad_len));
           ctx = (if ad_len mod 16 \<noteq> 0 then CRYPTO_poly1305_update ctx (padding ad_len) else ctx);
           ctx = CRYPTO_poly1305_update ctx (mem_read m ciphertext (unat ciphertext_len));
           ctx = CRYPTO_poly1305_update ctx (mem_read m ciphertext_extra (unat ciphertext_extra_len));
           ciphertext_total = ciphertext_len + ciphertext_extra_len;
           ctx = (if ciphertext_total mod 16 \<noteq> 0 then CRYPTO_poly1305_update ctx (padding ciphertext_total) else ctx);
           ctx = poly1305_update_length ctx ad_len;
           ctx = poly1305_update_length ctx ciphertext_total
       in Ok (fst (CRYPTO_poly1305_finish ctx)) m)"

text \<open>The extra input is encrypted byte by byte, from where the key stream of the input ends.\<close>

function extra_bytes :: "u64 \<Rightarrow> u64 \<Rightarrow> nat \<Rightarrow> bytes \<Rightarrow> nat \<Rightarrow> nat \<Rightarrow> mem \<Rightarrow> nat \<times> mem" where
  "extra_bytes out_tag extra_in extra_in_len block i num m =
     (if i < 64 \<and> num < extra_in_len
      then extra_bytes out_tag extra_in extra_in_len block (i + 1) (num + 1)
             (m(out_tag + of_nat num := m (extra_in + of_nat num) XOR block ! i))
      else (num, m))"
  by pat_completeness auto

termination
  by (relation "measure (\<lambda>(out_tag, extra_in, extra_in_len, block, i, num, m). 64 - i)") auto

declare extra_bytes.simps [simp del]

lemma extra_bytes_mono: "i < 64 \<Longrightarrow> num < n \<Longrightarrow> num < fst (extra_bytes out_tag extra_in n block i num m)"
proof -
  have le: "d \<le> fst (extra_bytes out_tag extra_in n block i d m)" for i d m
    by (induction out_tag extra_in n block i d m rule: extra_bytes.induct) (subst extra_bytes.simps, auto simp del: fun_upd_apply)
  assume "i < 64" "num < n"
  then show ?thesis using le[of "num + 1" "i + 1"] by (subst extra_bytes.simps) (simp add: Suc_le_lessD)
qed

function extra_loop :: "u64 \<Rightarrow> u64 \<Rightarrow> nat \<Rightarrow> bytes \<Rightarrow> (mem \<Rightarrow> bytes) \<Rightarrow> u32 \<Rightarrow> nat \<Rightarrow> nat \<Rightarrow> mem \<Rightarrow> (unit, mem) outcome" where
  "extra_loop out_tag extra_in extra_in_len key nonce block_counter offset num m =
     (if num < extra_in_len then
        (case CRYPTO_chacha_20 0 0 64 key (nonce m) block_counter (\<lambda>_. 0) of
           Ok _ local \<Rightarrow>
             (let r = extra_bytes out_tag extra_in extra_in_len (mem_read local 0 64) offset num m
              in extra_loop out_tag extra_in extra_in_len key nonce (block_counter + 1) 0 (fst r) (snd r))
         | Fail _ \<Rightarrow> NoResult | NoResult \<Rightarrow> NoResult)
      else Ok () m)"
  by pat_completeness auto

termination
proof (relation "measures [\<lambda>(out_tag, extra_in, extra_in_len, key, nonce, block_counter, offset, num, m). extra_in_len - num,
    \<lambda>(out_tag, extra_in, extra_in_len, key, nonce, block_counter, offset, num, m). offset]", goal_cases)
  case (2 out_tag extra_in n key nonce c i d m u local r)
  have "fst r = d" if "64 \<le> i" using that 2(3) by (simp add: extra_bytes.simps)
  moreover have "d < fst r" if "i < 64" using extra_bytes_mono[OF that 2(1)] 2(3) by simp
  ultimately show ?case using 2(1) by (cases r; cases "i < 64") auto
qed simp

declare extra_loop.simps [simp del]

definition chacha20_poly1305_seal_scatter :: "bytes \<Rightarrow> u64 \<Rightarrow> u64 \<Rightarrow> u64 \<Rightarrow> (mem \<Rightarrow> bytes) \<Rightarrow> u64 \<Rightarrow> u64 \<Rightarrow> u64 \<Rightarrow> u64 \<Rightarrow> u64 \<Rightarrow> u64 \<Rightarrow> u64 \<Rightarrow> u64 \<Rightarrow> mem \<Rightarrow> (u64, mem) outcome" where
  "chacha20_poly1305_seal_scatter key out out_tag max_out_tag_len nonce nonce_length inp in_len extra_in extra_in_len ad ad_len tag_length m =
     (if extra_in_len + tag_length < tag_length then Fail m
      else if max_out_tag_len < tag_length + extra_in_len then Fail m
      else if nonce_length \<noteq> 12 then Fail m
      else if push_bit 32 1 * 64 - 64 \<le> in_len then Fail m
      else if max_out_tag_len < tag_length then Fail m
      else
        bindo (if extra_in_len \<noteq> 0
               then extra_loop out_tag extra_in (unat extra_in_len) key nonce (ucast (1 + in_len div 64)) (unat (in_len mod 64)) 0 m
               else Ok () m) (\<lambda>_ m.
        bindo (CRYPTO_chacha_20 out inp in_len key (nonce m) 1 m) (\<lambda>_ m.
        bindo (calc_tag key nonce ad ad_len out in_len out_tag extra_in_len m) (\<lambda>tag m.
        Ok (extra_in_len + tag_length) (mem_write m (out_tag + extra_in_len) (take (unat tag_length) tag))))))"

definition aead_chacha20_poly1305_seal_scatter :: "evp_aead_ctx_st_state \<Rightarrow> u64 \<Rightarrow> u64 \<Rightarrow> u64 \<Rightarrow> u64 \<Rightarrow> u64 \<Rightarrow> u64 \<Rightarrow> u64 \<Rightarrow> u64 \<Rightarrow> u64 \<Rightarrow> u64 \<Rightarrow> u64 \<Rightarrow> mem \<Rightarrow> (u64, mem) outcome" where
  "aead_chacha20_poly1305_seal_scatter st out out_tag max_out_tag_len nonce nonce_length inp in_len extra_in extra_in_len ad ad_len m =
     chacha20_poly1305_seal_scatter (ctx_key st) out out_tag max_out_tag_len (\<lambda>m. mem_read m nonce 12) nonce_length inp in_len extra_in extra_in_len
       ad ad_len (ucast (tag_len st)) m"

text \<open>The nonce of 24 bytes gives a key of its own and a nonce of 12 bytes, in local arrays.\<close>

definition derived_nonce :: "bytes \<Rightarrow> bytes" where
  "derived_nonce nonce = replicate 4 0 @ take 8 (drop 16 nonce)"

definition aead_xchacha20_poly1305_seal_scatter :: "evp_aead_ctx_st_state \<Rightarrow> u64 \<Rightarrow> u64 \<Rightarrow> u64 \<Rightarrow> u64 \<Rightarrow> u64 \<Rightarrow> u64 \<Rightarrow> u64 \<Rightarrow> u64 \<Rightarrow> u64 \<Rightarrow> u64 \<Rightarrow> u64 \<Rightarrow> mem \<Rightarrow> (u64, mem) outcome" where
  "aead_xchacha20_poly1305_seal_scatter st out out_tag max_out_tag_len nonce nonce_length inp in_len extra_in extra_in_len ad ad_len m =
     (if nonce_length \<noteq> 24 then Fail m
      else let n = mem_read m nonce 24; derived_key = CRYPTO_hchacha20 (ctx_key st) (take 16 n)
           in chacha20_poly1305_seal_scatter derived_key out out_tag max_out_tag_len (\<lambda>_. derived_nonce n) 12 inp in_len extra_in extra_in_len
                ad ad_len (ucast (tag_len st)) m)"

definition chacha20_poly1305_open_gather :: "bytes \<Rightarrow> u64 \<Rightarrow> (mem \<Rightarrow> bytes) \<Rightarrow> u64 \<Rightarrow> u64 \<Rightarrow> u64 \<Rightarrow> u64 \<Rightarrow> u64 \<Rightarrow> u64 \<Rightarrow> u64 \<Rightarrow> u64 \<Rightarrow> mem \<Rightarrow> (unit, mem) outcome" where
  "chacha20_poly1305_open_gather key out nonce nonce_length inp in_len in_tag in_tag_len ad ad_len tag_length m =
     (if nonce_length \<noteq> 12 then Fail m
      else if in_tag_len \<noteq> tag_length then Fail m
      else if push_bit 32 1 * 64 - 64 \<le> in_len then Fail m
      else
        bindo (calc_tag key nonce ad ad_len inp in_len 0 0 m) (\<lambda>tag m.
        bindo (CRYPTO_chacha_20 out inp in_len key (nonce m) 1 m) (\<lambda>_ m.
        if CRYPTO_memcmp (take (unat tag_length) tag) (mem_read m in_tag (unat tag_length)) \<noteq> 0 then Fail m else Ok () m)))"

definition aead_chacha20_poly1305_open_gather :: "evp_aead_ctx_st_state \<Rightarrow> u64 \<Rightarrow> u64 \<Rightarrow> u64 \<Rightarrow> u64 \<Rightarrow> u64 \<Rightarrow> u64 \<Rightarrow> u64 \<Rightarrow> u64 \<Rightarrow> u64 \<Rightarrow> mem \<Rightarrow> (unit, mem) outcome" where
  "aead_chacha20_poly1305_open_gather st out nonce nonce_length inp in_len in_tag in_tag_len ad ad_len m =
     chacha20_poly1305_open_gather (ctx_key st) out (\<lambda>m. mem_read m nonce 12) nonce_length inp in_len in_tag in_tag_len ad ad_len (ucast (tag_len st)) m"

definition aead_xchacha20_poly1305_open_gather :: "evp_aead_ctx_st_state \<Rightarrow> u64 \<Rightarrow> u64 \<Rightarrow> u64 \<Rightarrow> u64 \<Rightarrow> u64 \<Rightarrow> u64 \<Rightarrow> u64 \<Rightarrow> u64 \<Rightarrow> u64 \<Rightarrow> mem \<Rightarrow> (unit, mem) outcome" where
  "aead_xchacha20_poly1305_open_gather st out nonce nonce_length inp in_len in_tag in_tag_len ad ad_len m =
     (if nonce_length \<noteq> 24 then Fail m
      else let n = mem_read m nonce 24; derived_key = CRYPTO_hchacha20 (ctx_key st) (take 16 n)
           in chacha20_poly1305_open_gather derived_key out (\<lambda>_. derived_nonce n) 12 inp in_len in_tag in_tag_len ad ad_len (ucast (tag_len st)) m)"

definition aead_chacha20_poly1305 :: EVP_AEAD where
  "aead_chacha20_poly1305 =
     \<lparr>key_len = 32, nonce_len = 12, overhead = 16, max_tag_len = 16, seal_scatter_supports_extra_in = True,
      aead_init = Some aead_chacha20_poly1305_init, aead_init_with_direction = None, aead_cleanup = aead_chacha20_poly1305_cleanup,
      aead_open = None, aead_seal_scatter = aead_chacha20_poly1305_seal_scatter, aead_open_gather = Some aead_chacha20_poly1305_open_gather,
      aead_get_iv = None, aead_tag_len = None\<rparr>"

definition aead_xchacha20_poly1305 :: EVP_AEAD where
  "aead_xchacha20_poly1305 =
     \<lparr>key_len = 32, nonce_len = 24, overhead = 16, max_tag_len = 16, seal_scatter_supports_extra_in = True,
      aead_init = Some aead_chacha20_poly1305_init, aead_init_with_direction = None, aead_cleanup = aead_chacha20_poly1305_cleanup,
      aead_open = None, aead_seal_scatter = aead_xchacha20_poly1305_seal_scatter, aead_open_gather = Some aead_xchacha20_poly1305_open_gather,
      aead_get_iv = None, aead_tag_len = None\<rparr>"

section \<open>The interface\<close>

definition EVP_AEAD_key_length :: "EVP_AEAD \<Rightarrow> u64" where
  "EVP_AEAD_key_length aead = ucast (key_len aead)"

definition EVP_AEAD_nonce_length :: "EVP_AEAD \<Rightarrow> u64" where
  "EVP_AEAD_nonce_length aead = ucast (nonce_len aead)"

definition EVP_AEAD_max_overhead :: "EVP_AEAD \<Rightarrow> u64" where
  "EVP_AEAD_max_overhead aead = ucast (overhead aead)"

definition EVP_AEAD_max_tag_len :: "EVP_AEAD \<Rightarrow> u64" where
  "EVP_AEAD_max_tag_len aead = ucast (max_tag_len aead)"

definition EVP_AEAD_CTX_zero :: EVP_AEAD_CTX where
  "EVP_AEAD_CTX_zero = \<lparr>ctx_aead = None, ctx_state = \<lparr>ctx_key = replicate 32 0, tag_len = 0\<rparr>\<rparr>"

text \<open>The direction is \<open>True\<close> for opening.\<close>

definition EVP_AEAD_CTX_init_with_direction :: "EVP_AEAD_CTX \<Rightarrow> EVP_AEAD \<Rightarrow> bytes \<Rightarrow> u64 \<Rightarrow> bool \<Rightarrow> (bool \<times> EVP_AEAD_CTX) option" where
  "EVP_AEAD_CTX_init_with_direction ctx aead key tag_length dir =
     (if length key \<noteq> unat (key_len aead) then Some (False, ctx\<lparr>ctx_aead := None\<rparr>)
      else let ctx = ctx\<lparr>ctx_aead := Some aead\<rparr>;
               r = (case aead_init aead of
                      Some f \<Rightarrow> Some (f (ctx_state ctx) key tag_length)
                    | None \<Rightarrow> (case aead_init_with_direction aead of
                        Some g \<Rightarrow> Some (g (ctx_state ctx) key tag_length dir)
                      | None \<Rightarrow> None))
           in (case r of
                 None \<Rightarrow> None
               | Some (ok, st) \<Rightarrow>
                   (let ctx = ctx\<lparr>ctx_state := st\<rparr>; ctx = (if \<not> ok then ctx\<lparr>ctx_aead := None\<rparr> else ctx) in Some (ok, ctx))))"

definition EVP_AEAD_CTX_init :: "EVP_AEAD_CTX \<Rightarrow> EVP_AEAD \<Rightarrow> bytes \<Rightarrow> u64 \<Rightarrow> (bool \<times> EVP_AEAD_CTX) option" where
  "EVP_AEAD_CTX_init ctx aead key tag_length =
     (if aead_init aead = None then Some (False, ctx\<lparr>ctx_aead := None\<rparr>)
      else EVP_AEAD_CTX_init_with_direction ctx aead key tag_length True)"

definition EVP_AEAD_CTX_cleanup :: "EVP_AEAD_CTX \<Rightarrow> EVP_AEAD_CTX" where
  "EVP_AEAD_CTX_cleanup ctx =
     (case ctx_aead ctx of
        None \<Rightarrow> ctx
      | Some aead \<Rightarrow> ctx\<lparr>ctx_state := aead_cleanup aead (ctx_state ctx), ctx_aead := None\<rparr>)"

text \<open>What is left of a context when its block is given back.\<close>

definition EVP_AEAD_CTX_free :: "EVP_AEAD_CTX \<Rightarrow> EVP_AEAD_CTX" where
  "EVP_AEAD_CTX_free ctx = EVP_AEAD_CTX_cleanup ctx"

definition EVP_AEAD_CTX_aead :: "EVP_AEAD_CTX \<Rightarrow> EVP_AEAD option" where
  "EVP_AEAD_CTX_aead ctx = ctx_aead ctx"

text \<open>A new context, if there is memory for it. Without, the code writes through a null pointer.\<close>

definition EVP_AEAD_CTX_new :: "bool \<Rightarrow> EVP_AEAD \<Rightarrow> bytes \<Rightarrow> u64 \<Rightarrow> EVP_AEAD_CTX option option" where
  "EVP_AEAD_CTX_new memory aead key tag_length =
     (if \<not> memory then None
      else (case EVP_AEAD_CTX_init EVP_AEAD_CTX_zero aead key tag_length of
              None \<Rightarrow> None
            | Some (ok, ctx) \<Rightarrow> Some (if ok then Some ctx else None)))"

definition check_alias :: "u64 \<Rightarrow> u64 \<Rightarrow> u64 \<Rightarrow> u64 \<Rightarrow> bool" where
  "check_alias inp in_len out out_len = (if \<not> buffers_alias inp in_len out out_len then True else inp = out)"

text \<open>
  The state of the following four is the memory and the length that is put out. Errors clear the
  output.
\<close>

definition clear :: "u64 \<Rightarrow> u64 \<Rightarrow> mem \<Rightarrow> mem" where
  "clear out n m = mem_write m out (replicate (unat n) 0)"

definition EVP_AEAD_CTX_seal :: "EVP_AEAD_CTX \<Rightarrow> u64 \<Rightarrow> u64 \<Rightarrow> u64 \<Rightarrow> u64 \<Rightarrow> u64 \<Rightarrow> u64 \<Rightarrow> u64 \<Rightarrow> u64 \<Rightarrow> mem \<Rightarrow> (unit, mem \<times> u64) outcome" where
  "EVP_AEAD_CTX_seal ctx out max_out_len nonce nonce_length inp in_len ad ad_len m =
     (case ctx_aead ctx of
        None \<Rightarrow> NoResult
      | Some aead \<Rightarrow>
          if in_len + ucast (overhead aead) < in_len then Fail (clear out max_out_len m, 0)
          else if max_out_len < in_len then Fail (clear out max_out_len m, 0)
          else if \<not> check_alias inp in_len out max_out_len then Fail (clear out max_out_len m, 0)
          else (case aead_seal_scatter aead (ctx_state ctx) out (out + in_len) (max_out_len - in_len) nonce nonce_length inp in_len 0 0 ad ad_len m of
                  Ok out_tag_len m \<Rightarrow> Ok () (m, in_len + out_tag_len)
                | Fail m \<Rightarrow> Fail (clear out max_out_len m, 0)
                | NoResult \<Rightarrow> NoResult))"

definition EVP_AEAD_CTX_seal_scatter :: "EVP_AEAD_CTX \<Rightarrow> u64 \<Rightarrow> u64 \<Rightarrow> u64 \<Rightarrow> u64 \<Rightarrow> u64 \<Rightarrow> u64 \<Rightarrow> u64 \<Rightarrow> u64 \<Rightarrow> u64 \<Rightarrow> u64 \<Rightarrow> u64 \<Rightarrow> mem \<Rightarrow> (unit, mem \<times> u64) outcome" where
  "EVP_AEAD_CTX_seal_scatter ctx out out_tag max_out_tag_len nonce nonce_length inp in_len extra_in extra_in_len ad ad_len m =
     (if \<not> check_alias inp in_len out in_len \<or> buffers_alias out in_len out_tag max_out_tag_len \<or> buffers_alias inp in_len out_tag max_out_tag_len
      then Fail (clear out_tag max_out_tag_len (clear out in_len m), 0)
      else (case ctx_aead ctx of
        None \<Rightarrow> NoResult
      | Some aead \<Rightarrow>
          if \<not> seal_scatter_supports_extra_in aead \<and> extra_in_len \<noteq> 0 then Fail (clear out_tag max_out_tag_len (clear out in_len m), 0)
          else (case aead_seal_scatter aead (ctx_state ctx) out out_tag max_out_tag_len nonce nonce_length inp in_len extra_in extra_in_len ad ad_len m of
                  Ok out_tag_len m \<Rightarrow> Ok () (m, out_tag_len)
                | Fail m \<Rightarrow> Fail (clear out_tag max_out_tag_len (clear out in_len m), 0)
                | NoResult \<Rightarrow> NoResult)))"

definition EVP_AEAD_CTX_open_gather :: "EVP_AEAD_CTX \<Rightarrow> u64 \<Rightarrow> u64 \<Rightarrow> u64 \<Rightarrow> u64 \<Rightarrow> u64 \<Rightarrow> u64 \<Rightarrow> u64 \<Rightarrow> u64 \<Rightarrow> u64 \<Rightarrow> mem \<Rightarrow> (unit, mem) outcome" where
  "EVP_AEAD_CTX_open_gather ctx out nonce nonce_length inp in_len in_tag in_tag_len ad ad_len m =
     (if \<not> check_alias inp in_len out in_len then Fail (clear out in_len m)
      else (case ctx_aead ctx of
        None \<Rightarrow> NoResult
      | Some aead \<Rightarrow>
          (case aead_open_gather aead of
             None \<Rightarrow> Fail (clear out in_len m)
           | Some f \<Rightarrow>
               (case f (ctx_state ctx) out nonce nonce_length inp in_len in_tag in_tag_len ad ad_len m of
                  Ok _ m \<Rightarrow> Ok () m
                | Fail m \<Rightarrow> Fail (clear out in_len m)
                | NoResult \<Rightarrow> NoResult))))"

definition EVP_AEAD_CTX_open :: "EVP_AEAD_CTX \<Rightarrow> u64 \<Rightarrow> u64 \<Rightarrow> u64 \<Rightarrow> u64 \<Rightarrow> u64 \<Rightarrow> u64 \<Rightarrow> u64 \<Rightarrow> u64 \<Rightarrow> mem \<Rightarrow> (unit, mem \<times> u64) outcome" where
  "EVP_AEAD_CTX_open ctx out max_out_len nonce nonce_length inp in_len ad ad_len m =
     (if \<not> check_alias inp in_len out max_out_len then Fail (clear out max_out_len m, 0)
      else (case ctx_aead ctx of
        None \<Rightarrow> NoResult
      | Some aead \<Rightarrow>
          (case aead_open aead of
             Some f \<Rightarrow>
               (case f (ctx_state ctx) out max_out_len nonce nonce_length inp in_len ad ad_len m of
                  Ok out_len m \<Rightarrow> Ok () (m, out_len)
                | Fail m \<Rightarrow> Fail (clear out max_out_len m, 0)
                | NoResult \<Rightarrow> NoResult)
           | None \<Rightarrow>
               let tag_length = ucast (tag_len (ctx_state ctx)) in
               if tag_length = 0 then NoResult
               else if in_len < tag_length then Fail (clear out max_out_len m, 0)
               else
                 let plaintext_len = in_len - tag_length in
                 if max_out_len < plaintext_len then Fail (clear out max_out_len m, 0)
                 else (case EVP_AEAD_CTX_open_gather ctx out nonce nonce_length inp plaintext_len (inp + plaintext_len) tag_length ad ad_len m of
                         Ok _ m \<Rightarrow> Ok () (m, plaintext_len)
                       | Fail m \<Rightarrow> Fail (clear out max_out_len m, 0)
                       | NoResult \<Rightarrow> NoResult))))"

definition EVP_AEAD_CTX_get_iv :: "EVP_AEAD_CTX \<Rightarrow> bytes option option" where
  "EVP_AEAD_CTX_get_iv ctx =
     (case ctx_aead ctx of
        None \<Rightarrow> None
      | Some aead \<Rightarrow> Some (case aead_get_iv aead of None \<Rightarrow> None | Some f \<Rightarrow> f (ctx_state ctx)))"

text \<open>The length of a tag; \<open>None\<close> is the overflow.\<close>

definition EVP_AEAD_CTX_tag_len :: "EVP_AEAD_CTX \<Rightarrow> u64 \<Rightarrow> u64 \<Rightarrow> u64 option option" where
  "EVP_AEAD_CTX_tag_len ctx in_len extra_in_len =
     (case ctx_aead ctx of
        None \<Rightarrow> None
      | Some aead \<Rightarrow>
          if \<not> (seal_scatter_supports_extra_in aead \<or> extra_in_len = 0) then None
          else Some (case aead_tag_len aead of
                       Some f \<Rightarrow> Some (f (ctx_state ctx) in_len extra_in_len)
                     | None \<Rightarrow>
                         if extra_in_len + ucast (tag_len (ctx_state ctx)) < extra_in_len then None
                         else Some (extra_in_len + ucast (tag_len (ctx_state ctx)))))"

end
