(* ===== verification/Aead_Props.thy ===== *)
theory Aead_Props
  imports Aead
begin

text \<open>
  What the interface promises: sealing puts out the exclusive or with the key stream and the tag,
  opening accepts exactly what sealing puts out, and clears the output otherwise.
\<close>

section \<open>Memory\<close>

lemma mem_write_at:
  assumes "length bs \<le> 2 ^ 64"
  shows "mem_write m a bs x = (if unat (x - a) < length bs then bs ! unat (x - a) else m x)"
proof (cases "unat (x - a) < length bs")
  case True
  then show ?thesis using mem_write_in[OF True assms, of m a] by simp
next
  case False
  have "a + of_nat i \<noteq> x" if "i < length bs" for i
  proof
    assume "a + of_nat i = x"
    then have "x - a = of_nat i" by auto
    moreover have "i < 2 ^ 64" using that assms by simp
    ultimately have "unat (x - a) = i" by (simp add: unat_of_nat take_bit_nat_eq_self)
    then show False using False that by simp
  qed
  then show ?thesis using False mem_write_other by simp
qed

lemma apart_unat: "apart a n b k \<Longrightarrow> \<not> (unat (x - a) < n \<and> unat (x - b) < k)"
  using apartD[of a n b k "unat (x - a)" "unat (x - b)"] by auto

lemma mem_write_commute:
  "apart a (length xs) b (length ys) \<Longrightarrow> length xs \<le> 2 ^ 64 \<Longrightarrow> length ys \<le> 2 ^ 64 \<Longrightarrow>
    mem_write (mem_write m a xs) b ys = mem_write (mem_write m b ys) a xs"
  using apart_unat[of a "length xs" b "length ys"] by (intro ext) (auto simp: mem_write_at)

text \<open>Writing over what was written.\<close>

lemma mem_write_twice: "length xs \<le> length ys \<Longrightarrow> length ys \<le> 2 ^ 64 \<Longrightarrow> mem_write (mem_write m a xs) a ys = mem_write m a ys"
  by (intro ext) (auto simp: mem_write_at)

text \<open>A reader of memory that does not look into a buffer.\<close>

definition blind :: "(mem \<Rightarrow> 'a) \<Rightarrow> u64 \<Rightarrow> nat \<Rightarrow> bool" where
  "blind f a n \<longleftrightarrow> (\<forall>m bs i. i + length bs \<le> n \<longrightarrow> f (mem_write m (a + of_nat i) bs) = f m)"

lemma blindD: "blind f a n \<Longrightarrow> i + length bs \<le> n \<Longrightarrow> f (mem_write m (a + of_nat i) bs) = f m"
  by (simp add: blind_def)

lemma blind_start: "blind f a n \<Longrightarrow> length bs \<le> n \<Longrightarrow> f (mem_write m a bs) = f m"
  using blindD[of f a n 0 bs] by simp

lemma blind_const: "blind (\<lambda>_. c) a n"
  by (simp add: blind_def)

lemma blind_read: "apart a n b k \<Longrightarrow> blind (\<lambda>m. mem_read m b k) a n"
  unfolding blind_def using mem_read_apart apart_sub[of a n b k _ _ 0 k] by fastforce

section \<open>The tag\<close>

definition zeros_to_16 :: "nat \<Rightarrow> bytes" where
  "zeros_to_16 n = replicate ((16 - n mod 16) mod 16) 0"

definition mac_input :: "bytes \<Rightarrow> bytes \<Rightarrow> bytes" where
  "mac_input ad ct = ad @ zeros_to_16 (length ad) @ ct @ zeros_to_16 (length ct) @
     le_bytes 8 (of_nat (length ad) :: u64) @ le_bytes 8 (of_nat (length ct) :: u64)"

definition mac :: "bytes \<Rightarrow> bytes \<Rightarrow> bytes \<Rightarrow> bytes \<Rightarrow> bytes" where
  "mac key nonce ad ct = poly1305 (replicate 16 0) (keystream key nonce 0 0 32) [mac_input ad ct]"

text \<open>The key stream, as it is made in a local array of zeros.\<close>

lemma mem_read_zero: "mem_read (\<lambda>_. 0) a n = replicate n 0"
  by (induction n arbitrary: a) simp_all

lemma local_stream:
  assumes "length key = 32" "length nonce = 12"
  shows "\<exists>local. CRYPTO_chacha_20 0 0 n key nonce c (\<lambda>_. 0) = Ok () local \<and> mem_read local 0 (unat n) = keystream key nonce c 0 (unat n)"
proof -
  have "xor_list (replicate (unat n) 0) (keystream key nonce c 0 (unat n)) = keystream key nonce c 0 (unat n)"
    by (rule nth_equalityI) (simp_all add: xor_list_def)
  then show ?thesis using chacha_20_eq[OF assms, of 0 0 n c "\<lambda>_. 0"] mem_read_write_same[of "keystream key nonce c 0 (unat n)"] unat_le_bound[of n]
    by (simp add: mem_read_zero)
qed

lemma pad_chunk: "concat (if n mod 16 \<noteq> 0 then [padding n] else []) = zeros_to_16 (unat n)"
proof (cases "n mod 16 = 0")
  case True
  then have "unat n mod 16 = 0" using unat_mod[of n 16] by simp
  then show ?thesis using True by (simp add: zeros_to_16_def)
next
  case False
  have r: "unat (n mod 16) = unat n mod 16" using unat_mod[of n 16] by simp
  moreover have "unat (n mod 16) \<noteq> 0" using False by (simp add: unat_eq_zero)
  moreover have "n mod 16 \<le> 16" using r by (simp add: word_le_nat_alt)
  ultimately show ?thesis using False by (simp add: zeros_to_16_def padding_def unat_sub)
qed

lemma calc_tag_eq:
  assumes "length key = 32" "length (nonce m) = 12" "unat ct_len + unat ext_len < 2 ^ 64"
  shows "calc_tag key nonce ad ad_len ct ct_len ext ext_len m =
    Ok (mac key (nonce m) (mem_read m ad (unat ad_len)) (mem_read m ct (unat ct_len) @ mem_read m ext (unat ext_len))) m"
proof -
  have pad: "(if n mod 16 \<noteq> 0 then CRYPTO_poly1305_update ctx (padding n) else ctx) =
      foldl CRYPTO_poly1305_update ctx (if n mod 16 \<noteq> 0 then [padding n] else [])" for ctx n by simp
  obtain local where l: "CRYPTO_chacha_20 0 0 32 key (nonce m) 0 (\<lambda>_. 0) = Ok () local" "mem_read local 0 32 = keystream key (nonce m) 0 0 32"
    using local_stream[OF assms(1,2), of 32 0] by auto
  have t: "unat (ct_len + ext_len) = unat ct_len + unat ext_len" using assms(3) by (simp add: unat_plus_len)
  have w: "of_nat (unat ad_len) = ad_len" "of_nat (unat ct_len + unat ext_len) = ct_len + ext_len" by simp_all
  let ?ad = "mem_read m ad (unat ad_len)" and ?ct = "mem_read m ct (unat ct_len)" and ?ext = "mem_read m ext (unat ext_len)"
  let ?tot = "ct_len + ext_len"
  let ?chunks = "[?ad] @ (if ad_len mod 16 \<noteq> 0 then [padding ad_len] else []) @ [?ct, ?ext] @ (if ?tot mod 16 \<noteq> 0 then [padding ?tot] else []) @
    [le_bytes 8 ad_len, le_bytes 8 ?tot]"
  have "calc_tag key nonce ad ad_len ct ct_len ext ext_len m = Ok (poly1305 (replicate 16 0) (keystream key (nonce m) 0 0 32) ?chunks) m"
    by (simp only: calc_tag_def l bindo.simps Let_def pad poly1305_update_length_def poly1305_def foldl_append foldl_Cons foldl_Nil)
  moreover have "concat ?chunks = mac_input ?ad (?ct @ ?ext)"
    by (simp only: concat_append concat.simps pad_chunk mac_input_def length_append length_mem_read t w append_assoc append_Nil2 append_Nil append_Cons)
  ultimately show ?thesis by (simp add: mac_def poly1305_once)
qed

section \<open>The extra input\<close>

lemma extra_bytes_eq:
  "length block = 64 \<Longrightarrow> i \<le> 64 \<Longrightarrow> d \<le> n \<Longrightarrow>
    extra_bytes out_tag extra_in n block i d m =
      (d + min (64 - i) (n - d), xor_bytes (out_tag + of_nat d) (extra_in + of_nat d) (take (min (64 - i) (n - d)) (drop i block)) m)"
proof (induction out_tag extra_in n block i d m rule: extra_bytes.induct)
  case (1 out_tag extra_in n block i d m)
  show ?case
  proof (cases "i < 64 \<and> d < n")
    case True
    then have k: "min (64 - i) (n - d) = Suc (min (64 - (i + 1)) (n - (d + 1)))" by auto
    have b: "drop i block = block ! i # drop (i + 1) block" using True "1.prems"(1) by (simp add: Cons_nth_drop_Suc)
    show ?thesis using "1.IH"[OF True] "1.prems" True
      by (subst extra_bytes.simps) (simp add: k b add.assoc add.commute[of 1] del: fun_upd_apply)
  next
    case False
    then show ?thesis using "1.prems" by (subst extra_bytes.simps) auto
  qed
qed

text \<open>Wherever the key stream stands, the extra input continues it.\<close>

lemma extra_loop_eq:
  assumes "length key = 32" and "\<And>m. length (nonce m) = 12" and "blind nonce out_tag n" and "n < 2 ^ 64" and "extra_in = out_tag \<or> apart out_tag n extra_in n"
  shows "d \<le> n \<Longrightarrow> extra_loop out_tag extra_in n key nonce (1 + of_nat (pos div 64)) (pos mod 64) d m =
    Ok () (mem_write m (out_tag + of_nat d) (xor_list (mem_read m (extra_in + of_nat d) (n - d)) (keystream key (nonce m) 1 pos (n - d))))"
proof (induction "n - d" arbitrary: d pos m rule: less_induct)
  case less
  show ?case
  proof (cases "d < n")
    case False
    then show ?thesis by (subst extra_loop.simps) (simp add: xor_list_def keystream_def)
  next
    case True
    define k where "k = min (64 - pos mod 64) (n - d)"
    let ?c = "1 + of_nat (pos div 64)"
    obtain local where l: "CRYPTO_chacha_20 0 0 64 key (nonce m) ?c (\<lambda>_. 0) = Ok () local"
      "mem_read local 0 64 = keystream key (nonce m) ?c 0 64"
      using local_stream[OF assms(1,2), of 64 m ?c] by auto
    have "key_byte key (nonce m) ?c (pos mod 64 + i) = key_byte key (nonce m) 1 (pos + i)" if "i < 64 - pos mod 64" for i
    proof -
      have e: "(x + 64 * q) div 64 = q \<and> (x + 64 * q) mod 64 = x" if "x < 64" for x q :: nat using that by simp
      have "pos mod 64 + i + 64 * (pos div 64) = pos + i" by simp
      then have "(pos + i) div 64 = pos div 64" "(pos + i) mod 64 = pos mod 64 + i"
        using e[of "pos mod 64 + i" "pos div 64"] that by (simp_all only:)
      moreover have "(pos mod 64 + i) div 64 = 0" "(pos mod 64 + i) mod 64 = pos mod 64 + i" using that by simp_all
      ultimately show ?thesis by (simp add: key_byte_def)
    qed
    then have ks: "take k (drop (pos mod 64) (keystream key (nonce m) ?c 0 64)) = keystream key (nonce m) 1 pos k"
      by (intro nth_equalityI) (auto simp: keystream_def k_def)
    let ?x = "xor_list (mem_read m (extra_in + of_nat d) k) (keystream key (nonce m) 1 pos k)"
    let ?m = "mem_write m (out_tag + of_nat d) ?x"
    have kn: "0 < k" "d + k \<le> n" using True by (simp_all add: k_def)
    have "extra_in + of_nat d = out_tag + of_nat d \<or> apart (out_tag + of_nat d) k (extra_in + of_nat d) k"
      using assms(5) apart_sub[of out_tag n extra_in n d k d k] kn by auto
    then have "extra_bytes out_tag extra_in n (mem_read local 0 64) (pos mod 64) d m = (d + k, ?m)"
      using extra_bytes_eq[of "mem_read local 0 64" "pos mod 64" d n out_tag extra_in m] True kn(2) assms(4) xor_bytes_eq[of "keystream key (nonce m) 1 pos k"]
      by (simp add: l(2) ks flip: k_def)
    then have step: "extra_loop out_tag extra_in n key nonce ?c (pos mod 64) d m = extra_loop out_tag extra_in n key nonce (?c + 1) 0 (d + k) ?m"
      using True l(1) by (subst extra_loop.simps) (simp add: Let_def)
    have nm: "nonce ?m = nonce m" using assms(3) kn(2) by (intro blindD) simp_all
    have rd: "mem_read ?m (extra_in + of_nat (d + k)) (n - (d + k)) = mem_read m (extra_in + of_nat (d + k)) (n - (d + k))"
    proof (rule mem_read_apart)
      show "apart (out_tag + of_nat d) (length ?x) (extra_in + of_nat (d + k)) (n - (d + k))"
        using assms(4,5) kn apart_sub[of out_tag n extra_in n d k "d + k" "n - (d + k)"]
          apart_sub[OF apart_next[of n "d + k" out_tag], of d k 0 "n - (d + k)"] by auto
    qed
    show ?thesis
    proof (cases "d + k = n")
      case True
      then show ?thesis unfolding step by (subst extra_loop.simps) (use kn in \<open>simp add: k_def\<close>)
    next
      case False
      then have k: "k = 64 - pos mod 64" using kn(2) by (auto simp: k_def min_def split: if_splits)
      have "k + pos mod 64 = 64" using k by simp
      moreover have "pos = pos mod 64 + 64 * (pos div 64)" by simp
      ultimately have "pos + k = 64 * (pos div 64) + 64" by linarith
      then have p: "(pos + k) mod 64 = 0" "(pos + k) div 64 = pos div 64 + 1" by (simp_all only:) simp_all
      have "extra_loop out_tag extra_in n key nonce (1 + of_nat ((pos + k) div 64)) ((pos + k) mod 64) (d + k) ?m =
          Ok () (mem_write ?m (out_tag + of_nat (d + k)) (xor_list (mem_read ?m (extra_in + of_nat (d + k)) (n - (d + k))) (keystream key (nonce ?m) 1 (pos + k) (n - (d + k)))))"
        by (rule less.hyps) (use kn in simp_all)
      moreover have "mem_read m (extra_in + of_nat d) (n - d) = mem_read m (extra_in + of_nat d) k @ mem_read m (extra_in + of_nat (d + k)) (n - (d + k))"
        using mem_read_add[of m "extra_in + of_nat d" k "n - (d + k)"] kn by (simp add: add.assoc)
      moreover have "keystream key (nonce m) 1 pos (n - d) = keystream key (nonce m) 1 pos k @ keystream key (nonce m) 1 (pos + k) (n - (d + k))"
        using keystream_append[of key "nonce m" 1 pos k "n - (d + k)"] kn by simp
      ultimately show ?thesis unfolding step using kn by (simp add: p nm rd[unfolded of_nat_add] xor_list_append mem_write_append add.assoc)
    qed
  qed
qed

section \<open>Sealing\<close>

text \<open>The ciphertext of the input and the extra input, and the tag over both.\<close>

definition sealed :: "bytes \<Rightarrow> bytes \<Rightarrow> nat \<Rightarrow> bytes \<Rightarrow> bytes \<Rightarrow> bytes" where
  "sealed key nonce t ad text = (let ct = xor_list text (keystream key nonce 1 0 (length text)) in ct @ take t (mac key nonce ad ct))"

lemma length_mac [simp]: "length (mac key nonce ad ct) = 16"
  by (simp add: mac_def poly1305_def length_finish)

lemma length_sealed [simp]: "t \<le> 16 \<Longrightarrow> length (sealed key nonce t ad text) = length text + t"
  by (simp add: sealed_def Let_def)

text \<open>Where the pointers point: the output is apart from all that is read but the input, which may be the output itself.\<close>

definition same_or_apart :: "u64 \<Rightarrow> u64 \<Rightarrow> nat \<Rightarrow> bool" where
  "same_or_apart a b n \<longleftrightarrow> a = b \<or> apart a n b n"

lemma chacha_20_same_or_apart:
  assumes "length key = 32" "length nonce = 12" "same_or_apart out inp (unat n)" "fits out (unat n)" "fits inp (unat n)"
  shows "CRYPTO_chacha_20 out inp n key nonce c m =
    Ok () (mem_write m out (xor_list (mem_read m inp (unat n)) (keystream key nonce c 0 (unat n))))"
proof (cases "inp = out")
  case False
  have "\<not> buffers_alias out n inp n" if "n \<noteq> 0"
  proof
    assume "buffers_alias out n inp n"
    then have o: "unat inp < unat out + unat n" "unat out < unat inp + unat n" using buffers_alias_iff[OF assms(4,5)] by simp_all
    have ap: "apart out (unat n) inp (unat n)" using assms(3) False by (simp add: same_or_apart_def)
    have "0 < unat n" using that by (simp add: unat_gt_0)
    show False
    proof (cases "unat out \<le> unat inp")
      case True
      then have "out + of_nat (unat inp - unat out) = inp + of_nat 0" by (simp add: of_nat_diff)
      moreover have "unat inp - unat out < unat n" using o True by linarith
      ultimately show False using apartD[OF ap, of "unat inp - unat out" 0] o True \<open>0 < unat n\<close> by simp
    next
      case False
      then have "out + of_nat 0 = inp + of_nat (unat out - unat inp)" by (simp add: of_nat_diff)
      moreover have "unat out - unat inp < unat n" using o False by linarith
      ultimately show False using apartD[OF ap, of 0 "unat out - unat inp"] o False \<open>0 < unat n\<close> by simp
    qed
  qed
  moreover have "\<not> buffers_alias out n inp n" if "n = 0" using that by (auto simp: buffers_alias_def)
  ultimately show ?thesis using chacha_20_eq[OF assms(1,2), of inp out n c m] assms(4,5) by auto
qed (use chacha_20_eq[OF assms(1,2), of inp out n c m] in simp)

lemma blind_mono: "blind f a n \<Longrightarrow> k \<le> n \<Longrightarrow> blind f a k"
  by (simp add: blind_def)

lemma apart_mono: "apart a n b k \<Longrightarrow> n' \<le> n \<Longrightarrow> k' \<le> k \<Longrightarrow> apart a n' b k'"
  using apart_sub[of a n b k 0 n' 0 k'] by simp

lemma narrow_counter: "(ucast (1 + n div 64 :: u64) :: u32) = 1 + of_nat (unat n div 64)"
proof -
  have c: "(ucast (of_nat i :: u64) :: u32) = of_nat i" for i
    by (simp add: unsigned_of_nat word_of_nat_eq_iff)
  have "unat (n div 64) = unat n div 64" using unat_div[of n 64] by simp
  moreover have "of_nat (unat (n div 64)) = n div 64" by simp
  ultimately have "1 + n div 64 = of_nat (1 + unat n div 64)" by simp
  then show ?thesis using c[of "1 + unat n div 64"] by (simp only:) simp
qed

lemma seal_scatter_eq:
  fixes tag_length extra_in_len in_len inp extra_in :: u64 and m :: mem
  assumes key: "length key = 32" "\<And>m. length (nonce m) = 12" "blind nonce out (unat in_len)" "blind nonce out_tag (unat max_out_tag_len)"
    and len: "unat in_len < 2 ^ 38 - 64" "unat tag_length \<le> 16" "unat extra_in_len + unat tag_length \<le> unat max_out_tag_len"
      "unat in_len + unat extra_in_len < 2 ^ 64"
    and out: "same_or_apart out inp (unat in_len)" "fits out (unat in_len)" "fits inp (unat in_len)"
      "apart out (unat in_len) out_tag (unat max_out_tag_len)" "apart inp (unat in_len) out_tag (unat max_out_tag_len)"
    and rest: "same_or_apart out_tag extra_in (unat extra_in_len)" "apart out (unat in_len) ad (unat ad_len)" "apart out_tag (unat max_out_tag_len) ad (unat ad_len)"
  defines "text \<equiv> mem_read m inp (unat in_len) @ mem_read m extra_in (unat extra_in_len)"
  shows "chacha20_poly1305_seal_scatter key out out_tag max_out_tag_len nonce 12 inp in_len extra_in extra_in_len ad ad_len tag_length m =
    Ok (extra_in_len + tag_length)
      (let s = sealed key (nonce m) (unat tag_length) (mem_read m ad (unat ad_len)) text
       in mem_write (mem_write m out (take (unat in_len) s)) out_tag (drop (unat in_len) s))"
proof -
  let ?k = "unat in_len" and ?e = "unat extra_in_len" and ?t = "unat tag_length" and ?max = "unat max_out_tag_len"
  let ?ct = "xor_list (mem_read m inp ?k) (keystream key (nonce m) 1 0 ?k)"
  let ?ext = "xor_list (mem_read m extra_in ?e) (keystream key (nonce m) 1 ?k ?e)"
  let ?ad = "mem_read m ad (unat ad_len)"
  have sum: "unat (extra_in_len + tag_length) = ?e + ?t" using len(3) unat_le_bound[of max_out_tag_len] by (intro unat_plus_len) simp
  have pass: "\<not> extra_in_len + tag_length < tag_length" "\<not> max_out_tag_len < tag_length + extra_in_len" "\<not> max_out_tag_len < tag_length"
    "\<not> push_bit 32 1 * 64 - 64 \<le> in_len"
    using len sum by (simp_all add: word_less_nat_alt word_le_nat_alt add.commute[of tag_length])
  define m1 where "m1 = mem_write m out_tag ?ext"
  define m2 where "m2 = mem_write m1 out ?ct"
  have first: "(if extra_in_len \<noteq> 0
      then extra_loop out_tag extra_in ?e key nonce (ucast (1 + in_len div 64)) (unat (in_len mod 64)) 0 m else Ok () m) = Ok () m1"
  proof (cases "extra_in_len = 0")
    case False
    have "unat (in_len mod 64) = ?k mod 64" using unat_mod[of in_len 64] by simp
    then show ?thesis using False extra_loop_eq[OF key(1,2) blind_mono[OF key(4), of ?e], of extra_in 0 ?k m] len(3) rest(1) unat_le_bound[of extra_in_len]
      by (simp add: m1_def narrow_counter same_or_apart_def) blast
  qed (simp add: m1_def xor_list_def)
  have n1: "nonce m1 = nonce m" unfolding m1_def using len(3) by (intro blind_start[OF key(4)]) simp
  have r1: "mem_read m1 inp ?k = mem_read m inp ?k"
    unfolding m1_def using apart_mono[OF apart_sym[OF out(5)], of ?e ?k] len(3) by (intro mem_read_apart) simp
  have second: "CRYPTO_chacha_20 out inp in_len key (nonce m1) 1 m1 = Ok () m2"
    unfolding m2_def using chacha_20_same_or_apart[OF key(1,2) out(1,2,3)] by (simp add: n1 r1)
  have n2: "nonce m2 = nonce m" unfolding m2_def using blind_start[OF key(3), of ?ct] by (simp add: n1)
  have reads: "mem_read m2 ad (unat ad_len) = ?ad" "mem_read m2 out ?k = ?ct" "mem_read m2 out_tag ?e = ?ext"
  proof -
    have a: "apart out ?k ad (unat ad_len)" "apart out_tag ?e ad (unat ad_len)" "apart out ?k out_tag ?e"
      using rest(2) apart_mono[OF rest(3), of ?e] apart_mono[OF out(4), of ?k ?e] len(3) by simp_all
    show "mem_read m2 ad (unat ad_len) = ?ad" using a mem_read_apart[of out ?ct ad "unat ad_len" m1] mem_read_apart[of out_tag ?ext ad "unat ad_len" m] by (simp add: m2_def m1_def)
    show "mem_read m2 out ?k = ?ct" using mem_read_write_same[of ?ct m1 out] unat_le_bound[of in_len] by (simp add: m2_def)
    show "mem_read m2 out_tag ?e = ?ext" using a mem_read_apart[of out ?ct out_tag ?e m1] mem_read_write_same[of ?ext m out_tag] unat_le_bound[of extra_in_len]
      by (simp add: m2_def m1_def)
  qed
  have third: "calc_tag key nonce ad ad_len out in_len out_tag extra_in_len m2 = Ok (mac key (nonce m) ?ad (?ct @ ?ext)) m2"
    using calc_tag_eq[OF key(1), of nonce m2] key(2) len(4) by (simp add: n2 reads)
  have s: "sealed key (nonce m) ?t ?ad text = ?ct @ ?ext @ take ?t (mac key (nonce m) ?ad (?ct @ ?ext))"
    by (simp add: sealed_def Let_def text_def keystream_append xor_list_append)
  have "mem_write m2 (out_tag + extra_in_len) (take ?t (mac key (nonce m) ?ad (?ct @ ?ext))) =
      mem_write (mem_write m out ?ct) out_tag (?ext @ take ?t (mac key (nonce m) ?ad (?ct @ ?ext)))"
    using mem_write_commute[of out_tag ?ext out ?ct m] apart_mono[OF apart_sym[OF out(4)], of ?e ?k] len(3) unat_le_bound[of extra_in_len] unat_le_bound[of in_len]
    by (simp add: m2_def m1_def mem_write_append)
  then show ?thesis
    by (simp only: chacha20_poly1305_seal_scatter_def pass if_False simp_thms first second third bindo.simps s Let_def) simp
qed

section \<open>Opening\<close>

lemma or_u8_zero: "x OR y = 0 \<longleftrightarrow> x = 0 \<and> y = (0 :: u8)"
  by (auto simp: bit_eq_iff bit_or_iff)

lemma xor_u8_zero: "x XOR y = 0 \<longleftrightarrow> x = (y :: u8)"
  by (auto simp: bit_eq_iff bit_xor_iff)

lemma memcmp_zero: "length a = length b \<Longrightarrow> CRYPTO_memcmp a b = 0 \<longleftrightarrow> a = b"
proof -
  have f: "fold (\<lambda>(p, q) x. x OR (p XOR q)) zs x = 0 \<longleftrightarrow> x = 0 \<and> (\<forall>(p, q) \<in> set zs. p = q)" for zs :: "(u8 \<times> u8) list" and x
    by (induction zs arbitrary: x) (auto simp: or_u8_zero xor_u8_zero)
  show "length a = length b \<Longrightarrow> CRYPTO_memcmp a b = 0 \<longleftrightarrow> a = b"
    by (induction a b rule: list_induct2) (auto simp: CRYPTO_memcmp_def f xor_u8_zero)
qed

lemma open_gather_eq:
  fixes tag_length in_len inp :: u64 and m :: mem
  assumes key: "length key = 32" "length (nonce m) = 12"
    and len: "unat in_len < 2 ^ 38 - 64" "unat tag_length \<le> 16"
    and out: "same_or_apart out inp (unat in_len)" "fits out (unat in_len)" "fits inp (unat in_len)" "apart out (unat in_len) in_tag (unat tag_length)"
  defines "ct \<equiv> mem_read m inp (unat in_len)"
  shows "chacha20_poly1305_open_gather key out nonce 12 inp in_len in_tag tag_length ad ad_len tag_length m =
    (let m' = mem_write m out (xor_list ct (keystream key (nonce m) 1 0 (unat in_len)))
     in if take (unat tag_length) (mac key (nonce m) (mem_read m ad (unat ad_len)) ct) = mem_read m in_tag (unat tag_length) then Ok () m' else Fail m')"
proof -
  let ?x = "xor_list ct (keystream key (nonce m) 1 0 (unat in_len))"
  have pass: "\<not> 274877906880 \<le> in_len" using len(1) by (simp add: word_le_nat_alt)
  have t: "calc_tag key nonce ad ad_len inp in_len 0 0 m = Ok (mac key (nonce m) (mem_read m ad (unat ad_len)) ct) m"
    using calc_tag_eq[of key nonce m in_len 0 ad ad_len inp 0] key len(1) by (simp add: ct_def)
  have c: "CRYPTO_chacha_20 out inp in_len key (nonce m) 1 m = Ok () (mem_write m out ?x)"
    unfolding ct_def by (rule chacha_20_same_or_apart[OF key out(1,2,3)])
  have r: "mem_read (mem_write m out ?x) in_tag (unat tag_length) = mem_read m in_tag (unat tag_length)"
    using out(4) by (intro mem_read_apart) (simp add: ct_def)
  show ?thesis using len(2) by (simp add: chacha20_poly1305_open_gather_def pass t c r memcmp_zero Let_def min_def)
qed

section \<open>Both algorithms\<close>

text \<open>The key and the nonce that ChaCha20 gets.\<close>

definition session_key :: "EVP_AEAD \<Rightarrow> bytes \<Rightarrow> bytes \<Rightarrow> bytes" where
  "session_key aead key nonce = (if nonce_len aead = 24 then CRYPTO_hchacha20 key (take 16 nonce) else key)"

definition session_nonce :: "EVP_AEAD \<Rightarrow> bytes \<Rightarrow> bytes" where
  "session_nonce aead nonce = (if nonce_len aead = 24 then derived_nonce nonce else nonce)"

definition chacha_aeads :: "EVP_AEAD \<Rightarrow> bool" where
  "chacha_aeads aead \<longleftrightarrow> aead = aead_chacha20_poly1305 \<or> aead = aead_xchacha20_poly1305"

text \<open>A context as \<open>EVP_AEAD_CTX_init\<close> leaves it.\<close>

definition configured :: "EVP_AEAD_CTX \<Rightarrow> EVP_AEAD \<Rightarrow> bytes \<Rightarrow> nat \<Rightarrow> bool" where
  "configured ctx aead key t \<longleftrightarrow> chacha_aeads aead \<and> ctx_aead ctx = Some aead \<and> ctx_key (ctx_state ctx) = key \<and> length key = 32 \<and>
     unat (tag_len (ctx_state ctx)) = t \<and> 0 < t \<and> t \<le> 16"

definition tag_size :: "u64 \<Rightarrow> nat" where
  "tag_size tag_length = (if tag_length = 0 then 16 else unat tag_length)"

lemma init_eq:
  assumes "chacha_aeads aead"
  shows "EVP_AEAD_CTX_init ctx aead key tag_length =
    (if length key = 32 \<and> unat tag_length \<le> 16
     then Some (True, \<lparr>ctx_aead = Some aead, ctx_state = (ctx_state ctx)\<lparr>ctx_key := key, tag_len := of_nat (tag_size tag_length)\<rparr>\<rparr>)
     else Some (False, ctx\<lparr>ctx_aead := None\<rparr>))"
proof -
  have a: "key_len aead = 32" "aead_init aead = Some aead_chacha20_poly1305_init"
    using assms by (auto simp: chacha_aeads_def aead_chacha20_poly1305_def aead_xchacha20_poly1305_def)
  have "of_nat (tag_size tag_length) = (ucast (if tag_length = 0 then 16 else tag_length) :: u8)" by (simp add: tag_size_def of_nat_unat)
  then show ?thesis
    by (cases ctx) (auto simp: EVP_AEAD_CTX_init_def EVP_AEAD_CTX_init_with_direction_def a Let_def aead_chacha20_poly1305_init_def word_less_nat_alt)
qed

lemma init_configured:
  assumes "chacha_aeads aead" "EVP_AEAD_CTX_init ctx0 aead key tag_length = Some (True, ctx)"
  shows "configured ctx aead key (tag_size tag_length)"
proof -
  have l: "length key = 32" "unat tag_length \<le> 16" using assms by (auto simp: init_eq split: if_splits)
  then have t: "0 < tag_size tag_length" "tag_size tag_length \<le> 16" by (auto simp: tag_size_def unat_gt_0)
  then have "unat (of_nat (tag_size tag_length) :: u8) = tag_size tag_length" by (simp add: unat_of_nat take_bit_nat_eq_self)
  then show ?thesis using assms l t by (auto simp: init_eq configured_def)
qed

text \<open>The nonce that the functions of the table read.\<close>

lemma length_session:
  assumes "chacha_aeads aead" "length key = 32" "length nonce = unat (nonce_len aead)"
  shows "length (session_key aead key nonce) = 32" "length (session_nonce aead nonce) = 12"
  using assms
  by (auto simp: chacha_aeads_def aead_chacha20_poly1305_def aead_xchacha20_poly1305_def session_key_def session_nonce_def derived_nonce_def
      CRYPTO_hchacha20_def Let_def length_load_words sigma_def)

lemma seal_scatter_table:
  assumes "configured ctx aead key t"
  shows "\<exists>reader. (\<forall>m. length (reader m) = 12) \<and> reader m = session_nonce aead (mem_read m nonce (unat (nonce_len aead))) \<and>
     (\<forall>a n. apart a n nonce (unat (nonce_len aead)) \<longrightarrow> blind reader a n) \<and>
     aead_seal_scatter aead (ctx_state ctx) out out_tag max_out_tag_len nonce (ucast (nonce_len aead)) inp in_len extra_in extra_in_len ad ad_len m =
       chacha20_poly1305_seal_scatter (session_key aead key (mem_read m nonce (unat (nonce_len aead)))) out out_tag max_out_tag_len reader 12
         inp in_len extra_in extra_in_len ad ad_len (of_nat t) m"
proof -
  have t: "ucast (tag_len (ctx_state ctx)) = (of_nat t :: u64)" and k: "ctx_key (ctx_state ctx) = key" using assms by (auto simp: configured_def of_nat_unat)
  have c: "chacha_aeads aead" using assms by (simp add: configured_def)
  then consider "aead = aead_chacha20_poly1305" | "aead = aead_xchacha20_poly1305" by (auto simp: chacha_aeads_def)
  then show ?thesis
  proof cases
    case 1
    then show ?thesis
      by (intro exI[of _ "\<lambda>m. mem_read m nonce 12"])
        (simp add: aead_chacha20_poly1305_def session_key_def session_nonce_def aead_chacha20_poly1305_seal_scatter_def t k blind_read)
  next
    case 2
    then show ?thesis
      by (intro exI[of _ "\<lambda>_. derived_nonce (mem_read m nonce 24)"])
        (simp add: aead_xchacha20_poly1305_def session_key_def session_nonce_def aead_xchacha20_poly1305_seal_scatter_def t k blind_const derived_nonce_def Let_def)
  qed
qed

lemma open_gather_table:
  assumes "configured ctx aead key t"
  shows "\<exists>f reader. aead_open_gather aead = Some f \<and> reader m = session_nonce aead (mem_read m nonce (unat (nonce_len aead))) \<and>
     f (ctx_state ctx) out nonce nonce_length inp in_len in_tag in_tag_len ad ad_len m =
       (if nonce_length = ucast (nonce_len aead)
        then chacha20_poly1305_open_gather (session_key aead key (mem_read m nonce (unat (nonce_len aead)))) out reader 12
          inp in_len in_tag in_tag_len ad ad_len (of_nat t) m
        else Fail m)"
proof -
  have t: "ucast (tag_len (ctx_state ctx)) = (of_nat t :: u64)" and k: "ctx_key (ctx_state ctx) = key" using assms by (auto simp: configured_def of_nat_unat)
  have "chacha_aeads aead" using assms by (simp add: configured_def)
  then consider "aead = aead_chacha20_poly1305" | "aead = aead_xchacha20_poly1305" by (auto simp: chacha_aeads_def)
  then show ?thesis
  proof cases
    case 1
    then show ?thesis
      by (intro exI[of _ aead_chacha20_poly1305_open_gather] exI[of _ "\<lambda>m. mem_read m nonce 12"])
        (simp add: aead_chacha20_poly1305_def session_key_def session_nonce_def aead_chacha20_poly1305_open_gather_def chacha20_poly1305_open_gather_def t k)
  next
    case 2
    then show ?thesis
      by (intro exI[of _ aead_xchacha20_poly1305_open_gather] exI[of _ "\<lambda>_. derived_nonce (mem_read m nonce 24)"])
        (simp add: aead_xchacha20_poly1305_def session_key_def session_nonce_def aead_xchacha20_poly1305_open_gather_def t k Let_def)
  qed
qed

text \<open>What the algorithm with its key makes of a nonce, additional data and a text.\<close>

definition aead_seal :: "EVP_AEAD \<Rightarrow> bytes \<Rightarrow> nat \<Rightarrow> bytes \<Rightarrow> bytes \<Rightarrow> bytes \<Rightarrow> bytes" where
  "aead_seal aead key t nonce ad text = sealed (session_key aead key nonce) (session_nonce aead nonce) t ad text"

lemma length_aead_seal [simp]: "t \<le> 16 \<Longrightarrow> length (aead_seal aead key t nonce ad text) = length text + t"
  by (simp add: aead_seal_def)

lemma check_alias_apart: "check_alias inp in_len out n \<Longrightarrow> fits inp (unat in_len) \<Longrightarrow> fits out (unat n) \<Longrightarrow> inp = out \<or> apart inp (unat in_len) out (unat n)"
  using not_alias_apart[of inp "unat in_len" out "unat n"] buffers_alias_iff[of inp in_len out n] by (auto simp: check_alias_def split: if_splits)

lemma seal_eq:
  fixes inp out in_len max_out_len :: u64 and m :: mem
  assumes ctx: "configured ctx aead key t"
    and len: "unat in_len < 2 ^ 38 - 64" "unat in_len + t \<le> unat max_out_len"
    and mem: "fits out (unat max_out_len)" "fits inp (unat in_len)" "check_alias inp in_len out max_out_len"
      "apart out (unat max_out_len) nonce (unat (nonce_len aead))" "apart out (unat max_out_len) ad (unat ad_len)"
  shows "EVP_AEAD_CTX_seal ctx out max_out_len nonce (ucast (nonce_len aead)) inp in_len ad ad_len m =
    Ok () (mem_write m out (aead_seal aead key t (mem_read m nonce (unat (nonce_len aead))) (mem_read m ad (unat ad_len)) (mem_read m inp (unat in_len))),
           in_len + of_nat t)"
proof -
  let ?n = "mem_read m nonce (unat (nonce_len aead))" and ?k = "unat in_len"
  have c: "chacha_aeads aead" "length key = 32" "0 < t" "t \<le> 16" "ctx_aead ctx = Some aead" using ctx by (simp_all add: configured_def)
  have ov: "overhead aead = 16" using c(1) by (auto simp: chacha_aeads_def aead_chacha20_poly1305_def aead_xchacha20_poly1305_def)
  obtain reader where r: "\<And>m. length (reader m) = 12" "reader m = session_nonce aead ?n"
    "\<And>a n. apart a n nonce (unat (nonce_len aead)) \<Longrightarrow> blind reader a n"
    "aead_seal_scatter aead (ctx_state ctx) out (out + in_len) (max_out_len - in_len) nonce (ucast (nonce_len aead)) inp in_len 0 0 ad ad_len m =
       chacha20_poly1305_seal_scatter (session_key aead key ?n) out (out + in_len) (max_out_len - in_len) reader 12 inp in_len 0 0 ad ad_len (of_nat t) m"
    using seal_scatter_table[OF ctx, of m nonce out "out + in_len" "max_out_len - in_len" inp in_len 0 0 ad ad_len] by blast
  have le: "in_len \<le> max_out_len" using len(2) by (simp add: word_le_nat_alt)
  then have d: "unat (max_out_len - in_len) = unat max_out_len - ?k" by (simp add: unat_sub)
  have tw: "unat (of_nat t :: u64) = t" using c(4) by (simp add: unat_of_nat take_bit_nat_eq_self)
  have o: "out + of_nat ?k = out + in_len" by simp
  have tail: "apart (out + in_len) (unat max_out_len - ?k) b n" if "apart out (unat max_out_len) b n" for b n
    using apart_sub[OF that, of ?k "unat max_out_len - ?k" 0 n] len(2) by simp
  have io: "inp = out \<or> apart inp ?k out (unat max_out_len)" using check_alias_apart[OF mem(3,2,1)] .
  have seal: "aead_seal_scatter aead (ctx_state ctx) out (out + in_len) (max_out_len - in_len) nonce (ucast (nonce_len aead)) inp in_len 0 0 ad ad_len m =
      Ok (of_nat t) (mem_write m out (aead_seal aead key t ?n (mem_read m ad (unat ad_len)) (mem_read m inp ?k)))"
  proof -
    have nl: "length ?n = unat (nonce_len aead)" by simp
    have s: "chacha20_poly1305_seal_scatter (session_key aead key ?n) out (out + in_len) (max_out_len - in_len) reader 12 inp in_len 0 0 ad ad_len (of_nat t) m =
        Ok (0 + of_nat t) (let s = sealed (session_key aead key ?n) (reader m) (unat (of_nat t :: u64)) (mem_read m ad (unat ad_len)) (mem_read m inp ?k @ mem_read m 0 (unat (0 :: u64)))
          in mem_write (mem_write m out (take ?k s)) (out + in_len) (drop ?k s))"
    proof (rule seal_scatter_eq)
      show "blind reader out ?k" "blind reader (out + in_len) (unat (max_out_len - in_len))"
        using r(3) tail[OF mem(4)] apart_mono[OF mem(4), of ?k "unat (nonce_len aead)"] len(2) by (simp_all add: d)
      show "same_or_apart out inp ?k" using io apart_mono[of inp ?k out "unat max_out_len" ?k ?k] apart_sym[of inp ?k out ?k] len(2)
        by (auto simp: same_or_apart_def)
      have next_: "apart out ?k (out + in_len) (unat max_out_len - ?k)" using apart_next[of "unat max_out_len" ?k out] unat_le_bound[of max_out_len] len(2) by simp
      then show "apart out ?k (out + in_len) (unat (max_out_len - in_len))" by (simp only: d)
      show "apart inp ?k (out + in_len) (unat (max_out_len - in_len))"
        using io next_ apart_sym[OF tail[of inp ?k]] apart_sym[of inp ?k out "unat max_out_len"] by (auto simp: d)
      show "apart out ?k ad (unat ad_len)" "apart (out + in_len) (unat (max_out_len - in_len)) ad (unat ad_len)"
        using apart_mono[OF mem(5), of ?k "unat ad_len"] tail[OF mem(5)] len(2) by (simp_all add: d)
    qed (use c tw len d r(1) length_session[OF c(1,2) nl] fits_mono[OF mem(1), of ?k] mem(2) in \<open>simp_all add: same_or_apart_def apart_def\<close>)
    let ?s = "aead_seal aead key t ?n (mem_read m ad (unat ad_len)) (mem_read m inp ?k)"
    have "mem_write (mem_write m out (take ?k ?s)) (out + in_len) (drop ?k ?s) = mem_write m out ?s"
      using mem_write_append[of m out "take ?k ?s" "drop ?k ?s"] c(4) by (simp add: min_def)
    then show ?thesis unfolding r(4) s by (simp add: Let_def aead_seal_def r(2) tw)
  qed
  have "\<not> in_len + ucast (overhead aead) < in_len" using len(1) by (simp add: ov word_less_nat_alt unat_word_ariths)
  then show ?thesis using le mem(3) by (simp add: EVP_AEAD_CTX_seal_def c(5) seal word_less_nat_alt word_le_nat_alt)
qed

text \<open>
  Opening: the text if the tag is right, and otherwise zeros in the whole output.
\<close>

definition opened :: "EVP_AEAD \<Rightarrow> bytes \<Rightarrow> nat \<Rightarrow> bytes \<Rightarrow> bytes \<Rightarrow> bytes \<Rightarrow> bytes option" where
  "opened aead key t nonce ad inp =
     (let k = length inp - t; text = xor_list (take k inp) (keystream (session_key aead key nonce) (session_nonce aead nonce) 1 0 k)
      in if t \<le> length inp \<and> aead_seal aead key t nonce ad text = inp then Some text else None)"

lemma sealed_opened:
  fixes key nonce :: bytes
  assumes "t \<le> length inp" "t \<le> 16"
  defines "k \<equiv> length inp - t"
  defines "text \<equiv> xor_list (take k inp) (keystream key nonce 1 0 k)"
  shows "sealed key nonce t ad text = inp \<longleftrightarrow> take t (mac key nonce ad (take k inp)) = drop k inp"
proof -
  have "xor_list text (keystream key nonce 1 0 (length text)) = take k inp"
    unfolding text_def using xor_list_twice[of "take k inp" "keystream key nonce 1 0 k"] by (simp add: k_def)
  then have "sealed key nonce t ad text = take k inp @ take t (mac key nonce ad (take k inp))" by (simp add: sealed_def Let_def)
  then show ?thesis by (metis append_take_drop_id same_append_eq)
qed

lemma clear_twice: "length xs \<le> unat n \<Longrightarrow> clear out n (mem_write m out xs) = clear out n m"
  unfolding clear_def using unat_le_bound[of n] by (intro mem_write_twice) simp_all

lemma clear_clear: "k \<le> n \<Longrightarrow> clear out n (clear out k m) = clear out n m"
  using clear_twice[of "replicate (unat k) 0" n out m] by (simp add: clear_def word_le_nat_alt)

lemma gather_eq:
  fixes inp out k tag_length nonce :: u64 and m :: mem
  assumes ctx: "configured ctx aead key t" and t: "tag_length = of_nat t"
    and mem: "check_alias inp k out k" "fits out (unat k)" "fits inp (unat k)" "apart out (unat k) (inp + k) t"
  defines "n \<equiv> mem_read m nonce (unat (nonce_len aead))"
  defines "ct \<equiv> mem_read m inp (unat k)"
  defines "text \<equiv> xor_list ct (keystream (session_key aead key n) (session_nonce aead n) 1 0 (unat k))"
  shows "EVP_AEAD_CTX_open_gather ctx out nonce nonce_length inp k (inp + k) tag_length ad ad_len m =
    (if nonce_length = ucast (nonce_len aead) \<and> unat k < 2 ^ 38 - 64 \<and>
        take t (mac (session_key aead key n) (session_nonce aead n) (mem_read m ad (unat ad_len)) ct) = mem_read m (inp + k) t
     then Ok () (mem_write m out text) else Fail (clear out k m))"
proof -
  have c: "chacha_aeads aead" "length key = 32" "t \<le> 16" "ctx_aead ctx = Some aead" using ctx by (simp_all add: configured_def)
  obtain f reader where f: "aead_open_gather aead = Some f" "reader m = session_nonce aead n"
    "f (ctx_state ctx) out nonce nonce_length inp k (inp + k) tag_length ad ad_len m =
       (if nonce_length = ucast (nonce_len aead)
        then chacha20_poly1305_open_gather (session_key aead key n) out reader 12 inp k (inp + k) tag_length ad ad_len (of_nat t) m else Fail m)"
    using open_gather_table[OF ctx, of m nonce out nonce_length inp k "inp + k" tag_length ad ad_len] unfolding n_def by blast
  have tw: "unat tag_length = t" using c(3) by (simp add: t unat_of_nat take_bit_nat_eq_self)
  have l: "length (session_key aead key n) = 32" "length (reader m) = 12" using length_session[OF c(1,2), of n] f(2) by (simp_all add: n_def)
  have so: "same_or_apart out inp (unat k)" using check_alias_apart[OF mem(1,3,2)] apart_sym by (auto simp: same_or_apart_def)
  have len: "length text = unat k" by (simp add: text_def ct_def)
  show ?thesis
  proof (cases "unat k < 2 ^ 38 - 64")
    case True
    note g = open_gather_eq[where nonce = reader, OF l True _ so mem(2,3), of tag_length "inp + k" ad ad_len]
    show ?thesis unfolding EVP_AEAD_CTX_open_gather_def
      using g mem(1,4) c(3) True f(2) by (auto simp: c(4) f(1,3) tw t[symmetric] text_def[symmetric] ct_def[symmetric] Let_def clear_twice[OF len[THEN eq_imp_le]])
  next
    case False
    then have "push_bit 32 1 * 64 - 64 \<le> k" by (simp add: word_le_nat_alt)
    then have "chacha20_poly1305_open_gather (session_key aead key n) out reader 12 inp k (inp + k) tag_length ad ad_len (of_nat t) m = Fail m"
      by (simp only: chacha20_poly1305_open_gather_def simp_thms if_True) simp
    then show ?thesis using False mem(1) by (simp add: EVP_AEAD_CTX_open_gather_def c(4) f(1,3))
  qed
qed

lemma open_eq:
  fixes inp out in_len max_out_len :: u64 and m :: mem
  assumes ctx: "configured ctx aead key t"
    and mem: "fits out (unat max_out_len)" "fits inp (unat in_len)"
  shows "EVP_AEAD_CTX_open ctx out max_out_len nonce nonce_length inp in_len ad ad_len m =
    (if check_alias inp in_len out max_out_len \<and> nonce_length = ucast (nonce_len aead) \<and> unat in_len - t \<le> unat max_out_len \<and> unat in_len - t < 2 ^ 38 - 64
     then (case opened aead key t (mem_read m nonce (unat (nonce_len aead))) (mem_read m ad (unat ad_len)) (mem_read m inp (unat in_len)) of
             Some text \<Rightarrow> Ok () (mem_write m out text, in_len - of_nat t)
           | None \<Rightarrow> Fail (clear out max_out_len m, 0))
     else Fail (clear out max_out_len m, 0))"
proof (cases "check_alias inp in_len out max_out_len \<and> t \<le> unat in_len \<and> unat in_len - t \<le> unat max_out_len")
  case True
  let ?n = "mem_read m nonce (unat (nonce_len aead))" and ?in = "mem_read m inp (unat in_len)"
  have c: "ctx_aead ctx = Some aead" "0 < t" "t \<le> 16" "unat (tag_len (ctx_state ctx)) = t" "chacha_aeads aead" using ctx by (simp_all add: configured_def)
  have op: "aead_open aead = None" using c(5) by (auto simp: chacha_aeads_def aead_chacha20_poly1305_def aead_xchacha20_poly1305_def)
  have tw: "unat (of_nat t :: u64) = t" "ucast (tag_len (ctx_state ctx)) = (of_nat t :: u64)" using c(3,4) by (auto simp: unat_of_nat take_bit_nat_eq_self of_nat_unat)
  let ?k = "in_len - of_nat t"
  have le: "of_nat t \<le> in_len" using True tw(1) by (simp add: word_le_nat_alt)
  then have k: "unat ?k = unat in_len - t" by (simp add: unat_sub tw(1))
  then have km: "?k \<le> max_out_len" using True by (simp add: word_le_nat_alt)
  have fk: "fits out (unat ?k)" "fits inp (unat ?k)" using fits_mono[OF mem(1), of "unat ?k"] fits_mono[OF mem(2), of "unat ?k"] True k by simp_all
  have io: "inp = out \<or> apart inp (unat in_len) out (unat max_out_len)" using True check_alias_apart mem by blast
  have ca: "check_alias inp ?k out ?k"
    using True k buffers_alias_iff[OF fk(2,1)] buffers_alias_iff[OF mem(2,1)] by (auto simp: check_alias_def split: if_splits)
  have o: "inp + of_nat (unat ?k) = inp + ?k" "unat in_len - unat ?k = t" using k True by simp_all
  have tag: "apart out (unat ?k) (inp + ?k) t"
    using io apart_next[of "unat in_len" "unat ?k" out] apart_sub[OF apart_sym, of inp "unat in_len" out "unat max_out_len" 0 "unat ?k" "unat ?k" t]
      unat_le_bound[of in_len] k True o by auto
  note g = gather_eq[OF ctx refl ca fk tag, where m = m and nonce = nonce and nonce_length = nonce_length and ad = ad and ad_len = ad_len]
  have split: "mem_read m inp (unat ?k) = take (unat ?k) ?in" "mem_read m (inp + ?k) t = drop (unat ?k) ?in"
    using take_mem_read[of "unat ?k" "unat in_len" m inp] drop_mem_read[of "unat ?k" m inp "unat in_len"] o k by simp_all
  have "opened aead key t ?n (mem_read m ad (unat ad_len)) ?in =
      (if take t (mac (session_key aead key ?n) (session_nonce aead ?n) (mem_read m ad (unat ad_len)) (take (unat ?k) ?in)) = drop (unat ?k) ?in
       then Some (xor_list (take (unat ?k) ?in) (keystream (session_key aead key ?n) (session_nonce aead ?n) 1 0 (unat ?k))) else None)"
    using sealed_opened[of t ?in "session_key aead key ?n" "session_nonce aead ?n" "mem_read m ad (unat ad_len)"] True c(3)
    by (simp add: opened_def aead_seal_def Let_def k)
  moreover have "(of_nat t :: u64) \<noteq> 0" using tw(1) c(2) by (metis unat_0 less_irrefl)
  then have "EVP_AEAD_CTX_open ctx out max_out_len nonce nonce_length inp in_len ad ad_len m =
      (case EVP_AEAD_CTX_open_gather ctx out nonce nonce_length inp ?k (inp + ?k) (of_nat t) ad ad_len m of
         Ok _ m \<Rightarrow> Ok () (m, ?k) | Fail m \<Rightarrow> Fail (clear out max_out_len m, 0) | NoResult \<Rightarrow> NoResult)"
    using True le km by (simp add: EVP_AEAD_CTX_open_def c(1) op tw(2) Let_def leD)
  ultimately show ?thesis unfolding g split k using True km by (simp add: clear_clear take_mem_read)
next
  case False
  have c: "ctx_aead ctx = Some aead" "0 < t" "t \<le> 16" "unat (tag_len (ctx_state ctx)) = t" "chacha_aeads aead" using ctx by (simp_all add: configured_def)
  have op: "aead_open aead = None" using c(5) by (auto simp: chacha_aeads_def aead_chacha20_poly1305_def aead_xchacha20_poly1305_def)
  have tw: "unat (of_nat t :: u64) = t" "ucast (tag_len (ctx_state ctx)) = (of_nat t :: u64)" using c(3,4) by (auto simp: unat_of_nat take_bit_nat_eq_self of_nat_unat)
  have "t \<le> unat in_len \<Longrightarrow> unat (in_len - of_nat t) = unat in_len - t" by (simp add: unat_sub word_le_nat_alt tw(1))
  moreover have "(of_nat t :: u64) \<noteq> 0" using tw(1) c(2) by (metis unat_0 less_irrefl)
  ultimately show ?thesis using False c(2)
    by (auto simp: EVP_AEAD_CTX_open_def c(1) op tw Let_def opened_def word_le_nat_alt word_less_nat_alt)
qed

lemma opened_sealed: "t \<le> 16 \<Longrightarrow> opened aead key t nonce ad (aead_seal aead key t nonce ad text) = Some text"
proof -
  assume t: "t \<le> 16"
  let ?ks = "keystream (session_key aead key nonce) (session_nonce aead nonce) 1 0 (length text)"
  have "xor_list (take (length text) (aead_seal aead key t nonce ad text)) ?ks = text"
    by (simp add: aead_seal_def sealed_def Let_def xor_list_twice)
  then show ?thesis using t by (simp add: opened_def Let_def)
qed

text \<open>Sealing with extra input.\<close>

lemma seal_scatter_interface_eq:
  fixes inp out out_tag extra_in in_len max_out_tag_len extra_in_len :: u64 and m :: mem
  assumes ctx: "configured ctx aead key t"
    and len: "unat in_len < 2 ^ 38 - 64" "unat extra_in_len + t \<le> unat max_out_tag_len" "unat in_len + unat extra_in_len < 2 ^ 64"
    and mem: "fits out (unat in_len)" "fits inp (unat in_len)" "fits out_tag (unat max_out_tag_len)" "check_alias inp in_len out in_len"
      "\<not> buffers_alias out in_len out_tag max_out_tag_len" "\<not> buffers_alias inp in_len out_tag max_out_tag_len"
      "same_or_apart out_tag extra_in (unat extra_in_len)"
      "apart out (unat in_len) nonce (unat (nonce_len aead))" "apart out_tag (unat max_out_tag_len) nonce (unat (nonce_len aead))"
      "apart out (unat in_len) ad (unat ad_len)" "apart out_tag (unat max_out_tag_len) ad (unat ad_len)"
  defines "s \<equiv> aead_seal aead key t (mem_read m nonce (unat (nonce_len aead))) (mem_read m ad (unat ad_len))
      (mem_read m inp (unat in_len) @ mem_read m extra_in (unat extra_in_len))"
  shows "EVP_AEAD_CTX_seal_scatter ctx out out_tag max_out_tag_len nonce (ucast (nonce_len aead)) inp in_len extra_in extra_in_len ad ad_len m =
    Ok () (mem_write (mem_write m out (take (unat in_len) s)) out_tag (drop (unat in_len) s), extra_in_len + of_nat t)"
proof -
  let ?n = "mem_read m nonce (unat (nonce_len aead))" and ?k = "unat in_len"
  have c: "chacha_aeads aead" "length key = 32" "0 < t" "t \<le> 16" "ctx_aead ctx = Some aead" using ctx by (simp_all add: configured_def)
  have sup: "seal_scatter_supports_extra_in aead" using c(1) by (auto simp: chacha_aeads_def aead_chacha20_poly1305_def aead_xchacha20_poly1305_def)
  obtain reader where r: "\<And>m. length (reader m) = 12" "reader m = session_nonce aead ?n"
    "\<And>a n. apart a n nonce (unat (nonce_len aead)) \<Longrightarrow> blind reader a n"
    "aead_seal_scatter aead (ctx_state ctx) out out_tag max_out_tag_len nonce (ucast (nonce_len aead)) inp in_len extra_in extra_in_len ad ad_len m =
       chacha20_poly1305_seal_scatter (session_key aead key ?n) out out_tag max_out_tag_len reader 12 inp in_len extra_in extra_in_len ad ad_len (of_nat t) m"
    using seal_scatter_table[OF ctx, of m nonce out out_tag max_out_tag_len inp in_len extra_in extra_in_len ad ad_len] by blast
  have tw: "unat (of_nat t :: u64) = t" using c(4) by (simp add: unat_of_nat take_bit_nat_eq_self)
  have so: "same_or_apart out inp ?k" using check_alias_apart[OF mem(4,2,1)] apart_sym by (auto simp: same_or_apart_def)
  have ap: "apart out ?k out_tag (unat max_out_tag_len)" "apart inp ?k out_tag (unat max_out_tag_len)"
    using mem(5,6) not_alias_apart[OF mem(1,3)] not_alias_apart[OF mem(2,3)] buffers_alias_iff[OF mem(1,3)] buffers_alias_iff[OF mem(2,3)] by auto
  have "chacha20_poly1305_seal_scatter (session_key aead key ?n) out out_tag max_out_tag_len reader 12 inp in_len extra_in extra_in_len ad ad_len (of_nat t) m =
      Ok (extra_in_len + of_nat t) (let s = sealed (session_key aead key ?n) (reader m) (unat (of_nat t :: u64)) (mem_read m ad (unat ad_len))
          (mem_read m inp ?k @ mem_read m extra_in (unat extra_in_len))
        in mem_write (mem_write m out (take ?k s)) out_tag (drop ?k s))"
    by (rule seal_scatter_eq) (use c len tw r(1,3) mem so ap length_session[OF c(1,2), of ?n] in simp_all)
  then show ?thesis unfolding EVP_AEAD_CTX_seal_scatter_def s_def
    using mem(4,5,6) sup by (simp add: c(5) r(2,4) Let_def aead_seal_def tw)
qed

section \<open>Properties\<close>

text \<open>
  C19: sealing. In place or into a buffer of its own, \<open>EVP_AEAD_CTX_seal\<close> puts out the text combined with
  the key stream from block 1 on, then the tag: the Poly1305 tag, under the first 32 bytes of block 0,
  of the additional data and the ciphertext, each filled up to blocks, and their lengths.
\<close>

theorem aead_seal_exact:
  assumes "chacha_aeads aead" and "EVP_AEAD_CTX_init ctx0 aead key tag_length = Some (True, ctx)"
    and "unat in_len < 2 ^ 38 - 64" and "unat in_len + tag_size tag_length \<le> unat max_out_len"
    and "fits out (unat max_out_len)" and "fits inp (unat in_len)" and "check_alias inp in_len out max_out_len"
    and "apart out (unat max_out_len) nonce (unat (nonce_len aead))" and "apart out (unat max_out_len) ad (unat ad_len)"
  shows "EVP_AEAD_CTX_seal ctx out max_out_len nonce (ucast (nonce_len aead)) inp in_len ad ad_len m =
    Ok () (mem_write m out (aead_seal aead key (tag_size tag_length) (mem_read m nonce (unat (nonce_len aead))) (mem_read m ad (unat ad_len))
        (mem_read m inp (unat in_len))), in_len + of_nat (tag_size tag_length))"
  by (rule seal_eq[OF init_configured[OF assms(1,2)]]) (rule assms)+

text \<open>
  C10: opening. \<open>EVP_AEAD_CTX_open\<close> succeeds exactly if its input is what sealing some text with the same
  key, nonce and additional data puts out, and writes that text; on any failure, it is \<open>max_out_len\<close>
  zero bytes that are left in the output, and nothing else is changed.
\<close>

theorem aead_open_exact:
  assumes "chacha_aeads aead" and "EVP_AEAD_CTX_init ctx0 aead key tag_length = Some (True, ctx)"
    and "fits out (unat max_out_len)" and "fits inp (unat in_len)"
  defines "t \<equiv> tag_size tag_length"
  shows "EVP_AEAD_CTX_open ctx out max_out_len nonce nonce_length inp in_len ad ad_len m =
    (if check_alias inp in_len out max_out_len \<and> nonce_length = ucast (nonce_len aead) \<and> unat in_len - t \<le> unat max_out_len \<and> unat in_len - t < 2 ^ 38 - 64
     then (case opened aead key t (mem_read m nonce (unat (nonce_len aead))) (mem_read m ad (unat ad_len)) (mem_read m inp (unat in_len)) of
             Some text \<Rightarrow> Ok () (mem_write m out text, in_len - of_nat t)
           | None \<Rightarrow> Fail (mem_write m out (replicate (unat max_out_len) 0), 0))
     else Fail (mem_write m out (replicate (unat max_out_len) 0), 0))"
  unfolding t_def clear_def[symmetric] by (rule open_eq[OF init_configured[OF assms(1,2)] assms(3,4)])

text \<open>
  C11: what was sealed is opened again, in any memory to which the output, the nonce and the additional
  data have been brought, in place or not.
\<close>

theorem aead_roundtrip:
  assumes "chacha_aeads aead" and "EVP_AEAD_CTX_init ctx0 aead key tag_length = Some (True, ctx)"
    and "unat in_len < 2 ^ 38 - 64" and "unat in_len + tag_size tag_length \<le> unat max_out_len"
    and "fits out (unat max_out_len)" and "fits inp (unat in_len)" and "check_alias inp in_len out max_out_len"
    and "apart out (unat max_out_len) nonce (unat (nonce_len aead))" and "apart out (unat max_out_len) ad (unat ad_len)"
    and "EVP_AEAD_CTX_seal ctx out max_out_len nonce (ucast (nonce_len aead)) inp in_len ad ad_len m = Ok () (m1, n)"
    and "mem_read m2 inp2 (unat n) = mem_read m1 out (unat n)" and "mem_read m2 ad2 (unat ad_len) = mem_read m ad (unat ad_len)"
    and "mem_read m2 nonce2 (unat (nonce_len aead)) = mem_read m nonce (unat (nonce_len aead))"
    and "fits out2 (unat max_out2)" and "fits inp2 (unat n)" and "check_alias inp2 n out2 max_out2" and "in_len \<le> max_out2"
  shows "EVP_AEAD_CTX_open ctx out2 max_out2 nonce2 (ucast (nonce_len aead)) inp2 n ad2 ad_len m2 =
    Ok () (mem_write m2 out2 (mem_read m inp (unat in_len)), in_len)"
proof -
  let ?t = "tag_size tag_length"
  note ctx = init_configured[OF assms(1,2)]
  have t: "?t \<le> 16" using ctx by (simp add: configured_def)
  let ?s = "aead_seal aead key ?t (mem_read m nonce (unat (nonce_len aead))) (mem_read m ad (unat ad_len)) (mem_read m inp (unat in_len))"
  have m1: "m1 = mem_write m out ?s" and n: "n = in_len + of_nat ?t" using seal_eq[OF ctx assms(3-9), of m] assms(10) by simp_all
  have un: "unat n = unat in_len + ?t" using n t assms(3) by (simp add: unat_word_ariths unat_of_nat take_bit_nat_eq_self)
  then have "mem_read m2 inp2 (unat n) = ?s" using assms(11) m1 t mem_read_write_same[of ?s m out] unat_le_bound[of n] by simp
  then show ?thesis using open_eq[OF ctx assms(14,15), of nonce2 "ucast (nonce_len aead)" ad2 ad_len m2] assms(3,12,13,16,17) un t
    by (simp add: opened_sealed n word_le_nat_alt)
qed

text \<open>
  C20: extra input is sealed as if it followed the input: what goes to the two buffers of
  \<open>EVP_AEAD_CTX_seal_scatter\<close> is, put together, the sealing of both texts together.
\<close>

theorem aead_seal_scatter_exact:
  assumes "chacha_aeads aead" and "EVP_AEAD_CTX_init ctx0 aead key tag_length = Some (True, ctx)"
    and "unat in_len < 2 ^ 38 - 64" and "unat extra_in_len + tag_size tag_length \<le> unat max_out_tag_len" and "unat in_len + unat extra_in_len < 2 ^ 64"
    and "fits out (unat in_len)" and "fits inp (unat in_len)" and "fits out_tag (unat max_out_tag_len)" and "check_alias inp in_len out in_len"
    and "\<not> buffers_alias out in_len out_tag max_out_tag_len" and "\<not> buffers_alias inp in_len out_tag max_out_tag_len"
    and "same_or_apart out_tag extra_in (unat extra_in_len)"
    and "apart out (unat in_len) nonce (unat (nonce_len aead))" and "apart out_tag (unat max_out_tag_len) nonce (unat (nonce_len aead))"
    and "apart out (unat in_len) ad (unat ad_len)" and "apart out_tag (unat max_out_tag_len) ad (unat ad_len)"
  shows "\<exists>ct rest. ct @ rest = aead_seal aead key (tag_size tag_length) (mem_read m nonce (unat (nonce_len aead))) (mem_read m ad (unat ad_len))
        (mem_read m inp (unat in_len) @ mem_read m extra_in (unat extra_in_len)) \<and> length ct = unat in_len \<and>
      EVP_AEAD_CTX_seal_scatter ctx out out_tag max_out_tag_len nonce (ucast (nonce_len aead)) inp in_len extra_in extra_in_len ad ad_len m =
        Ok () (mem_write (mem_write m out ct) out_tag rest, extra_in_len + of_nat (tag_size tag_length))"
proof -
  note ctx = init_configured[OF assms(1,2)]
  have "tag_size tag_length \<le> 16" using ctx by (simp add: configured_def)
  then show ?thesis using seal_scatter_interface_eq[OF ctx assms(3-16), of m]
    by (intro exI[of "\<lambda>ct. \<exists>rest. _ ct rest" "take (unat in_len) (aead_seal aead key (tag_size tag_length) (mem_read m nonce (unat (nonce_len aead)))
        (mem_read m ad (unat ad_len)) (mem_read m inp (unat in_len) @ mem_read m extra_in (unat extra_in_len)))"]
      exI[of _ "drop (unat in_len) (aead_seal aead key (tag_size tag_length) (mem_read m nonce (unat (nonce_len aead)))
        (mem_read m ad (unat ad_len)) (mem_read m inp (unat in_len) @ mem_read m extra_in (unat extra_in_len)))"]) simp
qed

text \<open>The block counter has 32 bits: after 2^32 - 1 blocks the key stream starts again with block 0.\<close>

lemma keystream_wraps: "keystream key nonce 1 (2 ^ 38 - 64) n = keystream key nonce 0 0 n"
proof -
  have "key_byte key nonce 1 (2 ^ 38 - 64 + i) = key_byte key nonce 0 i" for i
  proof -
    have e: "(2 ^ 38 - 64 :: nat) = 64 * (2 ^ 32 - 1)" by simp
    have "(2 ^ 38 - 64 + i) div 64 = 2 ^ 32 - 1 + i div 64" "(2 ^ 38 - 64 + i) mod 64 = i mod 64"
      unfolding e by (simp_all only: div_mult_self4 mod_mult_self4)
    moreover have "(1 + of_nat (2 ^ 32 - 1 + x) :: u32) = of_nat x" for x by simp
    ultimately show ?thesis by (simp only: key_byte_def) simp
  qed
  then show ?thesis by (intro nth_equalityI) (simp_all add: keystream_def)
qed

lemma xor_list_inner:
  assumes "length xs = n" and "33 \<le> n"
  shows "take 32 (drop 1 (xor_list xs (keystream key nonce c i n))) = xor_list (take 32 (drop 1 xs)) (keystream key nonce c (i + 1) 32)"
  by (rule nth_equalityI) (use assms in \<open>simp_all add: xor_list_def keystream_nth\<close>)

lemma aead_seal_split:
  assumes "length xs = k"
  shows "drop k (aead_seal aead key t nonce ad (xs @ ys)) =
    xor_list ys (keystream (session_key aead key nonce) (session_nonce aead nonce) 1 k (length ys)) @
      take t (mac (session_key aead key nonce) (session_nonce aead nonce) ad
        (xor_list (xs @ ys) (keystream (session_key aead key nonce) (session_nonce aead nonce) 1 0 (length (xs @ ys)))))"
  using assms by (simp add: aead_seal_def sealed_def Let_def keystream_append xor_list_append)

text \<open>
  C21: the limit of 2^38 - 64 bytes, which keeps the counter from wrapping, is checked for the input
  without the extra input. With as long an input as is accepted, the second byte of extra input and
  the 31 bytes after it are combined with the very key of the tag.
\<close>

theorem extra_input_meets_tag_key:
  fixes extra_in nonce :: u64 and m :: mem
  assumes "chacha_aeads aead" and "EVP_AEAD_CTX_init ctx0 aead key tag_length = Some (True, ctx)"
    and "unat in_len = 2 ^ 38 - 65" and "33 \<le> unat extra_in_len" and "unat extra_in_len + tag_size tag_length \<le> unat max_out_tag_len"
    and "unat in_len + unat extra_in_len < 2 ^ 64"
    and "fits out (unat in_len)" and "fits inp (unat in_len)" and "fits out_tag (unat max_out_tag_len)" and "check_alias inp in_len out in_len"
    and "\<not> buffers_alias out in_len out_tag max_out_tag_len" and "\<not> buffers_alias inp in_len out_tag max_out_tag_len"
    and "same_or_apart out_tag extra_in (unat extra_in_len)"
    and "apart out (unat in_len) nonce (unat (nonce_len aead))" and "apart out_tag (unat max_out_tag_len) nonce (unat (nonce_len aead))"
    and "apart out (unat in_len) ad (unat ad_len)" and "apart out_tag (unat max_out_tag_len) ad (unat ad_len)"
  defines "n \<equiv> mem_read m nonce (unat (nonce_len aead))"
  shows "\<exists>m'. EVP_AEAD_CTX_seal_scatter ctx out out_tag max_out_tag_len nonce (ucast (nonce_len aead)) inp in_len extra_in extra_in_len ad ad_len m =
        Ok () (m', extra_in_len + of_nat (tag_size tag_length)) \<and>
      mem_read m' (out_tag + 1) 32 = xor_list (mem_read m (extra_in + 1) 32) (keystream (session_key aead key n) (session_nonce aead n) 0 0 32)"
proof -
  note ctx = init_configured[OF assms(1,2)]
  have t: "tag_size tag_length \<le> 16" using ctx by (simp add: configured_def)
  let ?ks = "keystream (session_key aead key n) (session_nonce aead n)" and ?e = "unat extra_in_len"
  let ?x = "xor_list (mem_read m extra_in ?e) (?ks 1 (unat in_len) ?e)"
  let ?ad = "mem_read m ad (unat ad_len)" and ?text = "mem_read m inp (unat in_len) @ mem_read m extra_in ?e"
  let ?s = "aead_seal aead key (tag_size tag_length) n ?ad ?text"
  let ?m1 = "mem_write m out (take (unat in_len) ?s)"
  obtain tag where d: "drop (unat in_len) ?s = ?x @ tag" and l: "length tag = tag_size tag_length"
    using aead_seal_split[of "mem_read m inp (unat in_len)" "unat in_len" aead key "tag_size tag_length" n ?ad "mem_read m extra_in ?e"] t by simp
  let ?m' = "mem_write ?m1 out_tag (?x @ tag)"
  have inner: "take 32 (drop 1 (mem_read M a N)) = mem_read M (a + 1) 32" if "33 \<le> N" for N M a
    using drop_mem_read[of 1 M a N] take_mem_read[of 32 "N - 1" M "a + 1"] that by simp
  have call: "EVP_AEAD_CTX_seal_scatter ctx out out_tag max_out_tag_len nonce (ucast (nonce_len aead)) inp in_len extra_in extra_in_len ad ad_len m =
      Ok () (?m', extra_in_len + of_nat (tag_size tag_length))"
    using seal_scatter_interface_eq[OF ctx _ assms(5-17), of m] assms(3) unfolding n_def[symmetric] d by simp
  have "mem_read ?m' out_tag (?e + tag_size tag_length) = ?x @ tag"
    using mem_read_write_same[of "?x @ tag" ?m1 out_tag] l assms(5) unat_le_bound[of max_out_tag_len] by simp
  then have "take 32 (drop 1 (mem_read ?m' out_tag (?e + tag_size tag_length))) = take 32 (drop 1 (?x @ tag))" by (simp only:)
  then have "mem_read ?m' (out_tag + 1) 32 = take 32 (drop 1 ?x)"
    unfolding inner[of "?e + tag_size tag_length" ?m' out_tag, OF trans_le_add1[OF assms(4)]] using assms(4) by simp
  also have "\<dots> = xor_list (mem_read m (extra_in + 1) 32) (?ks 0 0 32)"
  proof -
    have e: "2 ^ 38 - 64 = unat in_len + 1" by (simp add: assms(3))
    have "take 32 (drop 1 ?x) = xor_list (take 32 (drop 1 (mem_read m extra_in ?e))) (?ks 1 (2 ^ 38 - 64) 32)"
      unfolding e by (rule xor_list_inner[OF length_mem_read assms(4)])
    then show ?thesis by (simp only: keystream_wraps inner[OF assms(4)])
  qed
  finally show ?thesis using call by (intro exI[of _ ?m']) (rule conjI)
qed

section \<open>Witnesses\<close>

definition sample_ctx :: EVP_AEAD_CTX where
  "sample_ctx = \<lparr>ctx_aead = Some aead_chacha20_poly1305, ctx_state = \<lparr>ctx_key = replicate 32 7, tag_len = 16\<rparr>\<rparr>"

lemma sample_init: "chacha_aeads aead_chacha20_poly1305" "EVP_AEAD_CTX_init EVP_AEAD_CTX_zero aead_chacha20_poly1305 (replicate 32 7) 0 = Some (True, sample_ctx)"
  "nonce_len aead_chacha20_poly1305 = 12" "tag_size 0 = 16"
proof -
  show c: "chacha_aeads aead_chacha20_poly1305" by (simp add: chacha_aeads_def)
  show "EVP_AEAD_CTX_init EVP_AEAD_CTX_zero aead_chacha20_poly1305 (replicate 32 7) 0 = Some (True, sample_ctx)"
    unfolding init_eq[OF c] by (simp add: sample_ctx_def EVP_AEAD_CTX_zero_def tag_size_def)
  show "nonce_len aead_chacha20_poly1305 = 12" "tag_size 0 = 16" by (simp_all add: aead_chacha20_poly1305_def tag_size_def)
qed

lemma apart_far: "unat a + n < 2 ^ 64 \<Longrightarrow> unat b + k < 2 ^ 64 \<Longrightarrow> unat a + n \<le> unat b \<or> unat b + k \<le> unat a \<Longrightarrow> apart a n b k"
  by (rule not_alias_apart) (auto simp: fits_def)

theorem aead_seal_exact_witness:
  "EVP_AEAD_CTX_seal sample_ctx 1000 64 100 12 1000 20 200 8 (\<lambda>_. 5) =
    Ok () (mem_write (\<lambda>_. 5) 1000 (aead_seal aead_chacha20_poly1305 (replicate 32 7) 16 (replicate 12 5) (replicate 8 5) (replicate 20 5)), 36)"
proof -
  have "mem_read (\<lambda>_. 5) a n = replicate n 5" for a n by (induction n arbitrary: a) simp_all
  then show ?thesis
    using aead_seal_exact[OF sample_init(1,2), of 20 64 1000 1000 100 200 8 "\<lambda>_. 5"] apart_far
    by (simp add: sample_init(3,4) fits_def check_alias_def)
qed

theorem aead_open_exact_witness:
  "EVP_AEAD_CTX_open sample_ctx 1000 64 100 12 1000 15 200 8 (\<lambda>_. 5) = Fail (mem_write (\<lambda>_. 5) 1000 (replicate 64 0), 0)"
  using aead_open_exact[OF sample_init(1,2), of 1000 64 1000 15 100 12 200 8 "\<lambda>_. 5"]
  by (simp add: sample_init(3,4) fits_def opened_def)

lemma sample_seal:
  defines "m1 \<equiv> mem_write (\<lambda>_. 5) 1000 (aead_seal aead_chacha20_poly1305 (replicate 32 7) 16 (replicate 12 5) (replicate 8 5) (replicate 20 5))"
  shows "EVP_AEAD_CTX_seal sample_ctx 1000 64 100 12 1000 20 200 8 (\<lambda>_. 5) = Ok () (m1, 36)" "mem_read m1 100 12 = replicate 12 5" "mem_read m1 200 8 = replicate 8 5"
proof -
  have r: "mem_read (\<lambda>_. 5) a n = replicate n 5" for a n by (induction n arbitrary: a) simp_all
  show "EVP_AEAD_CTX_seal sample_ctx 1000 64 100 12 1000 20 200 8 (\<lambda>_. 5) = Ok () (m1, 36)"
    using seal_eq[OF init_configured[OF sample_init(1,2)], of 20 64 1000 1000 100 200 8 "\<lambda>_. 5"] apart_far
    by (simp add: sample_init(3,4) fits_def check_alias_def m1_def r)
  show "mem_read m1 100 12 = replicate 12 5" "mem_read m1 200 8 = replicate 8 5"
    unfolding m1_def by (subst mem_read_apart; simp add: r apart_far)+
qed

theorem aead_roundtrip_witness:
  "\<exists>m1. EVP_AEAD_CTX_seal sample_ctx 1000 64 100 12 1000 20 200 8 (\<lambda>_. 5) = Ok () (m1, 36) \<and>
     EVP_AEAD_CTX_open sample_ctx 1000 20 100 12 1000 36 200 8 m1 = Ok () (mem_write m1 1000 (replicate 20 5), 20)"
proof -
  have r: "mem_read (\<lambda>_. 5) a n = replicate n 5" for a n by (induction n arbitrary: a) simp_all
  obtain m1 where m1: "EVP_AEAD_CTX_seal sample_ctx 1000 64 100 12 1000 20 200 8 (\<lambda>_. 5) = Ok () (m1, 36)"
    "mem_read m1 100 12 = replicate 12 5" "mem_read m1 200 8 = replicate 8 5" using sample_seal by blast
  have "EVP_AEAD_CTX_open sample_ctx 1000 20 100 (ucast (nonce_len aead_chacha20_poly1305)) 1000 36 200 8 m1 =
      Ok () (mem_write m1 1000 (mem_read (\<lambda>_. 5) 1000 (unat (20 :: u64))), 20)"
    by (rule aead_roundtrip[OF sample_init(1,2), of 20 64 1000 1000 100 200 8 "\<lambda>_. 5" m1 36 m1])
      (use m1 apart_far in \<open>simp_all add: sample_init(3,4) fits_def check_alias_def r\<close>)
  then show ?thesis using m1(1) by (auto simp: sample_init(3) r)
qed

theorem aead_seal_scatter_exact_witness:
  "\<exists>ct rest. ct @ rest = aead_seal aead_chacha20_poly1305 (replicate 32 7) 16 (replicate 12 5) (replicate 8 5) (replicate 25 5) \<and> length ct = 20 \<and>
     EVP_AEAD_CTX_seal_scatter sample_ctx 1000 2000 64 100 12 1000 20 300 5 200 8 (\<lambda>_. 5) =
       Ok () (mem_write (mem_write (\<lambda>_. 5) 1000 ct) 2000 rest, 21)"
proof -
  have r: "mem_read (\<lambda>_. 5) a n = replicate n 5" for a n by (induction n arbitrary: a) simp_all
  have "replicate 20 (5 :: u8) @ replicate 5 5 = replicate 25 5" by (simp flip: replicate_add)
  then show ?thesis
    using aead_seal_scatter_exact[OF sample_init(1,2), of 20 5 64 1000 1000 2000 300 100 200 8 "\<lambda>_. 5"] apart_far
    by (simp add: sample_init(3,4) fits_def check_alias_def buffers_alias_def same_or_apart_def r)
qed

theorem extra_input_meets_tag_key_witness:
  "\<exists>m'. EVP_AEAD_CTX_seal_scatter sample_ctx 0x10000000000 0x20000000000 64 100 12 0x10000000000 0x3fffffffbf 300 33 200 8 (\<lambda>_. 5) =
        Ok () (m', 49) \<and>
      mem_read m' (0x20000000000 + 1) 32 = xor_list (replicate 32 5) (keystream (replicate 32 7) (replicate 12 5) 0 0 32)"
proof -
  have r: "mem_read (\<lambda>_. 5) a n = replicate n 5" for a n by (induction n arbitrary: a) simp_all
  show ?thesis
    using extra_input_meets_tag_key[OF sample_init(1,2), of "0x3fffffffbf" 33 64 "0x10000000000" "0x10000000000" "0x20000000000" 300 100 200 8 "\<lambda>_. 5"] apart_far
    by (simp add: sample_init(3,4) fits_def check_alias_def buffers_alias_def same_or_apart_def r session_key_def session_nonce_def)
qed

end
