(* ===== verification/Spec2Isabelle.thy ===== *)
theory Spec2Isabelle
  imports Nanopb_Required Nanopb_Safety Nanopb_Framing Base64 Stack Pool_Threads Unicode Ber_Exact Aead_Props
begin

text \<open>
  The C code of Quick-Note: the libraries that its build compiles under QuickNote/Pods.

  The app (Swift, under QuickNote/QuickNote) keeps its notes in Firestore. What it stores and
  loads passes through C: nanopb encodes and decodes the protocol-buffer messages of Firestore, and
  BoringSSL carries the connection and reads certificates and keys. This development models nanopb
  completely and the data handling of BoringSSL: its containers, base64, the reader and the writer
  of byte strings, the conversions between text, BER and DER, and ChaCha20-Poly1305. src/ below stands for
  QuickNote/Pods/nanopb and QuickNote/Pods/BoringSSL-GRPC/src.

  Conventions. A C function that returns success or failure is a function from its state to an
  \<open>outcome\<close>: \<open>Ok\<close> with a value and the new state, \<open>Fail\<close> with the state then, and \<open>NoResult\<close> for what C
  leaves undefined (an access outside a buffer, a bad table entry) and for the end of the fuel of a
  recursion. \<open>bindo\<close> is the sequence of two calls with the early return on failure. Integers are
  words of their width on a 64-bit little-endian machine. Allocators, callbacks, comparison
  functions and qsort are parameters, with what the code relies on as named hypotheses
  (\<open>sized\<close>, \<open>never_fails\<close>, \<open>sorts\<close>, \<open>qsort_ok\<close> and others); each property with such a hypothesis has a
  witness with a concrete function.

  The theories, from the bottom:

  \<^item> Prelude: words, bytes of a word in little-endian order, the outcome type, collections of rules.

  \<^item> Nanopb_Stream (pb_encode.c, pb_decode.c): output and input streams, their buffer callbacks,
    pb_write and pb_read. Nanopb_Scalar: varints, zig-zag, fixed-width values, tags, strings,
    skipping and substreams, with the round trips. Nanopb_Iter (pb_common.c, pb.h): descriptor tables
    and the iterator over the fields of a message; pb_field_iter_find as a bounded search.
    Nanopb_Encode: every field encoder and pb_encode with its framings. The recursion over
    submessages has fuel; pb_encode_returns shows that the nesting depth of the descriptors is
    enough. Its exactness takes callbacks that put out the same bytes each time;
    Nanopb_Framing does not: its callbacks append what they like, and the framings notice a message
    that changes its size between the two passes. Nanopb_Decode: every field decoder, defaults, release, oneof, extensions and pb_decode,
    with fuel in the same way. Nanopb_Decode_Props, Nanopb_Required and Nanopb_Safety: exact size
    checks of allocations, integer fields from encoder to decoder, required fields, and writes that
    stay inside their fields.

  \<^item> Const_Time (crypto/internal.h): the masks of the constant-time primitives. Base64
    (crypto/base64/base64.c): block and streaming coder; the streaming coder is independent of how the
    input is cut, and decoding gives the input back.

  \<^item> Stack (crypto/stack/stack.c): the pointer stack as a refinement of lists through a locale of list
    operations, the invariant of every history of calls, deep copies included, and the binary search
    against the linear one, with the sorted flag that sk_set leaves wrong. Lhash (crypto/lhash/lhash.c): the chained hash table as a refinement of a dictionary, across
    resizing.

  \<^item> Pool (crypto/pool/pool.c, crypto/refcount_c11.c): buffers with reference counts that a pool, a
    table of Lhash, shares by their contents. Pool_Threads: every section under a lock is one step of
    a relation between threads, whose invariant says that counters are exact, that nothing is used
    after it is freed, and that nothing is left when all references are released.

  \<^item> Cbs (crypto/bytestring/cbs.c): every reader of byte strings. The parser of DER elements accepts
    exactly the canonical encodings (\<open>der_element\<close>, the specification that the later theories share).
    Asn1_Integer: the readers of integers, booleans and length-prefixed strings accept exactly the
    shortest encodings. Elements: every call of the parser consumes something, and what BER allows
    beside DER.

  \<^item> Cbb (crypto/bytestring/cbb.c): the writer. CBBs that share a buffer are one state, the buffer and
    the children from the outermost to the innermost. Cbb_Flush: what filling in the pending lengths
    makes of the data, to any depth of children. Cbb_Write: \<open>appends\<close>, the contract of every writing
    operation, composed by \<open>appends_bindo\<close>. Cbb_Der: the DER values, and what a finished CBB returns.
    Set_Of: the sorting of a SET OF.

  \<^item> Oid (cbb.c, cbs.c): object identifiers from text and to text. Unicode
    (crypto/bytestring/unicode.c): UTF-8, UTF-32, UCS-2 and Latin-1. Ber (crypto/bytestring/ber.c):
    the conversion of BER to DER, which follows inductive rules on the bytes; the rounds of its loops
    are bounded by an argument, and one more than the length of the input is enough. Ber_Exact: it
    converts every input that these rules take; the walk that looks for BER is the relation \<open>ber_walk\<close>,
    so that failure is exact as well, and forgets BER that DER siblings follow.

  \<^item> Poly1305 (crypto/poly1305/poly1305.c): the portable authenticator on limbs of 26 bits against the
    polynomial of RFC 8439 over natural numbers. Poly1305_Tag: streaming in any pieces, and the tag,
    which is exact except for a few accumulators (\<open>short_tag\<close>), where it is 2^26 too small.

  \<^item> Chacha (crypto/chacha/chacha.c): ChaCha20 on memory, in place or not, as the exclusive or with a
    key stream given by position. Aead (crypto/fipsmodule/cipher/aead.c,
    crypto/cipher_extra/e_chacha20poly1305.c): the interface of authenticated encryption and the two
    algorithms made of ChaCha20 and Poly1305. Aead_Props: opening accepts exactly what sealing puts
    out, and what is left in the output when it does not.

  How the components meet: Pool runs the table of Lhash on buffers whose contents are its hash and
  comparison; its invariant carries that of the table across every change of memory. Set_Of, Oid,
  Unicode and Ber run the readers of Cbs and the operations of Cbb together, so that their properties
  go through the contracts of both; Aead runs the cipher of Chacha, the authenticator of Poly1305 and
  the comparison of Cbs on shared buffers; the decoder of nanopb is proved against what its encoder
  puts out.

  Not modelled. The Swift, Objective-C and C++ parts (the app, Firebase, leveldb, abseil, gRPC): no
  C. In BoringSSL, the bignum, public-key, other cipher and digest code, whose core is assembly or calls
  it, the template-driven asn1 and x509 code and the TLS library, which work on object graphs with
  reference counts, and the wrappers of the operating system. Generated accessor tables and the
  .grpc_back copies have no behaviour of their own. In Lhash, callbacks of an iteration may not
  change the table.
\<close>

end
